(* ===== verification/Bson_Prelude.thy ===== *)
theory Bson_Prelude
  imports Main "HOL-Library.Word"
begin

unbundle bit_operations_syntax

text \<open>
  The prelude of the development: status codes (\<^verbatim>\<open>bson_status_t\<close> of
  include/custom_bson/bson_engine.h), the result type every fallible operation returns, the
  byte-level memory primitives, the little-endian codecs of wire_spec.h, and the facts about
  lists and words the components share.

  A C function that returns \<^verbatim>\<open>bson_status_t\<close> and fills out-parameters becomes a function into
  \<open>'a result\<close>: \<open>Ok\<close> carries the out-parameters and the new state, \<open>Err\<close> the status code,
  \<open>Fault\<close> is undefined behaviour (an access outside the object a pointer points into), and
  \<open>Diverge\<close> a loop that never ends. Error messages are not modelled, only codes.
\<close>

section \<open>Status codes and results\<close>

datatype bson_status =
    BSON_ERR_TRUNCATED_BUFFER | BSON_ERR_INVALID_LENGTH | BSON_ERR_INVALID_TYPE_BYTE
  | BSON_ERR_UNTERMINATED_STRING | BSON_ERR_INVALID_UTF8 | BSON_ERR_TRAILING_BYTES
  | BSON_ERR_MISSING_EOO | BSON_ERR_INTEGER_OVERFLOW | BSON_ERR_MAX_DEPTH_EXCEEDED
  | BSON_ERR_UNSUPPORTED_TYPE
  | BSON_ERR_UNSUPPORTED_PYTHON_TYPE | BSON_ERR_INVALID_KEY | BSON_ERR_DOCUMENT_TOO_LARGE
  | BSON_ERR_VALUE_OUT_OF_RANGE
  | BSON_ERR_OUT_OF_MEMORY | BSON_ERR_NOT_IMPLEMENTED
  | BSON_ERR_IO | BSON_ERR_INVALID_FILE_HEADER | BSON_ERR_RECORD_NOT_FOUND
  | BSON_ERR_INDEX_UNSUPPORTED | BSON_ERR_DUPLICATE_KEY | BSON_ERR_INVALID_UPDATE_DOCUMENT
  | BSON_ERR_READ_ONLY_VIOLATION

datatype 'a result = Ok 'a | Err bson_status | Fault | Diverge

fun rbind :: "'a result \<Rightarrow> ('a \<Rightarrow> 'b result) \<Rightarrow> 'b result" where
  "rbind (Ok x) f = f x"
| "rbind (Err e) f = Err e"
| "rbind Fault f = Fault"
| "rbind Diverge f = Diverge"

lemma rbind_cong [fundef_cong]:
  "m = m' \<Longrightarrow> (\<And>x. m' = Ok x \<Longrightarrow> f x = g x) \<Longrightarrow> rbind m f = rbind m' g"
  by (cases m') auto

lemma rbind_split:
  "P (rbind m f) \<longleftrightarrow>
     (\<forall>x. m = Ok x \<longrightarrow> P (f x)) \<and> (\<forall>e. m = Err e \<longrightarrow> P (Err e)) \<and>
     (m = Fault \<longrightarrow> P Fault) \<and> (m = Diverge \<longrightarrow> P Diverge)"
  by (cases m) auto

lemma rbind_split_asm:
  "P (rbind m f) \<longleftrightarrow>
     \<not> ((\<exists>x. m = Ok x \<and> \<not> P (f x)) \<or> (\<exists>e. m = Err e \<and> \<not> P (Err e)) \<or>
        (m = Fault \<and> \<not> P Fault) \<or> (m = Diverge \<and> \<not> P Diverge))"
  by (cases m) auto

lemmas rbind_splits = rbind_split rbind_split_asm

lemma rbind_Ok_iff [simp]: "rbind m f = Ok y \<longleftrightarrow> (\<exists>x. m = Ok x \<and> f x = Ok y)"
  by (cases m) auto

lemma rbind_assoc: "rbind (rbind m f) g = rbind m (\<lambda>x. rbind (f x) g)"
  by (cases m) auto

lemma rbind_Ok_right [simp]: "rbind m Ok = m"
  by (cases m) auto

text \<open>
  \<open>safe\<close> is the property a C programmer wants of every call: it comes back with a value or an
  error code, it neither leaves the objects it was given nor runs for ever.
\<close>

definition safe :: "'a result \<Rightarrow> bool" where
  "safe r \<longleftrightarrow> r \<noteq> Fault \<and> r \<noteq> Diverge"

lemma safe_simps [simp]: "safe (Ok x)" "safe (Err e)" "\<not> safe Fault" "\<not> safe Diverge"
  by (simp_all add: safe_def)

lemma safe_rbind [intro]:
  "safe m \<Longrightarrow> (\<And>x. m = Ok x \<Longrightarrow> safe (f x)) \<Longrightarrow> safe (rbind m f)"
  by (cases m) auto

lemma safe_cases:
  assumes "safe r"
  obtains x where "r = Ok x" | e where "r = Err e"
  using assms by (cases r) auto

section \<open>Machine sizes\<close>

text \<open>
  A \<^verbatim>\<open>size_t\<close> is a natural number below \<open>2 ^ 64\<close>. Where the code's arithmetic can leave that
  range the wrap-around is written out with the two operations below. An offset into an existing
  object plus a 31-bit length is written with plain addition: an object is smaller than
  \<open>2 ^ 63\<close> bytes (PTRDIFF_MAX), so that such a sum never wraps.
\<close>

definition SIZE_MAX :: nat where
  "SIZE_MAX = 2 ^ 64 - 1"

definition size_add :: "nat \<Rightarrow> nat \<Rightarrow> nat" where
  "size_add a b = (a + b) mod 2 ^ 64"

definition size_mul :: "nat \<Rightarrow> nat \<Rightarrow> nat" where
  "size_mul a b = (a * b) mod 2 ^ 64"

definition size_sub :: "nat \<Rightarrow> nat \<Rightarrow> nat" where
  "size_sub a b = (if b \<le> a then a - b else (a + 2 ^ 64) - b)"

lemma size_add_small [simp]: "a + b < 2 ^ 64 \<Longrightarrow> size_add a b = a + b"
  by (simp add: size_add_def)

lemma size_mul_small [simp]: "a * b < 2 ^ 64 \<Longrightarrow> size_mul a b = a * b"
  by (simp add: size_mul_def)

lemma size_sub_le [simp]: "b \<le> a \<Longrightarrow> size_sub a b = a - b"
  by (simp add: size_sub_def)

section \<open>Byte memory\<close>

type_synonym byte = "8 word"
type_synonym u16 = "16 word"
type_synonym u32 = "32 word"
type_synonym u64 = "64 word"

text \<open>\<open>peek\<close> and \<open>poke\<close> are memcpy out of and into an object; both fault outside of it.\<close>

definition peek :: "byte list \<Rightarrow> nat \<Rightarrow> nat \<Rightarrow> byte list result" where
  "peek m off n = (if off + n \<le> length m then Ok (take n (drop off m)) else Fault)"

definition poke :: "byte list \<Rightarrow> nat \<Rightarrow> byte list \<Rightarrow> byte list result" where
  "poke m off bs =
     (if off + length bs \<le> length m
      then Ok (take off m @ bs @ drop (off + length bs) m) else Fault)"

definition peek1 :: "byte list \<Rightarrow> nat \<Rightarrow> byte result" where
  "peek1 m off = (if off < length m then Ok (m ! off) else Fault)"

lemma peek_Ok [simp]: "off + n \<le> length m \<Longrightarrow> peek m off n = Ok (take n (drop off m))"
  by (simp add: peek_def)

lemma peek1_Ok [simp]: "off < length m \<Longrightarrow> peek1 m off = Ok (m ! off)"
  by (simp add: peek1_def)

lemma peek_eq_Ok: "peek m off n = Ok bs \<longleftrightarrow> off + n \<le> length m \<and> bs = take n (drop off m)"
  by (auto simp: peek_def)

lemma peek1_eq_Ok: "peek1 m off = Ok b \<longleftrightarrow> off < length m \<and> b = m ! off"
  by (auto simp: peek1_def)

lemma poke_eq_Ok:
  "poke m off bs = Ok m' \<longleftrightarrow>
     off + length bs \<le> length m \<and> m' = take off m @ bs @ drop (off + length bs) m"
  by (auto simp: poke_def)

lemma poke_length: "poke m off bs = Ok m' \<Longrightarrow> length m' = length m"
  by (auto simp: poke_eq_Ok)

end
