(* ===== verification/Bson_Bytes.thy ===== *)
theory Bson_Bytes
  imports Bson_Prelude
begin

text \<open>
  Little-endian codecs: include/custom_bson/wire_spec.h (type bytes, structural constants, the
  byte-order helpers) and the header field helpers \<^verbatim>\<open>read_u16\<close>, \<^verbatim>\<open>read_u64\<close>, \<^verbatim>\<open>write_u16\<close>,
  \<^verbatim>\<open>write_u32\<close>, \<^verbatim>\<open>write_u64\<close>, which storage.c and btree.c both define.

  \<open>le_nat\<close> reads a byte list as a little-endian number and \<open>nat_le\<close> writes one. The C code
  copies bytes into an integer of the host and swaps on a big-endian host; both hosts are
  modelled (\<open>memcpy_u32\<close>, \<open>bson_le32_to_host\<close>, \<dots>) and shown to compute \<open>le_nat\<close>, which the
  rest of the development uses.
\<close>

section \<open>Wire constants\<close>

definition BSON_TYPE_DOUBLE :: byte where "BSON_TYPE_DOUBLE = 0x01"
definition BSON_TYPE_STRING :: byte where "BSON_TYPE_STRING = 0x02"
definition BSON_TYPE_DOCUMENT :: byte where "BSON_TYPE_DOCUMENT = 0x03"
definition BSON_TYPE_ARRAY :: byte where "BSON_TYPE_ARRAY = 0x04"
definition BSON_TYPE_BINARY :: byte where "BSON_TYPE_BINARY = 0x05"
definition BSON_TYPE_UNDEFINED :: byte where "BSON_TYPE_UNDEFINED = 0x06"
definition BSON_TYPE_OBJECTID :: byte where "BSON_TYPE_OBJECTID = 0x07"
definition BSON_TYPE_BOOL :: byte where "BSON_TYPE_BOOL = 0x08"
definition BSON_TYPE_DATETIME :: byte where "BSON_TYPE_DATETIME = 0x09"
definition BSON_TYPE_NULL :: byte where "BSON_TYPE_NULL = 0x0A"
definition BSON_TYPE_REGEX :: byte where "BSON_TYPE_REGEX = 0x0B"
definition BSON_TYPE_DBPOINTER :: byte where "BSON_TYPE_DBPOINTER = 0x0C"
definition BSON_TYPE_JS_CODE :: byte where "BSON_TYPE_JS_CODE = 0x0D"
definition BSON_TYPE_SYMBOL :: byte where "BSON_TYPE_SYMBOL = 0x0E"
definition BSON_TYPE_JS_CODE_W_SCOPE :: byte where "BSON_TYPE_JS_CODE_W_SCOPE = 0x0F"
definition BSON_TYPE_INT32 :: byte where "BSON_TYPE_INT32 = 0x10"
definition BSON_TYPE_TIMESTAMP :: byte where "BSON_TYPE_TIMESTAMP = 0x11"
definition BSON_TYPE_INT64 :: byte where "BSON_TYPE_INT64 = 0x12"
definition BSON_TYPE_DECIMAL128 :: byte where "BSON_TYPE_DECIMAL128 = 0x13"
definition BSON_TYPE_MINKEY :: byte where "BSON_TYPE_MINKEY = 0xFF"
definition BSON_TYPE_MAXKEY :: byte where "BSON_TYPE_MAXKEY = 0x7F"

lemmas bson_type_defs =
  BSON_TYPE_DOUBLE_def BSON_TYPE_STRING_def BSON_TYPE_DOCUMENT_def BSON_TYPE_ARRAY_def
  BSON_TYPE_BINARY_def BSON_TYPE_UNDEFINED_def BSON_TYPE_OBJECTID_def BSON_TYPE_BOOL_def
  BSON_TYPE_DATETIME_def BSON_TYPE_NULL_def BSON_TYPE_REGEX_def BSON_TYPE_DBPOINTER_def
  BSON_TYPE_JS_CODE_def BSON_TYPE_SYMBOL_def BSON_TYPE_JS_CODE_W_SCOPE_def
  BSON_TYPE_INT32_def BSON_TYPE_TIMESTAMP_def BSON_TYPE_INT64_def BSON_TYPE_DECIMAL128_def
  BSON_TYPE_MINKEY_def BSON_TYPE_MAXKEY_def

definition BSON_DOC_MIN_LEN :: nat where "BSON_DOC_MIN_LEN = 5"
definition BSON_LENGTH_PREFIX_LEN :: nat where "BSON_LENGTH_PREFIX_LEN = 4"
definition BSON_OBJECTID_LEN :: nat where "BSON_OBJECTID_LEN = 12"
definition BSON_EOO_BYTE :: byte where "BSON_EOO_BYTE = 0"
definition BSON_SUBTYPE_GENERIC :: byte where "BSON_SUBTYPE_GENERIC = 0"
definition BSON_MAX_DOCUMENT_SIZE :: nat where "BSON_MAX_DOCUMENT_SIZE = 16 * 1024 * 1024"
definition BSON_MAX_DEPTH :: nat where "BSON_MAX_DEPTH = 100"

lemmas bson_const_defs =
  BSON_DOC_MIN_LEN_def BSON_LENGTH_PREFIX_LEN_def BSON_OBJECTID_LEN_def BSON_EOO_BYTE_def
  BSON_SUBTYPE_GENERIC_def BSON_MAX_DOCUMENT_SIZE_def BSON_MAX_DEPTH_def

section \<open>Little-endian numbers\<close>

fun le_nat :: "byte list \<Rightarrow> nat" where
  "le_nat [] = 0"
| "le_nat (b # bs) = unat b + 256 * le_nat bs"

fun nat_le :: "nat \<Rightarrow> nat \<Rightarrow> byte list" where
  "nat_le 0 v = []"
| "nat_le (Suc n) v = word_of_nat v # nat_le n (v div 256)"

lemma length_nat_le [simp]: "length (nat_le n v) = n"
  by (induction n arbitrary: v) auto

lemma unat_byte_less [simp]: "unat (b :: byte) < 256"
  using unsigned_less [of b, where ?'a = nat] by simp

lemma unat_byte_of_nat [simp]: "unat (word_of_nat v :: byte) = v mod 256"
  by (simp add: unat_of_nat)

lemma le_nat_bound: "le_nat bs < 256 ^ length bs"
proof (induction bs)
  case (Cons b bs)
  have "unat b + 256 * le_nat bs < 256 * (le_nat bs + 1)" by simp
  also have "\<dots> \<le> 256 * 256 ^ length bs" using Cons by simp
  finally show ?case by simp
qed simp

lemma le_nat_nat_le: "le_nat (nat_le n v) = v mod 256 ^ n"
  by (induction n arbitrary: v) (auto simp: mod_mult2_eq)

lemma le_nat_nat_le_small [simp]: "v < 256 ^ n \<Longrightarrow> le_nat (nat_le n v) = v"
  by (simp add: le_nat_nat_le)

lemma nat_le_le_nat: "nat_le (length bs) (le_nat bs) = bs"
proof (induction bs)
  case (Cons b bs)
  have "(word_of_nat (unat b + 256 * le_nat bs) :: byte) = b"
    by (simp add: word_unat_eq_iff unat_of_nat del: of_nat_add)
  moreover have "(unat b + 256 * le_nat bs) div 256 = le_nat bs" by simp
  ultimately show ?case using Cons by simp
qed simp

lemma nat_le_le_nat_eq: "length bs = n \<Longrightarrow> nat_le n (le_nat bs) = bs"
  using nat_le_le_nat [of bs] by simp

text \<open>The four bytes of a 32-bit field, for evaluation.\<close>

lemma nat_le_4: "nat_le 4 v =
    [word_of_nat v, word_of_nat (v div 256), word_of_nat (v div 65536), word_of_nat (v div 16777216)]"
proof -
  have "nat_le (Suc (Suc (Suc (Suc 0)))) v =
    [word_of_nat v, word_of_nat (v div 256), word_of_nat (v div 65536), word_of_nat (v div 16777216)]"
    by (simp add: div_mult2_eq [symmetric])
  moreover have "Suc (Suc (Suc (Suc 0))) = 4" by simp
  ultimately show ?thesis by (simp only:)
qed

lemma le_nat_inject: "length as = length bs \<Longrightarrow> le_nat as = le_nat bs \<Longrightarrow> as = bs"
  by (metis nat_le_le_nat)

section \<open>Fixed-width fields\<close>

definition read_u16 :: "byte list \<Rightarrow> nat \<Rightarrow> nat result" where
  "read_u16 m off = rbind (peek m off 2) (\<lambda>bs. Ok (le_nat bs))"

definition read_u64 :: "byte list \<Rightarrow> nat \<Rightarrow> nat result" where
  "read_u64 m off = rbind (peek m off 8) (\<lambda>bs. Ok (le_nat bs))"

definition write_u16 :: "byte list \<Rightarrow> nat \<Rightarrow> nat \<Rightarrow> byte list result" where
  "write_u16 m off v = poke m off (nat_le 2 v)"

definition write_u32 :: "byte list \<Rightarrow> nat \<Rightarrow> nat \<Rightarrow> byte list result" where
  "write_u32 m off v = poke m off (nat_le 4 v)"

definition write_u64 :: "byte list \<Rightarrow> nat \<Rightarrow> nat \<Rightarrow> byte list result" where
  "write_u64 m off v = poke m off (nat_le 8 v)"

text \<open>The signed reading of a 32-bit or 64-bit field.\<close>

definition i32_of :: "byte list \<Rightarrow> int" where
  "i32_of bs = sint (word_of_nat (le_nat bs) :: u32)"

definition i64_of :: "byte list \<Rightarrow> int" where
  "i64_of bs = sint (word_of_nat (le_nat bs) :: u64)"

definition le_i32 :: "int \<Rightarrow> byte list" where
  "le_i32 v = nat_le 4 (unat (word_of_int v :: u32))"

definition le_i64 :: "int \<Rightarrow> byte list" where
  "le_i64 v = nat_le 8 (unat (word_of_int v :: u64))"

lemma length_le_i32 [simp]: "length (le_i32 v) = 4"
  by (simp add: le_i32_def)

lemma length_le_i64 [simp]: "length (le_i64 v) = 8"
  by (simp add: le_i64_def)

lemma i32_of_le_i32: "- (2 ^ 31) \<le> v \<Longrightarrow> v < 2 ^ 31 \<Longrightarrow> i32_of (le_i32 v) = v"
proof -
  assume "- (2 ^ 31) \<le> v" "v < 2 ^ 31"
  moreover have "le_nat (le_i32 v) = unat (word_of_int v :: u32)"
    using unsigned_less [of "word_of_int v :: u32", where ?'a = nat] by (simp add: le_i32_def le_nat_nat_le)
  ultimately show ?thesis
    by (simp add: i32_of_def sint_sbintrunc' signed_take_bit_int_eq_self)
qed

lemma i64_of_le_i64: "- (2 ^ 63) \<le> v \<Longrightarrow> v < 2 ^ 63 \<Longrightarrow> i64_of (le_i64 v) = v"
proof -
  assume "- (2 ^ 63) \<le> v" "v < 2 ^ 63"
  moreover have "le_nat (le_i64 v) = unat (word_of_int v :: u64)"
    using unsigned_less [of "word_of_int v :: u64", where ?'a = nat] by (simp add: le_i64_def le_nat_nat_le)
  ultimately show ?thesis
    by (simp add: i64_of_def sint_sbintrunc' signed_take_bit_int_eq_self)
qed

lemma le_i32_i32_of: "length bs = 4 \<Longrightarrow> le_i32 (i32_of bs) = bs"
proof -
  assume l: "length bs = 4"
  then have "le_nat bs < 2 ^ 32" using le_nat_bound [of bs] by simp
  then show ?thesis
    using l by (simp add: le_i32_def i32_of_def unat_of_nat nat_le_le_nat_eq)
qed

lemma le_i64_i64_of: "length bs = 8 \<Longrightarrow> le_i64 (i64_of bs) = bs"
proof -
  assume l: "length bs = 8"
  then have "le_nat bs < 2 ^ 64" using le_nat_bound [of bs] by simp
  then show ?thesis
    using l by (simp add: le_i64_def i64_of_def unat_of_nat nat_le_le_nat_eq)
qed

lemma i32_of_range: "- (2 ^ 31) \<le> i32_of bs" "i32_of bs < 2 ^ 31"
  using sint_ge [of "word_of_nat (le_nat bs) :: u32"] sint_lt [of "word_of_nat (le_nat bs) :: u32"]
  by (simp_all add: i32_of_def)

lemma i64_of_range: "- (2 ^ 63) \<le> i64_of bs" "i64_of bs < 2 ^ 63"
  using sint_ge [of "word_of_nat (le_nat bs) :: u64"] sint_lt [of "word_of_nat (le_nat bs) :: u64"]
  by (simp_all add: i64_of_def)

section \<open>Hosts of either byte order\<close>

text \<open>
  \<^verbatim>\<open>memcpy(&value, bytes, 4)\<close> on a host: the most significant byte is first on a big-endian
  one.
\<close>

definition memcpy_u16 :: "bool \<Rightarrow> byte list \<Rightarrow> u16" where
  "memcpy_u16 big bs = word_of_nat (le_nat (if big then rev bs else bs))"

definition memcpy_u32 :: "bool \<Rightarrow> byte list \<Rightarrow> u32" where
  "memcpy_u32 big bs = word_of_nat (le_nat (if big then rev bs else bs))"

definition memcpy_u64 :: "bool \<Rightarrow> byte list \<Rightarrow> u64" where
  "memcpy_u64 big bs = word_of_nat (le_nat (if big then rev bs else bs))"

definition le16_to_host :: "bool \<Rightarrow> u16 \<Rightarrow> u16" where
  "le16_to_host big v = (if big then drop_bit 8 v OR push_bit 8 v else v)"

definition bson_le32_to_host :: "bool \<Rightarrow> u32 \<Rightarrow> u32" where
  "bson_le32_to_host big v =
     (if big
      then drop_bit 24 v OR (drop_bit 8 v AND 0x0000FF00) OR
           (push_bit 8 v AND 0x00FF0000) OR push_bit 24 v
      else v)"

definition bson_le64_to_host :: "bool \<Rightarrow> u64 \<Rightarrow> u64" where
  "bson_le64_to_host big v =
     (if big
      then drop_bit 56 v OR (drop_bit 40 v AND 0x000000000000FF00) OR
           (drop_bit 24 v AND 0x0000000000FF0000) OR
           (drop_bit 8 v AND 0x00000000FF000000) OR
           (push_bit 8 v AND 0x000000FF00000000) OR
           (push_bit 24 v AND 0x0000FF0000000000) OR
           (push_bit 40 v AND 0x00FF000000000000) OR
           push_bit 56 v
      else v)"

lemma bit_256_mult: "bit (256 * x :: nat) k \<longleftrightarrow> 8 \<le> k \<and> bit x (k - 8)"
proof -
  have "256 * x = push_bit 8 x" by (simp add: push_bit_eq_mult)
  then show ?thesis by (simp add: bit_push_bit_iff)
qed

lemma bit_le_nat:
  "bit (le_nat bs) n \<longleftrightarrow> n div 8 < length bs \<and> bit (bs ! (n div 8)) (n mod 8)"
proof (induction bs arbitrary: n)
  case (Cons b bs)
  have u: "bit (unat b) k \<longleftrightarrow> k < 8 \<and> bit b k" for k
    by (auto simp: bit_unsigned_iff dest: bit_imp_le_length)
  have "unat b AND 256 * le_nat bs = 0"
    by (auto simp: bit_eq_iff bit_and_iff bit_256_mult u)
  then have "le_nat (b # bs) = unat b OR 256 * le_nat bs"
    by (simp add: disjunctive_add_eq_or)
  then have "bit (le_nat (b # bs)) n \<longleftrightarrow> n < 8 \<and> bit b n \<or> 8 \<le> n \<and> bit (le_nat bs) (n - 8)"
    by (simp add: bit_or_iff bit_256_mult u)
  then show ?case
    by (cases "n < 8") (auto simp: Cons.IH nth_Cons' le_div_geq le_mod_geq)
qed simp

lemma upt_16: "[0..<16] = [0, 1, 2, 3, 4, 5, 6, 7, 8, 9, 10, 11, 12, 13, 14, 15]"
  by code_simp

lemma upt_32: "[0..<32] = [0, 1, 2, 3, 4, 5, 6, 7, 8, 9, 10, 11, 12, 13, 14, 15, 16, 17, 18,
     19, 20, 21, 22, 23, 24, 25, 26, 27, 28, 29, 30, 31]"
  by code_simp

lemma upt_64: "[0..<64] = [0, 1, 2, 3, 4, 5, 6, 7, 8, 9, 10, 11, 12, 13, 14, 15, 16, 17, 18,
     19, 20, 21, 22, 23, 24, 25, 26, 27, 28, 29, 30, 31, 32, 33, 34, 35, 36, 37, 38, 39, 40,
     41, 42, 43, 44, 45, 46, 47, 48, 49, 50, 51, 52, 53, 54, 55, 56, 57, 58, 59, 60, 61, 62,
     63]"
  by code_simp

lemma host_le16:
  assumes "length bs = 2"
  shows "le16_to_host big (memcpy_u16 big bs) = word_of_nat (le_nat bs)"
proof (rule bit_word_eqI)
  fix n assume "n < LENGTH(16)"
  then have n: "n \<in> set [0..<16]" by simp
  obtain a b where bs: "bs = [a, b]"
    using assms by (auto simp: length_Suc_conv eval_nat_numeral)
  have "\<forall>k \<in> set [0..<16]. bit (le16_to_host True (memcpy_u16 True bs)) k
      = bit (word_of_nat (le_nat bs) :: 16 word) k"
    unfolding upt_16 bs
    by (simp add: le16_to_host_def memcpy_u16_def bit_simps bit_le_nat 
        del: le_nat.simps)
  then show "bit (le16_to_host big (memcpy_u16 big bs)) n
      = bit (word_of_nat (le_nat bs) :: 16 word) n"
    using n by (cases big) (auto simp: le16_to_host_def memcpy_u16_def)
qed

lemma host_le32:
  assumes "length bs = 4"
  shows "bson_le32_to_host big (memcpy_u32 big bs) = word_of_nat (le_nat bs)"
proof (rule bit_word_eqI)
  fix n assume "n < LENGTH(32)"
  then have n: "n \<in> set [0..<32]" by simp
  obtain a b c d where bs: "bs = [a, b, c, d]"
    using assms by (auto simp: length_Suc_conv eval_nat_numeral)
  have "\<forall>k \<in> set [0..<32]. bit (bson_le32_to_host True (memcpy_u32 True bs)) k
      = bit (word_of_nat (le_nat bs) :: 32 word) k"
    unfolding upt_32 bs
    by (simp add: bson_le32_to_host_def memcpy_u32_def bit_simps bit_le_nat 
        del: le_nat.simps)
  then show "bit (bson_le32_to_host big (memcpy_u32 big bs)) n
      = bit (word_of_nat (le_nat bs) :: 32 word) n"
    using n by (cases big) (auto simp: bson_le32_to_host_def memcpy_u32_def)
qed

lemma host_le64:
  assumes "length bs = 8"
  shows "bson_le64_to_host big (memcpy_u64 big bs) = word_of_nat (le_nat bs)"
proof (rule bit_word_eqI)
  fix n assume "n < LENGTH(64)"
  then have n: "n \<in> set [0..<64]" by simp
  obtain a b c d e f g h where bs: "bs = [a, b, c, d, e, f, g, h]"
    using assms by (auto simp: length_Suc_conv eval_nat_numeral)
  have "\<forall>k \<in> set [0..<64]. bit (bson_le64_to_host True (memcpy_u64 True bs)) k
      = bit (word_of_nat (le_nat bs) :: 64 word) k"
    unfolding upt_64 bs
    by (simp add: bson_le64_to_host_def memcpy_u64_def bit_simps bit_le_nat 
        del: le_nat.simps)
  then show "bit (bson_le64_to_host big (memcpy_u64 big bs)) n
      = bit (word_of_nat (le_nat bs) :: 64 word) n"
    using n by (cases big) (auto simp: bson_le64_to_host_def memcpy_u64_def)
qed

text \<open>
  Storing runs the other way: \<^verbatim>\<open>BSON_HOST_TO_LE32\<close> is the same swap, then memcpy stores the
  bytes of the swapped integer in the host's order.
\<close>

definition store_u32 :: "bool \<Rightarrow> u32 \<Rightarrow> byte list" where
  "store_u32 big v = (if big then rev (nat_le 4 (unat v)) else nat_le 4 (unat v))"

definition store_u64 :: "bool \<Rightarrow> u64 \<Rightarrow> byte list" where
  "store_u64 big v = (if big then rev (nat_le 8 (unat v)) else nat_le 8 (unat v))"

lemma word_of_le_nat_4: "length bs = 4 \<Longrightarrow> nat_le 4 (unat (word_of_nat (le_nat bs) :: u32)) = bs"
  using le_nat_bound [of bs] by (simp add: unat_of_nat nat_le_le_nat_eq)

lemma word_of_le_nat_8: "length bs = 8 \<Longrightarrow> nat_le 8 (unat (word_of_nat (le_nat bs) :: u64)) = bs"
  using le_nat_bound [of bs] by (simp add: unat_of_nat nat_le_le_nat_eq)

lemma word_le_nat_nat_le_4 [simp]: "word_of_nat (le_nat (nat_le 4 (unat (v :: u32)))) = v"
  using unsigned_less [of v, where ?'a = nat] by (simp add: le_nat_nat_le)

lemma word_le_nat_nat_le_8 [simp]: "word_of_nat (le_nat (nat_le 8 (unat (v :: u64)))) = v"
  using unsigned_less [of v, where ?'a = nat] by (simp add: le_nat_nat_le)

lemma host_to_le32: "store_u32 big (bson_le32_to_host big v) = nat_le 4 (unat v)"
proof (cases big)
  case True
  have "bson_le32_to_host True v = word_of_nat (le_nat (rev (nat_le 4 (unat v))))"
    using host_le32 [of "rev (nat_le 4 (unat v))" True] by (simp add: memcpy_u32_def)
  with True show ?thesis by (simp add: store_u32_def word_of_le_nat_4)
qed (simp add: store_u32_def bson_le32_to_host_def)

lemma host_to_le64: "store_u64 big (bson_le64_to_host big v) = nat_le 8 (unat v)"
proof (cases big)
  case True
  have "bson_le64_to_host True v = word_of_nat (le_nat (rev (nat_le 8 (unat v))))"
    using host_le64 [of "rev (nat_le 8 (unat v))" True] by (simp add: memcpy_u64_def)
  with True show ?thesis by (simp add: store_u64_def word_of_le_nat_8)
qed (simp add: store_u64_def bson_le64_to_host_def)

section \<open>Properties\<close>

text \<open>
  A 32-bit or 64-bit field means the same on a little-endian and on a big-endian host: reading
  it (memcpy, then \<^verbatim>\<open>bson_le32_to_host\<close>) yields the little-endian number of its bytes, and writing
  (\<^verbatim>\<open>BSON_HOST_TO_LE32\<close>, then memcpy) stores the little-endian bytes of the value.
\<close>

theorem host_order_irrelevant:
  assumes "length bs = 4" "length cs = 8"
  shows "bson_le32_to_host big (memcpy_u32 big bs) = word_of_nat (le_nat bs) \<and>
    bson_le64_to_host big (memcpy_u64 big cs) = word_of_nat (le_nat cs) \<and>
    store_u32 big (bson_le32_to_host big v) = nat_le 4 (unat v) \<and>
    store_u64 big (bson_le64_to_host big w) = nat_le 8 (unat w)"
  using assms by (simp add: host_le32 host_le64 host_to_le32 host_to_le64)

theorem host_order_irrelevant_witness:
  "bson_le32_to_host True (memcpy_u32 True [1, 2, 3, 4]) = word_of_nat (le_nat [1, 2, 3, 4]) \<and>
    bson_le64_to_host True (memcpy_u64 True [1, 2, 3, 4, 5, 6, 7, 8]) = word_of_nat (le_nat [1, 2, 3, 4, 5, 6, 7, 8]) \<and>
    store_u32 True (bson_le32_to_host True 7) = nat_le 4 (unat (7 :: u32)) \<and>
    store_u64 True (bson_le64_to_host True 7) = nat_le 8 (unat (7 :: u64))"
  by (rule host_order_irrelevant) simp_all

end
