(* ===== verification/Bson_Reader.thy ===== *)
theory Bson_Reader
  imports Bson_Bytes
begin

text \<open>
  The bounds-checked cursor \<^verbatim>\<open>bson_reader_t\<close> of src/c_engine/bson_engine.c (section Reader).
  A pointer out-parameter that points into the buffer is its offset. An error leaves the reader
  as it was, so \<open>Err\<close> carries no reader.
\<close>

section \<open>State and operations\<close>

record bson_reader =
  rd_buf :: "byte list"
  rd_len :: nat
  rd_pos :: nat

definition bson_reader_init :: "byte list \<Rightarrow> nat \<Rightarrow> bson_reader" where
  "bson_reader_init buf len = \<lparr>rd_buf = buf, rd_len = len, rd_pos = 0\<rparr>"

definition bson_reader_remaining :: "bson_reader \<Rightarrow> nat" where
  "bson_reader_remaining r = size_sub (rd_len r) (rd_pos r)"

definition bson_reader_read_u8 :: "bson_reader \<Rightarrow> (byte \<times> bson_reader) result" where
  "bson_reader_read_u8 r =
     (if bson_reader_remaining r < 1 then Err BSON_ERR_TRUNCATED_BUFFER
      else rbind (peek1 (rd_buf r) (rd_pos r)) (\<lambda>b. Ok (b, r\<lparr>rd_pos := rd_pos r + 1\<rparr>)))"

definition bson_reader_read_i32 :: "bson_reader \<Rightarrow> (int \<times> bson_reader) result" where
  "bson_reader_read_i32 r =
     (if bson_reader_remaining r < 4 then Err BSON_ERR_TRUNCATED_BUFFER
      else rbind (peek (rd_buf r) (rd_pos r) 4)
             (\<lambda>raw. Ok (i32_of raw, r\<lparr>rd_pos := rd_pos r + 4\<rparr>)))"

definition bson_reader_read_i64 :: "bson_reader \<Rightarrow> (int \<times> bson_reader) result" where
  "bson_reader_read_i64 r =
     (if bson_reader_remaining r < 8 then Err BSON_ERR_TRUNCATED_BUFFER
      else rbind (peek (rd_buf r) (rd_pos r) 8)
             (\<lambda>raw. Ok (i64_of raw, r\<lparr>rd_pos := rd_pos r + 8\<rparr>)))"

text \<open>A double is its 64-bit pattern: the engine only copies doubles.\<close>

definition bson_reader_read_double :: "bson_reader \<Rightarrow> (u64 \<times> bson_reader) result" where
  "bson_reader_read_double r =
     (if bson_reader_remaining r < 8 then Err BSON_ERR_TRUNCATED_BUFFER
      else rbind (peek (rd_buf r) (rd_pos r) 8)
             (\<lambda>raw. Ok (word_of_nat (le_nat raw), r\<lparr>rd_pos := rd_pos r + 8\<rparr>)))"

definition bson_reader_read_bytes :: "bson_reader \<Rightarrow> nat \<Rightarrow> (nat \<times> bson_reader) result" where
  "bson_reader_read_bytes r count =
     (if bson_reader_remaining r < count then Err BSON_ERR_TRUNCATED_BUFFER
      else Ok (rd_pos r, r\<lparr>rd_pos := rd_pos r + count\<rparr>))"

function find_nul :: "byte list \<Rightarrow> nat \<Rightarrow> nat \<Rightarrow> nat result" where
  "find_nul buf i bound =
     (if i < bound
      then rbind (peek1 buf i) (\<lambda>b. if b \<noteq> 0 then find_nul buf (i + 1) bound else Ok i)
      else Ok i)"
  by pat_completeness auto
termination
  by (relation "measure (\<lambda>(buf, i, bound). bound - i)") auto

declare find_nul.simps [simp del]

definition bson_reader_read_cstring_bounded ::
    "bson_reader \<Rightarrow> nat \<Rightarrow> (nat \<times> nat \<times> bson_reader) result" where
  "bson_reader_read_cstring_bounded r bound0 =
     (let bound = (if bound0 > rd_len r then rd_len r else bound0) in
      if rd_pos r > bound then Err BSON_ERR_TRUNCATED_BUFFER
      else rbind (find_nul (rd_buf r) (rd_pos r) bound)
             (\<lambda>i. if i \<ge> bound then Err BSON_ERR_UNTERMINATED_STRING
                  else Ok (rd_pos r, i - rd_pos r, r\<lparr>rd_pos := i + 1\<rparr>)))"

definition bson_reader_skip :: "bson_reader \<Rightarrow> nat \<Rightarrow> bson_reader result" where
  "bson_reader_skip r count =
     (if bson_reader_remaining r < count then Err BSON_ERR_TRUNCATED_BUFFER
      else Ok (r\<lparr>rd_pos := rd_pos r + count\<rparr>))"

section \<open>Invariant: the cursor stays inside the buffer\<close>

definition reader_inv :: "bson_reader \<Rightarrow> bool" where
  "reader_inv r \<longleftrightarrow> rd_pos r \<le> rd_len r \<and> rd_len r \<le> length (rd_buf r)"

lemma remaining_inv [simp]: "reader_inv r \<Longrightarrow> bson_reader_remaining r = rd_len r - rd_pos r"
  by (simp add: reader_inv_def bson_reader_remaining_def)

lemma reader_inv_init [simp]: "len \<le> length buf \<Longrightarrow> reader_inv (bson_reader_init buf len)"
  by (simp add: reader_inv_def bson_reader_init_def)

text \<open>What each read returns, given the invariant, as one equation per operation.\<close>

lemma read_u8_eq:
  "reader_inv r \<Longrightarrow> bson_reader_read_u8 r =
     (if rd_pos r < rd_len r then Ok (rd_buf r ! rd_pos r, r\<lparr>rd_pos := rd_pos r + 1\<rparr>)
      else Err BSON_ERR_TRUNCATED_BUFFER)"
  by (auto simp: bson_reader_read_u8_def reader_inv_def bson_reader_remaining_def)

lemma read_i32_eq:
  "reader_inv r \<Longrightarrow> bson_reader_read_i32 r =
     (if rd_pos r + 4 \<le> rd_len r
      then Ok (i32_of (take 4 (drop (rd_pos r) (rd_buf r))), r\<lparr>rd_pos := rd_pos r + 4\<rparr>)
      else Err BSON_ERR_TRUNCATED_BUFFER)"
  by (auto simp: bson_reader_read_i32_def reader_inv_def bson_reader_remaining_def)

lemma read_i64_eq:
  "reader_inv r \<Longrightarrow> bson_reader_read_i64 r =
     (if rd_pos r + 8 \<le> rd_len r
      then Ok (i64_of (take 8 (drop (rd_pos r) (rd_buf r))), r\<lparr>rd_pos := rd_pos r + 8\<rparr>)
      else Err BSON_ERR_TRUNCATED_BUFFER)"
  by (auto simp: bson_reader_read_i64_def reader_inv_def bson_reader_remaining_def)

lemma read_double_eq:
  "reader_inv r \<Longrightarrow> bson_reader_read_double r =
     (if rd_pos r + 8 \<le> rd_len r
      then Ok (word_of_nat (le_nat (take 8 (drop (rd_pos r) (rd_buf r)))),
               r\<lparr>rd_pos := rd_pos r + 8\<rparr>)
      else Err BSON_ERR_TRUNCATED_BUFFER)"
  by (auto simp: bson_reader_read_double_def reader_inv_def bson_reader_remaining_def)

lemma read_bytes_eq:
  "reader_inv r \<Longrightarrow> bson_reader_read_bytes r n =
     (if rd_pos r + n \<le> rd_len r then Ok (rd_pos r, r\<lparr>rd_pos := rd_pos r + n\<rparr>)
      else Err BSON_ERR_TRUNCATED_BUFFER)"
  by (auto simp: bson_reader_read_bytes_def reader_inv_def bson_reader_remaining_def)

lemma skip_eq:
  "reader_inv r \<Longrightarrow> bson_reader_skip r n =
     (if rd_pos r + n \<le> rd_len r then Ok (r\<lparr>rd_pos := rd_pos r + n\<rparr>)
      else Err BSON_ERR_TRUNCATED_BUFFER)"
  by (auto simp: bson_reader_skip_def reader_inv_def bson_reader_remaining_def)

section \<open>The bounded search for a terminator\<close>

definition nul_free :: "byte list \<Rightarrow> bool" where
  "nul_free bs \<longleftrightarrow> 0 \<notin> set bs"

lemma nul_free_simps [simp]: "nul_free []" "nul_free (b # bs) \<longleftrightarrow> b \<noteq> 0 \<and> nul_free bs"
  by (auto simp: nul_free_def)

lemma find_nul_Ok:
  assumes "i \<le> bound" "bound \<le> length buf"
  obtains k where "find_nul buf i bound = Ok k" "i \<le> k" "k \<le> bound"
    "nul_free (take (k - i) (drop i buf))" "k < bound \<Longrightarrow> buf ! k = 0"
proof -
  have "\<exists>k. find_nul buf i bound = Ok k \<and> i \<le> k \<and> k \<le> bound \<and>
    nul_free (take (k - i) (drop i buf)) \<and> (k < bound \<longrightarrow> buf ! k = 0)"
    using assms
  proof (induction buf i bound rule: find_nul.induct)
    case (1 buf i bound)
    show ?case
    proof (cases "i < bound \<and> buf ! i \<noteq> 0")
      case True
      with 1 obtain k where k: "find_nul buf (i + 1) bound = Ok k" "i + 1 \<le> k" "k \<le> bound"
        "nul_free (take (k - (i + 1)) (drop (i + 1) buf))" "k < bound \<longrightarrow> buf ! k = 0"
        by fastforce
      have "take (k - i) (drop i buf) = buf ! i # take (k - (i + 1)) (drop (i + 1) buf)"
        using True 1(3) k(2) by (simp add: Cons_nth_drop_Suc [symmetric] take_Cons')
      then show ?thesis
        using True 1(3) k by (intro exI [of _ k]) (simp add: find_nul.simps [of buf i])
    next
      case False
      with 1 show ?thesis
        by (intro exI [of _ i]) (auto simp: find_nul.simps [of buf i])
    qed
  qed
  then show thesis using that by blast
qed

lemma find_nul_at:
  assumes "nul_free key" "take (length key + 1) (drop i buf) = key @ [0]"
    "i + length key < bound" "bound \<le> length buf"
  shows "find_nul buf i bound = Ok (i + length key)"
  using assms
proof (induction key arbitrary: i)
  case Nil
  then have "buf ! i = 0"
    by (simp add: Cons_nth_drop_Suc [symmetric] take_Cons')
  with Nil show ?case by (simp add: find_nul.simps [of buf i])
next
  case (Cons b key)
  then have d: "drop i buf = buf ! i # drop (i + 1) buf"
    by (simp add: Cons_nth_drop_Suc)
  with Cons.prems(2) have "buf ! i = b" and "take (length key + 1) (drop (i + 1) buf) = key @ [0]"
    by simp_all
  with Cons.IH [of "i + 1"] Cons.prems show ?case
    by (simp add: find_nul.simps [of buf i])
qed

end
