(* ===== verification/Bson_Utf8.thy ===== *)
theory Bson_Utf8
  imports Bson_Bytes
begin

unbundle bit_operations_syntax

text \<open>
  UTF-8 validation, \<^verbatim>\<open>bson_utf8_validate\<close> of src/c_engine/bson_engine.c, with the code point
  kept at its 32-bit width and the bit operations of the source, and the proof that it accepts
  exactly the concatenations of UTF-8 encodings of Unicode scalar values.
\<close>

section \<open>The code\<close>

text \<open>The lead byte's branch: extra bytes, initial code point, least code point allowed.\<close>

definition utf8_lead :: "byte \<Rightarrow> (nat \<times> u32 \<times> u32) option" where
  "utf8_lead lead_byte =
     (if lead_byte AND 0xE0 = 0xC0 then Some (1, ucast lead_byte AND 0x1F, 0x80)
      else if lead_byte AND 0xF0 = 0xE0 then Some (2, ucast lead_byte AND 0x0F, 0x800)
      else if lead_byte AND 0xF8 = 0xF0 then Some (3, ucast lead_byte AND 0x07, 0x10000)
      else None)"

text \<open>The loop over the continuation bytes; \<open>None\<close> is its \<^verbatim>\<open>return false\<close>.\<close>

function utf8_cont :: "byte list \<Rightarrow> nat \<Rightarrow> nat \<Rightarrow> nat \<Rightarrow> u32 \<Rightarrow> u32 option result" where
  "utf8_cont data i k extra code_point =
     (if k \<le> extra
      then rbind (peek1 data (i + k)) (\<lambda>cont_byte.
             if cont_byte AND 0xC0 \<noteq> 0x80 then Ok None
             else utf8_cont data i (k + 1) extra
                    (push_bit 6 code_point OR (ucast cont_byte AND 0x3F)))
      else Ok (Some code_point))"
  by pat_completeness auto
termination
  by (relation "measure (\<lambda>(data, i, k, extra, cp). Suc extra - k)") auto

declare utf8_cont.simps [simp del]

function utf8_from :: "byte list \<Rightarrow> nat \<Rightarrow> nat \<Rightarrow> bool result" where
  "utf8_from data len i =
     (if i < len
      then rbind (peek1 data i) (\<lambda>lead_byte.
             if lead_byte < 0x80 then utf8_from data len (i + 1)
             else case utf8_lead lead_byte of
               None \<Rightarrow> Ok False
             | Some (extra, code_point, min_code_point) \<Rightarrow>
                 if i + extra + 1 > len then Ok False
                 else rbind (utf8_cont data i 1 extra code_point) (\<lambda>res.
                        case res of
                          None \<Rightarrow> Ok False
                        | Some cp \<Rightarrow>
                            if cp < min_code_point then Ok False
                            else if cp > 0x10FFFF then Ok False
                            else if cp \<ge> 0xD800 \<and> cp \<le> 0xDFFF then Ok False
                            else utf8_from data len (i + (extra + 1))))
      else Ok True)"
  by pat_completeness auto
termination
  by (relation "measure (\<lambda>(data, len, i). len - i)") auto

declare utf8_from.simps [simp del]

definition bson_utf8_validate :: "byte list \<Rightarrow> nat \<Rightarrow> bool result" where
  "bson_utf8_validate data len = utf8_from data len 0"

section \<open>The specification: encodings of scalar values\<close>

definition scalar :: "nat \<Rightarrow> bool" where
  "scalar c \<longleftrightarrow> c \<le> 0x10FFFF \<and> \<not> (0xD800 \<le> c \<and> c \<le> 0xDFFF)"

definition utf8_encode :: "nat \<Rightarrow> byte list" where
  "utf8_encode c = map word_of_nat
     (if c < 0x80 then [c]
      else if c < 0x800 then [0xC0 + c div 64, 0x80 + c mod 64]
      else if c < 0x10000 then [0xE0 + c div 4096, 0x80 + c div 64 mod 64, 0x80 + c mod 64]
      else [0xF0 + c div 262144, 0x80 + c div 4096 mod 64, 0x80 + c div 64 mod 64,
            0x80 + c mod 64])"

definition utf8_valid :: "byte list \<Rightarrow> bool" where
  "utf8_valid bs \<longleftrightarrow> (\<exists>cs. (\<forall>c \<in> set cs. scalar c) \<and> bs = concat (map utf8_encode cs))"

section \<open>Masks as arithmetic\<close>

lemma upt_8: "[0..<8] = [0, 1, 2, 3, 4, 5, 6, 7]"
  by code_simp

lemma byte_eq_bits: "(x :: byte) = y \<longleftrightarrow> (\<forall>n \<in> set [0..<8]. bit x n = bit y n)"
  by (auto simp: bit_eq_iff)

lemma mask_drop:
  fixes x :: byte
  shows "x AND 0xC0 = 0x80 \<longleftrightarrow> drop_bit 6 x = 2"
    and "x AND 0xE0 = 0xC0 \<longleftrightarrow> drop_bit 5 x = 6"
    and "x AND 0xF0 = 0xE0 \<longleftrightarrow> drop_bit 4 x = 14"
    and "x AND 0xF8 = 0xF0 \<longleftrightarrow> drop_bit 3 x = 30"
  by (auto simp: byte_eq_bits upt_8 bit_simps dest: bit_imp_le_length)

lemma drop_div: "drop_bit k (x :: byte) = word_of_nat m \<longleftrightarrow> unat x div 2 ^ k = m mod 256"
  by (simp add: word_unat_eq_iff unat_drop_bit_eq flip: drop_bit_eq_div)

lemma mask_div:
  fixes x :: byte
  shows "x AND 0xC0 = 0x80 \<longleftrightarrow> unat x div 64 = 2"
    and "x AND 0xE0 = 0xC0 \<longleftrightarrow> unat x div 32 = 6"
    and "x AND 0xF0 = 0xE0 \<longleftrightarrow> unat x div 16 = 14"
    and "x AND 0xF8 = 0xF0 \<longleftrightarrow> unat x div 8 = 30"
  using drop_div [of 6 x 2] drop_div [of 5 x 6] drop_div [of 4 x 14] drop_div [of 3 x 30]
  by (simp_all add: mask_drop)

lemma ucast_mask: "unat (ucast (x :: byte) AND (mask k :: u32)) = unat x mod 2 ^ k"
proof -
  have "unat (ucast x AND (mask k :: u32)) = take_bit k (take_bit 32 (unat x))"
    by (simp only: take_bit_eq_mask [symmetric] unsigned_take_bit_eq unsigned_ucast_eq) simp
  also have "take_bit 32 (unat x) = unat x"
    by (rule take_bit_nat_eq_self) (rule less_le_trans [OF unat_byte_less], simp)
  finally show ?thesis by (simp add: take_bit_eq_mod)
qed

lemma low_bits:
  "unat (ucast (x :: byte) AND (0x3F :: u32)) = unat x mod 64"
  "unat (ucast (x :: byte) AND (0x1F :: u32)) = unat x mod 32"
  "unat (ucast (x :: byte) AND (0x0F :: u32)) = unat x mod 16"
  "unat (ucast (x :: byte) AND (0x07 :: u32)) = unat x mod 8"
  using ucast_mask [of x 6] ucast_mask [of x 5] ucast_mask [of x 4] ucast_mask [of x 3]
  by (simp_all add: mask_numeral)

lemma shift_or:
  assumes "unat (cp :: u32) < 2 ^ 26"
  shows "unat (push_bit 6 cp OR (ucast (x :: byte) AND 0x3F)) = unat cp * 64 + unat x mod 64"
proof -
  have "unat (push_bit 6 cp) = unat cp * 64"
    using assms by (simp add: push_bit_eq_mult unat_word_ariths)
  then have "unat (push_bit 6 cp OR (ucast x AND 0x3F)) = push_bit 6 (unat cp) OR take_bit 6 (unat x)"
    by (simp add: unsigned_or_eq low_bits push_bit_eq_mult take_bit_eq_mod)
  also have "push_bit 6 (unat cp) AND take_bit 6 (unat x) = 0"
    by (rule bit_eqI) (auto simp: bit_and_iff bit_push_bit_iff bit_take_bit_iff)
  then have "push_bit 6 (unat cp) OR take_bit 6 (unat x) = push_bit 6 (unat cp) + take_bit 6 (unat x)"
    by (rule disjunctive_add_eq_or [symmetric])
  finally show ?thesis by (simp add: push_bit_eq_mult take_bit_eq_mod)
qed

section \<open>One code point\<close>

text \<open>
  \<open>utf8_take\<close> splits the first scalar value off, over natural numbers. It is the bridge: the
  code takes the same branches, and it inverts \<open>utf8_encode\<close>.
\<close>

definition cont :: "byte \<Rightarrow> bool" where
  "cont b \<longleftrightarrow> unat b div 64 = 2"

definition accept :: "nat \<Rightarrow> nat \<Rightarrow> byte list \<Rightarrow> (nat \<times> byte list) option" where
  "accept mn c rest = (if mn \<le> c \<and> scalar c then Some (c, rest) else None)"

definition cp_acc :: "nat \<Rightarrow> byte \<Rightarrow> nat" where
  "cp_acc q b = q * 64 + unat b mod 64"

definition lead_len :: "byte \<Rightarrow> nat" where
  "lead_len a =
     (if unat a < 128 then 1 else if unat a div 32 = 6 then 2
      else if unat a div 16 = 14 then 3 else if unat a div 8 = 30 then 4 else 0)"

fun utf8_take :: "byte list \<Rightarrow> (nat \<times> byte list) option" where
  "utf8_take [] = None"
| "utf8_take (a # ds) =
     (if lead_len a = 1 then Some (unat a, ds)
      else if lead_len a = 2 then
        (case ds of b # r \<Rightarrow>
           if cont b then accept 0x80 (cp_acc (unat a mod 32) b) r else None
         | _ \<Rightarrow> None)
      else if lead_len a = 3 then
        (case ds of b # c # r \<Rightarrow>
           if cont b \<and> cont c
           then accept 0x800 (cp_acc (cp_acc (unat a mod 16) b) c) r
           else None
         | _ \<Rightarrow> None)
      else if lead_len a = 4 then
        (case ds of b # c # d # r \<Rightarrow>
           if cont b \<and> cont c \<and> cont d
           then accept 0x10000
             (cp_acc (cp_acc (cp_acc (unat a mod 8) b) c) d) r
           else None
         | _ \<Rightarrow> None)
      else None)"

lemma byte_of_nat_eq: "n < 256 \<Longrightarrow> word_of_nat n = b \<longleftrightarrow> unat (b :: byte) = n"
  by (auto simp: word_unat_eq_iff)

text \<open>Base-64 digits, and the lead bytes built from the top digit.\<close>

lemma digits64:
  "c div 4096 = c div 64 div (64 :: nat)" "c div 262144 = c div 64 div 64 div (64 :: nat)"
  by (simp_all flip: div_mult2_eq)

lemma join64: "c div 64 * 64 + c mod 64 = (c :: nat)"
  by simp

lemma lead_digit:
  "q < 32 \<Longrightarrow> (192 + q) div 32 = 6 \<and> (192 + q) mod 32 = (q :: nat)"
  "q < 16 \<Longrightarrow> (224 + q) div 32 = 7 \<and> (224 + q) div 16 = 14 \<and> (224 + q) mod 16 = q"
  "q < 8 \<Longrightarrow> (240 + q) div 32 = 7 \<and> (240 + q) div 16 = 15 \<and> (240 + q) div 8 = 30
    \<and> (240 + q) mod 8 = q"
  by (simp_all add: div_nat_eqI mod_nat_eqI)

lemma cont_digit: "(128 + r mod 64) div 64 = (2 :: nat)" "(128 + r mod 64) mod 64 = r mod (64 :: nat)"
proof -
  have "r mod 64 < (64 :: nat)" by simp
  then show "(128 + r mod 64) div 64 = (2 :: nat)" "(128 + r mod 64) mod 64 = r mod (64 :: nat)"
    by (simp_all add: div_nat_eqI mod_nat_eqI)
qed

lemma cont_of_nat [simp]: "cont (word_of_nat (128 + r mod 64))"
proof -
  have "r mod 64 < 64" by simp
  then have "(128 + r mod 64) mod 256 = 128 + r mod 64" by simp
  then show ?thesis by (simp add: cont_def cont_digit del: of_nat_add)
qed

lemma unat_cont_of_nat [simp]: "unat (word_of_nat (128 + r mod 64) :: byte) = 128 + r mod 64"
proof -
  have "r mod 64 < 64" by simp
  then show ?thesis by (simp del: of_nat_add)
qed

lemma utf8_take_encode: "scalar c \<Longrightarrow> utf8_take (utf8_encode c @ rest) = Some (c, rest)"
proof -
  assume sc: "scalar c"
  then have top: "c \<le> 0x10FFFF" by (simp add: scalar_def)
  define m where "m = c div 64"
  have c: "m * 64 + c mod 64 = c" by (simp add: m_def)
  note simps = cp_acc_def utf8_encode_def digits64 accept_def sc cont_digit lead_len_def
  consider "c < 0x80" | "0x80 \<le> c" "c < 0x800" | "0x800 \<le> c" "c < 0x10000" | "0x10000 \<le> c"
    by linarith
  then show ?thesis
  proof cases
    case 1
    then show ?thesis by (simp add: utf8_encode_def lead_len_def)
  next
    case 2
    then have "m < 32" by (simp add: m_def)
    then show ?thesis using 2 c lead_digit(1) [of m]
      by (simp add: simps del: of_nat_add flip: m_def)
  next
    case 3
    then have "m div 64 < 16" by (simp add: m_def)
    then show ?thesis using 3 c lead_digit(2) [of "m div 64"]
      by (simp add: simps del: of_nat_add flip: m_def)
  next
    case 4
    with top have "m div 64 div 64 < 8" by (simp add: m_def)
    then show ?thesis using 4 c lead_digit(3) [of "m div 64 div 64"]
      by (simp add: simps del: of_nat_add flip: m_def)
  qed
qed

text \<open>The converse: what \<open>utf8_take\<close> returns is a scalar value whose encoding it consumed.\<close>

lemma rejoin:
  "x div 64 = 2 \<Longrightarrow> 128 + x mod 64 = (x :: nat)"
  "x div 32 = 6 \<Longrightarrow> 192 + x mod 32 = (x :: nat)"
  "x div 16 = 14 \<Longrightarrow> 224 + x mod 16 = (x :: nat)"
  "x div 8 = 30 \<Longrightarrow> 240 + x mod 8 = (x :: nat)"
  using div_mult_mod_eq [of x 64] div_mult_mod_eq [of x 32] div_mult_mod_eq [of x 16]
    div_mult_mod_eq [of x 8] by simp_all

lemma of_unat_rejoin:
  "cont b \<Longrightarrow> word_of_nat (128 + unat b mod 64) = b"
  "unat a div 32 = 6 \<Longrightarrow> word_of_nat (192 + unat a mod 32) = a"
  "unat a div 16 = 14 \<Longrightarrow> word_of_nat (224 + unat a mod 16) = a"
  "unat a div 8 = 30 \<Longrightarrow> word_of_nat (240 + unat a mod 8) = (a :: byte)"
  by (simp_all add: cont_def rejoin del: of_nat_add)

lemma cp_acc_digits: "cp_acc q b div 64 = q" "cp_acc q b mod 64 = unat b mod 64"
  by (simp_all add: cp_acc_def)

lemma cp_acc_bound: "q < n \<Longrightarrow> cp_acc q b < n * 64"
proof -
  assume "q < n"
  then have "Suc q * 64 \<le> n * 64" by (intro mult_le_mono1) simp
  moreover have "unat b mod 64 < (64 :: nat)" by simp
  ultimately show ?thesis by (simp add: cp_acc_def)
qed

lemma accept_Some: "accept mn e r = Some (c, rest) \<longleftrightarrow> e = c \<and> r = rest \<and> mn \<le> c \<and> scalar c"
  by (auto simp: accept_def)

lemma lead_len_byte:
  "lead_len a = 1 \<Longrightarrow> unat a < 128"
  "lead_len a = 2 \<Longrightarrow> word_of_nat (192 + unat a mod 32) = a"
  "lead_len a = 3 \<Longrightarrow> word_of_nat (224 + unat a mod 16) = a"
  "lead_len a = 4 \<Longrightarrow> word_of_nat (240 + unat a mod 8) = a"
  unfolding lead_len_def
  by (simp_all only: of_unat_rejoin split: if_splits)

lemma utf8_take_1:
  "lead_len a = 1 \<Longrightarrow> utf8_take (a # ds) = Some (c, rest) \<Longrightarrow> scalar c \<and> a # ds = utf8_encode c @ rest"
  using lead_len_byte(1) [of a] by (auto simp: utf8_encode_def scalar_def)

text \<open>The last byte of an encoding, from the accumulated code point.\<close>

lemma cp_acc_byte: "cont b \<Longrightarrow> word_of_nat (128 + cp_acc q b mod 64) = b"
  by (simp add: cp_acc_digits of_unat_rejoin del: of_nat_add)

lemma encode_2: "0x80 \<le> c \<Longrightarrow> c < 0x800 \<Longrightarrow>
    utf8_encode c = map word_of_nat [192 + c div 64, 128 + c mod 64]"
  by (simp add: utf8_encode_def)

lemma encode_3: "0x800 \<le> c \<Longrightarrow> c < 0x10000 \<Longrightarrow>
    utf8_encode c = map word_of_nat [224 + c div 64 div 64, 128 + c div 64 mod 64, 128 + c mod 64]"
  by (simp add: utf8_encode_def digits64)

lemma encode_4: "0x10000 \<le> c \<Longrightarrow>
    utf8_encode c = map word_of_nat [240 + c div 64 div 64 div 64, 128 + c div 64 div 64 mod 64,
      128 + c div 64 mod 64, 128 + c mod 64]"
  by (simp add: utf8_encode_def digits64)

lemma utf8_take_2:
  assumes "lead_len a = 2" "cont b" "accept 0x80 (cp_acc (unat a mod 32) b) r = Some (c, rest)"
  shows "scalar c \<and> a # b # r = utf8_encode c @ rest"
proof -
  have c: "c = cp_acc (unat a mod 32) b" and ok: "0x80 \<le> c" "scalar c" "r = rest"
    using assms(3) unfolding accept_Some by blast+
  have "c < 32 * 64" unfolding c by (rule cp_acc_bound) simp
  then have "utf8_encode c = map word_of_nat [192 + c div 64, 128 + c mod 64]"
    using ok(1) by (intro encode_2) simp_all
  also have "\<dots> = [a, b]"
    unfolding c using assms(1,2)
    by (simp add: cp_acc_digits(1) cp_acc_byte lead_len_byte del: of_nat_add)
  finally show ?thesis using ok by simp
qed

lemma utf8_take_3:
  assumes "lead_len a = 3" "cont b" "cont d"
    "accept 0x800 (cp_acc (cp_acc (unat a mod 16) b) d) r = Some (c, rest)"
  shows "scalar c \<and> a # b # d # r = utf8_encode c @ rest"
proof -
  have c: "c = cp_acc (cp_acc (unat a mod 16) b) d" and ok: "0x800 \<le> c" "scalar c" "r = rest"
    using assms(4) unfolding accept_Some by blast+
  have "c < 16 * 64 * 64" unfolding c by (intro cp_acc_bound) simp
  then have "utf8_encode c = map word_of_nat
      [224 + c div 64 div 64, 128 + c div 64 mod 64, 128 + c mod 64]"
    using ok(1) by (intro encode_3) simp_all
  also have "\<dots> = [a, b, d]"
    unfolding c using assms(1-3)
    by (simp add: cp_acc_digits(1) cp_acc_byte lead_len_byte del: of_nat_add)
  finally show ?thesis using ok by simp
qed

lemma utf8_take_4:
  assumes "lead_len a = 4" "cont b" "cont d" "cont e"
    "accept 0x10000 (cp_acc (cp_acc (cp_acc (unat a mod 8) b) d) e) r = Some (c, rest)"
  shows "scalar c \<and> a # b # d # e # r = utf8_encode c @ rest"
proof -
  have c: "c = cp_acc (cp_acc (cp_acc (unat a mod 8) b) d) e"
    and ok: "0x10000 \<le> c" "scalar c" "r = rest"
    using assms(5) unfolding accept_Some by blast+
  from ok(1) have "utf8_encode c = map word_of_nat [240 + c div 64 div 64 div 64,
      128 + c div 64 div 64 mod 64, 128 + c div 64 mod 64, 128 + c mod 64]"
    by (rule encode_4)
  also have "\<dots> = [a, b, d, e]"
    unfolding c using assms(1-4)
    by (simp add: cp_acc_digits(1) cp_acc_byte lead_len_byte del: of_nat_add)
  finally show ?thesis using ok by simp
qed

lemma utf8_take_Some:
  assumes "utf8_take ds = Some (c, rest)"
  shows "scalar c \<and> ds = utf8_encode c @ rest"
proof (cases ds)
  case Nil
  with assms show ?thesis by simp
next
  case (Cons a r)
  note eq = assms [unfolded Cons utf8_take.simps]
  have "lead_len a \<in> {1, 2, 3, 4}"
    using eq by (simp split: if_splits)
  then consider "lead_len a = 1" | "lead_len a = 2" | "lead_len a = 3" | "lead_len a = 4"
    by blast
  then show ?thesis
  proof cases
    case 1
    then show ?thesis using utf8_take_1 assms Cons by blast
  next
    case 2
    with eq show ?thesis unfolding Cons
      by (simp split: list.splits if_splits) (rule utf8_take_2, assumption+)
  next
    case 3
    with eq show ?thesis unfolding Cons
      by (simp split: list.splits if_splits) (rule utf8_take_3, assumption+)
  next
    case 4
    with eq show ?thesis unfolding Cons
      by (simp split: list.splits if_splits) (rule utf8_take_4, assumption+)
  qed
qed

lemma utf8_take_iff: "utf8_take ds = Some (c, rest) \<longleftrightarrow> scalar c \<and> ds = utf8_encode c @ rest"
  using utf8_take_Some utf8_take_encode by blast

lemma utf8_encode_not_Nil [simp]: "utf8_encode c \<noteq> []"
  by (simp add: utf8_encode_def)

lemma utf8_valid_Nil [simp]: "utf8_valid []"
  unfolding utf8_valid_def by (rule exI [of _ "[]"]) simp

lemma utf8_valid_step:
  "ds \<noteq> [] \<Longrightarrow> utf8_valid ds \<longleftrightarrow> (\<exists>c rest. utf8_take ds = Some (c, rest) \<and> utf8_valid rest)"
proof
  assume "ds \<noteq> []" "utf8_valid ds"
  then obtain c cs where "\<forall>c \<in> set (c # cs). scalar c" "ds = concat (map utf8_encode (c # cs))"
    unfolding utf8_valid_def by (metis concat.simps(1) list.exhaust list.simps(8))
  then have "utf8_take ds = Some (c, concat (map utf8_encode cs))" "utf8_valid (concat (map utf8_encode cs))"
    by (auto simp: utf8_take_iff utf8_valid_def)
  then show "\<exists>c rest. utf8_take ds = Some (c, rest) \<and> utf8_valid rest" by blast
next
  assume "\<exists>c rest. utf8_take ds = Some (c, rest) \<and> utf8_valid rest"
  then obtain c cs where "scalar c" "\<forall>c \<in> set cs. scalar c" "ds = utf8_encode c @ concat (map utf8_encode cs)"
    by (auto simp: utf8_take_iff utf8_valid_def)
  then show "utf8_valid ds"
    unfolding utf8_valid_def by (intro exI [of _ "c # cs"]) simp
qed

section \<open>The code takes one code point at a time\<close>

lemma lead_len_range: "lead_len a \<in> {0, 1, 2, 3, 4}"
  by (simp add: lead_len_def)

lemma lead_len_lt: "a < 0x80 \<longleftrightarrow> lead_len a = 1"
  by (auto simp: lead_len_def word_less_nat_alt)

lemma utf8_lead_eq:
  "lead_len a \<noteq> 1 \<Longrightarrow> utf8_lead a =
     (if lead_len a = 2 then Some (1, ucast a AND 0x1F, 0x80)
      else if lead_len a = 3 then Some (2, ucast a AND 0x0F, 0x800)
      else if lead_len a = 4 then Some (3, ucast a AND 0x07, 0x10000)
      else None)"
  by (cases "unat a < 128") (simp_all add: utf8_lead_def mask_div lead_len_def)

definition cp_next :: "u32 \<Rightarrow> byte \<Rightarrow> u32" where
  "cp_next cp b = push_bit 6 cp OR (ucast b AND 0x3F)"

lemma unat_cp_next: "unat cp < 2 ^ 26 \<Longrightarrow> unat (cp_next cp b) = cp_acc (unat cp) b"
  by (simp only: cp_next_def cp_acc_def shift_or)

lemma utf8_cont_step:
  "i + k < length data \<Longrightarrow> k \<le> extra \<Longrightarrow> utf8_cont data i k extra cp =
     (if cont (data ! (i + k)) then utf8_cont data i (k + 1) extra (cp_next cp (data ! (i + k)))
      else Ok None)"
  by (simp add: utf8_cont.simps [of data i k] cp_next_def cont_def mask_div)

lemma utf8_cont_done: "extra < k \<Longrightarrow> utf8_cont data i k extra cp = Ok (Some cp)"
  by (simp add: utf8_cont.simps)

text \<open>The range checks on the 32-bit code point are \<open>accept\<close>.\<close>

lemma range_checks:
  assumes "unat (cp :: u32) = c" "unat (mn :: u32) = m"
  shows "(if cp < mn then Ok False else if cp > 0x10FFFF then Ok False
          else if cp \<ge> 0xD800 \<and> cp \<le> 0xDFFF then Ok False else K)
       = (case accept m c r of None \<Rightarrow> Ok False | Some _ \<Rightarrow> K)"
  using assms by (auto simp: accept_def scalar_def word_less_nat_alt word_le_nat_alt)

lemma unat_lead_bits:
  "unat (ucast (a :: byte) AND (0x1F :: u32)) < 32"
  "unat (ucast (a :: byte) AND (0x0F :: u32)) < 16"
  "unat (ucast (a :: byte) AND (0x07 :: u32)) < 8"
  by (simp_all add: low_bits)

lemma cp_values:
  fixes a b d e :: byte
  shows
  "unat (cp_next (ucast a AND 0x1F) b) = cp_acc (unat a mod 32) b"
  "unat (cp_next (cp_next (ucast a AND 0x0F) b) d) = cp_acc (cp_acc (unat a mod 16) b) d"
  "unat (cp_next (cp_next (cp_next (ucast a AND 0x07) b) d) e)
     = cp_acc (cp_acc (cp_acc (unat a mod 8) b) d) e"
proof -
  have 1: "cp_acc (unat a mod 16) b < 16 * 64" "cp_acc (unat a mod 8) b < 8 * 64"
    by (intro cp_acc_bound, simp)+
  have 2: "cp_acc (cp_acc (unat a mod 8) b) d < 8 * 64 * 64"
    by (intro cp_acc_bound) simp
  show "unat (cp_next (ucast a AND 0x1F) b) = cp_acc (unat a mod 32) b"
    using unat_lead_bits(1) [of a] by (simp add: unat_cp_next low_bits)
  show "unat (cp_next (cp_next (ucast a AND 0x0F) b) d) = cp_acc (cp_acc (unat a mod 16) b) d"
    using unat_lead_bits(2) [of a] 1 by (simp add: unat_cp_next low_bits)
  show "unat (cp_next (cp_next (cp_next (ucast a AND 0x07) b) d) e)
     = cp_acc (cp_acc (cp_acc (unat a mod 8) b) d) e"
    using unat_lead_bits(3) [of a] 1 2 by (simp add: unat_cp_next low_bits)
qed

lemma range_2:
  "(if cp_next (ucast (a :: byte) AND 0x1F) b < 0x80 then Ok False else if cp_next (ucast a AND 0x1F) b > 0x10FFFF then Ok False
    else if cp_next (ucast a AND 0x1F) b \<ge> 0xD800 \<and> cp_next (ucast a AND 0x1F) b \<le> 0xDFFF then Ok False else K)
   = (case accept 0x80 (cp_acc (unat a mod 32) b) r of None \<Rightarrow> Ok False | Some _ \<Rightarrow> K)"
  by (rule range_checks [OF cp_values(1)]) simp

lemma range_3:
  "(if cp_next (cp_next (ucast (a :: byte) AND 0x0F) b) d < 0x800 then Ok False else if cp_next (cp_next (ucast a AND 0x0F) b) d > 0x10FFFF then Ok False
    else if cp_next (cp_next (ucast a AND 0x0F) b) d \<ge> 0xD800 \<and> cp_next (cp_next (ucast a AND 0x0F) b) d \<le> 0xDFFF then Ok False else K)
   = (case accept 0x800 (cp_acc (cp_acc (unat a mod 16) b) d) r of None \<Rightarrow> Ok False | Some _ \<Rightarrow> K)"
  by (rule range_checks [OF cp_values(2)]) simp

lemma range_4:
  "(if cp_next (cp_next (cp_next (ucast (a :: byte) AND 0x07) b) d) e < 0x10000 then Ok False else if cp_next (cp_next (cp_next (ucast a AND 0x07) b) d) e > 0x10FFFF then Ok False
    else if cp_next (cp_next (cp_next (ucast a AND 0x07) b) d) e \<ge> 0xD800 \<and> cp_next (cp_next (cp_next (ucast a AND 0x07) b) d) e \<le> 0xDFFF then Ok False else K)
   = (case accept 0x10000 (cp_acc (cp_acc (cp_acc (unat a mod 8) b) d) e) r of None \<Rightarrow> Ok False | Some _ \<Rightarrow> K)"
  by (rule range_checks [OF cp_values(3)]) simp

lemma cont_chain:
  "i + 1 < length data \<Longrightarrow> utf8_cont data i 1 1 cp =
     Ok (if cont (data ! (i + 1)) then Some (cp_next cp (data ! (i + 1))) else None)"
  "i + 2 < length data \<Longrightarrow> utf8_cont data i 1 2 cp =
     Ok (if cont (data ! (i + 1)) \<and> cont (data ! (i + 2))
         then Some (cp_next (cp_next cp (data ! (i + 1))) (data ! (i + 2))) else None)"
  "i + 3 < length data \<Longrightarrow> utf8_cont data i 1 3 cp =
     Ok (if cont (data ! (i + 1)) \<and> cont (data ! (i + 2)) \<and> cont (data ! (i + 3))
         then Some (cp_next (cp_next (cp_next cp (data ! (i + 1))) (data ! (i + 2)))
                      (data ! (i + 3)))
         else None)"
  using utf8_cont_step [of i 1 data] utf8_cont_step [of i 2 data] utf8_cont_step [of i 3 data]
  by (simp_all add: utf8_cont_done numeral_2_eq_2 numeral_3_eq_3)

lemma four_Suc: "i + 3 = Suc (Suc (Suc i))" "i + 4 = Suc (Suc (Suc (Suc i)))"
  by simp_all

text \<open>
  One round of the loop, from an offset inside the buffer: the code decodes the same scalar
  value as \<open>utf8_take\<close> does on the remaining bytes, or rejects.
\<close>

lemma utf8_from_round:
  assumes len: "len \<le> length data" and ds: "drop i (take len data) = a # ds"
  shows "utf8_from data len i =
     (case utf8_take (a # ds) of None \<Rightarrow> Ok False
      | Some (c, rest) \<Rightarrow> utf8_from data len (i + (length (a # ds) - length rest)))"
proof -
  have "length (drop i (take len data)) = Suc (length ds)"
    by (simp only: ds list.size)
  then have i: "i < len" and l: "length ds = len - i - 1"
    using len by simp_all
  have nth': "data ! (i + j) = (a # ds) ! j" if "i + j < len" for j
  proof -
    have "(a # ds) ! j = drop i (take len data) ! j" by (simp only: ds)
    also have "\<dots> = data ! (i + j)" using that len by simp
    finally show ?thesis ..
  qed
  from nth' [of 0] i have a: "data ! i = a" by simp
  note unf = utf8_from.simps [of data len i]
  consider "lead_len a = 1" | "lead_len a = 2" | "lead_len a = 3" | "lead_len a = 4" | "lead_len a = 0"
    using lead_len_range [of a] by (auto simp del: One_nat_def)
  then show ?thesis
  proof cases
    case 1
    then show ?thesis using i len a by (simp add: unf lead_len_lt)
  next
    case 2
    show ?thesis
    proof (cases ds)
      case Nil
      then show ?thesis using 2 i l len a by (simp add: unf lead_len_lt utf8_lead_eq)
    next
      case (Cons b r)
      then have "i + 1 < len" using l by simp
      with nth' [of 1] Cons have "data ! (i + 1) = b" by simp
      with \<open>i + 1 < len\<close> show ?thesis
        using 2 i len a Cons
        by (simp add: unf lead_len_lt utf8_lead_eq cont_chain(1) del: One_nat_def split del: if_split)
          (simp add: range_2 [where r = r] accept_Some split: option.split)
    qed
  next
    case 3
    show ?thesis
    proof (cases "\<exists>b d r. ds = b # d # r")
      case False
      then have "length ds < 2" by (cases ds; cases "tl ds") auto
      with False show ?thesis using 3 i l len a
        by (auto simp: unf lead_len_lt utf8_lead_eq split: list.splits)
    next
      case True
      then obtain b d r where Cons: "ds = b # d # r" by blast
      then have "i + 2 < len" using l by simp
      with nth' [of 1] nth' [of 2] Cons have "data ! (i + 1) = b" "data ! (i + 2) = d" by simp_all
      with \<open>i + 2 < len\<close> show ?thesis
        using 3 i len a Cons
        by (simp add: unf lead_len_lt utf8_lead_eq cont_chain(2) del: One_nat_def split del: if_split)
          (simp add: range_3 [where r = r] accept_Some numeral_3_eq_3 split: option.split)
    qed
  next
    case 4
    show ?thesis
    proof (cases "\<exists>b d e r. ds = b # d # e # r")
      case False
      then have "length ds < 3" by (cases ds; cases "tl ds"; cases "tl (tl ds)") auto
      with False show ?thesis using 4 i l len a
        by (auto simp: unf lead_len_lt utf8_lead_eq split: list.splits)
    next
      case True
      then obtain b d e r where Cons: "ds = b # d # e # r" by blast
      then have "i + 3 < len" using l by simp
      with nth' [of 1] nth' [of 2] nth' [of 3] Cons
      have "data ! (i + 1) = b" "data ! (i + 2) = d" "data ! (i + 3) = e" by simp_all
      with \<open>i + 3 < len\<close> show ?thesis
        using 4 i len a Cons
        by (simp add: unf lead_len_lt utf8_lead_eq cont_chain(3) del: One_nat_def split del: if_split)
          (simp add: range_4 [where r = r] accept_Some four_Suc split: option.split)
    qed
  next
    case 5
    then show ?thesis using i len a by (simp add: unf lead_len_lt utf8_lead_eq)
  qed
qed

lemma utf8_from_valid:
  "len \<le> length data \<Longrightarrow> utf8_from data len i = Ok (utf8_valid (drop i (take len data)))"
proof (induction "len - i" arbitrary: i rule: less_induct)
  case less
  show ?case
  proof (cases "drop i (take len data)")
    case Nil
    then show ?thesis using less.prems by (simp add: utf8_from.simps [of data len i])
  next
    case (Cons a ds)
    note round = utf8_from_round [OF less.prems Cons]
    show ?thesis
    proof (cases "utf8_take (a # ds)")
      case None
      then show ?thesis using round Cons utf8_valid_step [of "a # ds"]
        by (simp del: utf8_take.simps)
    next
      case (Some cr)
      obtain c rest where cr: "cr = (c, rest)" by fastforce
      define n where "n = length (utf8_encode c)"
      from Some cr have e: "a # ds = utf8_encode c @ rest" using utf8_take_Some by blast
      then have n: "length (a # ds) - length rest = n" "0 < n" by (simp_all add: n_def)
      have "length (a # ds) = len - i" using arg_cong [OF Cons, of length] less.prems by simp
      then have "len - (i + n) < len - i" using n(2) by simp
      then have "utf8_from data len (i + n) = Ok (utf8_valid (drop (i + n) (take len data)))"
        using less.hyps less.prems by blast
      moreover have "drop (i + n) (take len data) = rest"
        using arg_cong [OF Cons, of "drop n"] e by (simp add: n_def add.commute)
      ultimately show ?thesis
        using round n(1) Some cr Cons utf8_valid_step [of "a # ds"]
        by (simp del: utf8_take.simps)
    qed
  qed
qed

lemma utf8_validate_eq:
  "len \<le> length data \<Longrightarrow> bson_utf8_validate data len = Ok (utf8_valid (take len data))"
  by (simp add: bson_utf8_validate_def utf8_from_valid)

section \<open>Properties\<close>

text \<open>
  C25. The UTF-8 check accepts exactly the concatenations of encoded Unicode scalar values: no
  overlong form, no surrogate, nothing above U+10FFFF, nothing cut short; and it reads no byte
  outside of the string.
\<close>

theorem utf8_validate_exact:
  assumes "len \<le> length data"
  shows "bson_utf8_validate data len =
    Ok (\<exists>cs. (\<forall>c \<in> set cs. scalar c) \<and> take len data = concat (map utf8_encode cs))"
  using utf8_validate_eq [OF assms] by (simp add: utf8_valid_def)

theorem utf8_validate_exact_witness:
  "bson_utf8_validate [0xC3, 0xA9, 0x41, 0xFF] 3 =
    Ok (\<exists>cs. (\<forall>c \<in> set cs. scalar c) \<and> take 3 [0xC3, 0xA9, 0x41, 0xFF] = concat (map utf8_encode cs))"
  by (rule utf8_validate_exact) simp

end
