(* ===== verification/Bson_Iter.thy ===== *)
theory Bson_Iter
  imports Bson_Reader Bson_Utf8
begin

text \<open>
  The structural iterator \<^verbatim>\<open>bson_iter_t\<close> of src/c_engine/bson_engine.c: one level of a document
  or array, element by element, and the typed value accessors.

  \<^verbatim>\<open>bson_iter_next\<close> returns true on an element and false at the end or on an error, with the error
  code in \<^verbatim>\<open>err\<close>. The model returns \<open>Ok (True, it)\<close>, \<open>Ok (False, it)\<close> and \<open>Err code\<close>; the
  iterator of a failed step is dropped, as no caller reads it.
\<close>

section \<open>State and operations\<close>

record bson_iter =
  it_reader :: bson_reader
  it_doc_end :: nat
  it_type :: byte
  it_key_off :: nat
  it_key_len :: nat
  it_value_off :: nat

definition bson_iter_init_nested :: "byte list \<Rightarrow> nat \<Rightarrow> nat \<Rightarrow> bson_iter result" where
  "bson_iter_init_nested buf offset parent_end =
     (if offset + BSON_DOC_MIN_LEN > parent_end then Err BSON_ERR_TRUNCATED_BUFFER
      else rbind (bson_reader_read_i32 ((bson_reader_init buf parent_end)\<lparr>rd_pos := offset\<rparr>))
        (\<lambda>(doc_len, _).
           if doc_len < int BSON_DOC_MIN_LEN then Err BSON_ERR_INVALID_LENGTH
           else if nat doc_len > BSON_MAX_DOCUMENT_SIZE then Err BSON_ERR_DOCUMENT_TOO_LARGE
           else let doc_stop = offset + nat doc_len in
             if doc_stop > parent_end then Err BSON_ERR_TRUNCATED_BUFFER
             else Ok \<lparr>it_reader = \<lparr>rd_buf = buf, rd_len = parent_end,
                                     rd_pos = offset + BSON_LENGTH_PREFIX_LEN\<rparr>,
                      it_doc_end = doc_stop - 1, it_type = 0, it_key_off = 0, it_key_len = 0,
                      it_value_off = 0\<rparr>))"

definition bson_iter_init_document :: "byte list \<Rightarrow> nat \<Rightarrow> bson_iter result" where
  "bson_iter_init_document buf len = bson_iter_init_nested buf 0 len"

text \<open>The switch of \<^verbatim>\<open>bson_iter_next\<close> over the type byte, from the value's first byte on.\<close>

definition iter_skip_value :: "byte \<Rightarrow> nat \<Rightarrow> bson_reader \<Rightarrow> bson_reader result" where
  "iter_skip_value type doc_end r =
     (if type = BSON_TYPE_DOUBLE then bson_reader_skip r 8
      else if type = BSON_TYPE_STRING then
        rbind (bson_reader_read_i32 r) (\<lambda>(slen, r').
          if slen < 1 then Err BSON_ERR_INVALID_LENGTH else bson_reader_skip r' (nat slen))
      else if type = BSON_TYPE_DOCUMENT \<or> type = BSON_TYPE_ARRAY then
        rbind (bson_reader_read_i32 r) (\<lambda>(dlen, r').
          if dlen < int BSON_DOC_MIN_LEN then Err BSON_ERR_INVALID_LENGTH
          else if rd_pos r + nat dlen > doc_end then Err BSON_ERR_TRUNCATED_BUFFER
          else Ok (r'\<lparr>rd_pos := rd_pos r + nat dlen\<rparr>))
      else if type = BSON_TYPE_BINARY then
        rbind (bson_reader_read_i32 r) (\<lambda>(blen, r').
          if blen < 0 then Err BSON_ERR_INVALID_LENGTH
          else rbind (bson_reader_skip r' 1) (\<lambda>r''. bson_reader_skip r'' (nat blen)))
      else if type = BSON_TYPE_OBJECTID then bson_reader_skip r BSON_OBJECTID_LEN
      else if type = BSON_TYPE_BOOL then bson_reader_skip r 1
      else if type = BSON_TYPE_DATETIME then bson_reader_skip r 8
      else if type = BSON_TYPE_NULL then Ok r
      else if type = BSON_TYPE_INT32 then bson_reader_skip r 4
      else if type = BSON_TYPE_INT64 then bson_reader_skip r 8
      else if type \<in> {BSON_TYPE_UNDEFINED, BSON_TYPE_REGEX, BSON_TYPE_DBPOINTER,
                      BSON_TYPE_JS_CODE, BSON_TYPE_SYMBOL, BSON_TYPE_JS_CODE_W_SCOPE,
                      BSON_TYPE_TIMESTAMP, BSON_TYPE_DECIMAL128, BSON_TYPE_MINKEY,
                      BSON_TYPE_MAXKEY}
        then Err BSON_ERR_UNSUPPORTED_TYPE
      else Err BSON_ERR_INVALID_TYPE_BYTE)"

definition iter_at_end :: "bson_iter \<Rightarrow> (bool \<times> bson_iter) result" where
  "iter_at_end it =
     (if rd_pos (it_reader it) \<noteq> it_doc_end it then Err BSON_ERR_INVALID_LENGTH
      else case bson_reader_read_u8 (it_reader it) of
        Ok (eoo, r) \<Rightarrow>
          if eoo \<noteq> BSON_EOO_BYTE then Err BSON_ERR_MISSING_EOO
          else Ok (False, it\<lparr>it_reader := r\<rparr>)
      | Err _ \<Rightarrow> Err BSON_ERR_MISSING_EOO
      | Fault \<Rightarrow> Fault
      | Diverge \<Rightarrow> Diverge)"

definition bson_iter_next :: "bson_iter \<Rightarrow> (bool \<times> bson_iter) result" where
  "bson_iter_next it =
     (if rd_pos (it_reader it) \<ge> it_doc_end it then iter_at_end it
      else rbind (bson_reader_read_u8 (it_reader it)) (\<lambda>(type, r1).
        rbind (bson_reader_read_cstring_bounded r1 (it_doc_end it)) (\<lambda>(key, key_len, r2).
          rbind (bson_utf8_validate (drop key (rd_buf r2)) key_len) (\<lambda>utf8_ok.
            if \<not> utf8_ok then Err BSON_ERR_INVALID_UTF8
            else rbind (iter_skip_value type (it_doc_end it) r2) (\<lambda>r3.
              if rd_pos r3 > it_doc_end it then Err BSON_ERR_TRUNCATED_BUFFER
              else Ok (True, it\<lparr>it_reader := r3, it_type := type, it_key_off := key,
                               it_key_len := key_len, it_value_off := rd_pos r2\<rparr>))))))"

text \<open>The accessors re-read the value through a reader of their own.\<close>

definition iter_value_reader :: "bson_iter \<Rightarrow> bson_reader" where
  "iter_value_reader it = (it_reader it)\<lparr>rd_pos := it_value_off it\<rparr>"

definition bson_iter_key :: "bson_iter \<Rightarrow> nat \<times> nat" where
  "bson_iter_key it = (it_key_off it, it_key_len it)"

definition bson_iter_value_double :: "bson_iter \<Rightarrow> u64 result" where
  "bson_iter_value_double it =
     (if it_type it \<noteq> BSON_TYPE_DOUBLE then Err BSON_ERR_INVALID_TYPE_BYTE
      else rbind (bson_reader_read_double (iter_value_reader it)) (\<lambda>(v, _). Ok v))"

definition bson_iter_value_utf8 :: "bson_iter \<Rightarrow> (nat \<times> nat) result" where
  "bson_iter_value_utf8 it =
     (if it_type it \<noteq> BSON_TYPE_STRING then Err BSON_ERR_INVALID_TYPE_BYTE
      else rbind (bson_reader_read_i32 (iter_value_reader it)) (\<lambda>(slen, r).
        if slen < 1 then Err BSON_ERR_INVALID_LENGTH
        else rbind (bson_reader_read_bytes r (nat slen)) (\<lambda>(bytes, _).
          rbind (peek1 (rd_buf r) (bytes + nat (slen - 1))) (\<lambda>last_byte.
            if last_byte \<noteq> 0 then Err BSON_ERR_UNTERMINATED_STRING
            else rbind (bson_utf8_validate (drop bytes (rd_buf r)) (nat slen - 1)) (\<lambda>utf8_ok.
              if \<not> utf8_ok then Err BSON_ERR_INVALID_UTF8
              else Ok (bytes, nat slen - 1))))))"

definition bson_iter_value_document :: "bson_iter \<Rightarrow> (nat \<times> nat) result" where
  "bson_iter_value_document it =
     (if it_type it \<noteq> BSON_TYPE_DOCUMENT \<and> it_type it \<noteq> BSON_TYPE_ARRAY
      then Err BSON_ERR_INVALID_TYPE_BYTE
      else rbind (bson_reader_read_i32 (iter_value_reader it)) (\<lambda>(dlen, _).
        if dlen < int BSON_DOC_MIN_LEN then Err BSON_ERR_INVALID_LENGTH
        else Ok (it_value_off it, nat dlen)))"

definition bson_iter_value_binary :: "bson_iter \<Rightarrow> (byte \<times> nat \<times> nat) result" where
  "bson_iter_value_binary it =
     (if it_type it \<noteq> BSON_TYPE_BINARY then Err BSON_ERR_INVALID_TYPE_BYTE
      else rbind (bson_reader_read_i32 (iter_value_reader it)) (\<lambda>(blen, r).
        if blen < 0 then Err BSON_ERR_INVALID_LENGTH
        else rbind (bson_reader_read_u8 r) (\<lambda>(subtype, r').
          rbind (bson_reader_read_bytes r' (nat blen)) (\<lambda>(bytes, _).
            Ok (subtype, bytes, nat blen)))))"

definition bson_iter_value_objectid :: "bson_iter \<Rightarrow> nat result" where
  "bson_iter_value_objectid it =
     (if it_type it \<noteq> BSON_TYPE_OBJECTID then Err BSON_ERR_INVALID_TYPE_BYTE
      else rbind (bson_reader_read_bytes (iter_value_reader it) BSON_OBJECTID_LEN)
             (\<lambda>(oid, _). Ok oid))"

definition bson_iter_value_bool :: "bson_iter \<Rightarrow> bool result" where
  "bson_iter_value_bool it =
     (if it_type it \<noteq> BSON_TYPE_BOOL then Err BSON_ERR_INVALID_TYPE_BYTE
      else rbind (bson_reader_read_u8 (iter_value_reader it)) (\<lambda>(b, _). Ok (b \<noteq> 0)))"

definition bson_iter_value_datetime_ms :: "bson_iter \<Rightarrow> int result" where
  "bson_iter_value_datetime_ms it =
     (if it_type it \<noteq> BSON_TYPE_DATETIME then Err BSON_ERR_INVALID_TYPE_BYTE
      else rbind (bson_reader_read_i64 (iter_value_reader it)) (\<lambda>(v, _). Ok v))"

definition bson_iter_value_int32 :: "bson_iter \<Rightarrow> int result" where
  "bson_iter_value_int32 it =
     (if it_type it \<noteq> BSON_TYPE_INT32 then Err BSON_ERR_INVALID_TYPE_BYTE
      else rbind (bson_reader_read_i32 (iter_value_reader it)) (\<lambda>(v, _). Ok v))"

definition bson_iter_value_int64 :: "bson_iter \<Rightarrow> int result" where
  "bson_iter_value_int64 it =
     (if it_type it \<noteq> BSON_TYPE_INT64 then Err BSON_ERR_INVALID_TYPE_BYTE
      else rbind (bson_reader_read_i64 (iter_value_reader it)) (\<lambda>(v, _). Ok v))"

section \<open>One equation per element type\<close>

definition supported_types :: "byte set" where
  "supported_types = {BSON_TYPE_DOUBLE, BSON_TYPE_STRING, BSON_TYPE_DOCUMENT, BSON_TYPE_ARRAY, BSON_TYPE_BINARY, BSON_TYPE_OBJECTID, BSON_TYPE_BOOL, BSON_TYPE_DATETIME, BSON_TYPE_NULL, BSON_TYPE_INT32, BSON_TYPE_INT64}"

definition deferred_types :: "byte set" where
  "deferred_types = {BSON_TYPE_UNDEFINED, BSON_TYPE_REGEX, BSON_TYPE_DBPOINTER,
     BSON_TYPE_JS_CODE, BSON_TYPE_SYMBOL, BSON_TYPE_JS_CODE_W_SCOPE,
     BSON_TYPE_TIMESTAMP, BSON_TYPE_DECIMAL128, BSON_TYPE_MINKEY, BSON_TYPE_MAXKEY}"

lemma type_cases:
  obtains (double) "t = BSON_TYPE_DOUBLE"
  | (string) "t = BSON_TYPE_STRING"
  | (document) "t = BSON_TYPE_DOCUMENT"
  | (array) "t = BSON_TYPE_ARRAY"
  | (binary) "t = BSON_TYPE_BINARY"
  | (objectid) "t = BSON_TYPE_OBJECTID"
  | (bool) "t = BSON_TYPE_BOOL"
  | (datetime) "t = BSON_TYPE_DATETIME"
  | (null) "t = BSON_TYPE_NULL"
  | (int32) "t = BSON_TYPE_INT32"
  | (int64) "t = BSON_TYPE_INT64"
  | (other) "t \<notin> supported_types"
  unfolding supported_types_def by blast

lemma iter_skip_simps:
  "iter_skip_value BSON_TYPE_DOUBLE de r = bson_reader_skip r 8"
  "iter_skip_value BSON_TYPE_STRING de r =
     rbind (bson_reader_read_i32 r) (\<lambda>(slen, r').
       if slen < 1 then Err BSON_ERR_INVALID_LENGTH else bson_reader_skip r' (nat slen))"
  "t \<in> {BSON_TYPE_DOCUMENT, BSON_TYPE_ARRAY} \<Longrightarrow> iter_skip_value t de r =
     rbind (bson_reader_read_i32 r) (\<lambda>(dlen, r').
       if dlen < int BSON_DOC_MIN_LEN then Err BSON_ERR_INVALID_LENGTH
       else if rd_pos r + nat dlen > de then Err BSON_ERR_TRUNCATED_BUFFER
       else Ok (r'\<lparr>rd_pos := rd_pos r + nat dlen\<rparr>))"
  "iter_skip_value BSON_TYPE_BINARY de r =
     rbind (bson_reader_read_i32 r) (\<lambda>(blen, r').
       if blen < 0 then Err BSON_ERR_INVALID_LENGTH
       else rbind (bson_reader_skip r' 1) (\<lambda>r''. bson_reader_skip r'' (nat blen)))"
  "iter_skip_value BSON_TYPE_OBJECTID de r = bson_reader_skip r 12"
  "iter_skip_value BSON_TYPE_BOOL de r = bson_reader_skip r 1"
  "iter_skip_value BSON_TYPE_DATETIME de r = bson_reader_skip r 8"
  "iter_skip_value BSON_TYPE_NULL de r = Ok r"
  "iter_skip_value BSON_TYPE_INT32 de r = bson_reader_skip r 4"
  "iter_skip_value BSON_TYPE_INT64 de r = bson_reader_skip r 8"
  "t \<notin> supported_types \<Longrightarrow> iter_skip_value t de r =
     Err (if t \<in> deferred_types then BSON_ERR_UNSUPPORTED_TYPE else BSON_ERR_INVALID_TYPE_BYTE)"
  by (auto simp: iter_skip_value_def bson_type_defs supported_types_def deferred_types_def
      BSON_OBJECTID_LEN_def)

section \<open>Progress\<close>

lemma skip_pos: "bson_reader_skip r n = Ok r' \<Longrightarrow> r' = r\<lparr>rd_pos := rd_pos r + n\<rparr>"
  by (auto simp: bson_reader_skip_def split: if_splits)

lemma read_i32_pos: "bson_reader_read_i32 r = Ok (v, r') \<Longrightarrow> r' = r\<lparr>rd_pos := rd_pos r + 4\<rparr>"
  by (auto simp: bson_reader_read_i32_def split: if_splits)

lemma iter_skip_value_pos:
  "iter_skip_value type de r = Ok r' \<Longrightarrow>
     rd_pos r \<le> rd_pos r' \<and> rd_buf r' = rd_buf r \<and> rd_len r' = rd_len r"
  by (cases type rule: type_cases)
    (auto simp: iter_skip_simps split: if_splits dest!: skip_pos read_i32_pos)

lemma find_nul_ge: "find_nul buf i bound = Ok k \<Longrightarrow> i \<le> k"
proof (induction buf i bound rule: find_nul.induct)
  case (1 buf i bound)
  from "1.prems" show ?case
    by (auto simp: find_nul.simps [of buf i] split: if_splits dest: "1.IH")
qed

lemma read_cstring_pos:
  "bson_reader_read_cstring_bounded r bound = Ok (k, n, r') \<Longrightarrow>
     k = rd_pos r \<and> rd_pos r < rd_pos r' \<and> rd_buf r' = rd_buf r \<and> rd_len r' = rd_len r"
  by (auto simp: bson_reader_read_cstring_bounded_def Let_def split: if_splits dest!: find_nul_ge)

lemma read_u8_pos: "bson_reader_read_u8 r = Ok (b, r') \<Longrightarrow> r' = r\<lparr>rd_pos := rd_pos r + 1\<rparr>"
  by (auto simp: bson_reader_read_u8_def split: if_splits)

text \<open>Every element moves the cursor forward, and never past the document.\<close>

lemma iter_next_progress:
  assumes "bson_iter_next it = Ok (True, it')"
  shows "rd_pos (it_reader it) < rd_pos (it_reader it')"
    and "rd_pos (it_reader it') \<le> it_doc_end it'"
    and "it_doc_end it' = it_doc_end it"
    and "rd_buf (it_reader it') = rd_buf (it_reader it)"
    and "rd_len (it_reader it') = rd_len (it_reader it)"
  using assms
  by (auto simp: bson_iter_next_def iter_at_end_def split: if_splits result.splits prod.splits
      dest!: read_u8_pos read_cstring_pos iter_skip_value_pos)

lemma iter_next_measure:
  "bson_iter_next it = Ok (found, it') \<Longrightarrow> found \<Longrightarrow>
     it_doc_end it' - rd_pos (it_reader it') < it_doc_end it - rd_pos (it_reader it)"
  using iter_next_progress [of it it'] by auto

section \<open>The invariant of an iterator\<close>

definition iter_inv :: "bson_iter \<Rightarrow> bool" where
  "iter_inv it \<longleftrightarrow> reader_inv (it_reader it) \<and> it_doc_end it < rd_len (it_reader it) \<and>
     rd_pos (it_reader it) \<le> it_doc_end it"

lemma iter_init_nested_eq:
  assumes "parent_end \<le> length buf"
  shows "bson_iter_init_nested buf offset parent_end =
     (if parent_end < offset + 5 then Err BSON_ERR_TRUNCATED_BUFFER
      else let n = i32_of (take 4 (drop offset buf)) in
        if n < 5 then Err BSON_ERR_INVALID_LENGTH
        else if BSON_MAX_DOCUMENT_SIZE < nat n then Err BSON_ERR_DOCUMENT_TOO_LARGE
        else if parent_end < offset + nat n then Err BSON_ERR_TRUNCATED_BUFFER
        else Ok \<lparr>it_reader = \<lparr>rd_buf = buf, rd_len = parent_end, rd_pos = offset + 4\<rparr>,
                 it_doc_end = offset + nat n - 1, it_type = 0, it_key_off = 0, it_key_len = 0,
                 it_value_off = 0\<rparr>)"
proof (cases "parent_end < offset + 5")
  case True
  then show ?thesis by (simp add: bson_iter_init_nested_def BSON_DOC_MIN_LEN_def)
next
  case False
  then have "reader_inv ((bson_reader_init buf parent_end)\<lparr>rd_pos := offset\<rparr>)"
    using assms by (simp add: reader_inv_def bson_reader_init_def)
  with False show ?thesis
    by (simp add: bson_iter_init_nested_def read_i32_eq bson_reader_init_def BSON_DOC_MIN_LEN_def
        BSON_LENGTH_PREFIX_LEN_def Let_def)
qed

lemma iter_init_inv:
  "parent_end \<le> length buf \<Longrightarrow> bson_iter_init_nested buf offset parent_end = Ok it \<Longrightarrow>
     iter_inv it \<and> rd_buf (it_reader it) = buf \<and> it_doc_end it < parent_end \<and>
     rd_len (it_reader it) = parent_end"
  by (auto simp: iter_init_nested_eq Let_def iter_inv_def reader_inv_def split: if_splits)

lemma iter_init_safe: "parent_end \<le> length buf \<Longrightarrow> safe (bson_iter_init_nested buf offset parent_end)"
  by (simp add: iter_init_nested_eq Let_def)

lemma iter_next_inv:
  assumes "iter_inv it" "bson_iter_next it = Ok (True, it')"
  shows "iter_inv it'"
  using assms(1) iter_next_progress [OF assms(2)] by (simp add: iter_inv_def reader_inv_def)

section \<open>No access outside the buffer\<close>

lemma skip_safe: "safe (bson_reader_skip r n)"
  by (simp add: bson_reader_skip_def)

lemma read_i32_safe: "reader_inv r \<Longrightarrow> safe (bson_reader_read_i32 r)"
  by (simp add: read_i32_eq)

lemma read_u8_safe: "reader_inv r \<Longrightarrow> safe (bson_reader_read_u8 r)"
  by (simp add: read_u8_eq)

lemma read_i32_bind_safe:
  "reader_inv r \<Longrightarrow> (\<And>v r'. safe (f (v, r'))) \<Longrightarrow> safe (rbind (bson_reader_read_i32 r) f)"
  by (simp add: read_i32_eq)

lemma skip_bind_safe: "(\<And>r'. safe (f r')) \<Longrightarrow> safe (rbind (bson_reader_skip r n) f)"
  by (rule safe_rbind) (rule skip_safe)

lemma iter_skip_value_safe: "reader_inv r \<Longrightarrow> safe (iter_skip_value type de r)"
  by (cases type rule: type_cases)
    (auto simp: iter_skip_simps skip_safe intro!: read_i32_bind_safe skip_bind_safe)

text \<open>What the bounded search finds: a NUL-free key and its terminator, or an error.\<close>

lemma read_cstring_cases:
  assumes "reader_inv r" "bound \<le> rd_len r" "rd_pos r \<le> bound"
  obtains (err) "bson_reader_read_cstring_bounded r bound = Err BSON_ERR_UNTERMINATED_STRING"
  | (ok) n where "bson_reader_read_cstring_bounded r bound =
        Ok (rd_pos r, n, r\<lparr>rd_pos := rd_pos r + n + 1\<rparr>)"
      "rd_pos r + n < bound" "rd_buf r ! (rd_pos r + n) = 0"
      "nul_free (take n (drop (rd_pos r) (rd_buf r)))"
proof -
  have "bound \<le> length (rd_buf r)" using assms by (simp add: reader_inv_def)
  then obtain k where k: "find_nul (rd_buf r) (rd_pos r) bound = Ok k" "rd_pos r \<le> k" "k \<le> bound"
    "nul_free (take (k - rd_pos r) (drop (rd_pos r) (rd_buf r)))" "k < bound \<Longrightarrow> rd_buf r ! k = 0"
    using find_nul_Ok assms(3) by metis
  show thesis
  proof (cases "k < bound")
    case True
    then show thesis
      using k assms by (intro ok [of "k - rd_pos r"]) (simp_all add: bson_reader_read_cstring_bounded_def)
  next
    case False
    then show thesis
      using k assms by (intro err) (simp add: bson_reader_read_cstring_bounded_def)
  qed
qed

lemma iter_next_safe: "iter_inv it \<Longrightarrow> safe (bson_iter_next it)"
proof -
  assume inv: "iter_inv it"
  let ?r = "it_reader it"
  from inv have r: "reader_inv ?r" by (simp add: iter_inv_def)
  show ?thesis
  proof (cases "rd_pos ?r \<ge> it_doc_end it")
    case True
    then show ?thesis
      using r by (simp add: bson_iter_next_def iter_at_end_def read_u8_eq)
  next
    case False
    define r1 where "r1 = ?r\<lparr>rd_pos := rd_pos ?r + 1\<rparr>"
    have r1: "reader_inv r1" "it_doc_end it \<le> rd_len r1" "rd_pos r1 \<le> it_doc_end it"
      using inv False by (auto simp: r1_def iter_inv_def reader_inv_def)
    have u8: "bson_reader_read_u8 ?r = Ok (rd_buf ?r ! rd_pos ?r, r1)"
      using r False inv by (simp add: read_u8_eq r1_def iter_inv_def)
    show ?thesis
      using r1
    proof (cases rule: read_cstring_cases)
      case err
      with False u8 show ?thesis by (simp add: bson_iter_next_def)
    next
      case (ok n)
      have "reader_inv (r1\<lparr>rd_pos := rd_pos r1 + n + 1\<rparr>)"
        using ok(2) r1 by (simp add: reader_inv_def)
      moreover have "n \<le> length (drop (rd_pos r1) (rd_buf r1))"
        using ok(2) r1 by (simp add: reader_inv_def)
      ultimately show ?thesis
        using False u8 ok(1)
        by (auto simp: bson_iter_next_def utf8_validate_eq intro!: safe_rbind iter_skip_value_safe)
    qed
  qed
qed

section \<open>What a step reads\<close>

text \<open>
  \<open>value_ok t bs\<close>: the bytes \<open>bs\<close> have the layout of a value of type \<open>t\<close> (the type table of
  docs/wire_protocol.md), as far as the iterator looks: lengths only.
\<close>

definition value_ok :: "byte \<Rightarrow> byte list \<Rightarrow> bool" where
  "value_ok t bs =
     (if t \<in> {BSON_TYPE_DOUBLE, BSON_TYPE_DATETIME, BSON_TYPE_INT64} then length bs = 8
      else if t = BSON_TYPE_STRING then
        1 \<le> i32_of (take 4 bs) \<and> length bs = 4 + nat (i32_of (take 4 bs))
      else if t = BSON_TYPE_DOCUMENT \<or> t = BSON_TYPE_ARRAY then
        5 \<le> i32_of (take 4 bs) \<and> length bs = nat (i32_of (take 4 bs))
      else if t = BSON_TYPE_BINARY then
        0 \<le> i32_of (take 4 bs) \<and> length bs = 5 + nat (i32_of (take 4 bs))
      else if t = BSON_TYPE_OBJECTID then length bs = 12
      else if t = BSON_TYPE_BOOL then length bs = 1
      else if t = BSON_TYPE_NULL then length bs = 0
      else t = BSON_TYPE_INT32 \<and> length bs = 4)"

lemma value_ok_simps:
  "value_ok BSON_TYPE_DOUBLE bs \<longleftrightarrow> length bs = 8"
  "value_ok BSON_TYPE_STRING bs \<longleftrightarrow>
     1 \<le> i32_of (take 4 bs) \<and> length bs = 4 + nat (i32_of (take 4 bs))"
  "value_ok BSON_TYPE_DOCUMENT bs \<longleftrightarrow>
     5 \<le> i32_of (take 4 bs) \<and> length bs = nat (i32_of (take 4 bs))"
  "value_ok BSON_TYPE_ARRAY bs \<longleftrightarrow>
     5 \<le> i32_of (take 4 bs) \<and> length bs = nat (i32_of (take 4 bs))"
  "value_ok BSON_TYPE_BINARY bs \<longleftrightarrow>
     0 \<le> i32_of (take 4 bs) \<and> length bs = 5 + nat (i32_of (take 4 bs))"
  "value_ok BSON_TYPE_OBJECTID bs \<longleftrightarrow> length bs = 12"
  "value_ok BSON_TYPE_BOOL bs \<longleftrightarrow> length bs = 1"
  "value_ok BSON_TYPE_DATETIME bs \<longleftrightarrow> length bs = 8"
  "value_ok BSON_TYPE_NULL bs \<longleftrightarrow> length bs = 0"
  "value_ok BSON_TYPE_INT32 bs \<longleftrightarrow> length bs = 4"
  "value_ok BSON_TYPE_INT64 bs \<longleftrightarrow> length bs = 8"
  unfolding value_ok_def by (simp_all add: bson_type_defs)

lemma value_ok_other: "t \<notin> supported_types \<Longrightarrow> \<not> value_ok t bs"
  by (simp add: value_ok_def supported_types_def)

lemma fixed_width_iff:
  assumes "reader_inv r" "de < rd_len r" "rd_pos r \<le> de"
  shows "bson_reader_skip r k = Ok r' \<and> rd_pos r' \<le> de \<longleftrightarrow>
     rd_pos r + k \<le> de \<and> r' = r\<lparr>rd_pos := rd_pos r + k\<rparr>"
  using assms by (auto simp: skip_eq)

text \<open>The prefixed types: the length prefix read in place decides the extent.\<close>

lemma value_ok_take:
  assumes "pos + n \<le> length buf"
  defines "v \<equiv> i32_of (take 4 (drop pos buf))"
  shows "value_ok BSON_TYPE_STRING (take n (drop pos buf)) \<longleftrightarrow> 1 \<le> v \<and> n = 4 + nat v"
    and "value_ok BSON_TYPE_BINARY (take n (drop pos buf)) \<longleftrightarrow> 0 \<le> v \<and> n = 5 + nat v"
    and "value_ok BSON_TYPE_DOCUMENT (take n (drop pos buf)) \<longleftrightarrow> 5 \<le> v \<and> n = nat v"
    and "value_ok BSON_TYPE_ARRAY (take n (drop pos buf)) \<longleftrightarrow> 5 \<le> v \<and> n = nat v"
proof -
  have len: "length (take n (drop pos buf)) = n" using assms(1) by simp
  have v: "i32_of (take 4 (take n (drop pos buf))) = v" if "4 \<le> n"
    using that by (simp add: v_def min_def)
  show "value_ok BSON_TYPE_STRING (take n (drop pos buf)) \<longleftrightarrow> 1 \<le> v \<and> n = 4 + nat v"
    "value_ok BSON_TYPE_BINARY (take n (drop pos buf)) \<longleftrightarrow> 0 \<le> v \<and> n = 5 + nat v"
    "value_ok BSON_TYPE_DOCUMENT (take n (drop pos buf)) \<longleftrightarrow> 5 \<le> v \<and> n = nat v"
    "value_ok BSON_TYPE_ARRAY (take n (drop pos buf)) \<longleftrightarrow> 5 \<le> v \<and> n = nat v"
    unfolding value_ok_simps len using v by (cases "4 \<le> n"; auto)+
qed

lemma iter_skip_value_iff:
  assumes "reader_inv r" "de < rd_len r" "rd_pos r \<le> de"
  shows "iter_skip_value t de r = Ok r' \<and> rd_pos r' \<le> de \<longleftrightarrow>
    (\<exists>n. rd_pos r + n \<le> de \<and> value_ok t (take n (drop (rd_pos r) (rd_buf r))) \<and>
         r' = r\<lparr>rd_pos := rd_pos r + n\<rparr>)"
proof -
  have de: "de \<le> length (rd_buf r)" using assms by (simp add: reader_inv_def)
  define v where "v = i32_of (take 4 (drop (rd_pos r) (rd_buf r)))"
  have r4: "bson_reader_read_i32 r = (if rd_pos r + 4 \<le> rd_len r
      then Ok (v, r\<lparr>rd_pos := rd_pos r + 4\<rparr>) else Err BSON_ERR_TRUNCATED_BUFFER)"
    using assms by (simp add: read_i32_eq v_def)
  have sk: "bson_reader_skip q n = Ok q' \<longleftrightarrow>
      rd_pos q + n \<le> rd_len q \<and> q' = q\<lparr>rd_pos := rd_pos q + n\<rparr>"
    if "rd_pos q \<le> rd_len q" for q q' n
    using that by (auto simp: bson_reader_skip_def bson_reader_remaining_def)
  have len: "min (length (rd_buf r) - rd_pos r) n = n" if "rd_pos r + n \<le> de" for n
    using that de by simp
  have ok: "rd_pos r + n \<le> de \<Longrightarrow> rd_pos r + n \<le> length (rd_buf r)" for n
    using de by simp
  note vt = value_ok_take [OF ok, folded v_def]
  show ?thesis
    by (cases t rule: type_cases)
      (use assms(2,3) in \<open>auto simp: iter_skip_simps value_ok_other value_ok_simps(1,6-11) r4 sk len vt
        BSON_DOC_MIN_LEN_def cong: conj_cong split: if_splits\<close>)
qed

lemma read_cstring_iff:
  assumes "reader_inv r" "bound \<le> rd_len r" "rd_pos r \<le> bound"
  shows "bson_reader_read_cstring_bounded r bound = Ok (k, n, r') \<longleftrightarrow>
    k = rd_pos r \<and> rd_pos r + n < bound \<and> rd_buf r ! (rd_pos r + n) = 0 \<and>
    nul_free (take n (drop (rd_pos r) (rd_buf r))) \<and> r' = r\<lparr>rd_pos := rd_pos r + n + 1\<rparr>"
    (is "?L \<longleftrightarrow> ?R")
proof
  assume L: ?L
  show ?R using assms
  proof (cases rule: read_cstring_cases)
    case err
    with L show ?thesis by simp
  next
    case (ok m)
    with L have "k = rd_pos r" "n = m" "r' = r\<lparr>rd_pos := rd_pos r + m + 1\<rparr>" by auto
    with ok show ?thesis by simp
  qed
next
  assume R: ?R
  have b: "bound \<le> length (rd_buf r)" using assms by (simp add: reader_inv_def)
  then have "take (n + 1) (drop (rd_pos r) (rd_buf r)) = take n (drop (rd_pos r) (rd_buf r)) @ [0]"
    using R b take_Suc_conv_app_nth [of n "drop (rd_pos r) (rd_buf r)"] by force
  moreover have "length (take n (drop (rd_pos r) (rd_buf r))) = n" using R b by auto
  ultimately have "find_nul (rd_buf r) (rd_pos r) bound = Ok (rd_pos r + n)"
    using find_nul_at [of "take n (drop (rd_pos r) (rd_buf r))" "rd_pos r" "rd_buf r" bound] R b by simp
  then show ?L
    using R assms by (simp add: bson_reader_read_cstring_bounded_def)
qed

text \<open>
  The step on an element, as a statement about the bytes: type, key, terminator and value lie
  before the end-of-object byte, and the iterator records where.
\<close>

definition element_at :: "byte list \<Rightarrow> nat \<Rightarrow> nat \<Rightarrow> nat \<Rightarrow> nat \<Rightarrow> bool" where
  "element_at buf p de kl n \<longleftrightarrow>
     p + 1 + kl < de \<and> buf ! (p + 1 + kl) = 0 \<and>
     nul_free (take kl (drop (p + 1) buf)) \<and> utf8_valid (take kl (drop (p + 1) buf)) \<and>
     p + 1 + kl + 1 + n \<le> de \<and> value_ok (buf ! p) (take n (drop (p + 1 + kl + 1) buf))"

definition iter_at :: "bson_iter \<Rightarrow> nat \<Rightarrow> nat \<Rightarrow> bson_iter" where
  "iter_at it kl n =
     (let r = it_reader it; p = rd_pos r in
      it\<lparr>it_reader := r\<lparr>rd_pos := p + 1 + kl + 1 + n\<rparr>, it_type := rd_buf r ! p,
         it_key_off := p + 1, it_key_len := kl, it_value_off := p + 1 + kl + 1\<rparr>)"

lemma iter_next_elem_iff:
  assumes inv: "iter_inv it"
  shows "bson_iter_next it = Ok (True, it') \<longleftrightarrow>
    (\<exists>kl n. element_at (rd_buf (it_reader it)) (rd_pos (it_reader it)) (it_doc_end it) kl n \<and>
       it' = iter_at it kl n)"
proof (cases "rd_pos (it_reader it) \<ge> it_doc_end it")
  case True
  then show ?thesis
    by (auto simp: bson_iter_next_def iter_at_end_def element_at_def split: result.splits if_splits)
next
  case False
  define r where "r = it_reader it"
  define r1 where "r1 = r\<lparr>rd_pos := rd_pos r + 1\<rparr>"
  have r: "reader_inv r" using inv by (simp add: iter_inv_def r_def)
  have r1: "reader_inv r1" "it_doc_end it \<le> rd_len r1" "rd_pos r1 \<le> it_doc_end it"
    "rd_pos r1 = rd_pos r + 1" "rd_buf r1 = rd_buf r"
    using inv False by (auto simp: r1_def r_def iter_inv_def reader_inv_def)
  have de: "it_doc_end it < rd_len r" "it_doc_end it \<le> length (rd_buf r)"
    using inv by (auto simp: r_def iter_inv_def reader_inv_def)
  have u8: "bson_reader_read_u8 r = Ok (rd_buf r ! rd_pos r, r1)"
    using r False inv by (simp add: read_u8_eq r1_def iter_inv_def r_def)
  have utf8: "bson_utf8_validate (drop (rd_pos r1) (rd_buf r1)) kl
      = Ok (utf8_valid (take kl (drop (rd_pos r1) (rd_buf r1))))" if "rd_pos r1 + kl < it_doc_end it" for kl
    using that de r1 by (intro utf8_validate_eq) simp
  have skip: "iter_skip_value t (it_doc_end it) (r1\<lparr>rd_pos := rd_pos r1 + kl + 1\<rparr>) = Ok r3 \<and>
        rd_pos r3 \<le> it_doc_end it \<longleftrightarrow>
      (\<exists>n. rd_pos r1 + kl + 1 + n \<le> it_doc_end it \<and>
        value_ok t (take n (drop (rd_pos r1 + kl + 1) (rd_buf r1))) \<and>
        r3 = r1\<lparr>rd_pos := rd_pos r1 + kl + 1 + n\<rparr>)"
    if "rd_pos r1 + kl < it_doc_end it" for t kl r3
    using iter_skip_value_iff [of "r1\<lparr>rd_pos := rd_pos r1 + kl + 1\<rparr>" "it_doc_end it" t r3] that de r1
    by (simp add: reader_inv_def r1_def)
  show ?thesis (is "?L \<longleftrightarrow> ?R")
  proof
    assume ?L
    then obtain kl r3 where "bson_reader_read_cstring_bounded r1 (it_doc_end it)
          = Ok (rd_pos r1, kl, r1\<lparr>rd_pos := rd_pos r1 + kl + 1\<rparr>)" "rd_pos r1 + kl < it_doc_end it"
        "rd_buf r1 ! (rd_pos r1 + kl) = 0" "nul_free (take kl (drop (rd_pos r1) (rd_buf r1)))"
      and ok: "utf8_valid (take kl (drop (rd_pos r1) (rd_buf r1)))"
        "iter_skip_value (rd_buf r ! rd_pos r) (it_doc_end it) (r1\<lparr>rd_pos := rd_pos r1 + kl + 1\<rparr>) = Ok r3"
        "rd_pos r3 \<le> it_doc_end it"
        "it' = it\<lparr>it_reader := r3, it_type := rd_buf r ! rd_pos r, it_key_off := rd_pos r1,
                 it_key_len := kl, it_value_off := rd_pos r1 + kl + 1\<rparr>"
      using False
      by (auto simp: bson_iter_next_def u8 read_cstring_iff [OF r1(1-3)] utf8 not_less
          simp flip: r_def split: if_splits)
    with skip [of kl "rd_buf r ! rd_pos r" r3] show ?R
      by (auto simp: element_at_def iter_at_def Let_def r1_def simp flip: r_def)
  next
    assume ?R
    then obtain kl n where e: "element_at (rd_buf r) (rd_pos r) (it_doc_end it) kl n"
      and it': "it' = iter_at it kl n" by (auto simp: r_def)
    have kl: "rd_pos r1 + kl < it_doc_end it" using e r1 by (simp add: element_at_def)
    have c: "bson_reader_read_cstring_bounded r1 (it_doc_end it)
          = Ok (rd_pos r1, kl, r1\<lparr>rd_pos := rd_pos r1 + kl + 1\<rparr>)"
      unfolding read_cstring_iff [OF r1(1-3)] using e r1 by (simp add: element_at_def)
    define r3 where "r3 = r1\<lparr>rd_pos := rd_pos r1 + kl + 1 + n\<rparr>"
    have "iter_skip_value (rd_buf r ! rd_pos r) (it_doc_end it) (r1\<lparr>rd_pos := rd_pos r1 + kl + 1\<rparr>) = Ok r3"
      "rd_pos r3 \<le> it_doc_end it"
      using skip [OF kl, of "rd_buf r ! rd_pos r" r3] e r1 by (auto simp: element_at_def r3_def)
    then show ?L
      using False e c it' utf8 [OF kl] r1
      by (simp add: bson_iter_next_def u8 element_at_def iter_at_def Let_def r3_def r1_def flip: r_def)
  qed
qed

lemma iter_next_end_iff:
  assumes inv: "iter_inv it"
  shows "bson_iter_next it = Ok (False, it') \<longleftrightarrow>
    rd_pos (it_reader it) = it_doc_end it \<and> rd_buf (it_reader it) ! it_doc_end it = 0 \<and>
    it' = it\<lparr>it_reader := (it_reader it)\<lparr>rd_pos := it_doc_end it + 1\<rparr>\<rparr>"
  using inv
  by (auto simp: bson_iter_next_def iter_at_end_def iter_inv_def read_u8_eq BSON_EOO_BYTE_def
      split: if_splits)

section \<open>Properties\<close>

text \<open>
  C26. One step of the iterator, in full: it returns an element exactly when the bytes at the cursor
  are one (type, NUL-terminated UTF-8 key, a value of the type's layout, all before the end of the
  document), and then moves forward and keeps its invariant; it returns the end exactly when
  the cursor stands on the end-of-object byte; it fails otherwise. It never reads outside of the
  buffer.
\<close>

theorem iter_next_spec:
  assumes "iter_inv it"
  shows "case bson_iter_next it of
      Ok (found, it') \<Rightarrow>
        (if found
         then iter_inv it' \<and> rd_pos (it_reader it) < rd_pos (it_reader it') \<and>
           (\<exists>kl n. element_at (rd_buf (it_reader it)) (rd_pos (it_reader it)) (it_doc_end it) kl n \<and>
              it' = iter_at it kl n)
         else rd_pos (it_reader it) = it_doc_end it \<and> rd_buf (it_reader it) ! it_doc_end it = BSON_EOO_BYTE)
    | Err e \<Rightarrow>
        (\<nexists>kl n. element_at (rd_buf (it_reader it)) (rd_pos (it_reader it)) (it_doc_end it) kl n) \<and>
        \<not> (rd_pos (it_reader it) = it_doc_end it \<and> rd_buf (it_reader it) ! it_doc_end it = BSON_EOO_BYTE)
    | Fault \<Rightarrow> False
    | Diverge \<Rightarrow> False"
  using iter_next_safe [OF assms]
proof (cases rule: safe_cases)
  case (1 r)
  obtain found it' where r: "r = (found, it')" by fastforce
  show ?thesis
    using 1 r iter_next_elem_iff [OF assms, of it'] iter_next_end_iff [OF assms, of it']
      iter_next_inv [OF assms, of it'] iter_next_progress(1) [of it it']
    by (cases found) (simp_all add: BSON_EOO_BYTE_def)
next
  case (2 e)
  then show ?thesis
    using iter_next_elem_iff [OF assms] iter_next_end_iff [OF assms] by (auto simp: BSON_EOO_BYTE_def)
qed

text \<open>The document \<^verbatim>\<open>{"a": true}\<close>, before its only element.\<close>

definition sample_iter :: bson_iter where
  "sample_iter = \<lparr>it_reader = \<lparr>rd_buf = [9, 0, 0, 0, 8, 0x61, 0, 1, 0], rd_len = 9, rd_pos = 4\<rparr>,
     it_doc_end = 8, it_type = 0, it_key_off = 0, it_key_len = 0, it_value_off = 0\<rparr>"

theorem iter_next_spec_witness:
  "case bson_iter_next sample_iter of
      Ok (found, it') \<Rightarrow>
        (if found
         then iter_inv it' \<and> rd_pos (it_reader sample_iter) < rd_pos (it_reader it') \<and>
           (\<exists>kl n. element_at (rd_buf (it_reader sample_iter)) (rd_pos (it_reader sample_iter)) (it_doc_end sample_iter) kl n \<and>
              it' = iter_at sample_iter kl n)
         else rd_pos (it_reader sample_iter) = it_doc_end sample_iter \<and>
           rd_buf (it_reader sample_iter) ! it_doc_end sample_iter = BSON_EOO_BYTE)
    | Err e \<Rightarrow>
        (\<nexists>kl n. element_at (rd_buf (it_reader sample_iter)) (rd_pos (it_reader sample_iter)) (it_doc_end sample_iter) kl n) \<and>
        \<not> (rd_pos (it_reader sample_iter) = it_doc_end sample_iter \<and>
           rd_buf (it_reader sample_iter) ! it_doc_end sample_iter = BSON_EOO_BYTE)
    | Fault \<Rightarrow> False
    | Diverge \<Rightarrow> False"
  by (rule iter_next_spec) (simp add: sample_iter_def iter_inv_def reader_inv_def)

end
