(* ===== verification/Bson_Validate.thy ===== *)
theory Bson_Validate
  imports Bson_Iter
begin

text \<open>
  The recursive validator \<^verbatim>\<open>validate_recursive\<close> / \<^verbatim>\<open>bson_validate_document\<close> of
  src/c_engine/bson_engine.c. The recursion and its while loop are two mutually recursive
  functions; they end because a nested document raises the depth, which is bounded, and every
  element moves the cursor towards the end of its document (\<open>iter_next_progress\<close>).
\<close>

section \<open>The code\<close>

function validate_recursive :: "byte list \<Rightarrow> nat \<Rightarrow> nat \<Rightarrow> nat \<Rightarrow> nat result"
  and validate_loop :: "byte list \<Rightarrow> bson_iter \<Rightarrow> nat \<Rightarrow> unit result" where
  "validate_recursive buf offset bound depth =
     (if depth > BSON_MAX_DEPTH then Err BSON_ERR_MAX_DEPTH_EXCEEDED
      else rbind (bson_iter_init_nested buf offset bound) (\<lambda>it.
             rbind (validate_loop buf it depth) (\<lambda>_. Ok (it_doc_end it + 1))))"
| "validate_loop buf it depth =
     rbind (bson_iter_next it) (\<lambda>(found, it').
       if found then
         (if it_type it' = BSON_TYPE_DOCUMENT \<or> it_type it' = BSON_TYPE_ARRAY
          then rbind (validate_recursive buf (it_value_off it') (it_doc_end it') (depth + 1))
                 (\<lambda>_. validate_loop buf it' depth)
          else validate_loop buf it' depth)
       else Ok ())"
  by pat_completeness auto
termination
  by (relation "measures
        [\<lambda>x. case x of
            Inl (buf, offset, bound, depth) \<Rightarrow>
              (if depth > BSON_MAX_DEPTH then 0 else 2 * (BSON_MAX_DEPTH + 2 - depth))
          | Inr (buf, it, depth) \<Rightarrow> 2 * (BSON_MAX_DEPTH + 1 - depth) + 1,
         \<lambda>x. case x of
            Inl _ \<Rightarrow> 0
          | Inr (buf, it, depth) \<Rightarrow> it_doc_end it - rd_pos (it_reader it)]")
    (auto dest: iter_next_measure)

declare validate_recursive.simps [simp del] validate_loop.simps [simp del]

definition bson_validate_document :: "byte list \<Rightarrow> nat \<Rightarrow> unit result" where
  "bson_validate_document buf len =
     (if len < BSON_DOC_MIN_LEN then Err BSON_ERR_TRUNCATED_BUFFER
      else rbind (validate_recursive buf 0 len 0) (\<lambda>doc_end.
             if doc_end \<noteq> len then Err BSON_ERR_TRAILING_BYTES else Ok ()))"

section \<open>Memory safety and termination\<close>

text \<open>
  The functions are total, so the validator always returns; on a buffer of at least \<open>len\<close>
  bytes it also never reads outside of it, whatever the bytes are.
\<close>

lemma validate_safe:
  "bound \<le> length buf \<Longrightarrow> safe (validate_recursive buf offset bound depth)"
  "iter_inv it \<Longrightarrow> rd_buf (it_reader it) = buf \<Longrightarrow> safe (validate_loop buf it depth)"
proof (induction buf offset bound depth and buf it depth
    rule: validate_recursive_validate_loop.induct)
  case (1 buf offset bound depth)
  have "safe (validate_loop buf it depth)"
    if "bson_iter_init_nested buf offset bound = Ok it" "\<not> BSON_MAX_DEPTH < depth" for it
    using "1.IH" that iter_init_inv [OF "1.prems" that(1)] by blast
  then show ?case
    using iter_init_safe [OF "1.prems"]
    by (auto simp: validate_recursive.simps [of buf offset] intro!: safe_rbind)
next
  case (2 buf it depth)
  have next_safe: "safe (bson_iter_next it)" using "2.prems" by (simp add: iter_next_safe)
  have inv: "iter_inv it' \<and> rd_buf (it_reader it') = buf \<and> it_doc_end it' \<le> length buf"
    if "bson_iter_next it = Ok (True, it')" for it'
    using iter_next_inv [OF _ that] iter_next_progress [OF that] "2.prems"
    by (auto simp: iter_inv_def reader_inv_def)
  have "safe (rbind (validate_recursive buf (it_value_off it') (it_doc_end it') (depth + 1))
                (\<lambda>_. validate_loop buf it' depth))"
    if "bson_iter_next it = Ok (True, it')" "it_type it' = BSON_TYPE_DOCUMENT \<or> it_type it' = BSON_TYPE_ARRAY"
    for it'
    using "2.IH"(1,2) [OF that(1) refl _ that(2)] inv [OF that(1)] by blast
  moreover have "safe (validate_loop buf it' depth)"
    if "bson_iter_next it = Ok (True, it')" "\<not> (it_type it' = BSON_TYPE_DOCUMENT \<or> it_type it' = BSON_TYPE_ARRAY)"
    for it'
    using "2.IH"(3) [OF that(1) refl _ that(2)] inv [OF that(1)] by blast
  ultimately show ?case
    using next_safe unfolding validate_loop.simps [of buf it]
    by (intro safe_rbind) (auto split: prod.split)
qed

end
