(* ===== verification/Bson_Grammar.thy ===== *)
theory Bson_Grammar
  imports Bson_Validate
begin

text \<open>
  The abstract specification of the wire format (docs/wire_protocol.md, section Document layout):
  documents as a datatype, their encoding as a byte list, and the proof that the validator
  accepts exactly the encodings of well-formed documents.

  A string's payload is any non-empty byte list here: the validator checks neither its
  terminator nor its UTF-8, only \<^verbatim>\<open>bson_iter_value_utf8\<close> does.
\<close>

section \<open>Documents and their encoding\<close>

datatype wval =
    WDouble u64
  | WString "byte list"
  | WDocument "(byte list \<times> wval) list"
  | WArray "(byte list \<times> wval) list"
  | WBinary byte "byte list"
  | WObjectId "byte list"
  | WBool byte
  | WDatetime u64
  | WNull
  | WInt32 u32
  | WInt64 u64

type_synonym welems = "(byte list \<times> wval) list"

fun wtype :: "wval \<Rightarrow> byte" where
  "wtype (WDouble _) = BSON_TYPE_DOUBLE"
| "wtype (WString _) = BSON_TYPE_STRING"
| "wtype (WDocument _) = BSON_TYPE_DOCUMENT"
| "wtype (WArray _) = BSON_TYPE_ARRAY"
| "wtype (WBinary _ _) = BSON_TYPE_BINARY"
| "wtype (WObjectId _) = BSON_TYPE_OBJECTID"
| "wtype (WBool _) = BSON_TYPE_BOOL"
| "wtype (WDatetime _) = BSON_TYPE_DATETIME"
| "wtype WNull = BSON_TYPE_NULL"
| "wtype (WInt32 _) = BSON_TYPE_INT32"
| "wtype (WInt64 _) = BSON_TYPE_INT64"

definition frame :: "byte list \<Rightarrow> byte list" where
  "frame body = nat_le 4 (length body + 5) @ body @ [BSON_EOO_BYTE]"

fun enc_val :: "wval \<Rightarrow> byte list" and enc_elems :: "welems \<Rightarrow> byte list" where
  "enc_val (WDouble w) = nat_le 8 (unat w)"
| "enc_val (WString s) = nat_le 4 (length s) @ s"
| "enc_val (WDocument es) = frame (enc_elems es)"
| "enc_val (WArray es) = frame (enc_elems es)"
| "enc_val (WBinary sub bs) = nat_le 4 (length bs) @ sub # bs"
| "enc_val (WObjectId bs) = bs"
| "enc_val (WBool b) = [b]"
| "enc_val (WDatetime w) = nat_le 8 (unat w)"
| "enc_val WNull = []"
| "enc_val (WInt32 w) = nat_le 4 (unat w)"
| "enc_val (WInt64 w) = nat_le 8 (unat w)"
| "enc_elems [] = []"
| "enc_elems ((k, v) # es) = wtype v # k @ 0 # enc_val v @ enc_elems es"

definition enc_doc :: "welems \<Rightarrow> byte list" where
  "enc_doc es = frame (enc_elems es)"

text \<open>Nesting depth below a value, and well-formedness.\<close>

fun depth_val :: "wval \<Rightarrow> nat" and depth_elems :: "welems \<Rightarrow> nat" where
  "depth_val (WDocument es) = Suc (depth_elems es)"
| "depth_val (WArray es) = Suc (depth_elems es)"
| "depth_val _ = 0"
| "depth_elems [] = 0"
| "depth_elems ((k, v) # es) = max (depth_val v) (depth_elems es)"

fun wf_val :: "wval \<Rightarrow> bool" and wf_elems :: "welems \<Rightarrow> bool" where
  "wf_val (WString s) \<longleftrightarrow> s \<noteq> [] \<and> length s < 2 ^ 31"
| "wf_val (WDocument es) \<longleftrightarrow>
     wf_elems es \<and> length (frame (enc_elems es)) \<le> BSON_MAX_DOCUMENT_SIZE"
| "wf_val (WArray es) \<longleftrightarrow>
     wf_elems es \<and> length (frame (enc_elems es)) \<le> BSON_MAX_DOCUMENT_SIZE"
| "wf_val (WBinary _ bs) \<longleftrightarrow> length bs < 2 ^ 31"
| "wf_val (WObjectId bs) \<longleftrightarrow> length bs = 12"
| "wf_val _ \<longleftrightarrow> True"
| "wf_elems [] \<longleftrightarrow> True"
| "wf_elems ((k, v) # es) \<longleftrightarrow> nul_free k \<and> utf8_valid k \<and> wf_val v \<and> wf_elems es"

definition wf_doc :: "welems \<Rightarrow> bool" where
  "wf_doc es \<longleftrightarrow> wf_elems es \<and> length (enc_doc es) \<le> BSON_MAX_DOCUMENT_SIZE"

section \<open>Lengths and prefixes\<close>

lemma length_frame [simp]: "length (frame body) = length body + 5"
  by (simp add: frame_def)

lemma i32_of_nat_le: "n < 2 ^ 31 \<Longrightarrow> i32_of (nat_le 4 n) = int n"
  using i32_of_le_i32 [of "int n"] by (simp add: le_i32_def unat_of_nat)

lemma nat_i32_of_less: "nat (i32_of bs) < 2 ^ 31"
  using i32_of_range(2) [of bs] by (cases "0 \<le> i32_of bs") (simp_all add: nat_less_iff)

lemma nat_le_i32_of:
  assumes "length bs = 4" "0 \<le> i32_of bs"
  shows "nat_le 4 (nat (i32_of bs)) = bs"
proof -
  have "unat (word_of_int (i32_of bs) :: u32) = nat (i32_of bs)"
    using assms(2) i32_of_range(2) [of bs] by (simp add: unsigned_of_int take_bit_int_eq_self)
  then show ?thesis
    using le_i32_i32_of [OF assms(1)] by (simp add: le_i32_def)
qed

lemma length_enc_doc [simp]: "length (enc_doc es) = length (enc_elems es) + 5"
  by (simp add: enc_doc_def)

lemma take4_frame [simp]: "take 4 (frame body @ rest) = nat_le 4 (length body + 5)"
  "take 4 (frame body) = nat_le 4 (length body + 5)"
  by (simp_all add: frame_def)

lemma i32_of_nat_le_doc: "length body + 5 \<le> BSON_MAX_DOCUMENT_SIZE \<Longrightarrow>
    i32_of (nat_le 4 (length body + 5)) = int (length body + 5)"
  by (rule i32_of_nat_le) (simp add: BSON_MAX_DOCUMENT_SIZE_def)

lemma value_ok_enc: "wf_val v \<Longrightarrow> value_ok (wtype v) (enc_val v)"
  by (cases v) (simp_all add: value_ok_simps i32_of_nat_le i32_of_nat_le_doc Suc_le_eq del: of_nat_add power_numeral)

text \<open>Every value the iterator accepts, documents and arrays apart, is the encoding of one.\<close>

lemma length_8_nat_le: "length bs = 8 \<Longrightarrow> \<exists>w :: u64. bs = nat_le 8 (unat w)"
  using le_i64_i64_of [of bs] unfolding le_i64_def by metis

lemma length_4_nat_le: "length bs = 4 \<Longrightarrow> \<exists>w :: u32. bs = nat_le 4 (unat w)"
  using le_i32_i32_of [of bs] unfolding le_i32_def by metis

lemma scalar_value:
  assumes "value_ok t bs" "t \<noteq> BSON_TYPE_DOCUMENT" "t \<noteq> BSON_TYPE_ARRAY"
  shows "\<exists>v. wtype v = t \<and> wf_val v \<and> depth_val v = 0 \<and> bs = enc_val v"
proof (cases t rule: type_cases)
  case double
  with assms length_8_nat_le [of bs] obtain w :: u64 where "bs = nat_le 8 (unat w)"
    by (auto simp: value_ok_simps)
  with double show ?thesis by (intro exI [of _ "WDouble w"]) simp
next
  case string
  define n where "n = i32_of (take 4 bs)"
  have n: "1 \<le> n" "length bs = 4 + nat n"
    using assms(1) unfolding string value_ok_simps n_def by blast+
  have "length (take 4 bs) = 4" using n(2) by (simp add: min_def)
  moreover have "0 \<le> i32_of (take 4 bs)" using n(1) unfolding n_def by linarith
  ultimately have "nat_le 4 (nat n) = take 4 bs" unfolding n_def by (rule nat_le_i32_of)
  moreover have "nat n < 2 ^ 31" unfolding n_def by (rule nat_i32_of_less)
  moreover have "length (drop 4 bs) = nat n" "drop 4 bs \<noteq> []" using n by simp_all
  ultimately have "bs = enc_val (WString (drop 4 bs))" "wf_val (WString (drop 4 bs))"
    by (simp_all only: enc_val.simps wf_val.simps append_take_drop_id not_False_eq_True conj_ac)
  with string show ?thesis by (intro exI [of _ "WString (drop 4 bs)"]) simp
next
  case binary
  define n where "n = i32_of (take 4 bs)"
  have n: "0 \<le> n" "length bs = 5 + nat n"
    using assms(1) unfolding binary value_ok_simps n_def by blast+
  have "length (take 4 bs) = 4" using n(2) by (simp add: min_def)
  moreover have "0 \<le> i32_of (take 4 bs)" using n(1) unfolding n_def by linarith
  ultimately have "nat_le 4 (nat n) = take 4 bs" unfolding n_def by (rule nat_le_i32_of)
  moreover have "nat n < 2 ^ 31" unfolding n_def by (rule nat_i32_of_less)
  moreover have "bs = take 4 bs @ bs ! 4 # drop 5 bs"
    using n id_take_nth_drop [of 4 bs] by simp
  moreover have "length (drop 5 bs) = nat n" using n by simp
  ultimately have "bs = enc_val (WBinary (bs ! 4) (drop 5 bs))" "wf_val (WBinary (bs ! 4) (drop 5 bs))"
    by (simp_all only: enc_val.simps wf_val.simps)
  with binary show ?thesis by (intro exI [of _ "WBinary (bs ! 4) (drop 5 bs)"]) simp
next
  case bool
  with assms obtain b where "bs = [b]" by (auto simp: value_ok_simps length_Suc_conv)
  with bool show ?thesis by (intro exI [of _ "WBool b"]) simp
next
  case datetime
  with assms length_8_nat_le [of bs] obtain w :: u64 where "bs = nat_le 8 (unat w)"
    by (auto simp: value_ok_simps)
  with datetime show ?thesis by (intro exI [of _ "WDatetime w"]) simp
next
  case int32
  with assms length_4_nat_le [of bs] obtain w :: u32 where "bs = nat_le 4 (unat w)"
    by (auto simp: value_ok_simps)
  with int32 show ?thesis by (intro exI [of _ "WInt32 w"]) simp
next
  case int64
  with assms length_8_nat_le [of bs] obtain w :: u64 where "bs = nat_le 8 (unat w)"
    by (auto simp: value_ok_simps)
  with int64 show ?thesis by (intro exI [of _ "WInt64 w"]) simp
next
  case objectid
  with assms show ?thesis by (intro exI [of _ "WObjectId bs"]) (simp add: value_ok_simps)
next
  case null
  with assms show ?thesis by (intro exI [of _ WNull]) (simp add: value_ok_simps)
qed (use assms value_ok_other in auto)

section \<open>Segments of a buffer\<close>

definition seg :: "byte list \<Rightarrow> nat \<Rightarrow> nat \<Rightarrow> byte list" where
  "seg buf p q = take (q - p) (drop p buf)"

lemma length_seg [simp]: "q \<le> length buf \<Longrightarrow> length (seg buf p q) = q - p"
  by (simp add: seg_def)

lemma seg_split: "p \<le> q \<Longrightarrow> q \<le> r \<Longrightarrow> r \<le> length buf \<Longrightarrow> seg buf p r = seg buf p q @ seg buf q r"
  using take_add [of "q - p" "r - q" "drop p buf"] by (simp add: seg_def)

lemma seg_Cons: "p < q \<Longrightarrow> q \<le> length buf \<Longrightarrow> seg buf p q = buf ! p # seg buf (p + 1) q"
  by (simp add: seg_def take_Cons' Cons_nth_drop_Suc [symmetric])

lemma seg_eq_appendD:
  assumes "seg buf p r = xs @ ys" "p \<le> r" "r \<le> length buf"
  shows "p + length xs \<le> r \<and> xs = seg buf p (p + length xs) \<and> ys = seg buf (p + length xs) r"
proof -
  have l: "r - p = length xs + length ys"
    using length_seg [OF assms(3), of p] by (simp add: assms(1))
  then have le: "p + length xs \<le> r" using assms(2) by simp
  have "seg buf p (p + length xs) @ seg buf (p + length xs) r = xs @ ys"
    using assms le seg_split [of p "p + length xs" r buf] by simp
  moreover have "length (seg buf p (p + length xs)) = length xs" using le assms(3) by simp
  ultimately show ?thesis using le by (metis append_eq_append_conv)
qed

lemma element_atD:
  assumes "element_at buf p de kl n" "de \<le> length buf"
  shows "p + 1 + kl + 1 + n \<le> de"
    "nul_free (seg buf (p + 1) (p + 1 + kl))" "utf8_valid (seg buf (p + 1) (p + 1 + kl))"
    "value_ok (buf ! p) (seg buf (p + 1 + kl + 1) (p + 1 + kl + 1 + n))"
    "seg buf p de = buf ! p # seg buf (p + 1) (p + 1 + kl) @ 0 #
       seg buf (p + 1 + kl + 1) (p + 1 + kl + 1 + n) @ seg buf (p + 1 + kl + 1 + n) de"
proof -
  show e: "p + 1 + kl + 1 + n \<le> de" "nul_free (seg buf (p + 1) (p + 1 + kl))"
    "utf8_valid (seg buf (p + 1) (p + 1 + kl))"
    "value_ok (buf ! p) (seg buf (p + 1 + kl + 1) (p + 1 + kl + 1 + n))"
    using assms by (auto simp: element_at_def seg_def)
  have z: "buf ! (p + 1 + kl) = 0" using assms by (simp add: element_at_def)
  have "seg buf p de = buf ! p # seg buf (p + 1) (p + 1 + kl) @ seg buf (p + 1 + kl) de"
    using assms(2) e(1) seg_Cons [of p de buf] seg_split [of "p + 1" "p + 1 + kl" de buf] by simp
  also have "seg buf (p + 1 + kl) de = 0 # seg buf (p + 1 + kl + 1) (p + 1 + kl + 1 + n) @
      seg buf (p + 1 + kl + 1 + n) de"
    using assms(2) e(1) z seg_Cons [of "p + 1 + kl" de buf]
      seg_split [of "p + 1 + kl + 1" "p + 1 + kl + 1 + n" de buf] by simp
  finally show "seg buf p de = buf ! p # seg buf (p + 1) (p + 1 + kl) @ 0 #
       seg buf (p + 1 + kl + 1) (p + 1 + kl + 1 + n) @ seg buf (p + 1 + kl + 1 + n) de" .
qed

lemma element_atI:
  assumes eq: "seg buf p de = t # key @ 0 # val @ rest" and le: "p \<le> de" "de \<le> length buf"
    and ok: "nul_free key" "utf8_valid key" "value_ok t val"
  defines "kl \<equiv> length key" and "n \<equiv> length val"
  shows "element_at buf p de kl n" "t = buf ! p" "val = seg buf (p + 1 + kl + 1) (p + 1 + kl + 1 + n)"
    "rest = seg buf (p + 1 + kl + 1 + n) de"
proof -
  have "seg buf p de = (t # key) @ ([0] @ (val @ rest))" using eq by simp
  from seg_eq_appendD [OF this le]
  have 1: "p + 1 + kl \<le> de" "t # key = seg buf p (p + 1 + kl)" "[0] @ (val @ rest) = seg buf (p + 1 + kl) de"
    by (simp_all add: kl_def add.commute)
  from seg_eq_appendD [OF 1(3) [symmetric] 1(1) le(2)]
  have 2: "p + 1 + kl + 1 \<le> de" "val @ rest = seg buf (p + 1 + kl + 1) de" by simp_all
  from seg_eq_appendD [OF 2(2) [symmetric] 2(1) le(2)]
  show 3: "val = seg buf (p + 1 + kl + 1) (p + 1 + kl + 1 + n)"
    "rest = seg buf (p + 1 + kl + 1 + n) de" by (simp_all add: n_def)
  have le': "p + 1 + kl + 1 + n \<le> de"
    using seg_eq_appendD [OF 2(2) [symmetric] 2(1) le(2)] by (simp add: n_def)
  have z: "buf ! (p + 1 + kl) = 0" using 1(3) seg_Cons [of "p + 1 + kl" de buf] 2(1) le(2) by simp
  have k: "key = seg buf (p + 1) (p + 1 + kl)" and t: "t = buf ! p"
    using 1(1,2) seg_Cons [of p "p + 1 + kl" buf] le(2) by simp_all
  show "t = buf ! p" by (rule t)
  show "element_at buf p de kl n"
    using ok 2(1) le' z k t 3(1) by (simp add: element_at_def seg_def)
qed

section \<open>The validator accepts exactly the encodings of well-formed documents\<close>

text \<open>A framed body that fits is found by its own length prefix.\<close>

lemma enc_doc_prefix:
  assumes "seg buf off (off + length (enc_doc es)) = enc_doc es"
    "off + length (enc_doc es) \<le> length buf" "wf_doc es"
  shows "i32_of (take 4 (drop off buf)) = int (length (enc_doc es))"
proof -
  have "take 4 (drop off buf) = take 4 (seg buf off (off + length (enc_doc es)))"
    by (simp add: seg_def min_def)
  also have "\<dots> = nat_le 4 (length (enc_doc es))" by (simp only: assms(1)) (simp add: enc_doc_def)
  finally show ?thesis
    using assms(3) i32_of_nat_le_doc [of "enc_elems es"] by (simp add: wf_doc_def)
qed

definition accepts_doc :: "byte list \<Rightarrow> nat \<Rightarrow> nat \<Rightarrow> nat \<Rightarrow> nat \<Rightarrow> bool" where
  "accepts_doc buf off bound depth e \<longleftrightarrow>
     (\<exists>es. wf_doc es \<and> depth + depth_elems es \<le> BSON_MAX_DEPTH \<and> e = off + length (enc_doc es) \<and>
        e \<le> bound \<and> seg buf off e = enc_doc es)"

definition accepts_elems :: "byte list \<Rightarrow> nat \<Rightarrow> nat \<Rightarrow> nat \<Rightarrow> bool" where
  "accepts_elems buf pos stop depth \<longleftrightarrow> buf ! stop = 0 \<and>
     (\<exists>es. wf_elems es \<and> depth + depth_elems es \<le> BSON_MAX_DEPTH \<and> seg buf pos stop = enc_elems es)"

lemma accepts_elems_end:
  "depth \<le> BSON_MAX_DEPTH \<Longrightarrow> accepts_elems buf stop stop depth \<longleftrightarrow> buf ! stop = 0"
  by (auto simp: accepts_elems_def seg_def intro: exI [of _ "[]"])

lemma enc_elems_not_Nil: "enc_elems es = [] \<longleftrightarrow> es = []"
  by (cases es) auto

text \<open>One element in front: what a non-empty region must look like.\<close>

lemma accepts_elems_step:
  assumes "pos < stop" "stop \<le> length buf" "depth \<le> BSON_MAX_DEPTH"
  shows "accepts_elems buf pos stop depth \<longleftrightarrow>
    (\<exists>kl n v. element_at buf pos stop kl n \<and> wf_val v \<and> wtype v = buf ! pos \<and>
       enc_val v = seg buf (pos + 1 + kl + 1) (pos + 1 + kl + 1 + n) \<and>
       depth + depth_val v \<le> BSON_MAX_DEPTH \<and>
       accepts_elems buf (pos + 1 + kl + 1 + n) stop depth)" (is "?L \<longleftrightarrow> ?R")
proof
  assume ?L
  then obtain es where z: "buf ! stop = 0" and es: "wf_elems es" "depth + depth_elems es \<le> BSON_MAX_DEPTH"
    "seg buf pos stop = enc_elems es" by (auto simp: accepts_elems_def)
  have "es \<noteq> []"
    using assms es(3) length_seg [of stop buf pos] by (auto simp del: length_seg)
  then obtain k v es' where c: "es = (k, v) # es'" by (metis list.exhaust prod.exhaust)
  have eq: "seg buf pos stop = wtype v # k @ 0 # enc_val v @ enc_elems es'"
    and v: "nul_free k" "utf8_valid k" "wf_val v" and es': "wf_elems es'"
    using es c by simp_all
  note at = element_atI [OF eq less_imp_le [OF assms(1)] assms(2) v(1,2) value_ok_enc [OF v(3)]]
  have "accepts_elems buf (pos + 1 + length k + 1 + length (enc_val v)) stop depth"
    unfolding accepts_elems_def using z es' es(2) at(4) c by auto
  then show ?R
    using at v es(2) c
    by (intro exI [of _ "length k"] exI [of _ "length (enc_val v)"] exI [of _ v]) simp
next
  assume ?R
  then obtain kl n v es where at: "element_at buf pos stop kl n" and v: "wf_val v" "wtype v = buf ! pos"
      "enc_val v = seg buf (pos + 1 + kl + 1) (pos + 1 + kl + 1 + n)"
    and d: "depth + depth_val v \<le> BSON_MAX_DEPTH" "depth + depth_elems es \<le> BSON_MAX_DEPTH"
    and es: "wf_elems es" "buf ! stop = 0" "seg buf (pos + 1 + kl + 1 + n) stop = enc_elems es"
    unfolding accepts_elems_def by auto
  define k where "k = seg buf (pos + 1) (pos + 1 + kl)"
  note e = element_atD [OF at assms(2)]
  have "seg buf pos stop = enc_elems ((k, v) # es)"
    using e(5) v es(3) by (simp add: k_def)
  moreover have "wf_elems ((k, v) # es)" using e v(1) es(1) by (simp add: k_def)
  moreover have "depth + depth_elems ((k, v) # es) \<le> BSON_MAX_DEPTH" using d by simp
  ultimately show ?L unfolding accepts_elems_def using es(2) by blast
qed

text \<open>A nested document: its bytes are checked by the recursive call, its extent by the iterator.\<close>

lemma doc_value_iff:
  assumes at: "element_at buf pos stop kl n" and le: "stop \<le> length buf"
    and t: "buf ! pos = BSON_TYPE_DOCUMENT \<or> buf ! pos = BSON_TYPE_ARRAY"
  defines "off \<equiv> pos + 1 + kl + 1"
  shows "(\<exists>e. accepts_doc buf off stop (depth + 1) e) \<longleftrightarrow>
    (\<exists>v. wf_val v \<and> wtype v = buf ! pos \<and> enc_val v = seg buf off (off + n) \<and>
       depth + depth_val v \<le> BSON_MAX_DEPTH)" (is "?L \<longleftrightarrow> ?R")
proof
  assume ?L
  then obtain es where es: "wf_doc es" "depth + 1 + depth_elems es \<le> BSON_MAX_DEPTH"
    "off + length (enc_doc es) \<le> stop" "seg buf off (off + length (enc_doc es)) = enc_doc es"
    by (auto simp: accepts_doc_def)
  have "i32_of (take 4 (drop off buf)) = int (length (enc_doc es))"
    using es le by (intro enc_doc_prefix) simp_all
  moreover have "value_ok (buf ! pos) (take n (drop off buf))" "off + n \<le> length buf"
    using at le by (simp_all add: element_at_def off_def)
  ultimately have n: "n = length (enc_doc es)" using t by (auto simp: value_ok_take)
  from t show ?R
  proof
    assume "buf ! pos = BSON_TYPE_DOCUMENT"
    then show ?R using es n by (intro exI [of _ "WDocument es"]) (simp add: wf_doc_def enc_doc_def)
  next
    assume "buf ! pos = BSON_TYPE_ARRAY"
    then show ?R using es n by (intro exI [of _ "WArray es"]) (simp add: wf_doc_def enc_doc_def)
  qed
next
  assume ?R
  then obtain v where v: "wf_val v" "wtype v = buf ! pos" "enc_val v = seg buf off (off + n)"
    "depth + depth_val v \<le> BSON_MAX_DEPTH" by blast
  then obtain es where "v = WDocument es \<or> v = WArray es"
    using t by (cases v) (simp_all add: bson_type_defs)
  then have es: "wf_doc es" "enc_doc es = seg buf off (off + n)" "depth + 1 + depth_elems es \<le> BSON_MAX_DEPTH"
    using v by (auto simp: wf_doc_def enc_doc_def)
  have le': "off + n \<le> stop" using at by (simp add: element_at_def off_def)
  then have "length (enc_doc es) = n" using arg_cong [OF es(2), of length] le by simp
  then show ?L unfolding accepts_doc_def using es le' by metis
qed

text \<open>A document: a length prefix, the elements, the end-of-object byte.\<close>

lemma accepts_doc_iff:
  assumes "bound \<le> length buf"
  shows "accepts_doc buf off bound depth e \<longleftrightarrow>
    (let m = i32_of (take 4 (drop off buf)) in
     off + 5 \<le> bound \<and> 5 \<le> m \<and> nat m \<le> BSON_MAX_DOCUMENT_SIZE \<and> e = off + nat m \<and> e \<le> bound \<and>
     accepts_elems buf (off + 4) (e - 1) depth)" (is "?L \<longleftrightarrow> ?R")
proof
  assume ?L
  then obtain es where es: "wf_doc es" "depth + depth_elems es \<le> BSON_MAX_DEPTH"
    "e = off + length (enc_doc es)" "e \<le> bound" "seg buf off e = enc_doc es"
    by (auto simp: accepts_doc_def)
  have m: "i32_of (take 4 (drop off buf)) = int (length (enc_doc es))"
    using es assms by (intro enc_doc_prefix) simp_all
  have "seg buf off e = nat_le 4 (length (enc_doc es)) @ (enc_elems es @ [BSON_EOO_BYTE])"
    by (simp add: es(5)) (simp add: enc_doc_def frame_def)
  from seg_eq_appendD [OF this] es(3,4) assms
  have 1: "seg buf (off + 4) e = enc_elems es @ [BSON_EOO_BYTE]" by simp
  from seg_eq_appendD [OF this] es(3,4) assms
  have "enc_elems es = seg buf (off + 4) (e - 1)" "[BSON_EOO_BYTE] = seg buf (e - 1) e"
    by (simp_all add: add.commute add.left_commute)
  moreover have "buf ! (e - 1) = 0"
    using calculation(2) es(3,4) assms seg_Cons [of "e - 1" e buf] by (simp add: BSON_EOO_BYTE_def)
  ultimately have "accepts_elems buf (off + 4) (e - 1) depth"
    unfolding accepts_elems_def using es(1,2) by (auto simp: wf_doc_def)
  then show ?R using es(1,3,4) m by (simp add: Let_def wf_doc_def nat_add_distrib)
next
  assume R: ?R
  define m where "m = i32_of (take 4 (drop off buf))"
  have r: "off + 5 \<le> bound" "5 \<le> m" "nat m \<le> BSON_MAX_DOCUMENT_SIZE" "e = off + nat m" "e \<le> bound"
    using R by (simp_all add: m_def Let_def)
  from R obtain es where z: "buf ! (e - 1) = 0" and es: "wf_elems es" "depth + depth_elems es \<le> BSON_MAX_DEPTH"
      "seg buf (off + 4) (e - 1) = enc_elems es" by (auto simp: accepts_elems_def Let_def)
  have ne: "5 \<le> nat m" using r(2) by linarith
  then have len: "length (enc_elems es) + 5 = nat m"
    using arg_cong [OF es(3), of length] r assms by simp
  have "length (take 4 (drop off buf)) = 4" using r assms by simp
  then have "nat_le 4 (nat m) = seg buf off (off + 4)"
    using nat_le_i32_of [of "take 4 (drop off buf)"] r(2) by (simp add: seg_def m_def)
  moreover have "seg buf off e = seg buf off (off + 4) @ seg buf (off + 4) (e - 1) @ seg buf (e - 1) e"
    using seg_split [of off "off + 4" e buf] seg_split [of "off + 4" "e - 1" e buf] r assms ne by simp
  moreover have "seg buf (e - 1) e = [0]"
    using z seg_Cons [of "e - 1" e buf] r assms ne by (simp add: seg_def)
  ultimately have "seg buf off e = enc_doc es"
    by (simp add: enc_doc_def frame_def len es(3) BSON_EOO_BYTE_def del: One_nat_def)
  then show ?L
    unfolding accepts_doc_def using es(1,2) r len by (auto simp: wf_doc_def intro!: exI [of _ es])
qed

lemma rbind_step_iff:
  assumes "\<And>found it'. m = Ok (found, it') \<longleftrightarrow> found \<and> (\<exists>k n. P k n \<and> it' = g k n)"
  shows "rbind m (\<lambda>(found, it'). if found then f it' else Ok ()) = Ok () \<longleftrightarrow>
    (\<exists>k n. P k n \<and> f (g k n) = Ok ())"
  using assms by auto

lemma validator_iff:
  "bound \<le> length buf \<Longrightarrow>
     validate_recursive buf off bound depth = Ok e \<longleftrightarrow> accepts_doc buf off bound depth e"
  "iter_inv it \<Longrightarrow> rd_buf (it_reader it) = buf \<Longrightarrow> depth \<le> BSON_MAX_DEPTH \<Longrightarrow>
     validate_loop buf it depth = Ok () \<longleftrightarrow>
       accepts_elems buf (rd_pos (it_reader it)) (it_doc_end it) depth"
proof (induction buf off bound depth and buf it depth arbitrary: e
    rule: validate_recursive_validate_loop.induct)
  case (1 buf off bound depth)
  show ?case
  proof (cases "depth > BSON_MAX_DEPTH")
    case True
    then show ?thesis by (auto simp: validate_recursive.simps [of buf off] accepts_doc_def)
  next
    case False
    have loop: "validate_loop buf it depth = Ok () \<longleftrightarrow>
        accepts_elems buf (rd_pos (it_reader it)) (it_doc_end it) depth"
      if "bson_iter_init_nested buf off bound = Ok it" for it
      using "1.IH" [OF False that] iter_init_inv [OF "1.prems" that] False by simp
    have "(\<exists>it. bson_iter_init_nested buf off bound = Ok it \<and> e = it_doc_end it + 1 \<and>
          accepts_elems buf (rd_pos (it_reader it)) (it_doc_end it) depth)
        \<longleftrightarrow> accepts_doc buf off bound depth e"
      unfolding accepts_doc_iff [OF "1.prems"] iter_init_nested_eq [OF "1.prems"]
      by (auto simp: Let_def)
    then show ?thesis
      using False loop by (auto simp: validate_recursive.simps [of buf off])
  qed
next
  case (2 buf it depth)
  define pos where "pos = rd_pos (it_reader it)"
  define stop where "stop = it_doc_end it"
  have le: "pos \<le> stop" "stop \<le> length buf"
    using "2.prems" by (auto simp: iter_inv_def reader_inv_def pos_def stop_def)
  show ?case
  proof (cases "pos = stop")
    case True
    then have "bson_iter_next it = Ok (found, it') \<longleftrightarrow> \<not> found \<and> buf ! stop = 0 \<and>
        it' = it\<lparr>it_reader := (it_reader it)\<lparr>rd_pos := it_doc_end it + 1\<rparr>\<rparr>" for found it'
      using iter_next_end_iff [OF "2.prems"(1)] iter_next_elem_iff [OF "2.prems"(1)] "2.prems"(2)
      by (cases found) (auto simp: element_at_def pos_def stop_def)
    with True show ?thesis
      unfolding validate_loop.simps [of buf it]
      using accepts_elems_end [OF "2.prems"(3), of buf stop]
      by (auto simp: pos_def [symmetric] stop_def [symmetric])
  next
    case False
    have nxt: "bson_iter_next it = Ok (found, it') \<longleftrightarrow>
        found \<and> (\<exists>kl n. element_at buf pos stop kl n \<and> it' = iter_at it kl n)" for found it'
      using iter_next_end_iff [OF "2.prems"(1)] iter_next_elem_iff [OF "2.prems"(1)] "2.prems"(2) False
      by (cases found) (auto simp: pos_def stop_def)
    have at: "it_type (iter_at it kl n) = buf ! pos" "it_doc_end (iter_at it kl n) = stop"
      "it_value_off (iter_at it kl n) = pos + 1 + kl + 1"
      "rd_pos (it_reader (iter_at it kl n)) = pos + 1 + kl + 1 + n"
      "rd_buf (it_reader (iter_at it kl n)) = buf" for kl n
      using "2.prems"(2) by (simp_all add: iter_at_def pos_def stop_def Let_def)
    have step: "(if it_type it' = BSON_TYPE_DOCUMENT \<or> it_type it' = BSON_TYPE_ARRAY
         then rbind (validate_recursive buf (it_value_off it') (it_doc_end it') (depth + 1))
                (\<lambda>_. validate_loop buf it' depth)
         else validate_loop buf it' depth) = Ok () \<longleftrightarrow>
        (\<exists>v. wf_val v \<and> wtype v = buf ! pos \<and>
           enc_val v = seg buf (pos + 1 + kl + 1) (pos + 1 + kl + 1 + n) \<and>
           depth + depth_val v \<le> BSON_MAX_DEPTH \<and>
           accepts_elems buf (pos + 1 + kl + 1 + n) stop depth)" (is "?code \<longleftrightarrow> ?spec")
      if e: "element_at buf pos stop kl n" and it': "it' = iter_at it kl n" for kl n it'
    proof -
      have nx: "bson_iter_next it = Ok (True, it')" using nxt e it' by blast
      note at' = at [of kl n, folded it']
      have inv: "iter_inv it'" by (rule iter_next_inv [OF "2.prems"(1) nx])
      show ?thesis
      proof (cases "it_type it' = BSON_TYPE_DOCUMENT \<or> it_type it' = BSON_TYPE_ARRAY")
        case True
        have rec: "validate_recursive buf (it_value_off it') (it_doc_end it') (depth + 1) = Ok x \<longleftrightarrow>
            accepts_doc buf (pos + 1 + kl + 1) stop (depth + 1) x" for x
          using "2.IH"(1) [OF nx refl _ True] le(2) at' by simp
        have loop: "validate_loop buf it' depth = Ok () \<longleftrightarrow>
            accepts_elems buf (pos + 1 + kl + 1 + n) stop depth"
          if "validate_recursive buf (it_value_off it') (it_doc_end it') (depth + 1) = Ok x" for x
          using "2.IH"(2) [OF nx refl _ True that inv at'(5) "2.prems"(3)] at' by simp
        have "?code \<longleftrightarrow> (\<exists>x. validate_recursive buf (it_value_off it') (it_doc_end it') (depth + 1) = Ok x
            \<and> validate_loop buf it' depth = Ok ())"
          using True by (simp only: if_True rbind_Ok_iff)
        also have "\<dots> \<longleftrightarrow> (\<exists>x. accepts_doc buf (pos + 1 + kl + 1) stop (depth + 1) x) \<and>
            accepts_elems buf (pos + 1 + kl + 1 + n) stop depth"
          using rec loop by metis
        finally show ?thesis
          unfolding doc_value_iff [OF e le(2) True [unfolded at'(1)], of depth] by blast
      next
        case False
        have "value_ok (buf ! pos) (seg buf (pos + 1 + kl + 1) (pos + 1 + kl + 1 + n))"
          using element_atD(4) [OF e le(2)] .
        then have "\<exists>v. wtype v = buf ! pos \<and> wf_val v \<and> depth_val v = 0 \<and>
            seg buf (pos + 1 + kl + 1) (pos + 1 + kl + 1 + n) = enc_val v"
          using False at'(1) by (intro scalar_value) auto
        moreover have "validate_loop buf it' depth = Ok () \<longleftrightarrow>
            accepts_elems buf (pos + 1 + kl + 1 + n) stop depth"
          using "2.IH"(3) [OF nx refl _ False inv at'(5) "2.prems"(3)] at' by simp
        ultimately show ?thesis using False "2.prems"(3) by (metis add.right_neutral)
      qed
    qed
    have "validate_loop buf it depth = Ok () \<longleftrightarrow> (\<exists>kl n. element_at buf pos stop kl n \<and>
        (if it_type (iter_at it kl n) = BSON_TYPE_DOCUMENT \<or> it_type (iter_at it kl n) = BSON_TYPE_ARRAY
         then rbind (validate_recursive buf (it_value_off (iter_at it kl n)) (it_doc_end (iter_at it kl n)) (depth + 1))
                (\<lambda>_. validate_loop buf (iter_at it kl n) depth)
         else validate_loop buf (iter_at it kl n) depth) = Ok ())"
      unfolding validate_loop.simps [of buf it] by (rule rbind_step_iff [OF nxt])
    also have "\<dots> \<longleftrightarrow> (\<exists>kl n. element_at buf pos stop kl n \<and>
        (\<exists>v. wf_val v \<and> wtype v = buf ! pos \<and>
           enc_val v = seg buf (pos + 1 + kl + 1) (pos + 1 + kl + 1 + n) \<and>
           depth + depth_val v \<le> BSON_MAX_DEPTH \<and>
           accepts_elems buf (pos + 1 + kl + 1 + n) stop depth))"
      by (rule ex_cong1, rule ex_cong1, rule conj_cong [OF refl], rule step [OF _ refl])
    finally show ?thesis
      unfolding pos_def [symmetric] stop_def [symmetric]
        accepts_elems_step [OF le_neq_implies_less [OF le(1) False] le(2) "2.prems"(3)]
      by auto
  qed
qed

lemma validate_document_iff:
  assumes "len \<le> length buf"
  shows "bson_validate_document buf len = Ok () \<longleftrightarrow>
    (\<exists>es. wf_doc es \<and> depth_elems es \<le> BSON_MAX_DEPTH \<and> take len buf = enc_doc es)"
proof -
  have "bson_validate_document buf len = Ok () \<longleftrightarrow>
      BSON_DOC_MIN_LEN \<le> len \<and> accepts_doc buf 0 len 0 len"
    by (simp add: bson_validate_document_def validator_iff(1) [OF assms] not_less)
  also have "\<dots> \<longleftrightarrow> (\<exists>es. wf_doc es \<and> depth_elems es \<le> BSON_MAX_DEPTH \<and> take len buf = enc_doc es)"
  proof -
    have "take len buf = enc_doc es \<Longrightarrow> len = length (enc_doc es)" for es
      using assms by (metis length_take min.absorb2)
    moreover have "BSON_DOC_MIN_LEN \<le> length (enc_doc es)" for es by (simp add: BSON_DOC_MIN_LEN_def)
    ultimately show ?thesis
      unfolding accepts_doc_def seg_def add_0 diff_zero drop_0 by (metis order_refl)
  qed
  finally show ?thesis .
qed

section \<open>Properties\<close>

text \<open>
  C1. The validator accepts a buffer exactly when it is the encoding of a well-formed document
  whose nesting is within the limit, and otherwise returns an error: on every input it returns,
  and it never reads outside of the buffer.
\<close>

theorem validate_exact:
  assumes "len \<le> length buf"
  shows "case bson_validate_document buf len of
      Ok _ \<Rightarrow> \<exists>es. wf_doc es \<and> depth_elems es \<le> BSON_MAX_DEPTH \<and> take len buf = enc_doc es
    | Err _ \<Rightarrow> \<nexists>es. wf_doc es \<and> depth_elems es \<le> BSON_MAX_DEPTH \<and> take len buf = enc_doc es
    | Fault \<Rightarrow> False
    | Diverge \<Rightarrow> False"
proof -
  have "safe (bson_validate_document buf len)"
    using assms by (auto simp: bson_validate_document_def intro!: safe_rbind validate_safe(1))
  then show ?thesis
    using validate_document_iff [OF assms]
    by (cases "bson_validate_document buf len") auto
qed

theorem validate_exact_witness:
  "case bson_validate_document [5, 0, 0, 0, 0, 0xFF] 5 of
      Ok _ \<Rightarrow> \<exists>es. wf_doc es \<and> depth_elems es \<le> BSON_MAX_DEPTH \<and> take 5 [5, 0, 0, 0, 0, 0xFF] = enc_doc es
    | Err _ \<Rightarrow> \<nexists>es. wf_doc es \<and> depth_elems es \<le> BSON_MAX_DEPTH \<and> take 5 [5, 0, 0, 0, 0, 0xFF] = enc_doc es
    | Fault \<Rightarrow> False
    | Diverge \<Rightarrow> False"
  by (rule validate_exact) simp

text \<open>The document \<^verbatim>\<open>{"a": <FF FF>}\<close>: a string of two bytes, neither UTF-8 nor terminated.\<close>

definition unterminated_string_doc :: "byte list" where
  "unterminated_string_doc = [14, 0, 0, 0, 0x02, 0x61, 0, 2, 0, 0, 0, 0xFF, 0xFF, 0]"

text \<open>
  What the validator does not look at: a string value that is not UTF-8 and not NUL-terminated
  passes \<^verbatim>\<open>bson_validate_document\<close>, although its header comment promises every UTF-8 and string
  invariant of the format.
\<close>

theorem validate_misses_string_content:
  "bson_validate_document unterminated_string_doc 14 = Ok () \<and>
   (\<exists>it it'. bson_iter_init_document unterminated_string_doc 14 = Ok it \<and>
      bson_iter_next it = Ok (True, it') \<and>
      bson_iter_value_utf8 it' = Err BSON_ERR_UNTERMINATED_STRING)"
proof -
  define buf where "buf = unterminated_string_doc"
  note b = buf_def [unfolded unterminated_string_doc_def]
  have u: "utf8_valid [0x61]"
    unfolding utf8_valid_def by (rule exI [of _ "[0x61]"]) (simp add: scalar_def utf8_encode_def)
  have "buf = enc_doc [([0x61], WString [0xFF, 0xFF])]"
    unfolding b enc_doc_def frame_def by (simp add: BSON_TYPE_STRING_def BSON_EOO_BYTE_def nat_le_4)
  then have "bson_validate_document buf 14 = Ok ()"
    using u by (subst validate_document_iff)
      (auto simp: wf_doc_def BSON_MAX_DOCUMENT_SIZE_def b intro!: exI [of _ "[([0x61], WString [0xFF, 0xFF])]"])
  moreover define it where "it = \<lparr>it_reader = \<lparr>rd_buf = buf, rd_len = 14, rd_pos = 4\<rparr>, it_doc_end = 13,
      it_type = 0, it_key_off = 0, it_key_len = 0, it_value_off = 0\<rparr>"
  moreover have "bson_iter_init_document buf 14 = Ok it"
    unfolding bson_iter_init_document_def
    by (subst iter_init_nested_eq) (simp_all add: b it_def i32_of_def BSON_MAX_DOCUMENT_SIZE_def Let_def)
  moreover have inv: "iter_inv it" by (simp add: it_def iter_inv_def reader_inv_def b)
  moreover have "element_at buf 4 13 1 6"
    using u by (simp add: element_at_def b value_ok_def bson_type_defs i32_of_def)
  then have "bson_iter_next it = Ok (True, iter_at it 1 6)"
    unfolding iter_next_elem_iff [OF inv] by (auto simp: it_def)
  moreover have "bson_iter_value_utf8 (iter_at it 1 6) = Err BSON_ERR_UNTERMINATED_STRING"
    by (simp add: bson_iter_value_utf8_def iter_at_def it_def iter_value_reader_def b Let_def
        bson_type_defs read_i32_eq reader_inv_def i32_of_def read_bytes_eq peek1_def)
  ultimately show ?thesis unfolding buf_def by blast
qed

end
