(* ===== verification/Bson_Writer.thy ===== *)
theory Bson_Writer
  imports Bson_Grammar
begin

text \<open>
  The growable output buffer \<^verbatim>\<open>bson_writer_t\<close> of src/c_engine/bson_engine.c (section Writer),
  with the backpatched document lengths.

  \<open>wr_data\<close> holds the \<^verbatim>\<open>len\<close> bytes written so far and \<open>wr_cap\<close> is the allocated capacity
  (0 when \<^verbatim>\<open>buf\<close> is NULL). The allocator is the parameter \<open>alloc\<close>: which request sizes malloc
  and realloc grant. A failed call drops the writer: every caller frees it.
\<close>

section \<open>State and operations\<close>

record bson_writer =
  wr_data :: "byte list"
  wr_cap :: nat

definition bson_writer_init :: "(nat \<Rightarrow> bool) \<Rightarrow> nat \<Rightarrow> bson_writer result" where
  "bson_writer_init alloc initial_capacity =
     (let c = (if initial_capacity < 16 then 16 else initial_capacity) in
      if alloc c then Ok \<lparr>wr_data = [], wr_cap = c\<rparr> else Err BSON_ERR_OUT_OF_MEMORY)"

definition bson_writer_free :: "bson_writer \<Rightarrow> bson_writer" where
  "bson_writer_free w = w\<lparr>wr_data := [], wr_cap := 0\<rparr>"

definition bson_writer_release :: "bson_writer \<Rightarrow> byte list \<times> nat \<times> bson_writer" where
  "bson_writer_release w = (wr_data w, length (wr_data w), w\<lparr>wr_data := [], wr_cap := 0\<rparr>)"

text \<open>The doubling loop; doubling zero would never reach a positive size.\<close>

function writer_grow :: "nat \<Rightarrow> nat \<Rightarrow> nat result" where
  "writer_grow new_cap needed =
     (if new_cap < needed then
        if new_cap > SIZE_MAX div 2 then Ok needed
        else if new_cap = 0 then Diverge
        else writer_grow (new_cap * 2) needed
      else Ok new_cap)"
  by pat_completeness auto
termination
  by (relation "measure (\<lambda>(new_cap, needed). needed - new_cap)") auto

declare writer_grow.simps [simp del]

definition writer_reserve :: "(nat \<Rightarrow> bool) \<Rightarrow> bson_writer \<Rightarrow> nat \<Rightarrow> bson_writer result" where
  "writer_reserve alloc w additional =
     (let needed = size_add (length (wr_data w)) additional in
      if needed < length (wr_data w) then Err BSON_ERR_OUT_OF_MEMORY
      else if needed > BSON_MAX_DOCUMENT_SIZE then Err BSON_ERR_DOCUMENT_TOO_LARGE
      else if needed \<le> wr_cap w then Ok w
      else rbind (writer_grow (if wr_cap w = 0 then 256 else wr_cap w) needed) (\<lambda>new_cap.
             if alloc new_cap then Ok (w\<lparr>wr_cap := new_cap\<rparr>) else Err BSON_ERR_OUT_OF_MEMORY))"

text \<open>The copy faults when the bytes do not fit the allocation.\<close>

definition writer_put_bytes :: "(nat \<Rightarrow> bool) \<Rightarrow> bson_writer \<Rightarrow> byte list \<Rightarrow> bson_writer result" where
  "writer_put_bytes alloc w bs =
     rbind (writer_reserve alloc w (length bs)) (\<lambda>w.
       if length (wr_data w) + length bs \<le> wr_cap w
       then Ok (w\<lparr>wr_data := wr_data w @ bs\<rparr>) else Fault)"

definition writer_put_u8 :: "(nat \<Rightarrow> bool) \<Rightarrow> bson_writer \<Rightarrow> byte \<Rightarrow> bson_writer result" where
  "writer_put_u8 alloc w v = writer_put_bytes alloc w [v]"

definition writer_put_i32 :: "(nat \<Rightarrow> bool) \<Rightarrow> bson_writer \<Rightarrow> int \<Rightarrow> bson_writer result" where
  "writer_put_i32 alloc w v = writer_put_bytes alloc w (le_i32 v)"

definition writer_put_i64 :: "(nat \<Rightarrow> bool) \<Rightarrow> bson_writer \<Rightarrow> int \<Rightarrow> bson_writer result" where
  "writer_put_i64 alloc w v = writer_put_bytes alloc w (le_i64 v)"

definition writer_put_double :: "(nat \<Rightarrow> bool) \<Rightarrow> bson_writer \<Rightarrow> u64 \<Rightarrow> bson_writer result" where
  "writer_put_double alloc w v = writer_put_bytes alloc w (nat_le 8 (unat v))"

definition bson_writer_begin_document ::
    "(nat \<Rightarrow> bool) \<Rightarrow> bson_writer \<Rightarrow> (nat \<times> bson_writer) result" where
  "bson_writer_begin_document alloc w =
     rbind (writer_put_i32 alloc w 0) (\<lambda>w'. Ok (length (wr_data w), w'))"

definition bson_writer_end_document ::
    "(nat \<Rightarrow> bool) \<Rightarrow> bson_writer \<Rightarrow> nat \<Rightarrow> bson_writer result" where
  "bson_writer_end_document alloc w len_patch_offset =
     rbind (writer_put_u8 alloc w BSON_EOO_BYTE) (\<lambda>w.
       let total = size_sub (length (wr_data w)) len_patch_offset in
       if total > BSON_MAX_DOCUMENT_SIZE then Err BSON_ERR_DOCUMENT_TOO_LARGE
       else rbind (poke (wr_data w) len_patch_offset (nat_le 4 total)) (\<lambda>d.
              Ok (w\<lparr>wr_data := d\<rparr>)))"

definition bson_writer_append_element_header ::
    "(nat \<Rightarrow> bool) \<Rightarrow> bson_writer \<Rightarrow> byte \<Rightarrow> byte list \<Rightarrow> bson_writer result" where
  "bson_writer_append_element_header alloc w type key =
     rbind (writer_put_u8 alloc w type) (\<lambda>w.
     rbind (writer_put_bytes alloc w key) (\<lambda>w.
     writer_put_u8 alloc w 0))"

definition bson_writer_append_double :: "(nat \<Rightarrow> bool) \<Rightarrow> bson_writer \<Rightarrow> u64 \<Rightarrow> bson_writer result" where
  "bson_writer_append_double alloc w v = writer_put_double alloc w v"

definition INT32_MAX :: nat where "INT32_MAX = 2 ^ 31 - 1"

definition bson_writer_append_utf8 ::
    "(nat \<Rightarrow> bool) \<Rightarrow> bson_writer \<Rightarrow> byte list \<Rightarrow> bson_writer result" where
  "bson_writer_append_utf8 alloc w str =
     (if length str > INT32_MAX - 1 then Err BSON_ERR_VALUE_OUT_OF_RANGE
      else rbind (writer_put_i32 alloc w (int (length str + 1))) (\<lambda>w.
           rbind (writer_put_bytes alloc w str) (\<lambda>w.
           writer_put_u8 alloc w 0)))"

definition bson_writer_append_binary ::
    "(nat \<Rightarrow> bool) \<Rightarrow> bson_writer \<Rightarrow> byte \<Rightarrow> byte list \<Rightarrow> bson_writer result" where
  "bson_writer_append_binary alloc w subtype data =
     (if length data > INT32_MAX then Err BSON_ERR_VALUE_OUT_OF_RANGE
      else rbind (writer_put_i32 alloc w (int (length data))) (\<lambda>w.
           rbind (writer_put_u8 alloc w subtype) (\<lambda>w.
           writer_put_bytes alloc w data)))"

text \<open>The object id is read as the twelve bytes at the pointer.\<close>

definition bson_writer_append_objectid ::
    "(nat \<Rightarrow> bool) \<Rightarrow> bson_writer \<Rightarrow> byte list \<Rightarrow> bson_writer result" where
  "bson_writer_append_objectid alloc w oid12 =
     rbind (peek oid12 0 BSON_OBJECTID_LEN) (writer_put_bytes alloc w)"

definition bson_writer_append_bool :: "(nat \<Rightarrow> bool) \<Rightarrow> bson_writer \<Rightarrow> bool \<Rightarrow> bson_writer result" where
  "bson_writer_append_bool alloc w v = writer_put_u8 alloc w (if v then 1 else 0)"

definition bson_writer_append_datetime_ms :: "(nat \<Rightarrow> bool) \<Rightarrow> bson_writer \<Rightarrow> int \<Rightarrow> bson_writer result" where
  "bson_writer_append_datetime_ms alloc w millis = writer_put_i64 alloc w millis"

definition bson_writer_append_null :: "bson_writer \<Rightarrow> bson_writer result" where
  "bson_writer_append_null w = Ok w"

definition bson_writer_append_int32 :: "(nat \<Rightarrow> bool) \<Rightarrow> bson_writer \<Rightarrow> int \<Rightarrow> bson_writer result" where
  "bson_writer_append_int32 alloc w v = writer_put_i32 alloc w v"

definition bson_writer_append_int64 :: "(nat \<Rightarrow> bool) \<Rightarrow> bson_writer \<Rightarrow> int \<Rightarrow> bson_writer result" where
  "bson_writer_append_int64 alloc w v = writer_put_i64 alloc w v"

section \<open>Growth\<close>

lemma writer_grow_Ok:
  assumes "0 < c" "c < n" "n \<le> BSON_MAX_DOCUMENT_SIZE"
  obtains k where "writer_grow c n = Ok (c * 2 ^ k)" "n \<le> c * 2 ^ k" "c * 2 ^ k < 2 * n"
proof -
  have "\<exists>k. writer_grow c n = Ok (c * 2 ^ k) \<and> n \<le> c * 2 ^ k \<and> c * 2 ^ k < 2 * n"
    using assms
  proof (induction c n rule: writer_grow.induct)
    case (1 c n)
    have c: "\<not> c > SIZE_MAX div 2" "c \<noteq> 0"
      using 1 by (simp_all add: SIZE_MAX_def BSON_MAX_DOCUMENT_SIZE_def)
    show ?case
    proof (cases "c * 2 < n")
      case True
      with 1 c obtain k where "writer_grow (c * 2) n = Ok (c * 2 * 2 ^ k)" "n \<le> c * 2 * 2 ^ k"
        "c * 2 * 2 ^ k < 2 * n" by auto
      then show ?thesis
        using 1 c by (intro exI [of _ "Suc k"]) (simp add: writer_grow.simps [of c n] mult.assoc)
    next
      case False
      then show ?thesis
        using 1 c by (intro exI [of _ 1])
          (simp add: writer_grow.simps [of c n] writer_grow.simps [of "c * 2" n])
    qed
  qed
  then show thesis using that by blast
qed

definition writer_inv :: "bson_writer \<Rightarrow> bool" where
  "writer_inv w \<longleftrightarrow> length (wr_data w) \<le> wr_cap w \<and> length (wr_data w) \<le> BSON_MAX_DOCUMENT_SIZE"

lemma writer_init_inv: "bson_writer_init alloc c = Ok w \<Longrightarrow> writer_inv w \<and> wr_data w = []"
  by (auto simp: bson_writer_init_def writer_inv_def Let_def split: if_splits)

text \<open>What putting bytes does, error by error. Objects are smaller than \<open>2 ^ 63\<close> bytes.\<close>

lemma writer_reserve_cases:
  assumes "writer_inv w" "n < 2 ^ 63"
  obtains (large) "writer_reserve alloc w n = Err BSON_ERR_DOCUMENT_TOO_LARGE"
      "BSON_MAX_DOCUMENT_SIZE < length (wr_data w) + n"
  | (memory) "writer_reserve alloc w n = Err BSON_ERR_OUT_OF_MEMORY" "\<not> (\<forall>c. alloc c)"
      "length (wr_data w) + n \<le> BSON_MAX_DOCUMENT_SIZE"
  | (ok) c where "writer_reserve alloc w n = Ok (w\<lparr>wr_cap := c\<rparr>)" "length (wr_data w) + n \<le> c"
      "length (wr_data w) + n \<le> BSON_MAX_DOCUMENT_SIZE"
      "c = wr_cap w \<or> c < 2 * (length (wr_data w) + n) \<or> c = 256"
proof -
  let ?need = "length (wr_data w) + n"
  have size: "size_add (length (wr_data w)) n = ?need"
    using assms by (simp add: writer_inv_def BSON_MAX_DOCUMENT_SIZE_def)
  show thesis
  proof (cases "?need \<le> BSON_MAX_DOCUMENT_SIZE \<and> wr_cap w < ?need")
    case False
    then show thesis
    proof (cases "?need \<le> BSON_MAX_DOCUMENT_SIZE")
      case True
      with False show thesis using size by (intro ok [of "wr_cap w"]) (simp_all add: writer_reserve_def)
    qed (use size in \<open>intro large; simp add: writer_reserve_def\<close>)
  next
    case True
    define c0 where "c0 = (if wr_cap w = 0 then 256 else wr_cap w)"
    have "\<exists>c. writer_grow c0 ?need = Ok c \<and> ?need \<le> c \<and> (c < 2 * ?need \<or> c = 256)"
    proof (cases "c0 < ?need")
      case True
      then show ?thesis
        using writer_grow_Ok [of c0 ?need] \<open>?need \<le> _ \<and> _\<close> by (metis c0_def gr0I zero_neq_numeral)
    next
      case False
      then show ?thesis
        using True by (intro exI [of _ c0]) (auto simp: c0_def writer_grow.simps split: if_splits)
    qed
    then obtain c where "writer_grow c0 ?need = Ok c" "?need \<le> c" "c < 2 * ?need \<or> c = 256" by blast
    then show thesis
      using True memory ok [of c] size
      by (cases "alloc c") (auto simp: writer_reserve_def c0_def [symmetric])
  qed
qed

section \<open>What an operation writes\<close>

text \<open>
  \<open>writes alloc w bs m\<close>: the call \<open>m\<close> on the writer \<open>w\<close> appends exactly \<open>bs\<close> and keeps the
  invariant, or fails with the error that says why: the document would exceed the maximal size,
  or the allocator refused a request. It composes along \<open>rbind\<close>.
\<close>

definition writes :: "(nat \<Rightarrow> bool) \<Rightarrow> bson_writer \<Rightarrow> byte list \<Rightarrow> bson_writer result \<Rightarrow> bool" where
  "writes alloc w bs m \<longleftrightarrow> (writer_inv w \<longrightarrow> (case m of
       Ok w' \<Rightarrow> wr_data w' = wr_data w @ bs \<and> writer_inv w'
     | Err e \<Rightarrow> e = BSON_ERR_DOCUMENT_TOO_LARGE \<and> BSON_MAX_DOCUMENT_SIZE < length (wr_data w) + length bs
              \<or> e = BSON_ERR_OUT_OF_MEMORY \<and> (\<exists>c. \<not> alloc c)
     | Fault \<Rightarrow> False
     | Diverge \<Rightarrow> False))"

lemma writes_put_bytes: "length bs < 2 ^ 63 \<Longrightarrow> writes alloc w bs (writer_put_bytes alloc w bs)"
proof -
  assume len: "length bs < 2 ^ 63"
  show ?thesis
    unfolding writes_def
  proof
    assume "writer_inv w"
    then show "case writer_put_bytes alloc w bs of
       Ok w' \<Rightarrow> wr_data w' = wr_data w @ bs \<and> writer_inv w'
     | Err e \<Rightarrow> e = BSON_ERR_DOCUMENT_TOO_LARGE \<and> BSON_MAX_DOCUMENT_SIZE < length (wr_data w) + length bs
              \<or> e = BSON_ERR_OUT_OF_MEMORY \<and> (\<exists>c. \<not> alloc c)
     | Fault \<Rightarrow> False
     | Diverge \<Rightarrow> False"
      using len
      by (cases rule: writer_reserve_cases [of w "length bs" alloc])
        (auto simp: writer_put_bytes_def writer_inv_def)
  qed
qed

lemma writes_seq:
  assumes "writes alloc w as m"
    "\<And>w'. wr_data w' = wr_data w @ as \<Longrightarrow> writes alloc w' bs (f w')"
  shows "writes alloc w (as @ bs) (rbind m f)"
proof (cases m)
  case (Ok w')
  then show ?thesis using assms(1) assms(2) [of w'] by (auto simp: writes_def split: result.splits)
qed (use assms in \<open>auto simp: writes_def\<close>)

lemma writes_Ok: "writes alloc w [] (Ok w)"
  by (simp add: writes_def)

lemma writes_OkD:
  "writes alloc w bs (Ok w') \<Longrightarrow> writer_inv w \<Longrightarrow> wr_data w' = wr_data w @ bs \<and> writer_inv w'"
  by (simp add: writes_def)

lemma writes_safe: "writes alloc w bs m \<Longrightarrow> writer_inv w \<Longrightarrow> safe m"
  by (auto simp: writes_def safe_def split: result.splits)

text \<open>With memory to spare, fitting the size limit is all it takes.\<close>

lemma writes_succeeds:
  assumes "writes alloc w bs m" "writer_inv w" "\<forall>c. alloc c"
    "length (wr_data w) + length bs \<le> BSON_MAX_DOCUMENT_SIZE"
  obtains w' where "m = Ok w'" "wr_data w' = wr_data w @ bs" "writer_inv w'"
  using assms by (cases m) (auto simp: writes_def)

section \<open>What each append writes\<close>

lemma writes_small: "length bs \<le> 16 \<Longrightarrow> writes alloc w bs (writer_put_bytes alloc w bs)"
  by (rule writes_put_bytes) simp

lemma writes_u8: "writes alloc w [v] (writer_put_u8 alloc w v)"
  by (simp add: writer_put_u8_def writes_small)

lemma writes_i32: "writes alloc w (le_i32 v) (writer_put_i32 alloc w v)"
  by (simp add: writer_put_i32_def writes_small)

lemma writes_i64: "writes alloc w (le_i64 v) (writer_put_i64 alloc w v)"
  by (simp add: writer_put_i64_def writes_small)

lemma writes_double: "writes alloc w (nat_le 8 (unat v)) (writer_put_double alloc w v)"
  by (simp add: writer_put_double_def writes_small)

lemma le_i32_of_nat: "n < 2 ^ 31 \<Longrightarrow> le_i32 (int n) = nat_le 4 n"
  by (simp add: le_i32_def unat_of_nat)

lemma writes_header:
  assumes "length key < 2 ^ 63"
  shows "writes alloc w (t # key @ [0]) (bson_writer_append_element_header alloc w t key)"
proof -
  have "writes alloc w ([t] @ key @ [0]) (bson_writer_append_element_header alloc w t key)"
    unfolding bson_writer_append_element_header_def
    by (intro writes_seq writes_u8 writes_put_bytes assms)
  then show ?thesis by simp
qed

lemma writes_utf8:
  assumes "length str \<le> INT32_MAX - 1"
  shows "writes alloc w (nat_le 4 (length str + 1) @ str @ [0]) (bson_writer_append_utf8 alloc w str)"
proof -
  have "length str + 1 < 2 ^ 31" using assms by (simp add: INT32_MAX_def)
  then have len: "le_i32 (int (length str + 1)) = nat_le 4 (length str + 1)" "length str < 2 ^ 63"
    by (rule le_i32_of_nat, simp)
  have "writes alloc w (le_i32 (int (length str + 1)) @ str @ [0]) (bson_writer_append_utf8 alloc w str)"
    unfolding bson_writer_append_utf8_def using assms
    by (simp only: not_less if_not_P) (intro writes_seq writes_i32 writes_u8 writes_put_bytes len(2))
  then show ?thesis by (simp only: len(1))
qed

lemma writes_binary:
  assumes "length data \<le> INT32_MAX"
  shows "writes alloc w (nat_le 4 (length data) @ sub # data) (bson_writer_append_binary alloc w sub data)"
proof -
  have len: "le_i32 (int (length data)) = nat_le 4 (length data)" "length data < 2 ^ 63"
    using assms by (simp_all add: INT32_MAX_def le_i32_of_nat)
  have "writes alloc w (le_i32 (int (length data)) @ [sub] @ data) (bson_writer_append_binary alloc w sub data)"
    unfolding bson_writer_append_binary_def using assms
    by (simp only: not_less if_not_P) (intro writes_seq writes_i32 writes_u8 writes_put_bytes len(2))
  then show ?thesis by (simp add: len(1))
qed

lemma writes_objectid:
  "length oid = 12 \<Longrightarrow> writes alloc w oid (bson_writer_append_objectid alloc w oid)"
  by (simp add: bson_writer_append_objectid_def BSON_OBJECTID_LEN_def writes_small)

text \<open>A document: whatever is written between \<open>begin\<close> and \<open>end\<close> becomes the framed body.\<close>

lemma writes_document:
  assumes body: "\<And>w'. writes alloc w' body (f w')"
  shows "writes alloc w (frame body)
    (rbind (bson_writer_begin_document alloc w) (\<lambda>(off, w').
       rbind (f w') (\<lambda>w'. bson_writer_end_document alloc w' off)))"
proof -
  let ?seq = "rbind (writer_put_i32 alloc w 0) (\<lambda>w'. rbind (f w') (\<lambda>w'. writer_put_u8 alloc w' BSON_EOO_BYTE))"
  have seq: "writes alloc w (le_i32 0 @ body @ [BSON_EOO_BYTE]) ?seq"
    by (intro writes_seq writes_i32 writes_u8 body)
  let ?patch = "\<lambda>w'. let total = size_sub (length (wr_data w')) (length (wr_data w)) in
       if total > BSON_MAX_DOCUMENT_SIZE then Err BSON_ERR_DOCUMENT_TOO_LARGE
       else rbind (poke (wr_data w') (length (wr_data w)) (nat_le 4 total)) (\<lambda>d.
              Ok (w'\<lparr>wr_data := d\<rparr>))"
  have eq: "rbind (bson_writer_begin_document alloc w) (\<lambda>(off, w').
       rbind (f w') (\<lambda>w'. bson_writer_end_document alloc w' off)) = rbind ?seq ?patch"
    by (simp add: bson_writer_begin_document_def bson_writer_end_document_def rbind_assoc)
  show ?thesis
    unfolding eq writes_def
  proof
    assume inv: "writer_inv w"
    show "case rbind ?seq ?patch of
       Ok w' \<Rightarrow> wr_data w' = wr_data w @ frame body \<and> writer_inv w'
     | Err e \<Rightarrow> e = BSON_ERR_DOCUMENT_TOO_LARGE \<and> BSON_MAX_DOCUMENT_SIZE < length (wr_data w) + length (frame body)
              \<or> e = BSON_ERR_OUT_OF_MEMORY \<and> (\<exists>c. \<not> alloc c)
     | Fault \<Rightarrow> False
     | Diverge \<Rightarrow> False"
    proof (cases ?seq)
      case (Ok w')
      then have w': "wr_data w' = wr_data w @ le_i32 0 @ body @ [BSON_EOO_BYTE]" "writer_inv w'"
        using seq inv writes_OkD by auto
      then show ?thesis unfolding Ok
        by (simp add: poke_def frame_def writer_inv_def add.commute)
    next
      case (Err e)
      then show ?thesis using seq inv by (auto simp: writes_def)
    qed (use seq inv in \<open>auto simp: writes_def\<close>)
  qed
qed

section \<open>Properties\<close>

text \<open>
  Putting bytes appends exactly those bytes and keeps length within capacity and within the
  maximal document size; it fails only when the size limit would be exceeded or the allocator
  refuses a request, never writes outside of its buffer, and its doubling loop ends.
\<close>

theorem writer_put_exact:
  assumes "writer_inv w" "length bs < 2 ^ 63"
  shows "case writer_put_bytes alloc w bs of
      Ok w' \<Rightarrow> wr_data w' = wr_data w @ bs \<and> length (wr_data w') \<le> wr_cap w' \<and>
        length (wr_data w') \<le> BSON_MAX_DOCUMENT_SIZE
    | Err e \<Rightarrow> e = BSON_ERR_DOCUMENT_TOO_LARGE \<and> BSON_MAX_DOCUMENT_SIZE < length (wr_data w) + length bs \<or>
        e = BSON_ERR_OUT_OF_MEMORY \<and> (\<exists>c. \<not> alloc c)
    | Fault \<Rightarrow> False
    | Diverge \<Rightarrow> False"
  using writes_put_bytes [OF assms(2), of alloc w] assms(1)
  by (cases "writer_put_bytes alloc w bs") (auto simp: writes_def writer_inv_def)

theorem writer_put_exact_witness:
  "case writer_put_bytes (\<lambda>c. c < 100) \<lparr>wr_data = [1, 2], wr_cap = 2\<rparr> [3] of
      Ok w' \<Rightarrow> wr_data w' = wr_data \<lparr>wr_data = [1, 2], wr_cap = 2\<rparr> @ [3] \<and> length (wr_data w') \<le> wr_cap w' \<and>
        length (wr_data w') \<le> BSON_MAX_DOCUMENT_SIZE
    | Err e \<Rightarrow> e = BSON_ERR_DOCUMENT_TOO_LARGE \<and>
          BSON_MAX_DOCUMENT_SIZE < length (wr_data \<lparr>wr_data = [1, 2], wr_cap = 2\<rparr>) + length [3 :: byte] \<or>
        e = BSON_ERR_OUT_OF_MEMORY \<and> (\<exists>c. \<not> c < (100 :: nat))
    | Fault \<Rightarrow> False
    | Diverge \<Rightarrow> False"
  by (rule writer_put_exact) (simp_all add: writer_inv_def BSON_MAX_DOCUMENT_SIZE_def)

text \<open>
  Writing a document: whatever is written between \<^verbatim>\<open>begin_document\<close> and \<^verbatim>\<open>end_document\<close> ends
  up framed by its total length and the end-of-object byte, after what was there before, also
  when the buffer was reallocated in between.
\<close>

theorem writer_document_framed:
  assumes "writer_inv w" "\<And>w'. writes alloc w' body (f w')"
    "rbind (bson_writer_begin_document alloc w) (\<lambda>(off, w'). rbind (f w') (\<lambda>w'.
       bson_writer_end_document alloc w' off)) = Ok w2"
  shows "wr_data w2 = wr_data w @ nat_le 4 (length body + 5) @ body @ [BSON_EOO_BYTE]"
  using writes_document [of alloc body f w, OF assms(2)] assms(1,3)
  by (simp only: writes_def frame_def) simp

theorem writer_document_framed_witness:
  "wr_data \<lparr>wr_data = [7, 0, 0, 0, 1, 2, 0], wr_cap = 16\<rparr> =
     wr_data \<lparr>wr_data = [], wr_cap = 16\<rparr> @ nat_le 4 (length [1, 2 :: byte] + 5) @ [1, 2] @ [BSON_EOO_BYTE]"
proof (rule writer_document_framed [where f = "\<lambda>w. writer_put_bytes (\<lambda>_. True) w [1, 2]" and alloc = "\<lambda>_. True"])
  show "rbind (bson_writer_begin_document (\<lambda>_. True) \<lparr>wr_data = [], wr_cap = 16\<rparr>) (\<lambda>(off, w').
       rbind (writer_put_bytes (\<lambda>_. True) w' [1, 2]) (\<lambda>w'. bson_writer_end_document (\<lambda>_. True) w' off))
     = Ok \<lparr>wr_data = [7, 0, 0, 0, 1, 2, 0], wr_cap = 16\<rparr>"
    by (simp add: bson_writer_begin_document_def bson_writer_end_document_def writer_put_i32_def
        writer_put_u8_def writer_put_bytes_def writer_reserve_def BSON_MAX_DOCUMENT_SIZE_def le_i32_def
        nat_le_4 poke_def BSON_EOO_BYTE_def)
qed (simp_all add: writer_inv_def writes_small)

end
