(* ===== verification/Bson_Memory.thy ===== *)
theory Bson_Memory
  imports Bson_Bytes
begin

text \<open>
  Slices and stores of byte objects: the lemmas by which storage.c and btree.c are followed from
  one header or page field to the next.
\<close>

section \<open>Fields of a byte object\<close>

text \<open>The bytes \<open>[p, p + n)\<close> of an object, and what a store does to them.\<close>

definition slice :: "'a list \<Rightarrow> nat \<Rightarrow> nat \<Rightarrow> 'a list" where
  "slice m p n = take n (drop p m)"

definition field :: "byte list \<Rightarrow> nat \<Rightarrow> nat \<Rightarrow> nat" where
  "field m p n = le_nat (slice m p n)"

lemma length_slice [simp]: "p + n \<le> length m \<Longrightarrow> length (slice m p n) = n"
  by (simp add: slice_def)

lemma slice_0 [simp]: "slice m p 0 = []"
  by (simp add: slice_def)

lemma nth_slice: "i < n \<Longrightarrow> p + n \<le> length m \<Longrightarrow> slice m p n ! i = m ! (p + i)"
  by (simp add: slice_def)

lemma slice_all [simp]: "slice m 0 (length m) = m"
  by (simp add: slice_def)

lemma slice_split: "slice m p (n + k) = slice m p n @ slice m (p + n) k"
  using take_add [of n k "drop p m"] by (simp add: slice_def add.commute)

lemma slice_append1: "p + n \<le> length xs \<Longrightarrow> slice (xs @ ys) p n = slice xs p n"
  by (simp add: slice_def)

lemma field_bound: "p + n \<le> length m \<Longrightarrow> field m p n < 256 ^ n"
  using le_nat_bound [of "slice m p n"] by (simp add: field_def)

lemma poke_ok: "off + length bs \<le> length m \<Longrightarrow> \<exists>m'. poke m off bs = Ok m' \<and> length m' = length m"
  by (simp add: poke_def)

lemma read_u16_field: "off + 2 \<le> length m \<Longrightarrow> read_u16 m off = Ok (field m off 2)"
  by (simp add: read_u16_def field_def slice_def)

lemma read_u64_field: "off + 8 \<le> length m \<Longrightarrow> read_u64 m off = Ok (field m off 8)"
  by (simp add: read_u64_def field_def slice_def)

lemma peek_slice: "off + n \<le> length m \<Longrightarrow> peek m off n = Ok (slice m off n)"
  by (simp add: slice_def)

text \<open>
  \<open>put m off bs\<close> is \<open>m\<close> with \<open>bs\<close> stored at \<open>off\<close>. The rules say what each slice of it is, so
  that a chain of stores is followed field by field.
\<close>

definition put :: "'a list \<Rightarrow> nat \<Rightarrow> 'a list \<Rightarrow> 'a list" where
  "put m off bs = take off m @ bs @ drop (off + length bs) m"

lemma poke_put: "off + length bs \<le> length m \<Longrightarrow> poke m off bs = Ok (put m off bs)"
  by (simp add: poke_def put_def)

lemma length_put [simp]: "off + length bs \<le> length m \<Longrightarrow> length (put m off bs) = length m"
  by (simp add: put_def)

lemma nth_put:
  "off + length bs \<le> length m \<Longrightarrow> i < length m \<Longrightarrow>
     put m off bs ! i = (if off \<le> i \<and> i < off + length bs then bs ! (i - off) else m ! i)"
  by (auto simp: put_def nth_append not_less)

lemma slice_put_same [simp]:
  "off + length bs \<le> length m \<Longrightarrow> n = length bs \<Longrightarrow> slice (put m off bs) off n = bs"
  by (simp add: put_def slice_def)

lemma slice_put_other [simp]:
  assumes "off + length bs \<le> length m" "p + n \<le> off \<or> off + length bs \<le> p" "p + n \<le> length m"
  shows "slice (put m off bs) p n = slice m p n"
proof (rule nth_equalityI)
  fix i assume "i < length (slice (put m off bs) p n)"
  then have "i < n" using assms by simp
  then show "slice (put m off bs) p n ! i = slice m p n ! i"
    using assms by (auto simp: nth_slice nth_put)
qed (use assms in simp)

lemma put_slice_before:
  "off + length bs \<le> length m \<Longrightarrow> p \<le> off \<Longrightarrow> off + length bs \<le> p + n \<Longrightarrow> p + n \<le> length m \<Longrightarrow>
     slice (put m off bs) p n = put (slice m p n) (off - p) bs"
  by (simp add: put_def slice_def drop_take)

lemma field_put_same [simp]:
  "off + n \<le> length m \<Longrightarrow> field (put m off (nat_le n v)) off n = v mod 256 ^ n"
  by (simp add: field_def le_nat_nat_le)

lemma field_put_other [simp]:
  "off + length bs \<le> length m \<Longrightarrow> p + n \<le> off \<or> off + length bs \<le> p \<Longrightarrow> p + n \<le> length m \<Longrightarrow>
     field (put m off bs) p n = field m p n"
  by (simp add: field_def)

lemmas write_put = write_u16_def write_u32_def write_u64_def poke_put

end
