(* ===== verification/Bson_Mmap.thy ===== *)
theory Bson_Mmap
  imports Bson_Memory
begin

text \<open>
  The memory-mapped file of src/c_engine/platform_mmap.c, its POSIX half (the Windows half has
  the same contract).

  A shared mapping is the file's own bytes, so the model keeps one byte list \<open>mm_bytes\<close>, the
  content of the file, and \<open>mm_base\<close> says whether it is mapped (\<^verbatim>\<open>base\<close> is not NULL); \<open>mm_size\<close>
  is the field \<^verbatim>\<open>size\<close>. The system calls are the parameter \<open>os\<close>: which of them succeed.
  Handles are never NULL here: the bindings check for a closed handle first.

  An operation is a function from the file to a result and the file after it, as a failed call
  may have changed the file (\<^verbatim>\<open>bson_mmap_resize\<close> does).
\<close>

section \<open>State\<close>

datatype bson_mmap_mode = BSON_MMAP_READ_ONLY | BSON_MMAP_READ_WRITE

record bson_mmap_file =
  mm_mode :: bson_mmap_mode
  mm_base :: bool
  mm_size :: nat
  mm_bytes :: "byte list"

record os_calls =
  os_open :: bool
  os_fstat :: bool
  os_malloc :: bool
  os_ftruncate :: "nat \<Rightarrow> bool"
  os_mmap :: "nat \<Rightarrow> bool"
  os_msync :: bool

definition os_all_succeed :: "os_calls \<Rightarrow> bool" where
  "os_all_succeed os \<longleftrightarrow> os_open os \<and> os_fstat os \<and> os_malloc os \<and>
     (\<forall>n. n < 2 ^ 63 \<longrightarrow> os_ftruncate os n) \<and> (\<forall>n. os_mmap os n) \<and> os_msync os"

type_synonym 'a io = "bson_mmap_file \<Rightarrow> 'a result \<times> bson_mmap_file"

definition io_return :: "'a \<Rightarrow> 'a io" where
  "io_return x f = (Ok x, f)"

definition io_fail :: "bson_status \<Rightarrow> 'a io" where
  "io_fail e f = (Err e, f)"

definition io_bind :: "'a io \<Rightarrow> ('a \<Rightarrow> 'b io) \<Rightarrow> 'b io" where
  "io_bind m g f = (case m f of
     (Ok x, f') \<Rightarrow> g x f'
   | (Err e, f') \<Rightarrow> (Err e, f')
   | (Fault, f') \<Rightarrow> (Fault, f')
   | (Diverge, f') \<Rightarrow> (Diverge, f'))"

lemma io_return_apply [simp]: "io_return x f = (Ok x, f)"
  by (simp add: io_return_def)

lemma io_fail_apply [simp]: "io_fail e f = (Err e, f)"
  by (simp add: io_fail_def)

lemma io_bind_simps [simp]:
  "m f = (Ok x, f') \<Longrightarrow> io_bind m g f = g x f'"
  "m f = (Err e, f') \<Longrightarrow> io_bind m g f = (Err e, f')"
  "m f = (Fault, f') \<Longrightarrow> io_bind m g f = (Fault, f')"
  "m f = (Diverge, f') \<Longrightarrow> io_bind m g f = (Diverge, f')"
  by (simp_all add: io_bind_def)

text \<open>
  Reading through the mapping, and writing through it. NULL, an access past the mapped size and
  a store into a read-only mapping are faults.
\<close>

definition io_load :: "(byte list \<Rightarrow> 'a result) \<Rightarrow> 'a io" where
  "io_load g f = (if mm_base f then g (take (mm_size f) (mm_bytes f)) else Fault, f)"

definition io_store :: "(byte list \<Rightarrow> byte list result) \<Rightarrow> unit io" where
  "io_store g f =
     (if mm_base f \<and> mm_mode f = BSON_MMAP_READ_WRITE then
        case g (take (mm_size f) (mm_bytes f)) of
          Ok m \<Rightarrow> (Ok (), f\<lparr>mm_bytes := m @ drop (mm_size f) (mm_bytes f)\<rparr>)
        | Err e \<Rightarrow> (Err e, f)
        | Fault \<Rightarrow> (Fault, f)
        | Diverge \<Rightarrow> (Diverge, f)
      else (Fault, f))"

section \<open>Operations\<close>

text \<open>\<^verbatim>\<open>ftruncate\<close>: cut or extend with zeros; a size beyond \<^verbatim>\<open>off_t\<close> is refused.\<close>

definition set_file_size :: "nat \<Rightarrow> byte list \<Rightarrow> byte list" where
  "set_file_size n bs = take n bs @ replicate (n - length bs) 0"

definition ftruncate_ok :: "os_calls \<Rightarrow> nat \<Rightarrow> bool" where
  "ftruncate_ok os n \<longleftrightarrow> n < 2 ^ 63 \<and> os_ftruncate os n"

definition map_current_fd :: "os_calls \<Rightarrow> nat \<Rightarrow> unit io" where
  "map_current_fd os len f =
     (if len = 0 then (Ok (), f\<lparr>mm_base := False, mm_size := 0\<rparr>)
      else if \<not> os_mmap os len then (Err BSON_ERR_IO, f)
      else (Ok (), f\<lparr>mm_base := True, mm_size := len\<rparr>))"

text \<open>Opening: \<open>disk\<close> is the content of the file, empty when it is created.\<close>

definition bson_mmap_open ::
    "os_calls \<Rightarrow> bson_mmap_mode \<Rightarrow> nat \<Rightarrow> byte list \<Rightarrow> bson_mmap_file result" where
  "bson_mmap_open os mode initial_size disk =
     (if \<not> os_open os then Err BSON_ERR_IO
      else if \<not> os_fstat os then Err BSON_ERR_IO
      else
        let grow = (mode = BSON_MMAP_READ_WRITE \<and> initial_size > length disk);
            file_size = (if grow then initial_size else length disk) in
        if grow \<and> \<not> ftruncate_ok os initial_size then Err BSON_ERR_IO
        else if \<not> os_malloc os then Err BSON_ERR_OUT_OF_MEMORY
        else
          let f = \<lparr>mm_mode = mode, mm_base = False, mm_size = 0,
                   mm_bytes = (if grow then set_file_size initial_size disk else disk)\<rparr> in
          rbind (fst (map_current_fd os file_size f)) (\<lambda>_.
            Ok (snd (map_current_fd os file_size f))))"

definition bson_mmap_data :: "bson_mmap_file \<Rightarrow> byte list option" where
  "bson_mmap_data f = (if mm_base f then Some (take (mm_size f) (mm_bytes f)) else None)"

definition bson_mmap_size :: "bson_mmap_file \<Rightarrow> nat" where
  "bson_mmap_size f = mm_size f"

definition bson_mmap_resize :: "os_calls \<Rightarrow> nat \<Rightarrow> unit io" where
  "bson_mmap_resize os new_size f =
     (if mm_mode f \<noteq> BSON_MMAP_READ_WRITE then (Err BSON_ERR_READ_ONLY_VIOLATION, f)
      else if new_size = mm_size f then (Ok (), f)
      else if \<not> ftruncate_ok os new_size then (Err BSON_ERR_IO, f)
      else
        let f1 = f\<lparr>mm_bytes := set_file_size new_size (mm_bytes f)\<rparr>;
            f2 = (if mm_base f1 then f1\<lparr>mm_base := False, mm_size := 0\<rparr> else f1) in
        map_current_fd os new_size f2)"

definition bson_mmap_flush :: "os_calls \<Rightarrow> unit io" where
  "bson_mmap_flush os f =
     (if mm_mode f \<noteq> BSON_MMAP_READ_WRITE then (Err BSON_ERR_READ_ONLY_VIOLATION, f)
      else if \<not> mm_base f then (Ok (), f)
      else if \<not> os_msync os then (Err BSON_ERR_IO, f)
      else (Ok (), f))"

text \<open>Closing leaves the file's content on disk.\<close>

definition bson_mmap_close :: "bson_mmap_file \<Rightarrow> byte list" where
  "bson_mmap_close f = mm_bytes f"

section \<open>Invariant: the mapping is the whole file, or there is none\<close>

definition mmap_inv :: "bson_mmap_file \<Rightarrow> bool" where
  "mmap_inv f \<longleftrightarrow> (if mm_base f then 0 < mm_size f \<and> mm_size f = length (mm_bytes f) else mm_size f = 0)"

lemma length_set_file_size [simp]: "length (set_file_size n bs) = n"
  by (simp add: set_file_size_def)

lemma mmap_open_inv: "bson_mmap_open os mode n disk = Ok f \<Longrightarrow> mmap_inv f \<and> mm_mode f = mode"
  by (auto simp: bson_mmap_open_def map_current_fd_def mmap_inv_def Let_def split: if_splits)

lemma mmap_resize_inv: "mmap_inv f \<Longrightarrow> mmap_inv (snd (bson_mmap_resize os n f))"
  by (auto simp: bson_mmap_resize_def map_current_fd_def mmap_inv_def Let_def)

lemma mmap_flush_unchanged: "snd (bson_mmap_flush os f) = f"
  by (simp add: bson_mmap_flush_def)

text \<open>Growing keeps every byte and appends zeros.\<close>

lemma mmap_resize_grow:
  assumes "mmap_inv f" "bson_mmap_resize os n f = (Ok (), f')" "mm_size f \<le> n" "0 < n" "mm_base f"
  shows "f' = f\<lparr>mm_base := True, mm_size := n, mm_bytes := mm_bytes f @ replicate (n - mm_size f) 0\<rparr>"
  using assms
  by (auto simp: bson_mmap_resize_def map_current_fd_def mmap_inv_def set_file_size_def Let_def
      split: if_splits)

text \<open>A failed remapping after a successful truncation leaves the handle without its mapping.\<close>

lemma mmap_resize_lost:
  assumes "mm_mode f = BSON_MMAP_READ_WRITE" "n \<noteq> mm_size f" "ftruncate_ok os n" "0 < n"
    "\<not> os_mmap os n" "mmap_inv f"
  shows "bson_mmap_resize os n f =
    (Err BSON_ERR_IO, f\<lparr>mm_base := False, mm_size := 0, mm_bytes := set_file_size n (mm_bytes f)\<rparr>)"
  using assms by (auto simp: bson_mmap_resize_def map_current_fd_def mmap_inv_def Let_def)

lemma io_load_mapped:
  "mmap_inv f \<Longrightarrow> mm_base f \<Longrightarrow> io_load g f = (g (mm_bytes f), f)"
  by (simp add: io_load_def mmap_inv_def)

lemma io_store_mapped:
  "mmap_inv f \<Longrightarrow> mm_base f \<Longrightarrow> mm_mode f = BSON_MMAP_READ_WRITE \<Longrightarrow> g (mm_bytes f) = Ok m \<Longrightarrow>
     io_store g f = (Ok (), f\<lparr>mm_bytes := m\<rparr>)"
  by (simp add: io_store_def mmap_inv_def)

section \<open>Properties\<close>

text \<open>
  Resizing a mapped, writable file: a success maps exactly the new size, with the old bytes
  kept and new ones zero; when the truncation succeeds but the mapping then fails, the call
  returns an I/O error and leaves a handle of size 0 without a mapping.
\<close>

theorem mmap_resize_outcomes:
  assumes "mmap_inv f" "mm_base f" "mm_mode f = BSON_MMAP_READ_WRITE" "mm_size f < n" "n < 2 ^ 63"
  shows "bson_mmap_resize os n f =
    (if \<not> os_ftruncate os n then (Err BSON_ERR_IO, f)
     else if \<not> os_mmap os n
     then (Err BSON_ERR_IO, f\<lparr>mm_base := False, mm_size := 0, mm_bytes := mm_bytes f @ replicate (n - mm_size f) 0\<rparr>)
     else (Ok (), f\<lparr>mm_base := True, mm_size := n, mm_bytes := mm_bytes f @ replicate (n - mm_size f) 0\<rparr>))"
  using assms
  by (auto simp: bson_mmap_resize_def map_current_fd_def Let_def ftruncate_ok_def mmap_inv_def set_file_size_def)

theorem mmap_resize_outcomes_witness:
  "bson_mmap_resize \<lparr>os_open = True, os_fstat = True, os_malloc = True, os_ftruncate = \<lambda>_. True,
       os_mmap = \<lambda>_. False, os_msync = True\<rparr> 3
     \<lparr>mm_mode = BSON_MMAP_READ_WRITE, mm_base = True, mm_size = 2, mm_bytes = [7, 8]\<rparr> =
   (Err BSON_ERR_IO, \<lparr>mm_mode = BSON_MMAP_READ_WRITE, mm_base = False, mm_size = 0, mm_bytes = [7, 8, 0]\<rparr>)"
  by (subst mmap_resize_outcomes) (simp_all add: mmap_inv_def)

end
