(* ===== verification/Bson_Mmap_Win.thy ===== *)
theory Bson_Mmap_Win
  imports Bson_Mmap
begin

text \<open>
  The memory-mapped file of src/c_engine/platform_mmap.c, its Windows half, and its relation to the
  POSIX half (Bson_Mmap).

  The record holds the fields of \<^verbatim>\<open>struct bson_mmap_file\<close> and what the calls change outside of it:
  the content \<open>wf_bytes\<close> of the file and its pointer \<open>wf_pos\<close>, the number of open handles and the number
  of allocations of the process. The wide copy of the path, allocated and freed within \<^verbatim>\<open>bson_mmap_open\<close>, is not
  counted among the latter. A handle is its being open; \<^verbatim>\<open>base\<close> is its not being NULL. Which
  Win32 calls succeed is the parameter \<open>w\<close>; what they do is what their documentation says.
\<close>

section \<open>State\<close>

record win_mmap_file =
  wf_hFile :: bool
  wf_hMapping :: bool
  wf_mode :: bson_mmap_mode
  wf_base :: bool
  wf_size :: nat
  wf_pos :: nat
  wf_bytes :: "byte list"
  wf_handles :: nat
  wf_allocs :: nat

record win_calls =
  w_wide_length :: int
  w_wide_malloc :: bool
  w_wide_convert :: int
  w_CreateFileW :: bool
  w_GetFileSizeEx :: bool
  w_malloc :: bool
  w_strdup :: bool
  w_SetFilePointerEx :: "nat \<Rightarrow> bool"
  w_SetEndOfFile :: "nat \<Rightarrow> bool"
  w_CreateFileMappingW :: "nat \<Rightarrow> bool"
  w_MapViewOfFile :: "nat \<Rightarrow> bool"
  w_FlushViewOfFile :: bool
  w_FlushFileBuffers :: bool

type_synonym 'a win = "win_mmap_file \<Rightarrow> 'a result \<times> win_mmap_file"

section \<open>Operations\<close>

text \<open>Whether the path has a UTF-16 form; its buffer is freed after \<^verbatim>\<open>CreateFileW\<close>.\<close>

definition utf8_to_wide :: "win_calls \<Rightarrow> bool" where
  "utf8_to_wide w \<longleftrightarrow> \<not> w_wide_length w \<le> 0 \<and> w_wide_malloc w \<and> \<not> w_wide_convert w \<le> 0"

definition unmap_current_handle :: "win_mmap_file \<Rightarrow> win_mmap_file" where
  "unmap_current_handle f =
     (let f1 = (if wf_base f then f\<lparr>wf_base := False\<rparr> else f);
          f2 = (if wf_hMapping f1 then f1\<lparr>wf_hMapping := False, wf_handles := wf_handles f1 - 1\<rparr> else f1)
      in f2\<lparr>wf_size := 0\<rparr>)"

text \<open>
  \<^verbatim>\<open>CreateFileMappingW\<close> gets the size in two 32-bit halves. A mapping that is longer than the file
  extends it, which a read-only handle does not allow.
\<close>

definition mapping_size :: "nat \<Rightarrow> nat" where
  "mapping_size n =
     (let sizeHigh = word_of_nat (n div 2 ^ 32) :: u32; sizeLow = word_of_nat n :: u32
      in unat sizeHigh * 2 ^ 32 + unat sizeLow)"

definition create_file_mapping :: "win_calls \<Rightarrow> nat \<Rightarrow> win_mmap_file \<Rightarrow> win_mmap_file option" where
  "create_file_mapping w n f =
     (if \<not> w_CreateFileMappingW w n \<or> (length (wf_bytes f) < n \<and> wf_mode f \<noteq> BSON_MMAP_READ_WRITE) then None
      else Some (f\<lparr>wf_handles := wf_handles f + 1, wf_bytes := wf_bytes f @ replicate (n - length (wf_bytes f)) 0\<rparr>))"

definition map_current_handle :: "win_calls \<Rightarrow> nat \<Rightarrow> unit win" where
  "map_current_handle w len f =
     (if len = 0 then (Ok (), f\<lparr>wf_base := False, wf_hMapping := False, wf_size := 0\<rparr>)
      else case create_file_mapping w (mapping_size len) f of
        None \<Rightarrow> (Err BSON_ERR_IO, f)
      | Some f1 \<Rightarrow>
          if \<not> w_MapViewOfFile w len then (Err BSON_ERR_IO, f1\<lparr>wf_handles := wf_handles f1 - 1\<rparr>)
          else (Ok (), f1\<lparr>wf_hMapping := True, wf_base := True, wf_size := len\<rparr>))"

text \<open>
  \<^verbatim>\<open>SetEndOfFile\<close> cuts or extends the file at its pointer, and refuses while the file is mapped. The
  pointer is a signed 64-bit number, a negative one is refused.
\<close>

definition win_set_file_size :: "win_calls \<Rightarrow> nat \<Rightarrow> unit win" where
  "win_set_file_size w new_size f =
     (if \<not> new_size < 2 ^ 63 \<or> \<not> w_SetFilePointerEx w new_size then (Err BSON_ERR_IO, f)
      else
        let f1 = f\<lparr>wf_pos := new_size\<rparr> in
        if wf_hMapping f1 \<or> \<not> w_SetEndOfFile w (wf_pos f1) then (Err BSON_ERR_IO, f1)
        else (Ok (), f1\<lparr>wf_bytes := set_file_size (wf_pos f1) (wf_bytes f1)\<rparr>))"

text \<open>The error exits of opening: the file handle is closed, the allocations are freed.\<close>

definition win_close_file :: "win_mmap_file \<Rightarrow> win_mmap_file" where
  "win_close_file f = f\<lparr>wf_hFile := False, wf_handles := wf_handles f - 1\<rparr>"

definition win_free_file :: "win_mmap_file \<Rightarrow> win_mmap_file" where
  "win_free_file f = f\<lparr>wf_allocs := wf_allocs f - 2\<rparr>"

definition win_mmap_open :: "win_calls \<Rightarrow> bson_mmap_mode \<Rightarrow> nat \<Rightarrow> unit win" where
  "win_mmap_open w mode initial_size f =
     (if \<not> utf8_to_wide w then (Err BSON_ERR_IO, f)
      else if \<not> w_CreateFileW w then (Err BSON_ERR_IO, f)
      else
        let f1 = f\<lparr>wf_hFile := True, wf_handles := wf_handles f + 1\<rparr> in
        if \<not> w_GetFileSizeEx w then (Err BSON_ERR_IO, win_close_file f1)
        else
          let file_size = length (wf_bytes f1) in
          if \<not> w_malloc w then (Err BSON_ERR_OUT_OF_MEMORY, win_close_file f1)
          else
            let f2 = f1\<lparr>wf_hMapping := False, wf_mode := mode, wf_base := False, wf_size := 0, wf_allocs := wf_allocs f1 + 1\<rparr> in
            if \<not> w_strdup w then
              (Err BSON_ERR_OUT_OF_MEMORY, (win_close_file f2)\<lparr>wf_allocs := wf_allocs f2 - 1\<rparr>)
            else
              let f3 = f2\<lparr>wf_allocs := wf_allocs f2 + 1\<rparr>;
                  grow = (mode = BSON_MMAP_READ_WRITE \<and> initial_size > file_size);
                  (status, f4) = (if grow then win_set_file_size w initial_size f3 else (Ok (), f3));
                  file_size = (if grow then initial_size else file_size) in
              if status \<noteq> Ok () then (status, win_free_file (win_close_file f4))
              else
                let (map_status, f5) = map_current_handle w file_size f4 in
                if map_status \<noteq> Ok () then (map_status, win_free_file (win_close_file f5))
                else (Ok (), f5))"

definition win_mmap_close :: "win_mmap_file \<Rightarrow> win_mmap_file" where
  "win_mmap_close f =
     (let f1 = unmap_current_handle f;
          f2 = (if wf_hFile f1 then win_close_file f1 else f1)
      in win_free_file f2)"

definition win_mmap_data :: "win_mmap_file \<Rightarrow> byte list option" where
  "win_mmap_data f = (if wf_base f then Some (take (wf_size f) (wf_bytes f)) else None)"

definition win_mmap_size :: "win_mmap_file \<Rightarrow> nat" where
  "win_mmap_size f = wf_size f"

definition win_mmap_resize :: "win_calls \<Rightarrow> nat \<Rightarrow> unit win" where
  "win_mmap_resize w new_size f =
     (if wf_mode f \<noteq> BSON_MMAP_READ_WRITE then (Err BSON_ERR_READ_ONLY_VIOLATION, f)
      else if new_size = wf_size f then (Ok (), f)
      else
        let (status, f1) = win_set_file_size w new_size (unmap_current_handle f) in
        if status \<noteq> Ok () then (status, f1) else map_current_handle w new_size f1)"

definition win_mmap_flush :: "win_calls \<Rightarrow> unit win" where
  "win_mmap_flush w f =
     (if wf_mode f \<noteq> BSON_MMAP_READ_WRITE then (Err BSON_ERR_READ_ONLY_VIOLATION, f)
      else if \<not> wf_base f then (Ok (), f)
      else if \<not> w_FlushViewOfFile w then (Err BSON_ERR_IO, f)
      else if \<not> w_FlushFileBuffers w then (Err BSON_ERR_IO, f)
      else (Ok (), f))"

section \<open>The invariant, and the POSIX file that a Windows file stands for\<close>

text \<open>
  An open file has its two allocations; the handles are that of the file and that of the mapping, if
  there is one. \<open>h\<close> and \<open>a\<close> are the handles and allocations of the rest of the process.
\<close>

definition win_inv :: "nat \<Rightarrow> nat \<Rightarrow> win_mmap_file \<Rightarrow> bool" where
  "win_inv h a f \<longleftrightarrow> wf_hFile f \<and> wf_hMapping f = wf_base f \<and>
     (if wf_base f then 0 < wf_size f \<and> wf_size f = length (wf_bytes f) else wf_size f = 0) \<and>
     wf_handles f = h + 1 + (if wf_hMapping f then 1 else 0) \<and> wf_allocs f = a + 2"

definition posix_of :: "win_mmap_file \<Rightarrow> bson_mmap_file" where
  "posix_of f = \<lparr>mm_mode = wf_mode f, mm_base = wf_base f, mm_size = wf_size f, mm_bytes = wf_bytes f\<rparr>"

definition os_of :: "win_calls \<Rightarrow> os_calls" where
  "os_of w = \<lparr>os_open = utf8_to_wide w \<and> w_CreateFileW w, os_fstat = w_GetFileSizeEx w,
     os_malloc = w_malloc w \<and> w_strdup w, os_ftruncate = \<lambda>n. w_SetFilePointerEx w n \<and> w_SetEndOfFile w n,
     os_mmap = \<lambda>n. w_CreateFileMappingW w n \<and> w_MapViewOfFile w n,
     os_msync = w_FlushViewOfFile w \<and> w_FlushFileBuffers w\<rparr>"

lemma posix_of_inv: "win_inv h a f \<Longrightarrow> mmap_inv (posix_of f)"
  by (auto simp: win_inv_def mmap_inv_def posix_of_def)

lemma mapping_size: "n < 2 ^ 64 \<Longrightarrow> mapping_size n = n"
  by (simp add: mapping_size_def unat_of_nat take_bit_eq_mod unsigned_of_nat)

text \<open>Mapping the whole file: an unmapped file of the length \<open>n\<close>.\<close>

definition win_unmapped :: "nat \<Rightarrow> nat \<Rightarrow> win_mmap_file \<Rightarrow> bool" where
  "win_unmapped h a f \<longleftrightarrow> win_inv h a f \<and> \<not> wf_base f"

lemma map_whole:
  assumes "win_unmapped h a f" "n = length (wf_bytes f)" "n < 2 ^ 64"
  shows "map_current_handle w n f =
    (if n = 0 then (Ok (), f)
     else if os_mmap (os_of w) n
     then (Ok (), f\<lparr>wf_hMapping := True, wf_base := True, wf_size := n, wf_handles := h + 2\<rparr>)
     else (Err BSON_ERR_IO, f))"
  using assms
  by (auto simp: map_current_handle_def create_file_mapping_def mapping_size win_unmapped_def win_inv_def os_of_def)

lemma unmap_unmapped: "win_inv h a f \<Longrightarrow> win_unmapped h a (unmap_current_handle f)"
  by (auto simp: win_unmapped_def win_inv_def unmap_current_handle_def Let_def)

lemma unmap_simps [simp]:
  "wf_bytes (unmap_current_handle f) = wf_bytes f" "wf_mode (unmap_current_handle f) = wf_mode f"
  "wf_pos (unmap_current_handle f) = wf_pos f" "wf_size (unmap_current_handle f) = 0"
  "\<not> wf_base (unmap_current_handle f)" "\<not> wf_hMapping (unmap_current_handle f)"
  by (simp_all add: unmap_current_handle_def Let_def)

lemma set_size_unmapped:
  assumes "win_unmapped h a f"
  shows "win_set_file_size w n f =
    (if ftruncate_ok (os_of w) n then (Ok (), f\<lparr>wf_pos := n, wf_bytes := set_file_size n (wf_bytes f)\<rparr>)
     else (Err BSON_ERR_IO, if n < 2 ^ 63 \<and> w_SetFilePointerEx w n then f\<lparr>wf_pos := n\<rparr> else f))"
  using assms
  by (auto simp: win_set_file_size_def win_unmapped_def win_inv_def ftruncate_ok_def os_of_def)

lemma win_unmapped_upd [simp]:
  "win_unmapped h a (f\<lparr>wf_pos := p\<rparr>) = win_unmapped h a f" "win_unmapped h a (f\<lparr>wf_bytes := bs\<rparr>) = win_unmapped h a f"
  "win_unmapped h a (f\<lparr>wf_pos := p, wf_bytes := bs\<rparr>) = win_unmapped h a f"
  by (auto simp: win_unmapped_def win_inv_def)

text \<open>Opening, up to the mapping of the file.\<close>

definition fresh_file :: "bson_mmap_mode \<Rightarrow> win_mmap_file \<Rightarrow> win_mmap_file" where
  "fresh_file mode f = f\<lparr>wf_hFile := True, wf_handles := wf_handles f + 1, wf_hMapping := False, wf_mode := mode,
     wf_base := False, wf_size := 0, wf_allocs := wf_allocs f + 2\<rparr>"

lemma fresh_unmapped: "win_unmapped (wf_handles f) (wf_allocs f) (fresh_file mode f)"
  by (simp add: fresh_file_def win_unmapped_def win_inv_def)

lemma win_open_eq:
  "win_mmap_open w mode n f =
    (if \<not> utf8_to_wide w \<or> \<not> w_CreateFileW w then (Err BSON_ERR_IO, f)
     else if \<not> w_GetFileSizeEx w then (Err BSON_ERR_IO, f\<lparr>wf_hFile := False\<rparr>)
     else if \<not> w_malloc w then (Err BSON_ERR_OUT_OF_MEMORY, f\<lparr>wf_hFile := False\<rparr>)
     else if \<not> w_strdup w then
       (Err BSON_ERR_OUT_OF_MEMORY, f\<lparr>wf_hFile := False, wf_hMapping := False, wf_mode := mode, wf_base := False, wf_size := 0\<rparr>)
     else
       let f3 = fresh_file mode f;
           grow = (mode = BSON_MMAP_READ_WRITE \<and> n > length (wf_bytes f));
           (status, f4) = (if grow then win_set_file_size w n f3 else (Ok (), f3)) in
       if status \<noteq> Ok () then (status, win_free_file (win_close_file f4))
       else
         let (map_status, f5) = map_current_handle w (if grow then n else length (wf_bytes f)) f4 in
         if map_status \<noteq> Ok () then (map_status, win_free_file (win_close_file f5)) else (Ok (), f5))"
  by (simp add: win_mmap_open_def fresh_file_def win_close_file_def Let_def)

text \<open>The two counters after an error exit.\<close>

lemma close_free:
  "win_unmapped h a f \<Longrightarrow> wf_handles (win_free_file (win_close_file f)) = h \<and> wf_allocs (win_free_file (win_close_file f)) = a"
  by (simp add: win_unmapped_def win_inv_def win_free_file_def win_close_file_def)

lemma map_status:
  assumes "win_unmapped h a f" "n = length (wf_bytes f)" "n < 2 ^ 64"
  obtains (ok) f' where "map_current_handle w n f = (Ok (), f')" "win_inv h a f'"
      "map_current_fd (os_of w) n (posix_of f) = (Ok (), posix_of f')"
  | (err) "map_current_handle w n f = (Err BSON_ERR_IO, f)"
      "map_current_fd (os_of w) n (posix_of f) = (Err BSON_ERR_IO, posix_of f)"
proof (cases "n = 0")
  case True
  then show ?thesis
    using map_whole [OF assms, of w] assms(1) by (intro ok [of f]) (auto simp: map_current_fd_def posix_of_def win_unmapped_def win_inv_def)
next
  case False
  show ?thesis
  proof (cases "os_mmap (os_of w) n")
    case True
    with False show ?thesis
      using map_whole [OF assms, of w] assms(1,2)
      by (intro ok [of "f\<lparr>wf_hMapping := True, wf_base := True, wf_size := n, wf_handles := h + 2\<rparr>"])
        (simp_all add: map_current_fd_def posix_of_def win_unmapped_def win_inv_def)
  next
    case nomap: False
    with False show ?thesis using map_whole [OF assms, of w] by (intro err) (simp_all add: map_current_fd_def)
  qed
qed

text \<open>The three ways through a resize: nothing to do, the new length set, or not set.\<close>

lemma win_resize_cases:
  assumes "win_inv h a f"
  obtains (refused) "wf_mode f \<noteq> BSON_MMAP_READ_WRITE \<or> n = wf_size f"
      "win_mmap_resize w n f = (if wf_mode f \<noteq> BSON_MMAP_READ_WRITE then Err BSON_ERR_READ_ONLY_VIOLATION else Ok (), f)"
  | (set) f2 where "wf_mode f = BSON_MMAP_READ_WRITE" "n \<noteq> wf_size f" "ftruncate_ok (os_of w) n" "win_unmapped h a f2"
      "n = length (wf_bytes f2)" "win_mmap_resize w n f = map_current_handle w n f2"
      "posix_of f2 = (posix_of f)\<lparr>mm_base := False, mm_size := 0, mm_bytes := set_file_size n (wf_bytes f)\<rparr>"
  | (not_set) f2 where "wf_mode f = BSON_MMAP_READ_WRITE" "n \<noteq> wf_size f" "\<not> ftruncate_ok (os_of w) n" "win_unmapped h a f2"
      "win_mmap_resize w n f = (Err BSON_ERR_IO, f2)"
      "posix_of f2 = (posix_of f)\<lparr>mm_base := False, mm_size := 0\<rparr>"
proof (cases "wf_mode f \<noteq> BSON_MMAP_READ_WRITE \<or> n = wf_size f")
  case True
  then show thesis by (intro refused) (auto simp: win_mmap_resize_def)
next
  case False
  define f1 where "f1 = unmap_current_handle f"
  have f1: "win_unmapped h a f1" unfolding f1_def by (rule unmap_unmapped [OF assms])
  have w: "win_mmap_resize w n f = (case win_set_file_size w n f1 of (status, f2) \<Rightarrow>
      if status \<noteq> Ok () then (status, f2) else map_current_handle w n f2)"
    using False by (simp add: win_mmap_resize_def f1_def)
  show thesis
  proof (cases "ftruncate_ok (os_of w) n")
    case True
    then show thesis
      using False f1 w set_size_unmapped [OF f1, of w n]
      by (intro set [of "f1\<lparr>wf_pos := n, wf_bytes := set_file_size n (wf_bytes f1)\<rparr>"]) (simp_all add: f1_def posix_of_def)
  next
    case bad: False
    then show thesis
      using False f1 w set_size_unmapped [OF f1, of w n]
      by (intro not_set [of "if n < 2 ^ 63 \<and> w_SetFilePointerEx w n then f1\<lparr>wf_pos := n\<rparr> else f1"])
        (simp_all add: f1_def posix_of_def)
  qed
qed

lemma win_resize_inv:
  assumes "win_inv h a f" "n < 2 ^ 64"
  shows "win_inv h a (snd (win_mmap_resize w n f))"
  using assms(1)
proof (cases rule: win_resize_cases [where n = n and w = w])
  case (set f2)
  from set(4,5) assms(2) show ?thesis
    by (cases rule: map_status [where w = w]) (use set in \<open>simp_all add: win_unmapped_def\<close>)
qed (use assms in \<open>simp_all add: win_unmapped_def\<close>)

text \<open>A file in use: its operations, each under its own outcomes of the system calls.\<close>

datatype win_op = Win_Resize nat | Win_Flush

fun win_step :: "win_mmap_file \<Rightarrow> win_calls \<times> win_op \<Rightarrow> win_mmap_file" where
  "win_step f (w, Win_Resize n) = snd (win_mmap_resize w n f)"
| "win_step f (w, Win_Flush) = snd (win_mmap_flush w f)"

definition size_fits :: "win_calls \<times> win_op \<Rightarrow> bool" where
  "size_fits op = (case snd op of Win_Resize n \<Rightarrow> n < 2 ^ 64 | Win_Flush \<Rightarrow> True)"

lemma win_step_inv: "win_inv h a f \<Longrightarrow> size_fits op \<Longrightarrow> win_inv h a (win_step f op)"
  using win_resize_inv [of h a f] by (cases op; cases "snd op") (auto simp: size_fits_def win_mmap_flush_def)

lemma win_run_inv: "win_inv h a f \<Longrightarrow> \<forall>op \<in> set ops. size_fits op \<Longrightarrow> win_inv h a (foldl win_step f ops)"
  by (induction ops arbitrary: f) (simp_all add: win_step_inv)

lemma win_close_releases:
  assumes "win_inv h a f"
  shows "wf_handles (win_mmap_close f) = h" "wf_allocs (win_mmap_close f) = a" "\<not> wf_hFile (win_mmap_close f)"
    "wf_bytes (win_mmap_close f) = wf_bytes f"
proof -
  define f1 where "f1 = unmap_current_handle f"
  have f1: "win_unmapped h a f1" unfolding f1_def by (rule unmap_unmapped [OF assms])
  then have "wf_hFile f1" by (simp add: win_unmapped_def win_inv_def)
  then have c: "win_mmap_close f = win_free_file (win_close_file f1)"
    by (simp add: win_mmap_close_def f1_def [symmetric])
  show "wf_handles (win_mmap_close f) = h" "wf_allocs (win_mmap_close f) = a" using close_free [OF f1] c by simp_all
  show "\<not> wf_hFile (win_mmap_close f)" "wf_bytes (win_mmap_close f) = wf_bytes f"
    by (simp_all add: c win_free_file_def win_close_file_def f1_def)
qed

section \<open>Properties\<close>

text \<open>
  C23. Opening on Windows does what it does on POSIX: it succeeds exactly when the POSIX half succeeds
  on the corresponding system calls, and the mapped file is the same one; on every error exit the file
  handle is closed and all allocations are freed that are counted (the wide copy of the path is not).
\<close>

theorem win_open_refines:
  assumes "length (wf_bytes f) < 2 ^ 64" "n < 2 ^ 64"
  shows "case win_mmap_open w mode n f of
      (Ok _, f') \<Rightarrow> bson_mmap_open (os_of w) mode n (wf_bytes f) = Ok (posix_of f') \<and>
        win_inv (wf_handles f) (wf_allocs f) f'
    | (Err e, f') \<Rightarrow> e \<in> {BSON_ERR_IO, BSON_ERR_OUT_OF_MEMORY} \<and>
        bson_mmap_open (os_of w) mode n (wf_bytes f) \<in> {Err BSON_ERR_IO, Err BSON_ERR_OUT_OF_MEMORY} \<and>
        wf_handles f' = wf_handles f \<and> wf_allocs f' = wf_allocs f
    | _ \<Rightarrow> False"
proof (cases "utf8_to_wide w \<and> w_CreateFileW w \<and> w_GetFileSizeEx w \<and> w_malloc w \<and> w_strdup w")
  case False
  then show ?thesis by (auto simp: win_open_eq bson_mmap_open_def os_of_def Let_def)
next
  case True
  then have os: "os_open (os_of w)" "os_fstat (os_of w)" "os_malloc (os_of w)" by (simp_all add: os_of_def)
  define h a where "h = wf_handles f" and "a = wf_allocs f"
  define grow where "grow \<longleftrightarrow> mode = BSON_MMAP_READ_WRITE \<and> length (wf_bytes f) < n"
  define len where "len = (if grow then n else length (wf_bytes f))"
  define f4 where "f4 = (if grow then (fresh_file mode f)\<lparr>wf_pos := n, wf_bytes := set_file_size n (wf_bytes f)\<rparr> else fresh_file mode f)"
  have fr: "win_unmapped h a (fresh_file mode f)" unfolding h_def a_def by (rule fresh_unmapped)
  have b: "wf_bytes (fresh_file mode f) = wf_bytes f" by (simp add: fresh_file_def)
  show ?thesis
  proof (cases "grow \<and> \<not> ftruncate_ok (os_of w) n")
    case bad: True
    define f5 where "f5 = snd (win_set_file_size w n (fresh_file mode f))"
    have st: "win_set_file_size w n (fresh_file mode f) = (Err BSON_ERR_IO, f5)" "win_unmapped h a f5"
      using set_size_unmapped [OF fr, of w n] bad fr by (simp_all add: f5_def)
    have "win_mmap_open w mode n f = (Err BSON_ERR_IO, win_free_file (win_close_file f5))"
      using True bad st(1) by (simp add: win_open_eq grow_def [symmetric])
    then show ?thesis
      using close_free [OF st(2)] bad os by (simp add: bson_mmap_open_def grow_def Let_def h_def a_def)
  next
    case good: False
    have un: "win_unmapped h a f4" and l: "len = length (wf_bytes f4)" "len < 2 ^ 64"
      using fr assms b by (simp_all add: f4_def len_def)
    have open': "win_mmap_open w mode n f =
        (case map_current_handle w len f4 of (st, f5) \<Rightarrow>
          if st \<noteq> Ok () then (st, win_free_file (win_close_file f5)) else (Ok (), f5))"
      using True good set_size_unmapped [OF fr, of w n] b
      by (simp add: win_open_eq grow_def [symmetric] len_def f4_def)
    have px: "bson_mmap_open (os_of w) mode n (wf_bytes f) =
        rbind (fst (map_current_fd (os_of w) len (posix_of f4))) (\<lambda>_. Ok (snd (map_current_fd (os_of w) len (posix_of f4))))"
      using os good by (auto simp: bson_mmap_open_def grow_def len_def f4_def posix_of_def fresh_file_def Let_def)
    from un l show ?thesis
    proof (cases rule: map_status [where w = w])
      case (ok f')
      then show ?thesis using open' px by (simp add: h_def a_def)
    next
      case err
      then show ?thesis using open' px close_free [OF un] by (simp add: h_def a_def)
    qed
  qed
qed

definition win_all :: win_calls where
  "win_all = \<lparr>w_wide_length = 2, w_wide_malloc = True, w_wide_convert = 2, w_CreateFileW = True, w_GetFileSizeEx = True,
     w_malloc = True, w_strdup = True, w_SetFilePointerEx = \<lambda>_. True, w_SetEndOfFile = \<lambda>_. True,
     w_CreateFileMappingW = \<lambda>_. True, w_MapViewOfFile = \<lambda>_. True, w_FlushViewOfFile = True, w_FlushFileBuffers = True\<rparr>"

definition win_disk :: win_mmap_file where
  "win_disk = \<lparr>wf_hFile = False, wf_hMapping = False, wf_mode = BSON_MMAP_READ_WRITE, wf_base = False, wf_size = 0,
     wf_pos = 0, wf_bytes = [7, 8], wf_handles = 5, wf_allocs = 9\<rparr>"

theorem win_open_refines_witness:
  "case win_mmap_open win_all BSON_MMAP_READ_WRITE 4 win_disk of
      (Ok _, f') \<Rightarrow> bson_mmap_open (os_of win_all) BSON_MMAP_READ_WRITE 4 (wf_bytes win_disk) = Ok (posix_of f') \<and>
        win_inv (wf_handles win_disk) (wf_allocs win_disk) f'
    | (Err e, f') \<Rightarrow> e \<in> {BSON_ERR_IO, BSON_ERR_OUT_OF_MEMORY} \<and>
        bson_mmap_open (os_of win_all) BSON_MMAP_READ_WRITE 4 (wf_bytes win_disk) \<in> {Err BSON_ERR_IO, Err BSON_ERR_OUT_OF_MEMORY} \<and>
        wf_handles f' = wf_handles win_disk \<and> wf_allocs f' = wf_allocs win_disk
    | _ \<Rightarrow> False"
  by (rule win_open_refines) (simp_all add: win_disk_def)

text \<open>
  Resizing on Windows: when the new length can be set, the result and the file are those of the
  POSIX half. When it cannot, the POSIX half keeps the mapping, whereas here it is gone: the call
  returns an I/O error and leaves a handle of size 0 on a file that has not changed.
\<close>

theorem win_resize_outcomes:
  assumes "win_inv h a f" "n < 2 ^ 64"
  shows "win_inv h a (snd (win_mmap_resize w n f)) \<and>
    (if wf_mode f \<noteq> BSON_MMAP_READ_WRITE \<or> n = wf_size f \<or> ftruncate_ok (os_of w) n
     then bson_mmap_resize (os_of w) n (posix_of f) =
       (fst (win_mmap_resize w n f), posix_of (snd (win_mmap_resize w n f)))
     else fst (win_mmap_resize w n f) = Err BSON_ERR_IO \<and>
       posix_of (snd (win_mmap_resize w n f)) = (posix_of f)\<lparr>mm_base := False, mm_size := 0\<rparr> \<and>
       bson_mmap_resize (os_of w) n (posix_of f) = (Err BSON_ERR_IO, posix_of f))"
  using assms(1)
proof (cases rule: win_resize_cases [where n = n and w = w])
  case refused
  then show ?thesis using assms(1) by (auto simp: bson_mmap_resize_def posix_of_def)
next
  case (set f2)
  have p: "bson_mmap_resize (os_of w) n (posix_of f) = map_current_fd (os_of w) n (posix_of f2)"
    using set(1-3) assms(1) unfolding set(7) by (auto simp: bson_mmap_resize_def posix_of_def win_inv_def Let_def)
  from set(4,5) assms(2) show ?thesis
    by (cases rule: map_status [where w = w]) (use set p in \<open>simp_all add: win_unmapped_def\<close>)
next
  case (not_set f2)
  then have "bson_mmap_resize (os_of w) n (posix_of f) = (Err BSON_ERR_IO, posix_of f)"
    by (simp add: bson_mmap_resize_def posix_of_def)
  then show ?thesis using not_set by (simp add: win_unmapped_def)
qed

definition win_mapped :: win_mmap_file where
  "win_mapped = \<lparr>wf_hFile = True, wf_hMapping = True, wf_mode = BSON_MMAP_READ_WRITE, wf_base = True, wf_size = 2,
     wf_pos = 0, wf_bytes = [7, 8], wf_handles = 7, wf_allocs = 11\<rparr>"

theorem win_resize_outcomes_witness:
  "win_inv 5 9 (snd (win_mmap_resize win_all 3 win_mapped)) \<and>
    (if wf_mode win_mapped \<noteq> BSON_MMAP_READ_WRITE \<or>
        3 = wf_size win_mapped \<or> ftruncate_ok (os_of win_all) 3
     then bson_mmap_resize (os_of win_all) 3 (posix_of win_mapped) =
       (fst (win_mmap_resize win_all 3 win_mapped),
        posix_of (snd (win_mmap_resize win_all 3 win_mapped)))
     else fst (win_mmap_resize win_all 3 win_mapped) = Err BSON_ERR_IO \<and>
       posix_of (snd (win_mmap_resize win_all 3 win_mapped)) =
         (posix_of win_mapped)\<lparr>mm_base := False, mm_size := 0\<rparr> \<and>
       bson_mmap_resize (os_of win_all) 3 (posix_of win_mapped) =
         (Err BSON_ERR_IO, posix_of win_mapped))"
  by (rule win_resize_outcomes) (simp_all add: win_mapped_def win_inv_def)

text \<open>
  A Windows file does not leak: whatever is done with an open file, and whichever system calls fail
  on the way, closing it leaves as many handles and allocations as there were without it, and the
  content of the file is the one last mapped or set.
\<close>

theorem win_no_leak:
  assumes "win_inv h a f" "\<forall>op \<in> set ops. size_fits op"
  shows "wf_handles (win_mmap_close (foldl win_step f ops)) = h \<and>
    wf_allocs (win_mmap_close (foldl win_step f ops)) = a \<and> \<not> wf_hFile (win_mmap_close (foldl win_step f ops)) \<and>
    wf_bytes (win_mmap_close (foldl win_step f ops)) = wf_bytes (foldl win_step f ops)"
proof -
  have inv: "win_inv h a (foldl win_step f ops)" using assms by (rule win_run_inv)
  show ?thesis using win_close_releases [OF inv] by simp
qed

theorem win_no_leak_witness:
  "wf_handles (win_mmap_close (foldl win_step win_mapped [(win_all, Win_Resize 3), (win_all, Win_Flush)])) = 5 \<and>
    wf_allocs (win_mmap_close (foldl win_step win_mapped [(win_all, Win_Resize 3), (win_all, Win_Flush)])) = 9 \<and>
    \<not> wf_hFile (win_mmap_close (foldl win_step win_mapped [(win_all, Win_Resize 3), (win_all, Win_Flush)])) \<and>
    wf_bytes (win_mmap_close (foldl win_step win_mapped [(win_all, Win_Resize 3), (win_all, Win_Flush)])) =
      wf_bytes (foldl win_step win_mapped [(win_all, Win_Resize 3), (win_all, Win_Flush)])"
  by (rule win_no_leak) (simp_all add: win_mapped_def win_inv_def size_fits_def)

end
