(* ===== verification/Bson_Storage.thy ===== *)
theory Bson_Storage
  imports Bson_Mmap Bson_Grammar
begin

text \<open>
  The collection data file of src/c_engine/storage.c: header, append, tombstone, read, recovery.
  The record log it stores is the list of its records, live or dead, in the order of their
  offsets; the lemmas say what each operation does to that list (\<open>log_repr\<close>).
\<close>

section \<open>The code\<close>

definition BSON_STORAGE_MAGIC :: "byte list" where
  "BSON_STORAGE_MAGIC = [0x43, 0x42, 0x44, 0x31]"
definition BSON_STORAGE_VERSION :: nat where "BSON_STORAGE_VERSION = 1"
definition BSON_STORAGE_HEADER_LEN :: nat where "BSON_STORAGE_HEADER_LEN = 64"
definition BSON_STORAGE_FLAG_DIRTY :: nat where "BSON_STORAGE_FLAG_DIRTY = 1"
definition BSON_RECORD_LIVE :: byte where "BSON_RECORD_LIVE = 1"
definition BSON_RECORD_TOMBSTONE :: byte where "BSON_RECORD_TOMBSTONE = 2"
definition BSON_STORAGE_INITIAL_CAPACITY :: nat where "BSON_STORAGE_INITIAL_CAPACITY = 4096"
definition BSON_STORAGE_PAGE_SIZE :: nat where "BSON_STORAGE_PAGE_SIZE = 4096"

lemmas storage_const_defs =
  BSON_STORAGE_VERSION_def BSON_STORAGE_HEADER_LEN_def BSON_STORAGE_FLAG_DIRTY_def
  BSON_RECORD_LIVE_def BSON_RECORD_TOMBSTONE_def BSON_STORAGE_INITIAL_CAPACITY_def
  BSON_STORAGE_PAGE_SIZE_def

definition bson_storage_data_end :: "nat io" where
  "bson_storage_data_end f =
     (if \<not> mm_base f then io_return BSON_STORAGE_HEADER_LEN f
      else io_load (\<lambda>base. read_u64 base 16) f)"

definition bson_storage_live_count :: "nat io" where
  "bson_storage_live_count f =
     (if \<not> mm_base f then io_return 0 f else io_load (\<lambda>base. read_u64 base 24) f)"

definition bson_storage_total_count :: "nat io" where
  "bson_storage_total_count f =
     (if \<not> mm_base f then io_return 0 f else io_load (\<lambda>base. read_u64 base 32) f)"

text \<open>The recovery scan: \<open>Ok (pos, live, records)\<close> where it stops.\<close>

function recover_loop ::
    "byte list \<Rightarrow> nat \<Rightarrow> nat \<Rightarrow> nat \<Rightarrow> nat \<Rightarrow> (nat \<times> nat \<times> nat) result" where
  "recover_loop base cap pos live records =
     (if \<not> pos < cap then Ok (pos, live, records)
      else if pos + 1 > cap then Ok (pos, live, records)
      else rbind (peek1 base pos) (\<lambda>status.
        if status \<noteq> BSON_RECORD_LIVE \<and> status \<noteq> BSON_RECORD_TOMBSTONE then Ok (pos, live, records)
        else let doc_off = pos + 1 in
          if doc_off + BSON_DOC_MIN_LEN > cap then Ok (pos, live, records)
          else case bson_reader_read_i32 (bson_reader_init (drop doc_off base) (cap - doc_off)) of
            Err _ \<Rightarrow> Ok (pos, live, records)
          | Fault \<Rightarrow> Fault
          | Diverge \<Rightarrow> Diverge
          | Ok (doc_len, _) \<Rightarrow>
              if doc_len < int BSON_DOC_MIN_LEN \<or> nat doc_len > BSON_MAX_DOCUMENT_SIZE
              then Ok (pos, live, records)
              else let record_len = 1 + nat doc_len in
                if pos + record_len > cap then Ok (pos, live, records)
                else case bson_validate_document (drop doc_off base) (nat doc_len) of
                  Err _ \<Rightarrow> Ok (pos, live, records)
                | Fault \<Rightarrow> Fault
                | Diverge \<Rightarrow> Diverge
                | Ok _ \<Rightarrow> recover_loop base cap (pos + record_len)
                             (if status = BSON_RECORD_LIVE then live + 1 else live) (records + 1)))"
  by pat_completeness auto
termination
  by (relation "measure (\<lambda>(base, cap, pos, live, records). cap - pos)") auto

declare recover_loop.simps [simp del]

definition bson_storage_recover :: "unit io" where
  "bson_storage_recover f =
     io_bind (io_load (\<lambda>base. recover_loop base (mm_size f) BSON_STORAGE_HEADER_LEN 0 0))
       (\<lambda>(pos, live, records). io_store (\<lambda>m.
          rbind (write_u64 m 16 pos) (\<lambda>m.
          rbind (write_u64 m 24 live) (\<lambda>m.
          write_u64 m 32 records)))) f"

definition storage_init_header :: "byte list \<Rightarrow> byte list result" where
  "storage_init_header base =
     rbind (poke (replicate (length base) 0) 0 BSON_STORAGE_MAGIC) (\<lambda>m.
     rbind (write_u16 m 4 BSON_STORAGE_VERSION) (\<lambda>m.
     rbind (write_u16 m 6 0) (\<lambda>m.
     rbind (write_u32 m 8 BSON_STORAGE_HEADER_LEN) (\<lambda>m.
     rbind (write_u64 m 16 BSON_STORAGE_HEADER_LEN) (\<lambda>m.
     rbind (write_u64 m 24 0) (\<lambda>m.
     rbind (write_u64 m 32 0) (\<lambda>m.
     write_u32 m 40 0)))))))"

text \<open>The last step of opening for writing: set the dirty flag and flush.\<close>

definition storage_set_flags :: "(nat \<Rightarrow> nat) \<Rightarrow> unit io" where
  "storage_set_flags g = io_store (\<lambda>m. rbind (read_u16 m 6) (\<lambda>flags. write_u16 m 6 (g flags)))"

definition storage_mark_dirty :: "os_calls \<Rightarrow> bson_mmap_mode \<Rightarrow> unit io" where
  "storage_mark_dirty os mode =
     (if mode = BSON_MMAP_READ_WRITE
      then io_bind (storage_set_flags (\<lambda>flags. flags OR BSON_STORAGE_FLAG_DIRTY))
             (\<lambda>_. bson_mmap_flush os)
      else io_return ())"

definition bson_storage_open_header :: "os_calls \<Rightarrow> bson_mmap_mode \<Rightarrow> unit io" where
  "bson_storage_open_header os mode f =
     (let len = mm_size f in
      if len = 0 then
        if mode \<noteq> BSON_MMAP_READ_WRITE then io_fail BSON_ERR_INVALID_FILE_HEADER f
        else io_bind (bson_mmap_resize os BSON_STORAGE_INITIAL_CAPACITY) (\<lambda>_.
             io_bind (io_store storage_init_header) (\<lambda>_.
             storage_mark_dirty os mode)) f
      else if len < BSON_STORAGE_HEADER_LEN then io_fail BSON_ERR_INVALID_FILE_HEADER f
      else
        io_bind (io_load (\<lambda>base. peek base 0 4)) (\<lambda>magic.
        if magic \<noteq> BSON_STORAGE_MAGIC then io_fail BSON_ERR_INVALID_FILE_HEADER
        else io_bind (io_load (\<lambda>base. read_u16 base 4)) (\<lambda>version.
        if version \<noteq> BSON_STORAGE_VERSION then io_fail BSON_ERR_INVALID_FILE_HEADER
        else io_bind (io_load (\<lambda>base. read_u16 base 6)) (\<lambda>flags.
        if flags AND BSON_STORAGE_FLAG_DIRTY \<noteq> 0 \<and> mode = BSON_MMAP_READ_WRITE
        then io_bind bson_storage_recover (\<lambda>_. storage_mark_dirty os mode)
        else storage_mark_dirty os mode))) f)"

definition bson_storage_mark_clean :: "os_calls \<Rightarrow> unit io" where
  "bson_storage_mark_clean os f =
     (if \<not> mm_base f then io_return () f
      else io_bind (storage_set_flags (\<lambda>flags. flags AND 0xFFFE)) (\<lambda>_. bson_mmap_flush os) f)"

text \<open>
  The doubling loop of append works on a 64-bit \<^verbatim>\<open>size_t\<close>. After 64 doublings the value is 0, and
  stays 0: with the fuel 64 spent, the loop of the code does not end.
\<close>

fun double_until :: "nat \<Rightarrow> nat \<Rightarrow> nat \<Rightarrow> nat result" where
  "double_until fuel new_cap needed =
     (if new_cap < needed then
        case fuel of 0 \<Rightarrow> Diverge | Suc fuel' \<Rightarrow> double_until fuel' (size_mul new_cap 2) needed
      else Ok new_cap)"

declare double_until.simps [simp del]

definition storage_ensure :: "os_calls \<Rightarrow> nat \<Rightarrow> unit io" where
  "storage_ensure os needed f =
     (let cap = mm_size f in
      if needed > cap then
        case double_until 64 (if cap = 0 then BSON_STORAGE_INITIAL_CAPACITY else cap) needed of
          Ok c \<Rightarrow>
            let new_cap = size_mul (size_add c (BSON_STORAGE_PAGE_SIZE - 1) div BSON_STORAGE_PAGE_SIZE)
                            BSON_STORAGE_PAGE_SIZE in
            bson_mmap_resize os new_cap f
        | Err e \<Rightarrow> (Err e, f)
        | Fault \<Rightarrow> (Fault, f)
        | Diverge \<Rightarrow> (Diverge, f)
      else io_return () f)"

definition storage_put_record :: "nat \<Rightarrow> byte list \<Rightarrow> byte list \<Rightarrow> byte list result" where
  "storage_put_record data_end doc m =
     rbind (poke m data_end [BSON_RECORD_LIVE]) (\<lambda>m.
     rbind (poke m (size_add data_end 1) doc) (\<lambda>m.
     rbind (write_u64 m 16 (size_add (size_add data_end 1) (length doc))) (\<lambda>m.
     rbind (read_u64 m 24) (\<lambda>live.
     rbind (write_u64 m 24 (size_add live 1)) (\<lambda>m.
     rbind (read_u64 m 32) (\<lambda>records.
     write_u64 m 32 (size_add records 1)))))))"

definition bson_storage_append :: "os_calls \<Rightarrow> byte list \<Rightarrow> nat io" where
  "bson_storage_append os doc =
     io_bind bson_storage_data_end (\<lambda>data_end.
     io_bind (storage_ensure os (size_add (size_add data_end 1) (length doc))) (\<lambda>_.
     io_bind (io_store (storage_put_record data_end doc)) (\<lambda>_.
     io_return data_end)))"

definition bson_storage_tombstone :: "nat \<Rightarrow> unit io" where
  "bson_storage_tombstone record_off =
     io_bind bson_storage_data_end (\<lambda>data_end.
     if record_off \<ge> data_end then io_fail BSON_ERR_RECORD_NOT_FOUND
     else io_bind (io_load (\<lambda>base. peek1 base record_off)) (\<lambda>status.
     if status = BSON_RECORD_TOMBSTONE then io_return ()
     else if status \<noteq> BSON_RECORD_LIVE then io_fail BSON_ERR_RECORD_NOT_FOUND
     else io_store (\<lambda>m.
       rbind (poke m record_off [BSON_RECORD_TOMBSTONE]) (\<lambda>m.
       rbind (read_u64 m 24) (\<lambda>live.
       if live > 0 then write_u64 m 24 (live - 1) else Ok m)))))"

definition bson_storage_read :: "nat \<Rightarrow> (byte \<times> nat \<times> nat) io" where
  "bson_storage_read record_off =
     io_bind bson_storage_data_end (\<lambda>data_end.
     if record_off \<ge> data_end then io_fail BSON_ERR_RECORD_NOT_FOUND
     else io_load (\<lambda>base.
       rbind (peek1 base record_off) (\<lambda>record_status.
       let doc_off = record_off + 1 in
       case bson_reader_read_i32 (bson_reader_init (drop doc_off base) (data_end - doc_off)) of
         Ok (doc_len, _) \<Rightarrow>
           if doc_len < int BSON_DOC_MIN_LEN then Err BSON_ERR_RECORD_NOT_FOUND
           else Ok (record_status, doc_off, nat doc_len)
       | Err _ \<Rightarrow> Err BSON_ERR_RECORD_NOT_FOUND
       | Fault \<Rightarrow> Fault
       | Diverge \<Rightarrow> Diverge)))"

section \<open>The doubling loop\<close>

lemma double_until_Ok:
  assumes "0 < c" "c < n" "n \<le> c * 2 ^ fuel" "n \<le> 2 ^ 62"
  shows "\<exists>d. double_until fuel c n = Ok d \<and> n \<le> d \<and> d < 2 * n"
  using assms
proof (induction fuel arbitrary: c)
  case (Suc fuel)
  have m: "size_mul c 2 = c * 2" using Suc.prems by (simp add: size_mul_def)
  show ?case
  proof (cases "c * 2 < n")
    case True
    with Suc.IH [of "c * 2"] Suc.prems m show ?thesis
      by (simp add: double_until.simps [of "Suc fuel"] mult.assoc mult.left_commute)
  next
    case False
    then show ?thesis
      using Suc.prems m by (simp add: double_until.simps [of "Suc fuel"] double_until.simps [of fuel])
  qed
qed auto

text \<open>64 rounds are enough: a positive size that can reach the request at all has done so.\<close>

lemma double_until_zero: "0 < n \<Longrightarrow> double_until fuel 0 n = Diverge"
  by (induction fuel) (simp_all add: double_until.simps [of _ 0] size_mul_def)

lemma double_until_fuel_step:
  assumes "fuel \<le> 64" "2 ^ (64 - fuel) dvd x" "x < 2 ^ 64"
  shows "double_until (fuel + j) x n = double_until fuel x n"
  using assms
proof (induction fuel arbitrary: x)
  case 0
  then have "x = 0" by (auto dest: dvd_imp_le)
  then show ?case
    by (cases "0 < n") (simp_all add: double_until_zero double_until.simps [of _ _ 0])
next
  case (Suc fuel)
  then have "64 - fuel = Suc (64 - Suc fuel)" by simp
  then have "2 ^ (64 - fuel) dvd x * 2" using Suc.prems(2) by (simp add: mult_dvd_mono mult.commute)
  moreover have "(2 ^ (64 - fuel) :: nat) dvd 2 ^ 64" by (rule le_imp_power_dvd) simp
  ultimately have "2 ^ (64 - fuel) dvd size_mul x 2" by (simp add: size_mul_def dvd_mod)
  moreover have "size_mul x 2 < 2 ^ 64" by (simp add: size_mul_def)
  ultimately have "double_until (fuel + j) (size_mul x 2) n = double_until fuel (size_mul x 2) n"
    using Suc.IH Suc.prems(1) by simp
  then show ?case
    by (simp add: double_until.simps [of "Suc fuel"] double_until.simps [of "Suc (fuel + j)"])
qed

lemma double_until_fuel: "c < 2 ^ 64 \<Longrightarrow> double_until (64 + j) c n = double_until 64 c n"
  by (rule double_until_fuel_step) simp_all

text \<open>A power of two never passes \<open>2 ^ 63\<close>.\<close>

lemma double_until_pow:
  assumes "2 ^ 63 < n" "k \<le> 63"
  shows "double_until fuel (2 ^ k) n = Diverge"
  using assms(2)
proof (induction fuel arbitrary: k)
  case (Suc fuel)
  have lt: "(2 :: nat) ^ k < n"
    using power_increasing [OF Suc.prems, of "2 :: nat"] assms(1) by linarith
  show ?case
  proof (cases "k = 63")
    case True
    then show ?thesis
      using assms(1) double_until_zero [of n fuel]
      by (simp add: double_until.simps [of "Suc fuel"] size_mul_def)
  next
    case False
    then have "(2 :: nat) ^ Suc k \<le> 2 ^ 63" using Suc.prems by (intro power_increasing) auto
    then have "size_mul (2 ^ k) 2 = 2 ^ Suc k" by (simp add: size_mul_def mult.commute)
    then show ?thesis
      using lt Suc.IH [of "Suc k"] Suc.prems False by (simp add: double_until.simps [of "Suc fuel"])
  qed
next
  case 0
  have "(2 :: nat) ^ k < n"
    using power_increasing [OF 0, of "2 :: nat"] assms(1) by linarith
  then show ?case by (simp add: double_until.simps [of 0])
qed

section \<open>Records\<close>

text \<open>
  A record is a status byte and a document that starts with its own length. The log is the list
  of its records; \<open>True\<close> marks a live one.
\<close>

type_synonym log_record = "bool \<times> byte list"

definition doc_framed :: "byte list \<Rightarrow> bool" where
  "doc_framed doc \<longleftrightarrow> BSON_DOC_MIN_LEN \<le> length doc \<and> length doc \<le> BSON_MAX_DOCUMENT_SIZE \<and>
     i32_of (take 4 doc) = int (length doc)"

fun record_bytes :: "log_record \<Rightarrow> byte list" where
  "record_bytes (live, doc) = (if live then BSON_RECORD_LIVE else BSON_RECORD_TOMBSTONE) # doc"

definition log_bytes :: "log_record list \<Rightarrow> byte list" where
  "log_bytes rs = concat (map record_bytes rs)"

definition live_of :: "log_record list \<Rightarrow> nat" where
  "live_of rs = length (filter fst rs)"

definition rec_off :: "log_record list \<Rightarrow> nat \<Rightarrow> nat" where
  "rec_off rs i = 64 + length (log_bytes (take i rs))"

lemma log_bytes_simps [simp]:
  "log_bytes [] = []" "log_bytes (r # rs) = record_bytes r @ log_bytes rs"
  "log_bytes (rs @ rs') = log_bytes rs @ log_bytes rs'"
  by (simp_all add: log_bytes_def)

lemma live_of_simps [simp]:
  "live_of [] = 0" "live_of (r # rs) = (if fst r then 1 else 0) + live_of rs"
  "live_of (rs @ rs') = live_of rs + live_of rs'"
  by (simp_all add: live_of_def)

lemma length_record_bytes [simp]: "length (record_bytes r) = Suc (length (snd r))"
  by (cases r) simp

text \<open>A mapped, writable file with a header.\<close>

definition log_mapped :: "bson_mmap_file \<Rightarrow> bool" where
  "log_mapped f \<longleftrightarrow> mmap_inv f \<and> mm_base f \<and> mm_mode f = BSON_MMAP_READ_WRITE \<and>
     64 \<le> length (mm_bytes f) \<and> length (mm_bytes f) < 2 ^ 63"

text \<open>The bytes of a file that holds the log \<open>rs\<close>.\<close>

definition log_image :: "byte list \<Rightarrow> log_record list \<Rightarrow> bool" where
  "log_image m rs \<longleftrightarrow>
     64 + length (log_bytes rs) \<le> length m \<and>
     slice m 0 4 = BSON_STORAGE_MAGIC \<and> field m 4 2 = BSON_STORAGE_VERSION \<and>
     field m 16 8 = 64 + length (log_bytes rs) \<and> field m 24 8 = live_of rs \<and>
     field m 32 8 = length rs \<and> slice m 64 (length (log_bytes rs)) = log_bytes rs \<and>
     (\<forall>r \<in> set rs. doc_framed (snd r))"

definition log_repr :: "bson_mmap_file \<Rightarrow> log_record list \<Rightarrow> bool" where
  "log_repr f rs \<longleftrightarrow> log_mapped f \<and> log_image (mm_bytes f) rs"

lemma log_mappedD:
  "log_mapped f \<Longrightarrow> mm_base f \<and> mmap_inv f \<and> mm_mode f = BSON_MMAP_READ_WRITE \<and>
     mm_size f = length (mm_bytes f)"
  by (auto simp: log_mapped_def mmap_inv_def)

lemma log_load [simp]: "log_mapped f \<Longrightarrow> io_load g f = (g (mm_bytes f), f)"
  by (simp add: io_load_mapped log_mapped_def)

lemma log_store [simp]:
  "log_mapped f \<Longrightarrow> g (mm_bytes f) = Ok m \<Longrightarrow> io_store g f = (Ok (), f\<lparr>mm_bytes := m\<rparr>)"
  by (simp add: io_store_mapped log_mapped_def)

lemma log_mapped_update [simp]:
  "log_mapped f \<Longrightarrow> length m = length (mm_bytes f) \<Longrightarrow> log_mapped (f\<lparr>mm_bytes := m\<rparr>)"
  by (auto simp: log_mapped_def mmap_inv_def)

lemma data_end_repr: "log_repr f rs \<Longrightarrow> bson_storage_data_end f = (Ok (64 + length (log_bytes rs)), f)"
  by (auto simp: log_repr_def log_image_def bson_storage_data_end_def log_mappedD read_u64_field)

lemma live_count_repr: "log_repr f rs \<Longrightarrow> bson_storage_live_count f = (Ok (live_of rs), f)"
  by (auto simp: log_repr_def log_image_def bson_storage_live_count_def log_mappedD read_u64_field)

lemma total_count_repr: "log_repr f rs \<Longrightarrow> bson_storage_total_count f = (Ok (length rs), f)"
  by (auto simp: log_repr_def log_image_def bson_storage_total_count_def log_mappedD read_u64_field)

lemma length_log_bytes_ge: "length rs \<le> length (log_bytes rs)"
  by (induction rs) auto

lemma live_of_le: "live_of rs \<le> length rs"
  by (simp add: live_of_def)

section \<open>Append\<close>

lemma log_image_grow:
  assumes "log_image m rs"
  shows "log_image (m @ zs) rs"
  using assms by (auto simp: log_image_def field_def slice_append1)

lemma put_record_image:
  assumes im: "log_image m rs" and doc: "doc_framed doc"
    and le: "64 + length (log_bytes rs) + 1 + length doc \<le> length m" and len: "length m < 2 ^ 63"
  obtains m' where "storage_put_record (64 + length (log_bytes rs)) doc m = Ok m'"
    "length m' = length m" "log_image m' (rs @ [(True, doc)])"
    "\<And>off n. off + n \<le> 16 \<Longrightarrow> slice m' off n = slice m off n"
proof -
  define e where "e = 64 + length (log_bytes rs)"
  define m1 where "m1 = put (put m e [BSON_RECORD_LIVE]) (e + 1) doc"
  define m' where "m' = put (put (put m1 16 (nat_le 8 (e + 1 + length doc))) 24 (nat_le 8 (live_of rs + 1)))
      32 (nat_le 8 (length rs + 1))"
  note i = im [unfolded log_image_def]
  have e: "64 \<le> e" "e + 1 + length doc \<le> length m" using le by (simp_all add: e_def)
  have l1: "length m1 = length m" using e by (simp add: m1_def)
  have l': "length m' = length m" using e l1 by (simp add: m'_def)
  have cnt: "length rs + 1 < 2 ^ 64" "live_of rs + 1 < 2 ^ 64"
    using length_log_bytes_ge [of rs] live_of_le [of rs] le len by simp_all
  have sz: "size_add e 1 = e + 1" "size_add (e + 1) (length doc) = e + 1 + length doc"
    "size_add (live_of rs) 1 = live_of rs + 1" "size_add (length rs) 1 = length rs + 1"
    using e(2) len cnt by simp_all
  have "storage_put_record e doc m = Ok m'"
    using e i l1 unfolding storage_put_record_def m'_def m1_def
    by (simp add: write_put sz read_u64_field del: One_nat_def)
  moreover have "slice m' off n = slice m off n" if "off + n \<le> 16" for off n
    using that e l1 by (simp add: m'_def m1_def)
  moreover have "log_image m' (rs @ [(True, doc)])"
  proof -
    have "slice m' 64 (length (log_bytes rs) + (1 + length doc)) = log_bytes rs @ BSON_RECORD_LIVE # doc"
      using e i l1 unfolding slice_split m'_def m1_def by (simp add: e_def [symmetric])
    then show ?thesis
      unfolding log_image_def using i e l1 doc cnt len by (simp add: m'_def m1_def l' e_def field_def)
  qed
  ultimately show thesis using that l' by (simp add: e_def)
qed

lemma page_round:
  assumes "c \<le> 2 ^ 62"
  defines "r \<equiv> size_mul (size_add c (BSON_STORAGE_PAGE_SIZE - 1) div BSON_STORAGE_PAGE_SIZE) BSON_STORAGE_PAGE_SIZE"
  shows "c \<le> r" "r < 2 ^ 63"
proof -
  have "r = (c + 4095) div 4096 * 4096"
    using assms by (simp add: r_def BSON_STORAGE_PAGE_SIZE_def size_mul_def)
  moreover have "(c + 4095) div 4096 * 4096 + (c + 4095) mod 4096 = c + 4095" by simp
  moreover have "(c + 4095) mod 4096 \<le> 4095" by simp
  ultimately have "c \<le> r" "r \<le> c + 4095" by linarith+
  with assms(1) show "c \<le> r" "r < 2 ^ 63" by simp_all
qed

lemma storage_ensure_cases:
  assumes "log_repr f rs" "needed \<le> 2 ^ 61"
  obtains (ok) zs f' where "storage_ensure os needed f = (Ok (), f')" "log_repr f' rs"
      "needed \<le> length (mm_bytes f')" "mm_bytes f' = mm_bytes f @ zs"
  | (io) f' where "storage_ensure os needed f = (Err BSON_ERR_IO, f')" "\<not> os_all_succeed os"
proof (cases "needed > mm_size f")
  case False
  then show thesis
    using assms(1) by (intro ok [of f "[]"]) (simp_all add: storage_ensure_def log_repr_def log_mappedD)
next
  case True
  have f: "log_mapped f" "log_image (mm_bytes f) rs" using assms(1) by (simp_all add: log_repr_def)
  then have cap: "0 < mm_size f" "mm_base f" "mmap_inv f" "mm_mode f = BSON_MMAP_READ_WRITE"
    "mm_size f = length (mm_bytes f)"
    by (auto simp: log_mapped_def mmap_inv_def)
  have "mm_size f * 2 ^ 64 \<ge> needed" using cap(1) assms(2) by simp
  moreover have "needed \<le> 2 ^ 62" using assms(2) by simp
  ultimately obtain c where c: "double_until 64 (mm_size f) needed = Ok c" "needed \<le> c" "c < 2 * needed"
    using double_until_Ok [OF cap(1) True, of 64] by blast
  define r where "r = size_mul (size_add c (BSON_STORAGE_PAGE_SIZE - 1) div BSON_STORAGE_PAGE_SIZE) BSON_STORAGE_PAGE_SIZE"
  have r: "c \<le> r" "r < 2 ^ 63" unfolding r_def using c(3) assms(2) by (intro page_round; simp)+
  have eq: "storage_ensure os needed f = bson_mmap_resize os r f"
    using True cap c(1) by (simp add: storage_ensure_def r_def)
  show thesis
  proof (cases "ftruncate_ok os r \<and> os_mmap os r")
    case True
    then have ok': "bson_mmap_resize os r f = (Ok (), snd (bson_mmap_resize os r f))"
      using cap c r \<open>needed > mm_size f\<close>
      by (simp add: bson_mmap_resize_def map_current_fd_def Let_def)
    note g = mmap_resize_grow [OF cap(3) ok' _ _ cap(2)]
    let ?f = "f\<lparr>mm_base := True, mm_size := r, mm_bytes := mm_bytes f @ replicate (r - mm_size f) 0\<rparr>"
    have "bson_mmap_resize os r f = (Ok (), ?f)"
      using ok' g \<open>needed > mm_size f\<close> c r by simp
    moreover have "log_repr ?f rs"
      using f cap c r \<open>needed > mm_size f\<close>
      by (simp add: log_repr_def log_image_grow log_mapped_def mmap_inv_def)
    ultimately show thesis
      using eq c r cap \<open>needed > mm_size f\<close> by (intro ok [of ?f]) simp_all
  next
    case False
    then have "fst (bson_mmap_resize os r f) = Err BSON_ERR_IO"
      using cap c r \<open>needed > mm_size f\<close>
      by (auto simp: bson_mmap_resize_def map_current_fd_def Let_def)
    moreover have "\<not> os_all_succeed os"
      using False r(2) by (auto simp: os_all_succeed_def ftruncate_ok_def)
    ultimately show thesis using eq by (metis io prod.collapse)
  qed
qed

lemma append_cases:
  assumes repr: "log_repr f rs" and doc: "doc_framed doc"
    and small: "64 + length (log_bytes rs) + 1 + length doc \<le> 2 ^ 61"
  obtains (ok) f' where "bson_storage_append os doc f = (Ok (64 + length (log_bytes rs)), f')"
      "log_repr f' (rs @ [(True, doc)])"
      "\<And>off n. off + n \<le> 16 \<Longrightarrow> slice (mm_bytes f') off n = slice (mm_bytes f) off n"
  | (io) f' where "bson_storage_append os doc f = (Err BSON_ERR_IO, f')" "\<not> os_all_succeed os"
proof -
  define e where "e = 64 + length (log_bytes rs)"
  have sz: "size_add (size_add e 1) (length doc) = e + 1 + length doc" using small by (simp add: e_def)
  have eq: "bson_storage_append os doc f =
      io_bind (storage_ensure os (e + 1 + length doc)) (\<lambda>_.
      io_bind (io_store (storage_put_record e doc)) (\<lambda>_. io_return e)) f"
    using data_end_repr [OF repr] by (simp add: bson_storage_append_def sz del: One_nat_def flip: e_def)
  have "e + 1 + length doc \<le> 2 ^ 61" using small by (simp add: e_def)
  from repr this show thesis
  proof (cases rule: storage_ensure_cases [of f rs "e + 1 + length doc" os])
    case (ok zs f1)
    then have f1: "log_mapped f1" "log_image (mm_bytes f1) rs" by (simp_all add: log_repr_def)
    obtain m' where m': "storage_put_record e doc (mm_bytes f1) = Ok m'"
      "length m' = length (mm_bytes f1)" "log_image m' (rs @ [(True, doc)])"
      "\<And>off n. off + n \<le> 16 \<Longrightarrow> slice m' off n = slice (mm_bytes f1) off n"
      using put_record_image [OF f1(2) doc] ok(3) f1(1) unfolding e_def log_mapped_def by metis
    have "bson_storage_append os doc f = (Ok e, f1\<lparr>mm_bytes := m'\<rparr>)"
      using eq ok(1) f1 m' by simp
    moreover have "log_repr (f1\<lparr>mm_bytes := m'\<rparr>) (rs @ [(True, doc)])"
      using f1 m' by (simp add: log_repr_def)
    moreover have "slice m' off n = slice (mm_bytes f) off n" if "off + n \<le> 16" for off n
      using that m'(4) ok(4) repr by (simp add: slice_append1 log_repr_def log_image_def)
    ultimately show thesis using that(1) by (simp add: e_def)
  next
    case (io f1)
    then show thesis using that(2) eq by simp
  qed
qed

section \<open>Tombstone and read\<close>

text \<open>A record of the log, found at its offset.\<close>

lemma log_split:
  assumes "i < length rs"
  shows "rs = take i rs @ rs ! i # drop (Suc i) rs"
  using assms by (rule id_take_nth_drop)

lemma log_at:
  assumes im: "log_image m rs" and i: "i < length rs"
  shows "rec_off rs i + 1 + length (snd (rs ! i)) \<le> 64 + length (log_bytes rs)"
    "slice m (rec_off rs i) (1 + length (snd (rs ! i))) = record_bytes (rs ! i)"
    "doc_framed (snd (rs ! i))"
proof -
  let ?a = "log_bytes (take i rs)" and ?r = "record_bytes (rs ! i)" and ?c = "log_bytes (drop (Suc i) rs)"
  have b: "log_bytes rs = ?a @ ?r @ ?c" using arg_cong [OF log_split [OF i], of log_bytes] by simp
  then have l: "length (log_bytes rs) = length ?a + ((1 + length (snd (rs ! i))) + length ?c)" by simp
  show "rec_off rs i + 1 + length (snd (rs ! i)) \<le> 64 + length (log_bytes rs)"
    using l by (simp add: rec_off_def)
  have "slice m 64 (length (log_bytes rs)) = ?a @ ?r @ ?c" using im b by (simp add: log_image_def)
  moreover have "slice m 64 (length (log_bytes rs)) = slice m 64 (length ?a) @
      slice m (64 + length ?a) (1 + length (snd (rs ! i))) @
      slice m (64 + length ?a + (1 + length (snd (rs ! i)))) (length ?c)"
    unfolding l slice_split by simp
  moreover have "length (slice m 64 (length ?a)) = length ?a"
    "length (slice m (64 + length ?a) (1 + length (snd (rs ! i)))) = length ?r"
    using im l by (simp_all add: log_image_def)
  ultimately show "slice m (rec_off rs i) (1 + length (snd (rs ! i))) = ?r"
    unfolding rec_off_def by (metis append_eq_append_conv)
  show "doc_framed (snd (rs ! i))" using im i by (simp add: log_image_def)
qed

lemma log_at_bytes:
  assumes im: "log_image m rs" and i: "i < length rs"
  shows "m ! rec_off rs i = (if fst (rs ! i) then BSON_RECORD_LIVE else BSON_RECORD_TOMBSTONE)"
    "slice m (rec_off rs i + 1) (length (snd (rs ! i))) = snd (rs ! i)"
proof -
  note a = log_at [OF im i]
  have le: "rec_off rs i + (1 + length (snd (rs ! i))) \<le> length m"
    using a(1) im by (simp add: log_image_def)
  have "slice m (rec_off rs i) (1 + length (snd (rs ! i))) =
      slice m (rec_off rs i) 1 @ slice m (rec_off rs i + 1) (length (snd (rs ! i)))"
    by (rule slice_split)
  moreover have "slice m (rec_off rs i) 1 = [m ! rec_off rs i]"
    using le by (simp add: slice_def take_Suc_conv_app_nth)
  ultimately show "m ! rec_off rs i = (if fst (rs ! i) then BSON_RECORD_LIVE else BSON_RECORD_TOMBSTONE)"
    "slice m (rec_off rs i + 1) (length (snd (rs ! i))) = snd (rs ! i)"
    using a(2) by (cases "rs ! i"; simp)+
qed

lemma doc_prefix:
  assumes "slice m p (length d) = d" "doc_framed d"
  shows "i32_of (take 4 (drop p m)) = int (length d)"
proof -
  have "take 4 (drop p m) = take 4 (slice m p (length d))"
    using assms(2) by (simp add: slice_def doc_framed_def BSON_DOC_MIN_LEN_def min_def)
  then show ?thesis using assms by (simp add: doc_framed_def)
qed

text \<open>Reading the length prefix of a document at \<open>p\<close> through a reader that ends at \<open>stop\<close>.\<close>

lemma read_prefix:
  assumes "slice m p (length d) = d" "doc_framed d" "p + length d \<le> stop" "stop \<le> length m"
  shows "\<exists>r. bson_reader_read_i32 (bson_reader_init (drop p m) (stop - p)) = Ok (int (length d), r)"
proof -
  have "5 \<le> length d" using assms(2) by (simp add: doc_framed_def BSON_DOC_MIN_LEN_def)
  moreover have "reader_inv (bson_reader_init (drop p m) (stop - p))" using assms by simp
  ultimately show ?thesis
    using assms doc_prefix [OF assms(1,2)] by (simp add: read_i32_eq bson_reader_init_def)
qed

lemma read_repr:
  assumes repr: "log_repr f rs" and i: "i < length rs"
  shows "bson_storage_read (rec_off rs i) f =
    (Ok (if fst (rs ! i) then BSON_RECORD_LIVE else BSON_RECORD_TOMBSTONE,
         rec_off rs i + 1, length (snd (rs ! i))), f)"
proof -
  define m where "m = mm_bytes f"
  define d where "d = snd (rs ! i)"
  define e where "e = 64 + length (log_bytes rs)"
  have f: "log_mapped f" and im: "log_image m rs" using repr by (simp_all add: log_repr_def m_def)
  have d: "doc_framed d" "slice m (rec_off rs i + 1) (length d) = d" "rec_off rs i + 1 + length d \<le> e"
    using log_at [OF im i] log_at_bytes [OF im i] by (simp_all add: d_def e_def)
  have e: "e \<le> length m" using im by (simp add: log_image_def e_def)
  obtain r where r: "bson_reader_read_i32 (bson_reader_init (drop (rec_off rs i + 1) m) (e - (rec_off rs i + 1)))
      = Ok (int (length d), r)"
    using read_prefix [OF d(2,1) d(3) e] by blast
  have "5 \<le> length d" using d(1) by (simp add: doc_framed_def BSON_DOC_MIN_LEN_def)
  then show ?thesis
    using f d(3) e r log_at_bytes(1) [OF im i] data_end_repr [OF repr]
    by (simp add: bson_storage_read_def peek1_def BSON_DOC_MIN_LEN_def flip: m_def d_def e_def)
qed

lemma read_beyond:
  "log_repr f rs \<Longrightarrow> 64 + length (log_bytes rs) \<le> off \<Longrightarrow>
     bson_storage_read off f = (Err BSON_ERR_RECORD_NOT_FOUND, f)"
  using data_end_repr [of f rs] by (simp add: bson_storage_read_def)

lemma tombstone_beyond:
  "log_repr f rs \<Longrightarrow> 64 + length (log_bytes rs) \<le> off \<Longrightarrow>
     bson_storage_tombstone off f = (Err BSON_ERR_RECORD_NOT_FOUND, f)"
  using data_end_repr [of f rs] by (simp add: bson_storage_tombstone_def)

lemma live_of_update:
  assumes "i < length rs" "fst (rs ! i)"
  shows "live_of (rs[i := (False, d)]) = live_of rs - 1" "0 < live_of rs"
proof -
  have "live_of rs = live_of (take i rs) + (1 + live_of (drop (Suc i) rs))"
    using assms arg_cong [OF log_split [OF assms(1)], of live_of] by simp
  then show "live_of (rs[i := (False, d)]) = live_of rs - 1" "0 < live_of rs"
    using assms(1) by (simp_all add: upd_conv_take_nth_drop)
qed

lemma tombstone_image:
  assumes im: "log_image m rs" and i: "i < length rs" and live: "fst (rs ! i)"
  defines "m' \<equiv> put (put m (rec_off rs i) [BSON_RECORD_TOMBSTONE]) 24 (nat_le 8 (live_of rs - 1))"
  shows "log_image m' (rs[i := (False, snd (rs ! i))])" "length m' = length m"
proof -
  let ?rs = "rs[i := (False, snd (rs ! i))]"
  let ?a = "log_bytes (take i rs)" and ?d = "snd (rs ! i)" and ?c = "log_bytes (drop (Suc i) rs)"
  note im' = im [unfolded log_image_def]
  have b: "log_bytes rs = ?a @ (BSON_RECORD_LIVE # ?d) @ ?c"
    using arg_cong [OF log_split [OF i], of log_bytes] live by (cases "rs ! i") simp
  have b': "log_bytes ?rs = ?a @ (BSON_RECORD_TOMBSTONE # ?d) @ ?c"
    using i by (simp add: upd_conv_take_nth_drop)
  have off: "64 \<le> rec_off rs i" "rec_off rs i + 1 \<le> 64 + length (log_bytes rs)"
    "rec_off rs i - 64 = length ?a"
    using b by (simp_all add: rec_off_def)
  have le: "64 + length (log_bytes rs) \<le> length m" using im' by simp
  show l: "length m' = length m" using off le by (simp add: m'_def)
  have "slice m' 64 (length (log_bytes rs)) = put (log_bytes rs) (length ?a) [BSON_RECORD_TOMBSTONE]"
    using off le im' by (simp add: m'_def put_slice_before)
  also have "\<dots> = log_bytes ?rs" unfolding b b' by (simp add: put_def)
  finally have "slice m' 64 (length (log_bytes rs)) = log_bytes ?rs" .
  moreover have "length (log_bytes ?rs) = length (log_bytes rs)" unfolding b b' by simp
  moreover have "\<forall>r \<in> set ?rs. doc_framed (snd r)"
    using im' log_at(3) [OF im i] by (auto dest!: set_update_subset_insert [THEN subsetD])
  moreover have "live_of rs < 256 ^ 8" using field_bound [of 24 8 m] im' le by simp
  ultimately show "log_image m' ?rs"
    unfolding log_image_def using im' off le l live_of_update [OF i live]
    by (simp add: m'_def)
qed

lemma tombstone_repr:
  assumes repr: "log_repr f rs" and i: "i < length rs"
  obtains f' where "bson_storage_tombstone (rec_off rs i) f = (Ok (), f')"
    "log_repr f' (rs[i := (False, snd (rs ! i))])"
proof -
  define m where "m = mm_bytes f"
  have f: "log_mapped f" and im: "log_image m rs" using repr by (simp_all add: log_repr_def m_def)
  have le: "rec_off rs i + 1 \<le> 64 + length (log_bytes rs)" using log_at(1) [OF im i] by simp
  have len: "64 + length (log_bytes rs) \<le> length m" using im by (simp add: log_image_def)
  note eq = data_end_repr [OF repr] log_at_bytes(1) [OF im i]
  show thesis
  proof (cases "fst (rs ! i)")
    case False
    then have "rs[i := (False, snd (rs ! i))] = rs" by (metis list_update_id prod.collapse)
    moreover have "bson_storage_tombstone (rec_off rs i) f = (Ok (), f)"
      using f le len eq False by (simp add: bson_storage_tombstone_def peek1_def flip: m_def)
    ultimately show thesis using that repr by simp
  next
    case True
    let ?m' = "put (put m (rec_off rs i) [BSON_RECORD_TOMBSTONE]) 24 (nat_le 8 (live_of rs - 1))"
    have off: "64 \<le> rec_off rs i" by (simp add: rec_off_def)
    have "field m 24 8 = live_of rs" using im by (simp add: log_image_def)
    then have "rbind (poke m (rec_off rs i) [BSON_RECORD_TOMBSTONE]) (\<lambda>m.
       rbind (read_u64 m 24) (\<lambda>live.
       if live > 0 then write_u64 m 24 (live - 1) else Ok m)) = Ok ?m'"
      using le len off live_of_update(2) [OF i True] by (simp add: write_put read_u64_field)
    then have "bson_storage_tombstone (rec_off rs i) f = (Ok (), f\<lparr>mm_bytes := ?m'\<rparr>)"
      using f le len eq True
      by (simp add: bson_storage_tombstone_def peek1_def BSON_RECORD_LIVE_def BSON_RECORD_TOMBSTONE_def
          flip: m_def)
    moreover have "log_repr (f\<lparr>mm_bytes := ?m'\<rparr>) (rs[i := (False, snd (rs ! i))])"
      using f tombstone_image [OF im i True] by (simp add: log_repr_def m_def)
    ultimately show thesis by (rule that)
  qed
qed

section \<open>Flags: opening and closing\<close>

lemma log_image_flags:
  assumes "log_image m rs"
  shows "log_image (put m 6 (nat_le 2 v)) rs"
  using assms by (auto simp: log_image_def field_def)

lemma set_flags_repr:
  assumes "log_repr f rs"
  shows "storage_set_flags g f =
      (Ok (), f\<lparr>mm_bytes := put (mm_bytes f) 6 (nat_le 2 (g (field (mm_bytes f) 6 2)))\<rparr>)"
    "log_repr (f\<lparr>mm_bytes := put (mm_bytes f) 6 (nat_le 2 v)\<rparr>) rs"
  using assms
  by (simp_all add: storage_set_flags_def log_repr_def log_image_flags write_put read_u16_field log_image_def [of _ rs])

section \<open>Recovery\<close>

definition valid_doc :: "byte list \<Rightarrow> bool" where
  "valid_doc d \<longleftrightarrow> bson_validate_document d (length d) = Ok ()"

lemma validate_slice:
  "p + n \<le> length m \<Longrightarrow> bson_validate_document (drop p m) n = Ok () \<longleftrightarrow> valid_doc (slice m p n)"
  by (simp add: valid_doc_def validate_document_iff slice_def)

lemma validate_document_safe: "len \<le> length buf \<Longrightarrow> safe (bson_validate_document buf len)"
  by (auto simp: bson_validate_document_def intro!: safe_rbind validate_safe(1))

lemma valid_doc_framed: "valid_doc d \<Longrightarrow> doc_framed d"
proof -
  assume "valid_doc d"
  then obtain es where es: "wf_doc es" "d = enc_doc es"
    by (auto simp: valid_doc_def validate_document_iff)
  then have "i32_of (take 4 d) = int (length d)"
    using enc_doc_prefix [of d 0 es] by (simp add: seg_def)
  then show ?thesis using es by (simp add: doc_framed_def wf_doc_def BSON_DOC_MIN_LEN_def)
qed

text \<open>A valid record lies at \<open>p\<close>, before \<open>cap\<close>.\<close>

definition record_at :: "byte list \<Rightarrow> nat \<Rightarrow> nat \<Rightarrow> log_record \<Rightarrow> bool" where
  "record_at m cap p r \<longleftrightarrow> valid_doc (snd r) \<and> p + 1 + length (snd r) \<le> cap \<and>
     slice m p (1 + length (snd r)) = record_bytes r"

lemma slice_1: "p < length m \<Longrightarrow> slice m p 1 = [m ! p]"
  by (simp add: slice_def take_Suc_conv_app_nth)

lemma record_at_iff:
  assumes "cap \<le> length m"
  shows "record_at m cap p r \<longleftrightarrow> valid_doc (snd r) \<and> p + 1 + length (snd r) \<le> cap \<and>
     m ! p = (if fst r then BSON_RECORD_LIVE else BSON_RECORD_TOMBSTONE) \<and>
     slice m (p + 1) (length (snd r)) = snd r"
  using assms unfolding record_at_def slice_split
  by (cases r) (auto simp: slice_1 [simplified])

lemma recover_step:
  assumes "record_at m cap p r" "cap \<le> length m"
  shows "recover_loop m cap p live n =
    recover_loop m cap (p + 1 + length (snd r)) (if fst r then live + 1 else live) (n + 1)"
proof -
  define d where "d = snd r"
  have r: "valid_doc d" "p + 1 + length d \<le> cap" "slice m (p + 1) (length d) = d"
    "m ! p = (if fst r then BSON_RECORD_LIVE else BSON_RECORD_TOMBSTONE)"
    using assms by (simp_all add: record_at_iff d_def)
  have fr: "doc_framed d" by (rule valid_doc_framed) (rule r)
  then have d: "5 \<le> length d" "length d \<le> BSON_MAX_DOCUMENT_SIZE"
    by (simp_all add: doc_framed_def BSON_DOC_MIN_LEN_def)
  obtain rd where rd: "bson_reader_read_i32 (bson_reader_init (drop (p + 1) m) (cap - (p + 1)))
      = Ok (int (length d), rd)"
    using read_prefix [OF r(3) fr r(2) assms(2)] by blast
  have "bson_validate_document (drop (p + 1) m) (length d) = Ok ()"
    using validate_slice [of "p + 1" "length d" m] r assms(2) by simp
  then show ?thesis
    using r d rd assms(2)
    by (subst recover_loop.simps)
      (simp add: peek1_def BSON_DOC_MIN_LEN_def BSON_RECORD_LIVE_def BSON_RECORD_TOMBSTONE_def
        flip: d_def)
qed

lemma recover_stop:
  assumes "\<nexists>r. record_at m cap p r" "cap \<le> length m"
  shows "recover_loop m cap p live n = Ok (p, live, n)"
proof (cases "p < cap \<and> (m ! p = BSON_RECORD_LIVE \<or> m ! p = BSON_RECORD_TOMBSTONE) \<and> p + 1 + 5 \<le> cap")
  case False
  then show ?thesis
    using assms(2)
    by (subst recover_loop.simps) (auto simp: peek1_def BSON_DOC_MIN_LEN_def)
next
  case True
  define v where "v = i32_of (take 4 (drop (p + 1) m))"
  have rd: "\<exists>r. bson_reader_read_i32 (bson_reader_init (drop (p + 1) m) (cap - (p + 1))) = Ok (v, r)"
    using True assms(2) by (subst read_i32_eq) (auto simp: bson_reader_init_def v_def reader_inv_def)
  have val: "\<exists>e. bson_validate_document (drop (p + 1) m) (nat v) = Err e"
    if "5 \<le> v" "p + 1 + nat v \<le> cap"
  proof -
    have len: "length (slice m (p + 1) (nat v)) = nat v" using that assms(2) by simp
    have "\<not> valid_doc (slice m (p + 1) (nat v))"
      using assms True that len record_at_iff [OF assms(2), of p "(m ! p = BSON_RECORD_LIVE, slice m (p + 1) (nat v))"]
      by (auto simp: BSON_RECORD_LIVE_def BSON_RECORD_TOMBSTONE_def)
    moreover have "safe (bson_validate_document (drop (p + 1) m) (nat v))"
      using that assms(2) by (intro validate_document_safe) auto
    ultimately show ?thesis
      using validate_slice [of "p + 1" "nat v" m] that assms(2)
      by (cases "bson_validate_document (drop (p + 1) m) (nat v)") auto
  qed
  show ?thesis
    using True rd val assms(2)
    by (subst recover_loop.simps) (auto simp: peek1_def BSON_DOC_MIN_LEN_def Let_def)
qed

text \<open>The scan walks over any sequence of valid records and stops where none begins.\<close>

lemma recover_over:
  assumes "\<forall>r \<in> set rs. valid_doc (snd r)" "p + length (log_bytes rs) \<le> cap" "cap \<le> length m"
    "slice m p (length (log_bytes rs)) = log_bytes rs"
  shows "recover_loop m cap p live n =
    recover_loop m cap (p + length (log_bytes rs)) (live + live_of rs) (n + length rs)"
  using assms
proof (induction rs arbitrary: p live n)
  case (Cons r rs)
  let ?l = "1 + length (snd r)"
  have "slice m p ?l @ slice m (p + ?l) (length (log_bytes rs)) = record_bytes r @ log_bytes rs"
    using Cons.prems(4) slice_split [of m p ?l "length (log_bytes rs)"] by (simp add: add.commute)
  moreover have "length (slice m p ?l) = length (record_bytes r)" using Cons.prems by simp
  ultimately have s: "slice m p ?l = record_bytes r" "slice m (p + ?l) (length (log_bytes rs)) = log_bytes rs"
    by (metis append_eq_append_conv)+
  have "record_at m cap p r" using s(1) Cons.prems by (simp add: record_at_def)
  from recover_step [OF this Cons.prems(3)]
  have "recover_loop m cap p live n = recover_loop m cap (p + ?l) (if fst r then live + 1 else live) (n + 1)"
    by simp
  also have "\<dots> = recover_loop m cap (p + ?l + length (log_bytes rs))
      ((if fst r then live + 1 else live) + live_of rs) (n + 1 + length rs)"
    using Cons.prems s(2) by (intro Cons.IH) simp_all
  finally show ?case by (simp add: ac_simps)
qed simp

lemma recover_spec:
  assumes "p \<le> cap" "cap \<le> length m"
  obtains rs where "\<forall>r \<in> set rs. valid_doc (snd r)" "p + length (log_bytes rs) \<le> cap"
    "slice m p (length (log_bytes rs)) = log_bytes rs"
    "\<nexists>r. record_at m cap (p + length (log_bytes rs)) r"
proof -
  have "\<exists>rs. (\<forall>r \<in> set rs. valid_doc (snd r)) \<and> p + length (log_bytes rs) \<le> cap \<and>
    slice m p (length (log_bytes rs)) = log_bytes rs \<and>
    (\<nexists>r. record_at m cap (p + length (log_bytes rs)) r)"
    using assms(1)
  proof (induction "cap - p" arbitrary: p rule: less_induct)
    case less
    show ?case
    proof (cases "\<exists>r. record_at m cap p r")
      case False
      then show ?thesis using less.prems by (intro exI [of _ "[]"]) (simp add: slice_def)
    next
      case True
      then obtain r where r: "record_at m cap p r" by blast
      let ?q = "p + (1 + length (snd r))"
      have "cap - ?q < cap - p" "?q \<le> cap" using r by (auto simp: record_at_def)
      with less.hyps [of ?q] obtain rs where rs: "\<forall>r \<in> set rs. valid_doc (snd r)"
        "?q + length (log_bytes rs) \<le> cap" "slice m ?q (length (log_bytes rs)) = log_bytes rs"
        "\<nexists>r. record_at m cap (?q + length (log_bytes rs)) r" by auto
      have "slice m p ((1 + length (snd r)) + length (log_bytes rs)) = log_bytes (r # rs)"
        unfolding slice_split [of m p "1 + length (snd r)"] using rs(3) r by (simp add: record_at_def)
      then show ?thesis
        using rs r by (intro exI [of _ "r # rs"]) (simp add: record_at_def ac_simps)
    qed
  qed
  then show thesis using that by blast
qed

text \<open>A mapped file with a good magic and version, whatever else it holds.\<close>

definition log_header :: "byte list \<Rightarrow> bool" where
  "log_header m \<longleftrightarrow> slice m 0 4 = BSON_STORAGE_MAGIC \<and> field m 4 2 = BSON_STORAGE_VERSION"

lemma log_image_header: "log_image m rs \<Longrightarrow> log_header m"
  by (simp add: log_image_def log_header_def)

text \<open>The records a recovery finds: the longest run of valid records after the header.\<close>

definition recovered :: "byte list \<Rightarrow> log_record list \<Rightarrow> bool" where
  "recovered m rs \<longleftrightarrow> (\<forall>r \<in> set rs. valid_doc (snd r)) \<and> 64 + length (log_bytes rs) \<le> length m \<and>
     slice m 64 (length (log_bytes rs)) = log_bytes rs \<and>
     (\<nexists>r. record_at m (length m) (64 + length (log_bytes rs)) r)"

lemma recovered_exists: "64 \<le> length m \<Longrightarrow> \<exists>rs. recovered m rs"
  using recover_spec [of 64 "length m" m] unfolding recovered_def by (metis order_refl)

lemma recover_recovered:
  "recovered m rs \<Longrightarrow>
     recover_loop m (length m) 64 0 0 = Ok (64 + length (log_bytes rs), live_of rs, length rs)"
  using recover_over [of rs 64 "length m" m 0 0] recover_stop [of m "length m" "64 + length (log_bytes rs)"]
  by (simp add: recovered_def)

lemma recovered_unique: "recovered m rs \<Longrightarrow> recovered m rs' \<Longrightarrow> log_bytes rs = log_bytes rs' \<and> length rs = length rs'"
proof -
  assume rs: "recovered m rs" "recovered m rs'"
  then have "length (log_bytes rs) = length (log_bytes rs') \<and> length rs = length rs'"
    using recover_recovered [OF rs(1)] recover_recovered [OF rs(2)] by simp
  then show ?thesis using rs by (metis recovered_def)
qed

lemma recover_repr:
  assumes f: "log_mapped f" and h: "log_header (mm_bytes f)" and rs: "recovered (mm_bytes f) rs"
  obtains f' where "bson_storage_recover f = (Ok (), f')" "log_repr f' rs"
proof -
  define m where "m = mm_bytes f"
  define e where "e = 64 + length (log_bytes rs)"
  define m' where "m' = put (put (put m 16 (nat_le 8 e)) 24 (nat_le 8 (live_of rs))) 32 (nat_le 8 (length rs))"
  have len: "e \<le> length m" "64 \<le> length m" "length m < 2 ^ 63"
    using rs f by (simp_all add: recovered_def log_mapped_def m_def e_def)
  have cnt: "length rs < 2 ^ 64" "live_of rs < 2 ^ 64"
    using length_log_bytes_ge [of rs] live_of_le [of rs] len by (simp_all add: e_def)
  have l: "length m' = length m" using len by (simp add: m'_def)
  have "rbind (write_u64 m 16 e) (\<lambda>m. rbind (write_u64 m 24 (live_of rs)) (\<lambda>m.
      write_u64 m 32 (length rs))) = Ok m'"
    using len by (simp add: m'_def write_put)
  then have "bson_storage_recover f = (Ok (), f\<lparr>mm_bytes := m'\<rparr>)"
    using f recover_recovered [OF rs]
    by (simp add: bson_storage_recover_def log_mappedD BSON_STORAGE_HEADER_LEN_def flip: m_def e_def)
  moreover have "log_image m' rs"
    using rs h len cnt valid_doc_framed
    by (auto simp: log_image_def recovered_def log_header_def m'_def l field_def e_def simp flip: m_def)
  ultimately show thesis using that f l by (simp add: log_repr_def m_def)
qed

lemma mark_dirty_repr:
  assumes "log_repr f rs"
  shows "\<exists>f'. storage_mark_dirty os BSON_MMAP_READ_WRITE f =
      ((if os_msync os then Ok () else Err BSON_ERR_IO), f') \<and> log_repr f' rs \<and>
      field (mm_bytes f') 6 2 = (field (mm_bytes f) 6 2 OR 1) mod 2 ^ 16"
proof -
  let ?m = "put (mm_bytes f) 6 (nat_le 2 (field (mm_bytes f) 6 2 OR 1))"
  have f: "log_mapped f" "64 \<le> length (mm_bytes f)" using assms by (auto simp: log_repr_def log_mapped_def)
  have r: "log_repr (f\<lparr>mm_bytes := ?m\<rparr>) rs" by (rule set_flags_repr(2) [OF assms])
  have "storage_mark_dirty os BSON_MMAP_READ_WRITE f =
      ((if os_msync os then Ok () else Err BSON_ERR_IO), f\<lparr>mm_bytes := ?m\<rparr>)"
    using f r by (simp add: storage_mark_dirty_def set_flags_repr(1) [OF assms] bson_mmap_flush_def
        log_mappedD BSON_STORAGE_FLAG_DIRTY_def)
  then show ?thesis using r f by auto
qed

lemma nat_and_le: "(x :: nat) AND y \<le> y"
  using AND_upper2 [of "int y" "int x"] by (simp flip: of_nat_and_eq)

lemma mark_clean_repr:
  assumes "log_repr f rs"
  shows "\<exists>f'. bson_storage_mark_clean os f =
      ((if os_msync os then Ok () else Err BSON_ERR_IO), f') \<and> log_repr f' rs \<and>
      field (mm_bytes f') 6 2 = field (mm_bytes f) 6 2 AND 0xFFFE"
proof -
  let ?m = "put (mm_bytes f) 6 (nat_le 2 (field (mm_bytes f) 6 2 AND 0xFFFE))"
  have f: "log_mapped f" "64 \<le> length (mm_bytes f)" using assms by (auto simp: log_repr_def log_mapped_def)
  have r: "log_repr (f\<lparr>mm_bytes := ?m\<rparr>) rs" by (rule set_flags_repr(2) [OF assms])
  have "field (mm_bytes f) 6 2 AND 0xFFFE < 2 ^ 16"
    by (rule order_le_less_trans [OF nat_and_le]) simp
  moreover have "bson_storage_mark_clean os f =
      ((if os_msync os then Ok () else Err BSON_ERR_IO), f\<lparr>mm_bytes := ?m\<rparr>)"
    using f r by (simp add: bson_storage_mark_clean_def set_flags_repr(1) [OF assms] bson_mmap_flush_def log_mappedD)
  ultimately show ?thesis using r f by auto
qed

text \<open>Opening an existing file.\<close>

lemma open_existing_eq:
  assumes "log_mapped f" "log_header (mm_bytes f)"
  shows "bson_storage_open_header os BSON_MMAP_READ_WRITE f =
    (if field (mm_bytes f) 6 2 AND 1 \<noteq> 0
     then io_bind bson_storage_recover (\<lambda>_. storage_mark_dirty os BSON_MMAP_READ_WRITE)
     else storage_mark_dirty os BSON_MMAP_READ_WRITE) f"
proof -
  have "64 \<le> mm_size f" "64 \<le> length (mm_bytes f)"
    using assms(1) by (auto simp: log_mapped_def mmap_inv_def)
  then show ?thesis
    using assms
    by (auto simp: bson_storage_open_header_def Let_def BSON_STORAGE_HEADER_LEN_def peek_slice
        read_u16_field log_header_def BSON_STORAGE_FLAG_DIRTY_def simp del: peek_Ok)
qed

lemma open_clean_repr:
  assumes "log_repr f rs" "field (mm_bytes f) 6 2 AND 1 = 0"
  obtains f' where "bson_storage_open_header os BSON_MMAP_READ_WRITE f =
      ((if os_msync os then Ok () else Err BSON_ERR_IO), f')" "log_repr f' rs"
    "field (mm_bytes f') 6 2 = (field (mm_bytes f) 6 2 OR 1) mod 2 ^ 16"
  using mark_dirty_repr [OF assms(1), of os] open_existing_eq [of f os] assms log_image_header
  unfolding log_repr_def by auto

lemma open_dirty_repr:
  assumes "log_mapped f" "log_header (mm_bytes f)" "field (mm_bytes f) 6 2 AND 1 \<noteq> 0"
    "recovered (mm_bytes f) rs"
  obtains f' where "bson_storage_open_header os BSON_MMAP_READ_WRITE f =
      ((if os_msync os then Ok () else Err BSON_ERR_IO), f')" "log_repr f' rs"
proof -
  obtain f1 where "bson_storage_recover f = (Ok (), f1)" "log_repr f1 rs"
    using recover_repr [OF assms(1,2,4)] .
  with mark_dirty_repr [of f1 rs os] open_existing_eq [OF assms(1,2), of os] assms(3) that
  show thesis by auto
qed

text \<open>Creating: an empty file gets a header and an empty log.\<close>

lemma init_header_image:
  assumes "64 \<le> length base"
  obtains m where "storage_init_header base = Ok m" "length m = length base" "log_image m []"
    "field m 6 2 = 0"
proof -
  define z where "z = (replicate (length base) 0 :: byte list)"
  define m1 where "m1 = put (put (put (put z 0 BSON_STORAGE_MAGIC) 4 (nat_le 2 1)) 6 (nat_le 2 0)) 8 (nat_le 4 64)"
  define m where "m = put (put (put (put m1 16 (nat_le 8 64)) 24 (nat_le 8 0)) 32 (nat_le 8 0)) 40 (nat_le 4 0)"
  have mg: "length BSON_STORAGE_MAGIC = 4" by (simp add: BSON_STORAGE_MAGIC_def)
  have l1: "length m1 = length base" using assms mg by (simp add: m1_def z_def)
  have l: "length m = length base" using assms l1 by (simp add: m_def)
  have "storage_init_header base = Ok m"
    using assms mg l1 unfolding storage_init_header_def m_def m1_def
    by (simp add: write_put z_def BSON_STORAGE_VERSION_def BSON_STORAGE_HEADER_LEN_def)
  moreover have "log_image m []"
    using assms mg l1 l
    by (simp add: log_image_def m_def m1_def z_def field_def BSON_STORAGE_VERSION_def)
  moreover have "field m 6 2 = 0"
    using assms mg l1 by (simp add: m_def m1_def z_def field_def)
  ultimately show thesis using that l by blast
qed

lemma open_empty_repr:
  assumes "mmap_inv f" "mm_size f = 0" "mm_mode f = BSON_MMAP_READ_WRITE" "os_all_succeed os"
  obtains f' where "bson_storage_open_header os BSON_MMAP_READ_WRITE f = (Ok (), f')" "log_repr f' []"
    "field (mm_bytes f') 6 2 = 1"
proof -
  have nb: "\<not> mm_base f" using assms(1,2) by (auto simp: mmap_inv_def)
  define f1 where "f1 = f\<lparr>mm_base := True, mm_size := 4096, mm_bytes := set_file_size 4096 (mm_bytes f)\<rparr>"
  have "bson_mmap_resize os 4096 f = (Ok (), f1)"
    using assms nb
    by (simp add: bson_mmap_resize_def map_current_fd_def f1_def Let_def os_all_succeed_def ftruncate_ok_def)
  moreover have f1: "log_mapped f1" "length (mm_bytes f1) = 4096"
    using assms(3) by (simp_all add: log_mapped_def mmap_inv_def f1_def)
  obtain m where m: "storage_init_header (mm_bytes f1) = Ok m" "length m = 4096" "log_image m []"
    "field m 6 2 = 0"
    using init_header_image [of "mm_bytes f1"] f1(2) by auto
  have "log_repr (f1\<lparr>mm_bytes := m\<rparr>) []" using f1 m by (simp add: log_repr_def)
  moreover have "os_msync os" using assms(4) by (simp add: os_all_succeed_def)
  ultimately show thesis
    using that mark_dirty_repr [of "f1\<lparr>mm_bytes := m\<rparr>" "[]" os] f1 m assms(2)
    by (auto simp: bson_storage_open_header_def BSON_STORAGE_INITIAL_CAPACITY_def)
qed

end
