(* ===== verification/Bson_Scanner.thy ===== *)
theory Bson_Scanner
  imports Bson_Storage
begin

text \<open>
  The sequential scanner of src/c_engine/scanner.c over the live records of a collection data
  file. The scanner holds a snapshot of the mapping and of the data end.

  \<^verbatim>\<open>bson_scanner_next\<close> returns true with a record, or false at the end or on an error; the model
  returns \<open>Ok (Some (record_off, doc_off, doc_len), scanner)\<close>, \<open>Ok (None, scanner)\<close> or \<open>Err\<close>.
\<close>

section \<open>The code\<close>

record bson_scanner =
  sc_base :: "byte list"
  sc_data_end :: nat
  sc_pos :: nat

definition bson_scanner_open :: "byte list \<Rightarrow> nat \<Rightarrow> bson_scanner" where
  "bson_scanner_open base data_end =
     \<lparr>sc_base = base, sc_data_end = data_end, sc_pos = BSON_STORAGE_HEADER_LEN\<rparr>"

function bson_scanner_next :: "bson_scanner \<Rightarrow> ((nat \<times> nat \<times> nat) option \<times> bson_scanner) result" where
  "bson_scanner_next sc =
     (if sc_pos sc < sc_data_end sc then
        let record_off = sc_pos sc; doc_off = record_off + 1 in
        if doc_off > sc_data_end sc then Err BSON_ERR_TRUNCATED_BUFFER
        else rbind (peek1 (sc_base sc) record_off) (\<lambda>status.
          case bson_reader_read_i32
                 (bson_reader_init (drop doc_off (sc_base sc)) (sc_data_end sc - doc_off)) of
            Err _ \<Rightarrow> Err BSON_ERR_INVALID_LENGTH
          | Fault \<Rightarrow> Fault
          | Diverge \<Rightarrow> Diverge
          | Ok (doc_len, _) \<Rightarrow>
              if doc_len < int BSON_DOC_MIN_LEN then Err BSON_ERR_INVALID_LENGTH
              else let record_len = 1 + nat doc_len in
                if record_off + record_len > sc_data_end sc then Err BSON_ERR_TRUNCATED_BUFFER
                else let sc' = sc\<lparr>sc_pos := record_off + record_len\<rparr> in
                  if status = BSON_RECORD_LIVE
                  then Ok (Some (record_off, doc_off, nat doc_len), sc')
                  else bson_scanner_next sc')
      else Ok (None, sc))"
  by pat_completeness auto
termination
  by (relation "measure (\<lambda>sc. sc_data_end sc - sc_pos sc)") auto

declare bson_scanner_next.simps [simp del]

definition bson_scanner_close :: "bson_scanner \<Rightarrow> unit" where
  "bson_scanner_close sc = ()"

section \<open>Safety\<close>

lemma scanner_next_safe:
  "sc_data_end sc \<le> length (sc_base sc) \<Longrightarrow> safe (bson_scanner_next sc)"
proof (induction sc rule: bson_scanner_next.induct)
  case (1 sc)
  have rd: "sc_pos sc < sc_data_end sc \<Longrightarrow> safe (bson_reader_read_i32
      (bson_reader_init (drop (sc_pos sc + 1) (sc_base sc)) (sc_data_end sc - (sc_pos sc + 1))))"
    using 1(2) by (intro read_i32_safe) simp
  show ?case
  proof (cases "sc_pos sc < sc_data_end sc")
    case True
    with rd 1 show ?thesis
      by (subst bson_scanner_next.simps)
        (auto simp: Let_def peek1_def split: result.split)
  qed (simp add: bson_scanner_next.simps)
qed

section \<open>What the scanner returns\<close>

text \<open>The scanner stands before the records \<open>rs\<close>, the last ones of the log.\<close>

definition scanner_at :: "bson_scanner \<Rightarrow> log_record list \<Rightarrow> bool" where
  "scanner_at sc rs \<longleftrightarrow> sc_data_end sc \<le> length (sc_base sc) \<and>
     sc_pos sc + length (log_bytes rs) = sc_data_end sc \<and>
     slice (sc_base sc) (sc_pos sc) (length (log_bytes rs)) = log_bytes rs \<and>
     (\<forall>r \<in> set rs. doc_framed (snd r))"

lemma scanner_at_Nil: "scanner_at sc [] \<Longrightarrow> bson_scanner_next sc = Ok (None, sc)"
  by (simp add: scanner_at_def bson_scanner_next.simps)

lemma scanner_at_Cons:
  assumes "scanner_at sc (r # rs)"
  defines "sc' \<equiv> sc\<lparr>sc_pos := sc_pos sc + 1 + length (snd r)\<rparr>"
  shows "bson_scanner_next sc =
      (if fst r then Ok (Some (sc_pos sc, sc_pos sc + 1, length (snd r)), sc') else bson_scanner_next sc')"
    "scanner_at sc' rs"
    "slice (sc_base sc) (sc_pos sc + 1) (length (snd r)) = snd r"
proof -
  define m where "m = sc_base sc"
  define p where "p = sc_pos sc"
  define d where "d = snd r"
  have len: "sc_data_end sc = p + 1 + length d + length (log_bytes rs)" "sc_data_end sc \<le> length m"
    and all: "slice m p ((1 + length d) + length (log_bytes rs)) = record_bytes r @ log_bytes rs"
    and fr: "doc_framed d"
    using assms(1) by (simp_all add: scanner_at_def m_def p_def d_def)
  have s: "slice m p (1 + length d) = record_bytes r"
    "slice m (p + (1 + length d)) (length (log_bytes rs)) = log_bytes rs"
    using all len unfolding slice_split [of m p "1 + length d"]
    by (simp_all add: d_def append_eq_append_conv)
  then have b: "m ! p = (if fst r then BSON_RECORD_LIVE else BSON_RECORD_TOMBSTONE)"
    and d: "slice m (p + 1) (length d) = d"
    using len slice_1 [of p m] unfolding slice_split [of m p 1 "length d"]
    by (cases r; simp add: d_def)+
  show "slice (sc_base sc) (sc_pos sc + 1) (length (snd r)) = snd r" using d by (simp add: m_def p_def d_def)
  show "scanner_at sc' rs"
    using s len assms(1) by (simp add: scanner_at_def sc'_def m_def p_def d_def)
  obtain rd where "bson_reader_read_i32 (bson_reader_init (drop (p + 1) m) (sc_data_end sc - (p + 1)))
      = Ok (int (length d), rd)"
    using read_prefix [OF d fr _ len(2)] len by auto
  moreover have "5 \<le> length d" using fr by (simp add: doc_framed_def BSON_DOC_MIN_LEN_def)
  ultimately show "bson_scanner_next sc =
      (if fst r then Ok (Some (sc_pos sc, sc_pos sc + 1, length (snd r)), sc') else bson_scanner_next sc')"
    using len b
    by (subst bson_scanner_next.simps)
      (simp add: peek1_def BSON_DOC_MIN_LEN_def BSON_RECORD_LIVE_def BSON_RECORD_TOMBSTONE_def
        Let_def sc'_def flip: m_def p_def d_def)
qed

text \<open>The next live record of a list, with its distance, and what lies after it.\<close>

fun next_live :: "nat \<Rightarrow> log_record list \<Rightarrow> (nat \<times> byte list \<times> log_record list) option" where
  "next_live p [] = None"
| "next_live p ((live, d) # rs) = (if live then Some (p, d, rs) else next_live (p + 1 + length d) rs)"

lemma scanner_next_live:
  assumes "scanner_at sc rs"
  shows "case next_live (sc_pos sc) rs of
      None \<Rightarrow> \<exists>sc'. bson_scanner_next sc = Ok (None, sc')
    | Some (p, d, rs') \<Rightarrow> \<exists>sc'. bson_scanner_next sc = Ok (Some (p, p + 1, length d), sc') \<and>
        slice (sc_base sc) (p + 1) (length d) = d \<and> scanner_at sc' rs' \<and> sc_base sc' = sc_base sc"
  using assms
proof (induction rs arbitrary: sc)
  case Nil
  then show ?case by (simp add: scanner_at_Nil)
next
  case (Cons r rs)
  note c = scanner_at_Cons [OF Cons.prems]
  show ?case
  proof (cases "fst r")
    case True
    then show ?thesis using c by (cases r) auto
  next
    case False
    let ?sc = "sc\<lparr>sc_pos := sc_pos sc + 1 + length (snd r)\<rparr>"
    show ?thesis
      using Cons.IH [OF c(2)] c(1) False by (cases r) (auto split: option.splits)
  qed
qed

end
