(* ===== verification/Python_Api.thy ===== *)
theory Python_Api
  imports Bson_Prelude
begin

text \<open>
  What the bindings use of the C API of Python: exceptions, and the two ways in which a C function
  reports one. Failures of the Python allocator are not modelled.
\<close>

datatype py_error =
    ValueError | MemoryError | OSError | InvalidBSON | LookupError | DuplicateKeyError | RuntimeError
  | OverflowError | TypeError | UnicodeError | AttributeError
  | InvalidDocument | BSONNotImplementedError | DocumentTooLarge | InvalidUpdateDocument | IndexError | OperationFailure

text \<open>A function of the module returns an object, or NULL with the error indicator set.\<close>

datatype 'a py = PyOk 'a | PyRaise py_error | PyFault | PyDiverge

fun py_bind :: "'a py \<Rightarrow> ('a \<Rightarrow> 'b py) \<Rightarrow> 'b py" where
  "py_bind (PyOk x) f = f x"
| "py_bind (PyRaise e) f = PyRaise e"
| "py_bind PyFault f = PyFault"
| "py_bind PyDiverge f = PyDiverge"

lemma py_bind_PyOk: "py_bind m f = PyOk y \<longleftrightarrow> (\<exists>x. m = PyOk x \<and> f x = PyOk y)"
  by (cases m) simp_all

lemma py_bind_cong [fundef_cong]:
  "m = m' \<Longrightarrow> (\<And>x. m' = PyOk x \<Longrightarrow> f x = g x) \<Longrightarrow> py_bind m f = py_bind m' g"
  by (cases m') auto

text \<open>
  An internal function that returns a status may also leave the error indicator set
  (\<^verbatim>\<open>PyErr_Occurred\<close>), when a call into Python failed.
\<close>

type_synonym 'a capi = "'a result \<times> py_error option"

definition capi_ok :: "'a result \<Rightarrow> 'a capi" where
  "capi_ok r = (r, None)"

definition capi_fail :: "bson_status \<Rightarrow> 'a capi" where
  "capi_fail e = (Err e, None)"

definition capi_raised :: "bson_status \<Rightarrow> py_error \<Rightarrow> 'a capi" where
  "capi_raised e exc = (Err e, Some exc)"

definition capi_bind :: "'a capi \<Rightarrow> ('a \<Rightarrow> 'b capi) \<Rightarrow> 'b capi" where
  "capi_bind m f = (case m of
     (Ok x, _) \<Rightarrow> f x | (Err e, p) \<Rightarrow> (Err e, p) | (Fault, p) \<Rightarrow> (Fault, p) | (Diverge, p) \<Rightarrow> (Diverge, p))"

lemma fst_capi [simp]:
  "fst (capi_ok r) = r" "fst (capi_fail e) = Err e" "fst (capi_raised e exc) = Err e"
  "fst (capi_bind m f) = rbind (fst m) (\<lambda>x. fst (f x))"
  by (cases m; cases "fst m"; simp add: capi_ok_def capi_fail_def capi_raised_def capi_bind_def)+

lemma capi_bind_cong [fundef_cong]:
  "m = m' \<Longrightarrow> (\<And>x. fst m' = Ok x \<Longrightarrow> f x = g x) \<Longrightarrow> capi_bind m f = capi_bind m' g"
  by (cases m'; cases "fst m'") (auto simp: capi_bind_def)

end
