(* ===== verification/Collection_Handle.thy ===== *)
theory Collection_Handle
  imports Bson_Scanner Python_Api
begin

text \<open>
  The Python handle on a collection data file, \<^verbatim>\<open>CollectionHandleObject\<close> of
  src/python_bindings/_storage_core.c, and the contract its callers rely on: the locale
  \<open>record_store\<close>, interpreted on the handle's methods.

  An exception is \<open>PyRaise\<close>. A closed handle keeps what the file holds on disk, which is what
  the next open reads.
\<close>

section \<open>Results and exceptions\<close>

fun storage_error_to_python :: "bson_status \<Rightarrow> py_error" where
  "storage_error_to_python BSON_ERR_OUT_OF_MEMORY = MemoryError"
| "storage_error_to_python BSON_ERR_IO = OSError"
| "storage_error_to_python BSON_ERR_INVALID_FILE_HEADER = InvalidBSON"
| "storage_error_to_python BSON_ERR_RECORD_NOT_FOUND = LookupError"
| "storage_error_to_python BSON_ERR_READ_ONLY_VIOLATION = ValueError"
| "storage_error_to_python BSON_ERR_DUPLICATE_KEY = DuplicateKeyError"
| "storage_error_to_python BSON_ERR_INDEX_UNSUPPORTED = ValueError"
| "storage_error_to_python _ = RuntimeError"

fun to_py :: "'a result \<Rightarrow> 'a py" where
  "to_py (Ok x) = PyOk x"
| "to_py (Err e) = PyRaise (storage_error_to_python e)"
| "to_py Fault = PyFault"
| "to_py Diverge = PyDiverge"

section \<open>The handle and its methods\<close>

datatype collection_handle = OpenCollection bson_mmap_file | ClosedCollection "byte list"

text \<open>Run a storage operation on the file of an open handle (\<^verbatim>\<open>CHECK_OPEN\<close>).\<close>

definition on_collection :: "'a io \<Rightarrow> collection_handle \<Rightarrow> 'a py \<times> collection_handle" where
  "on_collection op h = (case h of
     ClosedCollection disk \<Rightarrow> (PyRaise ValueError, h)
   | OpenCollection f \<Rightarrow> (case op f of (r, f') \<Rightarrow> (to_py r, OpenCollection f')))"

definition CollectionHandle_close :: "os_calls \<Rightarrow> collection_handle \<Rightarrow> unit py \<times> collection_handle" where
  "CollectionHandle_close os h = (case h of
     ClosedCollection disk \<Rightarrow> (PyOk (), h)
   | OpenCollection f \<Rightarrow> (case bson_storage_mark_clean os f of
       (Ok _, f') \<Rightarrow> (PyOk (), ClosedCollection (bson_mmap_close f'))
     | (r, f') \<Rightarrow> (to_py r, OpenCollection f')))"

definition CollectionHandle_flush :: "os_calls \<Rightarrow> collection_handle \<Rightarrow> unit py \<times> collection_handle" where
  "CollectionHandle_flush os = on_collection (bson_mmap_flush os)"

definition CollectionHandle_append_record ::
    "os_calls \<Rightarrow> byte list \<Rightarrow> collection_handle \<Rightarrow> nat py \<times> collection_handle" where
  "CollectionHandle_append_record os doc = on_collection (bson_storage_append os doc)"

definition CollectionHandle_read_record ::
    "int \<Rightarrow> collection_handle \<Rightarrow> byte list option py \<times> collection_handle" where
  "CollectionHandle_read_record offset h =
     (case h of ClosedCollection disk \<Rightarrow> (PyRaise ValueError, h)
      | OpenCollection _ \<Rightarrow>
          if offset < 0 then (PyRaise ValueError, h)
          else on_collection
            (io_bind (bson_storage_read (nat offset)) (\<lambda>(status, doc_off, doc_len).
               if status \<noteq> BSON_RECORD_LIVE then io_return None
               else io_load (\<lambda>base. rbind (peek base doc_off doc_len) (\<lambda>doc. Ok (Some doc))))) h)"

definition CollectionHandle_tombstone_record ::
    "int \<Rightarrow> collection_handle \<Rightarrow> unit py \<times> collection_handle" where
  "CollectionHandle_tombstone_record offset h =
     (case h of ClosedCollection disk \<Rightarrow> (PyRaise ValueError, h)
      | OpenCollection _ \<Rightarrow>
          if offset < 0 then (PyRaise ValueError, h)
          else on_collection (bson_storage_tombstone (nat offset)) h)"

text \<open>
  The scanner over a NULL mapping has the data end 64 and reads nothing: the base is then the
  empty object.
\<close>

definition collection_base :: "byte list io" where
  "collection_base f = (Ok (case bson_mmap_data f of Some base \<Rightarrow> base | None \<Rightarrow> []), f)"

definition CollectionHandle_next_live_offset ::
    "int \<Rightarrow> collection_handle \<Rightarrow> nat option py \<times> collection_handle" where
  "CollectionHandle_next_live_offset prev h =
     (case h of ClosedCollection disk \<Rightarrow> (PyRaise ValueError, h)
      | OpenCollection _ \<Rightarrow>
          if prev < -1 then (PyRaise ValueError, h)
          else on_collection
            (io_bind collection_base (\<lambda>base.
             io_bind bson_storage_data_end (\<lambda>data_end.
             let scanner = bson_scanner_open base data_end in
             io_bind (if prev \<ge> 0
                      then io_bind (bson_storage_read (nat prev)) (\<lambda>(_, doc_off, doc_len).
                             io_return (scanner\<lparr>sc_pos := doc_off + doc_len\<rparr>))
                      else io_return scanner) (\<lambda>scanner f.
             (rbind (bson_scanner_next scanner) (\<lambda>(found, _).
                Ok (map_option fst found)), f))))) h)"

definition CollectionHandle_live_count :: "collection_handle \<Rightarrow> nat py \<times> collection_handle" where
  "CollectionHandle_live_count = on_collection bson_storage_live_count"

definition CollectionHandle_data_end :: "collection_handle \<Rightarrow> nat py \<times> collection_handle" where
  "CollectionHandle_data_end = on_collection bson_storage_data_end"

definition py_open_collection :: "os_calls \<Rightarrow> byte list \<Rightarrow> collection_handle py" where
  "py_open_collection os disk =
     (case bson_mmap_open os BSON_MMAP_READ_WRITE 0 disk of
        Ok f \<Rightarrow> (case bson_storage_open_header os BSON_MMAP_READ_WRITE f of
            (Ok _, f') \<Rightarrow> PyOk (OpenCollection f')
          | (r, f') \<Rightarrow> (case to_py r of PyRaise e \<Rightarrow> PyRaise e | PyDiverge \<Rightarrow> PyDiverge | _ \<Rightarrow> PyFault))
      | Err e \<Rightarrow> PyRaise (storage_error_to_python e)
      | Fault \<Rightarrow> PyFault
      | Diverge \<Rightarrow> PyDiverge)"

section \<open>The methods on a handle that holds a log\<close>

definition holds_log :: "collection_handle \<Rightarrow> log_record list \<Rightarrow> bool" where
  "holds_log h rs \<longleftrightarrow> (\<exists>f. h = OpenCollection f \<and> log_repr f rs)"

definition fits_log :: "log_record list \<Rightarrow> byte list \<Rightarrow> bool" where
  "fits_log rs doc \<longleftrightarrow> doc_framed doc \<and> 64 + length (log_bytes rs) + 1 + length doc \<le> 2 ^ 61"

definition first_live :: "log_record list \<Rightarrow> nat \<Rightarrow> nat option" where
  "first_live rs k = find (\<lambda>i. fst (rs ! i)) [k..<length rs]"

lemma rec_off_end: "rec_off rs (length rs) = 64 + length (log_bytes rs)"
  by (simp add: rec_off_def)

lemma rec_off_Suc: "i < length rs \<Longrightarrow> rec_off rs (Suc i) = rec_off rs i + 1 + length (snd (rs ! i))"
  by (simp add: rec_off_def take_Suc_conv_app_nth)

lemma rec_off_append: "i \<le> length rs \<Longrightarrow> rec_off (rs @ xs) i = rec_off rs i"
  by (simp add: rec_off_def)

lemma append_record_holds:
  assumes "holds_log h rs" "fits_log rs d"
  obtains (ok) h' where "CollectionHandle_append_record os d h = (PyOk (rec_off rs (length rs)), h')"
      "holds_log h' (rs @ [(True, d)])"
  | (io) h' where "CollectionHandle_append_record os d h = (PyRaise OSError, h')" "\<not> os_all_succeed os"
proof -
  obtain f where h: "h = OpenCollection f" "log_repr f rs" using assms(1) by (auto simp: holds_log_def)
  have d: "doc_framed d" "64 + length (log_bytes rs) + 1 + length d \<le> 2 ^ 61"
    using assms(2) by (simp_all add: fits_log_def)
  from append_cases [OF h(2) d, of os] show thesis
    by cases (use h that in \<open>auto simp: CollectionHandle_append_record_def on_collection_def holds_log_def rec_off_end\<close>)
qed

lemma read_record_holds:
  assumes "holds_log h rs" "i < length rs"
  shows "CollectionHandle_read_record (int (rec_off rs i)) h =
    (PyOk (if fst (rs ! i) then Some (snd (rs ! i)) else None), h)"
proof -
  obtain f where h: "h = OpenCollection f" "log_repr f rs" using assms(1) by (auto simp: holds_log_def)
  then have f: "log_mapped f" and im: "log_image (mm_bytes f) rs" by (simp_all add: log_repr_def)
  have le: "rec_off rs i + 1 + length (snd (rs ! i)) \<le> length (mm_bytes f)"
    using log_at(1) [OF im assms(2)] im by (simp add: log_image_def)
  then have "peek (mm_bytes f) (rec_off rs i + 1) (length (snd (rs ! i))) = Ok (snd (rs ! i))"
    using log_at_bytes(2) [OF im assms(2)] by (subst peek_slice) auto
  then show ?thesis
    using h f read_repr [OF h(2) assms(2)]
    by (simp add: CollectionHandle_read_record_def on_collection_def BSON_RECORD_LIVE_def BSON_RECORD_TOMBSTONE_def)
qed

lemma tombstone_record_holds:
  assumes "holds_log h rs" "i < length rs"
  shows "\<exists>h'. CollectionHandle_tombstone_record (int (rec_off rs i)) h = (PyOk (), h') \<and>
    holds_log h' (rs[i := (False, snd (rs ! i))])"
proof -
  obtain f where h: "h = OpenCollection f" "log_repr f rs" using assms(1) by (auto simp: holds_log_def)
  from tombstone_repr [OF h(2) assms(2)] obtain f' where
    "bson_storage_tombstone (rec_off rs i) f = (Ok (), f')" "log_repr f' (rs[i := (False, snd (rs ! i))])" .
  then show ?thesis
    using h by (auto simp: CollectionHandle_tombstone_record_def on_collection_def holds_log_def)
qed

text \<open>The scanner over a mapped log, placed before the record \<open>k\<close>.\<close>

lemma scanner_at_log:
  assumes im: "log_image m rs" and k: "k \<le> length rs"
  shows "scanner_at \<lparr>sc_base = m, sc_data_end = 64 + length (log_bytes rs), sc_pos = rec_off rs k\<rparr> (drop k rs)"
proof -
  have b: "log_bytes rs = log_bytes (take k rs) @ log_bytes (drop k rs)"
    by (metis append_take_drop_id log_bytes_simps(3))
  have "slice m 64 (length (log_bytes (take k rs)) + length (log_bytes (drop k rs))) =
      log_bytes (take k rs) @ log_bytes (drop k rs)"
    using im b by (simp add: log_image_def)
  moreover have "64 + (length (log_bytes (take k rs)) + length (log_bytes (drop k rs))) \<le> length m"
    using im b by (simp add: log_image_def)
  ultimately have "slice m (64 + length (log_bytes (take k rs))) (length (log_bytes (drop k rs))) = log_bytes (drop k rs)"
    unfolding slice_split by (simp add: append_eq_append_conv)
  moreover have "\<forall>r \<in> set (drop k rs). doc_framed (snd r)"
    using im by (auto simp: log_image_def dest: in_set_dropD)
  ultimately show ?thesis
    using im b by (simp add: scanner_at_def rec_off_def log_image_def)
qed

lemma first_live_step:
  "k < length rs \<Longrightarrow> first_live rs k = (if fst (rs ! k) then Some k else first_live rs (Suc k))"
  by (simp add: first_live_def upt_conv_Cons)

lemma first_live_end [simp]: "length rs \<le> k \<Longrightarrow> first_live rs k = None"
  by (simp add: first_live_def)

lemma next_live_first_live:
  "k \<le> length rs \<Longrightarrow>
     map_option fst (next_live (rec_off rs k) (drop k rs)) = map_option (rec_off rs) (first_live rs k)"
proof (induction "length rs - k" arbitrary: k)
  case (Suc n)
  then have k: "k < length rs" by simp
  obtain live d where r: "rs ! k = (live, d)" by fastforce
  have "next_live (rec_off rs k) (drop k rs) =
      (if live then Some (rec_off rs k, d, drop (Suc k) rs) else next_live (rec_off rs (Suc k)) (drop (Suc k) rs))"
    using k r by (simp add: Cons_nth_drop_Suc [symmetric] rec_off_Suc)
  with Suc.hyps(1) [of "Suc k"] Suc.hyps(2) k r show ?case by (auto simp: first_live_step)
qed simp

lemma scan_from_log:
  assumes "log_image m rs" "k \<le> length rs"
  defines "sc \<equiv> \<lparr>sc_base = m, sc_data_end = 64 + length (log_bytes rs), sc_pos = rec_off rs k\<rparr>"
  shows "rbind (bson_scanner_next sc) (\<lambda>(found, _). Ok (map_option fst found)) =
    Ok (map_option (rec_off rs) (first_live rs k))"
proof -
  have p: "sc_pos sc = rec_off rs k" by (simp add: sc_def)
  have "scanner_at sc (drop k rs)" unfolding sc_def by (rule scanner_at_log) fact+
  from scanner_next_live [OF this] next_live_first_live [OF assms(2)]
  show ?thesis
    unfolding p by (cases "next_live (rec_off rs k) (drop k rs)") auto
qed

lemma next_live_offset_holds:
  assumes h: "holds_log h rs"
  shows "CollectionHandle_next_live_offset (-1) h = (PyOk (map_option (rec_off rs) (first_live rs 0)), h)"
    and "i < length rs \<Longrightarrow> CollectionHandle_next_live_offset (int (rec_off rs i)) h =
      (PyOk (map_option (rec_off rs) (first_live rs (Suc i))), h)"
proof -
  obtain f where f: "h = OpenCollection f" "log_repr f rs" using h by (auto simp: holds_log_def)
  then have m: "log_mapped f" and im: "log_image (mm_bytes f) rs" by (simp_all add: log_repr_def)
  have b: "collection_base f = (Ok (mm_bytes f), f)"
    using log_mappedD [OF m] by (simp add: collection_base_def bson_mmap_data_def)
  have o: "rec_off rs 0 = 64" by (simp add: rec_off_def)
  show "CollectionHandle_next_live_offset (-1) h = (PyOk (map_option (rec_off rs) (first_live rs 0)), h)"
    using f b data_end_repr [OF f(2)] scan_from_log [OF im, of 0]
    by (simp add: CollectionHandle_next_live_offset_def on_collection_def bson_scanner_open_def
        BSON_STORAGE_HEADER_LEN_def o del: rbind_Ok_iff)
  assume i: "i < length rs"
  then show "CollectionHandle_next_live_offset (int (rec_off rs i)) h =
      (PyOk (map_option (rec_off rs) (first_live rs (Suc i))), h)"
    using f b data_end_repr [OF f(2)] scan_from_log [OF im, of "Suc i"] read_repr [OF f(2) i]
    by (simp add: CollectionHandle_next_live_offset_def on_collection_def bson_scanner_open_def rec_off_Suc Let_def
        del: rbind_Ok_iff)
qed

section \<open>The contract of a record store\<close>

text \<open>
  What the layers above (the collection and its cursor) rely on. \<open>holds s rs\<close>: the store in state
  \<open>s\<close> holds the records \<open>rs\<close>; \<open>addr rs i\<close> is the address of the i-th one.
\<close>

locale record_store =
  fixes holds :: "'s \<Rightarrow> log_record list \<Rightarrow> bool"
    and addr :: "log_record list \<Rightarrow> nat \<Rightarrow> nat"
    and fits :: "log_record list \<Rightarrow> byte list \<Rightarrow> bool"
    and add :: "byte list \<Rightarrow> 's \<Rightarrow> nat py \<times> 's"
    and get :: "int \<Rightarrow> 's \<Rightarrow> byte list option py \<times> 's"
    and remove :: "int \<Rightarrow> 's \<Rightarrow> unit py \<times> 's"
    and step :: "int \<Rightarrow> 's \<Rightarrow> nat option py \<times> 's"
  assumes add_law: "holds s rs \<Longrightarrow> fits rs d \<Longrightarrow> add d s = (PyOk a, s') \<Longrightarrow>
      a = addr rs (length rs) \<and> holds s' (rs @ [(True, d)])"
    and get_law: "holds s rs \<Longrightarrow> i < length rs \<Longrightarrow>
      get (int (addr rs i)) s = (PyOk (if fst (rs ! i) then Some (snd (rs ! i)) else None), s)"
    and remove_law: "holds s rs \<Longrightarrow> i < length rs \<Longrightarrow>
      \<exists>s'. remove (int (addr rs i)) s = (PyOk (), s') \<and> holds s' (rs[i := (False, snd (rs ! i))])"
    and first_law: "holds s rs \<Longrightarrow> step (-1) s = (PyOk (map_option (addr rs) (first_live rs 0)), s)"
    and step_law: "holds s rs \<Longrightarrow> i < length rs \<Longrightarrow>
      step (int (addr rs i)) s = (PyOk (map_option (addr rs) (first_live rs (Suc i))), s)"
    and addr_append: "i \<le> length rs \<Longrightarrow> addr (rs @ xs) i = addr rs i"
    and addr_update: "i < length rs \<Longrightarrow> addr (rs[i := (b, snd (rs ! i))]) j = addr rs j"

text \<open>
  The full scan of \<^verbatim>\<open>Collection.__scan\<close> (python/bsondb/collection.py): step from live record to
  live record and read each; \<open>fuel\<close> bounds the number of rounds.
\<close>

fun full_scan ::
    "(int \<Rightarrow> 's \<Rightarrow> nat option py \<times> 's) \<Rightarrow> (int \<Rightarrow> 's \<Rightarrow> byte list option py \<times> 's) \<Rightarrow>
     nat \<Rightarrow> int \<Rightarrow> 's \<Rightarrow> byte list list option" where
  "full_scan step get 0 prev s = None"
| "full_scan step get (Suc fuel) prev s = (case step prev s of
     (PyOk None, s') \<Rightarrow> Some []
   | (PyOk (Some off), s') \<Rightarrow> (case get (int off) s' of
       (PyOk raw, s'') \<Rightarrow>
         map_option (append (case raw of None \<Rightarrow> [] | Some doc \<Rightarrow> [doc])) (full_scan step get fuel (int off) s'')
     | _ \<Rightarrow> None)
   | _ \<Rightarrow> None)"

definition live_docs :: "log_record list \<Rightarrow> byte list list" where
  "live_docs rs = map snd (filter fst rs)"

lemma first_live_Some:
  assumes "first_live rs k = Some j"
  shows "k \<le> j \<and> j < length rs \<and> fst (rs ! j) \<and>
    live_docs (drop k rs) = snd (rs ! j) # live_docs (drop (Suc j) rs)"
  using assms
proof (induction "length rs - k" arbitrary: k)
  case 0
  then show ?case by simp
next
  case (Suc n)
  then have k: "k < length rs" by simp
  have d: "drop k rs = rs ! k # drop (Suc k) rs" using k by (simp add: Cons_nth_drop_Suc)
  show ?case
  proof (cases "fst (rs ! k)")
    case True
    then show ?thesis using Suc.prems k d by (simp add: first_live_step live_docs_def)
  next
    case False
    moreover have "n = length rs - Suc k" using Suc.hyps(2) by simp
    ultimately show ?thesis
      using Suc.hyps(1) [of "Suc k"] Suc.prems k d by (simp add: first_live_step live_docs_def)
  qed
qed

lemma first_live_None: "first_live rs k = None \<Longrightarrow> live_docs (drop k rs) = []"
proof (induction "length rs - k" arbitrary: k)
  case (Suc n)
  then have k: "k < length rs" by simp
  have d: "drop k rs = rs ! k # drop (Suc k) rs" using k by (simp add: Cons_nth_drop_Suc)
  show ?case
    using Suc.hyps(1) [of "Suc k"] Suc.hyps(2) Suc.prems k d
    by (auto simp: first_live_step live_docs_def split: if_splits)
qed (simp add: live_docs_def)

context record_store begin

lemma get_after_add:
  assumes "holds s rs" "fits rs d" "add d s = (PyOk a, s')"
  shows "get (int a) s' = (PyOk (Some d), s')"
  using add_law [OF assms] get_law [of s' "rs @ [(True, d)]" "length rs"] addr_append [of "length rs" rs "[(True, d)]"]
  by simp

lemma add_keeps:
  assumes "holds s rs" "fits rs d" "add d s = (PyOk a, s')" "i < length rs"
  shows "fst (get (int (addr rs i)) s') = fst (get (int (addr rs i)) s)"
  using add_law [OF assms(1-3)] get_law [of s' "rs @ [(True, d)]" i] get_law [OF assms(1,4)]
    addr_append [of i rs "[(True, d)]"] assms(4)
  by (simp add: nth_append)

lemma get_after_remove:
  assumes "holds s rs" "i < length rs" "remove (int (addr rs i)) s = (r, s')"
  shows "r = PyOk ()" "get (int (addr rs i)) s' = (PyOk None, s')"
  using remove_law [OF assms(1,2)] get_law [of s' "rs[i := (False, snd (rs ! i))]" i] addr_update assms(2,3)
  by auto

lemma remove_keeps:
  assumes "holds s rs" "i < length rs" "remove (int (addr rs i)) s = (r, s')" "j < length rs" "j \<noteq> i"
  shows "fst (get (int (addr rs j)) s') = fst (get (int (addr rs j)) s)"
  using remove_law [OF assms(1,2)] get_law [of s' "rs[i := (False, snd (rs ! i))]" j] addr_update assms get_law [OF assms(1,4)]
  by auto

lemma scan_after:
  assumes "holds s rs" "i < length rs" "length rs - i \<le> fuel"
  shows "full_scan step get fuel (int (addr rs i)) s = Some (live_docs (drop (Suc i) rs))"
  using assms(2,3)
proof (induction fuel arbitrary: i)
  case (Suc fuel)
  show ?case
  proof (cases "first_live rs (Suc i)")
    case None
    then show ?thesis using step_law [OF assms(1) Suc.prems(1)] first_live_None [OF None] by simp
  next
    case (Some j)
    then have "length rs - j \<le> fuel" using first_live_Some [OF Some] Suc.prems by linarith
    with Some show ?thesis
      using step_law [OF assms(1) Suc.prems(1)] first_live_Some [OF Some] get_law [OF assms(1), of j]
        Suc.IH [of j] Suc.prems by simp
  qed
qed simp

lemma scan_all:
  assumes "holds s rs" "length rs < fuel"
  shows "full_scan step get fuel (-1) s = Some (live_docs rs)"
proof (cases fuel)
  case (Suc n)
  show ?thesis
  proof (cases "first_live rs 0")
    case None
    then show ?thesis using first_law [OF assms(1)] first_live_None [OF None] Suc by simp
  next
    case (Some j)
    then show ?thesis
      using first_law [OF assms(1)] first_live_Some [OF Some] get_law [OF assms(1), of j]
        scan_after [OF assms(1), of j n] Suc assms(2) by simp
  qed
qed (use assms in simp)

end

lemma log_bytes_update_length:
  "i < length rs \<Longrightarrow> length (log_bytes (take j (rs[i := (b, snd (rs ! i))]))) = length (log_bytes (take j rs))"
  by (induction rs arbitrary: i j) (auto simp: take_Cons' nth_Cons' split: nat.split)

interpretation collection: record_store holds_log rec_off fits_log "CollectionHandle_append_record os"
    CollectionHandle_read_record CollectionHandle_tombstone_record CollectionHandle_next_live_offset
  for os
proof (unfold_locales, goal_cases)
  case (1 s rs d a s')
  then show ?case using append_record_holds [of s rs d os] by (metis Pair_inject py.distinct(1) py.inject(1))
next
  case (2 s rs i)
  then show ?case by (rule read_record_holds)
next
  case (3 s rs i)
  then show ?case by (rule tombstone_record_holds)
next
  case (4 s rs)
  then show ?case by (rule next_live_offset_holds)
next
  case (5 s rs i)
  then show ?case by (rule next_live_offset_holds)
next
  case (6 i rs xs)
  then show ?case by (rule rec_off_append)
next
  case (7 i rs b j)
  then show ?case by (simp add: rec_off_def log_bytes_update_length)
qed

section \<open>Closing, crashing and opening again\<close>

text \<open>Opening a file that already has content maps it as it is.\<close>

lemma mmap_open_existing:
  assumes "os_all_succeed os" "disk \<noteq> []"
  shows "bson_mmap_open os BSON_MMAP_READ_WRITE 0 disk =
    Ok \<lparr>mm_mode = BSON_MMAP_READ_WRITE, mm_base = True, mm_size = length disk, mm_bytes = disk\<rparr>"
  using assms by (simp add: bson_mmap_open_def map_current_fd_def os_all_succeed_def)

lemma open_mapped:
  assumes "64 \<le> length disk" "length disk < 2 ^ 63"
  shows "log_mapped \<lparr>mm_mode = BSON_MMAP_READ_WRITE, mm_base = True, mm_size = length disk, mm_bytes = disk\<rparr>"
  using assms by (auto simp: log_mapped_def mmap_inv_def)

lemma even_and_FFFE: "(x AND 0xFFFE) AND (1 :: nat) = 0"
  by (simp only: and.assoc) simp

lemma close_holds:
  assumes "holds_log h rs" "os_all_succeed os"
  obtains disk where "CollectionHandle_close os h = (PyOk (), ClosedCollection disk)"
    "log_image disk rs" "64 \<le> length disk" "length disk < 2 ^ 63" "field disk 6 2 AND 1 = 0"
proof -
  obtain f where h: "h = OpenCollection f" "log_repr f rs" using assms(1) by (auto simp: holds_log_def)
  have ms: "os_msync os" using assms(2) by (simp add: os_all_succeed_def)
  obtain f' where f': "bson_storage_mark_clean os f = (Ok (), f')" "log_repr f' rs"
    "field (mm_bytes f') 6 2 = field (mm_bytes f) 6 2 AND 0xFFFE"
    using mark_clean_repr [OF h(2), of os] ms by auto
  show thesis
  proof (rule that [of "mm_bytes f'"])
    show "CollectionHandle_close os h = (PyOk (), ClosedCollection (mm_bytes f'))"
      using h f' by (simp add: CollectionHandle_close_def bson_mmap_close_def)
    show "field (mm_bytes f') 6 2 AND 1 = 0" unfolding f'(3) by (rule even_and_FFFE)
  qed (use f'(2) in \<open>simp_all add: log_repr_def log_mapped_def\<close>)
qed

lemma open_clean:
  assumes "os_all_succeed os" "log_image disk rs" "64 \<le> length disk" "length disk < 2 ^ 63"
    "field disk 6 2 AND 1 = 0"
  shows "\<exists>h. py_open_collection os disk = PyOk h \<and> holds_log h rs"
proof -
  let ?f = "\<lparr>mm_mode = BSON_MMAP_READ_WRITE, mm_base = True, mm_size = length disk, mm_bytes = disk\<rparr>"
  have op: "bson_mmap_open os BSON_MMAP_READ_WRITE 0 disk = Ok ?f"
    using assms(1,3) by (intro mmap_open_existing) auto
  have "log_repr ?f rs" using open_mapped [OF assms(3,4)] assms(2) by (simp add: log_repr_def)
  then obtain f' where "bson_storage_open_header os BSON_MMAP_READ_WRITE ?f =
      ((if os_msync os then Ok () else Err BSON_ERR_IO), f')" "log_repr f' rs"
    using open_clean_repr [of ?f rs os] assms(5) by auto
  then show ?thesis
    using op assms(1) by (simp add: py_open_collection_def os_all_succeed_def holds_log_def)
qed

lemma open_dirty:
  assumes "os_all_succeed os" "log_header disk" "64 \<le> length disk" "length disk < 2 ^ 63"
    "field disk 6 2 AND 1 \<noteq> 0" "recovered disk rs"
  shows "\<exists>h. py_open_collection os disk = PyOk h \<and> holds_log h rs"
proof -
  let ?f = "\<lparr>mm_mode = BSON_MMAP_READ_WRITE, mm_base = True, mm_size = length disk, mm_bytes = disk\<rparr>"
  have op: "bson_mmap_open os BSON_MMAP_READ_WRITE 0 disk = Ok ?f"
    using assms(1,3) by (intro mmap_open_existing) auto
  obtain f' where "bson_storage_open_header os BSON_MMAP_READ_WRITE ?f =
      ((if os_msync os then Ok () else Err BSON_ERR_IO), f')" "log_repr f' rs"
    using open_dirty_repr [OF open_mapped [OF assms(3,4)], of rs os] assms by auto
  then show ?thesis
    using op assms(1) by (simp add: py_open_collection_def os_all_succeed_def holds_log_def)
qed

lemma open_created:
  assumes "os_all_succeed os"
  shows "\<exists>h. py_open_collection os [] = PyOk h \<and> holds_log h []"
proof -
  let ?f = "\<lparr>mm_mode = BSON_MMAP_READ_WRITE, mm_base = False, mm_size = 0, mm_bytes = []\<rparr>"
  have op: "bson_mmap_open os BSON_MMAP_READ_WRITE 0 [] = Ok ?f"
    using assms by (simp add: bson_mmap_open_def map_current_fd_def os_all_succeed_def)
  obtain f' where "bson_storage_open_header os BSON_MMAP_READ_WRITE ?f = (Ok (), f')" "log_repr f' []"
    using open_empty_repr [of ?f os] assms by (auto simp: mmap_inv_def)
  then show ?thesis using op by (simp add: py_open_collection_def holds_log_def)
qed

text \<open>A log whose next byte is not a status byte is what recovery finds.\<close>

lemma recovered_log:
  assumes "\<forall>r \<in> set rs. valid_doc (snd r)" "64 + length (log_bytes rs) \<le> length m"
    "slice m 64 (length (log_bytes rs)) = log_bytes rs"
    "64 + length (log_bytes rs) < length m \<Longrightarrow>
       m ! (64 + length (log_bytes rs)) \<notin> {BSON_RECORD_LIVE, BSON_RECORD_TOMBSTONE}"
  shows "recovered m rs"
proof -
  have "\<not> record_at m (length m) (64 + length (log_bytes rs)) r" for r
    using assms(4) by (auto simp: record_at_iff split: if_splits)
  then show ?thesis using assms by (simp add: recovered_def)
qed

section \<open>Properties\<close>

text \<open>
  A file of 80 bytes with two records, the empty document live and the empty document dead, for the
  witnesses below; and the operating system that never fails.
\<close>

definition sample_log :: "log_record list" where
  "sample_log = [(True, [5, 0, 0, 0, 0]), (False, [5, 0, 0, 0, 0])]"

definition sample_bytes :: "byte list" where
  "sample_bytes = [0x43, 0x42, 0x44, 0x31, 1, 0, 1, 0, 64, 0, 0, 0, 0, 0, 0, 0,
     76, 0, 0, 0, 0, 0, 0, 0, 1, 0, 0, 0, 0, 0, 0, 0, 2, 0, 0, 0, 0, 0, 0, 0,
     0, 0, 0, 0, 0, 0, 0, 0, 0, 0, 0, 0, 0, 0, 0, 0, 0, 0, 0, 0, 0, 0, 0, 0,
     1, 5, 0, 0, 0, 0, 2, 5, 0, 0, 0, 0, 0, 0, 0, 0]"

definition sample_handle :: collection_handle where
  "sample_handle = OpenCollection
     \<lparr>mm_mode = BSON_MMAP_READ_WRITE, mm_base = True, mm_size = 80, mm_bytes = sample_bytes\<rparr>"

definition perfect_os :: os_calls where
  "perfect_os = \<lparr>os_open = True, os_fstat = True, os_malloc = True, os_ftruncate = \<lambda>_. True,
     os_mmap = \<lambda>_. True, os_msync = True\<rparr>"

lemma perfect_os_succeeds [simp]: "os_all_succeed perfect_os"
  by (simp add: perfect_os_def os_all_succeed_def)

lemma sample_doc: "doc_framed [5, 0, 0, 0, 0]"
  by (simp add: doc_framed_def i32_of_def BSON_DOC_MIN_LEN_def BSON_MAX_DOCUMENT_SIZE_def)

lemma sample_doc_valid: "valid_doc [5, 0, 0, 0, 0]"
  by (auto simp: valid_doc_def validate_document_iff wf_doc_def enc_doc_def frame_def BSON_EOO_BYTE_def
      nat_le_4 BSON_MAX_DOCUMENT_SIZE_def intro!: exI [of _ "[]"])

lemma sample_image: "log_image sample_bytes sample_log"
  by (simp add: log_image_def sample_bytes_def sample_log_def slice_def field_def sample_doc
      BSON_STORAGE_MAGIC_def BSON_STORAGE_VERSION_def BSON_RECORD_LIVE_def BSON_RECORD_TOMBSTONE_def)

lemma sample_length: "length sample_bytes = 80"
  by (simp add: sample_bytes_def)

lemma sample_holds: "holds_log sample_handle sample_log"
  using sample_image by (auto simp: holds_log_def sample_handle_def log_repr_def log_mapped_def mmap_inv_def sample_length)

lemma sample_fits: "fits_log sample_log [5, 0, 0, 0, 0]"
  by (simp add: fits_log_def sample_doc sample_log_def)

lemma sample_index: "i < length sample_log \<longleftrightarrow> i < 2" "rec_off sample_log 0 = 64" "rec_off sample_log 1 = 70"
  "sample_log ! 0 = (True, [5, 0, 0, 0, 0])" "sample_log ! 1 = (False, [5, 0, 0, 0, 0])"
  by (auto simp: sample_log_def rec_off_def)

text \<open>
  C21. Appending a document to an open collection either adds one live record at the end of the log
  and returns its offset, at which the document is read back, or raises an OS error, and that only
  when a system call has failed.
\<close>

theorem append_record_adds:
  assumes "holds_log h rs" "fits_log rs d"
  shows "case CollectionHandle_append_record os d h of
      (PyOk off, h') \<Rightarrow> off = rec_off rs (length rs) \<and> holds_log h' (rs @ [(True, d)]) \<and>
        CollectionHandle_read_record (int off) h' = (PyOk (Some d), h')
    | (PyRaise e, h') \<Rightarrow> e = OSError \<and> \<not> os_all_succeed os
    | _ \<Rightarrow> False"
  using assms
proof (cases rule: append_record_holds [of h rs d os])
  case (ok h')
  then show ?thesis using collection.get_after_add [OF assms ok(1)] by simp
next
  case (io h')
  then show ?thesis by simp
qed

theorem append_record_adds_witness:
  "case CollectionHandle_append_record perfect_os [5, 0, 0, 0, 0] sample_handle of
      (PyOk off, h') \<Rightarrow> off = rec_off sample_log (length sample_log) \<and>
        holds_log h' (sample_log @ [(True, [5, 0, 0, 0, 0])]) \<and>
        CollectionHandle_read_record (int off) h' = (PyOk (Some [5, 0, 0, 0, 0]), h')
    | (PyRaise e, h') \<Rightarrow> e = OSError \<and> \<not> os_all_succeed perfect_os
    | _ \<Rightarrow> False"
  by (rule append_record_adds) (rule sample_holds sample_fits)+

text \<open>
  Appending leaves every record that was there as it was, at the offset it had, also when the
  file had to grow and was mapped anew.
\<close>

theorem append_record_keeps:
  assumes "holds_log h rs" "fits_log rs d" "CollectionHandle_append_record os d h = (PyOk off, h')"
    "i < length rs"
  shows "fst (CollectionHandle_read_record (int (rec_off rs i)) h') =
    fst (CollectionHandle_read_record (int (rec_off rs i)) h)"
  by (rule collection.add_keeps [OF assms])

theorem append_record_keeps_witness:
  "\<exists>off h'. CollectionHandle_append_record perfect_os [5, 0, 0, 0, 0] sample_handle = (PyOk off, h') \<and>
     fst (CollectionHandle_read_record (int (rec_off sample_log 0)) h') =
     fst (CollectionHandle_read_record (int (rec_off sample_log 0)) sample_handle)"
proof -
  obtain off h' where "CollectionHandle_append_record perfect_os [5, 0, 0, 0, 0] sample_handle = (PyOk off, h')"
    using append_record_holds [OF sample_holds sample_fits, of perfect_os] by (metis perfect_os_succeeds)
  then show ?thesis
    using append_record_keeps [OF sample_holds sample_fits, of perfect_os off h' 0] by (auto simp: sample_index)
qed

text \<open>
  Tombstoning the i-th record succeeds, kills exactly that record (reading it then returns
  None), keeps every other one, and is idempotent.
\<close>

theorem tombstone_record_kills:
  assumes "holds_log h rs" "i < length rs"
  shows "case CollectionHandle_tombstone_record (int (rec_off rs i)) h of
      (r, h') \<Rightarrow> r = PyOk () \<and> holds_log h' (rs[i := (False, snd (rs ! i))]) \<and>
        CollectionHandle_read_record (int (rec_off rs i)) h' = (PyOk None, h') \<and>
        (\<forall>j < length rs. j \<noteq> i \<longrightarrow> fst (CollectionHandle_read_record (int (rec_off rs j)) h') =
           fst (CollectionHandle_read_record (int (rec_off rs j)) h)) \<and>
        fst (CollectionHandle_tombstone_record (int (rec_off rs i)) h') = PyOk ()"
proof -
  obtain h' where h': "CollectionHandle_tombstone_record (int (rec_off rs i)) h = (PyOk (), h')"
    "holds_log h' (rs[i := (False, snd (rs ! i))])"
    using tombstone_record_holds [OF assms] by blast
  have "fst (CollectionHandle_tombstone_record (int (rec_off rs i)) h') = PyOk ()"
    using tombstone_record_holds [OF h'(2), of i] assms(2) collection.addr_update [OF assms(2), of False i] by auto
  then show ?thesis
    using h' collection.get_after_remove(2) [OF assms h'(1)] collection.remove_keeps [OF assms h'(1)] by simp
qed

theorem tombstone_record_kills_witness:
  "case CollectionHandle_tombstone_record (int (rec_off sample_log 0)) sample_handle of
      (r, h') \<Rightarrow> r = PyOk () \<and> holds_log h' (sample_log[0 := (False, snd (sample_log ! 0))]) \<and>
        CollectionHandle_read_record (int (rec_off sample_log 0)) h' = (PyOk None, h') \<and>
        (\<forall>j < length sample_log. j \<noteq> 0 \<longrightarrow> fst (CollectionHandle_read_record (int (rec_off sample_log j)) h') =
           fst (CollectionHandle_read_record (int (rec_off sample_log j)) sample_handle)) \<and>
        fst (CollectionHandle_tombstone_record (int (rec_off sample_log 0)) h') = PyOk ()"
  by (rule tombstone_record_kills) (simp_all add: sample_holds sample_index)

text \<open>
  C9. Stepping through a collection with \<^verbatim>\<open>next_live_offset\<close> from \<^verbatim>\<open>-1\<close> and reading each record
  returns exactly the live documents, in the order of their insertion, and ends.
\<close>

theorem full_scan_live:
  assumes "holds_log h rs" "length rs < fuel"
  shows "full_scan CollectionHandle_next_live_offset CollectionHandle_read_record fuel (-1) h =
    Some (map snd (filter fst rs))"
  using collection.scan_all [OF assms] by (simp add: live_docs_def)

theorem full_scan_live_witness:
  "full_scan CollectionHandle_next_live_offset CollectionHandle_read_record 3 (-1) sample_handle =
    Some [[5, 0, 0, 0, 0]]"
  using full_scan_live [OF sample_holds, of 3] by (simp add: sample_log_def)

text \<open>
  C27. A collection that was closed and is opened again holds the same log, and one that was never
  created opens with an empty one, when the system calls succeed.
\<close>

theorem reopen_same_log:
  assumes "holds_log h rs" "os_all_succeed os"
  shows "(\<exists>disk h'. CollectionHandle_close os h = (PyOk (), ClosedCollection disk) \<and>
      py_open_collection os disk = PyOk h' \<and> holds_log h' rs) \<and>
    (\<exists>h'. py_open_collection os [] = PyOk h' \<and> holds_log h' [])"
proof -
  obtain disk where d: "CollectionHandle_close os h = (PyOk (), ClosedCollection disk)"
    "log_image disk rs" "64 \<le> length disk" "length disk < 2 ^ 63" "field disk 6 2 AND 1 = 0"
    using close_holds [OF assms] .
  have "\<exists>h'. py_open_collection os [] = PyOk h' \<and> holds_log h' []"
    by (rule open_created) fact
  with d open_clean [OF assms(2) d(2-5)] show ?thesis by blast
qed

theorem reopen_same_log_witness:
  "(\<exists>disk h'. CollectionHandle_close perfect_os sample_handle = (PyOk (), ClosedCollection disk) \<and>
      py_open_collection perfect_os disk = PyOk h' \<and> holds_log h' sample_log) \<and>
    (\<exists>h'. py_open_collection perfect_os [] = PyOk h' \<and> holds_log h' [])"
  by (rule reopen_same_log) (simp_all add: sample_holds)

text \<open>
  C13. Recovery after a crash: a file with a good header and the dirty flag set, whatever else it
  holds, opens with exactly the longest run of valid records after the header, whatever its data
  end and counters say.
\<close>

theorem crash_recovery:
  assumes "os_all_succeed os" "log_header disk" "64 \<le> length disk" "length disk < 2 ^ 63"
    "field disk 6 2 AND 1 \<noteq> 0"
  shows "\<exists>h rs. py_open_collection os disk = PyOk h \<and> holds_log h rs \<and>
    (\<forall>r \<in> set rs. valid_doc (snd r)) \<and> slice disk 64 (length (log_bytes rs)) = log_bytes rs \<and>
    (\<nexists>r. record_at disk (length disk) (64 + length (log_bytes rs)) r)"
proof -
  obtain rs where "recovered disk rs" using recovered_exists [OF assms(3)] by blast
  with open_dirty [OF assms] show ?thesis unfolding recovered_def by blast
qed

theorem crash_recovery_witness:
  "\<exists>h rs. py_open_collection perfect_os sample_bytes = PyOk h \<and> holds_log h rs \<and>
    (\<forall>r \<in> set rs. valid_doc (snd r)) \<and> slice sample_bytes 64 (length (log_bytes rs)) = log_bytes rs \<and>
    (\<nexists>r. record_at sample_bytes (length sample_bytes) (64 + length (log_bytes rs)) r)"
proof (rule crash_recovery)
  show "log_header sample_bytes" using log_image_header [OF sample_image] .
  show "field sample_bytes 6 2 AND 1 \<noteq> 0" by (simp add: field_def slice_def sample_bytes_def)
qed (simp_all add: sample_length)

text \<open>
  Nothing is lost in a crash: if the bytes on disk hold the records of a log and no status byte
  follows them, opening recovers that log, live and dead records alike.
\<close>

theorem crash_keeps_log:
  assumes "os_all_succeed os" "log_image disk rs" "length disk < 2 ^ 63" "field disk 6 2 AND 1 \<noteq> 0"
    "\<forall>r \<in> set rs. valid_doc (snd r)"
    "64 + length (log_bytes rs) < length disk \<Longrightarrow> disk ! (64 + length (log_bytes rs)) = 0"
  shows "\<exists>h. py_open_collection os disk = PyOk h \<and> holds_log h rs"
proof -
  have "recovered disk rs"
    using assms by (intro recovered_log) (auto simp: log_image_def BSON_RECORD_LIVE_def BSON_RECORD_TOMBSTONE_def)
  moreover have "64 \<le> length disk" using assms(2) by (simp add: log_image_def)
  ultimately show ?thesis
    using assms log_image_header by (intro open_dirty) auto
qed

theorem crash_keeps_log_witness:
  "\<exists>h. py_open_collection perfect_os sample_bytes = PyOk h \<and> holds_log h sample_log"
proof (rule crash_keeps_log)
  show "log_image sample_bytes sample_log" by (rule sample_image)
  show "field sample_bytes 6 2 AND 1 \<noteq> 0" by (simp add: field_def slice_def sample_bytes_def)
  show "\<forall>r \<in> set sample_log. valid_doc (snd r)" by (simp add: sample_log_def sample_doc_valid)
  show "sample_bytes ! (64 + length (log_bytes sample_log)) = 0" by (simp add: sample_bytes_def sample_log_def)
qed (simp_all add: sample_length)

text \<open>
  C29. Appending to a file whose header claims a data end of \<open>2 ^ 63\<close> never returns, and opening
  does not reject that header: nothing checks the field against the size of the file, and the
  doubling of a capacity that is a power of two reaches zero and stays there.
\<close>

theorem append_corrupt_data_end_diverges:
  assumes "log_mapped f" "log_header (mm_bytes f)" "field (mm_bytes f) 6 2 = 0"
    "field (mm_bytes f) 16 8 = 2 ^ 63" "mm_size f = 2 ^ k" "length d < 2 ^ 32"
  shows "fst (bson_storage_append os d f) = Diverge \<and>
    fst (bson_storage_open_header perfect_os BSON_MMAP_READ_WRITE f) = Ok ()"
proof
  have f: "mm_base f" "mm_size f = length (mm_bytes f)" "64 \<le> length (mm_bytes f)" "length (mm_bytes f) < 2 ^ 63"
    using assms(1) by (auto simp: log_mapped_def mmap_inv_def)
  have k: "k \<le> 63"
    using f(2,4) assms(5) power_strict_increasing_iff [of "2 :: nat" k 63] by (simp del: power_strict_increasing_iff)
  have de: "bson_storage_data_end f = (Ok (2 ^ 63), f)"
    using f assms(1,4) by (simp add: bson_storage_data_end_def read_u64_field)
  have "size_add (size_add (2 ^ 63) 1) (length d) = 2 ^ 63 + 1 + length d" using assms(6) by simp
  moreover have "double_until 64 (mm_size f) (2 ^ 63 + 1 + length d) = Diverge"
    unfolding assms(5) by (rule double_until_pow) (simp_all add: k)
  ultimately have "storage_ensure os (size_add (size_add (2 ^ 63) 1) (length d)) f = (Diverge, f)"
    using f by (auto simp: storage_ensure_def)
  then show "fst (bson_storage_append os d f) = Diverge"
    using de by (simp add: bson_storage_append_def)
  have "storage_mark_dirty perfect_os BSON_MMAP_READ_WRITE f = (Ok (), snd (storage_mark_dirty perfect_os BSON_MMAP_READ_WRITE f))"
    using f log_mappedD [OF assms(1)] assms(1)
    by (simp add: storage_mark_dirty_def storage_set_flags_def read_u16_field write_put bson_mmap_flush_def perfect_os_def)
  then show "fst (bson_storage_open_header perfect_os BSON_MMAP_READ_WRITE f) = Ok ()"
    using open_existing_eq [OF assms(1,2), of perfect_os] assms(3) by (metis bit.conj_zero_left fst_conv zero_and_eq)
qed

definition corrupt_file :: bson_mmap_file where
  "corrupt_file = \<lparr>mm_mode = BSON_MMAP_READ_WRITE, mm_base = True, mm_size = 64,
     mm_bytes = [0x43, 0x42, 0x44, 0x31, 1, 0, 0, 0, 64, 0, 0, 0, 0, 0, 0, 0,
       0, 0, 0, 0, 0, 0, 0, 0x80, 0, 0, 0, 0, 0, 0, 0, 0, 0, 0, 0, 0, 0, 0, 0, 0,
       0, 0, 0, 0, 0, 0, 0, 0, 0, 0, 0, 0, 0, 0, 0, 0, 0, 0, 0, 0, 0, 0, 0, 0]\<rparr>"

theorem append_corrupt_data_end_diverges_witness:
  "fst (bson_storage_append perfect_os [5, 0, 0, 0, 0] corrupt_file) = Diverge \<and>
    fst (bson_storage_open_header perfect_os BSON_MMAP_READ_WRITE corrupt_file) = Ok ()"
  by (rule append_corrupt_data_end_diverges [where k = 6])
    (simp_all add: corrupt_file_def log_mapped_def mmap_inv_def log_header_def slice_def field_def
      BSON_STORAGE_MAGIC_def BSON_STORAGE_VERSION_def)

end
