(* ===== verification/Btree_Key.thy ===== *)
theory Btree_Key
  imports Bson_Memory "HOL-Library.List_Lexorder"
begin

text \<open>
  Index keys and their order: \<^verbatim>\<open>bson_btree_key_cmp\<close> of src/c_engine/btree.c. A key is 13 bytes, a
  tag and a payload. The locale \<open>key_order\<close> states what the tree relies on: the comparison is
  the sign of a linear order on ranks; it is interpreted on the comparison of the code, for the
  keys that are not a NaN.
\<close>

section \<open>The code\<close>

definition BSON_BTREE_KEY_SIZE :: nat where "BSON_BTREE_KEY_SIZE = 13"
definition BSON_BTREE_TAG_NULL :: byte where "BSON_BTREE_TAG_NULL = 0"
definition BSON_BTREE_TAG_BOOL :: byte where "BSON_BTREE_TAG_BOOL = 1"
definition BSON_BTREE_TAG_INT :: byte where "BSON_BTREE_TAG_INT = 2"
definition BSON_BTREE_TAG_DOUBLE :: byte where "BSON_BTREE_TAG_DOUBLE = 3"
definition BSON_BTREE_TAG_DATETIME :: byte where "BSON_BTREE_TAG_DATETIME = 4"
definition BSON_BTREE_TAG_OBJECTID :: byte where "BSON_BTREE_TAG_OBJECTID = 5"

lemmas btree_tag_defs =
  BSON_BTREE_TAG_NULL_def BSON_BTREE_TAG_BOOL_def BSON_BTREE_TAG_INT_def
  BSON_BTREE_TAG_DOUBLE_def BSON_BTREE_TAG_DATETIME_def BSON_BTREE_TAG_OBJECTID_def

type_synonym key = "byte list"

text \<open>\<^verbatim>\<open>memcmp\<close>: only the sign of its result is specified.\<close>

fun memcmp :: "byte list \<Rightarrow> byte list \<Rightarrow> int" where
  "memcmp (a # as) (b # bs) = (if a < b then -1 else if b < a then 1 else memcmp as bs)"
| "memcmp _ _ = 0"

text \<open>
  Comparison of two IEEE 754 doubles by their 64-bit patterns: a NaN compares with nothing, the
  others by sign and magnitude, the two zeros being equal.
\<close>

definition double_nan :: "u64 \<Rightarrow> bool" where
  "double_nan w \<longleftrightarrow> 0x7FF0000000000000 < (w AND 0x7FFFFFFFFFFFFFFF)"

definition double_rank :: "u64 \<Rightarrow> int" where
  "double_rank w = (if bit w 63 then - uint (w AND 0x7FFFFFFFFFFFFFFF) else uint (w AND 0x7FFFFFFFFFFFFFFF))"

definition double_less :: "u64 \<Rightarrow> u64 \<Rightarrow> bool" where
  "double_less a b \<longleftrightarrow> \<not> double_nan a \<and> \<not> double_nan b \<and> double_rank a < double_rank b"

text \<open>A key is read at fixed offsets; both arguments are 13 bytes long.\<close>

definition bson_btree_key_cmp :: "key \<Rightarrow> key \<Rightarrow> int" where
  "bson_btree_key_cmp key_a key_b =
     (if key_a ! 0 \<noteq> key_b ! 0 then uint (key_a ! 0) - uint (key_b ! 0)
      else if key_a ! 0 = BSON_BTREE_TAG_NULL then 0
      else if key_a ! 0 = BSON_BTREE_TAG_BOOL then uint (key_a ! 1) - uint (key_b ! 1)
      else if key_a ! 0 = BSON_BTREE_TAG_INT \<or> key_a ! 0 = BSON_BTREE_TAG_DATETIME then
        let value_a = i64_of (slice key_a 1 8); value_b = i64_of (slice key_b 1 8) in
        if value_a < value_b then -1 else if value_a > value_b then 1 else 0
      else if key_a ! 0 = BSON_BTREE_TAG_DOUBLE then
        let double_a = word_of_nat (field key_a 1 8); double_b = word_of_nat (field key_b 1 8) in
        if double_less double_a double_b then -1 else if double_less double_b double_a then 1 else 0
      else if key_a ! 0 = BSON_BTREE_TAG_OBJECTID then memcmp (slice key_a 1 12) (slice key_b 1 12)
      else memcmp key_a key_b)"

section \<open>The order\<close>

text \<open>
  What a comparison must be for a search tree to work: \<open>rank\<close> maps the keys that may be stored
  into a linear order, and the sign of \<open>cmp\<close> is the comparison of the ranks.
\<close>

locale key_order =
  fixes cmp :: "'k \<Rightarrow> 'k \<Rightarrow> int"
    and ok :: "'k \<Rightarrow> bool"
    and rank :: "'k \<Rightarrow> 'r :: linorder"
  assumes cmp_less: "ok a \<Longrightarrow> ok b \<Longrightarrow> cmp a b < 0 \<longleftrightarrow> rank a < rank b"
    and cmp_eq: "ok a \<Longrightarrow> ok b \<Longrightarrow> cmp a b = 0 \<longleftrightarrow> rank a = rank b"
begin

lemma cmp_le: "ok a \<Longrightarrow> ok b \<Longrightarrow> cmp a b \<le> 0 \<longleftrightarrow> rank a \<le> rank b"
  using cmp_less cmp_eq by (simp add: le_less)

lemma cmp_greater: "ok a \<Longrightarrow> ok b \<Longrightarrow> 0 < cmp a b \<longleftrightarrow> rank b < rank a"
  using cmp_le by (simp flip: not_le)

end

text \<open>The rank of a key: its tag, then its payload as the tag says.\<close>

definition key_rank :: "key \<Rightarrow> int list" where
  "key_rank k =
     (if k ! 0 = BSON_BTREE_TAG_NULL then [uint (k ! 0)]
      else if k ! 0 = BSON_BTREE_TAG_BOOL then [uint (k ! 0), uint (k ! 1)]
      else if k ! 0 = BSON_BTREE_TAG_INT \<or> k ! 0 = BSON_BTREE_TAG_DATETIME
      then [uint (k ! 0), i64_of (slice k 1 8)]
      else if k ! 0 = BSON_BTREE_TAG_DOUBLE then [uint (k ! 0), double_rank (word_of_nat (field k 1 8))]
      else if k ! 0 = BSON_BTREE_TAG_OBJECTID then uint (k ! 0) # map uint (slice k 1 12)
      else map uint k)"

definition key_ok :: "key \<Rightarrow> bool" where
  "key_ok k \<longleftrightarrow> length k = BSON_BTREE_KEY_SIZE \<and>
     \<not> (k ! 0 = BSON_BTREE_TAG_DOUBLE \<and> double_nan (word_of_nat (field k 1 8)))"

lemma memcmp_less: "length as = length bs \<Longrightarrow> memcmp as bs < 0 \<longleftrightarrow> map uint as < map uint bs"
  by (induction as bs rule: memcmp.induct) (auto simp: word_less_def)

lemma memcmp_eq: "length as = length bs \<Longrightarrow> memcmp as bs = 0 \<longleftrightarrow> map uint as = map uint bs"
  by (induction as bs rule: memcmp.induct) (auto simp: word_less_def)

lemma map_uint_Cons: "length k = 13 \<Longrightarrow> map uint k = uint (k ! 0) # map uint (slice k 1 12)"
  by (cases k) (simp_all add: slice_def)

lemma key_rank_Cons: "key_ok k \<Longrightarrow> \<exists>r. key_rank k = uint (k ! 0) # r"
  by (auto simp: key_rank_def key_ok_def BSON_BTREE_KEY_SIZE_def map_uint_Cons)

lemma key_cmp_tags:
  assumes "key_ok a" "key_ok b" "a ! 0 \<noteq> b ! 0"
  shows "bson_btree_key_cmp a b < 0 \<longleftrightarrow> key_rank a < key_rank b" "bson_btree_key_cmp a b \<noteq> 0" "key_rank a \<noteq> key_rank b"
proof -
  have "uint (a ! 0) \<noteq> uint (b ! 0)" using assms(3) by (simp add: word_uint_eq_iff)
  then show "bson_btree_key_cmp a b < 0 \<longleftrightarrow> key_rank a < key_rank b" "bson_btree_key_cmp a b \<noteq> 0"
    "key_rank a \<noteq> key_rank b"
    using key_rank_Cons [OF assms(1)] key_rank_Cons [OF assms(2)] assms(3)
    by (auto simp: bson_btree_key_cmp_def)
qed

interpretation index_key: key_order bson_btree_key_cmp key_ok key_rank
proof
  fix a b assume ok: "key_ok a" "key_ok b"
  have len: "length a = 13" "length b = 13" using ok by (simp_all add: key_ok_def BSON_BTREE_KEY_SIZE_def)
  have same: "(bson_btree_key_cmp a b < 0 \<longleftrightarrow> key_rank a < key_rank b) \<and>
      (bson_btree_key_cmp a b = 0 \<longleftrightarrow> key_rank a = key_rank b)" if "a ! 0 = b ! 0"
  proof -
    note d = bson_btree_key_cmp_def key_rank_def
    consider "b ! 0 = BSON_BTREE_TAG_NULL" | "b ! 0 = BSON_BTREE_TAG_BOOL"
      | "b ! 0 = BSON_BTREE_TAG_INT \<or> b ! 0 = BSON_BTREE_TAG_DATETIME" | "b ! 0 = BSON_BTREE_TAG_DOUBLE"
      | "b ! 0 = BSON_BTREE_TAG_OBJECTID"
      | "b ! 0 \<notin> {BSON_BTREE_TAG_NULL, BSON_BTREE_TAG_BOOL, BSON_BTREE_TAG_INT, BSON_BTREE_TAG_DATETIME,
          BSON_BTREE_TAG_DOUBLE, BSON_BTREE_TAG_OBJECTID}" by blast
    then show ?thesis
    proof cases
      case 4
      then have "\<not> double_nan (word_of_nat (field a 1 8))" "\<not> double_nan (word_of_nat (field b 1 8))"
        using ok that by (simp_all add: key_ok_def)
      with 4 that show ?thesis by (auto simp: d Let_def double_less_def btree_tag_defs)
    next
      case 5
      with that show ?thesis
        using memcmp_less [of "slice a 1 12" "slice b 1 12"] memcmp_eq [of "slice a 1 12" "slice b 1 12"] len
        by (simp add: d btree_tag_defs)
    next
      case 6
      with that show ?thesis using memcmp_less [of a b] memcmp_eq [of a b] len by (simp add: d)
    qed (use that in \<open>auto simp: d Let_def btree_tag_defs\<close>)
  qed
  show "bson_btree_key_cmp a b < 0 \<longleftrightarrow> key_rank a < key_rank b"
    using same key_cmp_tags(1) [OF ok] by blast
  show "bson_btree_key_cmp a b = 0 \<longleftrightarrow> key_rank a = key_rank b"
    using same key_cmp_tags(2,3) [OF ok] by blast
qed

end
