(* ===== verification/Btree_Page.thy ===== *)
theory Btree_Page
  imports Btree_Key Bson_Mmap
begin

text \<open>
  The pages of an index file (src/c_engine/btree.c, the page layout of
  include/custom_bson/btree.h): reading and writing entries at their offsets in the mapping, and
  what a page holds as a list of entries (\<open>page_holds\<close>).
\<close>

section \<open>The code: header fields, pages, entries\<close>

definition BSON_BTREE_PAGE_SIZE :: nat where "BSON_BTREE_PAGE_SIZE = 4096"
definition OFF_VERSION :: nat where "OFF_VERSION = 4"
definition OFF_FLAGS :: nat where "OFF_FLAGS = 6"
definition OFF_HEADER_LEN :: nat where "OFF_HEADER_LEN = 8"
definition OFF_PAGE_SIZE :: nat where "OFF_PAGE_SIZE = 12"
definition OFF_ROOT_PAGE_NO :: nat where "OFF_ROOT_PAGE_NO = 16"
definition OFF_PAGE_COUNT :: nat where "OFF_PAGE_COUNT = 24"
definition OFF_FREE_PAGE_HEAD :: nat where "OFF_FREE_PAGE_HEAD = 32"
definition OFF_KEY_TYPE_TAG :: nat where "OFF_KEY_TYPE_TAG = 40"
definition OFF_FIELD_PATH_LEN :: nat where "OFF_FIELD_PATH_LEN = 41"
definition OFF_FIELD_PATH :: nat where "OFF_FIELD_PATH = 56"
definition PAGE_OFF_TYPE :: nat where "PAGE_OFF_TYPE = 0"
definition PAGE_OFF_COUNT :: nat where "PAGE_OFF_COUNT = 2"
definition PAGE_OFF_LINK :: nat where "PAGE_OFF_LINK = 8"
definition PAGE_HEADER_LEN :: nat where "PAGE_HEADER_LEN = 16"
definition PAGE_TYPE_LEAF :: byte where "PAGE_TYPE_LEAF = 1"
definition PAGE_TYPE_INTERNAL :: byte where "PAGE_TYPE_INTERNAL = 2"
definition LEAF_ENTRY_LEN :: nat where "LEAF_ENTRY_LEN = 22"
definition LEAF_MAX_ENTRIES :: nat where "LEAF_MAX_ENTRIES = 180"
definition LEAF_ENTRY_FLAG_DEAD :: byte where "LEAF_ENTRY_FLAG_DEAD = 1"
definition INTERNAL_ENTRY_LEN :: nat where "INTERNAL_ENTRY_LEN = 21"
definition INTERNAL_MAX_KEYS :: nat where "INTERNAL_MAX_KEYS = 190"

lemmas btree_page_defs =
  BSON_BTREE_PAGE_SIZE_def PAGE_OFF_TYPE_def PAGE_OFF_COUNT_def PAGE_OFF_LINK_def
  PAGE_HEADER_LEN_def LEAF_ENTRY_LEN_def INTERNAL_ENTRY_LEN_def BSON_BTREE_KEY_SIZE_def

lemmas btree_off_defs =
  OFF_VERSION_def OFF_FLAGS_def OFF_HEADER_LEN_def OFF_PAGE_SIZE_def OFF_ROOT_PAGE_NO_def
  OFF_PAGE_COUNT_def OFF_FREE_PAGE_HEAD_def OFF_KEY_TYPE_TAG_def OFF_FIELD_PATH_LEN_def
  OFF_FIELD_PATH_def

text \<open>
  A pointer into the mapping is its offset. The product is not reduced: a page number so large that it
  wraps the pointer, which only a corrupt file has, is a fault here, whereas the code may get to another page.
\<close>

definition page_ptr :: "nat \<Rightarrow> nat" where
  "page_ptr page_no = page_no * BSON_BTREE_PAGE_SIZE"

definition leaf_entry_ptr :: "nat \<Rightarrow> nat \<Rightarrow> nat" where
  "leaf_entry_ptr page i = page + PAGE_HEADER_LEN + i * LEAF_ENTRY_LEN"

definition internal_entry_ptr :: "nat \<Rightarrow> nat \<Rightarrow> nat" where
  "internal_entry_ptr page i = page + PAGE_HEADER_LEN + i * INTERNAL_ENTRY_LEN"

definition write_leaf_entry :: "byte list \<Rightarrow> nat \<Rightarrow> key \<Rightarrow> nat \<Rightarrow> byte \<Rightarrow> byte list result" where
  "write_leaf_entry m slot key offset flags =
     rbind (poke m slot key) (\<lambda>m.
     rbind (write_u64 m (slot + BSON_BTREE_KEY_SIZE) offset) (\<lambda>m.
     poke m (slot + BSON_BTREE_KEY_SIZE + 8) [flags]))"

text \<open>The key and child of an internal entry, written by the insertion.\<close>

definition write_internal_entry :: "byte list \<Rightarrow> nat \<Rightarrow> key \<Rightarrow> nat \<Rightarrow> byte list result" where
  "write_internal_entry m slot key child =
     rbind (poke m slot key) (\<lambda>m. write_u64 m (slot + BSON_BTREE_KEY_SIZE) child)"

definition read_key :: "byte list \<Rightarrow> nat \<Rightarrow> key result" where
  "read_key m slot = peek m slot BSON_BTREE_KEY_SIZE"

definition read_leaf_offset :: "byte list \<Rightarrow> nat \<Rightarrow> nat result" where
  "read_leaf_offset m slot = read_u64 m (slot + BSON_BTREE_KEY_SIZE)"

definition read_leaf_flags :: "byte list \<Rightarrow> nat \<Rightarrow> byte result" where
  "read_leaf_flags m slot = peek1 m (slot + BSON_BTREE_KEY_SIZE + 8)"

definition page_type :: "byte list \<Rightarrow> nat \<Rightarrow> byte result" where
  "page_type m page = peek1 m (page + PAGE_OFF_TYPE)"

definition page_entries :: "byte list \<Rightarrow> nat \<Rightarrow> nat result" where
  "page_entries m page = read_u16 m (page + PAGE_OFF_COUNT)"

definition page_link :: "byte list \<Rightarrow> nat \<Rightarrow> nat result" where
  "page_link m page = read_u64 m (page + PAGE_OFF_LINK)"

section \<open>Slices of concatenated entries\<close>

lemma slice_slice: "q + k \<le> n \<Longrightarrow> slice (slice m p n) q k = slice m (p + q) k"
  by (simp add: slice_def drop_take take_take min_def add.commute)

lemma slice_append2: "slice (xs @ ys) (length xs + p) n = slice ys p n"
  by (simp add: slice_def)

lemma concat_take_drop:
  assumes "\<forall>x \<in> set xs. length x = n" "i + k \<le> length xs"
  shows "slice (concat xs) (n * i) (n * k) = concat (take k (drop i xs))"
proof -
  have len: "length (concat ys) = n * length ys" if "set ys \<subseteq> set xs" for ys
    using that assms(1) by (induction ys) auto
  have "concat xs = concat (take i xs) @ concat (take k (drop i xs)) @ concat (drop (i + k) xs)"
    by (metis append_take_drop_id concat_append drop_drop add.commute)
  moreover have "length (concat (take i xs)) = n * i" "length (concat (take k (drop i xs))) = n * k"
    using len [of "take i xs"] len [of "take k (drop i xs)"] assms(2)
    by (auto dest: in_set_takeD in_set_dropD)
  ultimately show ?thesis by (simp add: slice_def)
qed

lemma length_concat_fixed: "\<forall>x \<in> set xs. length x = n \<Longrightarrow> length (concat xs) = n * length xs"
  by (induction xs) auto

lemma concat_nth:
  assumes "\<forall>x \<in> set xs. length x = n" "i < length xs"
  shows "slice (concat xs) (n * i) n = xs ! i"
  using concat_take_drop [OF assms(1), of i 1] assms(2) by (simp add: take_Suc_conv_app_nth hd_drop_conv_nth)

lemma put_append:
  "a + length xs + length ys \<le> length m \<Longrightarrow> put (put m a xs) (a + length xs) ys = put m a (xs @ ys)"
  by (simp add: put_def add.assoc add.commute add.left_commute)

section \<open>What a page holds\<close>

type_synonym leaf_entry = "key \<times> nat \<times> byte"

definition leaf_bytes :: "leaf_entry \<Rightarrow> byte list" where
  "leaf_bytes e = (case e of (k, off, fl) \<Rightarrow> k @ nat_le 8 off @ [fl])"

definition internal_bytes :: "key \<times> nat \<Rightarrow> byte list" where
  "internal_bytes e = (case e of (k, child) \<Rightarrow> k @ nat_le 8 child)"

definition leaf_wf :: "leaf_entry \<Rightarrow> bool" where
  "leaf_wf e \<longleftrightarrow> length (fst e) = 13 \<and> fst (snd e) < 2 ^ 64"

definition internal_wf :: "key \<times> nat \<Rightarrow> bool" where
  "internal_wf e \<longleftrightarrow> length (fst e) = 13 \<and> snd e < 2 ^ 64"

datatype page = LeafPage nat "leaf_entry list" | InternalPage nat "(key \<times> nat) list"

fun page_holds :: "byte list \<Rightarrow> nat \<Rightarrow> page \<Rightarrow> bool" where
  "page_holds m p (LeafPage link es) \<longleftrightarrow>
     p + 4096 \<le> length m \<and> m ! p = PAGE_TYPE_LEAF \<and> field m (p + 2) 2 = length es \<and>
     field m (p + 8) 8 = link \<and> length es \<le> LEAF_MAX_ENTRIES \<and> (\<forall>e \<in> set es. leaf_wf e) \<and>
     slice m (p + 16) (22 * length es) = concat (map leaf_bytes es)"
| "page_holds m p (InternalPage link es) \<longleftrightarrow>
     p + 4096 \<le> length m \<and> m ! p = PAGE_TYPE_INTERNAL \<and> field m (p + 2) 2 = length es \<and>
     field m (p + 8) 8 = link \<and> length es \<le> INTERNAL_MAX_KEYS \<and> (\<forall>e \<in> set es. internal_wf e) \<and>
     slice m (p + 16) (21 * length es) = concat (map internal_bytes es)"

lemma length_leaf_bytes: "leaf_wf e \<Longrightarrow> length (leaf_bytes e) = 22"
  by (auto simp: leaf_bytes_def leaf_wf_def split: prod.split)

lemma length_internal_bytes: "internal_wf e \<Longrightarrow> length (internal_bytes e) = 21"
  by (auto simp: internal_bytes_def internal_wf_def split: prod.split)

text \<open>Only the bytes of a page decide what it holds.\<close>

lemma page_holds_local:
  assumes "page_holds m p pg" "slice m' p 4096 = slice m p 4096" "p + 4096 \<le> length m'"
  shows "page_holds m' p pg"
proof -
  have sub: "slice m' (p + q) k = slice m (p + q) k" if "q + k \<le> 4096" for q k
    using that arg_cong [OF assms(2), of "\<lambda>s. slice s q k"] by (simp add: slice_slice)
  have le: "p + 4096 \<le> length m" using assms(1) by (cases pg) simp_all
  have b: "m' ! p = m ! p"
    using arg_cong [OF assms(2), of "\<lambda>s. s ! 0"] le assms(3) by (simp add: nth_slice)
  show ?thesis
    using assms(1) assms(3) b sub sub [of 2 2]
    by (cases pg) (simp_all add: field_def LEAF_MAX_ENTRIES_def INTERNAL_MAX_KEYS_def)
qed

text \<open>Reading through a page.\<close>

lemma page_holds_header:
  assumes "page_holds m p pg"
  shows "page_type m p = Ok (case pg of LeafPage _ _ \<Rightarrow> PAGE_TYPE_LEAF | InternalPage _ _ \<Rightarrow> PAGE_TYPE_INTERNAL)"
    "page_entries m p = Ok (case pg of LeafPage _ es \<Rightarrow> length es | InternalPage _ es \<Rightarrow> length es)"
    "page_link m p = Ok (case pg of LeafPage l _ \<Rightarrow> l | InternalPage l _ \<Rightarrow> l)"
  using assms
  by (cases pg; simp add: page_type_def page_entries_def page_link_def btree_page_defs peek1_def
      read_u16_field read_u64_field)+

lemma leaf_slot_bytes:
  assumes "page_holds m p (LeafPage link es)" "i < length es"
  shows "slice m (leaf_entry_ptr p i) 22 = leaf_bytes (es ! i)" "leaf_entry_ptr p i + 22 \<le> length m"
proof -
  have le: "22 * i + 22 \<le> 22 * length es" "22 * length es \<le> 22 * 180"
    using assms by (simp_all add: LEAF_MAX_ENTRIES_def)
  then show "leaf_entry_ptr p i + 22 \<le> length m"
    using assms(1) by (simp add: leaf_entry_ptr_def btree_page_defs)
  have "slice m (p + 16 + 22 * i) 22 = slice (concat (map leaf_bytes es)) (22 * i) 22"
    using assms(1) le slice_slice [of "22 * i" 22 "22 * length es" m "p + 16"] by simp
  also have "\<dots> = leaf_bytes (es ! i)"
    using assms by (subst concat_nth) (auto simp: length_leaf_bytes)
  finally show "slice m (leaf_entry_ptr p i) 22 = leaf_bytes (es ! i)"
    by (simp add: leaf_entry_ptr_def btree_page_defs mult.commute)
qed

lemma internal_slot_bytes:
  assumes "page_holds m p (InternalPage link es)" "i < length es"
  shows "slice m (internal_entry_ptr p i) 21 = internal_bytes (es ! i)" "internal_entry_ptr p i + 21 \<le> length m"
proof -
  have le: "21 * i + 21 \<le> 21 * length es" "21 * length es \<le> 21 * 190"
    using assms by (simp_all add: INTERNAL_MAX_KEYS_def)
  then show "internal_entry_ptr p i + 21 \<le> length m"
    using assms(1) by (simp add: internal_entry_ptr_def btree_page_defs)
  have "slice m (p + 16 + 21 * i) 21 = slice (concat (map internal_bytes es)) (21 * i) 21"
    using assms(1) le slice_slice [of "21 * i" 21 "21 * length es" m "p + 16"] by simp
  also have "\<dots> = internal_bytes (es ! i)"
    using assms by (subst concat_nth) (auto simp: length_internal_bytes)
  finally show "slice m (internal_entry_ptr p i) 21 = internal_bytes (es ! i)"
    by (simp add: internal_entry_ptr_def btree_page_defs mult.commute)
qed

lemma leaf_slot_reads:
  assumes "page_holds m p (LeafPage link es)" "i < length es"
  shows "read_key m (leaf_entry_ptr p i) = Ok (fst (es ! i))"
    "read_leaf_offset m (leaf_entry_ptr p i) = Ok (fst (snd (es ! i)))"
    "read_leaf_flags m (leaf_entry_ptr p i) = Ok (snd (snd (es ! i)))"
proof -
  let ?a = "leaf_entry_ptr p i"
  obtain k off fl where e: "es ! i = (k, off, fl)" by (metis prod_cases3)
  have "leaf_wf (es ! i)" using assms by simp
  then have wf: "length k = 13" "off < 2 ^ 64" by (simp_all add: leaf_wf_def e)
  note s = leaf_slot_bytes [OF assms]
  have sub: "slice m (?a + q) n = slice (k @ nat_le 8 off @ [fl]) q n" if "q + n \<le> 22" for q n
    using slice_slice [OF that, of m ?a] s(1) by (simp add: e leaf_bytes_def)
  show "read_key m ?a = Ok (fst (es ! i))"
    using sub [of 0 13] s(2) wf by (simp add: read_key_def btree_page_defs peek_slice e slice_append1 del: peek_Ok)
      (simp add: slice_def)
  have "slice m (?a + 13) 8 = nat_le 8 off"
    using sub [of 13 8] wf(1) by (simp add: slice_def)
  then show "read_leaf_offset m ?a = Ok (fst (snd (es ! i)))"
    using s(2) wf by (simp add: read_leaf_offset_def btree_page_defs read_u64_field field_def e)
  have "slice m (?a + 21) 1 = [fl]" using sub [of 21 1] wf(1) by (simp add: slice_def)
  then have "m ! (?a + 21) = fl" using s(2) nth_slice [of 0 1 "?a + 21" m] by simp
  then show "read_leaf_flags m ?a = Ok (snd (snd (es ! i)))"
    using s(2) by (simp add: read_leaf_flags_def btree_page_defs peek1_def e add.commute)
qed

lemma internal_slot_reads:
  assumes "page_holds m p (InternalPage link es)" "i < length es"
  shows "read_key m (internal_entry_ptr p i) = Ok (fst (es ! i))"
    "read_u64 m (internal_entry_ptr p i + BSON_BTREE_KEY_SIZE) = Ok (snd (es ! i))"
proof -
  let ?a = "internal_entry_ptr p i"
  obtain k c where e: "es ! i = (k, c)" by fastforce
  have "internal_wf (es ! i)" using assms by simp
  then have wf: "length k = 13" "c < 2 ^ 64" by (simp_all add: internal_wf_def e)
  note s = internal_slot_bytes [OF assms]
  have sub: "slice m (?a + q) n = slice (k @ nat_le 8 c) q n" if "q + n \<le> 21" for q n
    using slice_slice [OF that, of m ?a] s(1) by (simp add: e internal_bytes_def)
  show "read_key m ?a = Ok (fst (es ! i))"
    using sub [of 0 13] s(2) wf by (simp add: read_key_def btree_page_defs peek_slice e slice_append1 del: peek_Ok)
      (simp add: slice_def)
  have "slice m (?a + 13) 8 = nat_le 8 c"
    using sub [of 13 8] wf(1) by (simp add: slice_def)
  then show "read_u64 m (?a + BSON_BTREE_KEY_SIZE) = Ok (snd (es ! i))"
    using s(2) wf by (simp add: btree_page_defs read_u64_field field_def e)
qed

end
