(* ===== verification/Btree_Search.thy ===== *)
theory Btree_Search
  imports Btree_Page
begin

text \<open>
  Searching the B+tree of src/c_engine/btree.c: descent, lookup, range and delete, as functions of
  the mapped bytes, and what they return for a file that holds a well-formed tree.

  A loop that follows page numbers may run for ever on a corrupt file. It is given fuel, one
  round for each page the mapping has room for: the walk depends on the page number only, so
  that a walk of more rounds has come back to a page it has seen and never ends.
\<close>

section \<open>The code\<close>

subsection \<open>Offset lists\<close>

record bson_btree_offset_list =
  ol_data :: "nat list"
  ol_cap :: nat

definition bson_btree_offset_list_init :: bson_btree_offset_list where
  "bson_btree_offset_list_init = \<lparr>ol_data = [], ol_cap = 0\<rparr>"

definition bson_btree_offset_list_free :: "bson_btree_offset_list \<Rightarrow> bson_btree_offset_list" where
  "bson_btree_offset_list_free l = l\<lparr>ol_data := [], ol_cap := 0\<rparr>"

text \<open>\<open>alloc\<close> says which sizes in bytes realloc grants; a store past the capacity is a fault.\<close>

definition offset_list_push ::
    "(nat \<Rightarrow> bool) \<Rightarrow> nat \<Rightarrow> bson_btree_offset_list \<Rightarrow> bson_btree_offset_list result" where
  "offset_list_push alloc v l =
     rbind (if length (ol_data l) = ol_cap l then
              let new_cap = (if ol_cap l = 0 then 16 else size_mul (ol_cap l) 2) in
              if alloc (size_mul new_cap 8) then Ok (l\<lparr>ol_cap := new_cap\<rparr>) else Err BSON_ERR_OUT_OF_MEMORY
            else Ok l) (\<lambda>l.
       if length (ol_data l) < ol_cap l then Ok (l\<lparr>ol_data := ol_data l @ [v]\<rparr>) else Fault)"

subsection \<open>Descent\<close>

definition current_root :: "byte list \<Rightarrow> nat result" where
  "current_root m = read_u64 m OFF_ROOT_PAGE_NO"

definition page_fuel :: "byte list \<Rightarrow> nat" where
  "page_fuel m = length m div BSON_BTREE_PAGE_SIZE + 1"

text \<open>The loop over the keys of an internal page; \<open>Ok (index, child)\<close> where it stops.\<close>

function child_loop :: "byte list \<Rightarrow> nat \<Rightarrow> key \<Rightarrow> nat \<Rightarrow> nat \<Rightarrow> nat \<Rightarrow> (nat \<times> nat) result" where
  "child_loop m page key i count child =
     (if i < count then
        rbind (read_key m (internal_entry_ptr page i)) (\<lambda>entry.
          if bson_btree_key_cmp key entry < 0 then Ok (i, child)
          else rbind (read_u64 m (internal_entry_ptr page i + BSON_BTREE_KEY_SIZE)) (\<lambda>child.
                 child_loop m page key (i + 1) count child))
      else Ok (i, child))"
  by pat_completeness auto
termination
  by (relation "measure (\<lambda>(m, page, key, i, count, child). count - i)") auto

declare child_loop.simps [simp del]

fun descend_to_leaf :: "nat \<Rightarrow> byte list \<Rightarrow> nat \<Rightarrow> key \<Rightarrow> nat result" where
  "descend_to_leaf fuel m page_no key =
     (let page = page_ptr page_no in
      rbind (page_type m page) (\<lambda>type.
        if type = PAGE_TYPE_INTERNAL then
          (case fuel of 0 \<Rightarrow> Diverge | Suc fuel' \<Rightarrow>
            rbind (page_entries m page) (\<lambda>count.
            rbind (page_link m page) (\<lambda>link.
            rbind (child_loop m page key 0 count link) (\<lambda>(_, child).
            descend_to_leaf fuel' m child key))))
        else Ok page_no))"

fun leftmost_leaf :: "nat \<Rightarrow> byte list \<Rightarrow> nat \<Rightarrow> nat result" where
  "leftmost_leaf fuel m page_no =
     (let page = page_ptr page_no in
      rbind (page_type m page) (\<lambda>type.
        if type = PAGE_TYPE_INTERNAL then
          (case fuel of 0 \<Rightarrow> Diverge | Suc fuel' \<Rightarrow>
            rbind (page_link m page) (\<lambda>link. leftmost_leaf fuel' m link))
        else Ok page_no))"

declare descend_to_leaf.simps [simp del] leftmost_leaf.simps [simp del]

subsection \<open>Walking the leaves\<close>

text \<open>
  The loop that lookup, range, delete and the duplicate check share: over the entries of a leaf,
  then on to the next leaf. The body of an iteration, given the address of the entry, goes on
  with a new state or returns from the function.
\<close>

datatype 's step = Next 's | Return 's

function scan_entries :: "(nat \<Rightarrow> 's \<Rightarrow> 's step result) \<Rightarrow> nat \<Rightarrow> nat \<Rightarrow> nat \<Rightarrow> 's \<Rightarrow> 's step result" where
  "scan_entries body page i count s =
     (if i < count then
        rbind (body (leaf_entry_ptr page i) s) (\<lambda>r. case r of
            Return s' \<Rightarrow> Ok (Return s')
          | Next s' \<Rightarrow> scan_entries body page (i + 1) count s')
      else Ok (Next s))"
  by pat_completeness auto
termination
  by (relation "measure (\<lambda>(body, page, i, count, s). count - i)") auto

declare scan_entries.simps [simp del]

fun walk_leaves :: "nat \<Rightarrow> byte list \<Rightarrow> (nat \<Rightarrow> 's \<Rightarrow> 's step result) \<Rightarrow> nat \<Rightarrow> 's \<Rightarrow> 's step result" where
  "walk_leaves fuel m body leaf_no s =
     (if leaf_no = 0 then Ok (Next s)
      else case fuel of 0 \<Rightarrow> Diverge | Suc fuel' \<Rightarrow>
        let page = page_ptr leaf_no in
        rbind (page_entries m page) (\<lambda>count.
        rbind (scan_entries body page 0 count s) (\<lambda>r. case r of
            Return s' \<Rightarrow> Ok (Return s')
          | Next s' \<Rightarrow> rbind (page_link m page) (\<lambda>next. walk_leaves fuel' m body next s'))))"

declare walk_leaves.simps [simp del]

definition entry_dead :: "byte \<Rightarrow> bool" where
  "entry_dead flags \<longleftrightarrow> flags AND LEAF_ENTRY_FLAG_DEAD \<noteq> 0"

fun stepped :: "'s step \<Rightarrow> 's" where
  "stepped (Next s) = s"
| "stepped (Return s) = s"

text \<open>\<^verbatim>\<open>key_has_live_entry\<close>: the state is the answer so far.\<close>

definition live_entry_body :: "byte list \<Rightarrow> key \<Rightarrow> nat \<Rightarrow> bool \<Rightarrow> bool step result" where
  "live_entry_body m key entry s =
     rbind (read_key m entry) (\<lambda>k.
       let cmp = bson_btree_key_cmp k key in
       if cmp > 0 then Ok (Return False)
       else if cmp = 0 then
         rbind (read_leaf_flags m entry) (\<lambda>flags.
           if \<not> entry_dead flags then Ok (Return True) else Ok (Next s))
       else Ok (Next s))"

definition key_has_live_entry :: "byte list \<Rightarrow> nat \<Rightarrow> key \<Rightarrow> bool result" where
  "key_has_live_entry m leaf_no key =
     rbind (walk_leaves (page_fuel m) m (live_entry_body m key) leaf_no False) (\<lambda>r. Ok (stepped r))"

definition lookup_body ::
    "(nat \<Rightarrow> bool) \<Rightarrow> byte list \<Rightarrow> key \<Rightarrow> nat \<Rightarrow> bson_btree_offset_list \<Rightarrow> bson_btree_offset_list step result" where
  "lookup_body alloc m key entry out =
     rbind (read_key m entry) (\<lambda>k.
       let cmp = bson_btree_key_cmp k key in
       if cmp > 0 then Ok (Return out)
       else if cmp = 0 then
         rbind (read_leaf_flags m entry) (\<lambda>flags.
           if \<not> entry_dead flags
           then rbind (read_leaf_offset m entry) (\<lambda>off.
                rbind (offset_list_push alloc off out) (\<lambda>out. Ok (Next out)))
           else Ok (Next out))
       else Ok (Next out))"

definition bson_btree_lookup ::
    "(nat \<Rightarrow> bool) \<Rightarrow> key \<Rightarrow> bson_btree_offset_list \<Rightarrow> byte list \<Rightarrow> bson_btree_offset_list result" where
  "bson_btree_lookup alloc key out m =
     rbind (current_root m) (\<lambda>root.
     rbind (descend_to_leaf (page_fuel m) m root key) (\<lambda>leaf_no.
     rbind (walk_leaves (page_fuel m) m (lookup_body alloc m key) leaf_no out) (\<lambda>r. Ok (stepped r))))"

text \<open>A bound is None when the pointer is NULL.\<close>

definition range_body ::
    "(nat \<Rightarrow> bool) \<Rightarrow> byte list \<Rightarrow> key option \<Rightarrow> bool \<Rightarrow> key option \<Rightarrow> bool \<Rightarrow>
     nat \<Rightarrow> bson_btree_offset_list \<Rightarrow> bson_btree_offset_list step result" where
  "range_body alloc m low low_inclusive high high_inclusive entry out =
     rbind (read_key m entry) (\<lambda>k.
       if (case low of None \<Rightarrow> False
           | Some lo \<Rightarrow> bson_btree_key_cmp k lo < 0 \<or> bson_btree_key_cmp k lo = 0 \<and> \<not> low_inclusive)
       then Ok (Next out)
       else if (case high of None \<Rightarrow> False
           | Some hi \<Rightarrow> bson_btree_key_cmp k hi > 0 \<or> bson_btree_key_cmp k hi = 0 \<and> \<not> high_inclusive)
       then Ok (Return out)
       else rbind (read_leaf_flags m entry) (\<lambda>flags.
         if \<not> entry_dead flags
         then rbind (read_leaf_offset m entry) (\<lambda>off.
              rbind (offset_list_push alloc off out) (\<lambda>out. Ok (Next out)))
         else Ok (Next out)))"

definition bson_btree_range ::
    "(nat \<Rightarrow> bool) \<Rightarrow> key option \<Rightarrow> bool \<Rightarrow> key option \<Rightarrow> bool \<Rightarrow>
     bson_btree_offset_list \<Rightarrow> byte list \<Rightarrow> bson_btree_offset_list result" where
  "bson_btree_range alloc low low_inclusive high high_inclusive out m =
     rbind (current_root m) (\<lambda>root.
     rbind (case low of Some lo \<Rightarrow> descend_to_leaf (page_fuel m) m root lo
                      | None \<Rightarrow> leftmost_leaf (page_fuel m) m root) (\<lambda>leaf_no.
     rbind (walk_leaves (page_fuel m) m
              (range_body alloc m low low_inclusive high high_inclusive) leaf_no out) (\<lambda>r.
     Ok (stepped r))))"

text \<open>Delete finds the entry first; the state is its address, once found.\<close>

definition delete_body :: "byte list \<Rightarrow> key \<Rightarrow> nat \<Rightarrow> nat \<Rightarrow> nat option \<Rightarrow> nat option step result" where
  "delete_body m key record_offset entry s =
     rbind (read_key m entry) (\<lambda>k.
       let cmp = bson_btree_key_cmp k key in
       if cmp > 0 then Ok (Return None)
       else if cmp = 0 then
         rbind (read_leaf_offset m entry) (\<lambda>off.
           if off = record_offset then Ok (Return (Some entry)) else Ok (Next s))
       else Ok (Next s))"

definition bson_btree_delete :: "key \<Rightarrow> nat \<Rightarrow> byte list \<Rightarrow> byte list result" where
  "bson_btree_delete key record_offset m =
     rbind (current_root m) (\<lambda>root.
     rbind (descend_to_leaf (page_fuel m) m root key) (\<lambda>leaf_no.
     rbind (walk_leaves (page_fuel m) m (delete_body m key record_offset) leaf_no None) (\<lambda>r.
       case stepped r of
         None \<Rightarrow> Ok m
       | Some entry \<Rightarrow> rbind (read_leaf_flags m entry) (\<lambda>flags.
           poke m (entry + BSON_BTREE_KEY_SIZE + 8) [flags OR LEAF_ENTRY_FLAG_DEAD]))))"

section \<open>Trees\<close>

text \<open>
  The abstract tree: pages by their numbers, keys and entries as the pages hold them, and the
  leaves in order, linked.
\<close>

datatype btree = Lf nat "leaf_entry list" | Nd nat btree "(key \<times> btree) list"

fun root_no :: "btree \<Rightarrow> nat" where
  "root_no (Lf no es) = no"
| "root_no (Nd no t ts) = no"

fun leaves :: "btree \<Rightarrow> (nat \<times> leaf_entry list) list"
  and kid_leaves :: "(key \<times> btree) list \<Rightarrow> (nat \<times> leaf_entry list) list" where
  "leaves (Lf no es) = [(no, es)]"
| "leaves (Nd no t ts) = leaves t @ kid_leaves ts"
| "kid_leaves [] = []"
| "kid_leaves ((k, t) # ts) = leaves t @ kid_leaves ts"

definition leaf_entries :: "(nat \<times> leaf_entry list) list \<Rightarrow> leaf_entry list" where
  "leaf_entries ls = concat (map snd ls)"

definition entries :: "btree \<Rightarrow> leaf_entry list" where
  "entries t = leaf_entries (leaves t)"

fun pages :: "btree \<Rightarrow> nat list" and kid_pages :: "(key \<times> btree) list \<Rightarrow> nat list" where
  "pages (Lf no es) = [no]"
| "pages (Nd no t ts) = no # pages t @ kid_pages ts"
| "kid_pages [] = []"
| "kid_pages ((k, t) # ts) = pages t @ kid_pages ts"

definition first_leaf :: "btree \<Rightarrow> nat" where
  "first_leaf t = fst (hd (leaves t))"

definition next_link :: "(nat \<times> leaf_entry list) list \<Rightarrow> nat \<Rightarrow> nat" where
  "next_link ls link = (case ls of [] \<Rightarrow> link | l # _ \<Rightarrow> fst l)"

text \<open>The mapping \<open>m\<close> holds the tree; the link of its last leaf is \<open>link\<close>.\<close>

fun tree_holds :: "byte list \<Rightarrow> nat \<Rightarrow> btree \<Rightarrow> bool"
  and kids_hold :: "byte list \<Rightarrow> nat \<Rightarrow> (key \<times> btree) list \<Rightarrow> bool" where
  "tree_holds m link (Lf no es) \<longleftrightarrow> page_holds m (page_ptr no) (LeafPage link es)"
| "tree_holds m link (Nd no t ts) \<longleftrightarrow>
     page_holds m (page_ptr no) (InternalPage (root_no t) (map (\<lambda>(k, t). (k, root_no t)) ts)) \<and>
     tree_holds m (next_link (kid_leaves ts) link) t \<and> kids_hold m link ts"
| "kids_hold m link [] \<longleftrightarrow> True"
| "kids_hold m link ((k, t) # ts) \<longleftrightarrow>
     tree_holds m (next_link (kid_leaves ts) link) t \<and> kids_hold m link ts"

text \<open>A separator is the first key of the subtree on its right.\<close>

fun seps_ok :: "btree \<Rightarrow> bool" and kid_seps_ok :: "(key \<times> btree) list \<Rightarrow> bool" where
  "seps_ok (Lf no es) \<longleftrightarrow> True"
| "seps_ok (Nd no t ts) \<longleftrightarrow> seps_ok t \<and> kid_seps_ok ts"
| "kid_seps_ok [] \<longleftrightarrow> True"
| "kid_seps_ok ((k, t) # ts) \<longleftrightarrow> seps_ok t \<and> fst (hd (snd (hd (leaves t)))) = k \<and> kid_seps_ok ts"

definition leaves_full :: "(nat \<times> leaf_entry list) list \<Rightarrow> bool" where
  "leaves_full ls \<longleftrightarrow> (\<forall>l \<in> set ls. snd l \<noteq> [])"

definition entry_rank :: "leaf_entry \<Rightarrow> int list" where
  "entry_rank e = key_rank (fst e)"

definition sorted_entries :: "leaf_entry list \<Rightarrow> bool" where
  "sorted_entries es \<longleftrightarrow> (\<forall>e \<in> set es. key_ok (fst e)) \<and> sorted (map entry_rank es)"

text \<open>Only the root of an empty tree has no entry.\<close>

definition tree_ok :: "btree \<Rightarrow> bool" where
  "tree_ok t \<longleftrightarrow> seps_ok t \<and> sorted_entries (entries t) \<and>
     (leaves_full (leaves t) \<or> (\<exists>no. t = Lf no []))"

text \<open>The bytes of an index file: a header, the root and the pages, all different.\<close>

definition index_image :: "byte list \<Rightarrow> btree \<Rightarrow> bool" where
  "index_image m t \<longleftrightarrow>
     field m OFF_ROOT_PAGE_NO 8 = root_no t \<and> distinct (pages t) \<and>
     (\<forall>no \<in> set (pages t). 1 \<le> no \<and> no \<le> field m OFF_PAGE_COUNT 8) \<and>
     (field m OFF_PAGE_COUNT 8 + 1) * 4096 \<le> length m \<and> length m < 2 ^ 61 \<and>
     tree_holds m 0 t \<and> tree_ok t"

section \<open>Leaves and pages\<close>

lemma leaves_not_Nil [simp]: "leaves t \<noteq> []"
  by (induction t) (simp_all)

fun chain :: "byte list \<Rightarrow> nat \<Rightarrow> (nat \<times> leaf_entry list) list \<Rightarrow> bool" where
  "chain m link [] \<longleftrightarrow> True"
| "chain m link ((no, es) # ls) \<longleftrightarrow>
     page_holds m (page_ptr no) (LeafPage (next_link ls link) es) \<and> chain m link ls"

lemma next_link_append [simp]: "next_link (xs @ ys) link = next_link xs (next_link ys link)"
  by (cases xs) (simp_all add: next_link_def)

lemma chain_append: "chain m link (xs @ ys) \<longleftrightarrow> chain m (next_link ys link) xs \<and> chain m link ys"
  by (induction xs) auto

lemma tree_chain:
  "tree_holds m link t \<Longrightarrow> chain m link (leaves t)"
  "kids_hold m link ts \<Longrightarrow> chain m link (kid_leaves ts)"
  by (induction m link t and m link ts rule: tree_holds_kids_hold.induct) (auto simp: chain_append next_link_def)

fun height :: "btree \<Rightarrow> nat" and kids_height :: "(key \<times> btree) list \<Rightarrow> nat" where
  "height (Lf no es) = 0"
| "height (Nd no t ts) = Suc (max (height t) (kids_height ts))"
| "kids_height [] = 0"
| "kids_height ((k, t) # ts) = max (height t) (kids_height ts)"

lemma height_pages: "height t < length (pages t)" "kids_height ts \<le> length (kid_pages ts)"
  by (induction t and ts rule: height_kids_height.induct) auto

lemma leaves_pages:
  "length (leaves t) \<le> length (pages t) \<and> set (map fst (leaves t)) \<subseteq> set (pages t)"
  "length (kid_leaves ts) \<le> length (kid_pages ts) \<and> set (map fst (kid_leaves ts)) \<subseteq> set (kid_pages ts)"
  by (induction t and ts rule: pages_kid_pages.induct) auto

lemma root_in_pages [simp]: "root_no t \<in> set (pages t)"
  by (cases t) simp_all

lemma index_pages_fuel:
  assumes "index_image m t"
  shows "length (pages t) < page_fuel m"
proof -
  define n where "n = field m OFF_PAGE_COUNT 8"
  have n: "set (pages t) \<subseteq> {1..n}" "(n + 1) * 4096 \<le> length m" "distinct (pages t)"
    using assms by (auto simp: index_image_def n_def)
  then have "length (pages t) \<le> n"
    using card_mono [OF _ n(1)] by (simp add: distinct_card [OF n(3)])
  moreover have "n + 1 \<le> length m div 4096" using n(2) by (simp add: less_eq_div_iff_mult_less_eq)
  ultimately show ?thesis by (simp add: page_fuel_def BSON_BTREE_PAGE_SIZE_def)
qed

section \<open>Descent\<close>

fun pick :: "key \<Rightarrow> nat \<Rightarrow> nat \<Rightarrow> (key \<times> nat) list \<Rightarrow> nat \<times> nat" where
  "pick key i c [] = (i, c)"
| "pick key i c ((k, c') # r) = (if bson_btree_key_cmp key k < 0 then (i, c) else pick key (i + 1) c' r)"

lemma child_loop_pick:
  assumes "page_holds m p (InternalPage link ks)" "i \<le> length ks"
  shows "child_loop m p key i (length ks) c = Ok (pick key i c (drop i ks))"
  using assms(2)
proof (induction "length ks - i" arbitrary: i c)
  case 0
  then show ?case by (simp add: child_loop.simps)
next
  case (Suc n)
  then have i: "i < length ks" and n: "n = length ks - (i + 1)" by auto
  obtain k c' where e: "ks ! i = (k, c')" by fastforce
  have d: "drop i ks = (k, c') # drop (i + 1) ks" using i e by (simp add: Cons_nth_drop_Suc [symmetric])
  show ?case
    using internal_slot_reads [OF assms(1) i] i e d Suc.hyps(1) [OF n, of c']
    by (simp add: child_loop.simps [of m p key i])
qed

text \<open>The leaf a descent reaches, with the leaves before and after it.\<close>

function path :: "key \<Rightarrow> btree \<Rightarrow> (nat \<times> leaf_entry list) list \<times> (nat \<times> leaf_entry list) \<times> (nat \<times> leaf_entry list) list"
  and kids_path :: "key \<Rightarrow> btree \<Rightarrow> (key \<times> btree) list \<Rightarrow>
    (nat \<times> leaf_entry list) list \<times> (nat \<times> leaf_entry list) \<times> (nat \<times> leaf_entry list) list" where
  "path key (Lf no es) = ([], (no, es), [])"
| "path key (Nd no t ts) = kids_path key t ts"
| "kids_path key t [] = path key t"
| "kids_path key t ((k, t') # ts) =
     (if bson_btree_key_cmp key k < 0
      then (case path key t of (a, l, c) \<Rightarrow> (a, l, c @ leaves t' @ kid_leaves ts))
      else (case kids_path key t' ts of (a, l, c) \<Rightarrow> (leaves t @ a, l, c)))"
  by pat_completeness auto
termination
  by (relation "measure (case_sum (\<lambda>(key, t). 2 * size t)
        (\<lambda>(key, t, ts). 2 * (size t + size_list (size_prod (\<lambda>_. 0) size) ts) + 1))") auto

lemma path_leaves:
  "path key t = (a, l, c) \<Longrightarrow> leaves t = a @ l # c"
  "kids_path key t ts = (a, l, c) \<Longrightarrow> leaves t @ kid_leaves ts = a @ l # c"
  by (induction key t and key t ts arbitrary: a l c and a l c rule: path_kids_path.induct)
    (force split: prod.splits if_splits)+

definition path_leaf :: "key \<Rightarrow> btree \<Rightarrow> nat" where
  "path_leaf key t = fst (fst (snd (path key t)))"

definition kids_path_leaf :: "key \<Rightarrow> btree \<Rightarrow> (key \<times> btree) list \<Rightarrow> nat" where
  "kids_path_leaf key t ts = fst (fst (snd (kids_path key t ts)))"

lemma path_leaf_simps [simp]:
  "path_leaf key (Lf no es) = no"
  "path_leaf key (Nd no t ts) = kids_path_leaf key t ts"
  "kids_path_leaf key t [] = path_leaf key t"
  "kids_path_leaf key t ((k, t') # ts) =
     (if bson_btree_key_cmp key k < 0 then path_leaf key t else kids_path_leaf key t' ts)"
  by (simp_all add: path_leaf_def kids_path_leaf_def split: prod.split)

lemma descend_path:
  "tree_holds m link t \<Longrightarrow> height t \<le> fuel \<Longrightarrow>
     descend_to_leaf fuel m (root_no t) key = Ok (path_leaf key t)"
  "tree_holds m link t \<Longrightarrow> kids_hold m link' ts \<Longrightarrow> height t \<le> fuel \<Longrightarrow> kids_height ts \<le> fuel \<Longrightarrow>
     descend_to_leaf fuel m
       (snd (pick key i (root_no t) (map (\<lambda>(k, t). (k, root_no t)) ts))) key = Ok (kids_path_leaf key t ts)"
proof (induction key t and key t ts arbitrary: link fuel and link link' fuel i rule: path_kids_path.induct)
  case (1 key no es)
  then show ?case
    using page_holds_header [of m "page_ptr no" "LeafPage link es"]
    by (simp add: descend_to_leaf.simps PAGE_TYPE_LEAF_def PAGE_TYPE_INTERNAL_def)
next
  case (2 key no t ts)
  let ?ks = "map (\<lambda>(k, t). (k, root_no t)) ts"
  obtain fuel' where f: "fuel = Suc fuel'" using "2.prems"(2) by (cases fuel) auto
  have p: "page_holds m (page_ptr no) (InternalPage (root_no t) ?ks)" using "2.prems" by simp
  have "descend_to_leaf fuel' m (snd (pick key 0 (root_no t) ?ks)) key = Ok (kids_path_leaf key t ts)"
    using "2.prems" f by (intro "2.IH") auto
  moreover have "child_loop m (page_ptr no) key 0 (length ts) (root_no t) = Ok (pick key 0 (root_no t) ?ks)"
    using child_loop_pick [OF p, of 0 key "root_no t"] by simp
  ultimately show ?case
    using page_holds_header [OF p] f by (simp add: descend_to_leaf.simps [of "Suc fuel'"] prod.case_eq_if)
next
  case (3 key t)
  then show ?case by simp
next
  case (4 key t k t' ts)
  then show ?case by auto
qed

lemma leftmost_first:
  "tree_holds m link t \<Longrightarrow> height t \<le> fuel \<Longrightarrow>
     leftmost_leaf fuel m (root_no t) = Ok (fst (hd (leaves t)))"
proof (induction t arbitrary: link fuel)
  case (Lf no es)
  then show ?case
    using page_holds_header [of m "page_ptr no" "LeafPage link es"]
    by (simp add: leftmost_leaf.simps PAGE_TYPE_LEAF_def PAGE_TYPE_INTERNAL_def)
next
  case (Nd no t ts)
  let ?ks = "map (\<lambda>(k, t). (k, root_no t)) ts"
  obtain fuel' where f: "fuel = Suc fuel'" using Nd.prems(2) by (cases fuel) auto
  have p: "page_holds m (page_ptr no) (InternalPage (root_no t) ?ks)" using Nd.prems by simp
  show ?case
    using page_holds_header [OF p] f Nd.prems Nd.IH(1) [of "next_link (kid_leaves ts) link" fuel']
    by (simp add: leftmost_leaf.simps [of "Suc fuel'"])
qed

section \<open>Where a descent arrives\<close>

lemma leaf_entries_simps [simp]:
  "leaf_entries [] = []" "leaf_entries (l # ls) = snd l @ leaf_entries ls"
  "leaf_entries (xs @ ys) = leaf_entries xs @ leaf_entries ys"
  by (simp_all add: leaf_entries_def)

lemma sorted_entries_append:
  "sorted_entries (xs @ ys) \<longleftrightarrow> sorted_entries xs \<and> sorted_entries ys \<and>
     (\<forall>x \<in> set xs. \<forall>y \<in> set ys. entry_rank x \<le> entry_rank y)"
  by (auto simp: sorted_entries_def sorted_append)

lemma sorted_entries_hd:
  "sorted_entries (x # xs) \<Longrightarrow> y \<in> set (x # xs) \<Longrightarrow> entry_rank x \<le> entry_rank y"
  by (auto simp: sorted_entries_def)

lemma leaves_full_simps [simp]:
  "leaves_full []" "leaves_full (l # ls) \<longleftrightarrow> snd l \<noteq> [] \<and> leaves_full ls"
  "leaves_full (xs @ ys) \<longleftrightarrow> leaves_full xs \<and> leaves_full ys"
  by (auto simp: leaves_full_def)

text \<open>A separator is the least key of what lies on its right.\<close>

lemma sep_least:
  assumes "fst (hd (snd (hd (leaves t)))) = k" "leaves_full (leaves t)"
    "sorted_entries (leaf_entries (leaves t @ ls))" "e \<in> set (leaf_entries (leaves t @ ls))"
  shows "key_rank k \<le> entry_rank e \<and> key_ok k"
proof -
  obtain l ls' where l: "leaves t = l # ls'" by (metis leaves_not_Nil list.exhaust)
  obtain x xs where x: "snd l = x # xs" using assms(2) l by (cases "snd l") auto
  have "leaf_entries (leaves t @ ls) = x # xs @ leaf_entries (ls' @ ls)" using l x by simp
  moreover have "fst x = k" using assms(1) l x by simp
  ultimately show ?thesis
    using assms(3,4) sorted_entries_hd [of x "xs @ leaf_entries (ls' @ ls)" e]
    by (simp add: entry_rank_def sorted_entries_def)
qed

lemma path_order:
  "path key t = (a, l, c) \<Longrightarrow> key_ok key \<Longrightarrow> seps_ok t \<Longrightarrow> leaves_full (leaves t) \<Longrightarrow>
     sorted_entries (leaf_entries (leaves t)) \<Longrightarrow>
     (\<forall>e \<in> set (leaf_entries c). key_rank key < entry_rank e) \<and>
     (a \<noteq> [] \<longrightarrow> entry_rank (hd (snd l)) \<le> key_rank key)"
  "kids_path key t ts = (a, l, c) \<Longrightarrow> key_ok key \<Longrightarrow> seps_ok t \<Longrightarrow> kid_seps_ok ts \<Longrightarrow>
     leaves_full (leaves t @ kid_leaves ts) \<Longrightarrow>
     sorted_entries (leaf_entries (leaves t @ kid_leaves ts)) \<Longrightarrow>
     (\<forall>e \<in> set (leaf_entries c). key_rank key < entry_rank e) \<and>
     (a \<noteq> [] \<longrightarrow> entry_rank (hd (snd l)) \<le> key_rank key)"
proof (induction key t and key t ts arbitrary: a l c and a l c rule: path_kids_path.induct)
  case (4 key t k t' ts)
  have sub: "sorted_entries (leaf_entries (leaves t))"
    "sorted_entries (leaf_entries (leaves t' @ kid_leaves ts))"
    using "4.prems"(6) by (auto simp: sorted_entries_append)
  have full: "leaves_full (leaves t)" "leaves_full (leaves t' @ kid_leaves ts)"
    using "4.prems"(5) by simp_all
  have sep: "fst (hd (snd (hd (leaves t')))) = k" "seps_ok t'" "kid_seps_ok ts"
    using "4.prems"(4) by simp_all
  have least: "key_rank k \<le> entry_rank e \<and> key_ok k" if "e \<in> set (leaf_entries (leaves t' @ kid_leaves ts))" for e
    using sep_least [OF sep(1) _ sub(2) that] full by simp
  obtain x ls where x: "leaves t' = x # ls" "snd x \<noteq> []"
    using full(2) by (metis leaves_full_simps(2,3) leaves_not_Nil list.exhaust)
  then have ok: "key_ok k" using least [of "hd (snd x)"] by (cases "snd x") auto
  show ?case
  proof (cases "bson_btree_key_cmp key k < 0")
    case True
    obtain c' where p: "path key t = (a, l, c')" "c = c' @ leaves t' @ kid_leaves ts"
      using "4.prems"(1) True by (auto split: prod.splits)
    have "key_rank key < key_rank k" using True index_key.cmp_less "4.prems"(2) ok by blast
    then have "\<forall>e \<in> set (leaf_entries (leaves t' @ kid_leaves ts)). key_rank key < entry_rank e"
      using least by (auto intro: less_le_trans)
    then show ?thesis
      using "4.IH"(1) [OF True p(1) "4.prems"(2,3) full(1) sub(1)] p(2) by auto
  next
    case False
    obtain a' where p: "kids_path key t' ts = (a', l, c)" "a = leaves t @ a'"
      using "4.prems"(1) False by (auto split: prod.splits)
    note ih = "4.IH"(2) [OF False p(1) "4.prems"(2) sep(2,3) full(2) sub(2)]
    have "entry_rank (hd (snd l)) \<le> key_rank key" if "a' = []"
    proof -
      have "l = x" using path_leaves(2) [OF p(1)] x(1) that by simp
      then have "fst (hd (snd l)) = k" using sep(1) x(1) by simp
      then show ?thesis
        using False index_key.cmp_less [OF "4.prems"(2) ok] by (simp add: entry_rank_def not_less)
    qed
    then show ?thesis using ih by auto
  qed
qed auto

text \<open>
  The entries of a well-formed tree around a descent: those before the leaf are no greater than
  the first entry of the leaf, which is no greater than the key; those after the leaf are
  greater than the key.
\<close>

lemma path_entries:
  assumes "tree_ok t" "key_ok key" "path key t = (a, l, c)"
  shows "entries t = leaf_entries a @ snd l @ leaf_entries c"
    "\<forall>e \<in> set (leaf_entries c). key_rank key < entry_rank e"
    "a \<noteq> [] \<Longrightarrow> snd l \<noteq> [] \<and> entry_rank (hd (snd l)) \<le> key_rank key"
proof -
  show "entries t = leaf_entries a @ snd l @ leaf_entries c"
    using path_leaves(1) [OF assms(3)] by (simp add: entries_def)
  have *: "(\<forall>e \<in> set (leaf_entries c). key_rank key < entry_rank e) \<and>
      (a \<noteq> [] \<longrightarrow> snd l \<noteq> [] \<and> entry_rank (hd (snd l)) \<le> key_rank key)"
  proof (cases "leaves_full (leaves t)")
    case True
    then have "snd l \<noteq> []" using path_leaves(1) [OF assms(3)] by simp
    then show ?thesis
      using path_order(1) [OF assms(3,2) _ True] assms(1) by (simp add: tree_ok_def entries_def)
  next
    case False
    then obtain no where "t = Lf no []" using assms(1) by (auto simp: tree_ok_def)
    then show ?thesis using assms(3) by auto
  qed
  then show "\<forall>e \<in> set (leaf_entries c). key_rank key < entry_rank e" by blast
  show "a \<noteq> [] \<Longrightarrow> snd l \<noteq> [] \<and> entry_rank (hd (snd l)) \<le> key_rank key" using * by blast
qed

section \<open>Walking linked leaves\<close>

text \<open>The body of an iteration on the i-th entry of a leaf, and the walk as a fold over entries.\<close>

fun scan_list :: "(nat \<Rightarrow> leaf_entry \<Rightarrow> 's \<Rightarrow> 's step result) \<Rightarrow> nat \<Rightarrow> leaf_entry list \<Rightarrow> 's \<Rightarrow> 's step result" where
  "scan_list f i [] s = Ok (Next s)"
| "scan_list f i (e # es) s = rbind (f i e s) (\<lambda>r. case r of
     Return s' \<Rightarrow> Ok (Return s') | Next s' \<Rightarrow> scan_list f (i + 1) es s')"

fun walk_list :: "(nat \<Rightarrow> nat \<Rightarrow> leaf_entry \<Rightarrow> 's \<Rightarrow> 's step result) \<Rightarrow> (nat \<times> leaf_entry list) list \<Rightarrow> 's \<Rightarrow> 's step result" where
  "walk_list f [] s = Ok (Next s)"
| "walk_list f (l # ls) s = rbind (scan_list (f (fst l)) 0 (snd l) s) (\<lambda>r. case r of
     Return s' \<Rightarrow> Ok (Return s') | Next s' \<Rightarrow> walk_list f ls s')"

lemma scan_entries_list:
  assumes "\<And>j s. j < length es \<Longrightarrow> body (leaf_entry_ptr p j) s = f j (es ! j) s" "i \<le> length es"
  shows "scan_entries body p i (length es) s = scan_list f i (drop i es) s"
  using assms(2)
proof (induction "length es - i" arbitrary: i s)
  case 0
  then show ?case by (simp add: scan_entries.simps)
next
  case (Suc n)
  then have i: "i < length es" and n: "n = length es - (i + 1)" by auto
  have d: "drop i es = es ! i # drop (i + 1) es" using i by (simp add: Cons_nth_drop_Suc)
  show ?case
    unfolding d scan_list.simps scan_entries.simps [of body p i]
    using i assms(1) [OF i] Suc.hyps(1) [OF n]
    by (auto intro!: rbind_cong split: step.split)
qed

lemma walk_leaves_list:
  assumes "chain m 0 ls" "length ls \<le> fuel" "\<forall>l \<in> set ls. 1 \<le> fst l"
    "\<And>no es link j s. (no, es) \<in> set ls \<Longrightarrow> page_holds m (page_ptr no) (LeafPage link es) \<Longrightarrow>
       j < length es \<Longrightarrow> body (leaf_entry_ptr (page_ptr no) j) s = f no j (es ! j) s"
  shows "walk_leaves fuel m body (next_link ls 0) s = walk_list f ls s"
  using assms
proof (induction ls arbitrary: fuel s)
  case Nil
  then show ?case by (simp add: walk_leaves.simps next_link_def)
next
  case (Cons l ls)
  obtain no es where l: "l = (no, es)" by fastforce
  obtain fuel' where fuel: "fuel = Suc fuel'" using Cons.prems(2) by (cases fuel) auto
  have p: "page_holds m (page_ptr no) (LeafPage (next_link ls 0) es)" using Cons.prems(1) l by simp
  have "scan_entries body (page_ptr no) 0 (length es) s = scan_list (f no) 0 es s" for s
    using scan_entries_list [of es body "page_ptr no" "f no" 0 s] Cons.prems(4) l p by simp
  moreover have "walk_leaves fuel' m body (next_link ls 0) s = walk_list f ls s" for s
    using Cons l fuel by (intro Cons.IH) auto
  moreover have "next_link (l # ls) 0 = no" by (simp add: next_link_def l)
  ultimately show ?case
    using page_holds_header [OF p] Cons.prems(3) l fuel
    by (auto simp: walk_leaves.simps [of "Suc fuel'"] intro!: rbind_cong split: step.split)
qed

text \<open>A body that does not depend on the position folds over all the entries.\<close>

lemma scan_list_append:
  "scan_list (\<lambda>_. g) i (xs @ ys) s = rbind (scan_list (\<lambda>_. g) i xs s) (\<lambda>r. case r of
     Return s' \<Rightarrow> Ok (Return s') | Next s' \<Rightarrow> scan_list (\<lambda>_. g) (i + length xs) ys s')"
  by (induction xs arbitrary: i s) (auto simp: rbind_assoc intro!: rbind_cong split: step.split)

lemma scan_list_shift: "scan_list (\<lambda>_. g) i xs s = scan_list (\<lambda>_. g) 0 xs s"
proof (induction xs arbitrary: i s)
  case (Cons x xs)
  have "scan_list (\<lambda>_. g) (i + 1) xs = scan_list (\<lambda>_. g) (0 + 1) xs"
    using Cons [of "i + 1"] Cons [of "0 + 1"] by auto
  then show ?case by simp
qed simp

lemma walk_list_flat: "walk_list (\<lambda>_ _. g) ls s = scan_list (\<lambda>_. g) 0 (leaf_entries ls) s"
proof (induction ls arbitrary: s)
  case (Cons l ls)
  show ?case
    using Cons scan_list_shift [of g "length (snd l)"]
    by (auto simp: scan_list_append intro!: rbind_cong split: step.split)
qed simp

text \<open>From the file: descend, then walk.\<close>

lemma index_root: "index_image m t \<Longrightarrow> current_root m = Ok (root_no t)"
  by (simp add: index_image_def current_root_def OFF_ROOT_PAGE_NO_def OFF_PAGE_COUNT_def read_u64_field)

lemma index_descend:
  assumes "index_image m t" "path key t = (a, l, c)"
  shows "descend_to_leaf (page_fuel m) m (root_no t) key = Ok (fst l)"
  using descend_path(1) [of m 0 t "page_fuel m" key] assms height_pages(1) [of t] index_pages_fuel [OF assms(1)]
  by (simp add: index_image_def path_leaf_def)

lemma index_walk:
  assumes im: "index_image m t" and ls: "leaves t = a @ ls" "ls \<noteq> []"
    and body: "\<And>no es link j s. (no, es) \<in> set ls \<Longrightarrow> page_holds m (page_ptr no) (LeafPage link es) \<Longrightarrow>
       j < length es \<Longrightarrow> body (leaf_entry_ptr (page_ptr no) j) s = f no j (es ! j) s"
  shows "walk_leaves (page_fuel m) m body (fst (hd ls)) s = walk_list f ls s"
proof -
  have "chain m 0 (a @ ls)" using im tree_chain(1) [of m 0 t] ls(1) by (simp add: index_image_def)
  then have "chain m 0 ls" by (simp add: chain_append)
  moreover have "length ls \<le> page_fuel m"
    using leaves_pages(1) [of t] index_pages_fuel [OF im] ls(1) by simp
  moreover have "\<forall>l \<in> set ls. 1 \<le> fst l"
    using im leaves_pages(1) [of t] ls(1) by (fastforce simp: index_image_def)
  ultimately have "walk_leaves (page_fuel m) m body (next_link ls 0) s = walk_list f ls s"
    using body by (rule walk_leaves_list)
  moreover have "next_link ls 0 = fst (hd ls)" using ls(2) by (cases ls) (simp_all add: next_link_def)
  ultimately show ?thesis by simp
qed

section \<open>Collecting offsets\<close>

definition live_entry :: "leaf_entry \<Rightarrow> bool" where
  "live_entry e \<longleftrightarrow> \<not> entry_dead (snd (snd e))"

definition entry_off :: "leaf_entry \<Rightarrow> nat" where
  "entry_off e = fst (snd e)"

definition ol_inv :: "bson_btree_offset_list \<Rightarrow> bool" where
  "ol_inv l \<longleftrightarrow> length (ol_data l) \<le> ol_cap l \<and> ol_cap l \<le> 16 + 2 * length (ol_data l)"

lemma ol_init_inv [simp]: "ol_inv bson_btree_offset_list_init" "ol_data bson_btree_offset_list_init = []"
  by (simp_all add: ol_inv_def bson_btree_offset_list_init_def)

lemma offset_list_push_cases:
  assumes "ol_inv l" "length (ol_data l) < 2 ^ 58"
  obtains (ok) l' where "offset_list_push alloc v l = Ok l'" "ol_data l' = ol_data l @ [v]" "ol_inv l'"
  | (memory) "offset_list_push alloc v l = Err BSON_ERR_OUT_OF_MEMORY" "\<exists>n. \<not> alloc n"
proof (cases "length (ol_data l) = ol_cap l")
  case False
  then show thesis
    using assms(1) by (intro ok [of "l\<lparr>ol_data := ol_data l @ [v]\<rparr>"]) (auto simp: offset_list_push_def ol_inv_def)
next
  case True
  define c where "c = (if ol_cap l = 0 then 16 else size_mul (ol_cap l) 2)"
  have "c = (if ol_cap l = 0 then 16 else ol_cap l * 2)" using True assms(2) by (simp add: c_def)
  then have c: "ol_cap l < c" "c \<le> 16 + 2 * ol_cap l" by auto
  show thesis
  proof (cases "alloc (size_mul c 8)")
    case a: True
    then show thesis
      using True c by (intro ok [of "l\<lparr>ol_data := ol_data l @ [v], ol_cap := c\<rparr>"])
        (simp_all add: offset_list_push_def ol_inv_def c_def [symmetric])
  next
    case False
    then show thesis using True by (intro memory) (auto simp: offset_list_push_def c_def [symmetric])
  qed
qed

text \<open>
  The step of lookup and range on an entry: skip it, stop, or collect its offset when it is live.
  When nothing after a stop would be collected, the loop collects what a filter does.
\<close>

definition collect_step ::
    "(nat \<Rightarrow> bool) \<Rightarrow> (key \<Rightarrow> bool) \<Rightarrow> (key \<Rightarrow> bool) \<Rightarrow> leaf_entry \<Rightarrow> bson_btree_offset_list \<Rightarrow>
     bson_btree_offset_list step result" where
  "collect_step alloc skip stop e out =
     (if skip (fst e) then Ok (Next out)
      else if stop (fst e) then Ok (Return out)
      else if live_entry e then rbind (offset_list_push alloc (entry_off e) out) (\<lambda>out. Ok (Next out))
      else Ok (Next out))"

definition collected :: "(key \<Rightarrow> bool) \<Rightarrow> leaf_entry list \<Rightarrow> nat list" where
  "collected P es = map entry_off (filter (\<lambda>e. P (fst e) \<and> live_entry e) es)"

lemma collected_simps [simp]:
  "collected P [] = []"
  "collected P (e # es) = (if P (fst e) \<and> live_entry e then [entry_off e] else []) @ collected P es"
  "collected P (xs @ ys) = collected P xs @ collected P ys"
  by (simp_all add: collected_def)

lemma collected_none: "\<forall>e \<in> set es. \<not> P (fst e) \<Longrightarrow> collected P es = []"
  by (simp add: collected_def)

definition ol_result :: "(nat \<Rightarrow> bool) \<Rightarrow> nat list \<Rightarrow> bson_btree_offset_list result \<Rightarrow> bool" where
  "ol_result alloc offs r \<longleftrightarrow> (case r of
     Ok out \<Rightarrow> ol_data out = offs
   | Err e \<Rightarrow> e = BSON_ERR_OUT_OF_MEMORY \<and> (\<exists>n. \<not> alloc n)
   | Fault \<Rightarrow> False
   | Diverge \<Rightarrow> False)"

lemma collect_list:
  assumes "ol_inv out" "length (ol_data out) + length es < 2 ^ 58"
    "\<And>i j. i < j \<Longrightarrow> j < length es \<Longrightarrow> stop (fst (es ! i)) \<Longrightarrow> stop (fst (es ! j))"
  shows "ol_result alloc (ol_data out @ collected (\<lambda>k. \<not> skip k \<and> \<not> stop k) es)
    (rbind (scan_list (\<lambda>_. collect_step alloc skip stop) 0 es out) (\<lambda>r. Ok (stepped r)))"
  using assms
proof (induction es arbitrary: out)
  case Nil
  then show ?case by (simp add: ol_result_def)
next
  case (Cons e es)
  have later: "stop (fst (es ! i)) \<Longrightarrow> i < j \<Longrightarrow> j < length es \<Longrightarrow> stop (fst (es ! j))" for i j
    using Cons.prems(3) [of "Suc i" "Suc j"] by simp
  have ih: "ol_result alloc (ol_data out' @ collected (\<lambda>k. \<not> skip k \<and> \<not> stop k) es)
    (rbind (scan_list (\<lambda>_. collect_step alloc skip stop) 0 es out') (\<lambda>r. Ok (stepped r)))"
    if "ol_inv out'" "length (ol_data out') \<le> Suc (length (ol_data out))" for out'
    using that Cons.prems(2) later by (intro Cons.IH) auto
  have shift: "scan_list (\<lambda>_. collect_step alloc skip stop) (Suc 0) es s =
      scan_list (\<lambda>_. collect_step alloc skip stop) 0 es s" for s
    by (rule scan_list_shift)
  have stopped: "collected (\<lambda>k. \<not> skip k \<and> \<not> stop k) es = []" if "stop (fst e)"
  proof (rule collected_none, rule ballI)
    fix x assume "x \<in> set es"
    then obtain j where "j < length es" "x = es ! j" by (metis in_set_conv_nth)
    then show "\<not> (\<not> skip (fst x) \<and> \<not> stop (fst x))" using Cons.prems(3) [of 0 "Suc j"] that by simp
  qed
  consider "skip (fst e)" | "\<not> skip (fst e)" "stop (fst e)" | "\<not> skip (fst e)" "\<not> stop (fst e)" "\<not> live_entry e"
    | "\<not> skip (fst e)" "\<not> stop (fst e)" "live_entry e" by blast
  then show ?case
  proof cases
    case 4
    from Cons.prems(1) have "length (ol_data out) < 2 ^ 58" using Cons.prems(2) by simp
    with Cons.prems(1) show ?thesis
    proof (cases rule: offset_list_push_cases [of out alloc "entry_off e"])
      case (ok l')
      then show ?thesis using 4 ih [of l'] shift by (simp add: collect_step_def [of _ _ _ e])
    next
      case memory
      then show ?thesis using 4 by (simp add: collect_step_def [of _ _ _ e] ol_result_def)
    qed
  qed (use ih [of out] Cons.prems(1) shift stopped in
      \<open>simp_all add: collect_step_def [of _ _ _ e] ol_result_def\<close>)
qed

lemma chain_small: "chain m link ls \<Longrightarrow> length (leaf_entries ls) \<le> 180 * length ls"
  by (induction ls) (auto simp: LEAF_MAX_ENTRIES_def)

lemma index_entries_bound:
  assumes "index_image m t"
  shows "length (entries t) < 2 ^ 57"
proof -
  have "chain m 0 (leaves t)" using assms tree_chain(1) by (simp add: index_image_def)
  then have "length (entries t) \<le> 180 * length (leaves t)" by (simp add: chain_small entries_def)
  also have "\<dots> \<le> 180 * (length m div 4096 + 1)"
    using leaves_pages(1) [of t] index_pages_fuel [OF assms] by (simp add: page_fuel_def BSON_BTREE_PAGE_SIZE_def)
  also have "length m div 4096 \<le> 2 ^ 61 div 4096"
    using assms by (intro div_le_mono) (simp add: index_image_def)
  finally show ?thesis by simp
qed

text \<open>The suffix of the entries a search walks over is sorted and short.\<close>

lemma index_suffix:
  assumes "index_image m t" "entries t = xs @ ys"
  shows "sorted_entries ys" "length ys < 2 ^ 57"
  using assms index_entries_bound [OF assms(1)]
  by (auto simp: index_image_def tree_ok_def sorted_entries_append)

lemma sorted_nth_rank:
  "sorted_entries es \<Longrightarrow> i < j \<Longrightarrow> j < length es \<Longrightarrow> entry_rank (es ! i) \<le> entry_rank (es ! j)"
  using sorted_nth_mono [of "map entry_rank es" i j] by (simp add: sorted_entries_def)

lemma sorted_nth_ok: "sorted_entries es \<Longrightarrow> i < length es \<Longrightarrow> key_ok (fst (es ! i))"
  by (simp add: sorted_entries_def)

section \<open>Range and lookup\<close>

definition below_low :: "key option \<Rightarrow> bool \<Rightarrow> key \<Rightarrow> bool" where
  "below_low low incl k \<longleftrightarrow> (case low of None \<Rightarrow> False
     | Some lo \<Rightarrow> bson_btree_key_cmp k lo < 0 \<or> bson_btree_key_cmp k lo = 0 \<and> \<not> incl)"

definition above_high :: "key option \<Rightarrow> bool \<Rightarrow> key \<Rightarrow> bool" where
  "above_high high incl k \<longleftrightarrow> (case high of None \<Rightarrow> False
     | Some hi \<Rightarrow> bson_btree_key_cmp k hi > 0 \<or> bson_btree_key_cmp k hi = 0 \<and> \<not> incl)"

definition in_range :: "key option \<Rightarrow> bool \<Rightarrow> key option \<Rightarrow> bool \<Rightarrow> key \<Rightarrow> bool" where
  "in_range low low_incl high high_incl k \<longleftrightarrow> \<not> below_low low low_incl k \<and> \<not> above_high high high_incl k"

definition opt_key_ok :: "key option \<Rightarrow> bool" where
  "opt_key_ok b \<longleftrightarrow> (case b of None \<Rightarrow> True | Some k \<Rightarrow> key_ok k)"

lemma above_high_mono:
  assumes "opt_key_ok high" "key_ok k" "key_ok k'" "key_rank k \<le> key_rank k'" "above_high high incl k"
  shows "above_high high incl k'"
proof (cases high)
  case (Some hi)
  have hi: "key_ok hi" using assms(1) Some by (simp add: opt_key_ok_def)
  show ?thesis
    using assms index_key.cmp_greater [OF assms(2) hi] index_key.cmp_eq [OF assms(2) hi]
      index_key.cmp_greater [OF assms(3) hi] index_key.cmp_eq [OF assms(3) hi] Some
    by (auto simp: above_high_def)
qed (use assms in \<open>simp add: above_high_def\<close>)

lemma range_body_step:
  assumes "page_holds m p (LeafPage link es)" "j < length es"
  shows "range_body alloc m low li high hi (leaf_entry_ptr p j) s =
    collect_step alloc (below_low low li) (above_high high hi) (es ! j) s"
  using leaf_slot_reads [OF assms]
  by (simp add: range_body_def collect_step_def live_entry_def entry_off_def below_low_def above_high_def)

lemma lookup_body_step:
  assumes "page_holds m p (LeafPage link es)" "j < length es"
  shows "lookup_body alloc m key (leaf_entry_ptr p j) s =
    collect_step alloc (\<lambda>k. bson_btree_key_cmp k key < 0) (\<lambda>k. bson_btree_key_cmp k key > 0) (es ! j) s"
  using leaf_slot_reads [OF assms]
  by (auto simp: lookup_body_def collect_step_def live_entry_def entry_off_def Let_def)

text \<open>The part of the entries a lookup sees: from the leaf of the descent on.\<close>

definition reached :: "key \<Rightarrow> btree \<Rightarrow> leaf_entry list" where
  "reached key t = (case path key t of (a, l, c) \<Rightarrow> snd l @ leaf_entries c)"

lemma reached_suffix:
  obtains xs where "entries t = xs @ reached key t"
proof -
  obtain a l c where p: "path key t = (a, l, c)" by (metis prod_cases3)
  then have "entries t = leaf_entries a @ reached key t"
    using path_leaves(1) [OF p] by (simp add: entries_def reached_def)
  then show thesis by (rule that)
qed

lemma walk_reached:
  assumes im: "index_image m t"
    and body: "\<And>p link es j s. page_holds m p (LeafPage link es) \<Longrightarrow> j < length es \<Longrightarrow>
      body (leaf_entry_ptr p j) s = g (es ! j) s"
  shows "rbind (current_root m) (\<lambda>root. rbind (descend_to_leaf (page_fuel m) m root key) (\<lambda>leaf_no.
      rbind (walk_leaves (page_fuel m) m body leaf_no s) f)) = rbind (scan_list (\<lambda>_. g) 0 (reached key t) s) f"
proof -
  obtain a l c where p: "path key t = (a, l, c)" by (metis prod_cases3)
  have "walk_leaves (page_fuel m) m body (fst (hd (l # c))) s = walk_list (\<lambda>_ _. g) (l # c) s"
    using index_walk [OF im path_leaves(1) [OF p], of body "\<lambda>_ _. g" s] body by blast
  then show ?thesis
    using index_root [OF im] index_descend [OF im p] p by (simp add: walk_list_flat reached_def)
qed

lemma lookup_reached:
  assumes "index_image m t" "key_ok key" "ol_inv out" "length (ol_data out) < 2 ^ 57"
  shows "ol_result alloc (ol_data out @ collected (\<lambda>k. bson_btree_key_cmp k key = 0) (reached key t))
    (bson_btree_lookup alloc key out m)"
proof -
  obtain xs where "entries t = xs @ reached key t" by (rule reached_suffix)
  note suf = index_suffix [OF assms(1) this]
  have "bson_btree_lookup alloc key out m = rbind (scan_list (\<lambda>_. collect_step alloc
      (\<lambda>k. bson_btree_key_cmp k key < 0) (\<lambda>k. bson_btree_key_cmp k key > 0)) 0 (reached key t) out)
      (\<lambda>r. Ok (stepped r))"
    unfolding bson_btree_lookup_def by (rule walk_reached [OF assms(1)]) (rule lookup_body_step)
  moreover have "ol_result alloc (ol_data out @ collected
      (\<lambda>k. \<not> bson_btree_key_cmp k key < 0 \<and> \<not> bson_btree_key_cmp k key > 0) (reached key t)) \<dots>"
  proof (rule collect_list [OF assms(3)])
    show "length (ol_data out) + length (reached key t) < 2 ^ 58" using suf(2) assms(4) by simp
    fix i j assume ij: "i < j" "j < length (reached key t)" "bson_btree_key_cmp (fst (reached key t ! i)) key > 0"
    have "key_ok (fst (reached key t ! i))" "key_ok (fst (reached key t ! j))"
      using sorted_nth_ok [OF suf(1)] ij by simp_all
    then show "bson_btree_key_cmp (fst (reached key t ! j)) key > 0"
      using ij sorted_nth_rank [OF suf(1) ij(1,2)] index_key.cmp_greater assms(2)
      by (auto simp: entry_rank_def)
  qed
  moreover have "(\<lambda>k. \<not> bson_btree_key_cmp k key < 0 \<and> \<not> bson_btree_key_cmp k key > 0) =
      (\<lambda>k. bson_btree_key_cmp k key = 0)" by auto
  ultimately show ?thesis by simp
qed

lemma range_reached:
  assumes "index_image m t" "key_ok lo" "opt_key_ok high" "ol_inv out" "length (ol_data out) < 2 ^ 57"
  shows "ol_result alloc (ol_data out @ collected (in_range (Some lo) li high hi) (reached lo t))
    (bson_btree_range alloc (Some lo) li high hi out m)"
proof -
  obtain xs where "entries t = xs @ reached lo t" by (rule reached_suffix)
  note suf = index_suffix [OF assms(1) this]
  have "bson_btree_range alloc (Some lo) li high hi out m = rbind (scan_list (\<lambda>_. collect_step alloc
      (below_low (Some lo) li) (above_high high hi)) 0 (reached lo t) out) (\<lambda>r. Ok (stepped r))"
    unfolding bson_btree_range_def option.case by (rule walk_reached [OF assms(1)]) (rule range_body_step)
  moreover have "ol_result alloc (ol_data out @ collected
      (\<lambda>k. \<not> below_low (Some lo) li k \<and> \<not> above_high high hi k) (reached lo t)) \<dots>"
  proof (rule collect_list [OF assms(4)])
    show "length (ol_data out) + length (reached lo t) < 2 ^ 58" using suf(2) assms(5) by simp
    fix i j assume ij: "i < j" "j < length (reached lo t)" "above_high high hi (fst (reached lo t ! i))"
    show "above_high high hi (fst (reached lo t ! j))"
      using sorted_nth_ok [OF suf(1)] ij sorted_nth_rank [OF suf(1) ij(1,2)]
      by (intro above_high_mono [OF assms(3) _ _ _ ij(3)]) (simp_all add: entry_rank_def)
  qed
  ultimately show ?thesis by (simp add: in_range_def [abs_def])
qed

lemma range_all:
  assumes "index_image m t" "opt_key_ok high" "ol_inv out" "length (ol_data out) < 2 ^ 57"
  shows "ol_result alloc (ol_data out @ collected (in_range None li high hi) (entries t))
    (bson_btree_range alloc None li high hi out m)"
proof -
  have "entries t = [] @ entries t" by simp
  note suf = index_suffix [OF assms(1) this]
  have h: "tree_holds m 0 t" "height t \<le> page_fuel m"
    using assms(1) height_pages(1) [of t] index_pages_fuel [OF assms(1)] by (simp_all add: index_image_def)
  have "walk_leaves (page_fuel m) m (range_body alloc m None li high hi) (fst (hd (leaves t))) out =
      walk_list (\<lambda>_ _. collect_step alloc (below_low None li) (above_high high hi)) (leaves t) out"
    by (rule index_walk [OF assms(1), of "[]"]) (auto simp: range_body_step)
  then have "bson_btree_range alloc None li high hi out m = rbind (scan_list (\<lambda>_. collect_step alloc
      (below_low None li) (above_high high hi)) 0 (entries t) out) (\<lambda>r. Ok (stepped r))"
    using index_root [OF assms(1)] leftmost_first [OF h]
    by (simp add: bson_btree_range_def walk_list_flat entries_def)
  moreover have "ol_result alloc (ol_data out @ collected
      (\<lambda>k. \<not> below_low None li k \<and> \<not> above_high high hi k) (entries t)) \<dots>"
  proof (rule collect_list [OF assms(3)])
    show "length (ol_data out) + length (entries t) < 2 ^ 58" using suf(2) assms(4) by simp
    fix i j assume ij: "i < j" "j < length (entries t)" "above_high high hi (fst (entries t ! i))"
    show "above_high high hi (fst (entries t ! j))"
      using sorted_nth_ok [OF suf(1)] ij sorted_nth_rank [OF suf(1) ij(1,2)]
      by (intro above_high_mono [OF assms(2) _ _ _ ij(3)]) (simp_all add: entry_rank_def)
  qed
  ultimately show ?thesis by (simp add: in_range_def [abs_def])
qed

section \<open>Unique indexes\<close>

text \<open>
  In a unique index an entry that is live is the last one of its key: inserting a key is refused
  while it has a live entry, and a new entry goes behind the dead ones.
\<close>

fun last_live :: "leaf_entry list \<Rightarrow> bool" where
  "last_live [] \<longleftrightarrow> True"
| "last_live (e # es) \<longleftrightarrow> (live_entry e \<longrightarrow> (\<forall>x \<in> set es. entry_rank x \<noteq> entry_rank e)) \<and> last_live es"

lemma last_live_append:
  "last_live (xs @ ys) \<longleftrightarrow> last_live xs \<and> last_live ys \<and>
     (\<forall>x \<in> set xs. live_entry x \<longrightarrow> (\<forall>y \<in> set ys. entry_rank y \<noteq> entry_rank x))"
  by (induction xs) auto

text \<open>What a descent skips has no live entry of the key or above it.\<close>

lemma skipped_dead:
  assumes "tree_ok t" "key_ok key" "last_live (entries t)" "path key t = (a, l, c)"
    "e \<in> set (leaf_entries a)" "key_rank key \<le> entry_rank e"
  shows "\<not> live_entry e"
proof -
  note pe = path_entries [OF assms(1,2,4)]
  have "a \<noteq> []" using assms(5) by auto
  then obtain x xs where x: "snd l = x # xs" "entry_rank x \<le> key_rank key" using pe(3) by (cases "snd l") auto
  have "entry_rank e \<le> entry_rank x"
    using assms(1,5) x(1) by (auto simp: tree_ok_def pe(1) sorted_entries_append)
  then have "entry_rank x = entry_rank e" using x(2) assms(6) by order
  moreover have "last_live (leaf_entries a @ x # (xs @ leaf_entries c))" using assms(3) x(1) by (simp add: pe(1))
  ultimately show ?thesis using assms(5) by (auto simp: last_live_append)
qed

lemma collected_reached:
  assumes "tree_ok t" "key_ok key" "last_live (entries t)"
    "\<And>k. key_ok k \<Longrightarrow> P k \<Longrightarrow> key_rank key \<le> key_rank k"
  shows "collected P (reached key t) = collected P (entries t)"
proof -
  obtain a l c where p: "path key t = (a, l, c)" by (metis prod_cases3)
  have "\<not> (P (fst e) \<and> live_entry e)" if "e \<in> set (leaf_entries a)" for e
  proof -
    have "key_ok (fst e)"
      using assms(1) that by (auto simp: tree_ok_def path_entries(1) [OF assms(1,2) p] sorted_entries_def)
    then show ?thesis
      using skipped_dead [OF assms(1-3) p that] assms(4) by (auto simp: entry_rank_def)
  qed
  then have "collected P (leaf_entries a) = []" by (simp add: collected_def)
  then show ?thesis by (simp add: path_entries(1) [OF assms(1,2) p] reached_def p)
qed

lemma live_at_most_one:
  assumes "sorted_entries es" "last_live es" "key_ok key"
  shows "length (collected (\<lambda>k. bson_btree_key_cmp k key = 0) es) \<le> 1"
  using assms(1,2)
proof (induction es)
  case (Cons e es)
  have tl: "sorted_entries es" "last_live es" "key_ok (fst e)" "\<forall>x \<in> set es. key_ok (fst x)"
    using Cons.prems by (auto simp: sorted_entries_def)
  show ?case
  proof (cases "bson_btree_key_cmp (fst e) key = 0 \<and> live_entry e")
    case True
    have "\<forall>x \<in> set es. bson_btree_key_cmp (fst x) key \<noteq> 0"
      using True Cons.prems(2) tl index_key.cmp_eq [OF _ assms(3)] by (auto simp: entry_rank_def)
    then have "collected (\<lambda>k. bson_btree_key_cmp k key = 0) es = []" by (rule collected_none)
    then show ?thesis using True by simp
  next
    case False
    then show ?thesis using Cons.IH tl by auto
  qed
qed simp

end
