(* ===== verification/Btree_Update.thy ===== *)
theory Btree_Update
  imports Btree_Search
begin

text \<open>
  Stores into an index file: what a page holds after entries have been written, which trees a
  store leaves alone, and the deletion of src/c_engine/btree.c, which marks an entry dead in place.
\<close>

section \<open>Writing entries\<close>

text \<open>A run of entries of a page, as bytes.\<close>

lemma leaf_run:
  assumes "page_holds m p (LeafPage link es)" "i + k \<le> length es"
  shows "slice m (leaf_entry_ptr p i) (22 * k) = concat (map leaf_bytes (take k (drop i es)))"
    "leaf_entry_ptr p i + 22 * k \<le> p + 4096"
proof -
  have len: "length es \<le> 180" "22 * i + 22 * k \<le> 22 * length es" using assms by (simp_all add: LEAF_MAX_ENTRIES_def)
  have "slice m (p + 16 + 22 * i) (22 * k) = slice (concat (map leaf_bytes es)) (22 * i) (22 * k)"
    using assms(1) len slice_slice [of "22 * i" "22 * k" "22 * length es" m "p + 16"] by simp
  also have "\<dots> = concat (map leaf_bytes (take k (drop i es)))"
    using assms by (subst concat_take_drop) (auto simp: length_leaf_bytes take_map drop_map)
  finally show "slice m (leaf_entry_ptr p i) (22 * k) = concat (map leaf_bytes (take k (drop i es)))"
    by (simp add: leaf_entry_ptr_def btree_page_defs mult.commute)
  show "leaf_entry_ptr p i + 22 * k \<le> p + 4096" using len by (simp add: leaf_entry_ptr_def btree_page_defs)
qed

lemma internal_run:
  assumes "page_holds m p (InternalPage link es)" "i + k \<le> length es"
  shows "slice m (internal_entry_ptr p i) (21 * k) = concat (map internal_bytes (take k (drop i es)))"
    "internal_entry_ptr p i + 21 * k \<le> p + 4096"
proof -
  have len: "length es \<le> 190" "21 * i + 21 * k \<le> 21 * length es" using assms by (simp_all add: INTERNAL_MAX_KEYS_def)
  have "slice m (p + 16 + 21 * i) (21 * k) = slice (concat (map internal_bytes es)) (21 * i) (21 * k)"
    using assms(1) len slice_slice [of "21 * i" "21 * k" "21 * length es" m "p + 16"] by simp
  also have "\<dots> = concat (map internal_bytes (take k (drop i es)))"
    using assms by (subst concat_take_drop) (auto simp: length_internal_bytes take_map drop_map)
  finally show "slice m (internal_entry_ptr p i) (21 * k) = concat (map internal_bytes (take k (drop i es)))"
    by (simp add: internal_entry_ptr_def btree_page_defs mult.commute)
  show "internal_entry_ptr p i + 21 * k \<le> p + 4096" using len by (simp add: internal_entry_ptr_def btree_page_defs)
qed

lemma length_leaf_run: "\<forall>e \<in> set es. leaf_wf e \<Longrightarrow> length (concat (map leaf_bytes es)) = 22 * length es"
  by (subst length_concat_fixed [of _ 22]) (auto simp: length_leaf_bytes)

lemma length_internal_run:
  "\<forall>e \<in> set es. internal_wf e \<Longrightarrow> length (concat (map internal_bytes es)) = 21 * length es"
  by (subst length_concat_fixed [of _ 21]) (auto simp: length_internal_bytes)

text \<open>The three stores of an entry are one.\<close>

lemma write_leaf_entry_put:
  assumes "length key = 13" "slot + 22 \<le> length m"
  shows "write_leaf_entry m slot key off fl = Ok (put m slot (leaf_bytes (key, off, fl)))"
  using assms put_append [of slot key "nat_le 8 off" m] put_append [of slot "key @ nat_le 8 off" "[fl]" m]
  by (simp add: write_leaf_entry_def write_put btree_page_defs leaf_bytes_def add.assoc add.commute)

lemma write_internal_entry_put:
  assumes "length key = 13" "slot + 21 \<le> length m"
  shows "write_internal_entry m slot key child = Ok (put m slot (internal_bytes (key, child)))"
  using assms put_append [of slot key "nat_le 8 child" m]
  by (simp add: write_internal_entry_def write_put btree_page_defs internal_bytes_def add.assoc add.commute)

lemma put_part:
  assumes "slice m a (length xs + length ys + length zs) = xs @ ys @ zs"
    "a + length xs + length ys + length zs \<le> length m" "length ys' = length ys"
  shows "put m (a + length xs) ys' = put m a (xs @ ys' @ zs)"
proof -
  have "slice m a (length xs) = xs" "slice m (a + length xs) (length ys) = ys"
    "slice m (a + length xs + length ys) (length zs) = zs"
    using assms(1,2) by (simp_all add: slice_split add.assoc append_eq_append_conv)
  then have x: "take (length xs) (drop a m) = xs" "take (length zs) (drop (a + length xs + length ys) m) = zs"
    by (simp_all add: slice_def)
  have "take (a + length xs) m = take a m @ xs" using x(1) by (simp add: take_add)
  moreover have "drop (a + length xs + length ys) m = zs @ drop (a + length xs + length ys + length zs) m"
    using x(2) by (metis append_take_drop_id drop_drop add.commute)
  ultimately show ?thesis using assms(3) by (simp add: put_def add.assoc)
qed

lemma leaf_update:
  assumes p: "page_holds m p (LeafPage link es)" and j: "j < length es" and e: "leaf_wf e'"
  shows "page_holds (put m (leaf_entry_ptr p j) (leaf_bytes e')) p (LeafPage link (es[j := e']))"
proof -
  let ?m' = "put m (leaf_entry_ptr p j) (leaf_bytes e')"
  define n where "n = length es - Suc j"
  have n: "length es = j + (1 + n)" using j by (simp add: n_def)
  have b: "length (leaf_bytes e') = 22" using e by (rule length_leaf_bytes)
  have len: "length es \<le> 180" "p + 4096 \<le> length m" using p by (simp_all add: LEAF_MAX_ENTRIES_def)
  have at: "leaf_entry_ptr p j = p + 16 + 22 * j" by (simp add: leaf_entry_ptr_def btree_page_defs mult.commute)
  have r1: "slice m (p + 16) (22 * j) = concat (map leaf_bytes (take j es))"
    using leaf_run(1) [OF p, of 0 j] n by (simp add: leaf_entry_ptr_def btree_page_defs)
  have r2: "slice m (p + 16 + 22 * j + 22) (22 * n) = concat (map leaf_bytes (drop (Suc j) es))"
    using leaf_run(1) [OF p, of "j + 1" n] n by (simp add: leaf_entry_ptr_def btree_page_defs algebra_simps)
  have "slice ?m' (p + 16) (22 * length es) =
      slice ?m' (p + 16) (22 * j) @ slice ?m' (p + 16 + 22 * j) 22 @ slice ?m' (p + 16 + 22 * j + 22) (22 * n)"
    by (simp only: n distrib_left mult_1_right slice_split [of ?m' "p + 16" "22 * j"]
        slice_split [of ?m' "p + 16 + 22 * j" 22])
  also have "\<dots> = concat (map leaf_bytes (take j es)) @ leaf_bytes e' @ concat (map leaf_bytes (drop (Suc j) es))"
    using r1 r2 n b len by (simp add: at)
  also have "\<dots> = concat (map leaf_bytes (es[j := e']))" using j by (simp add: upd_conv_take_nth_drop)
  finally have "slice ?m' (p + 16) (22 * length es) = concat (map leaf_bytes (es[j := e']))" .
  moreover have "\<forall>x \<in> set (es[j := e']). leaf_wf x"
    using p e by (auto dest: subsetD [OF set_update_subset_insert])
  moreover have "?m' ! p = m ! p" using len n b by (subst nth_put) (auto simp: at)
  ultimately show ?thesis using p len n b by (simp add: at)
qed

section \<open>Stores and trees\<close>

text \<open>A tree is left alone by a store outside of its pages.\<close>

definition same_page :: "byte list \<Rightarrow> byte list \<Rightarrow> nat \<Rightarrow> bool" where
  "same_page m m' no \<longleftrightarrow> slice m' (page_ptr no) 4096 = slice m (page_ptr no) 4096"

lemma same_page_refl [simp]: "same_page m m no"
  by (simp add: same_page_def)

lemma same_page_trans: "same_page m m1 no \<Longrightarrow> same_page m1 m2 no \<Longrightarrow> same_page m m2 no"
  by (simp add: same_page_def)

lemma same_page_append: "page_ptr no + 4096 \<le> length m \<Longrightarrow> same_page m (m @ xs) no"
  by (simp add: same_page_def slice_append1)

lemma same_page_put:
  assumes "off + length bs \<le> length m" "page_ptr no + 4096 \<le> length m"
    "page_ptr no' \<le> off" "off + length bs \<le> page_ptr no' + 4096" "no \<noteq> no'"
  shows "same_page m (put m off bs) no"
proof -
  have "no + 1 \<le> no' \<or> no' + 1 \<le> no" using assms(5) by linarith
  then have "page_ptr no + 4096 \<le> page_ptr no' \<or> page_ptr no' + 4096 \<le> page_ptr no"
    by (auto simp: page_ptr_def BSON_BTREE_PAGE_SIZE_def)
  then show ?thesis using assms(1-4) unfolding same_page_def by (intro slice_put_other) auto
qed

lemma page_holds_same:
  "page_holds m (page_ptr no) pg \<Longrightarrow> same_page m m' no \<Longrightarrow> length m \<le> length m' \<Longrightarrow> page_holds m' (page_ptr no) pg"
  using page_holds_local [of m "page_ptr no" pg m'] by (cases pg) (simp_all add: same_page_def)

lemma tree_frame:
  "tree_holds m link t \<Longrightarrow> \<forall>no \<in> set (pages t). same_page m m' no \<Longrightarrow> length m \<le> length m' \<Longrightarrow>
     tree_holds m' link t"
  "kids_hold m link ts \<Longrightarrow> \<forall>no \<in> set (kid_pages ts). same_page m m' no \<Longrightarrow> length m \<le> length m' \<Longrightarrow>
     kids_hold m' link ts"
  by (induction m link t and m link ts rule: tree_holds_kids_hold.induct)
    (auto intro: page_holds_same simp del: page_holds.simps)

text \<open>Replacing the entries of one leaf.\<close>

fun set_leaf :: "nat \<Rightarrow> leaf_entry list \<Rightarrow> btree \<Rightarrow> btree"
  and kids_set_leaf :: "nat \<Rightarrow> leaf_entry list \<Rightarrow> (key \<times> btree) list \<Rightarrow> (key \<times> btree) list" where
  "set_leaf n es' (Lf no es) = Lf no (if no = n then es' else es)"
| "set_leaf n es' (Nd no t ts) = Nd no (set_leaf n es' t) (kids_set_leaf n es' ts)"
| "kids_set_leaf n es' [] = []"
| "kids_set_leaf n es' ((k, t) # ts) = (k, set_leaf n es' t) # kids_set_leaf n es' ts"

lemma root_set_leaf [simp]: "root_no (set_leaf n es' t) = root_no t"
  by (cases t) simp_all

lemma kid_roots_set_leaf [simp]:
  "map (\<lambda>(k, t). (k, root_no t)) (kids_set_leaf n es' ts) = map (\<lambda>(k, t). (k, root_no t)) ts"
  by (induction ts) auto

definition put_leaf :: "nat \<Rightarrow> leaf_entry list \<Rightarrow> nat \<times> leaf_entry list \<Rightarrow> nat \<times> leaf_entry list" where
  "put_leaf n es' l = (if fst l = n then (n, es') else l)"

lemma set_leaf_leaves [simp]:
  "leaves (set_leaf n es' t) = map (put_leaf n es') (leaves t)"
  "kid_leaves (kids_set_leaf n es' ts) = map (put_leaf n es') (kid_leaves ts)"
  by (induction n es' t and n es' ts rule: set_leaf_kids_set_leaf.induct) (auto simp: put_leaf_def)

lemma set_leaf_pages [simp]:
  "pages (set_leaf n es' t) = pages t" "kid_pages (kids_set_leaf n es' ts) = kid_pages ts"
  by (induction n es' t and n es' ts rule: set_leaf_kids_set_leaf.induct) auto

lemma fst_put_leaf [simp]: "fst (put_leaf n es' l) = fst l"
  by (simp add: put_leaf_def)

lemma next_link_put_leaf [simp]: "next_link (map (put_leaf n es') ls) link = next_link ls link"
  by (cases ls) (simp_all add: next_link_def)


lemma leaf_in_pages: "n \<in> fst ` set (leaves t) \<Longrightarrow> n \<in> set (pages t)"
  "n \<in> fst ` set (kid_leaves ts) \<Longrightarrow> n \<in> set (kid_pages ts)"
  using leaves_pages(1) [of t] leaves_pages(2) [of ts] by auto

lemma set_leaf_id:
  "n \<notin> set (pages t) \<Longrightarrow> set_leaf n es' t = t"
  "n \<notin> set (kid_pages ts) \<Longrightarrow> kids_set_leaf n es' ts = ts"
  by (induction n es' t and n es' ts rule: set_leaf_kids_set_leaf.induct) auto

lemma tree_set_leaf:
  "tree_holds m link t \<Longrightarrow> distinct (pages t) \<Longrightarrow> n \<in> fst ` set (leaves t) \<Longrightarrow>
     \<forall>no \<in> set (pages t) - {n}. same_page m m' no \<Longrightarrow> length m \<le> length m' \<Longrightarrow>
     (\<And>lk es. (n, es) \<in> set (leaves t) \<Longrightarrow> page_holds m (page_ptr n) (LeafPage lk es) \<Longrightarrow>
        page_holds m' (page_ptr n) (LeafPage lk es')) \<Longrightarrow>
     tree_holds m' link (set_leaf n es' t)"
  "kids_hold m link ts \<Longrightarrow> distinct (kid_pages ts) \<Longrightarrow> n \<in> fst ` set (kid_leaves ts) \<Longrightarrow>
     \<forall>no \<in> set (kid_pages ts) - {n}. same_page m m' no \<Longrightarrow> length m \<le> length m' \<Longrightarrow>
     (\<And>lk es. (n, es) \<in> set (kid_leaves ts) \<Longrightarrow> page_holds m (page_ptr n) (LeafPage lk es) \<Longrightarrow>
        page_holds m' (page_ptr n) (LeafPage lk es')) \<Longrightarrow>
     kids_hold m' link (kids_set_leaf n es' ts)"
proof (induction m link t and m link ts rule: tree_holds_kids_hold.induct)
  case (1 m link no es)
  then show ?case by (simp del: page_holds.simps)
next
  case (2 m link no t ts)
  have n: "n \<noteq> no" using "2.prems"(2,3) leaf_in_pages by (fastforce simp: image_Un)
  have "page_holds m' (page_ptr no) (InternalPage (root_no t) (map (\<lambda>(k, t). (k, root_no t)) ts))"
    using "2.prems"(1,4,5) n by (intro page_holds_same [of m no _ m']) (auto simp del: page_holds.simps)
  moreover have "tree_holds m' (next_link (kid_leaves ts) link) (set_leaf n es' t)"
  proof (cases "n \<in> fst ` set (leaves t)")
    case True
    with "2.prems" show ?thesis by (intro "2.IH"(1)) auto
  next
    case False
    then have "n \<notin> set (pages t)" using "2.prems"(2,3) leaf_in_pages(2) [of n ts] by (auto simp: image_Un)
    then show ?thesis using "2.prems" by (auto simp: set_leaf_id intro!: tree_frame(1) [of m])
  qed
  moreover have "kids_hold m' link (kids_set_leaf n es' ts)"
  proof (cases "n \<in> fst ` set (kid_leaves ts)")
    case True
    with "2.prems" show ?thesis by (intro "2.IH"(2)) auto
  next
    case False
    then have "n \<notin> set (kid_pages ts)" using "2.prems"(2,3) leaf_in_pages(1) [of n t] by (auto simp: image_Un)
    then show ?thesis using "2.prems" by (auto simp: set_leaf_id intro!: tree_frame(2) [of m])
  qed
  ultimately show ?case by (simp del: page_holds.simps)
next
  case (3 m link)
  then show ?case by simp
next
  case (4 m link k t ts)
  have "tree_holds m' (next_link (kid_leaves ts) link) (set_leaf n es' t)"
  proof (cases "n \<in> fst ` set (leaves t)")
    case True
    with "4.prems" show ?thesis by (intro "4.IH"(1)) auto
  next
    case False
    then have "n \<notin> set (pages t)" using "4.prems"(2,3) leaf_in_pages(2) [of n ts] by (auto simp: image_Un)
    then show ?thesis using "4.prems" by (auto simp: set_leaf_id intro!: tree_frame(1) [of m])
  qed
  moreover have "kids_hold m' link (kids_set_leaf n es' ts)"
  proof (cases "n \<in> fst ` set (kid_leaves ts)")
    case True
    with "4.prems" show ?thesis by (intro "4.IH"(2)) auto
  next
    case False
    then have "n \<notin> set (kid_pages ts)" using "4.prems"(2,3) leaf_in_pages(1) [of n t] by (auto simp: image_Un)
    then show ?thesis using "4.prems" by (auto simp: set_leaf_id intro!: tree_frame(2) [of m])
  qed
  ultimately show ?case by simp
qed

lemma hd_put_leaf:
  "ls \<noteq> [] \<Longrightarrow> (\<And>es. (n, es) \<in> set ls \<Longrightarrow> map fst es' = map fst es) \<Longrightarrow>
     fst (hd (snd (hd (map (put_leaf n es') ls)))) = fst (hd (snd (hd ls)))"
proof (cases ls)
  case (Cons l ls')
  assume same: "\<And>es. (n, es) \<in> set ls \<Longrightarrow> map fst es' = map fst es"
  obtain no es where l: "l = (no, es)" by fastforce
  show ?thesis
  proof (cases "no = n")
    case True
    then have "map fst es' = map fst es" using same [of es] Cons l by simp
    then show ?thesis using True Cons l by (cases es; cases es') (simp_all add: put_leaf_def)
  qed (simp add: Cons l put_leaf_def)
qed simp

lemma set_leaf_seps:
  "seps_ok t \<Longrightarrow> (\<And>es. (n, es) \<in> set (leaves t) \<Longrightarrow> map fst es' = map fst es) \<Longrightarrow> seps_ok (set_leaf n es' t)"
  "kid_seps_ok ts \<Longrightarrow> (\<And>es. (n, es) \<in> set (kid_leaves ts) \<Longrightarrow> map fst es' = map fst es) \<Longrightarrow>
     kid_seps_ok (kids_set_leaf n es' ts)"
  by (induction n es' t and n es' ts rule: set_leaf_kids_set_leaf.induct) (auto simp: hd_put_leaf)

lemma map_put_leaf_split:
  assumes "distinct (map fst (a @ (n, es) # c))"
  shows "map (put_leaf n es') (a @ (n, es) # c) = a @ (n, es') # c"
  using assms by (force simp: put_leaf_def intro!: map_idI)

lemma distinct_leaves:
  "distinct (pages t) \<Longrightarrow> distinct (map fst (leaves t))"
  "distinct (kid_pages ts) \<Longrightarrow> distinct (map fst (kid_leaves ts))"
proof (induction t and ts rule: pages_kid_pages.induct)
  case (2 no t ts)
  then show ?case using leaf_in_pages(1) [of _ t] leaf_in_pages(2) [of _ ts] by fastforce
next
  case (4 k t ts)
  then show ?case using leaf_in_pages(1) [of _ t] leaf_in_pages(2) [of _ ts] by fastforce
qed simp_all

section \<open>Deleting\<close>

text \<open>The entry with its dead flag set, and the first entry of a key and an offset marked dead.\<close>

definition dead_entry :: "leaf_entry \<Rightarrow> leaf_entry" where
  "dead_entry e = (fst e, fst (snd e), snd (snd e) OR LEAF_ENTRY_FLAG_DEAD)"

fun kill_first :: "key \<Rightarrow> nat \<Rightarrow> leaf_entry list \<Rightarrow> leaf_entry list" where
  "kill_first key off [] = []"
| "kill_first key off (e # es) =
     (if bson_btree_key_cmp (fst e) key > 0 then e # es
      else if bson_btree_key_cmp (fst e) key = 0 \<and> entry_off e = off then dead_entry e # es
      else e # kill_first key off es)"

definition delete_step :: "key \<Rightarrow> nat \<Rightarrow> nat \<Rightarrow> nat \<Rightarrow> leaf_entry \<Rightarrow> nat option \<Rightarrow> nat option step result" where
  "delete_step key off no j e s =
     (if bson_btree_key_cmp (fst e) key > 0 then Ok (Return None)
      else if bson_btree_key_cmp (fst e) key = 0 \<and> entry_off e = off
      then Ok (Return (Some (leaf_entry_ptr (page_ptr no) j)))
      else Ok (Next s))"

lemma delete_body_step:
  assumes "page_holds m (page_ptr no) (LeafPage link es)" "j < length es"
  shows "delete_body m key off (leaf_entry_ptr (page_ptr no) j) s = delete_step key off no j (es ! j) s"
  using leaf_slot_reads [OF assms] by (simp add: delete_body_def delete_step_def entry_off_def)

lemma scan_delete:
  obtains (found) j where "j < length es"
      "scan_list (delete_step key off no) i es None = Ok (Return (Some (leaf_entry_ptr (page_ptr no) (i + j))))"
      "\<And>ys. kill_first key off (es @ ys) = es[j := dead_entry (es ! j)] @ ys"
  | (stop) "scan_list (delete_step key off no) i es None = Ok (Return None)"
      "\<And>ys. kill_first key off (es @ ys) = es @ ys"
  | (go) "scan_list (delete_step key off no) i es None = Ok (Next None)"
      "\<And>ys. kill_first key off (es @ ys) = es @ kill_first key off ys"
proof (induction es arbitrary: i thesis)
  case Nil
  then show ?case by simp
next
  case (Cons e es)
  consider "bson_btree_key_cmp (fst e) key > 0"
    | "\<not> bson_btree_key_cmp (fst e) key > 0" "bson_btree_key_cmp (fst e) key = 0 \<and> entry_off e = off"
    | "\<not> bson_btree_key_cmp (fst e) key > 0" "\<not> (bson_btree_key_cmp (fst e) key = 0 \<and> entry_off e = off)" by blast
  then show ?case
  proof cases
    case 1
    then show ?thesis by (intro Cons.prems(2)) (simp_all add: delete_step_def)
  next
    case 2
    then show ?thesis by (intro Cons.prems(1) [of 0]) (simp_all add: delete_step_def)
  next
    case 3
    then have d: "delete_step key off no i e None = Ok (Next None)" by (auto simp: delete_step_def)
    show ?thesis
    proof (rule Cons.IH [of "i + 1"])
      fix j assume "j < length es"
        "scan_list (delete_step key off no) (i + 1) es None = Ok (Return (Some (leaf_entry_ptr (page_ptr no) (i + 1 + j))))"
        "\<And>ys. kill_first key off (es @ ys) = es[j := dead_entry (es ! j)] @ ys"
      then show thesis using 3 d by (intro Cons.prems(1) [of "Suc j"]) auto
    next
      assume "scan_list (delete_step key off no) (i + 1) es None = Ok (Return None)"
        "\<And>ys. kill_first key off (es @ ys) = es @ ys"
      then show thesis using 3 d by (intro Cons.prems(2)) auto
    next
      assume "scan_list (delete_step key off no) (i + 1) es None = Ok (Next None)"
        "\<And>ys. kill_first key off (es @ ys) = es @ kill_first key off ys"
      then show thesis using 3 d by (intro Cons.prems(3)) auto
    qed
  qed
qed

lemma walk_delete:
  obtains (found) a no es c j where "ls = a @ (no, es) # c" "j < length es"
      "walk_list (delete_step key off) ls None = Ok (Return (Some (leaf_entry_ptr (page_ptr no) j)))"
      "kill_first key off (leaf_entries ls) = leaf_entries a @ es[j := dead_entry (es ! j)] @ leaf_entries c"
  | (none) r where "walk_list (delete_step key off) ls None = Ok r" "stepped r = None"
      "kill_first key off (leaf_entries ls) = leaf_entries ls"
proof (induction ls arbitrary: thesis)
  case Nil
  then show ?case by simp
next
  case (Cons l ls)
  obtain no es where l: "l = (no, es)" by fastforce
  show ?case
  proof (rule scan_delete [of es key off no 0])
    fix j assume "j < length es"
      "scan_list (delete_step key off no) 0 es None = Ok (Return (Some (leaf_entry_ptr (page_ptr no) (0 + j))))"
      "\<And>ys. kill_first key off (es @ ys) = es[j := dead_entry (es ! j)] @ ys"
    then show thesis using l by (intro Cons.prems(1) [of "[]" no es ls j]) simp_all
  next
    assume "scan_list (delete_step key off no) 0 es None = Ok (Return None)"
      "\<And>ys. kill_first key off (es @ ys) = es @ ys"
    then show thesis using l by (intro Cons.prems(2) [of "Return None"]) simp_all
  next
    assume s: "scan_list (delete_step key off no) 0 es None = Ok (Next None)"
      "\<And>ys. kill_first key off (es @ ys) = es @ kill_first key off ys"
    show thesis
    proof (rule Cons.IH)
      fix a no' es' c j
      assume "ls = a @ (no', es') # c" "j < length es'"
        "walk_list (delete_step key off) ls None = Ok (Return (Some (leaf_entry_ptr (page_ptr no') j)))"
        "kill_first key off (leaf_entries ls) = leaf_entries a @ es'[j := dead_entry (es' ! j)] @ leaf_entries c"
      then show thesis using s l by (intro Cons.prems(1) [of "l # a" no' es' c j]) simp_all
    next
      fix r assume "walk_list (delete_step key off) ls None = Ok r" "stepped r = None"
        "kill_first key off (leaf_entries ls) = leaf_entries ls"
      then show thesis using s l by (intro Cons.prems(2) [of r]) simp_all
    qed
  qed
qed

text \<open>Marking the entry in its slot.\<close>

definition same_header :: "byte list \<Rightarrow> byte list \<Rightarrow> bool" where
  "same_header m m' \<longleftrightarrow> slice m' 0 24 = slice m 0 24 \<and> slice m' 32 4064 = slice m 32 4064"

lemma mark_dead:
  assumes p: "page_holds m p (LeafPage link es)" and j: "j < length es"
  shows "rbind (read_leaf_flags m (leaf_entry_ptr p j)) (\<lambda>flags.
      poke m (leaf_entry_ptr p j + BSON_BTREE_KEY_SIZE + 8) [flags OR LEAF_ENTRY_FLAG_DEAD]) =
    Ok (put m (leaf_entry_ptr p j) (leaf_bytes (dead_entry (es ! j))))" (is "?l = _")
proof -
  obtain k off fl where e: "es ! j = (k, off, fl)" by (metis prod_cases3)
  have "leaf_wf (es ! j)" using p j by simp
  then have wf: "length k = 13" "off < 2 ^ 64" by (simp_all add: leaf_wf_def e)
  note b = leaf_slot_bytes [OF p j]
  let ?a = "leaf_entry_ptr p j"
  have "?l = Ok (put m (?a + 21) [fl OR LEAF_ENTRY_FLAG_DEAD])"
    using leaf_slot_reads(3) [OF p j] b(2)
    by (simp add: e BSON_BTREE_KEY_SIZE_def poke_put add.commute)
  also have "put m (?a + 21) [fl OR LEAF_ENTRY_FLAG_DEAD] =
      put m ?a ((k @ nat_le 8 off) @ [fl OR LEAF_ENTRY_FLAG_DEAD] @ [])"
    using put_part [of m ?a "k @ nat_le 8 off" "[fl]" "[]" "[fl OR LEAF_ENTRY_FLAG_DEAD]"] b wf
    by (simp add: e leaf_bytes_def)
  also have "(k @ nat_le 8 off) @ [fl OR LEAF_ENTRY_FLAG_DEAD] @ [] = leaf_bytes (dead_entry (es ! j))"
    by (simp add: e leaf_bytes_def dead_entry_def)
  finally show ?thesis .
qed

lemma dead_entry_keeps [simp]: "fst (dead_entry e) = fst e" "entry_off (dead_entry e) = entry_off e"
  "entry_rank (dead_entry e) = entry_rank e" "leaf_wf (dead_entry e) = leaf_wf e"
  by (simp_all add: dead_entry_def entry_off_def entry_rank_def leaf_wf_def)

lemma dead_entry_dead [simp]: "\<not> live_entry (dead_entry e)"
proof -
  have "bit ((snd (snd e) OR 1) AND 1 :: byte) 0" by (simp add: bit_simps)
  then have "(snd (snd e) OR 1) AND 1 \<noteq> (0 :: byte)" by (metis bit_0_eq bot_apply bot_bool_def)
  then show ?thesis by (simp add: live_entry_def entry_dead_def dead_entry_def LEAF_ENTRY_FLAG_DEAD_def)
qed

lemma kill_first_keys: "map fst (kill_first key off es) = map fst es"
  by (induction es) auto

lemma sorted_entries_keys:
  assumes "map fst xs = map fst ys"
  shows "sorted_entries xs \<longleftrightarrow> sorted_entries ys"
proof -
  have "map entry_rank zs = map key_rank (map fst zs)" for zs by (simp add: entry_rank_def)
  moreover have "(\<forall>e \<in> set zs. key_ok (fst e)) \<longleftrightarrow> (\<forall>k \<in> set (map fst zs). key_ok k)" for zs :: "leaf_entry list"
    by simp
  ultimately show ?thesis using assms by (simp only: sorted_entries_def)
qed

lemma index_set_leaf:
  assumes im: "index_image m t" and ls: "leaves t = a @ (no, es) # c" and j: "j < length es"
    and e: "leaf_wf e'" "fst e' = fst (es ! j)" and m': "m' = put m (leaf_entry_ptr (page_ptr no) j) (leaf_bytes e')"
  shows "index_image m' (set_leaf no (es[j := e']) t)"
    "entries (set_leaf no (es[j := e']) t) = leaf_entries a @ es[j := e'] @ leaf_entries c"
    "length m' = length m" "slice m' 0 4096 = slice m 0 4096"
proof -
  let ?t' = "set_leaf no (es[j := e']) t"
  have d: "distinct (pages t)" "tree_holds m 0 t" "seps_ok t" "sorted_entries (entries t)"
    using im by (simp_all add: index_image_def tree_ok_def)
  have dl: "distinct (map fst (a @ (no, es) # c))" using distinct_leaves(1) [OF d(1)] ls by simp
  have p: "page_holds m (page_ptr no) (LeafPage (next_link c 0) es)"
    using tree_chain(1) [OF d(2)] ls by (simp add: chain_append)
  have b: "length (leaf_bytes e') = 22" using e(1) by (rule length_leaf_bytes)
  have run: "leaf_entry_ptr (page_ptr no) j + 22 \<le> page_ptr no + 4096" "page_ptr no + 4096 \<le> length m"
    using leaf_run(2) [OF p, of j 1] j p by simp_all
  have "no \<in> set (pages t)" using leaf_in_pages(1) [of no t] ls by simp
  then have no: "1 \<le> no" using im by (simp add: index_image_def)
  have at: "page_ptr no \<le> leaf_entry_ptr (page_ptr no) j" "4096 \<le> page_ptr no"
    using no by (simp_all add: leaf_entry_ptr_def page_ptr_def BSON_BTREE_PAGE_SIZE_def)
  show len: "length m' = length m" using run b by (simp add: m')
  show hd: "slice m' 0 4096 = slice m 0 4096" using run b at by (simp add: m')
  have same: "same_page m m' no'" if "no' \<in> set (pages t) - {no}" for no'
  proof -
    have "no' \<le> field m OFF_PAGE_COUNT 8" "(field m OFF_PAGE_COUNT 8 + 1) * 4096 \<le> length m"
      using im that by (simp_all add: index_image_def)
    then have "page_ptr no' + 4096 \<le> length m" by (simp add: page_ptr_def BSON_BTREE_PAGE_SIZE_def)
    then show ?thesis using run b at that unfolding m' by (intro same_page_put [of _ _ _ _ no]) auto
  qed
  have only: "es0 = es" if "(no, es0) \<in> set (leaves t)" for es0
    using eq_key_imp_eq_value [OF dl, of no es0 es] that by (simp add: ls)
  have th: "tree_holds m' 0 ?t'"
  proof (rule tree_set_leaf(1) [OF d(2,1)])
    fix lk es0 assume "(no, es0) \<in> set (leaves t)" "page_holds m (page_ptr no) (LeafPage lk es0)"
    then show "page_holds m' (page_ptr no) (LeafPage lk (es[j := e']))"
      using leaf_update [of m "page_ptr no" lk es j e'] j e(1) only unfolding m' by blast
  qed (use same len ls in auto)
  have keys: "map fst (es[j := e']) = map fst es"
    using j e(2) list_update_id [of "map fst es" j] by (simp add: map_update)
  have so: "seps_ok ?t'" using keys only by (intro set_leaf_seps(1) [OF d(3)]) auto
  show ent: "entries ?t' = leaf_entries a @ es[j := e'] @ leaf_entries c"
    using map_put_leaf_split [OF dl, of "es[j := e']"] by (simp add: entries_def ls)
  have se: "sorted_entries (entries ?t')"
    using d(4) keys unfolding ent by (subst sorted_entries_keys [of _ "entries t"]) (simp_all add: entries_def ls)
  have lf: "leaves_full (leaves ?t') \<or> (\<exists>no. ?t' = Lf no [])"
  proof -
    have "\<not> (\<exists>no. t = Lf no [])" using ls j by (auto simp: Cons_eq_append_conv)
    then have "leaves_full (leaves t)" using im by (simp add: index_image_def tree_ok_def)
    then have "leaves_full (leaves ?t')"
      using map_put_leaf_split [OF dl, of "es[j := e']"] j by (auto simp: ls)
    then show ?thesis ..
  qed
  have f: "field m' q 8 = field m q 8" if "q + 8 \<le> 4096" for q
    using slice_slice [of q 8 4096 m' 0] slice_slice [of q 8 4096 m 0] that hd by (simp add: field_def)
  have "tree_ok ?t'" using so se lf by (simp add: tree_ok_def)
  then show "index_image m' ?t'"
    using im len th f [of 16] f [of 24] unfolding index_image_def by (simp add: btree_off_defs)
qed

text \<open>What a delete does: the first entry of the key and the offset that the search sees is dead.\<close>

lemma index_delete:
  assumes im: "index_image m t" and key: "entries t = xs @ reached key t"
  obtains m' t' where "bson_btree_delete key off m = Ok m'" "index_image m' t'"
    "entries t' = xs @ kill_first key off (reached key t)" "length m' = length m" "slice m' 0 4096 = slice m 0 4096"
    "t' = t \<or> (\<exists>no es. t' = set_leaf no es t)"
proof -
  obtain a l c where p: "path key t = (a, l, c)" by (metis prod_cases3)
  have lv: "leaves t = a @ l # c" using path_leaves(1) [OF p] .
  have r: "reached key t = leaf_entries (l # c)" by (simp add: reached_def p)
  have xs: "xs = leaf_entries a" using key by (simp add: entries_def lv r)
  have w: "walk_leaves (page_fuel m) m (delete_body m key off) (fst l) None = walk_list (delete_step key off) (l # c) None"
    using index_walk [OF im lv, of "delete_body m key off" "delete_step key off" None] delete_body_step by fastforce
  have eq: "bson_btree_delete key off m = rbind (walk_list (delete_step key off) (l # c) None) (\<lambda>r.
      case stepped r of None \<Rightarrow> Ok m
      | Some entry \<Rightarrow> rbind (read_leaf_flags m entry) (\<lambda>flags.
          poke m (entry + BSON_BTREE_KEY_SIZE + 8) [flags OR LEAF_ENTRY_FLAG_DEAD]))"
    using index_root [OF im] index_descend [OF im p] w by (simp add: bson_btree_delete_def)
  show thesis
  proof (rule walk_delete [of "l # c" key off])
    fix a' no es c' j
    assume f: "l # c = a' @ (no, es) # c'" "j < length es"
      "walk_list (delete_step key off) (l # c) None = Ok (Return (Some (leaf_entry_ptr (page_ptr no) j)))"
      "kill_first key off (leaf_entries (l # c)) = leaf_entries a' @ es[j := dead_entry (es ! j)] @ leaf_entries c'"
    have lv': "leaves t = (a @ a') @ (no, es) # c'" using lv f(1) by simp
    have "tree_holds m 0 t" using im by (simp add: index_image_def)
    then have pg: "page_holds m (page_ptr no) (LeafPage (next_link c' 0) es)"
      using tree_chain(1) [of m 0 t] lv' by (simp add: chain_append del: page_holds.simps)
    then have wf: "leaf_wf (dead_entry (es ! j))" using f(2) by simp
    note s = index_set_leaf [OF im lv' f(2) wf _ refl]
    show thesis
    proof (rule that)
      show "bson_btree_delete key off m = Ok (put m (leaf_entry_ptr (page_ptr no) j) (leaf_bytes (dead_entry (es ! j))))"
        unfolding eq f(3) rbind.simps stepped.simps option.case by (rule mark_dead [OF pg f(2)])
      show "entries (set_leaf no (es[j := dead_entry (es ! j)]) t) = xs @ kill_first key off (reached key t)"
        using s(2) f(4) by (simp add: xs r)
    qed (use s in auto)
  next
    fix r assume "walk_list (delete_step key off) (l # c) None = Ok r" "stepped r = None"
      "kill_first key off (leaf_entries (l # c)) = leaf_entries (l # c)"
    then show thesis using eq im key r by (intro that [of m t]) (simp_all del: walk_list.simps)
  qed
qed

text \<open>The content of an index: its live entries, in the order of the keys.\<close>

definition indexed :: "btree \<Rightarrow> (key \<times> nat) list" where
  "indexed t = map (\<lambda>e. (fst e, entry_off e)) (filter live_entry (entries t))"

definition entry_pair :: "leaf_entry \<Rightarrow> int list \<times> nat" where
  "entry_pair e = (entry_rank e, entry_off e)"

lemma kill_first_pairs: "map entry_pair (kill_first key off es) = map entry_pair es"
  by (induction es) (auto simp: entry_pair_def)

lemma last_live_kill: "last_live es \<Longrightarrow> last_live (kill_first key off es)"
proof (induction es)
  case (Cons e es)
  have "entry_rank ` set (kill_first key off es) = entry_rank ` set es"
    using arg_cong [OF kill_first_keys [of key off es], of "\<lambda>ks. key_rank ` set ks"]
    by (simp add: entry_rank_def [abs_def] image_image)
  moreover have "(\<forall>x \<in> set zs. entry_rank x \<noteq> r) \<longleftrightarrow> r \<notin> entry_rank ` set zs" for zs r by blast
  ultimately have "(\<forall>x \<in> set (kill_first key off es). entry_rank x \<noteq> r) \<longleftrightarrow> (\<forall>x \<in> set es. entry_rank x \<noteq> r)" for r
    by simp
  then show ?case using Cons by auto
qed simp

lemma live_kill_first:
  assumes "sorted_entries es" "key_ok key" "distinct (map entry_pair es)"
  shows "filter live_entry (kill_first key off es) =
    filter (\<lambda>e. live_entry e \<and> \<not> (bson_btree_key_cmp (fst e) key = 0 \<and> entry_off e = off)) es"
  using assms(1,3)
proof (induction es)
  case (Cons e es)
  have tl: "sorted_entries es" "key_ok (fst e)" "\<forall>x \<in> set es. key_ok (fst x) \<and> entry_rank e \<le> entry_rank x"
    using Cons.prems(1) by (auto simp: sorted_entries_def)
  consider "bson_btree_key_cmp (fst e) key > 0"
    | "bson_btree_key_cmp (fst e) key = 0" "entry_off e = off"
    | "\<not> bson_btree_key_cmp (fst e) key > 0" "\<not> (bson_btree_key_cmp (fst e) key = 0 \<and> entry_off e = off)" by blast
  then show ?case
  proof cases
    case 1
    then have "\<forall>x \<in> set es. bson_btree_key_cmp (fst x) key \<noteq> 0"
      using tl index_key.cmp_greater [OF _ assms(2)] index_key.cmp_eq [OF _ assms(2)]
      by (force simp: entry_rank_def)
    then show ?thesis using 1 by (auto intro!: filter_cong)
  next
    case 2
    have "\<not> (bson_btree_key_cmp (fst x) key = 0 \<and> entry_off x = off)" if "x \<in> set es" for x
    proof
      assume "bson_btree_key_cmp (fst x) key = 0 \<and> entry_off x = off"
      then have "entry_pair x = entry_pair e"
        using 2 tl that index_key.cmp_eq [OF _ assms(2)] by (simp add: entry_rank_def entry_pair_def)
      then show False using Cons.prems(2) that by (metis distinct.simps(2) image_eqI list.set_map list.simps(9))
    qed
    then show ?thesis using 2 by (auto intro!: filter_cong)
  next
    case 3
    then show ?thesis using Cons.IH tl(1) Cons.prems(2) by auto
  qed
qed simp

end
