(* ===== verification/Btree_Insert.thy ===== *)
theory Btree_Insert
  imports Btree_Update Bson_Storage
begin

text \<open>
  Insertion into the B+tree of src/c_engine/btree.c: allocating pages at the end of the file,
  splitting full pages on the way up from a leaf, and growing a new root.

  The functions work on the mapped file (\<open>io\<close>). A pointer to a page is its offset, so that it
  stays valid when the file is mapped again. A recursion that a corrupt file makes endless runs
  out of fuel; the fuel is the number of pages the mapping has room for, as for the searches.
\<close>

section \<open>The code\<close>

definition BSON_BTREE_FLAG_UNIQUE :: nat where "BSON_BTREE_FLAG_UNIQUE = 2"
definition BSON_BTREE_FLAG_DESCENDING :: nat where "BSON_BTREE_FLAG_DESCENDING = 4"

definition bson_btree_unique :: "byte list \<Rightarrow> bool result" where
  "bson_btree_unique m = rbind (read_u16 m OFF_FLAGS) (\<lambda>flags. Ok (flags AND BSON_BTREE_FLAG_UNIQUE \<noteq> 0))"

definition bson_btree_descending :: "byte list \<Rightarrow> bool result" where
  "bson_btree_descending m = rbind (read_u16 m OFF_FLAGS) (\<lambda>flags. Ok (flags AND BSON_BTREE_FLAG_DESCENDING \<noteq> 0))"

subsection \<open>Pages\<close>

definition ensure_capacity_for_page :: "os_calls \<Rightarrow> nat \<Rightarrow> unit io" where
  "ensure_capacity_for_page os page_no f =
     (let needed = size_mul (size_add page_no 1) BSON_BTREE_PAGE_SIZE; cap = bson_mmap_size f in
      if needed \<le> cap then io_return () f
      else case double_until 64 (if cap = 0 then BSON_BTREE_PAGE_SIZE else cap) needed of
          Ok new_cap \<Rightarrow> bson_mmap_resize os new_cap f
        | Err e \<Rightarrow> (Err e, f)
        | Fault \<Rightarrow> (Fault, f)
        | Diverge \<Rightarrow> (Diverge, f))"

definition allocate_page :: "os_calls \<Rightarrow> nat io" where
  "allocate_page os =
     io_bind (io_load (\<lambda>m. read_u64 m OFF_PAGE_COUNT)) (\<lambda>page_count.
     let new_page_no = size_add page_count 1 in
     io_bind (ensure_capacity_for_page os new_page_no) (\<lambda>_.
     io_bind (io_store (\<lambda>m.
       rbind (poke m (page_ptr new_page_no) (replicate BSON_BTREE_PAGE_SIZE 0)) (\<lambda>m.
       write_u64 m OFF_PAGE_COUNT (size_add page_count 1)))) (\<lambda>_.
     io_return new_page_no)))"

subsection \<open>Leaves\<close>

text \<open>The position behind the entries that are not greater than the key.\<close>

function leaf_position :: "byte list \<Rightarrow> nat \<Rightarrow> key \<Rightarrow> nat \<Rightarrow> nat \<Rightarrow> nat result" where
  "leaf_position m page key insert_at count =
     (if insert_at < count then
        rbind (read_key m (leaf_entry_ptr page insert_at)) (\<lambda>k.
          if bson_btree_key_cmp k key \<le> 0 then leaf_position m page key (insert_at + 1) count
          else Ok insert_at)
      else Ok insert_at)"
  by pat_completeness auto
termination
  by (relation "measure (\<lambda>(m, page, key, insert_at, count). count - insert_at)") auto

declare leaf_position.simps [simp del]

text \<open>\<^verbatim>\<open>memmove\<close>: the bytes are read before they are written.\<close>

definition memmove :: "byte list \<Rightarrow> nat \<Rightarrow> nat \<Rightarrow> nat \<Rightarrow> byte list result" where
  "memmove m dst src n = rbind (peek m src n) (poke m dst)"

definition leaf_store :: "nat \<Rightarrow> key \<Rightarrow> nat \<Rightarrow> nat \<Rightarrow> nat \<Rightarrow> byte list \<Rightarrow> byte list result" where
  "leaf_store page key offset insert_at count m =
     rbind (memmove m (leaf_entry_ptr page (insert_at + 1)) (leaf_entry_ptr page insert_at)
              ((count - insert_at) * LEAF_ENTRY_LEN)) (\<lambda>m.
     rbind (write_leaf_entry m (leaf_entry_ptr page insert_at) key offset 0) (\<lambda>m.
     write_u16 m (page + PAGE_OFF_COUNT) (count + 1)))"

text \<open>
  The buffer of a full page with the new entry in place. It starts uninitialised; a full page
  fills it up, and a count beyond the limit overruns it, which is a fault.
\<close>

definition leaf_split_buffer :: "nat \<Rightarrow> key \<Rightarrow> nat \<Rightarrow> nat \<Rightarrow> nat \<Rightarrow> byte list \<Rightarrow> byte list result" where
  "leaf_split_buffer page key offset insert_at count m =
     (let tmp = replicate ((LEAF_MAX_ENTRIES + 1) * LEAF_ENTRY_LEN) 0 in
      rbind (peek m (leaf_entry_ptr page 0) (insert_at * LEAF_ENTRY_LEN)) (\<lambda>before.
      rbind (poke tmp 0 before) (\<lambda>tmp.
      rbind (write_leaf_entry tmp (insert_at * LEAF_ENTRY_LEN) key offset 0) (\<lambda>tmp.
      rbind (peek m (leaf_entry_ptr page insert_at) ((count - insert_at) * LEAF_ENTRY_LEN)) (\<lambda>behind.
      poke tmp ((insert_at + 1) * LEAF_ENTRY_LEN) behind)))))"

definition leaf_split_store :: "nat \<Rightarrow> nat \<Rightarrow> byte list \<Rightarrow> nat \<Rightarrow> nat \<Rightarrow> byte list \<Rightarrow> byte list result" where
  "leaf_split_store page new_page_no tmp left_n right_n m =
     (let right_page = page_ptr new_page_no in
     rbind (page_link m page) (\<lambda>old_next.
     rbind (peek tmp 0 (left_n * LEAF_ENTRY_LEN)) (\<lambda>left.
     rbind (poke m (leaf_entry_ptr page 0) left) (\<lambda>m.
     rbind (write_u16 m (page + PAGE_OFF_COUNT) left_n) (\<lambda>m.
     rbind (write_u64 m (page + PAGE_OFF_LINK) new_page_no) (\<lambda>m.
     rbind (poke m (right_page + PAGE_OFF_TYPE) [PAGE_TYPE_LEAF]) (\<lambda>m.
     rbind (peek tmp (left_n * LEAF_ENTRY_LEN) (right_n * LEAF_ENTRY_LEN)) (\<lambda>right.
     rbind (poke m (leaf_entry_ptr right_page 0) right) (\<lambda>m.
     rbind (write_u16 m (right_page + PAGE_OFF_COUNT) right_n) (\<lambda>m.
     write_u64 m (right_page + PAGE_OFF_LINK) old_next))))))))))"

definition leaf_insert :: "os_calls \<Rightarrow> nat \<Rightarrow> key \<Rightarrow> nat \<Rightarrow> bool \<Rightarrow> (key \<times> nat) option io" where
  "leaf_insert os page_no key offset unique =
     (let page = page_ptr page_no in
      io_bind (if unique then io_load (\<lambda>m. key_has_live_entry m page_no key) else io_return False) (\<lambda>dup.
      if dup then io_fail BSON_ERR_DUPLICATE_KEY
      else
        io_bind (io_load (\<lambda>m. page_entries m page)) (\<lambda>count.
        io_bind (io_load (\<lambda>m. leaf_position m page key 0 count)) (\<lambda>insert_at.
        if count < LEAF_MAX_ENTRIES then
          io_bind (io_store (leaf_store page key offset insert_at count)) (\<lambda>_. io_return None)
        else
          io_bind (io_load (leaf_split_buffer page key offset insert_at count)) (\<lambda>tmp.
          let total_n = (count + 1) mod 2 ^ 16; left_n = (total_n + 1) div 2; right_n = total_n - left_n in
          io_bind (allocate_page os) (\<lambda>new_page_no.
          io_bind (io_store (leaf_split_store page new_page_no tmp left_n right_n)) (\<lambda>_.
          io_return (Some (slice tmp (left_n * LEAF_ENTRY_LEN) BSON_BTREE_KEY_SIZE, new_page_no)))))))))"

subsection \<open>Internal pages\<close>

text \<open>
  A count below the child index, which only a corrupt file can give, makes the length of the
  copy a huge unsigned number, which is a fault.
\<close>

definition entries_behind :: "nat \<Rightarrow> nat \<Rightarrow> nat result" where
  "entries_behind count child_index = (if child_index \<le> count then Ok (count - child_index) else Fault)"

definition internal_store :: "nat \<Rightarrow> key \<Rightarrow> nat \<Rightarrow> nat \<Rightarrow> nat \<Rightarrow> byte list \<Rightarrow> byte list result" where
  "internal_store page child_split_key child_split_page child_index count m =
     rbind (entries_behind count child_index) (\<lambda>n.
     rbind (memmove m (internal_entry_ptr page (child_index + 1)) (internal_entry_ptr page child_index)
              (n * INTERNAL_ENTRY_LEN)) (\<lambda>m.
     rbind (write_internal_entry m (internal_entry_ptr page child_index) child_split_key child_split_page) (\<lambda>m.
     write_u16 m (page + PAGE_OFF_COUNT) (count + 1))))"

definition internal_split_buffer :: "nat \<Rightarrow> key \<Rightarrow> nat \<Rightarrow> nat \<Rightarrow> nat \<Rightarrow> byte list \<Rightarrow> byte list result" where
  "internal_split_buffer page child_split_key child_split_page child_index count m =
     (let tmp = replicate ((INTERNAL_MAX_KEYS + 1) * INTERNAL_ENTRY_LEN) 0 in
      rbind (peek m (internal_entry_ptr page 0) (child_index * INTERNAL_ENTRY_LEN)) (\<lambda>before.
      rbind (poke tmp 0 before) (\<lambda>tmp.
      rbind (write_internal_entry tmp (child_index * INTERNAL_ENTRY_LEN) child_split_key child_split_page) (\<lambda>tmp.
      rbind (entries_behind count child_index) (\<lambda>n.
      rbind (peek m (internal_entry_ptr page child_index) (n * INTERNAL_ENTRY_LEN)) (\<lambda>behind.
      poke tmp ((child_index + 1) * INTERNAL_ENTRY_LEN) behind))))))"

definition internal_split_store ::
    "nat \<Rightarrow> nat \<Rightarrow> nat \<Rightarrow> byte list \<Rightarrow> nat \<Rightarrow> nat \<Rightarrow> byte list \<Rightarrow> byte list result" where
  "internal_split_store page new_page_no leftmost tmp mid right_n m =
     (let right_page = page_ptr new_page_no in
     rbind (peek tmp 0 (mid * INTERNAL_ENTRY_LEN)) (\<lambda>left.
     rbind (poke m (internal_entry_ptr page 0) left) (\<lambda>m.
     rbind (write_u16 m (page + PAGE_OFF_COUNT) mid) (\<lambda>m.
     rbind (write_u64 m (page + PAGE_OFF_LINK) leftmost) (\<lambda>m.
     rbind (poke m (right_page + PAGE_OFF_TYPE) [PAGE_TYPE_INTERNAL]) (\<lambda>m.
     rbind (read_u64 tmp (mid * INTERNAL_ENTRY_LEN + BSON_BTREE_KEY_SIZE)) (\<lambda>right_leftmost.
     rbind (write_u64 m (right_page + PAGE_OFF_LINK) right_leftmost) (\<lambda>m.
     rbind (peek tmp ((mid + 1) * INTERNAL_ENTRY_LEN) (right_n * INTERNAL_ENTRY_LEN)) (\<lambda>right.
     rbind (poke m (internal_entry_ptr right_page 0) right) (\<lambda>m.
     write_u16 m (right_page + PAGE_OFF_COUNT) right_n))))))))))"

definition internal_insert ::
    "os_calls \<Rightarrow> nat \<Rightarrow> nat \<Rightarrow> key \<times> nat \<Rightarrow> (key \<times> nat) option io" where
  "internal_insert os page_no child_index child_split =
     (let page = page_ptr page_no in
      io_bind (io_load (\<lambda>m. page_entries m page)) (\<lambda>count.
      if count < INTERNAL_MAX_KEYS then
        io_bind (io_store (internal_store page (fst child_split) (snd child_split) child_index count)) (\<lambda>_.
        io_return None)
      else
        io_bind (io_load (\<lambda>m. page_link m page)) (\<lambda>leftmost.
        io_bind (io_load (internal_split_buffer page (fst child_split) (snd child_split) child_index count)) (\<lambda>tmp.
        let total_n = (count + 1) mod 2 ^ 16; mid = total_n div 2; right_n = size_sub (size_sub total_n mid) 1 in
        io_bind (allocate_page os) (\<lambda>new_page_no.
        io_bind (io_store (internal_split_store page new_page_no leftmost tmp mid right_n)) (\<lambda>_.
        io_return (Some (slice tmp (mid * INTERNAL_ENTRY_LEN) BSON_BTREE_KEY_SIZE, new_page_no))))))))"

text \<open>\<open>Some (split_key, split_page)\<close> stands for \<^verbatim>\<open>did_split\<close> and its two out-parameters.\<close>

fun insert_recursive :: "os_calls \<Rightarrow> nat \<Rightarrow> nat \<Rightarrow> key \<Rightarrow> nat \<Rightarrow> bool \<Rightarrow> (key \<times> nat) option io" where
  "insert_recursive os fuel page_no key offset unique =
     (let page = page_ptr page_no in
      io_bind (io_load (\<lambda>m. page_type m page)) (\<lambda>type.
      if type = PAGE_TYPE_LEAF then leaf_insert os page_no key offset unique
      else case fuel of
        0 \<Rightarrow> (\<lambda>f. (Diverge, f))
      | Suc fuel' \<Rightarrow>
          io_bind (io_load (\<lambda>m. rbind (page_entries m page) (\<lambda>count.
            rbind (page_link m page) (\<lambda>link. child_loop m page key 0 count link)))) (\<lambda>(child_index, child).
          io_bind (insert_recursive os fuel' child key offset unique) (\<lambda>child_split.
          case child_split of
            None \<Rightarrow> io_return None
          | Some split \<Rightarrow> internal_insert os page_no child_index split))))"

declare insert_recursive.simps [simp del]

definition new_root_store :: "nat \<Rightarrow> nat \<Rightarrow> key \<times> nat \<Rightarrow> byte list \<Rightarrow> byte list result" where
  "new_root_store new_root root split m =
     (let new_root_page = page_ptr new_root in
      rbind (poke m (new_root_page + PAGE_OFF_TYPE) [PAGE_TYPE_INTERNAL]) (\<lambda>m.
      rbind (write_u64 m (new_root_page + PAGE_OFF_LINK) root) (\<lambda>m.
      rbind (write_internal_entry m (internal_entry_ptr new_root_page 0) (fst split) (snd split)) (\<lambda>m.
      rbind (write_u16 m (new_root_page + PAGE_OFF_COUNT) 1) (\<lambda>m.
      write_u64 m OFF_ROOT_PAGE_NO new_root)))))"

definition bson_btree_insert :: "os_calls \<Rightarrow> key \<Rightarrow> nat \<Rightarrow> unit io" where
  "bson_btree_insert os key record_offset f =
     (let fuel = page_fuel (mm_bytes f) in
      io_bind (io_load current_root) (\<lambda>root.
      io_bind (io_load bson_btree_unique) (\<lambda>unique.
      io_bind (insert_recursive os fuel root key record_offset unique) (\<lambda>split.
      case split of
        None \<Rightarrow> io_return ()
      | Some s \<Rightarrow>
          io_bind (allocate_page os) (\<lambda>new_root.
          io_store (new_root_store new_root root s))))) f)"

end
