(* ===== verification/Btree_Abstract.thy ===== *)
theory Btree_Abstract
  imports Btree_Update "HOL-Library.Multiset"
begin

text \<open>
  Insertion as a function on abstract trees, the specification that the code of Btree_Insert
  implements: what it does to the entries, to the separators and to the page numbers.
\<close>

section \<open>The specification\<close>

definition new_entry :: "key \<Rightarrow> nat \<Rightarrow> leaf_entry" where
  "new_entry key off = (key, off, 0)"

definition entry_position :: "key \<Rightarrow> leaf_entry list \<Rightarrow> nat" where
  "entry_position key es = length (takeWhile (\<lambda>e. bson_btree_key_cmp (fst e) key \<le> 0) es)"

definition insert_entry :: "key \<Rightarrow> nat \<Rightarrow> leaf_entry list \<Rightarrow> leaf_entry list" where
  "insert_entry key off es =
     take (entry_position key es) es @ new_entry key off # drop (entry_position key es) es"

text \<open>
  \<open>n\<close> is the number of pages in use. The result is the tree in place of the old one, the list of
  the at most one separator and tree split off on its right, and the new number of pages.
\<close>

function tree_insert :: "key \<Rightarrow> nat \<Rightarrow> nat \<Rightarrow> btree \<Rightarrow> btree \<times> (key \<times> btree) list \<times> nat"
  and kids_insert :: "key \<Rightarrow> nat \<Rightarrow> nat \<Rightarrow> btree \<Rightarrow> (key \<times> btree) list \<Rightarrow> btree \<times> (key \<times> btree) list \<times> nat" where
  "tree_insert key off n (Lf no es) =
     (let es' = insert_entry key off es in
      if length es < 180 then (Lf no es', [], n)
      else (Lf no (take 91 es'), [(fst (es' ! 91), Lf (n + 1) (drop 91 es'))], n + 1))"
| "tree_insert key off n (Nd no t ts) =
     (case kids_insert key off n t ts of (t', ts', n') \<Rightarrow>
        if length ts' \<le> 190 then (Nd no t' ts', [], n')
        else (Nd no t' (take 95 ts'),
              [(fst (ts' ! 95), Nd (n' + 1) (snd (ts' ! 95)) (drop 96 ts'))], n' + 1))"
| "kids_insert key off n t [] = tree_insert key off n t"
| "kids_insert key off n t ((k, t1) # ts) =
     (if bson_btree_key_cmp key k < 0
      then (case tree_insert key off n t of (t', us, n') \<Rightarrow> (t', us @ (k, t1) # ts, n'))
      else (case kids_insert key off n t1 ts of (t', ts', n') \<Rightarrow> (t, (k, t') # ts', n')))"
  by pat_completeness auto
termination
  by (relation "measure (case_sum (\<lambda>(key, off, n, t). 2 * size t)
        (\<lambda>(key, off, n, t, ts). 2 * (size t + size_list (size_prod (\<lambda>_. 0) size) ts) + 1))") auto

text \<open>A new root when the old one was split.\<close>

definition root_insert :: "key \<Rightarrow> nat \<Rightarrow> nat \<Rightarrow> btree \<Rightarrow> btree \<times> nat" where
  "root_insert key off n t = (case tree_insert key off n t of (t', us, n') \<Rightarrow>
     if us = [] then (t', n') else (Nd (n' + 1) t' us, n' + 1))"

section \<open>What insertion does\<close>

lemma length_insert_entry [simp]: "length (insert_entry key off es) = length es + 1"
proof -
  have "entry_position key es \<le> length es" by (simp add: entry_position_def length_takeWhile_le)
  then show ?thesis by (simp add: insert_entry_def)
qed

lemma insert_entry_not_Nil [simp]: "insert_entry key off es \<noteq> []"
  by (simp add: insert_entry_def)

lemma kid_leaves_append [simp]: "kid_leaves (xs @ ys) = kid_leaves xs @ kid_leaves ys"
  by (induction xs) auto

lemma kid_pages_append [simp]: "kid_pages (xs @ ys) = kid_pages xs @ kid_pages ys"
  by (induction xs) auto

lemma kid_seps_append [simp]: "kid_seps_ok (xs @ ys) \<longleftrightarrow> kid_seps_ok xs \<and> kid_seps_ok ys"
  by (induction xs) auto

lemma kids_hold_append [simp]:
  "kids_hold m link (xs @ ys) \<longleftrightarrow> kids_hold m (next_link (kid_leaves ys) link) xs \<and> kids_hold m link ys"
  by (induction xs) auto

text \<open>A list of more than 95 kids around the one whose separator is hoisted.\<close>

lemma kids_split:
  assumes "\<not> length ts \<le> 190"
  shows "ts = take 95 ts @ (fst (ts ! 95), snd (ts ! 95)) # drop 96 ts"
  using assms id_take_nth_drop [of 95 ts] by simp

lemma insert_root:
  "tree_insert key off n t = (t', us, n') \<Longrightarrow> root_no t' = root_no t"
  "kids_insert key off n t ts = (t', ts', n') \<Longrightarrow> root_no t' = root_no t"
  by (induction key off n t and key off n t ts arbitrary: t' us n' and t' ts' n' rule: tree_insert_kids_insert.induct)
    (auto simp: Let_def split: prod.splits if_splits)

lemma insert_split_one:
  "tree_insert key off n t = (t', us, n') \<Longrightarrow> length us \<le> 1"
  "kids_insert key off n t ts = (t', ts', n') \<Longrightarrow> length ts' \<le> length ts + 1"
  by (induction key off n t and key off n t ts arbitrary: t' us n' and t' ts' n' rule: tree_insert_kids_insert.induct)
    (fastforce simp: Let_def split: prod.splits if_splits)+

lemma insert_leaf_entries:
  "tree_insert key off n t = (t', us, n') \<Longrightarrow> path key t = (a, l, c) \<Longrightarrow>
     leaf_entries (leaves t' @ kid_leaves us) = leaf_entries a @ insert_entry key off (snd l) @ leaf_entries c"
  "kids_insert key off n t ts = (t', ts', n') \<Longrightarrow> kids_path key t ts = (a, l, c) \<Longrightarrow>
     leaf_entries (leaves t' @ kid_leaves ts') = leaf_entries a @ insert_entry key off (snd l) @ leaf_entries c"
proof (induction key off n t and key off n t ts arbitrary: t' us n' a l c and t' ts' n' a l c
    rule: tree_insert_kids_insert.induct)
  case (1 key off n no es)
  then show ?case by (auto simp: Let_def split: if_splits)
next
  case (2 key off n no t ts)
  obtain t1 ts1 n1 where k: "kids_insert key off n t ts = (t1, ts1, n1)" by (metis prod_cases3)
  have e: "leaf_entries (leaves t1 @ kid_leaves ts1) = leaf_entries a @ insert_entry key off (snd l) @ leaf_entries c"
    using "2.IH" k "2.prems"(2) by simp
  show ?case
  proof (cases "length ts1 \<le> 190")
    case True
    then show ?thesis using "2.prems"(1) k e by auto
  next
    case False
    have "kid_leaves ts1 = kid_leaves (take 95 ts1) @ leaves (snd (ts1 ! 95)) @ kid_leaves (drop 96 ts1)"
      by (subst kids_split [OF False]) (simp del: prod.collapse)
    then show ?thesis using "2.prems"(1) k e False by auto
  qed
next
  case (3 key off n t)
  then show ?case by simp
next
  case (4 key off n t k t1 ts)
  then show ?case by (fastforce split: prod.splits if_splits)
qed

text \<open>Page numbers: those of the tree, and the new ones.\<close>

lemma insert_pages:
  "tree_insert key off n t = (t', us, n') \<Longrightarrow>
     n \<le> n' \<and> mset (pages t' @ kid_pages us) = mset (pages t) + mset [n + 1..<n' + 1]"
  "kids_insert key off n t ts = (t', ts', n') \<Longrightarrow>
     n \<le> n' \<and> mset (pages t' @ kid_pages ts') = mset (pages t @ kid_pages ts) + mset [n + 1..<n' + 1]"
proof (induction key off n t and key off n t ts arbitrary: t' us n' and t' ts' n' rule: tree_insert_kids_insert.induct)
  case (1 key off n no es)
  then show ?case by (auto simp: Let_def split: if_splits)
next
  case (2 key off n no t ts)
  obtain t1 ts1 n1 where k: "kids_insert key off n t ts = (t1, ts1, n1)" by (metis prod_cases3)
  note ih = "2.IH" [OF k]
  show ?case
  proof (cases "length ts1 \<le> 190")
    case True
    then show ?thesis using "2.prems" k ih by auto
  next
    case False
    have "kid_pages ts1 = kid_pages (take 95 ts1) @ pages (snd (ts1 ! 95)) @ kid_pages (drop 96 ts1)"
      by (subst kids_split [OF False]) (simp del: prod.collapse)
    then show ?thesis using "2.prems" k ih False by (auto simp: add.assoc)
  qed
next
  case (3 key off n t)
  then show ?case by simp
next
  case (4 key off n t k t1 ts)
  then show ?case by (fastforce split: prod.splits if_splits)
qed

lemma insert_height:
  "tree_insert key off n t = (t', us, n') \<Longrightarrow> n' \<le> n + height t + 1"
  "kids_insert key off n t ts = (t', ts', n') \<Longrightarrow> n' \<le> n + max (height t) (kids_height ts) + 1"
  by (induction key off n t and key off n t ts arbitrary: t' us n' and t' ts' n' rule: tree_insert_kids_insert.induct)
    (force simp: Let_def max_def split: prod.splits if_splits)+

text \<open>The first key of a tree stays when the new key is no smaller, and so do the separators.\<close>

definition first_key :: "btree \<Rightarrow> key" where
  "first_key t = fst (hd (snd (hd (leaves t))))"

lemma first_key_Nd [simp]: "first_key (Nd no t ts) = first_key t"
  by (simp add: first_key_def)

lemma kid_seps_Cons [simp]: "kid_seps_ok ((k, t) # ts) \<longleftrightarrow> seps_ok t \<and> first_key t = k \<and> kid_seps_ok ts"
  by (auto simp: first_key_def)

declare kid_seps_ok.simps(2) [simp del]

lemma hd_insert_entry:
  assumes "es \<noteq> []" "sorted_entries es" "key_ok key" "\<not> bson_btree_key_cmp key (fst (hd es)) < 0"
  shows "hd (insert_entry key off es) = hd es"
proof -
  obtain e es' where e: "es = e # es'" using assms(1) by (cases es) auto
  have "key_ok (fst e)" using assms(2) e by (simp add: sorted_entries_def)
  then have "bson_btree_key_cmp (fst e) key \<le> 0"
    using assms(3,4) e index_key.cmp_less index_key.cmp_le by auto
  then show ?thesis by (simp add: insert_entry_def entry_position_def e)
qed

lemma insert_first_key:
  "tree_insert key off n t = (t', us, n') \<Longrightarrow> key_ok key \<Longrightarrow> leaves_full (leaves t) \<Longrightarrow>
     sorted_entries (leaf_entries (leaves t)) \<Longrightarrow> \<not> bson_btree_key_cmp key (first_key t) < 0 \<Longrightarrow>
     first_key t' = first_key t"
  "kids_insert key off n t ts = (t', ts', n') \<Longrightarrow> key_ok key \<Longrightarrow> leaves_full (leaves t) \<Longrightarrow>
     sorted_entries (leaf_entries (leaves t)) \<Longrightarrow> \<not> bson_btree_key_cmp key (first_key t) < 0 \<Longrightarrow>
     first_key t' = first_key t"
proof (induction key off n t and key off n t ts arbitrary: t' us n' and t' ts' n' rule: tree_insert_kids_insert.induct)
  case (1 key off n no es)
  then have "hd (insert_entry key off es) = hd es" by (intro hd_insert_entry) (simp_all add: first_key_def)
  then show ?case using 1(1) by (auto simp: Let_def first_key_def hd_conv_nth split: if_splits)
next
  case (2 key off n no t ts)
  then show ?case by (auto simp: sorted_entries_append split: prod.splits if_splits)
qed (auto split: prod.splits if_splits)

lemma insert_full:
  "tree_insert key off n t = (t', us, n') \<Longrightarrow> leaves_full (leaves t) \<or> (\<exists>no. t = Lf no []) \<Longrightarrow>
     leaves_full (leaves t' @ kid_leaves us)"
  "kids_insert key off n t ts = (t', ts', n') \<Longrightarrow> leaves_full (leaves t @ kid_leaves ts) \<Longrightarrow>
     leaves_full (leaves t' @ kid_leaves ts')"
proof (induction key off n t and key off n t ts arbitrary: t' us n' and t' ts' n' rule: tree_insert_kids_insert.induct)
  case (1 key off n no es)
  have "length (insert_entry key off es) = length es + 1" by simp
  then have "take 91 (insert_entry key off es) \<noteq> []" "drop 91 (insert_entry key off es) \<noteq> []" if "\<not> length es < 180"
    using that by auto
  then show ?case using 1 by (auto simp: Let_def split: if_splits)
next
  case (2 key off n no t ts)
  obtain t1 ts1 n1 where k: "kids_insert key off n t ts = (t1, ts1, n1)" by (metis prod_cases3)
  have f: "leaves_full (leaves t1 @ kid_leaves ts1)" using "2.IH" [OF k] "2.prems"(2) by simp
  show ?case
  proof (cases "length ts1 \<le> 190")
    case True
    then show ?thesis using "2.prems"(1) k f by auto
  next
    case False
    have "kid_leaves ts1 = kid_leaves (take 95 ts1) @ leaves (snd (ts1 ! 95)) @ kid_leaves (drop 96 ts1)"
      by (subst kids_split [OF False]) (simp del: prod.collapse)
    then show ?thesis using "2.prems"(1) k f False by auto
  qed
next
  case (3 key off n t)
  then show ?case by simp
next
  case (4 key off n t k t1 ts)
  then show ?case by (fastforce split: prod.splits if_splits)
qed

lemma insert_seps:
  "tree_insert key off n t = (t', us, n') \<Longrightarrow> key_ok key \<Longrightarrow> leaves_full (leaves t) \<or> (\<exists>no. t = Lf no []) \<Longrightarrow>
     sorted_entries (leaf_entries (leaves t)) \<Longrightarrow> seps_ok t \<Longrightarrow> seps_ok t' \<and> kid_seps_ok us"
  "kids_insert key off n t ts = (t', ts', n') \<Longrightarrow> key_ok key \<Longrightarrow> leaves_full (leaves t @ kid_leaves ts) \<Longrightarrow>
     sorted_entries (leaf_entries (leaves t @ kid_leaves ts)) \<Longrightarrow> seps_ok t \<Longrightarrow> kid_seps_ok ts \<Longrightarrow>
     seps_ok t' \<and> kid_seps_ok ts'"
proof (induction key off n t and key off n t ts arbitrary: t' us n' and t' ts' n' rule: tree_insert_kids_insert.induct)
  case (1 key off n no es)
  have "length (insert_entry key off es) = length es + 1" by simp
  then show ?case
    using "1.prems"(1) by (auto simp: Let_def first_key_def hd_drop_conv_nth split: if_splits)
next
  case (2 key off n no t ts)
  obtain t1 ts1 n1 where k: "kids_insert key off n t ts = (t1, ts1, n1)" by (metis prod_cases3)
  have f: "seps_ok t1" "kid_seps_ok ts1" using "2.IH" [OF k] "2.prems" by simp_all
  show ?case
  proof (cases "length ts1 \<le> 190")
    case True
    then show ?thesis using "2.prems"(1) k f by auto
  next
    case False
    have "kid_seps_ok (take 95 ts1 @ (fst (ts1 ! 95), snd (ts1 ! 95)) # drop 96 ts1)"
      using f(2) kids_split [OF False] by (simp del: prod.collapse)
    then show ?thesis using "2.prems"(1) k f False by (auto simp del: prod.collapse)
  qed
next
  case (3 key off n t)
  then show ?case by simp
next
  case (4 key off n t k t1 ts)
  have sub: "sorted_entries (leaf_entries (leaves t))" "sorted_entries (leaf_entries (leaves t1 @ kid_leaves ts))"
    "sorted_entries (leaf_entries (leaves t1))"
    using "4.prems"(4) by (auto simp: sorted_entries_append)
  show ?case
  proof (cases "bson_btree_key_cmp key k < 0")
    case True
    obtain t2 us n2 where k: "tree_insert key off n t = (t2, us, n2)" by (metis prod_cases3)
    show ?thesis using "4.IH"(1) [OF True k] "4.prems" sub True k by auto
  next
    case False
    obtain t2 ts2 n2 where k: "kids_insert key off n t1 ts = (t2, ts2, n2)" by (metis prod_cases3)
    have "first_key t2 = k"
      using insert_first_key(2) [OF k "4.prems"(2) _ sub(3)] "4.prems"(3,6) False by simp
    then show ?thesis using "4.IH"(2) [OF False k] "4.prems" sub(2) False k by auto
  qed
qed

section \<open>Insertion into the sorted entries\<close>

lemma entry_position_append:
  assumes "\<forall>e \<in> set xs. bson_btree_key_cmp (fst e) key \<le> 0" "\<forall>e \<in> set zs. \<not> bson_btree_key_cmp (fst e) key \<le> 0"
  shows "insert_entry key off (xs @ ys @ zs) = xs @ insert_entry key off ys @ zs"
proof -
  have z: "takeWhile (\<lambda>e. bson_btree_key_cmp (fst e) key \<le> 0) zs = []"
    using assms(2) by (cases zs) auto
  have "takeWhile (\<lambda>e. bson_btree_key_cmp (fst e) key \<le> 0) (ys @ zs) = takeWhile (\<lambda>e. bson_btree_key_cmp (fst e) key \<le> 0) ys"
    using z by (induction ys) auto
  then have "entry_position key (xs @ ys @ zs) = length xs + entry_position key ys"
    using assms(1) by (simp add: entry_position_def takeWhile_append2)
  moreover have "entry_position key ys \<le> length ys" by (simp add: entry_position_def length_takeWhile_le)
  ultimately show ?thesis by (simp add: insert_entry_def)
qed

lemma insert_entries:
  assumes ok: "tree_ok t" "key_ok key" and ins: "tree_insert key off n t = (t', us, n')"
  shows "leaf_entries (leaves t' @ kid_leaves us) = insert_entry key off (entries t)"
proof -
  obtain a l c where p: "path key t = (a, l, c)" by (metis prod_cases3)
  note pe = path_entries [OF ok p]
  have se: "sorted_entries (entries t)" using ok(1) by (simp add: tree_ok_def)
  then have okc: "\<forall>e \<in> set (leaf_entries a) \<union> set (leaf_entries c). key_ok (fst e)"
    using pe(1) by (auto simp: sorted_entries_def)
  have "\<forall>e \<in> set (leaf_entries a). bson_btree_key_cmp (fst e) key \<le> 0"
  proof
    fix e assume e: "e \<in> set (leaf_entries a)"
    then have "a \<noteq> []" by auto
    then obtain x xs where x: "snd l = x # xs" "entry_rank x \<le> key_rank key" using pe(3) by (cases "snd l") auto
    have "entry_rank e \<le> entry_rank x" using se e x(1) by (auto simp: pe(1) sorted_entries_append)
    then show "bson_btree_key_cmp (fst e) key \<le> 0"
      using x(2) okc e index_key.cmp_le [OF _ ok(2), of "fst e"] by (auto simp: entry_rank_def)
  qed
  moreover have "\<forall>e \<in> set (leaf_entries c). \<not> bson_btree_key_cmp (fst e) key \<le> 0"
    using pe(2) okc index_key.cmp_le [OF _ ok(2)] by (auto simp: entry_rank_def not_le)
  ultimately show ?thesis
    using insert_leaf_entries(1) [OF ins p] by (simp add: pe(1) entry_position_append)
qed

lemma insert_entry_split:
  assumes "sorted_entries es" "key_ok key"
  obtains xs ys where "es = xs @ ys" "insert_entry key off es = xs @ new_entry key off # ys"
    "\<forall>e \<in> set xs. entry_rank e \<le> key_rank key" "\<forall>e \<in> set ys. key_rank key < entry_rank e"
proof -
  let ?P = "\<lambda>e :: leaf_entry. bson_btree_key_cmp (fst e) key \<le> 0"
  define xs where "xs = takeWhile ?P es"
  define ys where "ys = dropWhile ?P es"
  have es: "es = xs @ ys" by (simp add: xs_def ys_def)
  have ok: "\<forall>e \<in> set es. key_ok (fst e)" using assms(1) by (simp add: sorted_entries_def)
  have "entry_position key es = length xs" by (simp add: entry_position_def xs_def)
  then have "insert_entry key off es = xs @ new_entry key off # ys" by (simp add: insert_entry_def es)
  moreover have "entry_rank e \<le> key_rank key" if "e \<in> set xs" for e
    using ok index_key.cmp_le [OF _ assms(2), of "fst e"] set_takeWhileD [of e ?P es] that
    by (simp add: entry_rank_def xs_def)
  moreover have "key_rank key < entry_rank e" if e: "e \<in> set ys" for e
  proof -
    obtain y ys' where y: "ys = y # ys'" using e by (cases ys) auto
    have "\<not> ?P y" using y hd_dropWhile [of ?P es] by (simp add: ys_def)
    then have "key_rank key < entry_rank y"
      using ok y es index_key.cmp_le [OF _ assms(2), of "fst y"] by (simp add: entry_rank_def)
    moreover have "entry_rank y \<le> entry_rank e"
      using assms(1) e y sorted_entries_hd [of y ys' e] by (simp add: es sorted_entries_append)
    ultimately show ?thesis by simp
  qed
  ultimately show thesis using es that by blast
qed

lemma new_entry_simps [simp]: "fst (new_entry key off) = key" "entry_off (new_entry key off) = off"
  "entry_rank (new_entry key off) = key_rank key" "live_entry (new_entry key off)"
  by (simp_all add: new_entry_def entry_off_def entry_rank_def live_entry_def entry_dead_def)

lemma sorted_insert_entry:
  assumes "sorted_entries es" "key_ok key"
  shows "sorted_entries (insert_entry key off es)"
proof -
  obtain xs ys where s: "es = xs @ ys" "insert_entry key off es = xs @ new_entry key off # ys"
    "\<forall>e \<in> set xs. entry_rank e \<le> key_rank key" "\<forall>e \<in> set ys. key_rank key < entry_rank e"
    using insert_entry_split [OF assms] .
  have "sorted_entries (new_entry key off # ys)"
    using assms s(1,4) by (auto simp: sorted_entries_def sorted_append less_imp_le)
  moreover have "\<forall>x \<in> set xs. \<forall>y \<in> set (new_entry key off # ys). entry_rank x \<le> entry_rank y"
    using assms(1) s by (auto simp: sorted_entries_append)
  ultimately show ?thesis using assms(1) s(1) unfolding s(2) sorted_entries_append by (simp add: sorted_entries_append)
qed

lemma last_live_insert_entry:
  assumes "sorted_entries es" "key_ok key" "last_live es" "\<forall>e \<in> set es. live_entry e \<longrightarrow> entry_rank e \<noteq> key_rank key"
  shows "last_live (insert_entry key off es)"
proof -
  obtain xs ys where s: "es = xs @ ys" "insert_entry key off es = xs @ new_entry key off # ys"
    "\<forall>e \<in> set xs. entry_rank e \<le> key_rank key" "\<forall>e \<in> set ys. key_rank key < entry_rank e"
    using insert_entry_split [OF assms(1,2)] .
  show ?thesis using assms(3,4) s(1,3,4) unfolding s(2) by (auto simp: last_live_append)
qed

section \<open>How many pages a tree needs\<close>

text \<open>An internal page has a key, so that a tree has fewer internal pages than leaves.\<close>

fun nodes_ok :: "btree \<Rightarrow> bool" and kid_nodes_ok :: "(key \<times> btree) list \<Rightarrow> bool" where
  "nodes_ok (Lf no es) \<longleftrightarrow> True"
| "nodes_ok (Nd no t ts) \<longleftrightarrow> ts \<noteq> [] \<and> nodes_ok t \<and> kid_nodes_ok ts"
| "kid_nodes_ok [] \<longleftrightarrow> True"
| "kid_nodes_ok ((k, t) # ts) \<longleftrightarrow> nodes_ok t \<and> kid_nodes_ok ts"

lemma kid_nodes_append [simp]: "kid_nodes_ok (xs @ ys) \<longleftrightarrow> kid_nodes_ok xs \<and> kid_nodes_ok ys"
  by (induction xs) auto

lemma pages_leaves:
  "nodes_ok t \<Longrightarrow> length (pages t) + 1 \<le> 2 * length (leaves t)"
  "kid_nodes_ok ts \<Longrightarrow> length (kid_pages ts) + length ts \<le> 2 * length (kid_leaves ts)"
proof (induction t and ts rule: nodes_ok_kid_nodes_ok.induct)
  case (2 no t ts)
  then have "length ts \<noteq> 0" by simp
  then have "1 \<le> length ts" by linarith
  then show ?case using 2 by simp
qed auto

lemma leaves_entries: "leaves_full ls \<Longrightarrow> length ls \<le> length (leaf_entries ls)"
proof (induction ls)
  case (Cons l ls)
  then have "1 \<le> length (snd l)" by (cases "snd l") simp_all
  moreover have "length ls \<le> length (leaf_entries ls)" using Cons by simp
  ultimately show ?case by (simp add: add_mono)
qed simp

lemma pages_entries:
  assumes "nodes_ok t" "tree_ok t"
  shows "length (pages t) \<le> 2 * length (entries t) + 1"
proof (cases "leaves_full (leaves t)")
  case True
  then show ?thesis using pages_leaves(1) [OF assms(1)] leaves_entries [OF True] by (simp add: entries_def)
next
  case False
  then show ?thesis using assms(2) by (auto simp: tree_ok_def)
qed

lemma insert_nodes:
  "tree_insert key off n t = (t', us, n') \<Longrightarrow> nodes_ok t \<Longrightarrow> nodes_ok t' \<and> kid_nodes_ok us"
  "kids_insert key off n t ts = (t', ts', n') \<Longrightarrow> nodes_ok t \<Longrightarrow> kid_nodes_ok ts \<Longrightarrow>
     nodes_ok t' \<and> kid_nodes_ok ts' \<and> length ts \<le> length ts'"
proof (induction key off n t and key off n t ts arbitrary: t' us n' and t' ts' n' rule: tree_insert_kids_insert.induct)
  case (1 key off n no es)
  then show ?case by (auto simp: Let_def split: if_splits)
next
  case (2 key off n no t ts)
  obtain t1 ts1 n1 where k: "kids_insert key off n t ts = (t1, ts1, n1)" by (metis prod_cases3)
  have f: "nodes_ok t1" "kid_nodes_ok ts1" "length ts \<le> length ts1" using "2.IH" [OF k] "2.prems" by simp_all
  show ?case
  proof (cases "length ts1 \<le> 190")
    case True
    then show ?thesis using "2.prems" k f by auto
  next
    case False
    have "kid_nodes_ok (take 95 ts1 @ (fst (ts1 ! 95), snd (ts1 ! 95)) # drop 96 ts1)"
      using f(2) kids_split [OF False] by (simp del: prod.collapse)
    moreover have "take 95 ts1 \<noteq> []" "drop 96 ts1 \<noteq> []" using False by auto
    ultimately show ?thesis using "2.prems"(1) k f False by (auto simp del: prod.collapse)
  qed
next
  case (3 key off n t)
  then show ?case by simp
next
  case (4 key off n t k t1 ts)
  then show ?case by (fastforce split: prod.splits if_splits)
qed

lemma set_leaf_nodes [simp]:
  "nodes_ok (set_leaf n es t) = nodes_ok t" "kid_nodes_ok (kids_set_leaf n es ts) = kid_nodes_ok ts"
proof (induction n es t and n es ts rule: set_leaf_kids_set_leaf.induct)
  case (2 n es no t ts)
  then show ?case by (cases ts) auto
qed auto

lemma root_insert_nodes: "nodes_ok t \<Longrightarrow> nodes_ok (fst (root_insert key off n t))"
  using insert_nodes(1) [of key off n t] by (cases "tree_insert key off n t") (auto simp: root_insert_def)

text \<open>No page is lost: the pages of the tree are exactly the pages in use.\<close>

lemma root_insert_pages:
  assumes "set (pages t) = {1..n}"
  shows "set (pages (fst (root_insert key off n t))) = {1..snd (root_insert key off n t)}"
proof -
  obtain t' us n' where k: "tree_insert key off n t = (t', us, n')" by (metis prod_cases3)
  have m: "n \<le> n'" "mset (pages t' @ kid_pages us) = mset (pages t @ [n + 1..<n' + 1])"
    using insert_pages(1) [OF k] by simp_all
  have "set (pages t' @ kid_pages us) = set (pages t @ [n + 1..<n' + 1])" using m(2) by (rule mset_eq_setD)
  also have "\<dots> = {1..n} \<union> {n + 1..<n' + 1}" using assms by (simp only: set_append set_upt)
  also have "\<dots> = {1..n'}" using m(1) by auto
  finally have "set (pages t' @ kid_pages us) = {1..n'}" .
  then show ?thesis by (cases "us = []") (auto simp: root_insert_def k)
qed

end
