(* ===== verification/Btree_Refine.thy ===== *)
theory Btree_Refine
  imports Btree_Insert Btree_Abstract
begin

text \<open>
  The insertion of Btree_Insert implements the one of Btree_Abstract: page by page what the
  stores leave behind, then by induction over the tree.
\<close>

section \<open>Stores into one page\<close>

definition within :: "byte list \<Rightarrow> byte list \<Rightarrow> nat \<Rightarrow> nat \<Rightarrow> bool" where
  "within m m' p k \<longleftrightarrow> length m' = length m \<and> take p m' = take p m \<and> drop (p + k) m' = drop (p + k) m"

lemma within_refl [simp]: "within m m p k"
  by (simp add: within_def)

lemma within_put:
  "within m m' p k \<Longrightarrow> p \<le> off \<Longrightarrow> off + length bs \<le> p + k \<Longrightarrow> p + k \<le> length m \<Longrightarrow> within m (put m' off bs) p k"
  by (simp add: within_def put_def)

lemma within_slice:
  assumes "within m m' p k" "q + n \<le> p \<or> p + k \<le> q"
  shows "slice m' q n = slice m q n"
  using assms(2)
proof
  assume q: "q + n \<le> p"
  have "slice x q n = slice (take p x) q n" for x :: "byte list" using q by (simp add: slice_def drop_take)
  then show ?thesis using assms(1) by (metis within_def)
next
  assume q: "p + k \<le> q"
  have "slice x q n = slice (drop (p + k) x) (q - (p + k)) n" for x :: "byte list" using q by (simp add: slice_def)
  then show ?thesis using assms(1) by (metis within_def)
qed

lemma within_same_page:
  assumes "within m m' (page_ptr no') 4096" "no \<noteq> no'"
  shows "same_page m m' no"
proof -
  have "no + 1 \<le> no' \<or> no' + 1 \<le> no" using assms(2) by linarith
  then have "page_ptr no + 4096 \<le> page_ptr no' \<or> page_ptr no' + 4096 \<le> page_ptr no"
    by (auto simp: page_ptr_def BSON_BTREE_PAGE_SIZE_def)
  then show ?thesis using within_slice [OF assms(1)] unfolding same_page_def by blast
qed

lemma within_length: "within m m' p k \<Longrightarrow> length m' = length m"
  by (simp add: within_def)

lemmas ptr_defs = leaf_entry_ptr_def internal_entry_ptr_def btree_page_defs

lemma leaf_position_entries:
  assumes "page_holds m p (LeafPage link es)" "i \<le> length es"
  shows "leaf_position m p key i (length es) =
    Ok (i + length (takeWhile (\<lambda>e. bson_btree_key_cmp (fst e) key \<le> 0) (drop i es)))"
  using assms(2)
proof (induction "length es - i" arbitrary: i)
  case 0
  then show ?case by (simp add: leaf_position.simps)
next
  case (Suc n)
  then have i: "i < length es" and n: "n = length es - (i + 1)" by auto
  have d: "drop i es = es ! i # drop (i + 1) es" using i by (simp add: Cons_nth_drop_Suc)
  show ?case
    unfolding d leaf_position.simps [of m p key i]
    using i leaf_slot_reads(1) [OF assms(1) i] Suc.hyps(1) [OF n] by simp
qed

lemma leaf_store_page:
  assumes p: "page_holds m p (LeafPage link es)" and n: "length es < 180" and i: "i \<le> length es"
    and e: "length key = 13" "off < 2 ^ 64"
  obtains m' where "leaf_store p key off i (length es) m = Ok m'"
    "page_holds m' p (LeafPage link (take i es @ new_entry key off # drop i es))" "within m m' p 4096"
proof -
  define k where "k = length es - i"
  have k: "length es = i + k" using i by (simp add: k_def)
  define a where "a = p + 16 + 22 * i"
  have len: "p + 4096 \<le> length m" using p by simp
  have at: "leaf_entry_ptr p i = a" "leaf_entry_ptr p (i + 1) = a + 22" by (simp_all add: a_def ptr_defs)
  have room: "a + 22 + 22 * k \<le> p + 4096" "p + 16 \<le> a" using n k by (simp_all add: a_def)
  define moved where "moved = concat (map leaf_bytes (drop i es))"
  have moved: "slice m a (22 * k) = moved" "length moved = 22 * k"
    using leaf_run(1) [OF p, of i k] length_leaf_run [of "drop i es"] p k
    by (auto simp: moved_def at dest: in_set_dropD)
  have before: "slice m (p + 16) (22 * i) = concat (map leaf_bytes (take i es))"
    using leaf_run(1) [OF p, of 0 i] k by (simp add: ptr_defs)
  define new where "new = leaf_bytes (new_entry key off)"
  have wf: "leaf_wf (new_entry key off)" using e by (simp add: leaf_wf_def new_entry_def)
  then have new: "length new = 22" by (simp add: new_def length_leaf_bytes)
  define m1 where "m1 = put m (a + 22) moved"
  define m2 where "m2 = put m1 a new"
  define m3 where "m3 = put m2 (p + 2) (nat_le 2 (length es + 1))"
  have l: "length m1 = length m" "length m2 = length m" "length m3 = length m"
    using room len moved new by (simp_all add: m1_def m2_def m3_def)
  have "memmove m (leaf_entry_ptr p (i + 1)) (leaf_entry_ptr p i) ((length es - i) * LEAF_ENTRY_LEN) = Ok m1"
    unfolding at memmove_def using room len moved k
    by (simp add: peek_slice poke_put LEAF_ENTRY_LEN_def mult.commute m1_def del: peek_Ok)
  moreover have "write_leaf_entry m1 (leaf_entry_ptr p i) key off 0 = Ok m2"
    unfolding at using write_leaf_entry_put [of key a m1 off 0] e room len l
    by (simp add: m2_def new_def new_entry_def)
  moreover have "write_u16 m2 (p + PAGE_OFF_COUNT) (length es + 1) = Ok m3"
    using len l by (simp add: write_u16_def poke_put PAGE_OFF_COUNT_def m3_def)
  ultimately have "leaf_store p key off i (length es) m = Ok m3"
    by (simp only: leaf_store_def rbind.simps)
  moreover have "within m m3 p 4096"
    unfolding m3_def m2_def m1_def using room len moved new by (intro within_put within_refl) auto
  moreover have "page_holds m3 p (LeafPage link (take i es @ new_entry key off # drop i es))"
  proof -
    have "slice m3 (p + 16) (22 * i) = concat (map leaf_bytes (take i es))" "slice m3 a 22 = new" "slice m3 (a + 22) (22 * k) = moved"
      using room len moved new before l by (simp_all add: m3_def m2_def m1_def a_def)
    then have "slice m3 (p + 16) (22 * i + (22 + 22 * k)) = concat (map leaf_bytes (take i es @ new_entry key off # drop i es))"
      by (simp add: slice_split [of _ _ "22 * i"] slice_split [of _ _ 22] a_def [symmetric] moved_def new_def del: add_2_eq_Suc')
    moreover have "m3 ! p = m ! p" "field m3 (p + 8) 8 = field m (p + 8) 8" "field m3 (p + 2) 2 = length es + 1"
      using room len moved new l k n by (simp_all add: m3_def m2_def m1_def nth_put)
    moreover have "\<forall>x \<in> set (take i es @ new_entry key off # drop i es). leaf_wf x"
      using p wf by (auto dest: in_set_takeD in_set_dropD)
    ultimately show ?thesis
      using p l k n by (simp add: LEAF_MAX_ENTRIES_def add.assoc add.left_commute)
  qed
  ultimately show thesis using that by blast
qed

text \<open>A page written as a whole: its entries, its count and its link.\<close>

definition page_puts :: "nat \<Rightarrow> byte list \<Rightarrow> nat \<Rightarrow> nat \<Rightarrow> byte list \<Rightarrow> byte list" where
  "page_puts p bs n link m = put (put (put m (p + 16) bs) (p + 2) (nat_le 2 n)) (p + 8) (nat_le 8 link)"

lemma page_puts_within:
  "p + 4096 \<le> length m \<Longrightarrow> length bs \<le> 4080 \<Longrightarrow> within m (page_puts p bs n link m) p 4096"
  unfolding page_puts_def by (intro within_put within_refl) auto

lemma page_puts_reads:
  assumes "p + 4096 \<le> length m" "length bs \<le> 4080" "n < 2 ^ 16" "link < 2 ^ 64"
  shows "page_puts p bs n link m ! p = m ! p" "field (page_puts p bs n link m) (p + 2) 2 = n"
    "field (page_puts p bs n link m) (p + 8) 8 = link" "slice (page_puts p bs n link m) (p + 16) (length bs) = bs"
    "length (page_puts p bs n link m) = length m"
  using assms by (simp_all add: page_puts_def nth_put)

lemma page_puts_exec:
  assumes "p + 4096 \<le> length m" "length bs \<le> 4080" "leaf_entry_ptr p 0 = a \<or> internal_entry_ptr p 0 = a"
  shows "rbind (poke m a bs) (\<lambda>m. rbind (write_u16 m (p + PAGE_OFF_COUNT) n) (\<lambda>m.
      rbind (write_u64 m (p + PAGE_OFF_LINK) link) g)) = g (page_puts p bs n link m)"
    "rbind (poke m a bs) (\<lambda>m. rbind (write_u16 m (p + PAGE_OFF_COUNT) n) (\<lambda>m.
      write_u64 m (p + PAGE_OFF_LINK) link)) = Ok (page_puts p bs n link m)"
  using assms by (auto simp: ptr_defs poke_put write_u16_def write_u64_def page_puts_def)

lemma page_puts_leaf:
  assumes "p + 4096 \<le> length m" "m ! p = PAGE_TYPE_LEAF" "\<forall>e \<in> set es. leaf_wf e" "length es \<le> 180" "link < 2 ^ 64"
  shows "page_holds (page_puts p (concat (map leaf_bytes es)) (length es) link m) p (LeafPage link es)"
  using assms page_puts_reads [of p m "concat (map leaf_bytes es)" "length es" link] length_leaf_run [OF assms(3)]
  by (simp add: LEAF_MAX_ENTRIES_def)

lemma page_puts_internal:
  assumes "p + 4096 \<le> length m" "m ! p = PAGE_TYPE_INTERNAL" "\<forall>e \<in> set es. internal_wf e" "length es \<le> 190" "link < 2 ^ 64"
  shows "page_holds (page_puts p (concat (map internal_bytes es)) (length es) link m) p (InternalPage link es)"
  using assms page_puts_reads [of p m "concat (map internal_bytes es)" "length es" link] length_internal_run [OF assms(3)]
  by (simp add: INTERNAL_MAX_KEYS_def)

lemma put_type:
  assumes "p + 4096 \<le> length m"
  shows "put m p [b] ! p = b" "length (put m p [b]) = length m" "within m (put m p [b]) p 4096"
  using assms by (simp_all add: nth_put within_put)

lemma within_trans: "within m m1 p k \<Longrightarrow> within m1 m2 p k \<Longrightarrow> within m m2 p k"
  by (simp add: within_def)

lemma within_page:
  assumes "within m m' (page_ptr no') 4096" "page_holds m (page_ptr no) pg" "no \<noteq> no'"
  shows "page_holds m' (page_ptr no) pg"
  using assms(2) within_same_page [OF assms(1,3)] within_length [OF assms(1)] by (intro page_holds_same [of m no pg m']) simp_all

section \<open>Splitting a leaf\<close>

lemma leaf_split_buffer_entries:
  assumes p: "page_holds m p (LeafPage link es)" and n: "length es = 180" and i: "i \<le> length es"
    and e: "length key = 13" "off < 2 ^ 64"
  shows "leaf_split_buffer p key off i (length es) m =
    Ok (concat (map leaf_bytes (take i es @ new_entry key off # drop i es)))"
proof -
  define k where "k = 180 - i"
  have k: "180 = i + k" "length es = i + k" using i n by (simp_all add: k_def)
  define before where "before = concat (map leaf_bytes (take i es))"
  define behind where "behind = concat (map leaf_bytes (drop i es))"
  define new where "new = leaf_bytes (new_entry key off)"
  have wf: "\<forall>e \<in> set es. leaf_wf e" "leaf_wf (new_entry key off)" using p e by (simp_all add: leaf_wf_def new_entry_def)
  have len: "length before = 22 * i" "length behind = 22 * k" "length new = 22"
    using length_leaf_run [of "take i es"] length_leaf_run [of "drop i es"] wf k
    by (auto simp: before_def behind_def new_def length_leaf_bytes dest: in_set_takeD in_set_dropD)
  define tmp where "tmp = replicate ((LEAF_MAX_ENTRIES + 1) * LEAF_ENTRY_LEN) (0 :: byte)"
  have tmp: "length tmp = 22 * i + (22 + 22 * k)" using k by (simp add: tmp_def LEAF_MAX_ENTRIES_def LEAF_ENTRY_LEN_def)
  have ki: "length es - i = k" using k by simp
  have s: "slice m (leaf_entry_ptr p 0) (i * LEAF_ENTRY_LEN) = before" "leaf_entry_ptr p 0 + i * LEAF_ENTRY_LEN \<le> length m"
    "slice m (leaf_entry_ptr p i) ((length es - i) * LEAF_ENTRY_LEN) = behind"
    "leaf_entry_ptr p i + (length es - i) * LEAF_ENTRY_LEN \<le> length m"
    using leaf_run [OF p, of 0 i] leaf_run [OF p, of i k] ki p i
    by (simp_all add: LEAF_ENTRY_LEN_def before_def behind_def ki mult.commute [of _ 22] k)
  have pk: "peek m (leaf_entry_ptr p 0) (i * LEAF_ENTRY_LEN) = Ok before"
    "peek m (leaf_entry_ptr p i) ((length es - i) * LEAF_ENTRY_LEN) = Ok behind"
    using s by (simp_all only: peek_slice)
  have "poke tmp 0 before = Ok (put tmp 0 before)" using tmp len by (simp add: poke_put)
  moreover have "write_leaf_entry (put tmp 0 before) (i * LEAF_ENTRY_LEN) key off 0 = Ok (put (put tmp 0 before) (22 * i) new)"
    using write_leaf_entry_put [of key "i * LEAF_ENTRY_LEN" "put tmp 0 before" off 0] tmp len e
    by (simp add: LEAF_ENTRY_LEN_def new_def new_entry_def mult.commute)
  moreover have "poke (put (put tmp 0 before) (22 * i) new) ((i + 1) * LEAF_ENTRY_LEN) behind =
      Ok (put (put (put tmp 0 before) (22 * i) new) (22 * i + 22) behind)"
    using tmp len by (simp add: poke_put LEAF_ENTRY_LEN_def mult.commute [of _ 22] add.commute [of 22])
  moreover have "put (put (put tmp 0 before) (22 * i) new) (22 * i + 22) behind = before @ new @ behind"
    using put_append [of 0 before new tmp] put_append [of 0 "before @ new" behind tmp] tmp len
    by (simp add: put_def add.commute)
  ultimately have "leaf_split_buffer p key off i (length es) m = Ok (before @ new @ behind)"
    using pk unfolding leaf_split_buffer_def tmp_def [symmetric] Let_def by (simp only: rbind.simps)
  then show ?thesis by (simp add: before_def behind_def new_def)
qed

lemma leaf_split_pages:
  assumes p: "page_holds m (page_ptr no) (LeafPage link es0)" and r: "page_ptr new + 4096 \<le> length m"
    and no: "no \<noteq> new" "new < 2 ^ 64" and es: "\<forall>e \<in> set es. leaf_wf e" "length es = 181"
  obtains m1 m' where
    "leaf_split_store (page_ptr no) new (concat (map leaf_bytes es)) 91 90 m = Ok m'"
    "within m m1 (page_ptr no) 4096" "within m1 m' (page_ptr new) 4096"
    "page_holds m' (page_ptr no) (LeafPage new (take 91 es))" "page_holds m' (page_ptr new) (LeafPage link (drop 91 es))"
proof -
  let ?p = "page_ptr no" and ?r = "page_ptr new"
  define left where "left = concat (map leaf_bytes (take 91 es))"
  define right where "right = concat (map leaf_bytes (drop 91 es))"
  have wf: "\<forall>e \<in> set (take 91 es). leaf_wf e" "\<forall>e \<in> set (drop 91 es). leaf_wf e"
    using es(1) by (auto dest: in_set_takeD in_set_dropD)
  have len: "length left = 91 * 22" "length right = 90 * 22" "length (take 91 es) = 91" "length (drop 91 es) = 90"
    using length_leaf_run [OF wf(1)] length_leaf_run [OF wf(2)] es(2) by (simp_all add: left_def right_def)
  have tmp: "concat (map leaf_bytes es) = left @ right"
    unfolding left_def right_def by (simp flip: concat_append map_append)
  have link: "link < 2 ^ 64" "?p + 4096 \<le> length m" "m ! ?p = PAGE_TYPE_LEAF"
    using p field_bound [of "?p + 8" 8 m] by auto
  define m1 where "m1 = page_puts ?p left 91 new m"
  define m2 where "m2 = put m1 ?r [PAGE_TYPE_LEAF]"
  define m3 where "m3 = page_puts ?r right 90 link m2"
  have l: "length m1 = length m" "length m2 = length m" "length m3 = length m"
    using link r len no page_puts_reads(5) by (simp_all add: m1_def m2_def m3_def)
  have "page_link m ?p = Ok link" using page_holds_header(3) [OF p] by simp
  moreover have "peek (left @ right) 0 (91 * LEAF_ENTRY_LEN) = Ok left"
    "peek (left @ right) (91 * LEAF_ENTRY_LEN) (90 * LEAF_ENTRY_LEN) = Ok right"
    using len by (simp_all add: peek_slice slice_def LEAF_ENTRY_LEN_def del: peek_Ok)
  moreover have "poke m1 (?r + PAGE_OFF_TYPE) [PAGE_TYPE_LEAF] = Ok m2"
    using r l by (simp add: PAGE_OFF_TYPE_def poke_put m2_def)
  moreover have "rbind (poke m (leaf_entry_ptr ?p 0) left) (\<lambda>m. rbind (write_u16 m (?p + PAGE_OFF_COUNT) 91) (\<lambda>m.
      rbind (write_u64 m (?p + PAGE_OFF_LINK) new) g)) = g m1" for g :: "byte list \<Rightarrow> byte list result"
    unfolding m1_def using link(2) len by (intro page_puts_exec(1)) simp_all
  moreover have "rbind (poke m2 (leaf_entry_ptr ?r 0) right) (\<lambda>m. rbind (write_u16 m (?r + PAGE_OFF_COUNT) 90) (\<lambda>m.
      write_u64 m (?r + PAGE_OFF_LINK) link)) = Ok m3"
    unfolding m3_def using r l len by (intro page_puts_exec(2)) simp_all
  ultimately have "leaf_split_store ?p new (concat (map leaf_bytes es)) 91 90 m = Ok m3"
    unfolding tmp by (simp only: leaf_split_store_def Let_def rbind.simps)
  moreover have "within m m1 ?p 4096" unfolding m1_def using link len by (intro page_puts_within) simp_all
  moreover have "within m1 m2 ?r 4096" unfolding m2_def using r l by (intro put_type) simp
  moreover have "within m2 m3 ?r 4096" unfolding m3_def using r l len by (intro page_puts_within) simp_all
  moreover have "page_holds m1 ?p (LeafPage new (take 91 es))"
    using page_puts_leaf [OF link(2,3) wf(1) _ no(2)] len by (simp add: m1_def left_def)
  moreover have "page_holds m3 ?r (LeafPage link (drop 91 es))"
    using page_puts_leaf [OF _ _ wf(2) _ link(1), of ?r m2] put_type(1) [of ?r m1] r l len by (simp add: m3_def m2_def right_def)
  ultimately show thesis using that [of m3 m1] within_trans within_page no(1) by blast
qed

section \<open>Splitting an internal page\<close>

lemma internal_store_page:
  assumes p: "page_holds m p (InternalPage link es)" and n: "length es < 190" and i: "i \<le> length es"
    and e: "length key = 13" "child < 2 ^ 64"
  obtains m' where "internal_store p key child i (length es) m = Ok m'"
    "page_holds m' p (InternalPage link (take i es @ (key, child) # drop i es))" "within m m' p 4096"
proof -
  define k where "k = length es - i"
  have k: "length es = i + k" using i by (simp add: k_def)
  define a where "a = p + 16 + 21 * i"
  have len: "p + 4096 \<le> length m" using p by simp
  have at: "internal_entry_ptr p i = a" "internal_entry_ptr p (i + 1) = a + 21" by (simp_all add: a_def ptr_defs)
  have room: "a + 21 + 21 * k \<le> p + 4096" "p + 16 \<le> a" using n k by (simp_all add: a_def)
  define moved where "moved = concat (map internal_bytes (drop i es))"
  have moved: "slice m a (21 * k) = moved" "length moved = 21 * k"
    using internal_run(1) [OF p, of i k] length_internal_run [of "drop i es"] p k
    by (auto simp: moved_def at dest: in_set_dropD)
  have before: "slice m (p + 16) (21 * i) = concat (map internal_bytes (take i es))"
    using internal_run(1) [OF p, of 0 i] k by (simp add: ptr_defs)
  define new where "new = internal_bytes (key, child)"
  have wf: "internal_wf (key, child)" using e by (simp add: internal_wf_def)
  then have new: "length new = 21" by (simp add: new_def length_internal_bytes)
  define m1 where "m1 = put m (a + 21) moved"
  define m2 where "m2 = put m1 a new"
  define m3 where "m3 = put m2 (p + 2) (nat_le 2 (length es + 1))"
  have l: "length m1 = length m" "length m2 = length m" "length m3 = length m"
    using room len moved new by (simp_all add: m1_def m2_def m3_def)
  have "memmove m (internal_entry_ptr p (i + 1)) (internal_entry_ptr p i) (k * INTERNAL_ENTRY_LEN) = Ok m1"
    unfolding at memmove_def using room len moved k
    by (simp add: peek_slice poke_put INTERNAL_ENTRY_LEN_def mult.commute m1_def del: peek_Ok)
  moreover have "entries_behind (length es) i = Ok k" by (simp add: entries_behind_def k)
  moreover have "write_internal_entry m1 (internal_entry_ptr p i) key child = Ok m2"
    unfolding at using write_internal_entry_put [of key a m1 child] e room len l by (simp add: m2_def new_def)
  moreover have "write_u16 m2 (p + PAGE_OFF_COUNT) (length es + 1) = Ok m3"
    using len l by (simp add: write_u16_def poke_put PAGE_OFF_COUNT_def m3_def)
  ultimately have "internal_store p key child i (length es) m = Ok m3"
    by (simp only: internal_store_def rbind.simps)
  moreover have "within m m3 p 4096"
    unfolding m3_def m2_def m1_def using room len moved new by (intro within_put within_refl) auto
  moreover have "page_holds m3 p (InternalPage link (take i es @ (key, child) # drop i es))"
  proof -
    have "slice m3 (p + 16) (21 * i) = concat (map internal_bytes (take i es))" "slice m3 a 21 = new" "slice m3 (a + 21) (21 * k) = moved"
      using room len moved new before l by (simp_all add: m3_def m2_def m1_def a_def)
    then have "slice m3 (p + 16) (21 * i + (21 + 21 * k)) = concat (map internal_bytes (take i es @ (key, child) # drop i es))"
      by (simp add: slice_split [of _ _ "21 * i"] slice_split [of _ _ 21] a_def [symmetric] moved_def new_def del: add_2_eq_Suc')
    moreover have "m3 ! p = m ! p" "field m3 (p + 8) 8 = field m (p + 8) 8" "field m3 (p + 2) 2 = length es + 1"
      using room len moved new l k n by (simp_all add: m3_def m2_def m1_def nth_put)
    moreover have "\<forall>x \<in> set (take i es @ (key, child) # drop i es). internal_wf x"
      using p wf by (auto dest: in_set_takeD in_set_dropD)
    ultimately show ?thesis
      using p l k n by (simp add: INTERNAL_MAX_KEYS_def add.assoc add.left_commute)
  qed
  ultimately show thesis using that by blast
qed

lemma internal_split_buffer_entries:
  assumes p: "page_holds m p (InternalPage link es)" and n: "length es = 190" and i: "i \<le> length es"
    and e: "length key = 13" "child < 2 ^ 64"
  shows "internal_split_buffer p key child i (length es) m =
    Ok (concat (map internal_bytes (take i es @ (key, child) # drop i es)))"
proof -
  define k where "k = 190 - i"
  have k: "190 = i + k" "length es = i + k" using i n by (simp_all add: k_def)
  define before where "before = concat (map internal_bytes (take i es))"
  define behind where "behind = concat (map internal_bytes (drop i es))"
  define new where "new = internal_bytes (key, child)"
  have wf: "\<forall>e \<in> set es. internal_wf e" "internal_wf (key, child)" using p e by (simp_all add: internal_wf_def)
  have len: "length before = 21 * i" "length behind = 21 * k" "length new = 21"
    using length_internal_run [of "take i es"] length_internal_run [of "drop i es"] wf k
    by (auto simp: before_def behind_def new_def length_internal_bytes dest: in_set_takeD in_set_dropD)
  define tmp where "tmp = replicate ((INTERNAL_MAX_KEYS + 1) * INTERNAL_ENTRY_LEN) (0 :: byte)"
  have tmp: "length tmp = 21 * i + (21 + 21 * k)" using k by (simp add: tmp_def INTERNAL_MAX_KEYS_def INTERNAL_ENTRY_LEN_def)
  have s: "slice m (internal_entry_ptr p 0) (i * INTERNAL_ENTRY_LEN) = before" "internal_entry_ptr p 0 + i * INTERNAL_ENTRY_LEN \<le> length m"
    "slice m (internal_entry_ptr p i) (k * INTERNAL_ENTRY_LEN) = behind"
    "internal_entry_ptr p i + k * INTERNAL_ENTRY_LEN \<le> length m"
    using internal_run [OF p, of 0 i] internal_run [OF p, of i k] k p
    by (simp_all add: INTERNAL_ENTRY_LEN_def before_def behind_def mult.commute [of _ 21] k(1))
  have pk: "peek m (internal_entry_ptr p 0) (i * INTERNAL_ENTRY_LEN) = Ok before"
    "peek m (internal_entry_ptr p i) (k * INTERNAL_ENTRY_LEN) = Ok behind"
    using s by (simp_all only: peek_slice)
  have "poke tmp 0 before = Ok (put tmp 0 before)" using tmp len by (simp add: poke_put)
  moreover have "entries_behind (length es) i = Ok k" by (simp add: entries_behind_def k(2))
  moreover have "write_internal_entry (put tmp 0 before) (i * INTERNAL_ENTRY_LEN) key child = Ok (put (put tmp 0 before) (21 * i) new)"
    using write_internal_entry_put [of key "i * INTERNAL_ENTRY_LEN" "put tmp 0 before" child] tmp len e
    by (simp add: INTERNAL_ENTRY_LEN_def new_def mult.commute)
  moreover have "poke (put (put tmp 0 before) (21 * i) new) ((i + 1) * INTERNAL_ENTRY_LEN) behind =
      Ok (put (put (put tmp 0 before) (21 * i) new) (21 * i + 21) behind)"
    using tmp len by (simp add: poke_put INTERNAL_ENTRY_LEN_def mult.commute [of _ 21] add.commute [of 21])
  moreover have "put (put (put tmp 0 before) (21 * i) new) (21 * i + 21) behind = before @ new @ behind"
    using put_append [of 0 before new tmp] put_append [of 0 "before @ new" behind tmp] tmp len
    by (simp add: put_def add.commute)
  ultimately have "internal_split_buffer p key child i (length es) m = Ok (before @ new @ behind)"
    using pk unfolding internal_split_buffer_def tmp_def [symmetric] Let_def by (simp only: rbind.simps)
  then show ?thesis by (simp add: before_def behind_def new_def)
qed

lemma internal_split_pages:
  assumes p: "page_holds m (page_ptr no) (InternalPage link es0)" and r: "page_ptr new + 4096 \<le> length m"
    and no: "no \<noteq> new" and es: "\<forall>e \<in> set es. internal_wf e" "length es = 191"
  obtains m1 m' where
    "internal_split_store (page_ptr no) new link (concat (map internal_bytes es)) 95 95 m = Ok m'"
    "within m m1 (page_ptr no) 4096" "within m1 m' (page_ptr new) 4096"
    "page_holds m' (page_ptr no) (InternalPage link (take 95 es))"
    "page_holds m' (page_ptr new) (InternalPage (snd (es ! 95)) (drop 96 es))"
proof -
  let ?p = "page_ptr no" and ?r = "page_ptr new"
  define left where "left = concat (map internal_bytes (take 95 es))"
  define mid where "mid = internal_bytes (es ! 95)"
  define right where "right = concat (map internal_bytes (drop 96 es))"
  have wf: "\<forall>e \<in> set (take 95 es). internal_wf e" "\<forall>e \<in> set (drop 96 es). internal_wf e" "internal_wf (es ! 95)"
    using es by (auto dest: in_set_takeD in_set_dropD)
  have len: "length left = 95 * 21" "length mid = 21" "length right = 95 * 21" "length (take 95 es) = 95" "length (drop 96 es) = 95"
    using length_internal_run [OF wf(1)] length_internal_run [OF wf(2)] length_internal_bytes [OF wf(3)] es(2)
    by (simp_all add: left_def right_def mid_def)
  have tmp: "concat (map internal_bytes es) = left @ mid @ right"
    using arg_cong [OF id_take_nth_drop [of 95 es], of "\<lambda>xs. concat (map internal_bytes xs)"] es(2)
    by (simp add: left_def mid_def right_def)
  obtain k c where e: "es ! 95 = (k, c)" by fastforce
  have c: "length k = 13" "c < 2 ^ 64" using wf(3) by (simp_all add: e internal_wf_def)
  have link: "link < 2 ^ 64" "?p + 4096 \<le> length m" "m ! ?p = PAGE_TYPE_INTERNAL"
    using p field_bound [of "?p + 8" 8 m] by auto
  define m1 where "m1 = page_puts ?p left 95 link m"
  define m2 where "m2 = put m1 ?r [PAGE_TYPE_INTERNAL]"
  define m3 where "m3 = page_puts ?r right 95 c m2"
  have l: "length m1 = length m" "length m2 = length m" "length m3 = length m"
    using link r len no page_puts_reads(5) c by (simp_all add: m1_def m2_def m3_def)
  have "peek (left @ mid @ right) 0 (95 * INTERNAL_ENTRY_LEN) = Ok left"
    "peek (left @ mid @ right) ((95 + 1) * INTERNAL_ENTRY_LEN) (95 * INTERNAL_ENTRY_LEN) = Ok right"
    using len by (simp_all add: peek_slice slice_def INTERNAL_ENTRY_LEN_def del: peek_Ok)
  moreover have "read_u64 (left @ mid @ right) (95 * INTERNAL_ENTRY_LEN + BSON_BTREE_KEY_SIZE) = Ok c"
  proof -
    have "slice (left @ mid @ right) 2008 8 = nat_le 8 c"
      using len c by (simp add: slice_def mid_def internal_bytes_def e)
    then show ?thesis
      using len c by (simp add: read_u64_field field_def INTERNAL_ENTRY_LEN_def BSON_BTREE_KEY_SIZE_def)
  qed
  moreover have "poke m1 (?r + PAGE_OFF_TYPE) [PAGE_TYPE_INTERNAL] = Ok m2"
    using r l by (simp add: PAGE_OFF_TYPE_def poke_put m2_def)
  moreover have "rbind (poke m (internal_entry_ptr ?p 0) left) (\<lambda>m. rbind (write_u16 m (?p + PAGE_OFF_COUNT) 95) (\<lambda>m.
      rbind (write_u64 m (?p + PAGE_OFF_LINK) link) g)) = g m1" for g :: "byte list \<Rightarrow> byte list result"
    unfolding m1_def using link(2) len by (intro page_puts_exec(1)) simp_all
  moreover have "rbind (write_u64 m2 (?r + PAGE_OFF_LINK) c) (\<lambda>m. rbind (poke m (internal_entry_ptr ?r 0) right) (\<lambda>m.
      write_u16 m (?r + PAGE_OFF_COUNT) 95)) = Ok m3"
  proof -
    have "put (put (put m2 (?r + 8) (nat_le 8 c)) (?r + 16) right) (?r + 2) (nat_le 2 95) = m3"
      unfolding m3_def page_puts_def using r l len by (intro nth_equalityI) (simp_all add: nth_put)
    then show ?thesis using r l len by (simp add: ptr_defs write_u16_def write_u64_def poke_put)
  qed
  ultimately have "internal_split_store ?p new link (concat (map internal_bytes es)) 95 95 m = Ok m3"
    unfolding tmp by (simp only: internal_split_store_def Let_def rbind.simps)
  moreover have "within m m1 ?p 4096" unfolding m1_def using link len by (intro page_puts_within) simp_all
  moreover have "within m1 m2 ?r 4096" unfolding m2_def using r l by (intro put_type) simp
  moreover have "within m2 m3 ?r 4096" unfolding m3_def using r l len by (intro page_puts_within) simp_all
  moreover have "page_holds m1 ?p (InternalPage link (take 95 es))"
    using page_puts_internal [OF link(2,3) wf(1) _ link(1)] len by (simp add: m1_def left_def)
  moreover have "page_holds m3 ?r (InternalPage (snd (es ! 95)) (drop 96 es))"
    using page_puts_internal [OF _ _ wf(2) _ c(2), of ?r m2] put_type(1) [of ?r m1] r l len
    by (simp add: m3_def m2_def right_def e)
  ultimately show thesis using that [of m3 m1] within_trans within_page no by blast
qed

section \<open>The file\<close>

definition index_file :: "bson_mmap_file \<Rightarrow> byte list \<Rightarrow> nat \<Rightarrow> bool" where
  "index_file f m n \<longleftrightarrow> mmap_inv f \<and> mm_base f \<and> mm_mode f = BSON_MMAP_READ_WRITE \<and> mm_bytes f = m \<and>
     field m OFF_PAGE_COUNT 8 = n \<and> (n + 1) * 4096 \<le> length m \<and> length m < 2 ^ 61"

text \<open>What a step of an insertion leaves alone: the header and the pages outside of \<open>P\<close>.\<close>

definition grown :: "byte list \<Rightarrow> nat \<Rightarrow> byte list \<Rightarrow> nat set \<Rightarrow> bool" where
  "grown m n m' P \<longleftrightarrow> length m \<le> length m' \<and> same_header m m' \<and> (\<forall>no \<in> {1..n} - P. same_page m m' no)"

lemma grown_refl [simp]: "grown m n m P"
  by (simp add: grown_def same_header_def)

lemma grown_trans:
  assumes "grown m n m1 P" "grown m1 n1 m2 Q" "n \<le> n1" "Q \<inter> {1..n} \<subseteq> P'" "P \<subseteq> P'"
  shows "grown m n m2 P'"
proof -
  have "same_page m m2 no" if no: "no \<in> {1..n} - P'" for no
  proof (rule same_page_trans)
    show "same_page m m1 no" using assms(1,5) no by (auto simp: grown_def)
    have "no \<notin> Q" using assms(4) no by blast
    then show "same_page m1 m2 no" using assms(2,3) no by (simp add: grown_def)
  qed
  then show ?thesis using assms(1,2) by (simp add: grown_def same_header_def)
qed

lemma grown_pages: "grown m n m' P \<Longrightarrow> no \<in> {1..n} \<Longrightarrow> no \<notin> P \<Longrightarrow> same_page m m' no"
  by (simp add: grown_def)

lemma index_file_load: "index_file f m n \<Longrightarrow> io_load g f = (g m, f)"
  by (simp add: index_file_def io_load_mapped)

lemma index_file_store:
  assumes "index_file f m n" "g m = Ok m'" "length m' = length m" "field m' OFF_PAGE_COUNT 8 = n'" "(n' + 1) * 4096 \<le> length m"
  shows "io_store g f = (Ok (), f\<lparr>mm_bytes := m'\<rparr>)" "index_file (f\<lparr>mm_bytes := m'\<rparr>) m' n'"
proof -
  have f: "mmap_inv f" "mm_base f" "mm_mode f = BSON_MMAP_READ_WRITE" "mm_bytes f = m"
    using assms(1) by (simp_all add: index_file_def)
  then show "io_store g f = (Ok (), f\<lparr>mm_bytes := m'\<rparr>)" using assms(2) by (simp add: io_store_mapped)
  show "index_file (f\<lparr>mm_bytes := m'\<rparr>) m' n'"
    using assms f by (simp add: index_file_def mmap_inv_def)
qed

lemma ensure_capacity:
  assumes f: "index_file f m n" and n: "n < 2 ^ 40"
  obtains (grow) f' k where "ensure_capacity_for_page os (n + 1) f = (Ok (), f')" "index_file f' (m @ replicate k 0) n"
      "(n + 2) * 4096 \<le> length m + k"
  | (fail) f' where "ensure_capacity_for_page os (n + 1) f = (Err BSON_ERR_IO, f')" "\<not> os_all_succeed os"
proof -
  define needed where "needed = (n + 2) * 4096"
  have cap: "mm_size f = length m" "mm_base f" "mm_mode f = BSON_MMAP_READ_WRITE" "mm_bytes f = m" "mmap_inv f" "4096 \<le> length m"
    "length m < 2 ^ 61"
    using f by (auto simp: index_file_def mmap_inv_def split: if_splits)
  have need: "size_mul (size_add (n + 1) 1) BSON_BTREE_PAGE_SIZE = needed" "needed < 2 ^ 60"
    using n by (simp_all add: needed_def BSON_BTREE_PAGE_SIZE_def)
  show thesis
  proof (cases "needed \<le> length m")
    case True
    then show thesis
      using need cap f by (intro grow [of f 0]) (simp_all add: ensure_capacity_for_page_def bson_mmap_size_def needed_def)
  next
    case False
    have "0 < length m" "needed \<le> length m * 2 ^ 64" using cap(6) need(2) by (linarith, simp)
    then obtain c where c: "double_until 64 (length m) needed = Ok c" "needed \<le> c" "c < 2 * needed"
      using False double_until_Ok [of "length m" needed 64] need(2) by auto
    have cap0: "mm_size f \<noteq> 0" using cap(1,6) by linarith
    have eq: "ensure_capacity_for_page os (n + 1) f = bson_mmap_resize os c f"
      using False need cap0 c(1) unfolding ensure_capacity_for_page_def bson_mmap_size_def cap(1) by (simp add: not_le)
    have small: "c < 2 ^ 63" "c \<noteq> length m" "c < 2 ^ 61" using c need False by simp_all
    show thesis
    proof (cases "os_ftruncate os c \<and> os_mmap os c")
      case True
      then have ok: "bson_mmap_resize os c f = (Ok (), snd (bson_mmap_resize os c f))"
        using cap small c by (simp add: bson_mmap_resize_def map_current_fd_def Let_def ftruncate_ok_def)
      have le: "length m \<le> c" using c False by simp
      have f': "snd (bson_mmap_resize os c f) = f\<lparr>mm_base := True, mm_size := c, mm_bytes := m @ replicate (c - length m) 0\<rparr>"
        using mmap_resize_grow [OF cap(5) ok _ _ cap(2)] le cap by simp
      show thesis
      proof (rule grow [of "snd (bson_mmap_resize os c f)" "c - length m"])
        show "index_file (snd (bson_mmap_resize os c f)) (m @ replicate (c - length m) 0) n"
          using f le small cap unfolding f'
          by (auto simp: index_file_def mmap_inv_def field_def slice_append1 OFF_PAGE_COUNT_def)
      qed (use eq ok c needed_def le in simp_all)
    next
      case bad: False
      then have "\<not> os_all_succeed os" using small by (auto simp: os_all_succeed_def)
      moreover have "fst (bson_mmap_resize os c f) = Err BSON_ERR_IO"
        using bad cap small c by (auto simp: bson_mmap_resize_def map_current_fd_def Let_def ftruncate_ok_def)
      ultimately show thesis
        using eq by (intro fail [of "snd (bson_mmap_resize os c f)"]) (simp_all add: prod_eq_iff)
    qed
  qed
qed

lemma allocate_page_cases:
  assumes f: "index_file f m n" and n: "n < 2 ^ 40"
  obtains (ok) f' m' where "allocate_page os f = (Ok (n + 1), f')" "index_file f' m' (n + 1)" "grown m n m' {}"
  | (fail) f' where "allocate_page os f = (Err BSON_ERR_IO, f')" "\<not> os_all_succeed os"
proof -
  have cnt: "read_u64 m OFF_PAGE_COUNT = Ok n" "size_add n 1 = n + 1" "(n + 1) * 4096 \<le> length m"
    using f n by (auto simp: index_file_def read_u64_field OFF_PAGE_COUNT_def)
  show thesis
  proof (rule ensure_capacity [OF f n, of os])
    fix f' assume "ensure_capacity_for_page os (n + 1) f = (Err BSON_ERR_IO, f')" "\<not> os_all_succeed os"
    then show thesis
      using cnt by (intro fail [of f']) (simp_all add: allocate_page_def Let_def io_bind_def index_file_load [OF f])
  next
    fix f' k assume e: "ensure_capacity_for_page os (n + 1) f = (Ok (), f')" "index_file f' (m @ replicate k 0) n"
      "(n + 2) * 4096 \<le> length m + k"
    define m0 where "m0 = m @ replicate k 0"
    define m1 where "m1 = put m0 (page_ptr (n + 1)) (replicate 4096 0)"
    define m2 where "m2 = put m1 24 (nat_le 8 (n + 1))"
    have len: "page_ptr (n + 1) = (n + 1) * 4096" "page_ptr (n + 1) + 4096 \<le> length m0" "length m0 = length m + k"
      using e(3) by (simp_all add: m0_def page_ptr_def BSON_BTREE_PAGE_SIZE_def)
    have l: "length m1 = length m0" "length m2 = length m0" using len by (simp_all add: m1_def m2_def)
    let ?g = "\<lambda>m. rbind (poke m (page_ptr (n + 1)) (replicate BSON_BTREE_PAGE_SIZE 0)) (\<lambda>m. write_u64 m OFF_PAGE_COUNT (n + 1))"
    have g: "?g m0 = Ok m2"
      using len l by (simp add: poke_put write_u64_def BSON_BTREE_PAGE_SIZE_def OFF_PAGE_COUNT_def m2_def m1_def)
    have cnt2: "field m2 OFF_PAGE_COUNT 8 = n + 1"
      using len l n by (simp add: m2_def OFF_PAGE_COUNT_def)
    have f': "index_file f' m0 n" using e(2) by (simp add: m0_def)
    have st: "io_store ?g f' = (Ok (), f'\<lparr>mm_bytes := m2\<rparr>)" "index_file (f'\<lparr>mm_bytes := m2\<rparr>) m2 (n + 1)"
      using index_file_store [of f' m0 n ?g m2 "n + 1", OF f' g _ cnt2] l len by simp_all
    have "same_header m m2"
      using len l cnt(3) by (simp add: same_header_def m2_def m1_def m0_def slice_append1)
    moreover have "same_page m m2 no" if "no \<in> {1..n}" for no
    proof -
      have no: "4096 \<le> page_ptr no" "page_ptr no + 4096 \<le> (n + 1) * 4096"
        using that by (simp_all add: page_ptr_def BSON_BTREE_PAGE_SIZE_def)
      then have "slice m2 (page_ptr no) 4096 = slice m1 (page_ptr no) 4096"
        using len l unfolding m2_def by (intro slice_put_other) simp_all
      also have "\<dots> = slice m0 (page_ptr no) 4096"
        using len no unfolding m1_def by (intro slice_put_other) simp_all
      also have "\<dots> = slice m (page_ptr no) 4096"
        using no cnt(3) by (simp add: m0_def slice_append1)
      finally show ?thesis by (simp add: same_page_def)
    qed
    ultimately have "grown m n m2 {}" using l len by (simp add: grown_def)
    then show thesis
      using cnt e(1) st
      by (intro ok [of "f'\<lparr>mm_bytes := m2\<rparr>" m2])
        (simp_all add: allocate_page_def Let_def io_bind_def index_file_load [OF f])
  qed
qed

section \<open>One level of an insertion\<close>

text \<open>
  A step ends with a result that satisfies \<open>P\<close>, or with an I/O error, and then the operating
  system has refused a request.
\<close>

definition io_ok :: "os_calls \<Rightarrow> 'a result \<times> bson_mmap_file \<Rightarrow> ('a \<Rightarrow> bson_mmap_file \<Rightarrow> bool) \<Rightarrow> bool" where
  "io_ok os r P \<longleftrightarrow> (\<exists>f'. r = (Err BSON_ERR_IO, f') \<and> \<not> os_all_succeed os) \<or> (\<exists>x f'. r = (Ok x, f') \<and> P x f')"

lemma io_ok_return: "P x f \<Longrightarrow> io_ok os (Ok x, f) P"
  by (simp add: io_ok_def)

lemma io_ok_bind:
  assumes "io_ok os (m f) P" "\<And>x f'. P x f' \<Longrightarrow> io_ok os (g x f') Q"
  shows "io_ok os (io_bind m g f) Q"
proof -
  from assms(1) consider f' where "m f = (Err BSON_ERR_IO, f')" "\<not> os_all_succeed os" | x f' where "m f = (Ok x, f')" "P x f'"
    unfolding io_ok_def by blast
  then show ?thesis
  proof cases
    case 1
    then show ?thesis by (simp add: io_ok_def io_bind_def)
  next
    case 2
    then show ?thesis using assms(2) by (simp add: io_bind_def)
  qed
qed

lemma io_load_bind:
  "index_file f m n \<Longrightarrow> io_bind (io_load h) g f = (case h m of Ok x \<Rightarrow> g x f | Err e \<Rightarrow> (Err e, f) | Fault \<Rightarrow> (Fault, f) | Diverge \<Rightarrow> (Diverge, f))"
  by (simp add: io_bind_def index_file_load split: result.split)

lemma io_ok_store:
  assumes "index_file f m n" "h m = Ok m'" "length m' = length m" "field m' OFF_PAGE_COUNT 8 = n"
    "\<And>f'. index_file f' m' n \<Longrightarrow> io_ok os (g () f') Q"
  shows "io_ok os (io_bind (io_store h) g f) Q"
proof -
  have "(n + 1) * 4096 \<le> length m" using assms(1) by (simp add: index_file_def)
  note s = index_file_store [of f m n h m' n, OF assms(1-4) this]
  show ?thesis using s(1) assms(5) [OF s(2)] by (simp add: io_bind_def)
qed

lemma io_ok_allocate:
  assumes "index_file f m n" "n < 2 ^ 40"
  shows "io_ok os (allocate_page os f) (\<lambda>x f'. x = n + 1 \<and> (\<exists>m'. index_file f' m' (n + 1) \<and> grown m n m' {}))"
  by (rule allocate_page_cases [OF assms, of os]) (auto simp: io_ok_def)

text \<open>What a subtree's insertion hands to its parent.\<close>

definition split_of :: "(key \<times> btree) list \<Rightarrow> (key \<times> nat) option" where
  "split_of us = (case us of [] \<Rightarrow> None | (k, r) # _ \<Rightarrow> Some (k, root_no r))"

definition inserted :: "byte list \<Rightarrow> nat \<Rightarrow> nat \<Rightarrow> nat set \<Rightarrow> btree \<times> (key \<times> btree) list \<times> nat \<Rightarrow>
    (key \<times> nat) option \<Rightarrow> bson_mmap_file \<Rightarrow> bool" where
  "inserted m n link P r x f' \<longleftrightarrow> (case r of (t', us, n') \<Rightarrow> x = split_of us \<and>
     (\<forall>s. x = Some s \<longrightarrow> internal_wf s) \<and> (\<exists>m'. index_file f' m' n' \<and> grown m n m' P \<and>
       tree_holds m' (next_link (kid_leaves us) link) t' \<and> kids_hold m' link us))"

lemma within_header:
  assumes "within m m' (page_ptr no) 4096" "1 \<le> no"
  shows "same_header m m'" "field m' OFF_PAGE_COUNT 8 = field m OFF_PAGE_COUNT 8" "grown m n m' {no}"
proof -
  have q: "slice m' q k = slice m q k" if "q + k \<le> 4096" for q k
    using that assms(2) by (intro within_slice [OF assms(1)]) (simp add: page_ptr_def BSON_BTREE_PAGE_SIZE_def)
  then show "same_header m m'" "field m' OFF_PAGE_COUNT 8 = field m OFF_PAGE_COUNT 8"
    by (simp_all add: same_header_def field_def OFF_PAGE_COUNT_def)
  then show "grown m n m' {no}"
    using within_length [OF assms(1)] within_same_page [OF assms(1)] by (simp add: grown_def)
qed

lemma grown_page:
  "grown m n m' P \<Longrightarrow> page_holds m (page_ptr no) pg \<Longrightarrow> no \<in> {1..n} \<Longrightarrow> no \<notin> P \<Longrightarrow> page_holds m' (page_ptr no) pg"
  using page_holds_same [of m no pg m'] by (simp add: grown_def)

lemma slice_concat_key:
  assumes "\<forall>x \<in> set xs. length x = k" "13 \<le> k" "i < length xs" "p = k * i"
  shows "slice (concat xs) p 13 = take 13 (xs ! i)"
proof -
  have "take 13 (slice (concat xs) (k * i) k) = slice (concat xs) (k * i) 13"
    using assms(2) by (simp add: slice_def min_def)
  then show ?thesis using concat_nth [OF assms(1,3)] assms(4) by simp
qed

lemma leaf_insert_ok:
  assumes f: "index_file f m n" and n: "n < 2 ^ 40" and no: "no \<in> {1..n}"
    and p: "page_holds m (page_ptr no) (LeafPage link es)"
    and e: "length key = 13" "off < 2 ^ 64" and dup: "unique \<Longrightarrow> key_has_live_entry m no key = Ok False"
  shows "io_ok os (leaf_insert os no key off unique f) (inserted m n link {no} (tree_insert key off n (Lf no es)))"
proof -
  let ?p = "page_ptr no"
  define i where "i = entry_position key es"
  have i: "i \<le> length es" by (simp add: i_def entry_position_def length_takeWhile_le)
  define es' where "es' = take i es @ new_entry key off # drop i es"
  have es': "insert_entry key off es = es'" by (simp add: es'_def insert_entry_def i_def)
  have count: "page_entries m ?p = Ok (length es)" using page_holds_header(2) [OF p] by simp
  have pos: "leaf_position m ?p key 0 (length es) = Ok i"
    using leaf_position_entries [OF p, of 0 key] by (simp add: i_def entry_position_def)
  have cnt: "field m OFF_PAGE_COUNT 8 = n" "length m < 2 ^ 61" using f by (simp_all add: index_file_def)
  have no1: "1 \<le> no" "no \<noteq> n + 1" using no by auto
  define rest where "rest = (\<lambda>dup. if dup then io_fail BSON_ERR_DUPLICATE_KEY
      else
        io_bind (io_load (\<lambda>m. page_entries m ?p)) (\<lambda>count.
        io_bind (io_load (\<lambda>m. leaf_position m ?p key 0 count)) (\<lambda>insert_at.
        if count < LEAF_MAX_ENTRIES then
          io_bind (io_store (leaf_store ?p key off insert_at count)) (\<lambda>_. io_return None)
        else
          io_bind (io_load (leaf_split_buffer ?p key off insert_at count)) (\<lambda>tmp.
          let total_n = (count + 1) mod 2 ^ 16; left_n = (total_n + 1) div 2; right_n = total_n - left_n in
          io_bind (allocate_page os) (\<lambda>new_page_no.
          io_bind (io_store (leaf_split_store ?p new_page_no tmp left_n right_n)) (\<lambda>_.
          io_return (Some (slice tmp (left_n * LEAF_ENTRY_LEN) BSON_BTREE_KEY_SIZE, new_page_no))))))))"
  have main: "io_ok os (rest False f) (inserted m n link {no} (tree_insert key off n (Lf no es)))"
  proof (cases "length es < 180")
    case True
    obtain m' where s: "leaf_store ?p key off i (length es) m = Ok m'" "page_holds m' ?p (LeafPage link es')"
      "within m m' ?p 4096"
      unfolding es'_def by (rule leaf_store_page [OF p True i e])
    note h = within_header [OF s(3) no1(1)]
    have ins: "tree_insert key off n (Lf no es) = (Lf no es', [], n)" using True es' by simp
    have post: "inserted m n link {no} (Lf no es', [], n) None f'" if "index_file f' m' n" for f'
      using that s(2) h(3) by (auto simp: inserted_def split_of_def next_link_def simp del: page_holds.simps)
    show ?thesis
      unfolding ins rest_def using True
      by (simp add: io_load_bind [OF f] count pos LEAF_MAX_ENTRIES_def)
        (intro io_ok_store [of _ _ _ "leaf_store ?p key off i (length es)", OF f s(1)];
          simp add: h cnt within_length [OF s(3)] io_ok_return post)
  next
    case False
    then have full: "length es = 180" using p by (simp add: LEAF_MAX_ENTRIES_def)
    define tmp where "tmp = concat (map leaf_bytes es')"
    have buf: "leaf_split_buffer ?p key off i (length es) m = Ok tmp"
      unfolding tmp_def es'_def by (rule leaf_split_buffer_entries [OF p full i e])
    have wf: "\<forall>e \<in> set es'. leaf_wf e" "length es' = 181"
      using p e i full by (auto simp: es'_def new_entry_def leaf_wf_def dest: in_set_takeD in_set_dropD)
    have ins: "tree_insert key off n (Lf no es) =
        (Lf no (take 91 es'), [(fst (es' ! 91), Lf (n + 1) (drop 91 es'))], n + 1)"
      using False es' by (simp add: Let_def)
    have wf91: "leaf_wf (es' ! 91)" using wf by simp
    then have kwf: "internal_wf (fst (es' ! 91), n + 1)" using n by (simp add: leaf_wf_def internal_wf_def)
    from wf91 have "take 13 (leaf_bytes (es' ! 91)) = fst (es' ! 91)"
      by (auto simp: leaf_bytes_def leaf_wf_def split: prod.split)
    then have key: "slice tmp (91 * LEAF_ENTRY_LEN) BSON_BTREE_KEY_SIZE = fst (es' ! 91)"
      using slice_concat_key [of "map leaf_bytes es'" 22 91] wf
      by (simp add: tmp_def LEAF_ENTRY_LEN_def BSON_BTREE_KEY_SIZE_def length_leaf_bytes)
    have split: "io_ok os (io_bind (io_store (leaf_split_store ?p (n + 1) tmp 91 90)) (\<lambda>_.
          io_return (Some (fst (es' ! 91), n + 1))) f1)
        (inserted m n link {no} (tree_insert key off n (Lf no es)))"
      if f1: "index_file f1 m1 (n + 1)" and g: "grown m n m1 {}" for f1 m1
    proof -
      have p1: "page_holds m1 ?p (LeafPage link es)" using g p no by (rule grown_page) simp
      have room: "page_ptr (n + 1) + 4096 \<le> length m1" "n + 1 < 2 ^ 64"
        using f1 n by (simp_all add: index_file_def page_ptr_def BSON_BTREE_PAGE_SIZE_def)
      obtain m2 m3 where s: "leaf_split_store ?p (n + 1) tmp 91 90 m1 = Ok m3" "within m1 m2 ?p 4096"
        "within m2 m3 (page_ptr (n + 1)) 4096" "page_holds m3 ?p (LeafPage (n + 1) (take 91 es'))"
        "page_holds m3 (page_ptr (n + 1)) (LeafPage link (drop 91 es'))"
        unfolding tmp_def by (rule leaf_split_pages [OF p1 room(1) no1(2) room(2) wf])
      note h = within_header [OF s(2) no1(1)] within_header [OF s(3), simplified]
      have cnt1: "field m1 OFF_PAGE_COUNT 8 = n + 1" using f1 by (simp add: index_file_def)
      have g3: "grown m n m3 {no}"
        using grown_trans [of m n m1 "{}" "n + 1" m2 "{no}" "{no}"]
          grown_trans [of m n m2 "{no}" "n + 1" m3 "{n + 1}" "{no}"] g h by simp
      show ?thesis
        unfolding ins
        using s g3 h cnt1 within_length [OF s(2)] within_length [OF s(3)]
        by (intro io_ok_store [of _ _ _ "leaf_split_store ?p (n + 1) tmp 91 90", OF f1 s(1)]) (auto simp: inserted_def split_of_def next_link_def kwf [simplified]
            intro!: io_ok_return simp del: page_holds.simps)
    qed
    have "io_ok os (io_bind (allocate_page os) (\<lambda>new_page_no.
          io_bind (io_store (leaf_split_store ?p new_page_no tmp 91 90)) (\<lambda>_.
          io_return (Some (fst (es' ! 91), new_page_no)))) f)
        (inserted m n link {no} (tree_insert key off n (Lf no es)))"
      by (rule io_ok_bind [of os "allocate_page os" f, OF io_ok_allocate [OF f n]]) (use split in auto)
    then show ?thesis
      unfolding rest_def using buf [unfolded full] pos [unfolded full]
      by (simp add: io_load_bind [OF f] count LEAF_MAX_ENTRIES_def full key)
  qed
  have "leaf_insert os no key off unique = io_bind (if unique then io_load (\<lambda>m. key_has_live_entry m no key) else io_return False) rest"
    by (simp add: leaf_insert_def rest_def Let_def)
  then show ?thesis using dup main by (cases unique) (simp_all add: io_bind_def index_file_load [OF f])
qed

definition internal_post ::
    "byte list \<Rightarrow> nat \<Rightarrow> nat \<Rightarrow> nat \<Rightarrow> (key \<times> nat) list \<Rightarrow> (key \<times> nat) option \<Rightarrow> bson_mmap_file \<Rightarrow> bool" where
  "internal_post m n no link ks x f' \<longleftrightarrow>
     (\<forall>s. x = Some s \<longrightarrow> internal_wf s) \<and> (if length ks \<le> 190
      then x = None \<and> (\<exists>m'. index_file f' m' n \<and> grown m n m' {no} \<and> page_holds m' (page_ptr no) (InternalPage link ks))
      else x = Some (fst (ks ! 95), n + 1) \<and> (\<exists>m'. index_file f' m' (n + 1) \<and> grown m n m' {no} \<and>
        page_holds m' (page_ptr no) (InternalPage link (take 95 ks)) \<and>
        page_holds m' (page_ptr (n + 1)) (InternalPage (snd (ks ! 95)) (drop 96 ks))))"

lemma internal_insert_ok:
  assumes f: "index_file f m n" and n: "n < 2 ^ 40" and no: "no \<in> {1..n}"
    and p: "page_holds m (page_ptr no) (InternalPage link ks)" and i: "i \<le> length ks"
    and e: "length key = 13" "child < 2 ^ 64"
  shows "io_ok os (internal_insert os no i (key, child) f) (internal_post m n no link (take i ks @ (key, child) # drop i ks))"
proof -
  let ?p = "page_ptr no"
  define ks' where "ks' = take i ks @ (key, child) # drop i ks"
  have len: "length ks' = length ks + 1" using i by (simp add: ks'_def)
  have count: "page_entries m ?p = Ok (length ks)" "page_link m ?p = Ok link"
    using page_holds_header(2,3) [OF p] by simp_all
  have cnt: "field m OFF_PAGE_COUNT 8 = n" using f by (simp add: index_file_def)
  have no1: "1 \<le> no" "no \<noteq> n + 1" using no by auto
  show ?thesis
  proof (cases "length ks < 190")
    case True
    obtain m' where s: "internal_store ?p key child i (length ks) m = Ok m'" "page_holds m' ?p (InternalPage link ks')"
      "within m m' ?p 4096"
      unfolding ks'_def by (rule internal_store_page [OF p True i e])
    note h = within_header [OF s(3) no1(1)]
    have post: "internal_post m n no link ks' None f'" if "index_file f' m' n" for f'
      using that s(2) h(3) True len by (auto simp: internal_post_def simp del: page_holds.simps)
    show ?thesis
      unfolding internal_insert_def Let_def ks'_def [symmetric] using True
      by (simp add: io_load_bind [OF f] count INTERNAL_MAX_KEYS_def)
        (intro io_ok_store [of _ _ _ "internal_store ?p key child i (length ks)", OF f s(1)];
          simp add: h cnt within_length [OF s(3)] io_ok_return post)
  next
    case False
    then have full: "length ks = 190" using p by (simp add: INTERNAL_MAX_KEYS_def)
    define tmp where "tmp = concat (map internal_bytes ks')"
    have buf: "internal_split_buffer ?p key child i (length ks) m = Ok tmp"
      unfolding tmp_def ks'_def by (rule internal_split_buffer_entries [OF p full i e])
    have wf: "\<forall>e \<in> set ks'. internal_wf e" "length ks' = 191"
      using p e i full by (auto simp: ks'_def internal_wf_def dest: in_set_takeD in_set_dropD)
    have wf95: "internal_wf (ks' ! 95)" using wf by simp
    then have kwf: "internal_wf (fst (ks' ! 95), n + 1)" using n by (simp add: internal_wf_def)
    from wf95 have "take 13 (internal_bytes (ks' ! 95)) = fst (ks' ! 95)"
      by (auto simp: internal_bytes_def internal_wf_def split: prod.split)
    then have key: "slice tmp (95 * INTERNAL_ENTRY_LEN) BSON_BTREE_KEY_SIZE = fst (ks' ! 95)"
      using slice_concat_key [of "map internal_bytes ks'" 21 95] wf
      by (simp add: tmp_def INTERNAL_ENTRY_LEN_def BSON_BTREE_KEY_SIZE_def length_internal_bytes)
    have split: "io_ok os (io_bind (io_store (internal_split_store ?p (n + 1) link tmp 95 95)) (\<lambda>_.
          io_return (Some (fst (ks' ! 95), n + 1))) f1) (internal_post m n no link ks')"
      if f1: "index_file f1 m1 (n + 1)" and g: "grown m n m1 {}" for f1 m1
    proof -
      have p1: "page_holds m1 ?p (InternalPage link ks)" using g p no by (rule grown_page) simp
      have room: "page_ptr (n + 1) + 4096 \<le> length m1"
        using f1 by (simp add: index_file_def page_ptr_def BSON_BTREE_PAGE_SIZE_def)
      obtain m2 m3 where s: "internal_split_store ?p (n + 1) link tmp 95 95 m1 = Ok m3" "within m1 m2 ?p 4096"
        "within m2 m3 (page_ptr (n + 1)) 4096" "page_holds m3 ?p (InternalPage link (take 95 ks'))"
        "page_holds m3 (page_ptr (n + 1)) (InternalPage (snd (ks' ! 95)) (drop 96 ks'))"
        unfolding tmp_def by (rule internal_split_pages [OF p1 room no1(2) wf])
      note h = within_header [OF s(2) no1(1)] within_header [OF s(3), simplified]
      have cnt1: "field m1 OFF_PAGE_COUNT 8 = n + 1" using f1 by (simp add: index_file_def)
      have g3: "grown m n m3 {no}"
        using grown_trans [of m n m1 "{}" "n + 1" m2 "{no}" "{no}"]
          grown_trans [of m n m2 "{no}" "n + 1" m3 "{n + 1}" "{no}"] g h by simp
      show ?thesis
        using s g3 h cnt1 within_length [OF s(2)] within_length [OF s(3)] wf(2)
        by (intro io_ok_store [of _ _ _ "internal_split_store ?p (n + 1) link tmp 95 95", OF f1 s(1)])
          (auto simp: internal_post_def kwf [simplified] intro!: io_ok_return simp del: page_holds.simps)
    qed
    have "io_ok os (io_bind (allocate_page os) (\<lambda>new_page_no.
          io_bind (io_store (internal_split_store ?p new_page_no link tmp 95 95)) (\<lambda>_.
          io_return (Some (fst (ks' ! 95), new_page_no)))) f) (internal_post m n no link ks')"
      by (rule io_ok_bind [of os "allocate_page os" f, OF io_ok_allocate [OF f n]]) (use split in auto)
    then show ?thesis
      unfolding internal_insert_def Let_def ks'_def [symmetric] using buf [unfolded full] count [unfolded full]
      by (simp add: io_load_bind [OF f] INTERNAL_MAX_KEYS_def full key)
  qed
qed

section \<open>The recursion\<close>

abbreviation kid_roots :: "(key \<times> btree) list \<Rightarrow> (key \<times> nat) list" where
  "kid_roots ts \<equiv> map (\<lambda>(k, t). (k, root_no t)) ts"

lemma insert_first_leaf:
  "tree_insert key off n t = (t', us, n') \<Longrightarrow> fst (hd (leaves t')) = fst (hd (leaves t))"
  "kids_insert key off n t ts = (t', ts', n') \<Longrightarrow> fst (hd (leaves t')) = fst (hd (leaves t))"
  by (induction key off n t and key off n t ts arbitrary: t' us n' and t' ts' n' rule: tree_insert_kids_insert.induct)
    (auto simp: Let_def split: prod.splits if_splits)

lemma next_link_Nil [simp]: "next_link [] link = link"
  by (simp add: next_link_def)

lemma next_link_leaves: "next_link (leaves t @ xs) link = fst (hd (leaves t))"
  by (cases "leaves t") (simp_all add: next_link_def)

definition kids_inserted ::
    "byte list \<Rightarrow> nat \<Rightarrow> nat \<Rightarrow> nat set \<Rightarrow> (key \<times> btree) list \<Rightarrow> nat \<Rightarrow> btree \<times> (key \<times> btree) list \<times> nat \<Rightarrow>
     (key \<times> nat) option \<Rightarrow> bson_mmap_file \<Rightarrow> bool" where
  "kids_inserted m n link P ts j r x f' \<longleftrightarrow> (case r of (t', ts', n') \<Rightarrow>
     (\<forall>s. x = Some s \<longrightarrow> internal_wf s) \<and> j \<le> length ts \<and>
     kid_roots ts' = (case x of None \<Rightarrow> kid_roots ts | Some s \<Rightarrow> take j (kid_roots ts) @ s # drop j (kid_roots ts)) \<and>
     (\<exists>m'. index_file f' m' n' \<and> grown m n m' P \<and>
       tree_holds m' (next_link (kid_leaves ts') link) t' \<and> kids_hold m' link ts'))"

lemma tree_grown:
  "tree_holds m link t \<Longrightarrow> grown m n m' P \<Longrightarrow> set (pages t) \<subseteq> {1..n} \<Longrightarrow> set (pages t) \<inter> P = {} \<Longrightarrow> tree_holds m' link t"
  "kids_hold m link ts \<Longrightarrow> grown m n m' P \<Longrightarrow> set (kid_pages ts) \<subseteq> {1..n} \<Longrightarrow> set (kid_pages ts) \<inter> P = {} \<Longrightarrow> kids_hold m' link ts"
  by (rule tree_frame; auto simp: grown_def)+

lemma grown_weaken: "grown m n m' P \<Longrightarrow> P \<subseteq> Q \<Longrightarrow> grown m n m' Q"
  by (auto simp: grown_def)

lemma kids_roots_one:
  "length us \<le> 1 \<Longrightarrow> kid_roots us = (case split_of us of None \<Rightarrow> [] | Some s \<Rightarrow> [s])"
  by (cases us) (auto simp: split_of_def)

lemma kids_insert_last:
  assumes ins: "tree_insert key off n t = (t', us, n')" and x: "inserted m n link (set (pages t)) (t', us, n') x f'"
  shows "kids_inserted m n link (set (pages t)) [] 0 (t', us, n') x f'"
  using x kids_roots_one [OF insert_split_one(1) [OF ins]]
  by (auto simp: inserted_def kids_inserted_def split: option.splits)

lemma kids_insert_here:
  assumes ins: "tree_insert key off n t = (t', us, n')"
    and x: "inserted m n (next_link (kid_leaves ts) link) (set (pages t)) (t', us, n') x f'"
    and ts: "kids_hold m link ts" "distinct (pages t @ kid_pages ts)" "set (pages t @ kid_pages ts) \<subseteq> {1..n}"
  shows "kids_inserted m n link (set (pages t @ kid_pages ts)) ts 0 (t', us @ ts, n') x f'"
proof -
  obtain m' where m': "index_file f' m' n'" "grown m n m' (set (pages t))"
    "tree_holds m' (next_link (kid_leaves us) (next_link (kid_leaves ts) link)) t'"
    "kids_hold m' (next_link (kid_leaves ts) link) us"
    and s: "x = split_of us" "\<forall>s. x = Some s \<longrightarrow> internal_wf s"
    using x by (auto simp: inserted_def)
  have "kids_hold m' link ts" using ts by (intro tree_grown(2) [OF ts(1) m'(2)]) auto
  moreover have "grown m n m' (set (pages t @ kid_pages ts))" using m'(2) by (rule grown_weaken) auto
  ultimately show ?thesis
    using m' s kids_roots_one [OF insert_split_one(1) [OF ins]]
    by (auto simp: kids_inserted_def split: option.splits)
qed

lemma kids_insert_later:
  assumes ins: "kids_insert key off n t1 ts = (t', ts', n')"
    and x: "kids_inserted m n link (set (pages t1 @ kid_pages ts)) ts j (t', ts', n') x f'"
    and t: "tree_holds m (next_link (kid_leaves ((k, t1) # ts)) link) t"
    "distinct (pages t @ kid_pages ((k, t1) # ts))" "set (pages t @ kid_pages ((k, t1) # ts)) \<subseteq> {1..n}"
  shows "kids_inserted m n link (set (pages t @ kid_pages ((k, t1) # ts))) ((k, t1) # ts) (Suc j) (t, (k, t') # ts', n') x f'"
proof -
  obtain m' where m': "index_file f' m' n'" "grown m n m' (set (pages t1 @ kid_pages ts))"
    "tree_holds m' (next_link (kid_leaves ts') link) t'" "kids_hold m' link ts'"
    using x by (auto simp: kids_inserted_def)
  have "tree_holds m' (next_link (kid_leaves ((k, t1) # ts)) link) t"
    using t by (intro tree_grown(1) [OF t(1) m'(2)]) auto
  then have "tree_holds m' (next_link (kid_leaves ((k, t') # ts')) link) t"
    using insert_first_leaf(2) [OF ins] by (simp add: next_link_leaves del: next_link_append)
  moreover have "grown m n m' (set (pages t @ kid_pages ((k, t1) # ts)))" using m'(2) by (rule grown_weaken) auto
  ultimately show ?thesis
    using x m' insert_root(2) [OF ins] by (auto simp: kids_inserted_def split: option.splits)
qed

text \<open>The pages of the result of an insertion are the old ones and new ones.\<close>

lemma kids_insert_pages:
  assumes "kids_insert key off n t ts = (t', ts', n')" "distinct (pages t @ kid_pages ts)" "set (pages t @ kid_pages ts) \<subseteq> {1..n}"
  shows "n \<le> n'" "distinct (pages t' @ kid_pages ts')" "set (pages t' @ kid_pages ts') = set (pages t @ kid_pages ts) \<union> {n<..n'}"
proof -
  have m: "n \<le> n'" "mset (pages t' @ kid_pages ts') = mset ((pages t @ kid_pages ts) @ [n + 1..<n' + 1])"
    using insert_pages(2) [OF assms(1)] by simp_all
  then show "n \<le> n'" by simp
  have "x \<notin> set [n + 1..<n' + 1]" if "x \<in> set (pages t @ kid_pages ts)" for x
    using subsetD [OF assms(3) that] by simp
  then have "set (pages t @ kid_pages ts) \<inter> set [n + 1..<n' + 1] = {}" by blast
  then have "distinct ((pages t @ kid_pages ts) @ [n + 1..<n' + 1])"
    using assms(2) unfolding distinct_append [of "pages t @ kid_pages ts"] by (simp only: distinct_upt simp_thms)
  then show "distinct (pages t' @ kid_pages ts')" by (rule mset_eq_imp_distinct_iff [OF m(2), THEN iffD2])
  have "set (pages t' @ kid_pages ts') = set ((pages t @ kid_pages ts) @ [n + 1..<n' + 1])"
    using m(2) by (rule mset_eq_setD)
  moreover have "set [n + 1..<n' + 1] = {n<..n'}" by auto
  ultimately show "set (pages t' @ kid_pages ts') = set (pages t @ kid_pages ts) \<union> {n<..n'}"
    by (simp only: set_append)
qed

lemma node_insert:
  assumes k: "kids_insert key off n t ts = (t1, ts1, n1)"
    and p: "page_holds m (page_ptr no) (InternalPage (root_no t) (kid_roots ts))"
    and pg: "distinct (pages (Nd no t ts))" "set (pages (Nd no t ts)) \<subseteq> {1..n}" and n: "n1 < 2 ^ 40"
    and x: "kids_inserted m n link (set (pages t @ kid_pages ts)) ts j (t1, ts1, n1) x f'"
  shows "io_ok os ((case x of None \<Rightarrow> io_return None | Some s \<Rightarrow> internal_insert os no j s) f')
    (inserted m n link (set (pages (Nd no t ts))) (tree_insert key off n (Nd no t ts)))"
proof -
  let ?P = "set (pages t @ kid_pages ts)"
  have pg': "distinct (pages t @ kid_pages ts)" "set (pages t @ kid_pages ts) \<subseteq> {1..n}" using pg by simp_all
  note np = kids_insert_pages [OF k pg']
  have no: "no \<in> {1..n1}" "no \<notin> set (pages t1 @ kid_pages ts1)" "no \<notin> ?P" "no \<in> {1..n}"
    using pg np(1) unfolding np(3) by auto
  obtain m1 where m1: "index_file f' m1 n1" "grown m n m1 ?P"
    "tree_holds m1 (next_link (kid_leaves ts1) link) t1" "kids_hold m1 link ts1"
    and j: "j \<le> length ts"
    and r: "kid_roots ts1 = (case x of None \<Rightarrow> kid_roots ts | Some s \<Rightarrow> take j (kid_roots ts) @ s # drop j (kid_roots ts))"
    and wf: "\<forall>s. x = Some s \<longrightarrow> internal_wf s"
    using x by (auto simp: kids_inserted_def)
  have len: "length ts \<le> 190" using p by (simp add: INTERNAL_MAX_KEYS_def)
  have p1: "page_holds m1 (page_ptr no) (InternalPage (root_no t1) (kid_roots ts))"
    using grown_page [OF m1(2) p no(4,3)] insert_root(2) [OF k] by simp
  have "set (pages t1 @ kid_pages ts1) \<subseteq> {1..n1}" unfolding np(3) using pg'(2) np(1) by fastforce
  then have in1: "set (pages t1) \<subseteq> {1..n1}" "set (kid_pages ts1) \<subseteq> {1..n1}" by simp_all
  show ?thesis
  proof (cases x)
    case None
    have l1: "length ts1 = length ts" using arg_cong [OF r, of length] None by simp
    have "grown m n m1 (set (pages (Nd no t ts)))" using m1(2) by (rule grown_weaken) auto
    moreover have "page_holds m1 (page_ptr no) (InternalPage (root_no t1) (kid_roots ts1))" using p1 r None by simp
    ultimately have "inserted m n link (set (pages (Nd no t ts))) (Nd no t1 ts1, [], n1) None f'"
      using m1 by (auto simp: inserted_def split_of_def simp del: page_holds.simps)
    then show ?thesis using None k l1 len by (simp add: io_ok_return)
  next
    case (Some s)
    obtain key' child where s: "s = (key', child)" by fastforce
    have e: "length key' = 13" "child < 2 ^ 64" using wf Some s by (auto simp: internal_wf_def)
    have l1: "length ts1 = length ts + 1" using arg_cong [OF r, of length] Some j by simp
    have r1: "kid_roots ts1 = take j (kid_roots ts) @ (key', child) # drop j (kid_roots ts)" using r Some s by simp
    have "io_ok os (internal_insert os no j (key', child) f')
        (internal_post m1 n1 no (root_no t1) (take j (kid_roots ts) @ (key', child) # drop j (kid_roots ts)))"
      by (rule internal_insert_ok [OF m1(1) n no(1) p1 _ e]) (use j in simp)
    then have main: "io_ok os (internal_insert os no j s f') (internal_post m1 n1 no (root_no t1) (kid_roots ts1))"
      unfolding r1 s .
    have "inserted m n link (set (pages (Nd no t ts))) (tree_insert key off n (Nd no t ts)) y f2"
      if y: "internal_post m1 n1 no (root_no t1) (kid_roots ts1) y f2" for y f2
    proof (cases "length ts1 \<le> 190")
      case True
      obtain m2 where m2: "y = None" "index_file f2 m2 n1" "grown m1 n1 m2 {no}"
        "page_holds m2 (page_ptr no) (InternalPage (root_no t1) (kid_roots ts1))"
        using y True by (auto simp: internal_post_def simp del: page_holds.simps)
      have "tree_holds m2 (next_link (kid_leaves ts1) link) t1" "kids_hold m2 link ts1"
        using no(2) tree_grown(1) [OF m1(3) m2(3) in1(1)] tree_grown(2) [OF m1(4) m2(3) in1(2)] by simp_all
      moreover have "grown m n m2 (set (pages (Nd no t ts)))"
        using m1(2) m2(3) np(1) by (rule grown_trans) auto
      ultimately have "inserted m n link (set (pages (Nd no t ts))) (Nd no t1 ts1, [], n1) y f2"
        using m2 by (auto simp: inserted_def split_of_def simp del: page_holds.simps)
      then show ?thesis using k True by simp
    next
      case False
      obtain m2 where m2: "y = Some (fst (ts1 ! 95), n1 + 1)" "index_file f2 m2 (n1 + 1)" "grown m1 n1 m2 {no}"
        "page_holds m2 (page_ptr no) (InternalPage (root_no t1) (kid_roots (take 95 ts1)))"
        "page_holds m2 (page_ptr (n1 + 1)) (InternalPage (root_no (snd (ts1 ! 95))) (kid_roots (drop 96 ts1)))"
        "internal_wf (fst (ts1 ! 95), n1 + 1)"
        using y False by (auto simp: internal_post_def take_map drop_map prod.case_eq_if simp del: page_holds.simps)
      obtain k2 r where kr: "ts1 ! 95 = (k2, r)" by fastforce
      have sp: "ts1 = take 95 ts1 @ (k2, r) # drop 96 ts1" using kids_split [OF False] by (simp add: kr)
      have "tree_holds m2 (next_link (kid_leaves ts1) link) t1" "kids_hold m2 link ts1"
        using no(2) tree_grown(1) [OF m1(3) m2(3) in1(1)] tree_grown(2) [OF m1(4) m2(3) in1(2)] by simp_all
      then have th: "tree_holds m2 (next_link (kid_leaves (take 95 ts1 @ (k2, r) # drop 96 ts1)) link) t1"
        "kids_hold m2 link (take 95 ts1 @ (k2, r) # drop 96 ts1)"
        using sp by simp_all
      have "grown m n m2 (set (pages (Nd no t ts)))"
        using m1(2) m2(3) np(1) by (rule grown_trans) auto
      then have "inserted m n link (set (pages (Nd no t ts)))
          (Nd no t1 (take 95 ts1), [(k2, Nd (n1 + 1) r (drop 96 ts1))], n1 + 1) y f2"
        using m2 th kr by (auto simp: inserted_def split_of_def next_link_leaves simp del: page_holds.simps)
      then show ?thesis using k False kr by simp
    qed
    then show ?thesis using main Some by (auto simp: io_ok_def)
  qed
qed

lemma insert_leaf_step:
  assumes "index_file f m n" "page_holds m (page_ptr no) (LeafPage link es)"
  shows "insert_recursive os fuel no key off unique f = leaf_insert os no key off unique f"
  using page_holds_header(1) [OF assms(2)]
  by (simp add: insert_recursive.simps [of os fuel no] Let_def io_load_bind [OF assms(1)])

lemma insert_node_step:
  assumes f: "index_file f m n" and p: "page_holds m (page_ptr no) (InternalPage link ks)"
    and pk: "pick key 0 link ks = (j, c)"
  shows "insert_recursive os (Suc fuel) no key off unique f =
    io_bind (insert_recursive os fuel c key off unique) (\<lambda>x. case x of None \<Rightarrow> io_return None
      | Some s \<Rightarrow> internal_insert os no j s) f"
  using page_holds_header [OF p] child_loop_pick [OF p, of 0 key link] pk
  by (simp add: insert_recursive.simps [of os "Suc fuel" no] Let_def io_load_bind [OF f] PAGE_TYPE_LEAF_def PAGE_TYPE_INTERNAL_def)

theorem insert_recursive_ok:
  "\<lbrakk>index_file f m n; tree_holds m link t; distinct (pages t); set (pages t) \<subseteq> {1..n}; height t \<le> fuel;
     n + height t < 2 ^ 40; length key = 13; off < 2 ^ 64;
     unique \<Longrightarrow> key_has_live_entry m (path_leaf key t) key = Ok False\<rbrakk> \<Longrightarrow>
   io_ok os (insert_recursive os fuel (root_no t) key off unique f)
     (inserted m n link (set (pages t)) (tree_insert key off n t))"
  "\<lbrakk>index_file f m n; tree_holds m (next_link (kid_leaves ts) link) t; kids_hold m link ts;
     distinct (pages t @ kid_pages ts); set (pages t @ kid_pages ts) \<subseteq> {1..n}; max (height t) (kids_height ts) \<le> fuel;
     n + max (height t) (kids_height ts) < 2 ^ 40; length key = 13; off < 2 ^ 64;
     unique \<Longrightarrow> key_has_live_entry m (kids_path_leaf key t ts) key = Ok False;
     pick key i (root_no t) (kid_roots ts) = (j, c)\<rbrakk> \<Longrightarrow>
   i \<le> j \<and> io_ok os (insert_recursive os fuel c key off unique f)
     (kids_inserted m n link (set (pages t @ kid_pages ts)) ts (j - i) (kids_insert key off n t ts))"
proof (induction key off n t and key off n t ts arbitrary: link fuel f m and link fuel f m i j c
    rule: tree_insert_kids_insert.induct)
  case (1 key off n no es)
  have p: "page_holds m (page_ptr no) (LeafPage link es)" using "1.prems"(2) by simp
  show ?case
    using leaf_insert_ok [OF "1.prems"(1) _ _ p "1.prems"(7,8), of unique os] "1.prems"(4,6,9)
      insert_leaf_step [OF "1.prems"(1) p] by (simp del: tree_insert.simps)
next
  case (2 key off n no t ts)
  obtain t1 ts1 n1 where k: "kids_insert key off n t ts = (t1, ts1, n1)" by (metis prod_cases3)
  obtain fuel' where fuel: "fuel = Suc fuel'" using "2.prems"(5) by (cases fuel) auto
  obtain j c where pk: "pick key 0 (root_no t) (kid_roots ts) = (j, c)" by fastforce
  have p: "page_holds m (page_ptr no) (InternalPage (root_no t) (kid_roots ts))" using "2.prems"(2) by simp
  have "0 \<le> j \<and> io_ok os (insert_recursive os fuel' c key off unique f)
      (kids_inserted m n link (set (pages t @ kid_pages ts)) ts (j - 0) (kids_insert key off n t ts))"
    using "2.prems" fuel pk by (intro "2.IH") auto
  then have ih: "io_ok os (insert_recursive os fuel' c key off unique f)
      (kids_inserted m n link (set (pages t @ kid_pages ts)) ts j (t1, ts1, n1))" by (simp add: k)
  have "n1 < 2 ^ 40" using insert_height(2) [OF k] "2.prems"(6) by simp
  note step = node_insert [OF k p "2.prems"(3,4) this]
  show ?case
    unfolding fuel root_no.simps insert_node_step [OF "2.prems"(1) p pk]
    by (rule io_ok_bind [of os "insert_recursive os fuel' c key off unique" f, OF ih]) (rule step)
next
  case (3 key off n t)
  obtain t' us n' where k: "tree_insert key off n t = (t', us, n')" by (metis prod_cases3)
  have "io_ok os (insert_recursive os fuel (root_no t) key off unique f)
      (inserted m n link (set (pages t)) (t', us, n'))"
    using "3.prems" k by (intro "3.IH" [of f m link fuel, unfolded k]) auto
  then have "io_ok os (insert_recursive os fuel (root_no t) key off unique f)
      (kids_inserted m n link (set (pages t)) [] 0 (t', us, n'))"
    using kids_insert_last [OF k] by (auto simp: io_ok_def)
  then show ?case using "3.prems" k by simp
next
  case (4 key off n t k t1 ts)
  show ?case
  proof (cases "bson_btree_key_cmp key k < 0")
    case True
    obtain t' us n' where k: "tree_insert key off n t = (t', us, n')" by (metis prod_cases3)
    have jc: "j = i" "c = root_no t" using "4.prems"(11) True by auto
    have "io_ok os (insert_recursive os fuel (root_no t) key off unique f)
        (inserted m n (next_link (kid_leaves ((k, t1) # ts)) link) (set (pages t)) (t', us, n'))"
      using "4.prems" True by (intro "4.IH"(1) [OF True, of f m _ fuel, unfolded k]) auto
    then have "io_ok os (insert_recursive os fuel (root_no t) key off unique f)
        (kids_inserted m n link (set (pages t @ kid_pages ((k, t1) # ts))) ((k, t1) # ts) 0 (t', us @ (k, t1) # ts, n'))"
      using kids_insert_here [OF k _ "4.prems"(3-5)] by (auto simp: io_ok_def)
    then show ?thesis using jc k True by simp
  next
    case False
    obtain t' ts' n' where k: "kids_insert key off n t1 ts = (t', ts', n')" by (metis prod_cases3)
    have pk: "pick key (i + 1) (root_no t1) (kid_roots ts) = (j, c)" using "4.prems"(11) False by simp
    have ih: "i + 1 \<le> j \<and> io_ok os (insert_recursive os fuel c key off unique f)
        (kids_inserted m n link (set (pages t1 @ kid_pages ts)) ts (j - (i + 1)) (t', ts', n'))"
      using "4.prems" False pk by (intro "4.IH"(2) [OF False, of f m link fuel "i + 1", unfolded k]) auto
    then have "io_ok os (insert_recursive os fuel c key off unique f)
        (kids_inserted m n link (set (pages t @ kid_pages ((k, t1) # ts))) ((k, t1) # ts) (Suc (j - (i + 1))) (t, (k, t') # ts', n'))"
      using kids_insert_later [OF k _ "4.prems"(2,4,5)] by (auto simp: io_ok_def)
    moreover have "Suc (j - (i + 1)) = j - i" using conjunct1 [OF ih] by arith
    ultimately show ?thesis using k False ih by simp
  qed
qed

section \<open>The root\<close>

lemma new_root_pages:
  assumes r: "page_ptr new + 4096 \<le> length m" "1 \<le> new" "new < 2 ^ 64" and root: "root < 2 ^ 64" and s: "internal_wf s"
  obtains m1 where "new_root_store new root s m = Ok (put m1 16 (nat_le 8 new))" "within m m1 (page_ptr new) 4096"
    "page_holds m1 (page_ptr new) (InternalPage root [s])"
proof -
  let ?r = "page_ptr new"
  have at: "4096 \<le> ?r" using r(2) by (simp add: page_ptr_def BSON_BTREE_PAGE_SIZE_def)
  have b: "length (internal_bytes s) = 21" using s by (rule length_internal_bytes)
  have k: "length (fst s) = 13" using s by (simp add: internal_wf_def)
  define m1 where "m1 = put m ?r [PAGE_TYPE_INTERNAL]"
  define m2 where "m2 = put m1 (?r + 8) (nat_le 8 root)"
  define m3 where "m3 = put m2 (?r + 16) (internal_bytes s)"
  define m4 where "m4 = put m3 (?r + 2) (nat_le 2 1)"
  have l: "length m1 = length m" "length m2 = length m" "length m3 = length m" "length m4 = length m"
    using r b by (simp_all add: m1_def m2_def m3_def m4_def)
  have "poke m (?r + PAGE_OFF_TYPE) [PAGE_TYPE_INTERNAL] = Ok m1" using r by (simp add: PAGE_OFF_TYPE_def poke_put m1_def)
  moreover have "write_u64 m1 (?r + PAGE_OFF_LINK) root = Ok m2"
    using r l by (simp add: PAGE_OFF_LINK_def write_u64_def poke_put m2_def)
  moreover have "write_internal_entry m2 (internal_entry_ptr ?r 0) (fst s) (snd s) = Ok m3"
    using write_internal_entry_put [of "fst s" "internal_entry_ptr ?r 0" m2 "snd s"] r l k by (simp add: ptr_defs m3_def)
  moreover have "write_u16 m3 (?r + PAGE_OFF_COUNT) 1 = Ok m4"
    using r l by (simp add: PAGE_OFF_COUNT_def write_u16_def poke_put m4_def)
  moreover have "write_u64 m4 OFF_ROOT_PAGE_NO new = Ok (put m4 16 (nat_le 8 new))"
    using r l at by (simp add: OFF_ROOT_PAGE_NO_def write_u64_def poke_put)
  ultimately have "new_root_store new root s m = Ok (put m4 16 (nat_le 8 new))"
    by (simp only: new_root_store_def Let_def rbind.simps)
  moreover have "within m m4 ?r 4096"
    unfolding m4_def m3_def m2_def m1_def using r b by (intro within_put within_refl) auto
  moreover have "page_holds m4 ?r (InternalPage root [s])"
  proof -
    have "m4 ! ?r = PAGE_TYPE_INTERNAL" using r l b by (simp add: m4_def m3_def m2_def m1_def nth_put)
    moreover have "field m4 (?r + 2) 2 = 1" "field m4 (?r + 8) 8 = root" "slice m4 (?r + 16) 21 = internal_bytes s"
      using r l b root by (simp_all add: m4_def m3_def m2_def)
    ultimately show ?thesis using r l s by (simp add: INTERNAL_MAX_KEYS_def)
  qed
  ultimately show thesis by (rule that)
qed

text \<open>A header store moves the root; the pages stay.\<close>

lemma same_page_root:
  "page_ptr no + 4096 \<le> length m \<Longrightarrow> 1 \<le> no \<Longrightarrow> same_page m (put m 16 (nat_le 8 new)) no"
  unfolding same_page_def by (intro slice_put_other) (auto simp: page_ptr_def BSON_BTREE_PAGE_SIZE_def)

definition header_kept :: "byte list \<Rightarrow> byte list \<Rightarrow> bool" where
  "header_kept m m' \<longleftrightarrow> slice m' 0 16 = slice m 0 16 \<and> slice m' 32 4064 = slice m 32 4064"

lemma same_header_kept: "same_header m m' \<Longrightarrow> header_kept m m'"
  using slice_slice [of 0 16 24 m 0] slice_slice [of 0 16 24 m' 0] by (simp add: same_header_def header_kept_def)

lemma header_kept_trans: "header_kept m m1 \<Longrightarrow> header_kept m1 m2 \<Longrightarrow> header_kept m m2"
  by (simp add: header_kept_def)

text \<open>A file that holds a tree, with the number of pages in use.\<close>

definition index_repr :: "bson_mmap_file \<Rightarrow> btree \<Rightarrow> bool" where
  "index_repr f t \<longleftrightarrow> index_file f (mm_bytes f) (field (mm_bytes f) OFF_PAGE_COUNT 8) \<and> index_image (mm_bytes f) t"

definition page_count :: "bson_mmap_file \<Rightarrow> nat" where
  "page_count f = field (mm_bytes f) OFF_PAGE_COUNT 8"

lemma index_reprI:
  assumes "index_file f m n" "field m OFF_ROOT_PAGE_NO 8 = root_no t" "distinct (pages t)" "set (pages t) \<subseteq> {1..n}"
    "tree_holds m 0 t" "tree_ok t"
  shows "index_repr f t" "mm_bytes f = m" "page_count f = n"
proof -
  show m: "mm_bytes f = m" "page_count f = n" using assms(1) by (simp_all add: index_file_def page_count_def)
  show "index_repr f t" using assms m by (auto simp: index_repr_def index_image_def index_file_def)
qed

section \<open>Duplicates\<close>

definition has_live :: "key \<Rightarrow> leaf_entry list \<Rightarrow> bool" where
  "has_live key es \<longleftrightarrow> (\<exists>e \<in> set es. bson_btree_key_cmp (fst e) key = 0 \<and> live_entry e)"

definition live_step :: "key \<Rightarrow> leaf_entry \<Rightarrow> bool \<Rightarrow> bool step result" where
  "live_step key e s = (if bson_btree_key_cmp (fst e) key > 0 then Ok (Return False)
     else if bson_btree_key_cmp (fst e) key = 0 \<and> live_entry e then Ok (Return True) else Ok (Next s))"

lemma live_body_step:
  assumes "page_holds m p (LeafPage link es)" "j < length es"
  shows "live_entry_body m key (leaf_entry_ptr p j) s = live_step key (es ! j) s"
  using leaf_slot_reads [OF assms] by (simp add: live_entry_body_def live_step_def live_entry_def)

lemma scan_live:
  assumes "sorted_entries es" "key_ok key"
  shows "rbind (scan_list (\<lambda>_. live_step key) i es False) (\<lambda>r. Ok (stepped r)) = Ok (has_live key es)"
  using assms(1)
proof (induction es arbitrary: i)
  case Nil
  then show ?case by (simp add: has_live_def)
next
  case (Cons e es)
  have tl: "sorted_entries es" "key_ok (fst e)" "\<forall>x \<in> set es. key_ok (fst x) \<and> entry_rank e \<le> entry_rank x"
    using Cons.prems by (auto simp: sorted_entries_def)
  have "\<not> has_live key es" if "bson_btree_key_cmp (fst e) key > 0"
    using that tl index_key.cmp_greater [OF _ assms(2)] index_key.cmp_eq [OF _ assms(2)]
    by (force simp: entry_rank_def has_live_def)
  then show ?case using Cons.IH [OF tl(1), of "Suc i"] by (auto simp: live_step_def has_live_def)
qed

lemma key_has_live_entry_reached:
  assumes im: "index_image m t" and key: "key_ok key"
  shows "key_has_live_entry m (path_leaf key t) key = Ok (has_live key (reached key t))"
proof -
  obtain a l c where p: "path key t = (a, l, c)" by (metis prod_cases3)
  have "entries t = leaf_entries a @ reached key t"
    using path_leaves(1) [OF p] by (simp add: entries_def reached_def p)
  then have "sorted_entries (reached key t)" using index_suffix(1) [OF im] by blast
  then have "rbind (scan_list (\<lambda>_. live_step key) 0 (reached key t) False) (\<lambda>r. Ok (stepped r)) =
      Ok (has_live key (reached key t))" using key by (rule scan_live)
  moreover have "walk_leaves (page_fuel m) m (live_entry_body m key) (fst (hd (l # c))) False =
      walk_list (\<lambda>_ _. live_step key) (l # c) False"
    using index_walk [OF im path_leaves(1) [OF p], of "live_entry_body m key" "\<lambda>_ _. live_step key" False] live_body_step
    by blast
  ultimately show ?thesis by (simp add: key_has_live_entry_def path_leaf_def reached_def p walk_list_flat)
qed

lemma has_live_reached:
  assumes "tree_ok t" "key_ok key" "last_live (entries t)"
  shows "has_live key (reached key t) \<longleftrightarrow> has_live key (entries t)"
proof -
  obtain a l c where p: "path key t = (a, l, c)" by (metis prod_cases3)
  note pe = path_entries [OF assms(1,2) p]
  have "\<not> (bson_btree_key_cmp (fst e) key = 0 \<and> live_entry e)" if "e \<in> set (leaf_entries a)" for e
  proof -
    have "key_ok (fst e)" using assms(1) that by (auto simp: tree_ok_def pe(1) sorted_entries_def)
    then show ?thesis
      using skipped_dead [OF assms p that] index_key.cmp_eq [OF _ assms(2)] by (auto simp: entry_rank_def)
  qed
  then show ?thesis by (auto simp: has_live_def pe(1) reached_def p)
qed

section \<open>The insertion\<close>

lemma read_flags:
  assumes "index_file f m n"
  shows "bson_btree_unique m = Ok (field m 6 2 AND 2 \<noteq> 0)"
  using assms by (simp add: bson_btree_unique_def index_file_def read_u16_field OFF_FLAGS_def BSON_BTREE_FLAG_UNIQUE_def)

definition unique_index :: "bson_mmap_file \<Rightarrow> bool" where
  "unique_index f \<longleftrightarrow> field (mm_bytes f) 6 2 AND 2 \<noteq> 0"

lemma header_kept_flags: "header_kept (mm_bytes f) (mm_bytes f') \<Longrightarrow> unique_index f' = unique_index f"
  using slice_slice [of 6 2 16 "mm_bytes f" 0] slice_slice [of 6 2 16 "mm_bytes f'" 0]
  by (simp add: unique_index_def header_kept_def field_def)

lemma insert_fuel: "index_image m t \<Longrightarrow> height t \<le> page_fuel m"
  using height_pages(1) [of t] index_pages_fuel [of m t] by simp

lemma image_height:
  assumes "index_image m t" shows "height t < field m OFF_PAGE_COUNT 8"
proof -
  have "set (pages t) \<subseteq> {1..field m OFF_PAGE_COUNT 8}" "distinct (pages t)"
    using assms by (auto simp: index_image_def)
  then have "length (pages t) \<le> field m OFF_PAGE_COUNT 8"
    using card_mono [of "{1..field m OFF_PAGE_COUNT 8}" "set (pages t)"] by (simp add: distinct_card)
  then show ?thesis using height_pages(1) [of t] by simp
qed

lemma tree_insert_ok:
  assumes ok: "tree_ok t" "key_ok key" and k: "tree_insert key off n t = (t', us, n')"
    and pg: "distinct (pages t)" "set (pages t) \<subseteq> {1..n}"
  shows "seps_ok t'" "kid_seps_ok us" "leaves_full (leaves t' @ kid_leaves us)"
    "sorted_entries (leaf_entries (leaves t' @ kid_leaves us))" "n \<le> n'" "distinct (pages t' @ kid_pages us)"
    "set (pages t' @ kid_pages us) \<subseteq> {1..n'}"
proof -
  have full: "leaves_full (leaves t) \<or> (\<exists>no. t = Lf no [])" and so: "sorted_entries (leaf_entries (leaves t))" "seps_ok t"
    using ok(1) by (simp_all add: tree_ok_def entries_def)
  show "seps_ok t'" "kid_seps_ok us" using insert_seps(1) [OF k ok(2) full so] by simp_all
  show "leaves_full (leaves t' @ kid_leaves us)" by (rule insert_full(1) [OF k full])
  show "sorted_entries (leaf_entries (leaves t' @ kid_leaves us))"
    unfolding insert_entries [OF ok k] using so ok(2) by (intro sorted_insert_entry) (simp_all add: entries_def)
  have "kids_insert key off n t [] = (t', us, n')" using k by simp
  note kp = kids_insert_pages [OF this]
  show "n \<le> n'" "distinct (pages t' @ kid_pages us)" using kp pg by simp_all
  have "set (pages t' @ kid_pages us) = set (pages t) \<union> {n<..n'}" using kp(3) pg by simp
  then show "set (pages t' @ kid_pages us) \<subseteq> {1..n'}" using pg(2) \<open>n \<le> n'\<close> by fastforce
qed

lemma insert_duplicate:
  "\<lbrakk>index_file f m n; tree_holds m link t; height t \<le> fuel; key_has_live_entry m (path_leaf key t) key = Ok True\<rbrakk> \<Longrightarrow>
   insert_recursive os fuel (root_no t) key off True f = (Err BSON_ERR_DUPLICATE_KEY, f)"
  "\<lbrakk>index_file f m n; tree_holds m link t; kids_hold m link' ts; max (height t) (kids_height ts) \<le> fuel;
     key_has_live_entry m (kids_path_leaf key t ts) key = Ok True; pick key i (root_no t) (kid_roots ts) = (j, c)\<rbrakk> \<Longrightarrow>
   insert_recursive os fuel c key off True f = (Err BSON_ERR_DUPLICATE_KEY, f)"
proof (induction key t and key t ts arbitrary: link fuel and link link' fuel i j c rule: path_kids_path.induct)
  case (1 key no es)
  then have p: "page_holds m (page_ptr no) (LeafPage link es)" by simp
  show ?case
    using insert_leaf_step [OF "1.prems"(1) p, of os fuel key off True] "1.prems"(4)
    by (simp add: leaf_insert_def Let_def io_load_bind [OF "1.prems"(1)])
next
  case (2 key no t ts)
  obtain fuel' where fuel: "fuel = Suc fuel'" using "2.prems"(3) by (cases fuel) auto
  obtain j c where pk: "pick key 0 (root_no t) (kid_roots ts) = (j, c)" by fastforce
  have p: "page_holds m (page_ptr no) (InternalPage (root_no t) (kid_roots ts))" using "2.prems"(2) by simp
  have "insert_recursive os fuel' c key off True f = (Err BSON_ERR_DUPLICATE_KEY, f)"
    using "2.prems" fuel pk by (intro "2.IH") auto
  then show ?case
    unfolding fuel root_no.simps insert_node_step [OF "2.prems"(1) p pk] by (simp add: io_bind_def)
next
  case (3 key t)
  then show ?case by auto
next
  case (4 key t k t' ts)
  then show ?case by (cases "bson_btree_key_cmp key k < 0") auto
qed

lemma root_insert_entries:
  assumes "tree_ok t" "key_ok key"
  shows "entries (fst (root_insert key off n t)) = insert_entry key off (entries t)"
proof -
  obtain t' us n' where k: "tree_insert key off n t = (t', us, n')" by (metis prod_cases3)
  show ?thesis using insert_entries [OF assms k] k by (cases "us = []") (simp_all add: root_insert_def entries_def)
qed

lemma index_reprD:
  assumes "index_repr f t"
  shows "index_file f (mm_bytes f) (page_count f)" "index_image (mm_bytes f) t" "tree_holds (mm_bytes f) 0 t" "tree_ok t"
    "distinct (pages t)" "set (pages t) \<subseteq> {1..page_count f}" "height t < page_count f"
    "sorted_entries (entries t)"
  using assms image_height [of "mm_bytes f" t]
  by (auto simp: index_repr_def page_count_def index_image_def tree_ok_def)

lemma btree_insert_duplicate:
  assumes f: "index_repr f t" and key: "key_ok key" and u: "unique_index f" and d: "has_live key (reached key t)"
  shows "bson_btree_insert os key off f = (Err BSON_ERR_DUPLICATE_KEY, f)"
proof -
  note r = index_reprD [OF f]
  have "insert_recursive os (page_fuel (mm_bytes f)) (root_no t) key off True f = (Err BSON_ERR_DUPLICATE_KEY, f)"
    using insert_duplicate(1) [OF r(1,3) insert_fuel [OF r(2)]] key_has_live_entry_reached [OF r(2) key] d by simp
  then show ?thesis
    using index_root [OF r(2)] read_flags [OF r(1)] u
    by (simp add: bson_btree_insert_def Let_def index_file_load [OF r(1)] unique_index_def io_bind_def)
qed

lemma root_insert_ok:
  assumes f: "index_repr f t" and key: "key_ok key" and n: "page_count f < 2 ^ 39"
    and k: "tree_insert key off (page_count f) t = (t', us, n')"
    and x: "inserted (mm_bytes f) (page_count f) 0 (set (pages t)) (t', us, n') x f1"
  shows "io_ok os ((case x of None \<Rightarrow> io_return () | Some s \<Rightarrow>
      io_bind (allocate_page os) (\<lambda>new_root. io_store (new_root_store new_root (root_no t) s))) f1)
    (\<lambda>_ f'. index_repr f' (fst (root_insert key off (page_count f) t)) \<and>
       page_count f' = snd (root_insert key off (page_count f) t) \<and> header_kept (mm_bytes f) (mm_bytes f'))"
proof -
  let ?m = "mm_bytes f" and ?n = "page_count f"
  note r = index_reprD [OF f]
  note ti = tree_insert_ok [OF r(4) key k r(5,6)]
  obtain m1 where m1: "index_file f1 m1 n'" "grown ?m ?n m1 (set (pages t))"
    "tree_holds m1 (next_link (kid_leaves us) 0) t'" "kids_hold m1 0 us"
    and xs: "x = split_of us" "\<forall>s. x = Some s \<longrightarrow> internal_wf s"
    using x by (auto simp: inserted_def)
  have sh: "same_header ?m m1" using m1(2) by (simp add: grown_def)
  show ?thesis
  proof (cases us)
    case Nil
    have root: "field m1 OFF_ROOT_PAGE_NO 8 = root_no t'"
    proof -
      have "slice m1 16 8 = slice ?m 16 8"
        using slice_slice [of 16 8 24 ?m 0] slice_slice [of 16 8 24 m1 0] sh by (simp add: same_header_def)
      then show ?thesis
        using r(2) insert_root(1) [OF k] by (simp add: index_image_def field_def OFF_ROOT_PAGE_NO_def)
    qed
    have "tree_ok t'" using ti Nil by (simp add: tree_ok_def entries_def)
    then have "index_repr f1 t'" "page_count f1 = n'" "mm_bytes f1 = m1"
      using m1 ti(6,7) Nil root by (auto intro!: index_reprI [OF m1(1)])
    then show ?thesis
      using Nil xs(1) k same_header_kept [OF sh] by (simp add: split_of_def root_insert_def io_ok_def)
  next
    case (Cons u us')
    obtain sk st where u: "us = [(sk, st)]"
      using insert_split_one(1) [OF k] Cons by (cases u) auto
    have s: "x = Some (sk, root_no st)" "internal_wf (sk, root_no st)" using xs u by (simp_all add: split_of_def)
    have n': "n' < 2 ^ 40" using insert_height(1) [OF k] r(7) n by simp
    define T where "T = Nd (n' + 1) t' us"
    have post: "index_repr f3 T \<and> page_count f3 = n' + 1 \<and> header_kept ?m (mm_bytes f3)"
      if st: "index_file f2 m2 (n' + 1)" "grown m1 n' m2 {}" and
        st3: "within m2 m3 (page_ptr (n' + 1)) 4096"
        "page_holds m3 (page_ptr (n' + 1)) (InternalPage (root_no t) [(sk, root_no st)])"
        "f3 = f2\<lparr>mm_bytes := put m3 16 (nat_le 8 (n' + 1))\<rparr>" for f2 m2 f3 m3
    proof -
      let ?m4 = "put m3 16 (nat_le 8 (n' + 1))"
      have len: "(n' + 2) * 4096 \<le> length m2" "length m3 = length m2"
        using st(1) within_length [OF st3(1)] by (simp_all add: index_file_def)
      have ne: "m2 \<noteq> []" using len(1) by auto
      note wh = within_header [OF st3(1), simplified]
      have cnt: "field m3 OFF_PAGE_COUNT 8 = n' + 1" using wh(2) st(1) by (simp add: index_file_def)
      have f3: "index_file f3 ?m4 (n' + 1)"
        using st(1) cnt len ne unfolding st3(3) by (simp add: index_file_def mmap_inv_def OFF_PAGE_COUNT_def)
      have keep: "same_page m3 ?m4 no" if "no \<in> {1..n' + 1}" for no
        using that len by (intro same_page_root) (simp_all add: page_ptr_def BSON_BTREE_PAGE_SIZE_def)
      have "grown m2 (n' + 1) m3 {n' + 1}" using wh(3) by simp
      then have "grown m1 n' m3 {n' + 1}" using grown_trans [OF st(2), of "n' + 1" m3 "{n' + 1}" "{n' + 1}"] by simp
      then have same: "same_page m1 ?m4 no" if "no \<in> {1..n'}" for no
        using that keep [of no] by (auto simp: grown_def intro: same_page_trans)
      have lm: "length m1 \<le> length ?m4" using st(2) len by (simp add: grown_def)
      have "kids_hold ?m4 0 us" "tree_holds ?m4 (next_link (kid_leaves us) 0) t'"
        using tree_frame [of m1 _ _ ?m4] m1(3,4) same ti(7) lm by (auto simp: subset_iff)
      moreover have "page_holds ?m4 (page_ptr (n' + 1)) (InternalPage (root_no t') [(sk, root_no st)])"
        using page_holds_same [OF st3(2) keep] len insert_root(1) [OF k] by simp
      ultimately have "tree_holds ?m4 0 T" unfolding T_def u by (simp del: page_holds.simps)
      moreover have "field ?m4 OFF_ROOT_PAGE_NO 8 = root_no T" using len n' by (simp add: T_def OFF_ROOT_PAGE_NO_def)
      moreover have "distinct (pages T)" "set (pages T) \<subseteq> {1..n' + 1}" using ti(6,7) unfolding T_def by fastforce+
      moreover have "tree_ok T" using ti(1-4) by (simp add: T_def tree_ok_def entries_def)
      ultimately have "index_repr f3 T" "page_count f3 = n' + 1" "mm_bytes f3 = ?m4"
        using index_reprI [OF f3] by blast+
      moreover have "header_kept m3 ?m4" using len by (simp add: header_kept_def)
      ultimately show ?thesis
        using same_header_kept [OF sh] same_header_kept [OF wh(1)] same_header_kept [of m1 m2] st(2)
        by (auto simp: grown_def intro: header_kept_trans)
    qed
    have "io_ok os (io_bind (allocate_page os) (\<lambda>new_root. io_store (new_root_store new_root (root_no t) (sk, root_no st))) f1)
        (\<lambda>_ f3. index_repr f3 T \<and> page_count f3 = n' + 1 \<and> header_kept ?m (mm_bytes f3))"
    proof (rule io_ok_bind [of os "allocate_page os" f1, OF io_ok_allocate [OF m1(1) n']], elim conjE exE)
      fix y f2 m2 assume a: "y = n' + 1" "index_file f2 m2 (n' + 1)" "grown m1 n' m2 {}"
      have room: "page_ptr (n' + 1) + 4096 \<le> length m2" "1 \<le> n' + 1" "n' + 1 < 2 ^ 64" "root_no t < 2 ^ 64"
        using a(2) n' subsetD [OF r(6) root_in_pages] n by (auto simp: index_file_def page_ptr_def BSON_BTREE_PAGE_SIZE_def)
      obtain m3 where m3: "new_root_store (n' + 1) (root_no t) (sk, root_no st) m2 = Ok (put m3 16 (nat_le 8 (n' + 1)))"
        "within m2 m3 (page_ptr (n' + 1)) 4096" "page_holds m3 (page_ptr (n' + 1)) (InternalPage (root_no t) [(sk, root_no st)])"
        by (rule new_root_pages [OF room s(2)])
      have "io_store (new_root_store y (root_no t) (sk, root_no st)) f2 = (Ok (), f2\<lparr>mm_bytes := put m3 16 (nat_le 8 (n' + 1))\<rparr>)"
        using a(2) m3(1) unfolding a(1) by (simp add: index_file_def io_store_mapped)
      then show "io_ok os (io_store (new_root_store y (root_no t) (sk, root_no st)) f2)
          (\<lambda>_ f3. index_repr f3 T \<and> page_count f3 = n' + 1 \<and> header_kept ?m (mm_bytes f3))"
        using post [OF a(2,3) m3(2,3) refl] by (simp add: io_ok_def)
    qed
    then show ?thesis using s(1) k u by (simp add: root_insert_def T_def)
  qed
qed

lemma btree_insert_ok:
  assumes f: "index_repr f t" and key: "key_ok key" and off: "off < 2 ^ 64" and n: "page_count f < 2 ^ 39"
    and d: "unique_index f \<Longrightarrow> \<not> has_live key (reached key t)"
  shows "io_ok os (bson_btree_insert os key off f)
    (\<lambda>_ f'. index_repr f' (fst (root_insert key off (page_count f) t)) \<and>
       page_count f' = snd (root_insert key off (page_count f) t) \<and> header_kept (mm_bytes f) (mm_bytes f'))"
proof -
  note r = index_reprD [OF f]
  obtain t' us n' where k: "tree_insert key off (page_count f) t = (t', us, n')" by (metis prod_cases3)
  let ?rest = "\<lambda>split. case split of None \<Rightarrow> io_return ()
      | Some s \<Rightarrow> io_bind (allocate_page os) (\<lambda>new_root. io_store (new_root_store new_root (root_no t) s))"
  let ?rec = "insert_recursive os (page_fuel (mm_bytes f)) (root_no t) key off (unique_index f)"
  have "length key = 13" using key by (simp add: key_ok_def BSON_BTREE_KEY_SIZE_def)
  then have "io_ok os (?rec f) (inserted (mm_bytes f) (page_count f) 0 (set (pages t)) (t', us, n'))"
    using insert_recursive_ok(1) [OF r(1,3,5,6) insert_fuel [OF r(2)], of key off "unique_index f" os] r(7) n off k
      key_has_live_entry_reached [OF r(2) key] d by simp
  then have "io_ok os (io_bind ?rec ?rest f)
      (\<lambda>_ f'. index_repr f' (fst (root_insert key off (page_count f) t)) \<and>
         page_count f' = snd (root_insert key off (page_count f) t) \<and> header_kept (mm_bytes f) (mm_bytes f'))"
    by (rule io_ok_bind [of os ?rec f]) (rule root_insert_ok [OF f key n k])
  moreover have "bson_btree_insert os key off f = io_bind ?rec ?rest f"
    using index_root [OF r(2)] read_flags [OF r(1)]
    by (simp add: bson_btree_insert_def Let_def io_load_bind [OF r(1)] unique_index_def)
  ultimately show ?thesis by simp
qed

end
