(* ===== verification/Btree_File.thy ===== *)
theory Btree_File
  imports Btree_Refine
begin

text \<open>
  The index file as a whole (src/c_engine/btree.c, lifecycle): creating, opening, flushing and
  closing it, and the fields of its header. Where an open fails the file keeps its bytes.
\<close>

section \<open>The code\<close>

definition BSON_BTREE_MAGIC :: "byte list" where "BSON_BTREE_MAGIC = [0x43, 0x42, 0x49, 0x31]"
definition BSON_BTREE_VERSION :: nat where "BSON_BTREE_VERSION = 1"
definition BSON_BTREE_HEADER_LEN :: nat where "BSON_BTREE_HEADER_LEN = 256"
definition BSON_BTREE_FIELD_PATH_CAP :: nat where "BSON_BTREE_FIELD_PATH_CAP = 200"

record bson_btree =
  bt_file :: bson_mmap_file
  bt_field_path :: "byte list"

text \<open>The bytes of a C string are those before its first NUL.\<close>

definition c_string :: "byte list \<Rightarrow> byte list" where
  "c_string = takeWhile (\<lambda>b. b \<noteq> 0)"

definition btree_init_header :: "byte list \<Rightarrow> byte \<Rightarrow> bool \<Rightarrow> bool \<Rightarrow> byte list \<Rightarrow> byte list result" where
  "btree_init_header field_path key_type_tag unique descending base =
     (let flags = (if unique then BSON_BTREE_FLAG_UNIQUE else 0) OR
                  (if descending then BSON_BTREE_FLAG_DESCENDING else 0) in
     rbind (poke base 0 (replicate (length base) 0)) (\<lambda>m.
     rbind (poke m 0 BSON_BTREE_MAGIC) (\<lambda>m.
     rbind (write_u16 m OFF_VERSION BSON_BTREE_VERSION) (\<lambda>m.
     rbind (write_u16 m OFF_FLAGS flags) (\<lambda>m.
     rbind (write_u32 m OFF_HEADER_LEN BSON_BTREE_HEADER_LEN) (\<lambda>m.
     rbind (write_u32 m OFF_PAGE_SIZE BSON_BTREE_PAGE_SIZE) (\<lambda>m.
     rbind (write_u64 m OFF_ROOT_PAGE_NO 0) (\<lambda>m.
     rbind (write_u64 m OFF_PAGE_COUNT 0) (\<lambda>m.
     rbind (write_u64 m OFF_FREE_PAGE_HEAD 0) (\<lambda>m.
     rbind (poke m OFF_KEY_TYPE_TAG [key_type_tag]) (\<lambda>m.
     rbind (poke m OFF_FIELD_PATH_LEN [word_of_nat (length field_path)]) (\<lambda>m.
     poke m OFF_FIELD_PATH field_path))))))))))))"

definition empty_root_store :: "nat \<Rightarrow> byte list \<Rightarrow> byte list result" where
  "empty_root_store root m =
     (let root_page = page_ptr root in
     rbind (poke m (root_page + PAGE_OFF_TYPE) [PAGE_TYPE_LEAF]) (\<lambda>m.
     rbind (write_u16 m (root_page + PAGE_OFF_COUNT) 0) (\<lambda>m.
     rbind (write_u64 m (root_page + PAGE_OFF_LINK) 0) (\<lambda>m.
     write_u64 m OFF_ROOT_PAGE_NO root))))"

text \<open>
  \<open>disk\<close> is what the path holds before. The result of the last flush is ignored. The two
  allocations (the handle and \<^verbatim>\<open>strdup\<close>, whose result the code does not check) succeed or fail
  together.
\<close>

definition bson_btree_create ::
    "os_calls \<Rightarrow> byte list \<Rightarrow> byte \<Rightarrow> bool \<Rightarrow> bool \<Rightarrow> byte list \<Rightarrow> bson_btree result" where
  "bson_btree_create os field_path key_type_tag unique descending disk =
     (if length field_path \<ge> BSON_BTREE_FIELD_PATH_CAP then Err BSON_ERR_INDEX_UNSUPPORTED
      else
        rbind (bson_mmap_open os BSON_MMAP_READ_WRITE (BSON_BTREE_PAGE_SIZE * 2) disk) (\<lambda>file.
        if \<not> os_malloc os then Err BSON_ERR_OUT_OF_MEMORY
        else case io_bind (io_store (btree_init_header field_path key_type_tag unique descending)) (\<lambda>_.
                  io_bind (allocate_page os) (\<lambda>root. io_store (empty_root_store root))) file of
            (r, file') \<Rightarrow> rbind r (\<lambda>_.
              Ok \<lparr>bt_file = snd (bson_mmap_flush os file'), bt_field_path = field_path\<rparr>)))"

definition bson_btree_open :: "os_calls \<Rightarrow> byte list \<Rightarrow> bson_btree result" where
  "bson_btree_open os disk =
     rbind (bson_mmap_open os BSON_MMAP_READ_WRITE 0 disk) (\<lambda>file.
     if bson_mmap_size file < BSON_BTREE_HEADER_LEN then Err BSON_ERR_INVALID_FILE_HEADER
     else
       rbind (fst (io_load (\<lambda>base. peek base 0 4) file)) (\<lambda>magic.
       if magic \<noteq> BSON_BTREE_MAGIC then Err BSON_ERR_INVALID_FILE_HEADER
       else rbind (fst (io_load (\<lambda>base. read_u16 base OFF_VERSION) file)) (\<lambda>version.
       if version \<noteq> BSON_BTREE_VERSION then Err BSON_ERR_INVALID_FILE_HEADER
       else if \<not> os_malloc os then Err BSON_ERR_OUT_OF_MEMORY
       else rbind (fst (io_load (\<lambda>base. peek1 base OFF_FIELD_PATH_LEN) file)) (\<lambda>path_len.
         rbind (fst (io_load (\<lambda>base. peek base OFF_FIELD_PATH (unat path_len)) file)) (\<lambda>fp.
         Ok \<lparr>bt_file = file, bt_field_path = fp\<rparr>)))))"

text \<open>Closing gives the bytes left on disk; the flush before it may fail without consequence.\<close>

definition bson_btree_close :: "os_calls \<Rightarrow> bson_btree \<Rightarrow> byte list" where
  "bson_btree_close os tree = bson_mmap_close (snd (bson_mmap_flush os (bt_file tree)))"

definition bson_btree_flush :: "os_calls \<Rightarrow> bson_btree \<Rightarrow> unit result" where
  "bson_btree_flush os tree = fst (bson_mmap_flush os (bt_file tree))"

definition bson_btree_field_path :: "bson_btree \<Rightarrow> byte list" where
  "bson_btree_field_path tree = c_string (bt_field_path tree)"

definition bson_btree_key_type_tag :: "byte list \<Rightarrow> byte result" where
  "bson_btree_key_type_tag m = peek1 m OFF_KEY_TYPE_TAG"

section \<open>The header\<close>

text \<open>What the header of an index file says; a search or an insertion leaves it alone.\<close>

definition index_header :: "byte list \<Rightarrow> byte list \<Rightarrow> byte \<Rightarrow> bool \<Rightarrow> bool \<Rightarrow> bool" where
  "index_header m fp tag unique descending \<longleftrightarrow>
     slice m 0 4 = BSON_BTREE_MAGIC \<and> field m 4 2 = 1 \<and>
     (field m 6 2 AND 2 \<noteq> 0) = unique \<and> (field m 6 2 AND 4 \<noteq> 0) = descending \<and>
     slice m 40 1 = [tag] \<and> slice m 41 1 = [word_of_nat (length fp)] \<and>
     slice m 56 (length fp) = fp \<and> length fp < 200"

lemma index_header_kept:
  assumes "index_header m fp tag u d" "header_kept m m'"
  shows "index_header m' fp tag u d"
proof -
  have a: "slice m' q k = slice m q k" if "q + k \<le> 16" for q k
    using slice_slice [of q k 16 m 0] slice_slice [of q k 16 m' 0] assms(2) that by (simp add: header_kept_def)
  have b: "slice m' (32 + q) k = slice m (32 + q) k" if "q + k \<le> 4064" for q k
    using slice_slice [OF that, of m 32] slice_slice [OF that, of m' 32] assms(2) by (simp add: header_kept_def)
  show ?thesis
    using assms(1) a [of 0 4] a [of 4 2] a [of 6 2] b [of 8 1] b [of 9 1] b [of 24 "length fp"]
    by (simp add: index_header_def field_def)
qed

lemma init_header_reads:
  assumes "4096 \<le> length base" "length fp < 200"
  obtains m where "btree_init_header fp tag unique descending base = Ok m" "length m = length base"
    "index_header m fp tag unique descending" "field m 24 8 = 0"
proof -
  define flags :: nat where "flags = (if unique then 2 else 0) OR (if descending then 4 else 0)"
  have fl: "flags < 2 ^ 16" "(flags AND 2 \<noteq> 0) = unique" "(flags AND 4 \<noteq> 0) = descending"
    by (simp_all add: flags_def)
  have fd: "(if unique then BSON_BTREE_FLAG_UNIQUE else 0) OR (if descending then BSON_BTREE_FLAG_DESCENDING else 0) = flags"
    by (simp add: flags_def BSON_BTREE_FLAG_UNIQUE_def BSON_BTREE_FLAG_DESCENDING_def)
  have mg: "length BSON_BTREE_MAGIC = 4" by (simp add: BSON_BTREE_MAGIC_def)
  define z where "z = (replicate (length base) 0 :: byte list)"
  define m1 where "m1 = put (put (put (put z 0 BSON_BTREE_MAGIC) 4 (nat_le 2 1)) 6 (nat_le 2 flags)) 8 (nat_le 4 256)"
  define m2 where "m2 = put (put (put (put m1 12 (nat_le 4 4096)) 16 (nat_le 8 0)) 24 (nat_le 8 0)) 32 (nat_le 8 0)"
  define m3 where "m3 = put (put (put m2 40 [tag]) 41 [word_of_nat (length fp)]) 56 fp"
  have l: "length m1 = length base" "length m2 = length base" "length m3 = length base"
    using assms mg by (simp_all add: m1_def m2_def m3_def z_def)
  have z: "poke base 0 (replicate (length base) 0) = Ok z" by (simp add: poke_def z_def)
  have "btree_init_header fp tag unique descending base = Ok m3"
    unfolding btree_init_header_def Let_def fd z rbind.simps
    using assms mg l
    by (simp add: write_put btree_off_defs BSON_BTREE_VERSION_def BSON_BTREE_HEADER_LEN_def BSON_BTREE_PAGE_SIZE_def
        z_def m1_def m2_def m3_def)
  moreover have s3: "slice m3 q k = slice m2 q k" if "q + k \<le> 40" for q k
    using that assms l by (simp add: m3_def)
  moreover have s2: "slice m2 q k = slice m1 q k" if "q + k \<le> 12" for q k
    using that assms l by (simp add: m2_def)
  moreover have "index_header m3 fp tag unique descending"
  proof -
    have "slice m1 0 4 = BSON_BTREE_MAGIC" "field m1 4 2 = 1" "field m1 6 2 = flags"
      using assms mg fl(1) by (simp_all add: m1_def z_def)
    moreover have "slice m3 40 1 = [tag]" "slice m3 41 1 = [word_of_nat (length fp)]" "slice m3 56 (length fp) = fp"
      using assms l by (simp_all add: m3_def)
    ultimately show ?thesis
      using s3 s2 fl(2,3) assms(2) by (simp add: index_header_def field_def)
  qed
  moreover have "field m3 24 8 = 0"
  proof -
    have "field m2 24 8 = 0" using assms l by (simp add: m2_def)
    then show ?thesis using s3 by (simp add: field_def)
  qed
  ultimately show thesis using that l by blast
qed

section \<open>Creating and opening\<close>

lemma empty_root_page:
  assumes "8192 \<le> length m" "length m < 2 ^ 61" "field m 24 8 = 1"
  obtains m' where "empty_root_store 1 m = Ok m'" "length m' = length m" "index_image m' (Lf 1 [])" "field m' 24 8 = 1"
    "header_kept m m'"
proof -
  define m' where "m' = put (put (put (put m 4096 [PAGE_TYPE_LEAF]) 4098 (nat_le 2 0)) 4104 (nat_le 8 0)) 16 (nat_le 8 1)"
  have "empty_root_store 1 m = Ok m'"
    using assms by (simp add: empty_root_store_def page_ptr_def btree_page_defs write_put OFF_ROOT_PAGE_NO_def m'_def)
  moreover have "page_holds m' (page_ptr 1) (LeafPage 0 [])"
    using assms by (simp add: m'_def page_ptr_def BSON_BTREE_PAGE_SIZE_def nth_put)
  then have "index_image m' (Lf 1 [])"
    using assms by (simp add: index_image_def m'_def tree_ok_def sorted_entries_def entries_def btree_off_defs del: page_holds.simps)
  moreover have "header_kept m m'" using assms by (simp add: header_kept_def m'_def)
  ultimately show thesis using that [of m'] assms by (simp add: m'_def)
qed

definition index_holds :: "bson_btree \<Rightarrow> byte list \<Rightarrow> byte \<Rightarrow> bool \<Rightarrow> bool \<Rightarrow> btree \<Rightarrow> bool" where
  "index_holds b fp tag unique descending t \<longleftrightarrow>
     index_repr (bt_file b) t \<and> index_header (mm_bytes (bt_file b)) fp tag unique descending \<and>
     c_string (bt_field_path b) = c_string fp"

lemma btree_create_ok:
  assumes os: "os_all_succeed os" and fp: "length fp < 200" and disk: "length disk < 2 ^ 61"
  obtains b where "bson_btree_create os fp tag unique descending disk = Ok b"
    "index_holds b fp tag unique descending (Lf 1 [])" "page_count (bt_file b) = 1"
proof -
  define size where "size = max 8192 (length disk)"
  obtain f where f: "bson_mmap_open os BSON_MMAP_READ_WRITE 8192 disk = Ok f" "mmap_inv f" "mm_base f"
    "mm_mode f = BSON_MMAP_READ_WRITE" "length (mm_bytes f) = size"
  proof -
    let ?f = "\<lparr>mm_mode = BSON_MMAP_READ_WRITE, mm_base = True, mm_size = size,
      mm_bytes = (if 8192 > length disk then set_file_size 8192 disk else disk)\<rparr>"
    have "bson_mmap_open os BSON_MMAP_READ_WRITE 8192 disk = Ok ?f"
      using os disk by (auto simp: bson_mmap_open_def Let_def map_current_fd_def os_all_succeed_def ftruncate_ok_def size_def)
    then show thesis by (rule that) (auto simp: mmap_inv_def size_def)
  qed
  obtain m where m: "btree_init_header fp tag unique descending (mm_bytes f) = Ok m" "length m = size"
    "index_header m fp tag unique descending" "field m 24 8 = 0"
  proof (rule init_header_reads [of "mm_bytes f" fp tag unique descending])
    show "4096 \<le> length (mm_bytes f)" using f(5) by (simp add: size_def)
  qed (use f(5) fp in auto)
  define f1 where "f1 = f\<lparr>mm_bytes := m\<rparr>"
  have st1: "io_store (btree_init_header fp tag unique descending) f = (Ok (), f1)"
    using f m(1) by (simp add: io_store_mapped f1_def)
  have f1: "index_file f1 m 0"
    using f m disk by (auto simp: index_file_def f1_def mmap_inv_def size_def OFF_PAGE_COUNT_def)
  show thesis
  proof (rule allocate_page_cases [OF f1, of os])
    fix f2 assume "\<not> os_all_succeed os"
    then show thesis using os by simp
  next
    fix f2 m2 assume a: "allocate_page os f1 = (Ok (0 + 1), f2)" "index_file f2 m2 (0 + 1)" "grown m 0 m2 {}"
    obtain m3 where m3: "empty_root_store 1 m2 = Ok m3" "length m3 = length m2" "index_image m3 (Lf 1 [])" "field m3 24 8 = 1"
      "header_kept m2 m3"
      using empty_root_page [of m2] a(2) by (auto simp: index_file_def OFF_PAGE_COUNT_def)
    have "header_kept m m3"
      using header_kept_trans [OF same_header_kept [of m m2] m3(5)] a(3) by (simp add: grown_def)
    then have h: "index_header m3 fp tag unique descending" using index_header_kept [OF m(3)] by blast
    define b where "b = \<lparr>bt_file = f2\<lparr>mm_bytes := m3\<rparr>, bt_field_path = fp\<rparr>"
    have "io_store (empty_root_store 1) f2 = (Ok (), f2\<lparr>mm_bytes := m3\<rparr>)"
      using a(2) m3(1) by (simp add: index_file_def io_store_mapped)
    then have "bson_btree_create os fp tag unique descending disk = Ok b"
      using f(1) st1 a(1) os fp
      by (simp add: bson_btree_create_def BSON_BTREE_FIELD_PATH_CAP_def BSON_BTREE_PAGE_SIZE_def os_all_succeed_def
          io_bind_def mmap_flush_unchanged b_def)
    moreover have "index_repr (bt_file b) (Lf 1 [])" "page_count (bt_file b) = 1"
      using a(2) m3 by (auto simp: index_repr_def page_count_def index_file_def mmap_inv_def b_def OFF_PAGE_COUNT_def)
    ultimately show thesis using h by (intro that [of b]) (simp_all add: index_holds_def b_def)
  qed simp
qed

text \<open>Opening a file that an index has left on disk.\<close>

lemma btree_open_ok:
  assumes os: "os_all_succeed os" and b: "index_holds b fp tag unique descending t"
  obtains b' where "bson_btree_open os (bson_btree_close os b) = Ok b'" "index_holds b' fp tag unique descending t"
    "bt_file b' = bt_file b"
proof -
  define m where "m = mm_bytes (bt_file b)"
  have f: "mmap_inv (bt_file b)" "mm_base (bt_file b)" "mm_mode (bt_file b) = BSON_MMAP_READ_WRITE" "4096 \<le> length m"
    and h: "index_header m fp tag unique descending" and r: "index_repr (bt_file b) t"
    using b by (auto simp: index_holds_def index_repr_def index_file_def m_def)
  have disk: "bson_btree_close os b = m" by (simp add: bson_btree_close_def bson_mmap_close_def mmap_flush_unchanged m_def)
  have ne: "m \<noteq> []" using f(4) by auto
  have size: "mm_size (bt_file b) = length m" using f by (simp add: mmap_inv_def m_def)
  have open': "bson_mmap_open os BSON_MMAP_READ_WRITE 0 m = Ok (bt_file b)"
    using os f ne size unfolding m_def
    by (simp add: bson_mmap_open_def Let_def map_current_fd_def os_all_succeed_def)
  have load: "io_load g (bt_file b) = (g m, bt_file b)" for g :: "byte list \<Rightarrow> 'a result"
    using f by (simp add: io_load_mapped m_def)
  have hd: "slice m 0 4 = BSON_BTREE_MAGIC" "field m 4 2 = 1" "slice m 56 (length fp) = fp" "length fp < 200"
    "slice m 41 1 = [word_of_nat (length fp)]" using h by (simp_all add: index_header_def)
  have "m ! 41 = word_of_nat (length fp)" using nth_slice [of 0 1 41 m] f(4) hd(5) by simp
  then have "peek1 m OFF_FIELD_PATH_LEN = Ok (word_of_nat (length fp))" using f(4) by (simp add: OFF_FIELD_PATH_LEN_def)
  moreover have "unat (word_of_nat (length fp) :: byte) = length fp"
    using hd(4) by (simp add: unat_of_nat)
  moreover have "peek m 0 4 = Ok BSON_BTREE_MAGIC" "peek m OFF_FIELD_PATH (length fp) = Ok fp"
    using hd f(4) by (simp_all add: peek_slice OFF_FIELD_PATH_def del: peek_Ok)
  moreover have "read_u16 m OFF_VERSION = Ok BSON_BTREE_VERSION"
    using hd f(4) by (simp add: read_u16_field OFF_VERSION_def BSON_BTREE_VERSION_def)
  ultimately have "bson_btree_open os m = Ok \<lparr>bt_file = bt_file b, bt_field_path = fp\<rparr>"
    using open' f(4) size os
    by (simp add: load bson_btree_open_def bson_mmap_size_def BSON_BTREE_HEADER_LEN_def os_all_succeed_def)
  then show thesis
    using b by (intro that [of "\<lparr>bt_file = bt_file b, bt_field_path = fp\<rparr>"]) (simp_all add: index_holds_def disk)
qed

end
