(* ===== verification/Index_Handle.thy ===== *)
theory Index_Handle
  imports Btree_File Collection_Handle
begin

text \<open>
  The Python handle on an index file, \<^verbatim>\<open>IndexHandleObject\<close> of
  src/python_bindings/_storage_core.c, and the contract of a unique index: it is a finite map
  from keys to record offsets (locale \<open>unique_map\<close>, interpreted on the handle's methods).
\<close>

section \<open>The handle and its methods\<close>

datatype index_handle = OpenIndex bson_btree | ClosedIndex "byte list"

text \<open>Run an operation on the file of an open handle (\<^verbatim>\<open>CHECK_TREE_OPEN\<close>).\<close>

definition on_index :: "'a io \<Rightarrow> index_handle \<Rightarrow> 'a py \<times> index_handle" where
  "on_index op h = (case h of
     ClosedIndex disk \<Rightarrow> (PyRaise ValueError, h)
   | OpenIndex b \<Rightarrow> (case op (bt_file b) of (r, f') \<Rightarrow> (to_py r, OpenIndex (b\<lparr>bt_file := f'\<rparr>))))"

text \<open>The methods that take a key check the handle first, then the length of the key.\<close>

definition with_key :: "key \<Rightarrow> 'a io \<Rightarrow> index_handle \<Rightarrow> 'a py \<times> index_handle" where
  "with_key key op h = (case h of
     ClosedIndex disk \<Rightarrow> (PyRaise ValueError, h)
   | OpenIndex b \<Rightarrow> if length key \<noteq> BSON_BTREE_KEY_SIZE then (PyRaise ValueError, h) else on_index op h)"

text \<open>The format \<^verbatim>\<open>K\<close> takes an integer modulo \<open>2 ^ 64\<close>.\<close>

definition py_u64 :: "int \<Rightarrow> nat" where
  "py_u64 i = nat (i mod 2 ^ 64)"

definition IndexHandle_close :: "os_calls \<Rightarrow> index_handle \<Rightarrow> unit py \<times> index_handle" where
  "IndexHandle_close os h = (case h of
     ClosedIndex disk \<Rightarrow> (PyOk (), h)
   | OpenIndex b \<Rightarrow> (PyOk (), ClosedIndex (bson_btree_close os b)))"

definition IndexHandle_flush :: "os_calls \<Rightarrow> index_handle \<Rightarrow> unit py \<times> index_handle" where
  "IndexHandle_flush os h = (case h of
     ClosedIndex disk \<Rightarrow> (PyRaise ValueError, h)
   | OpenIndex b \<Rightarrow> (to_py (bson_btree_flush os b), h))"

definition IndexHandle_insert :: "os_calls \<Rightarrow> key \<Rightarrow> int \<Rightarrow> index_handle \<Rightarrow> unit py \<times> index_handle" where
  "IndexHandle_insert os key offset = with_key key (bson_btree_insert os key (py_u64 offset))"

definition offset_list_to_pylist :: "bson_btree_offset_list \<Rightarrow> nat list" where
  "offset_list_to_pylist out = ol_data out"

definition IndexHandle_lookup :: "(nat \<Rightarrow> bool) \<Rightarrow> key \<Rightarrow> index_handle \<Rightarrow> nat list py \<times> index_handle" where
  "IndexHandle_lookup alloc key = with_key key
     (io_load (\<lambda>m. rbind (bson_btree_lookup alloc key bson_btree_offset_list_init m) (\<lambda>out.
        Ok (offset_list_to_pylist out))))"

definition bad_bound :: "key option \<Rightarrow> bool" where
  "bad_bound b \<longleftrightarrow> (case b of None \<Rightarrow> False | Some k \<Rightarrow> length k \<noteq> BSON_BTREE_KEY_SIZE)"

definition IndexHandle_range ::
    "(nat \<Rightarrow> bool) \<Rightarrow> key option \<Rightarrow> bool \<Rightarrow> key option \<Rightarrow> bool \<Rightarrow> index_handle \<Rightarrow> nat list py \<times> index_handle" where
  "IndexHandle_range alloc low low_incl high high_incl h = (case h of
     ClosedIndex disk \<Rightarrow> (PyRaise ValueError, h)
   | OpenIndex b \<Rightarrow>
       if bad_bound low then (PyRaise ValueError, h)
       else if bad_bound high then (PyRaise ValueError, h)
       else on_index (io_load (\<lambda>m.
         rbind (bson_btree_range alloc low low_incl high high_incl bson_btree_offset_list_init m) (\<lambda>out.
         Ok (offset_list_to_pylist out)))) h)"

definition IndexHandle_delete_entry :: "key \<Rightarrow> int \<Rightarrow> index_handle \<Rightarrow> unit py \<times> index_handle" where
  "IndexHandle_delete_entry key offset = with_key key (io_store (bson_btree_delete key (py_u64 offset)))"

definition IndexHandle_get_field_path :: "index_handle \<Rightarrow> byte list py \<times> index_handle" where
  "IndexHandle_get_field_path h = (case h of
     ClosedIndex disk \<Rightarrow> (PyRaise ValueError, h)
   | OpenIndex b \<Rightarrow> (PyOk (bson_btree_field_path b), h))"

definition IndexHandle_get_unique :: "index_handle \<Rightarrow> bool py \<times> index_handle" where
  "IndexHandle_get_unique = on_index (io_load bson_btree_unique)"

definition IndexHandle_get_descending :: "index_handle \<Rightarrow> bool py \<times> index_handle" where
  "IndexHandle_get_descending = on_index (io_load bson_btree_descending)"

text \<open>The tag comes as an unsigned int and is cut to a byte.\<close>

definition py_create_index_file ::
    "os_calls \<Rightarrow> byte list \<Rightarrow> nat \<Rightarrow> bool \<Rightarrow> bool \<Rightarrow> byte list \<Rightarrow> index_handle py" where
  "py_create_index_file os field_path key_type_tag unique descending disk =
     to_py (rbind (bson_btree_create os field_path (word_of_nat key_type_tag) unique descending disk) (\<lambda>b. Ok (OpenIndex b)))"

definition py_open_index_file :: "os_calls \<Rightarrow> byte list \<Rightarrow> index_handle py" where
  "py_open_index_file os disk = to_py (rbind (bson_btree_open os disk) (\<lambda>b. Ok (OpenIndex b)))"

section \<open>The methods on a handle that holds a tree\<close>

definition holds_tree :: "index_handle \<Rightarrow> btree \<Rightarrow> bool" where
  "holds_tree h t \<longleftrightarrow> (\<exists>b. h = OpenIndex b \<and> index_repr (bt_file b) t)"

definition handle_unique :: "index_handle \<Rightarrow> bool" where
  "handle_unique h \<longleftrightarrow> (case h of OpenIndex b \<Rightarrow> unique_index (bt_file b) | ClosedIndex _ \<Rightarrow> False)"

definition handle_pages :: "index_handle \<Rightarrow> nat" where
  "handle_pages h = (case h of OpenIndex b \<Rightarrow> page_count (bt_file b) | ClosedIndex _ \<Rightarrow> 0)"

lemma key_ok_length: "key_ok key \<Longrightarrow> length key = BSON_BTREE_KEY_SIZE"
  by (simp add: key_ok_def)

lemma py_u64_small [simp]: "off < 2 ^ 64 \<Longrightarrow> py_u64 (int off) = off"
  by (simp add: py_u64_def nat_mod_distrib)

lemma py_u64_bound: "py_u64 i < 2 ^ 64"
  by (simp add: py_u64_def nat_less_iff)

text \<open>A search gives what it collects, or a memory error when an allocation was refused.\<close>

definition found :: "(nat \<Rightarrow> bool) \<Rightarrow> nat list \<Rightarrow> nat list py \<times> index_handle \<Rightarrow> index_handle \<Rightarrow> bool" where
  "found alloc offs r h \<longleftrightarrow> r = (PyOk offs, h) \<or> r = (PyRaise MemoryError, h) \<and> (\<exists>n. \<not> alloc n)"

lemma on_index_search:
  assumes "index_repr (bt_file b) t" "ol_result alloc offs (g (mm_bytes (bt_file b)))"
  shows "found alloc offs (on_index (io_load (\<lambda>m. rbind (g m) (\<lambda>out. Ok (offset_list_to_pylist out)))) (OpenIndex b)) (OpenIndex b)"
proof -
  have "index_file (bt_file b) (mm_bytes (bt_file b)) (page_count (bt_file b))" using index_reprD(1) [OF assms(1)] .
  then show ?thesis
    using assms(2)
    by (cases "g (mm_bytes (bt_file b))")
      (auto simp: on_index_def index_file_load ol_result_def found_def offset_list_to_pylist_def)
qed

lemma lookup_tree:
  assumes "holds_tree h t" "key_ok key"
  shows "found alloc (collected (\<lambda>k. bson_btree_key_cmp k key = 0) (reached key t)) (IndexHandle_lookup alloc key h) h"
proof -
  obtain b where b: "h = OpenIndex b" "index_repr (bt_file b) t" using assms(1) by (auto simp: holds_tree_def)
  show ?thesis
    using on_index_search [OF b(2), of alloc _ "bson_btree_lookup alloc key bson_btree_offset_list_init"]
      lookup_reached [OF index_reprD(2) [OF b(2)] assms(2), of bson_btree_offset_list_init alloc] key_ok_length [OF assms(2)]
    by (simp add: IndexHandle_lookup_def with_key_def b(1))
qed

definition range_entries :: "key option \<Rightarrow> btree \<Rightarrow> leaf_entry list" where
  "range_entries low t = (case low of None \<Rightarrow> entries t | Some lo \<Rightarrow> reached lo t)"

lemma range_tree:
  assumes "holds_tree h t" "opt_key_ok low" "opt_key_ok high"
  shows "found alloc (collected (in_range low li high hi) (range_entries low t)) (IndexHandle_range alloc low li high hi h) h"
proof -
  obtain b where b: "h = OpenIndex b" "index_repr (bt_file b) t" using assms(1) by (auto simp: holds_tree_def)
  have nb: "\<not> bad_bound low" "\<not> bad_bound high"
    using assms(2,3) by (auto simp: bad_bound_def opt_key_ok_def key_ok_def split: option.splits)
  note im = index_reprD(2) [OF b(2)]
  have "ol_result alloc (collected (in_range low li high hi) (range_entries low t))
      (bson_btree_range alloc low li high hi bson_btree_offset_list_init (mm_bytes (bt_file b)))"
  proof (cases low)
    case None
    then show ?thesis
      using range_all [OF im assms(3), of bson_btree_offset_list_init alloc li hi] by (simp add: range_entries_def)
  next
    case (Some lo)
    then have "key_ok lo" using assms(2) by (simp add: opt_key_ok_def)
    then show ?thesis
      using range_reached [OF im _ assms(3), of lo bson_btree_offset_list_init alloc li hi] Some by (simp add: range_entries_def)
  qed
  then show ?thesis
    using on_index_search [OF b(2), of alloc _ "bson_btree_range alloc low li high hi bson_btree_offset_list_init"] nb
    by (simp add: IndexHandle_range_def b(1))
qed

lemma delete_tree:
  assumes "holds_tree h t" "key_ok key" "entries t = xs @ reached key t"
  obtains h' t' where "IndexHandle_delete_entry key off h = (PyOk (), h')" "holds_tree h' t'"
    "entries t' = xs @ kill_first key (py_u64 off) (reached key t)" "handle_unique h' = handle_unique h"
    "handle_pages h' = handle_pages h" "t' = t \<or> (\<exists>no es. t' = set_leaf no es t)"
proof -
  obtain b where b: "h = OpenIndex b" "index_repr (bt_file b) t" using assms(1) by (auto simp: holds_tree_def)
  note r = index_reprD [OF b(2)]
  obtain m' t' where d: "bson_btree_delete key (py_u64 off) (mm_bytes (bt_file b)) = Ok m'" "index_image m' t'"
    "entries t' = xs @ kill_first key (py_u64 off) (reached key t)" "length m' = length (mm_bytes (bt_file b))"
    "slice m' 0 4096 = slice (mm_bytes (bt_file b)) 0 4096"
    "t' = t \<or> (\<exists>no es. t' = set_leaf no es t)"
    using index_delete [OF r(2) assms(3)] .
  have f: "field m' q k = field (mm_bytes (bt_file b)) q k" if "q + k \<le> 4096" for q k
    using slice_slice [of q k 4096 m' 0] slice_slice [of q k 4096 "mm_bytes (bt_file b)" 0] d(5) that by (simp add: field_def)
  have cnt: "field m' OFF_PAGE_COUNT 8 = page_count (bt_file b)" using f [of 24 8] by (simp add: page_count_def OFF_PAGE_COUNT_def)
  define b' where "b' = b\<lparr>bt_file := (bt_file b)\<lparr>mm_bytes := m'\<rparr>\<rparr>"
  have le: "(page_count (bt_file b) + 1) * 4096 \<le> length (mm_bytes (bt_file b))" using r(1) by (simp add: index_file_def)
  note st = index_file_store [of _ _ _ "bson_btree_delete key (py_u64 off)", OF r(1) d(1,4) cnt le]
  have "index_repr (bt_file b') t'"
    using st(2) d(2) cnt by (simp add: index_repr_def b'_def)
  then have "holds_tree (OpenIndex b') t'" by (simp add: holds_tree_def)
  moreover have "IndexHandle_delete_entry key off h = (PyOk (), OpenIndex b')"
    using st(1) key_ok_length [OF assms(2)]
    by (simp add: IndexHandle_delete_entry_def with_key_def on_index_def b(1) b'_def)
  moreover have "handle_unique (OpenIndex b') = handle_unique h"
    using f [of 6 2] by (simp add: handle_unique_def unique_index_def b(1) b'_def)
  moreover have "handle_pages (OpenIndex b') = handle_pages h"
    using cnt by (simp add: handle_pages_def page_count_def b(1) b'_def)
  ultimately show thesis using d(3,6) that by blast
qed

lemma insert_tree:
  assumes h: "holds_tree h t" and key: "key_ok key" and n: "handle_pages h < 2 ^ 39"
    and d: "handle_unique h \<Longrightarrow> \<not> has_live key (reached key t)"
  obtains (ok) h' where "IndexHandle_insert os key off h = (PyOk (), h')"
      "holds_tree h' (fst (root_insert key (py_u64 off) (handle_pages h) t))" "handle_unique h' = handle_unique h"
      "handle_pages h' = snd (root_insert key (py_u64 off) (handle_pages h) t)"
  | (io) h' where "IndexHandle_insert os key off h = (PyRaise OSError, h')" "\<not> os_all_succeed os"
proof -
  obtain b where b: "h = OpenIndex b" "index_repr (bt_file b) t" using h by (auto simp: holds_tree_def)
  have "io_ok os (bson_btree_insert os key (py_u64 off) (bt_file b))
    (\<lambda>_ f'. index_repr f' (fst (root_insert key (py_u64 off) (page_count (bt_file b)) t)) \<and>
       page_count f' = snd (root_insert key (py_u64 off) (page_count (bt_file b)) t) \<and> header_kept (mm_bytes (bt_file b)) (mm_bytes f'))"
    using n d b by (intro btree_insert_ok key py_u64_bound) (auto simp: handle_pages_def handle_unique_def)
  then consider f' where "bson_btree_insert os key (py_u64 off) (bt_file b) = (Err BSON_ERR_IO, f')" "\<not> os_all_succeed os"
    | f' where "bson_btree_insert os key (py_u64 off) (bt_file b) = (Ok (), f')"
      "index_repr f' (fst (root_insert key (py_u64 off) (page_count (bt_file b)) t))"
      "page_count f' = snd (root_insert key (py_u64 off) (page_count (bt_file b)) t)"
      "header_kept (mm_bytes (bt_file b)) (mm_bytes f')"
    by (auto simp: io_ok_def)
  then show thesis
  proof cases
    case 1
    then show thesis
      using key_ok_length [OF key]
      by (intro io [of "OpenIndex (b\<lparr>bt_file := f'\<rparr>)"])
        (simp_all add: IndexHandle_insert_def with_key_def on_index_def b(1))
  next
    case 2
    then show thesis
      using key_ok_length [OF key] header_kept_flags [OF 2(4)]
      by (intro ok [of "OpenIndex (b\<lparr>bt_file := f'\<rparr>)"])
        (simp_all add: IndexHandle_insert_def with_key_def on_index_def b(1) holds_tree_def handle_pages_def handle_unique_def)
  qed
qed

lemma insert_tree_duplicate:
  assumes "holds_tree h t" "key_ok key" "handle_unique h" "has_live key (reached key t)"
  shows "IndexHandle_insert os key off h = (PyRaise DuplicateKeyError, h)"
proof -
  obtain b where b: "h = OpenIndex b" "index_repr (bt_file b) t" using assms(1) by (auto simp: holds_tree_def)
  have "bson_btree_insert os key (py_u64 off) (bt_file b) = (Err BSON_ERR_DUPLICATE_KEY, bt_file b)"
    using btree_insert_duplicate [OF b(2) assms(2) _ assms(4)] assms(3) b(1) by (simp add: handle_unique_def)
  then show ?thesis
    using key_ok_length [OF assms(2)] by (simp add: IndexHandle_insert_def with_key_def on_index_def b(1))
qed

section \<open>A unique index as a finite map\<close>

text \<open>
  The map of an index takes the rank of a key to the offset of its live entry. \<open>used\<close> is the set of
  all offsets that were ever inserted: a client inserts the offset of a new record, which the log
  has never handed out before.
\<close>

type_synonym index_map = "int list \<rightharpoonup> nat"

definition index_map :: "btree \<Rightarrow> index_map" where
  "index_map t = map_of (map entry_pair (filter live_entry (entries t)))"

definition offsets_of :: "index_map \<Rightarrow> key \<Rightarrow> nat list" where
  "offsets_of M k = (case M (key_rank k) of None \<Rightarrow> [] | Some off \<Rightarrow> [off])"

locale unique_map =
  fixes holds :: "'s \<Rightarrow> index_map \<Rightarrow> nat set \<Rightarrow> bool"
    and granted :: bool
    and insert_op :: "key \<Rightarrow> int \<Rightarrow> 's \<Rightarrow> unit py \<times> 's"
    and lookup_op :: "key \<Rightarrow> 's \<Rightarrow> nat list py \<times> 's"
    and delete_op :: "key \<Rightarrow> int \<Rightarrow> 's \<Rightarrow> unit py \<times> 's"
  assumes insert_law: "holds s M used \<Longrightarrow> key_ok k \<Longrightarrow> off \<notin> used \<Longrightarrow> off < 2 ^ 64 \<Longrightarrow> card used < 2 ^ 37 \<Longrightarrow>
      M (key_rank k) = None \<Longrightarrow>
      (\<exists>s'. insert_op k (int off) s = (PyOk (), s') \<and> holds s' (M(key_rank k \<mapsto> off)) (insert off used)) \<or>
      \<not> granted \<and> fst (insert_op k (int off) s) = PyRaise OSError"
    and duplicate_law: "holds s M used \<Longrightarrow> key_ok k \<Longrightarrow> M (key_rank k) \<noteq> None \<Longrightarrow>
      insert_op k (int off) s = (PyRaise DuplicateKeyError, s)"
    and lookup_law: "holds s M used \<Longrightarrow> key_ok k \<Longrightarrow>
      lookup_op k s = (PyOk (offsets_of M k), s) \<or> \<not> granted \<and> lookup_op k s = (PyRaise MemoryError, s)"
    and delete_law: "holds s M used \<Longrightarrow> key_ok k \<Longrightarrow> off < 2 ^ 64 \<Longrightarrow>
      \<exists>s'. delete_op k (int off) s = (PyOk (), s') \<and>
        holds s' (if M (key_rank k) = Some off then M(key_rank k := None) else M) used"

text \<open>Sequences of operations, with their replies; \<open>None\<close> is a call that raises another error.\<close>

datatype index_op = Insert key nat | Delete key nat | Lookup key

datatype index_reply = Done | Duplicate | Offsets "nat list"

fun index_spec :: "index_op list \<Rightarrow> index_map \<Rightarrow> index_reply list" where
  "index_spec [] M = []"
| "index_spec (Insert k off # ops) M =
     (if M (key_rank k) = None then Done # index_spec ops (M(key_rank k \<mapsto> off)) else Duplicate # index_spec ops M)"
| "index_spec (Delete k off # ops) M =
     Done # index_spec ops (if M (key_rank k) = Some off then M(key_rank k := None) else M)"
| "index_spec (Lookup k # ops) M = Offsets (offsets_of M k) # index_spec ops M"

fun op_key :: "index_op \<Rightarrow> key" where
  "op_key (Insert k off) = k"
| "op_key (Delete k off) = k"
| "op_key (Lookup k) = k"

fun new_offsets :: "index_op list \<Rightarrow> nat list" where
  "new_offsets [] = []"
| "new_offsets (Insert k off # ops) = off # new_offsets ops"
| "new_offsets (_ # ops) = new_offsets ops"

fun op_offset_ok :: "index_op \<Rightarrow> bool" where
  "op_offset_ok (Insert k off) \<longleftrightarrow> off < 2 ^ 64"
| "op_offset_ok (Delete k off) \<longleftrightarrow> off < 2 ^ 64"
| "op_offset_ok (Lookup k) \<longleftrightarrow> True"

fun index_run ::
    "(key \<Rightarrow> int \<Rightarrow> 's \<Rightarrow> unit py \<times> 's) \<Rightarrow> (key \<Rightarrow> 's \<Rightarrow> nat list py \<times> 's) \<Rightarrow> (key \<Rightarrow> int \<Rightarrow> 's \<Rightarrow> unit py \<times> 's) \<Rightarrow>
     index_op list \<Rightarrow> 's \<Rightarrow> index_reply list option" where
  "index_run ins look del [] s = Some []"
| "index_run ins look del (Insert k off # ops) s = (case ins k (int off) s of
       (PyOk _, s') \<Rightarrow> map_option (Cons Done) (index_run ins look del ops s')
     | (PyRaise DuplicateKeyError, s') \<Rightarrow> map_option (Cons Duplicate) (index_run ins look del ops s')
     | _ \<Rightarrow> None)"
| "index_run ins look del (Delete k off # ops) s = (case del k (int off) s of
       (PyOk _, s') \<Rightarrow> map_option (Cons Done) (index_run ins look del ops s')
     | _ \<Rightarrow> None)"
| "index_run ins look del (Lookup k # ops) s = (case look k s of
       (PyOk offs, s') \<Rightarrow> map_option (Cons (Offsets offs)) (index_run ins look del ops s')
     | _ \<Rightarrow> None)"

definition ops_ok :: "index_op list \<Rightarrow> nat set \<Rightarrow> bool" where
  "ops_ok ops used \<longleftrightarrow> (\<forall>p \<in> set ops. key_ok (op_key p) \<and> op_offset_ok p) \<and>
     distinct (new_offsets ops) \<and> set (new_offsets ops) \<inter> used = {} \<and> card used + length ops \<le> 2 ^ 37"

context unique_map begin

lemma run_spec:
  assumes "granted" "holds s M used" "ops_ok ops used"
  shows "index_run insert_op lookup_op delete_op ops s = Some (index_spec ops M)"
  using assms(2,3)
proof (induction ops arbitrary: s M used)
  case Nil
  then show ?case by simp
next
  case (Cons p ops)
  have tl: "ops_ok ops used" using Cons.prems(2) by (cases p) (auto simp: ops_ok_def)
  have k: "key_ok (op_key p)" "op_offset_ok p" using Cons.prems(2) by (simp_all add: ops_ok_def)
  show ?case
  proof (cases p)
    case (Insert k off)
    show ?thesis
    proof (cases "M (key_rank k) = None")
      case True
      have "card used < 2 ^ 37" using Cons.prems(2) by (simp add: ops_ok_def)
      moreover have "off \<notin> used" using Cons.prems(2) Insert by (simp add: ops_ok_def)
      ultimately obtain s' where s': "insert_op k (int off) s = (PyOk (), s')" "holds s' (M(key_rank k \<mapsto> off)) (insert off used)"
        using insert_law [OF Cons.prems(1), of k off] k Insert True assms(1) by auto
      have "card (insert off used) \<le> Suc (card used)" by (cases "finite used") (simp_all add: card_insert_if)
      then have "ops_ok ops (insert off used)" using Cons.prems(2) Insert by (auto simp: ops_ok_def)
      then show ?thesis using Cons.IH [OF s'(2)] s'(1) Insert True by (simp add: fun_upd_def)
    next
      case False
      then show ?thesis using duplicate_law [OF Cons.prems(1), of k off] k Insert Cons.IH [OF Cons.prems(1) tl] by simp
    qed
  next
    case (Delete k off)
    obtain s' where "delete_op k (int off) s = (PyOk (), s')"
      "holds s' (if M (key_rank k) = Some off then M(key_rank k := None) else M) used"
      using delete_law [OF Cons.prems(1), of k off] k Delete by auto
    then show ?thesis using Cons.IH [OF _ tl] Delete by simp
  next
    case (Lookup k)
    then show ?thesis
      using lookup_law [OF Cons.prems(1), of k] k assms(1) Cons.IH [OF Cons.prems(1) tl] by simp
  qed
qed

end

section \<open>The index file keeps the contract\<close>

definition holds_map :: "index_handle \<Rightarrow> index_map \<Rightarrow> nat set \<Rightarrow> bool" where
  "holds_map h M used \<longleftrightarrow> (\<exists>t. holds_tree h t \<and> handle_unique h \<and> last_live (entries t) \<and> nodes_ok t \<and>
     set (pages t) = {1..handle_pages h} \<and> distinct (map entry_off (entries t)) \<and>
     used = set (map entry_off (entries t)) \<and> M = index_map t)"

lemma holds_tree_ok:
  assumes "holds_tree h t"
  shows "tree_ok t" "sorted_entries (entries t)" "distinct (pages t)"
  using assms index_reprD by (auto simp: holds_tree_def)

lemma live_distinct:
  "last_live es \<Longrightarrow> distinct (map entry_rank (filter live_entry es))"
  by (induction es) auto

lemma map_of_live:
  "map_of (map entry_pair es) r = map_option entry_off (find (\<lambda>e. entry_rank e = r) es)"
  by (induction es) (auto simp: entry_pair_def)

lemma has_live_map:
  assumes "sorted_entries (entries t)" "key_ok key"
  shows "has_live key (entries t) \<longleftrightarrow> index_map t (key_rank key) \<noteq> None"
proof -
  have eq: "bson_btree_key_cmp (fst e) key = 0 \<longleftrightarrow> entry_rank e = key_rank key" if "e \<in> set (entries t)" for e
    using assms that index_key.cmp_eq [of "fst e" key] by (auto simp: sorted_entries_def entry_rank_def)
  have "has_live key (entries t) \<longleftrightarrow> (\<exists>e \<in> set (filter live_entry (entries t)). entry_rank e = key_rank key)"
    unfolding has_live_def set_filter using eq by blast
  also have "\<dots> \<longleftrightarrow> key_rank key \<in> fst ` set (map entry_pair (filter live_entry (entries t)))"
    unfolding set_map image_image entry_pair_def fst_conv image_iff eq_commute [of "key_rank key"] ..
  also have "\<dots> \<longleftrightarrow> index_map t (key_rank key) \<noteq> None"
    by (simp only: index_map_def map_of_eq_None_iff not_not)
  finally show ?thesis .
qed

lemma collected_map:
  assumes so: "sorted_entries (entries t)" and ll: "last_live (entries t)" and key: "key_ok key"
  shows "collected (\<lambda>k. bson_btree_key_cmp k key = 0) (entries t) = offsets_of (index_map t) key"
proof -
  have eq: "bson_btree_key_cmp (fst e) key = 0 \<longleftrightarrow> entry_rank e = key_rank key" if "e \<in> set (entries t)" for e
    using so key that index_key.cmp_eq [of "fst e" key] by (auto simp: sorted_entries_def entry_rank_def)
  have "map entry_off (filter (\<lambda>e. entry_rank e = r) es) =
      (case map_of (map entry_pair es) r of None \<Rightarrow> [] | Some off \<Rightarrow> [off])"
    if "distinct (map entry_rank es)" for es r
    using that
  proof (induction es)
    case (Cons e es)
    have "filter (\<lambda>e. entry_rank e = r) es = []" if "r \<in> entry_rank ` {e}"
      using that Cons.prems by (simp add: filter_empty_conv) (metis image_eqI)
    then show ?case using Cons by (auto simp: entry_pair_def)
  qed simp
  from this [OF live_distinct [OF ll]] have
    "map entry_off (filter (\<lambda>e. entry_rank e = key_rank key) (filter live_entry (entries t))) = offsets_of (index_map t) key"
    by (simp add: offsets_of_def index_map_def)
  moreover have "filter (\<lambda>e. entry_rank e = key_rank key) (filter live_entry (entries t)) =
      filter (\<lambda>e. bson_btree_key_cmp (fst e) key = 0 \<and> live_entry e) (entries t)"
    using eq by (auto intro: filter_cong)
  ultimately show ?thesis by (simp add: collected_def)
qed

lemma index_map_insert:
  assumes so: "sorted_entries (entries t)" and key: "key_ok key" and none: "index_map t (key_rank key) = None"
    and t': "entries t' = insert_entry key off (entries t)"
  shows "index_map t' = (index_map t)(key_rank key \<mapsto> off)"
proof -
  obtain xs ys where s: "entries t = xs @ ys" "insert_entry key off (entries t) = xs @ new_entry key off # ys"
    using insert_entry_split [OF so key] by metis
  have t'': "entries t' = xs @ new_entry key off # ys" using t' s(2) by simp
  have "map_of (map entry_pair (filter live_entry xs)) (key_rank key) = None"
    using none by (simp add: index_map_def s(1) map_add_None)
  then show ?thesis
    by (auto simp: index_map_def t'' s(1) fun_eq_iff map_add_def entry_pair_def split: option.split)
qed

lemma map_of_remove:
  assumes "distinct (map fst xs)"
  shows "map_of (filter (\<lambda>p. p \<noteq> (r, v)) xs) = (if map_of xs r = Some v then (map_of xs)(r := None) else map_of xs)"
  using assms
proof (induction xs)
  case (Cons p xs)
  obtain a b where p: "p = (a, b)" by fastforce
  have "map_of xs a = None" using Cons.prems p by (simp add: map_of_eq_None_iff)
  then show ?case using Cons p by (auto simp: fun_eq_iff)
qed simp

lemma index_map_delete:
  assumes so: "sorted_entries (entries t)" and ll: "last_live (entries t)" and key: "key_ok key"
    and live: "filter live_entry (entries t') =
      filter (\<lambda>e. live_entry e \<and> \<not> (bson_btree_key_cmp (fst e) key = 0 \<and> entry_off e = off)) (entries t)"
  shows "index_map t' = (if index_map t (key_rank key) = Some off then (index_map t)(key_rank key := None) else index_map t)"
proof -
  have "filter live_entry (entries t') = filter (\<lambda>e. entry_pair e \<noteq> (key_rank key, off)) (filter live_entry (entries t))"
    unfolding live using so key index_key.cmp_eq [OF _ key]
    by (auto simp: sorted_entries_def entry_rank_def entry_pair_def intro!: filter_cong)
  then have "map entry_pair (filter live_entry (entries t')) =
      filter (\<lambda>p. p \<noteq> (key_rank key, off)) (map entry_pair (filter live_entry (entries t)))"
    by (simp add: filter_map comp_def)
  moreover have "distinct (map fst (map entry_pair (filter live_entry (entries t))))"
    using live_distinct [OF ll] by (simp add: comp_def entry_pair_def entry_rank_def [abs_def])
  ultimately show ?thesis by (simp add: index_map_def map_of_remove)
qed

text \<open>What the search skips has no live entry of the key, so a delete works on all the entries.\<close>

lemma kill_all:
  assumes ok: "tree_ok t" "key_ok key" "last_live (entries t)" and d: "distinct (map entry_off (entries t))"
    and xs: "entries t = xs @ reached key t" and es: "es = xs @ kill_first key off (reached key t)"
  shows "filter live_entry es =
      filter (\<lambda>e. live_entry e \<and> \<not> (bson_btree_key_cmp (fst e) key = 0 \<and> entry_off e = off)) (entries t)"
    "last_live es" "map entry_off es = map entry_off (entries t)"
proof -
  obtain a l c where p: "path key t = (a, l, c)" by (metis prod_cases3)
  note pe = path_entries [OF ok(1,2) p]
  have x: "xs = leaf_entries a" using xs by (simp add: pe(1) reached_def p)
  have so: "sorted_entries (entries t)" using ok(1) by (simp add: tree_ok_def)
  have "\<not> (live_entry e \<and> bson_btree_key_cmp (fst e) key = 0)" if "e \<in> set xs" for e
  proof -
    have "key_ok (fst e)" using so that xs by (auto simp: sorted_entries_def)
    then show ?thesis
      using skipped_dead [OF ok p, of e] that x index_key.cmp_eq [OF _ ok(2), of "fst e"] by (auto simp: entry_rank_def)
  qed
  then have "filter live_entry xs = filter (\<lambda>e. live_entry e \<and> \<not> (bson_btree_key_cmp (fst e) key = 0 \<and> entry_off e = off)) xs"
    by (auto intro!: filter_cong)
  moreover have "distinct (map entry_pair (reached key t))"
  proof -
    have "distinct (map entry_off (reached key t))" using d by (simp add: xs)
    then have "distinct (map snd (map entry_pair (reached key t)))" by (simp add: entry_pair_def comp_def entry_off_def [abs_def])
    then show ?thesis unfolding distinct_map [of snd] ..
  qed
  ultimately show "filter live_entry es =
      filter (\<lambda>e. live_entry e \<and> \<not> (bson_btree_key_cmp (fst e) key = 0 \<and> entry_off e = off)) (entries t)"
    using live_kill_first [of "reached key t" key off] so ok(2) by (simp add: es xs sorted_entries_append)
  have pairs: "map entry_pair es = map entry_pair (entries t)" by (simp add: es xs kill_first_pairs)
  have "map entry_off zs = map snd (map entry_pair zs)" for zs by (simp add: entry_pair_def)
  then show "map entry_off es = map entry_off (entries t)" using pairs by metis
  have "entry_rank ` set (kill_first key off (reached key t)) = entry_rank ` set (reached key t)"
    using arg_cong [OF kill_first_pairs [of key off "reached key t"], of "\<lambda>ps. fst ` set ps"]
    by (simp add: image_image entry_pair_def)
  moreover have "(\<forall>y \<in> set zs. entry_rank y \<noteq> r) \<longleftrightarrow> r \<notin> entry_rank ` set zs" for zs r by blast
  ultimately show "last_live es"
    using ok(3) last_live_kill [of "reached key t" key off] unfolding es xs last_live_append by simp
qed

lemma set_insert_entry:
  "set (map entry_off (insert_entry key off es)) = insert off (set (map entry_off es))"
  "distinct (map entry_off es) \<Longrightarrow> off \<notin> set (map entry_off es) \<Longrightarrow> distinct (map entry_off (insert_entry key off es))"
proof -
  let ?n = "entry_position key es"
  have es: "es = take ?n es @ drop ?n es" by simp
  have "mset (map entry_off (insert_entry key off es)) = add_mset off (mset (map entry_off (take ?n es @ drop ?n es)))"
    by (simp add: insert_entry_def del: append_take_drop_id)
  then have m: "mset (map entry_off (insert_entry key off es)) = mset (off # map entry_off es)" by simp
  show "set (map entry_off (insert_entry key off es)) = insert off (set (map entry_off es))"
    using mset_eq_setD [OF m] by simp
  show "distinct (map entry_off es) \<Longrightarrow> off \<notin> set (map entry_off es) \<Longrightarrow> distinct (map entry_off (insert_entry key off es))"
    using mset_eq_imp_distinct_iff [OF m] by simp
qed

lemma holds_map_pages:
  assumes "holds_tree h t" "nodes_ok t" "set (pages t) = {1..handle_pages h}" "distinct (map entry_off (entries t))"
    "card (set (map entry_off (entries t))) < 2 ^ 37"
  shows "handle_pages h < 2 ^ 39"
proof -
  have "length (entries t) < 2 ^ 37" using distinct_card [OF assms(4)] assms(5) by simp
  moreover have "handle_pages h = length (pages t)"
    using distinct_card [OF holds_tree_ok(3) [OF assms(1)]] assms(3) by simp
  ultimately show ?thesis using pages_entries [OF assms(2) holds_tree_ok(1) [OF assms(1)]] by simp
qed

lemma insert_map:
  assumes h: "holds_map h M used" and k: "key_ok k" and off: "off \<notin> used" "off < 2 ^ 64" and card: "card used < 2 ^ 37"
    and none: "M (key_rank k) = None"
  shows "(\<exists>h'. IndexHandle_insert os k (int off) h = (PyOk (), h') \<and> holds_map h' (M(key_rank k \<mapsto> off)) (insert off used)) \<or>
    \<not> os_all_succeed os \<and> fst (IndexHandle_insert os k (int off) h) = PyRaise OSError"
proof -
  obtain t where t: "holds_tree h t" "handle_unique h" "last_live (entries t)" "nodes_ok t"
    "set (pages t) = {1..handle_pages h}" "distinct (map entry_off (entries t))"
    "used = set (map entry_off (entries t))" "M = index_map t"
    using h by (auto simp: holds_map_def)
  note ok = holds_tree_ok [OF t(1)]
  have nl: "\<not> has_live k (entries t)" using has_live_map [OF ok(2) k] none t(8) by simp
  then have d: "\<not> has_live k (reached k t)" using has_live_reached [OF ok(1) k t(3)] by simp
  have n: "handle_pages h < 2 ^ 39" using holds_map_pages [OF t(1,4,5,6)] card t(7) by simp
  define t' where "t' = fst (root_insert k off (handle_pages h) t)"
  have e: "entries t' = insert_entry k off (entries t)"
    unfolding t'_def by (rule root_insert_entries [OF ok(1) k])
  have "\<forall>e \<in> set (entries t). live_entry e \<longrightarrow> entry_rank e \<noteq> key_rank k"
    using nl ok(2) k index_key.cmp_eq [OF _ k] by (auto simp: has_live_def sorted_entries_def entry_rank_def)
  then have ll: "last_live (entries t')" unfolding e using last_live_insert_entry [OF ok(2) k t(3)] by blast
  show ?thesis
  proof (rule insert_tree [OF t(1) k n, of os "int off"])
    fix h' assume i: "IndexHandle_insert os k (int off) h = (PyOk (), h')"
      "holds_tree h' (fst (root_insert k (py_u64 (int off)) (handle_pages h) t))" "handle_unique h' = handle_unique h"
      "handle_pages h' = snd (root_insert k (py_u64 (int off)) (handle_pages h) t)"
    have "holds_tree h' t'" "set (pages t') = {1..handle_pages h'}" "nodes_ok t'"
      using i(2,4) off(2) root_insert_pages [OF t(5)] root_insert_nodes [OF t(4)] by (simp_all add: t'_def)
    moreover have "distinct (map entry_off (entries t'))" "insert off used = set (map entry_off (entries t'))"
      using set_insert_entry [where key = k and off = off and es = "entries t"] t(6,7) off(1) unfolding e by simp_all
    moreover have "M(key_rank k \<mapsto> off) = index_map t'"
      using index_map_insert [OF ok(2) k _ e] none t(8) by simp
    ultimately have "holds_map h' (M(key_rank k \<mapsto> off)) (insert off used)"
      using ll i(3) t(2) unfolding holds_map_def by blast
    then show ?thesis using i(1) by blast
  qed (use d in simp_all)
qed

lemma delete_map:
  assumes h: "holds_map h M used" and k: "key_ok k" and off: "off < 2 ^ 64"
  shows "\<exists>h'. IndexHandle_delete_entry k (int off) h = (PyOk (), h') \<and>
    holds_map h' (if M (key_rank k) = Some off then M(key_rank k := None) else M) used"
proof -
  obtain t where t: "holds_tree h t" "handle_unique h" "last_live (entries t)" "nodes_ok t"
    "set (pages t) = {1..handle_pages h}" "distinct (map entry_off (entries t))"
    "used = set (map entry_off (entries t))" "M = index_map t"
    using h by (auto simp: holds_map_def)
  note ok = holds_tree_ok [OF t(1)]
  obtain xs where xs: "entries t = xs @ reached k t" by (rule reached_suffix)
  obtain h' t' where d: "IndexHandle_delete_entry k (int off) h = (PyOk (), h')" "holds_tree h' t'"
    "entries t' = xs @ kill_first k (py_u64 (int off)) (reached k t)" "handle_unique h' = handle_unique h"
    "handle_pages h' = handle_pages h" "t' = t \<or> (\<exists>no es. t' = set_leaf no es t)"
    using delete_tree [OF t(1) k xs, of "int off"] by blast
  have "pages t' = pages t" using d(6) by (elim disjE exE) simp_all
  then have pg: "set (pages t') = {1..handle_pages h'}" using d(5) t(5) by simp
  have nd: "nodes_ok t'" using d(6) t(4) by (elim disjE exE) simp_all
  have e: "entries t' = xs @ kill_first k off (reached k t)" using d(3) off by simp
  note ka = kill_all [OF ok(1) k t(3,6) xs e]
  have "index_map t' = (if M (key_rank k) = Some off then M(key_rank k := None) else M)"
    using index_map_delete [OF ok(2) t(3) k ka(1)] t(8) by simp
  then have "holds_map h' (if M (key_rank k) = Some off then M(key_rank k := None) else M) used"
    using d(2,4) ka(2,3) t(2,6,7) nd pg unfolding holds_map_def by (intro exI [of _ t']) simp
  then show ?thesis using d(1) by blast
qed

text \<open>The methods keep the contract.\<close>

interpretation index: unique_map holds_map "os_all_succeed os \<and> (\<forall>n. alloc n)" "IndexHandle_insert os"
    "IndexHandle_lookup alloc" IndexHandle_delete_entry
  for os alloc
proof (unfold_locales, goal_cases)
  case (1 s M used k off)
  then show ?case using insert_map by blast
next
  case (2 s M used k off)
  then obtain t where t: "holds_tree s t" "handle_unique s" "last_live (entries t)" "M = index_map t"
    by (auto simp: holds_map_def)
  note ok = holds_tree_ok [OF t(1)]
  have "has_live k (reached k t)"
    using has_live_reached [OF ok(1) 2(2) t(3)] has_live_map [OF ok(2) 2(2)] 2(3) t(4) by simp
  then show ?case by (rule insert_tree_duplicate [OF t(1) 2(2) t(2)])
next
  case (3 s M used k)
  then obtain t where t: "holds_tree s t" "last_live (entries t)" "M = index_map t"
    by (auto simp: holds_map_def)
  note ok = holds_tree_ok [OF t(1)]
  have "collected (\<lambda>x. bson_btree_key_cmp x k = 0) (reached k t) = offsets_of M k"
    using collected_reached [OF ok(1) 3(2) t(2), of "\<lambda>x. bson_btree_key_cmp x k = 0"] index_key.cmp_eq [OF _ 3(2)]
      collected_map [OF ok(2) t(2) 3(2)] t(3) by simp
  then show ?case using lookup_tree [OF t(1) 3(2), of alloc] by (auto simp: found_def)
next
  case (4 s M used k off)
  then show ?case using delete_map by blast
qed

end
