(* ===== verification/Index_Properties.thy ===== *)
theory Index_Properties
  imports Index_Handle
begin

text \<open>
  The properties of the index files, stated on the methods of a handle, each with an application
  to a concrete index file.
\<close>

section \<open>Fresh index files\<close>

lemma create_index_holds:
  assumes "os_all_succeed os" "length fp < 200" "length disk < 2 ^ 61"
  obtains h where "py_create_index_file os fp tag unique descending disk = PyOk h" "holds_tree h (Lf 1 [])"
    "handle_unique h = unique" "handle_pages h = 1"
proof -
  obtain b where b: "bson_btree_create os fp (word_of_nat tag) unique descending disk = Ok b"
    "index_holds b fp (word_of_nat tag) unique descending (Lf 1 [])" "page_count (bt_file b) = 1"
    using btree_create_ok [OF assms] .
  show thesis
  proof (rule that [of "OpenIndex b"])
    show "py_create_index_file os fp tag unique descending disk = PyOk (OpenIndex b)"
      by (simp add: py_create_index_file_def b(1))
    show "holds_tree (OpenIndex b) (Lf 1 [])" using b(2) by (simp add: holds_tree_def index_holds_def)
    show "handle_unique (OpenIndex b) = unique"
      using b(2) by (simp add: handle_unique_def unique_index_def index_holds_def index_header_def)
    show "handle_pages (OpenIndex b) = 1" using b(3) by (simp add: handle_pages_def)
  qed
qed

lemma fresh_map: "holds_tree h (Lf 1 []) \<Longrightarrow> handle_unique h \<Longrightarrow> handle_pages h = 1 \<Longrightarrow> holds_map h Map.empty {}"
  unfolding holds_map_def by (intro exI [of _ "Lf 1 []"]) (simp add: entries_def index_map_def)

text \<open>Integer keys, for the examples.\<close>

definition int_key :: "int \<Rightarrow> key" where
  "int_key v = BSON_BTREE_TAG_INT # le_i64 v @ replicate 4 0"

lemma int_key_ok [simp]: "key_ok (int_key v)"
  by (simp add: int_key_def key_ok_def BSON_BTREE_KEY_SIZE_def btree_tag_defs)

lemma int_key_rank [simp]: "- (2 ^ 63) \<le> v \<Longrightarrow> v < 2 ^ 63 \<Longrightarrow> key_rank (int_key v) = [2, v]"
  by (simp add: int_key_def key_rank_def btree_tag_defs slice_def i64_of_le_i64)

section \<open>Properties\<close>

text \<open>
  The comparison of index keys is a total preorder on the keys that are no NaN: it is
  antisymmetric in the sign, transitive, and comparable keys are equal exactly when their ranks
  (tag, then payload) are.
\<close>

theorem key_cmp_total_order:
  assumes "key_ok a" "key_ok b" "key_ok c"
  shows "(0 < bson_btree_key_cmp a b \<longleftrightarrow> bson_btree_key_cmp b a < 0) \<and>
    (bson_btree_key_cmp a b = 0 \<longleftrightarrow> key_rank a = key_rank b) \<and>
    (0 < bson_btree_key_cmp a b \<or> 0 < bson_btree_key_cmp b c \<or> bson_btree_key_cmp a c \<le> 0)"
  using assms index_key.cmp_less index_key.cmp_greater index_key.cmp_eq index_key.cmp_le by fastforce

theorem key_cmp_total_order_witness:
  "(0 < bson_btree_key_cmp (int_key 5) (int_key (-3)) \<longleftrightarrow> bson_btree_key_cmp (int_key (-3)) (int_key 5) < 0) \<and>
    (bson_btree_key_cmp (int_key 5) (int_key (-3)) = 0 \<longleftrightarrow> key_rank (int_key 5) = key_rank (int_key (-3))) \<and>
    (0 < bson_btree_key_cmp (int_key 5) (int_key (-3)) \<or> 0 < bson_btree_key_cmp (int_key (-3)) (int_key 7) \<or>
       bson_btree_key_cmp (int_key 5) (int_key 7) \<le> 0)"
  by (rule key_cmp_total_order) simp_all

text \<open>
  C3. A unique index refines a finite map: on a new index file, any sequence of insertions (of
  offsets not used before), deletions and lookups gives the replies of the same operations on a
  map from key ranks to offsets, a second insertion of a key that is present being refused. The
  calls return in particular: none runs for ever, faults or reports a corrupt file.
\<close>

theorem unique_index_refines_map:
  assumes "os_all_succeed os" "\<forall>n. alloc n" "length fp < 200" "length disk < 2 ^ 61" "ops_ok ops {}"
  shows "\<exists>h. py_create_index_file os fp tag True descending disk = PyOk h \<and>
    index_run (IndexHandle_insert os) (IndexHandle_lookup alloc) IndexHandle_delete_entry ops h = Some (index_spec ops Map.empty)"
proof -
  obtain h where h: "py_create_index_file os fp tag True descending disk = PyOk h" "holds_tree h (Lf 1 [])"
    "handle_unique h" "handle_pages h = 1"
    using create_index_holds [OF assms(1,3,4), of tag True descending] by auto
  then show ?thesis using index.run_spec [OF _ fresh_map assms(5)] assms(1,2) by blast
qed

theorem unique_index_refines_map_witness:
  "\<exists>h. py_create_index_file perfect_os [97, 103, 101] 2 True False [] = PyOk h \<and>
    index_run (IndexHandle_insert perfect_os) (IndexHandle_lookup (\<lambda>_. True)) IndexHandle_delete_entry
      [Insert (int_key 7) 64, Insert (int_key 5) 80, Insert (int_key 7) 96, Lookup (int_key 7),
       Delete (int_key 7) 64, Lookup (int_key 7), Lookup (int_key 5)] h =
    Some [Done, Done, Duplicate, Offsets [64], Done, Offsets [], Offsets [80]]"
  using unique_index_refines_map [of perfect_os "\<lambda>_. True" "[97, 103, 101]" "[]"
      "[Insert (int_key 7) 64, Insert (int_key 5) 80, Insert (int_key 7) 96, Lookup (int_key 7),
       Delete (int_key 7) 64, Lookup (int_key 7), Lookup (int_key 5)]" 2 False]
  by (simp add: ops_ok_def perfect_os_succeeds offsets_of_def)

text \<open>
  C12. Inserting into any index (unique or not) either fails with an I/O error that the operating
  system caused, or leaves a well-formed tree whose entries are the old ones with the new one
  behind those of the same key; a unique index takes the key when it has no live entry.
\<close>

theorem index_insert_adds:
  assumes "holds_tree h t" "key_ok key" "handle_pages h < 2 ^ 39" "0 \<le> off" "off < 2 ^ 64"
    "handle_unique h \<longrightarrow> last_live (entries t) \<and> \<not> has_live key (entries t)"
  shows "(\<exists>h' t'. IndexHandle_insert os key off h = (PyOk (), h') \<and> holds_tree h' t' \<and>
      entries t' = insert_entry key (nat off) (entries t) \<and> sorted_entries (entries t')) \<or>
    fst (IndexHandle_insert os key off h) = PyRaise OSError \<and> \<not> os_all_succeed os"
proof -
  note ok = holds_tree_ok [OF assms(1)]
  have u: "py_u64 off = nat off" using assms(4,5) by (simp add: py_u64_def)
  have d: "\<not> has_live key (reached key t)" if "handle_unique h"
    using that assms(6) has_live_reached [OF ok(1) assms(2)] by blast
  have e: "entries (fst (root_insert key (nat off) (handle_pages h) t)) = insert_entry key (nat off) (entries t)"
    by (rule root_insert_entries [OF ok(1) assms(2)])
  show ?thesis
  proof (rule insert_tree [OF assms(1-3) d, of os off])
    fix h' assume "IndexHandle_insert os key off h = (PyOk (), h')"
      "holds_tree h' (fst (root_insert key (py_u64 off) (handle_pages h) t))"
    then show ?thesis using e u sorted_insert_entry [OF ok(2) assms(2)] by auto
  qed simp_all
qed

text \<open>Index files filled one key after the other, for the examples.\<close>

lemma fill_index:
  assumes "os_all_succeed os" "length offs \<le> 180" "key_ok key" "\<forall>off \<in> set offs. off < 2 ^ 64"
  obtains h where "holds_tree h (Lf 1 (map (new_entry key) offs))" "\<not> handle_unique h" "handle_pages h = 1"
  using assms(2,4)
proof (induction offs arbitrary: thesis rule: rev_induct)
  case Nil
  show ?case using create_index_holds [OF assms(1), of "[]" "[]" 2 False False] Nil.prems(1) by auto
next
  case (snoc off offs)
  obtain h where h: "holds_tree h (Lf 1 (map (new_entry key) offs))" "\<not> handle_unique h" "handle_pages h = 1"
    using snoc.IH snoc.prems by auto
  have "bson_btree_key_cmp key key = 0" using index_key.cmp_eq [OF assms(3) assms(3)] by simp
  then have "entry_position key (map (new_entry key) offs) = length offs"
    by (simp add: entry_position_def takeWhile_map comp_def takeWhile_eq_all_conv [THEN iffD2])
  then have i: "insert_entry key off (map (new_entry key) offs) = map (new_entry key) (offs @ [off])"
    by (simp add: insert_entry_def)
  have r: "root_insert key off 1 (Lf 1 (map (new_entry key) offs)) = (Lf 1 (map (new_entry key) (offs @ [off])), 1)"
    using snoc.prems(2) i by (simp add: root_insert_def)
  have u: "py_u64 (int off) = off" using snoc.prems(3) by simp
  show ?case
  proof (rule insert_tree [OF h(1) assms(3), of os "int off"])
    fix h' assume "holds_tree h' (fst (root_insert key (py_u64 (int off)) (handle_pages h) (Lf 1 (map (new_entry key) offs))))"
      "handle_unique h' = handle_unique h"
      "handle_pages h' = snd (root_insert key (py_u64 (int off)) (handle_pages h) (Lf 1 (map (new_entry key) offs)))"
    then show thesis using snoc.prems(1) [of h'] h(2,3) u r by simp
  qed (use h assms(1) in auto)
qed

lemma one_key_index:
  obtains h where "holds_tree h (Lf 1 [new_entry (int_key 7) 64])" "handle_unique h" "handle_pages h = 1"
proof -
  obtain h0 where h0: "holds_tree h0 (Lf 1 [])" "handle_unique h0" "handle_pages h0 = 1"
    using create_index_holds [OF perfect_os_succeeds, of "[]" "[]" 2 True False] by auto
  have nl: "\<not> has_live (int_key 7) (reached (int_key 7) (Lf 1 []))" by (simp add: has_live_def reached_def)
  have r: "root_insert (int_key 7) 64 1 (Lf 1 []) = (Lf 1 [new_entry (int_key 7) 64], 1)"
    by (simp add: root_insert_def insert_entry_def)
  show thesis
  proof (rule insert_tree [OF h0(1) int_key_ok, of 7 perfect_os 64])
    fix h' assume "holds_tree h' (fst (root_insert (int_key 7) (py_u64 64) (handle_pages h0) (Lf 1 [])))"
      "handle_unique h' = handle_unique h0"
      "handle_pages h' = snd (root_insert (int_key 7) (py_u64 64) (handle_pages h0) (Lf 1 []))"
    moreover have "py_u64 64 = 64" using py_u64_small [of 64] by simp
    ultimately show thesis using that h0 r by simp
  qed (use h0 nl perfect_os_succeeds in auto)
qed

lemma one_key_facts:
  "entries (Lf 1 [e]) = [e]" "last_live [e]" "distinct (map entry_off [e])"
  "has_live key [new_entry key 64] \<longleftrightarrow> bson_btree_key_cmp key key = 0"
  by (simp_all add: entries_def has_live_def)

theorem index_insert_adds_witness:
  "\<exists>h. holds_tree h (Lf 1 [new_entry (int_key 7) 64]) \<and>
    ((\<exists>h' t'. IndexHandle_insert perfect_os (int_key 5) 80 h = (PyOk (), h') \<and> holds_tree h' t' \<and>
       entries t' = insert_entry (int_key 5) (nat 80) (entries (Lf 1 [new_entry (int_key 7) 64])) \<and>
       sorted_entries (entries t')) \<or>
     fst (IndexHandle_insert perfect_os (int_key 5) 80 h) = PyRaise OSError \<and> \<not> os_all_succeed perfect_os)"
proof -
  obtain h where h: "holds_tree h (Lf 1 [new_entry (int_key 7) 64])" "handle_unique h" "handle_pages h = 1"
    by (rule one_key_index)
  have "bson_btree_key_cmp (int_key 7) (int_key 5) \<noteq> 0" using index_key.cmp_eq [of "int_key 7" "int_key 5"] by simp
  then have "last_live (entries (Lf 1 [new_entry (int_key 7) 64])) \<and> \<not> has_live (int_key 5) (entries (Lf 1 [new_entry (int_key 7) 64]))"
    by (simp add: entries_def has_live_def)
  then show ?thesis
    using index_insert_adds [OF h(1), of "int_key 5" 80 perfect_os] h by auto
qed

text \<open>
  A key that has a live entry is refused by a unique index, and nothing is written.
\<close>

theorem index_insert_duplicate:
  assumes "holds_tree h t" "key_ok key" "handle_unique h" "last_live (entries t)" "has_live key (entries t)"
  shows "IndexHandle_insert os key off h = (PyRaise DuplicateKeyError, h)"
  using insert_tree_duplicate [OF assms(1-3)] has_live_reached [OF holds_tree_ok(1) [OF assms(1)] assms(2,4)] assms(5)
  by simp

theorem index_insert_duplicate_witness:
  "\<exists>h. holds_tree h (Lf 1 [new_entry (int_key 7) 64]) \<and>
    IndexHandle_insert perfect_os (int_key 7) 80 h = (PyRaise DuplicateKeyError, h)"
proof -
  obtain h where h: "holds_tree h (Lf 1 [new_entry (int_key 7) 64])" "handle_unique h" "handle_pages h = 1"
    by (rule one_key_index)
  have "has_live (int_key 7) (entries (Lf 1 [new_entry (int_key 7) 64]))"
    using index_key.cmp_eq [of "int_key 7" "int_key 7"] by (simp add: entries_def has_live_def)
  then show ?thesis
    using index_insert_duplicate [OF h(1) int_key_ok h(2), of 7 perfect_os 80] h(1) by (auto simp: entries_def)
qed

text \<open>
  A lookup in any index returns, in order, the offsets of the live entries of the key among a
  suffix of the entries; those it skips are no greater than the key. It changes nothing, and fails
  only when an allocation is refused.
\<close>

theorem index_lookup_suffix:
  assumes "holds_tree h t" "key_ok key"
  shows "\<exists>xs ys. entries t = xs @ ys \<and> (\<forall>e \<in> set xs. entry_rank e \<le> key_rank key) \<and>
    found alloc (map entry_off (filter (\<lambda>e. bson_btree_key_cmp (fst e) key = 0 \<and> live_entry e) ys)) (IndexHandle_lookup alloc key h) h"
proof -
  obtain a l c where p: "path key t = (a, l, c)" by (metis prod_cases3)
  note ok = holds_tree_ok [OF assms(1)]
  note pe = path_entries [OF ok(1) assms(2) p]
  have "entry_rank e \<le> key_rank key" if e: "e \<in> set (leaf_entries a)" for e
  proof -
    have "a \<noteq> []" using e by auto
    then obtain x xs where x: "snd l = x # xs" "entry_rank x \<le> key_rank key" using pe(3) by (cases "snd l") auto
    have "entry_rank e \<le> entry_rank x" using ok(2) e x(1) by (auto simp: pe(1) sorted_entries_append)
    then show ?thesis using x(2) by simp
  qed
  moreover have "entries t = leaf_entries a @ reached key t" by (simp add: pe(1) reached_def p)
  ultimately show ?thesis using lookup_tree [OF assms, of alloc] unfolding collected_def by blast
qed

theorem index_lookup_suffix_witness:
  "\<exists>h. holds_tree h (Lf 1 [new_entry (int_key 7) 64]) \<and>
    (\<exists>xs ys. entries (Lf 1 [new_entry (int_key 7) 64]) = xs @ ys \<and> (\<forall>e \<in> set xs. entry_rank e \<le> key_rank (int_key 7)) \<and>
      found (\<lambda>_. True) (map entry_off (filter (\<lambda>e. bson_btree_key_cmp (fst e) (int_key 7) = 0 \<and> live_entry e) ys))
        (IndexHandle_lookup (\<lambda>_. True) (int_key 7) h) h)"
proof -
  obtain h where h: "holds_tree h (Lf 1 [new_entry (int_key 7) 64])" by (rule one_key_index)
  show ?thesis using h index_lookup_suffix [OF h int_key_ok] by blast
qed

text \<open>
  C24. A range search in a unique index returns the offsets of exactly the live entries within the
  bounds, each bound inclusive or not or absent, in ascending order of the keys.
\<close>

theorem unique_range_exact:
  assumes "holds_tree h t" "last_live (entries t)" "opt_key_ok low" "opt_key_ok high"
  shows "found alloc (map snd (filter (\<lambda>(k, off). in_range low li high hi k) (indexed t))) (IndexHandle_range alloc low li high hi h) h \<and>
    sorted (map (\<lambda>(k, off). key_rank k) (indexed t))"
proof
  note ok = holds_tree_ok [OF assms(1)]
  have c: "collected P (entries t) = map snd (filter (\<lambda>(k, off). P k) (indexed t))" for P
    by (simp add: collected_def indexed_def filter_map comp_def conj_commute)
  have "collected (in_range low li high hi) (range_entries low t) = collected (in_range low li high hi) (entries t)"
  proof (cases low)
    case (Some lo)
    have lo: "key_ok lo" using assms(3) Some by (simp add: opt_key_ok_def)
    have "key_rank lo \<le> key_rank k" if "key_ok k" "in_range low li high hi k" for k
    proof -
      have "\<not> bson_btree_key_cmp k lo < 0" using that(2) Some by (simp add: in_range_def below_low_def)
      then show ?thesis using index_key.cmp_less [OF that(1) lo] by simp
    qed
    then show ?thesis using collected_reached [OF ok(1) lo assms(2)] Some by (simp add: range_entries_def)
  qed (simp add: range_entries_def)
  then show "found alloc (map snd (filter (\<lambda>(k, off). in_range low li high hi k) (indexed t))) (IndexHandle_range alloc low li high hi h) h"
    using range_tree [OF assms(1,3,4), of alloc li hi] c by simp
  have "map (\<lambda>(k, off). key_rank k) (indexed t) = map entry_rank (filter live_entry (entries t))"
    by (simp add: indexed_def entry_rank_def)
  then show "sorted (map (\<lambda>(k, off). key_rank k) (indexed t))"
    using ok(2) by (simp add: sorted_entries_def sorted_filter)
qed

theorem unique_range_exact_witness:
  "\<exists>h. found (\<lambda>_. True) (map snd (filter (\<lambda>(k, off). in_range (Some (int_key 7)) True None False k)
        (indexed (Lf 1 [new_entry (int_key 7) 64])))) (IndexHandle_range (\<lambda>_. True) (Some (int_key 7)) True None False h) h \<and>
    sorted (map (\<lambda>(k, off). key_rank k) (indexed (Lf 1 [new_entry (int_key 7) 64])))"
proof -
  obtain h where h: "holds_tree h (Lf 1 [new_entry (int_key 7) 64])" by (rule one_key_index)
  show ?thesis
    by (rule exI [of _ h], rule unique_range_exact [OF h]) (simp_all add: entries_def opt_key_ok_def)
qed

text \<open>
  Deleting a key and an offset from a unique index removes exactly that pair from the content
  (no entry is removed when the pair is not there), and succeeds in either case.
\<close>

theorem unique_delete_exact:
  assumes "holds_tree h t" "key_ok key" "last_live (entries t)" "distinct (map entry_off (entries t))" "0 \<le> off" "off < 2 ^ 64"
  shows "\<exists>h' t'. IndexHandle_delete_entry key off h = (PyOk (), h') \<and> holds_tree h' t' \<and>
    indexed t' = filter (\<lambda>(k, v). \<not> (bson_btree_key_cmp k key = 0 \<and> v = nat off)) (indexed t)"
proof -
  obtain xs where xs: "entries t = xs @ reached key t" by (rule reached_suffix)
  have u: "py_u64 off = nat off" using assms(5,6) by (simp add: py_u64_def)
  obtain h' t' where d: "IndexHandle_delete_entry key off h = (PyOk (), h')" "holds_tree h' t'"
    "entries t' = xs @ kill_first key (py_u64 off) (reached key t)"
    using delete_tree [OF assms(1,2) xs, of off] by blast
  have "indexed t' = filter (\<lambda>(k, v). \<not> (bson_btree_key_cmp k key = 0 \<and> v = nat off)) (indexed t)"
    using kill_all(1) [OF holds_tree_ok(1) [OF assms(1)] assms(2-4) xs d(3)]
    by (simp add: indexed_def u filter_map comp_def conj_commute)
  then show ?thesis using d by blast
qed

theorem unique_delete_exact_witness:
  "\<exists>h. holds_tree h (Lf 1 [new_entry (int_key 7) 64]) \<and>
    (\<exists>h' t'. IndexHandle_delete_entry (int_key 7) 64 h = (PyOk (), h') \<and> holds_tree h' t' \<and>
      indexed t' = filter (\<lambda>(k, v). \<not> (bson_btree_key_cmp k (int_key 7) = 0 \<and> v = nat 64))
        (indexed (Lf 1 [new_entry (int_key 7) 64])))"
proof -
  obtain h where h: "holds_tree h (Lf 1 [new_entry (int_key 7) 64])" by (rule one_key_index)
  show ?thesis
    by (rule exI [of _ h], rule conjI [OF h], rule unique_delete_exact [OF h int_key_ok]) (simp_all add: entries_def)
qed

text \<open>
  C28. A non-unique index loses duplicates: when a leaf is full of live entries of one key and
  another one is inserted, the leaf splits in the middle of the run, and a lookup of the key, which
  descends to the right of the separator, returns the last 90 of the 181 offsets only.
\<close>

theorem duplicates_missed:
  assumes "os_all_succeed os" "key_ok key" "holds_tree h (Lf no (map (new_entry key) offs))" "length offs = 180"
    "\<not> handle_unique h" "handle_pages h < 2 ^ 39" "0 \<le> off" "off < 2 ^ 64"
  shows "\<exists>h'. IndexHandle_insert os key off h = (PyOk (), h') \<and>
    found alloc (drop 91 (offs @ [nat off])) (IndexHandle_lookup alloc key h') h'"
proof -
  let ?t = "Lf no (map (new_entry key) offs)" and ?n = "handle_pages h"
  have u: "py_u64 off = nat off" using assms(7,8) by (simp add: py_u64_def)
  have eq: "bson_btree_key_cmp key key = 0" using index_key.cmp_eq [OF assms(2) assms(2)] by simp
  then have "entry_position key (map (new_entry key) offs) = length offs"
    by (simp add: entry_position_def takeWhile_map comp_def takeWhile_eq_all_conv [THEN iffD2])
  then have i: "insert_entry key (nat off) (map (new_entry key) offs) = map (new_entry key) (offs @ [nat off])"
    by (simp add: insert_entry_def)
  define t' where "t' = Nd (?n + 2) (Lf no (map (new_entry key) (take 91 (offs @ [nat off]))))
    [(key, Lf (?n + 1) (map (new_entry key) (drop 91 (offs @ [nat off]))))]"
  have "map (new_entry key) (offs @ [nat off]) ! 91 = new_entry key ((offs @ [nat off]) ! 91)"
    using assms(4) by (intro nth_map) simp
  then have r: "fst (root_insert key (nat off) ?n ?t) = t'"
    using assms(4) i by (simp add: root_insert_def t'_def Let_def take_map drop_map del: map_append append_eq_conv_conj)
  have re: "reached key t' = map (new_entry key) (drop 91 (offs @ [nat off]))"
    using eq by (simp add: reached_def t'_def)
  show ?thesis
  proof (rule insert_tree [OF assms(3,2,6), of os off])
    fix h' assume h': "IndexHandle_insert os key off h = (PyOk (), h')"
      "holds_tree h' (fst (root_insert key (py_u64 off) ?n ?t))"
    have "collected (\<lambda>k. bson_btree_key_cmp k key = 0) (map (new_entry key) vs) = vs" for vs
      using eq by (induction vs) simp_all
    then have "found alloc (drop 91 (offs @ [nat off])) (IndexHandle_lookup alloc key h') h'"
      using lookup_tree [of h' t' key alloc] h'(2) assms(2) r u re by simp
    then show ?thesis using h'(1) by blast
  qed (use assms in simp_all)
qed

theorem duplicates_missed_witness:
  "\<exists>h h'. IndexHandle_insert perfect_os (int_key 7) 1000 h = (PyOk (), h') \<and>
    found (\<lambda>_. True) (drop 91 ([64..<244] @ [nat 1000])) (IndexHandle_lookup (\<lambda>_. True) (int_key 7) h') h'"
proof -
  obtain h where h: "holds_tree h (Lf 1 (map (new_entry (int_key 7)) [64..<244]))" "\<not> handle_unique h" "handle_pages h = 1"
    using fill_index [OF perfect_os_succeeds _ int_key_ok, of "[64..<244]"] by auto
  then show ?thesis
    using duplicates_missed [OF perfect_os_succeeds int_key_ok h(1) _ h(2), of 1000 "\<lambda>_. True"] by auto
qed

text \<open>
  Closing an index and opening its file again gives the same tree, the same flags and the
  same field path.
\<close>

theorem index_reopen:
  assumes "os_all_succeed os" "index_holds b fp tag unique descending t"
  shows "case IndexHandle_close os (OpenIndex b) of
      (PyOk _, ClosedIndex disk) \<Rightarrow> (case py_open_index_file os disk of
          PyOk h \<Rightarrow> holds_tree h t \<and> IndexHandle_get_unique h = (PyOk unique, h) \<and>
            IndexHandle_get_descending h = (PyOk descending, h) \<and> IndexHandle_get_field_path h = (PyOk (c_string fp), h)
        | _ \<Rightarrow> False)
    | _ \<Rightarrow> False"
proof -
  obtain b' where b': "bson_btree_open os (bson_btree_close os b) = Ok b'" "index_holds b' fp tag unique descending t"
    using btree_open_ok [OF assms] by blast
  have f: "index_file (bt_file b') (mm_bytes (bt_file b')) (page_count (bt_file b'))"
    and hd: "index_header (mm_bytes (bt_file b')) fp tag unique descending"
    and tr: "index_repr (bt_file b') t" and cs: "c_string (bt_field_path b') = c_string fp"
    using b'(2) index_reprD(1) by (auto simp: index_holds_def)
  have "4096 \<le> length (mm_bytes (bt_file b'))" using f by (simp add: index_file_def)
  then have "bson_btree_unique (mm_bytes (bt_file b')) = Ok unique" "bson_btree_descending (mm_bytes (bt_file b')) = Ok descending"
    using hd by (simp_all add: bson_btree_unique_def bson_btree_descending_def index_header_def read_u16_field OFF_FLAGS_def
        BSON_BTREE_FLAG_UNIQUE_def BSON_BTREE_FLAG_DESCENDING_def)
  then have fl: "IndexHandle_get_unique (OpenIndex b') = (PyOk unique, OpenIndex b')"
    "IndexHandle_get_descending (OpenIndex b') = (PyOk descending, OpenIndex b')"
    by (simp_all add: IndexHandle_get_unique_def IndexHandle_get_descending_def on_index_def index_file_load [OF f])
  have fp: "IndexHandle_get_field_path (OpenIndex b') = (PyOk (c_string fp), OpenIndex b')"
    using cs by (simp add: IndexHandle_get_field_path_def bson_btree_field_path_def)
  have op: "py_open_index_file os (bson_btree_close os b) = PyOk (OpenIndex b')"
    using b'(1) by (simp add: py_open_index_file_def)
  have cl: "IndexHandle_close os (OpenIndex b) = (PyOk (), ClosedIndex (bson_btree_close os b))"
    by (simp add: IndexHandle_close_def)
  have "holds_tree (OpenIndex b') t" using tr by (simp add: holds_tree_def)
  then show ?thesis by (simp add: cl op fl fp)
qed

theorem index_reopen_witness:
  "\<exists>b. bson_btree_create perfect_os [97] 2 True False [] = Ok b \<and>
    (case IndexHandle_close perfect_os (OpenIndex b) of
      (PyOk _, ClosedIndex disk) \<Rightarrow> (case py_open_index_file perfect_os disk of
          PyOk h \<Rightarrow> holds_tree h (Lf 1 []) \<and> IndexHandle_get_unique h = (PyOk True, h) \<and>
            IndexHandle_get_descending h = (PyOk False, h) \<and> IndexHandle_get_field_path h = (PyOk (c_string [97]), h)
        | _ \<Rightarrow> False)
    | _ \<Rightarrow> False)"
proof -
  obtain b where b: "bson_btree_create perfect_os [97] 2 True False [] = Ok b" "index_holds b [97] 2 True False (Lf 1 [])"
    by (rule btree_create_ok [OF perfect_os_succeeds, of "[97]" "[]" 2 True False]) simp_all
  show ?thesis
    by (rule exI [of _ b], rule conjI [OF b(1)], rule index_reopen [OF perfect_os_succeeds b(2)])
qed

text \<open>
  A unique index file of which \<open>n\<close> offsets were ever inserted uses at most \<open>2 * n + 1\<close> pages.
\<close>

theorem index_pages_bound:
  assumes "holds_map h M used"
  shows "handle_pages h \<le> 2 * card used + 1"
proof -
  obtain t where t: "holds_tree h t" "nodes_ok t" "set (pages t) = {1..handle_pages h}"
    "distinct (map entry_off (entries t))" "used = set (map entry_off (entries t))"
    using assms by (auto simp: holds_map_def)
  note ok = holds_tree_ok [OF t(1)]
  have "handle_pages h = length (pages t)" using distinct_card [OF ok(3)] t(3) by simp
  then show ?thesis using pages_entries [OF t(2) ok(1)] distinct_card [OF t(4)] t(5) by simp
qed

theorem index_pages_bound_witness:
  "\<exists>h. holds_map h Map.empty {} \<and> handle_pages h \<le> 2 * card ({} :: nat set) + 1"
proof -
  obtain h where "holds_tree h (Lf 1 [])" "handle_unique h" "handle_pages h = 1"
    using create_index_holds [OF perfect_os_succeeds, of "[]" "[]" 2 True False] by auto
  then have "holds_map h Map.empty {}" by (rule fresh_map)
  then show ?thesis using index_pages_bound by blast
qed

end
