(* ===== verification/Bson_Datetime.thy ===== *)
theory Bson_Datetime
  imports Python_Api "HOL-Library.Signed_Division"
begin

text \<open>
  Dates of src/python_bindings/_bson_core.c: the conversion between civil dates and days since the
  epoch, and between Python's datetimes and BSON's milliseconds.

  A signed C integer is an \<open>int\<close> and its division is \<open>sdiv\<close>; the \<^verbatim>\<open>unsigned\<close> variables are 32-bit
  words. Where the 64-bit arithmetic can overflow, \<open>s64\<close> makes it a fault. Years and days that
  come from a datetime or from a 64-bit count of milliseconds keep the rest in range.
\<close>

section \<open>The code\<close>

definition s64 :: "int \<Rightarrow> int result" where
  "s64 v = (if - (2 ^ 63) \<le> v \<and> v < 2 ^ 63 then Ok v else Fault)"

definition days_from_civil :: "int \<Rightarrow> int \<Rightarrow> int \<Rightarrow> int" where
  "days_from_civil year month day =
     (let year = year - (if month \<le> 2 then 1 else 0);
          era = (if year \<ge> 0 then year else year - 399) sdiv 400;
          yoe = word_of_int (year - era * 400) :: u32;
          doy = (153 * word_of_int (month + (if month > 2 then -3 else 9)) + 2) div 5 + word_of_int day - 1;
          doe = yoe * 365 + yoe div 4 - yoe div 100 + doy
      in era * 146097 + uint doe - 719468)"

definition civil_from_days :: "int \<Rightarrow> int \<times> u32 \<times> u32" where
  "civil_from_days days_since_epoch =
     (let z = days_since_epoch + 719468;
          era = (if z \<ge> 0 then z else z - 146096) sdiv 146097;
          doe = word_of_int (z - era * 146097) :: u32;
          yoe = (doe - doe div 1460 + doe div 36524 - doe div 146096) div 365;
          computed_year = uint yoe + era * 400;
          doy = doe - (365 * yoe + yoe div 4 - yoe div 100);
          mp = (5 * doy + 2) div 153;
          day = doy - (153 * mp + 2) div 5 + 1;
          month = mp + (if mp < 10 then 3 else -9);
          year = sint (word_of_int (computed_year + (if month \<le> 2 then 1 else 0)) :: u32)
      in (year, month, day))"

definition floordiv_i64 :: "int \<Rightarrow> int \<Rightarrow> int" where
  "floordiv_i64 dividend divisor =
     (let quotient = dividend sdiv divisor; remainder = dividend smod divisor in
      if remainder \<noteq> 0 \<and> (remainder < 0) \<noteq> (divisor < 0) then quotient - 1 else quotient)"

text \<open>
  The UTC offset of a datetime: none without a \<^verbatim>\<open>tzinfo\<close>; otherwise what \<^verbatim>\<open>utcoffset()\<close> gives, which
  is Python code: \<^verbatim>\<open>None\<close>, an exception, or a \<^verbatim>\<open>timedelta\<close>. Of the latter the model keeps the number
  \<^verbatim>\<open>(int64_t)(secs * 1000.0)\<close>, the offset in milliseconds; its floating-point product is not modelled.
\<close>

datatype utc_offset = Naive | NoOffset | OffsetRaises py_error | OffsetMs int

record py_datetime =
  dt_year :: int
  dt_month :: int
  dt_day :: int
  dt_hour :: int
  dt_minute :: int
  dt_second :: int
  dt_microsecond :: int
  dt_offset :: utc_offset

definition datetime_to_epoch_ms :: "py_datetime \<Rightarrow> int capi" where
  "datetime_to_epoch_ms d =
     (let days = days_from_civil (dt_year d) (dt_month d) (dt_day d) in
      capi_bind (capi_ok (s64 (days * 86400000))) (\<lambda>day_ms.
      capi_bind (capi_ok (s64 (day_ms + dt_hour d * 3600000 + dt_minute d * 60000 + dt_second d * 1000 +
        dt_microsecond d sdiv 1000))) (\<lambda>ms.
      case dt_offset d of
        Naive \<Rightarrow> capi_ok (Ok ms)
      | NoOffset \<Rightarrow> capi_ok (Ok ms)
      | OffsetRaises exc \<Rightarrow> capi_raised BSON_ERR_UNSUPPORTED_PYTHON_TYPE exc
      | OffsetMs off \<Rightarrow> capi_ok (s64 (ms - off)))))"

text \<open>
  \<^verbatim>\<open>PyDateTime_FromDateAndTime\<close> raises on a field out of range; that the fields are in range is
  \<open>datetime_of_ms_valid\<close>.
\<close>

definition datetime_from_epoch_ms :: "int \<Rightarrow> py_datetime result" where
  "datetime_from_epoch_ms ms =
     (let days = floordiv_i64 ms 86400000 in
      rbind (s64 (days * 86400000)) (\<lambda>day_ms.
      rbind (s64 (ms - day_ms)) (\<lambda>rem.
      let (year, month, day) = civil_from_days days;
          hour = rem sdiv 3600000; rem = rem smod 3600000;
          minute = rem sdiv 60000; rem = rem smod 60000;
          second = rem sdiv 1000; rem = rem smod 1000;
          microsecond = rem * 1000
      in if year < 1 \<or> year > 9999 then Err BSON_ERR_VALUE_OUT_OF_RANGE
         else Ok \<lparr>dt_year = year, dt_month = uint month, dt_day = uint day, dt_hour = hour, dt_minute = minute,
                  dt_second = second, dt_microsecond = microsecond, dt_offset = Naive\<rparr>)))"

section \<open>The calendar\<close>

text \<open>The proleptic Gregorian calendar, by its rules.\<close>

definition leap_year :: "int \<Rightarrow> bool" where
  "leap_year y \<longleftrightarrow> (4 dvd y \<and> \<not> 100 dvd y) \<or> 400 dvd y"

definition month_length :: "int \<Rightarrow> int \<Rightarrow> int" where
  "month_length y m = (if m = 2 then (if leap_year y then 29 else 28)
     else if m \<in> {4, 6, 9, 11} then 30 else 31)"

definition valid_date :: "int \<Rightarrow> int \<Rightarrow> int \<Rightarrow> bool" where
  "valid_date y m d \<longleftrightarrow> 1 \<le> m \<and> m \<le> 12 \<and> 1 \<le> d \<and> d \<le> month_length y m"

definition next_date :: "int \<times> int \<times> int \<Rightarrow> int \<times> int \<times> int" where
  "next_date = (\<lambda>(y, m, d).
     if d < month_length y m then (y, m, d + 1) else if m < 12 then (y, m + 1, 1) else (y + 1, 1, 1))"

section \<open>Days of a date\<close>

lemma u32_add: "uint a + uint b < 2 ^ 32 \<Longrightarrow> uint (a + b :: u32) = uint a + uint b"
  by (simp add: uint_word_ariths)

lemma u32_mult: "uint a * uint b < 2 ^ 32 \<Longrightarrow> uint (a * b :: u32) = uint a * uint b"
  by (simp add: uint_word_ariths)

lemma u32_diff: "uint b \<le> uint a \<Longrightarrow> uint (a - b :: u32) = uint a - uint b"
  by (simp add: uint_sub_lem [THEN iffD1])

lemma u32_of_int: "0 \<le> v \<Longrightarrow> v < 2 ^ 32 \<Longrightarrow> uint (word_of_int v :: u32) = v"
  by (simp add: unsigned_of_int take_bit_int_eq_self)

lemma u32_div: "uint (a div b :: u32) = uint a div uint b"
  by (rule uint_div)

text \<open>Division rounding down.\<close>

lemma floor_sdiv: "0 < n \<Longrightarrow> (if 0 \<le> y then y else y - (n - 1)) sdiv n = y div (n :: int)"
proof -
  assume n: "0 < n"
  have "(y - (n - 1)) sdiv n = y div n" if "y < 0"
  proof -
    have neg: "y - (n - 1) < 0" using that n by simp
    have "(y - (n - 1)) sdiv n = - ((- y + (n - 1)) div n)"
      using neg n by (simp add: signed_divide_int_def sgn_if)
    also have "(- y + (n - 1)) div n = - (y div n)"
    proof -
      define q r where "q = y div n" and "r = y mod n"
      have y: "y = n * q + r" "0 \<le> r" "r < n" using n by (simp_all add: q_def r_def)
      have e: "- y + (n - 1) = n * (- q) + (n - 1 - r)" by (simp add: y(1))
      have "(n * (- q) + (n - 1 - r)) div n = - q + (n - 1 - r) div n" using n by (intro div_mult_self4) simp
      also have "(n - 1 - r) div n = 0" using y n by (simp add: div_pos_pos_trivial)
      finally show ?thesis unfolding e by (simp add: q_def)
    qed
    finally show ?thesis by simp
  qed
  moreover have "y sdiv n = y div n" if "0 \<le> y" using that n by (simp add: signed_divide_int_def sgn_if)
  ultimately show ?thesis by simp
qed

text \<open>The months, from March on: the day of the year on which a month starts.\<close>

definition shifted_month :: "int \<Rightarrow> int" where
  "shifted_month m = m + (if m > 2 then -3 else 9)"

definition month_start :: "int \<Rightarrow> int" where
  "month_start mp = (153 * mp + 2) div 5"

definition day_count :: "int \<Rightarrow> int" where
  "day_count y = 365 * y + y div 4 - y div 100 + y div 400"

lemma shifted_month_range: "1 \<le> m \<Longrightarrow> m \<le> 12 \<Longrightarrow> 0 \<le> shifted_month m \<and> shifted_month m \<le> 11"
  by (auto simp: shifted_month_def)

lemma month_start_range: "0 \<le> mp \<Longrightarrow> mp \<le> 11 \<Longrightarrow> 0 \<le> month_start mp \<and> month_start mp \<le> 337"
  proof -
  assume mp: "0 \<le> mp" "mp \<le> 11"
  then have "(153 * mp + 2) div 5 \<le> (153 * 11 + 2) div 5" by (intro zdiv_mono1) simp_all
  then show ?thesis using mp by (simp add: month_start_def pos_imp_zdiv_nonneg_iff)
qed

lemma era_split: "y - y div 400 * 400 = y mod (400 :: int)" "0 \<le> y mod (400 :: int)" "y mod 400 \<le> (399 :: int)"
  using pos_mod_bound [of 400 y] by (simp_all add: minus_div_mult_eq_mod)

lemma day_count_era: "day_count y = y div 400 * 146097 + day_count (y mod 400)"
proof -
  define q r where "q = y div 400" and "r = y mod 400"
  have y: "y = 400 * q + r" "0 \<le> r" "r < 400" by (simp_all add: q_def r_def)
  have "y div 4 = 100 * q + r div 4" "y div 100 = 4 * q + r div 100" "y div 400 = q + r div 400"
    using y(1) by simp_all
  then show ?thesis
    by (simp add: day_count_def q_def [symmetric] r_def [symmetric]) (simp add: y(1))
qed

lemma days_from_civil_eq:
  assumes m: "1 \<le> m" "m \<le> 12" and d: "1 \<le> d" "d \<le> 31"
  shows "days_from_civil y m d =
    day_count (y - (if m \<le> 2 then 1 else 0)) + month_start (shifted_month m) + d - 1 - 719468"
proof -
  define y' where "y' = y - (if m \<le> 2 then 1 else 0)"
  define Y where "Y = y' mod 400"
  define mp where "mp = shifted_month m"
  have Y: "0 \<le> Y" "Y \<le> 399" using era_split(2,3) by (simp_all add: Y_def)
  have mp: "0 \<le> mp" "mp \<le> 11" using shifted_month_range [OF m] by (simp_all add: mp_def)
  have ms: "0 \<le> month_start mp" "month_start mp \<le> 337" using month_start_range [OF mp] by simp_all
  define yoe where "yoe = (word_of_int Y :: u32)"
  have yoe: "uint yoe = Y" using Y by (simp add: yoe_def u32_of_int)
  define doy where "doy = (153 * word_of_int mp + 2) div 5 + word_of_int d - (1 :: u32)"
  have "uint (153 * word_of_int mp :: u32) = 153 * mp" using mp by (subst u32_mult) (simp_all add: u32_of_int)
  then have "uint (153 * word_of_int mp + 2 :: u32) = 153 * mp + 2" using mp by (subst u32_add) simp_all
  then have "uint ((153 * word_of_int mp + 2) div 5 :: u32) = month_start mp"
    by (simp add: u32_div month_start_def)
  then have "uint ((153 * word_of_int mp + 2) div 5 + word_of_int d :: u32) = month_start mp + d"
    using ms d by (subst u32_add) (simp_all add: u32_of_int)
  then have doy: "uint doy = month_start mp + d - 1" unfolding doy_def using ms d by (subst u32_diff) simp_all
  have q: "Y div 4 \<le> 99" "0 \<le> Y div 4" "Y div 100 \<le> Y div 4" "0 \<le> Y div 100" "Y div 400 = 0" using Y by simp_all
  have "uint (yoe * 365) = Y * 365" using Y by (subst u32_mult) (simp_all add: yoe)
  then have "uint (yoe * 365 + yoe div 4) = Y * 365 + Y div 4" using Y q by (subst u32_add) (simp_all add: yoe u32_div)
  then have "uint (yoe * 365 + yoe div 4 - yoe div 100) = Y * 365 + Y div 4 - Y div 100"
    using Y q by (subst u32_diff) (simp_all add: yoe u32_div)
  then have "uint (yoe * 365 + yoe div 4 - yoe div 100 + doy) = Y * 365 + Y div 4 - Y div 100 + uint doy"
    using Y q ms d by (subst u32_add) (simp_all add: doy)
  moreover have "(if y' \<ge> 0 then y' else y' - 399) sdiv 400 = y' div 400" using floor_sdiv [of 400 y'] by (simp split: if_splits)
  moreover have "word_of_int (y' - y' div 400 * 400) = yoe" by (simp add: yoe_def Y_def era_split(1))
  ultimately have "days_from_civil y m d = y' div 400 * 146097 + (Y * 365 + Y div 4 - Y div 100 + uint doy) - 719468"
    unfolding days_from_civil_def Let_def
    by (simp only: y'_def [symmetric] doy_def [symmetric] mp_def [symmetric] shifted_month_def [symmetric])
  also have "\<dots> = day_count y' + month_start mp + d - 1 - 719468"
    using q(5) by (simp add: day_count_era [of y'] doy Y_def [symmetric]) (simp add: day_count_def)
  finally show ?thesis by (simp add: y'_def mp_def)
qed

lemma div_plus_one: "0 < n \<Longrightarrow> (y + 1) div n = y div n + (if n dvd y + 1 then 1 else (0 :: int))"
proof -
  assume n: "0 < n"
  define q r where "q = y div n" and "r = y mod n"
  have y: "y + 1 = n * q + (r + 1)" "0 \<le> r" "r < n" using n by (simp_all add: q_def r_def)
  have "n dvd y + 1 \<longleftrightarrow> n dvd r + 1" unfolding y(1) by (simp add: dvd_add_right_iff)
  also have "\<dots> \<longleftrightarrow> r + 1 = n" using y n by (auto dest: zdvd_imp_le)
  finally have d: "n dvd y + 1 \<longleftrightarrow> r + 1 = n" .
  have "(y + 1) div n = q + (r + 1) div n" unfolding y(1) using n by simp
  also have "(r + 1) div n = (if r + 1 = n then 1 else 0)" using y n by (simp add: div_pos_pos_trivial)
  finally show ?thesis using d by (simp add: q_def)
qed

lemma day_count_step: "day_count (y + 1) = day_count y + (if leap_year (y + 1) then 366 else 365)"
proof -
  have "(100 dvd y + 1 \<longrightarrow> 4 dvd y + 1) \<and> (400 dvd y + 1 \<longrightarrow> 100 dvd y + 1)"
    by (auto intro: dvd_trans [of 4 100] dvd_trans [of 100 400])
  then show ?thesis by (auto simp: day_count_def div_plus_one leap_year_def)
qed

lemma months_12: "1 \<le> (m :: int) \<Longrightarrow> m \<le> 12 \<Longrightarrow> m \<in> {1, 2, 3, 4, 5, 6, 7, 8, 9, 10, 11, 12}"
  by simp presburger

lemma month_length_le: "month_length y m \<le> 31"
  by (simp add: month_length_def)

text \<open>The day after a date has the next number.\<close>

lemma days_of_next_date:
  assumes "valid_date y m d"
  shows "(case next_date (y, m, d) of (y', m', d') \<Rightarrow> valid_date y' m' d' \<and> days_from_civil y' m' d' = days_from_civil y m d + 1)"
proof -
  have m: "1 \<le> m" "m \<le> 12" and d: "1 \<le> d" "d \<le> month_length y m" "d \<le> 31"
    using assms month_length_le [of y m] by (simp_all add: valid_date_def)
  show ?thesis
  proof (cases "d < month_length y m")
    case True
    then show ?thesis
      using m d month_length_le [of y m]
      by (simp add: next_date_def valid_date_def days_from_civil_eq)
  next
    case False
    then have e: "d = month_length y m" using d by simp
    show ?thesis
      using months_12 [OF m] day_count_step [of "y - 1"] d
      unfolding e
      by (elim insertE) (simp_all add: next_date_def valid_date_def days_from_civil_eq month_length_def
          shifted_month_def month_start_def)
  qed
qed

lemma le_div_iff_int: "0 < n \<Longrightarrow> k \<le> x div n \<longleftrightarrow> k * n \<le> (x :: int)"
proof
  assume n: "0 < n" and "k \<le> x div n"
  then have "k * n \<le> x div n * n" by simp
  also have "\<dots> \<le> x" using n pos_mod_sign [OF n, of x] by (simp add: minus_mod_eq_div_mult [symmetric])
  finally show "k * n \<le> x" .
next
  assume n: "0 < n" and "k * n \<le> x"
  then have "k * n div n \<le> x div n" by (intro zdiv_mono1)
  then show "k \<le> x div n" using n by simp
qed

lemma month_start_iff:
  "month_start mp \<le> doy \<and> doy < month_start (mp + 1) \<longleftrightarrow> mp = (5 * doy + 2) div 153"
proof -
  have "month_start mp \<le> doy \<longleftrightarrow> \<not> doy + 1 \<le> month_start mp" by auto
  also have "\<dots> \<longleftrightarrow> mp * 153 \<le> 5 * doy + 2" unfolding month_start_def le_div_iff_int [OF zero_less_numeral] by auto
  finally have 1: "month_start mp \<le> doy \<longleftrightarrow> mp \<le> (5 * doy + 2) div 153"
    by (simp add: le_div_iff_int)
  have "doy < month_start (mp + 1) \<longleftrightarrow> doy + 1 \<le> month_start (mp + 1)" by auto
  also have "\<dots> \<longleftrightarrow> \<not> (mp + 1) * 153 \<le> 5 * doy + 2" unfolding month_start_def le_div_iff_int [OF zero_less_numeral] by auto
  finally have 2: "doy < month_start (mp + 1) \<longleftrightarrow> \<not> mp + 1 \<le> (5 * doy + 2) div 153"
    by (simp add: le_div_iff_int)
  show ?thesis unfolding 1 2 by auto
qed

text \<open>Days of an era, by century, group of four years, year, and day of the year.\<close>

definition era_day :: "int \<Rightarrow> int \<Rightarrow> int \<Rightarrow> int \<Rightarrow> bool" where
  "era_day c q r doy \<longleftrightarrow> 0 \<le> c \<and> c \<le> 3 \<and> 0 \<le> q \<and> q \<le> 24 \<and> 0 \<le> r \<and> r \<le> 3 \<and> 0 \<le> doy \<and>
     (doy \<le> 364 \<or> doy = 365 \<and> r = 3 \<and> (q \<noteq> 24 \<or> c = 3))"

lemma era_day_exists:
  assumes "0 \<le> D" "D \<le> 146096"
  obtains c q r doy where "era_day c q r doy" "D = 36524 * c + 1461 * q + 365 * r + doy"
proof -
  define c where "c = min (D div 36524) 3"
  define D1 where "D1 = D - 36524 * c"
  have D: "36524 * (D div 36524) \<le> D" "D < 36524 * (D div 36524) + 36524" by linarith+
  have c: "0 \<le> c" "c \<le> 3" using assms by (simp_all add: c_def pos_imp_zdiv_nonneg_iff)
  have "0 \<le> D1 \<and> (D1 \<le> 36523 \<or> c = 3 \<and> D1 = 36524)"
  proof (cases "D div 36524 \<le> 3")
    case True
    then show ?thesis using D by (simp add: c_def D1_def)
  next
    case False
    then have "4 * 36524 \<le> D" using D by linarith
    then show ?thesis using assms False by (simp add: c_def D1_def)
  qed
  then have D1: "0 \<le> D1" "D1 \<le> 36523 \<or> c = 3 \<and> D1 = 36524" by auto
  define q where "q = D1 div 1461"
  define D2 where "D2 = D1 - 1461 * q"
  have q: "0 \<le> q" "0 \<le> D2" "D2 \<le> 1460" using D1 by (simp_all add: q_def D2_def pos_imp_zdiv_nonneg_iff minus_mult_div_eq_mod)
  have "1461 * q \<le> 36524" using D1 q(2) by (auto simp: D2_def)
  then have q24: "q \<le> 24" by simp
  define r where "r = min (D2 div 365) 3"
  define doy where "doy = D2 - 365 * r"
  have DD: "365 * (D2 div 365) \<le> D2" "D2 < 365 * (D2 div 365) + 365" by linarith+
  have r: "0 \<le> r" "r \<le> 3" using q by (simp_all add: r_def pos_imp_zdiv_nonneg_iff)
  have "0 \<le> doy \<and> (doy \<le> 364 \<or> r = 3 \<and> doy = 365)"
  proof (cases "D2 div 365 \<le> 3")
    case True
    then show ?thesis using DD by (simp add: r_def doy_def)
  next
    case False
    then have "4 * 365 \<le> D2" using DD by linarith
    then show ?thesis using q False by (simp add: r_def doy_def)
  qed
  moreover have eq: "D1 = 1461 * q + 365 * r + doy" "D = 36524 * c + D1" by (simp_all add: D1_def D2_def doy_def)
  ultimately have "era_day c q r doy"
    using c q q24 r D1 by (auto simp: era_day_def)
  then show thesis using that [of c q r doy] eq by simp
qed

lemma div_unique: "a = n * q + r \<Longrightarrow> 0 \<le> r \<Longrightarrow> r < n \<Longrightarrow> a div n = (q :: int)"
  by (rule int_div_pos_eq)

text \<open>The year of the era, as the code computes it.\<close>

lemma era_year:
  assumes "era_day c q r doy"
  defines "D \<equiv> 36524 * c + 1461 * q + 365 * r + doy" and "Y \<equiv> 100 * c + 4 * q + r"
  shows "0 \<le> D" "D \<le> 146096" "0 \<le> Y" "Y \<le> 399" "Y div 4 = 25 * c + q" "Y div 100 = c" "D = day_count Y + doy"
    "(D - D div 1460 + D div 36524 - D div 146096) div 365 = Y"
    "leap_year (Y + 1) \<longleftrightarrow> r = 3 \<and> (q \<noteq> 24 \<or> c = 3)"
proof -
  have b: "0 \<le> c" "c \<le> 3" "0 \<le> q" "q \<le> 24" "0 \<le> r" "r \<le> 3" "0 \<le> doy" "doy \<le> 365"
    using assms(1) by (auto simp: era_day_def)
  define s where "s = 1461 * q + 365 * r + doy"
  have s: "0 \<le> s" "s \<le> 36523 \<or> c = 3 \<and> s = 36524"
    using assms(1) by (auto simp: s_def era_day_def)
  have D: "D = 36524 * c + s" by (simp add: D_def s_def)
  show "0 \<le> D" "D \<le> 146096" using b s by (auto simp: D)
  show Y: "0 \<le> Y" "Y \<le> 399" using b by (simp_all add: Y_def)
  show y4: "Y div 4 = 25 * c + q" by (rule div_unique [where r = r]) (use b in \<open>simp_all add: Y_def\<close>)
  show y100: "Y div 100 = c" by (rule div_unique [where r = "4 * q + r"]) (use b in \<open>simp_all add: Y_def\<close>)
  show "D = day_count Y + doy" using y4 y100 Y by (simp add: day_count_def D_def) (simp add: Y_def)
  define e where "e = (if 1460 \<le> 24 * c + q + 365 * r + doy then 1 else (0 :: int))"
  have d1: "D div 1460 = 25 * c + q + e"
    by (rule div_unique [where r = "24 * c + q + 365 * r + doy - 1460 * e"]) (use b in \<open>auto simp: D_def e_def\<close>)
  have d2: "D div 36524 - D div 146096 = c"
  proof (cases "s = 36524")
    case True
    then show ?thesis using s by (simp add: D)
  next
    case False
    then have "s \<le> 36523" using s by auto
    then have "D div 36524 = c" using s(1) by (intro div_unique [where r = s]) (simp_all add: D)
    moreover have "D div 146096 = 0" using b s(1) \<open>s \<le> 36523\<close> by (intro div_pos_pos_trivial) (simp_all add: D)
    ultimately show ?thesis by simp
  qed
  have doy: "0 \<le> doy - e" "doy - e \<le> 364" using assms(1) b by (auto simp: e_def era_day_def)
  have "D - D div 1460 + D div 36524 - D div 146096 = 365 * Y + (doy - e)"
    using d1 d2 by (simp add: D_def Y_def)
  then show "(D - D div 1460 + D div 36524 - D div 146096) div 365 = Y"
    using doy by (intro div_unique [where r = "doy - e"]) simp_all
  have "4 dvd Y + 1 \<longleftrightarrow> 4 dvd r + 1"
    using dvd_add_right_iff [of 4 "100 * c + 4 * q" "r + 1"] by (simp add: Y_def add.assoc)
  also have "\<dots> \<longleftrightarrow> r = 3" using b by presburger
  finally have l4: "4 dvd Y + 1 \<longleftrightarrow> r = 3" .
  have "100 dvd Y + 1 \<longleftrightarrow> 100 dvd 4 * q + r + 1"
    using dvd_add_right_iff [of 100 "100 * c" "4 * q + r + 1"] by (simp add: Y_def add.assoc)
  also have "\<dots> \<longleftrightarrow> 4 * q + r + 1 = 100" using b by (auto dest: zdvd_imp_le)
  also have "\<dots> \<longleftrightarrow> q = 24 \<and> r = 3" using b by presburger
  finally have l100: "100 dvd Y + 1 \<longleftrightarrow> q = 24 \<and> r = 3" .
  have l400: "400 dvd Y + 1 \<longleftrightarrow> c = 3 \<and> q = 24 \<and> r = 3"
    using Y by (auto dest!: zdvd_imp_le simp: Y_def) (use b in auto)
  show "leap_year (Y + 1) \<longleftrightarrow> r = 3 \<and> (q \<noteq> 24 \<or> c = 3)" using l4 l100 l400 by (auto simp: leap_year_def)
qed


lemma sint_u32: "- (2 ^ 31) \<le> v \<Longrightarrow> v < 2 ^ 31 \<Longrightarrow> sint (word_of_int v :: u32) = v"
  by (simp add: signed_of_int signed_take_bit_int_eq_self)

text \<open>What the code computes from a day of an era.\<close>

lemma civil_from_days_eq:
  assumes e: "era_day c q r doy" and n: "n = era * 146097 + (36524 * c + 1461 * q + 365 * r + doy) - 719468"
  defines "y \<equiv> era * 400 + 100 * c + 4 * q + r" and "mp \<equiv> (5 * doy + 2) div 153"
  defines "m \<equiv> (if mp < 10 then mp + 3 else mp - 9)"
  assumes y: "- (2 ^ 31) \<le> y" "y + 1 < 2 ^ 31"
  shows "civil_from_days n = (y + (if m \<le> 2 then 1 else 0), word_of_int m, word_of_int (doy - month_start mp + 1))"
    "1 \<le> m" "m \<le> 12" "mp = shifted_month m" "0 \<le> mp" "mp \<le> 11" "month_start mp \<le> doy" "doy < month_start (mp + 1)"
proof -
  define D where "D = 36524 * c + 1461 * q + 365 * r + doy"
  define Y where "Y = 100 * c + 4 * q + r"
  note era = era_year [OF e, folded D_def Y_def]
  have doy: "0 \<le> doy" "doy \<le> 365" using e by (auto simp: era_day_def)
  have "mp = (5 * doy + 2) div 153" by (simp add: mp_def)
  then show ms: "month_start mp \<le> doy" "doy < month_start (mp + 1)" using month_start_iff [of mp doy] by simp_all
  show mp: "0 \<le> mp" "mp \<le> 11"
    using doy zdiv_mono1 [of "5 * doy + 2" "5 * 365 + 2" 153] by (simp_all add: mp_def pos_imp_zdiv_nonneg_iff)
  show m: "1 \<le> m" "m \<le> 12" "mp = shifted_month m" using mp by (auto simp: m_def shifted_month_def)
  have ms': "0 \<le> month_start mp" "month_start mp \<le> 337" using month_start_range [OF mp] by simp_all
  define doe where "doe = (word_of_int D :: u32)"
  have doe: "uint doe = D" unfolding doe_def by (rule u32_of_int) (use era(1,2) in simp_all)
  have q: "0 \<le> D div 1460" "0 \<le> D div 36524" "0 \<le> D div 146096" using era(1) by (simp_all add: pos_imp_zdiv_nonneg_iff)
  have q2: "D div 1460 \<le> D" using zdiv_mono2 [of D 1 1460] era(1) by simp
  have q3: "D div 36524 \<le> 4" using zdiv_mono1 [of D 146096 36524] era(2) by simp
  have q4: "D div 146096 \<le> D div 36524" using zdiv_mono2 [of D 36524 146096] era(1) by simp
  note q = q q2 q3 q4
  define yoe where "yoe = (doe - doe div 1460 + doe div 36524 - doe div 146096) div 365"
  have "uint (doe - doe div 1460) = D - D div 1460" using q by (subst u32_diff) (simp_all add: doe u32_div)
  then have "uint (doe - doe div 1460 + doe div 36524) = D - D div 1460 + D div 36524"
    using q era(1,2) by (subst u32_add) (simp_all add: doe u32_div)
  then have "uint (doe - doe div 1460 + doe div 36524 - doe div 146096) = D - D div 1460 + D div 36524 - D div 146096"
    using q by (subst u32_diff) (simp_all add: doe u32_div)
  then have yoe: "uint yoe = Y" using era(8) by (simp add: yoe_def u32_div)
  have c: "0 \<le> c" "c \<le> 25 * c + q" using e by (simp_all add: era_day_def)
  define dy where "dy = doe - (365 * yoe + yoe div 4 - yoe div 100)"
  have "uint (365 * yoe) = 365 * Y" using era(3,4) by (subst u32_mult) (simp_all add: yoe)
  then have "uint (365 * yoe + yoe div 4) = 365 * Y + Y div 4" using era(3-5) e by (subst u32_add) (simp_all add: yoe u32_div)
  then have "uint (365 * yoe + yoe div 4 - yoe div 100) = 365 * Y + Y div 4 - Y div 100"
    using era(3-6) c by (subst u32_diff) (simp_all add: yoe u32_div)
  also have "\<dots> = D - doy" using era(3,4,7) by (simp add: day_count_def)
  finally have dy: "uint dy = doy" using doy by (simp add: dy_def u32_diff doe)
  define mpw where "mpw = (5 * dy + 2) div 153"
  have "uint (5 * dy) = 5 * doy" using doy by (subst u32_mult) (simp_all add: dy)
  then have "uint (5 * dy + 2) = 5 * doy + 2" using doy by (subst u32_add) simp_all
  then have mpw: "uint mpw = mp" by (simp add: mpw_def mp_def u32_div)
  have "uint (153 * mpw) = 153 * mp" using mp by (subst u32_mult) (simp_all add: mpw)
  then have "uint (153 * mpw + 2) = 153 * mp + 2" using mp by (subst u32_add) simp_all
  then have "uint ((153 * mpw + 2) div 5) = month_start mp" by (simp add: u32_div month_start_def)
  then have "uint (dy - (153 * mpw + 2) div 5) = doy - month_start mp" using ms by (subst u32_diff) (simp_all add: dy)
  then have "uint (dy - (153 * mpw + 2) div 5 + 1) = doy - month_start mp + 1"
    using doy ms ms' by (subst u32_add) simp_all
  then have day: "dy - (153 * mpw + 2) div 5 + 1 = word_of_int (doy - month_start mp + 1)"
    by (metis word_of_int_uint)
  have mw: "mpw = word_of_int mp" by (metis mpw word_of_int_uint)
  have lt: "mpw < 10 \<longleftrightarrow> mp < 10" by (simp add: word_less_def mpw)
  have month: "mpw + (if mpw < 10 then 3 else -9) = word_of_int m"
    unfolding lt by (simp add: mw m_def)
  have le2: "(word_of_int m :: u32) \<le> 2 \<longleftrightarrow> m \<le> 2" using m by (simp add: word_le_def u32_of_int)
  define z where "z = n + 719468"
  have zD: "z = 146097 * era + D" by (simp add: z_def n D_def)
  then have "z div 146097 = era" using era(1,2) by (intro div_unique [where r = D]) simp_all
  then have zera: "(if z \<ge> 0 then z else z - 146096) sdiv 146097 = era" "z - era * 146097 = D"
    using floor_sdiv [of 146097 z] zD by (simp_all split: if_splits)
  have yr: "sint (word_of_int (Y + era * 400 + (if m \<le> 2 then 1 else 0)) :: u32) = y + (if m \<le> 2 then 1 else 0)"
  proof -
    have "Y + era * 400 + (if m \<le> 2 then 1 else 0) = y + (if m \<le> 2 then 1 else 0)" by (simp add: y_def Y_def)
    then show ?thesis using y by (simp only: ) (rule sint_u32; simp)
  qed
  show "civil_from_days n = (y + (if m \<le> 2 then 1 else 0), word_of_int m, word_of_int (doy - month_start mp + 1))"
    unfolding civil_from_days_def Let_def z_def [symmetric] zera doe_def [symmetric] yoe_def [symmetric]
      dy_def [symmetric] mpw_def [symmetric] day month le2 yoe yr by simp
qed


lemma leap_year_era: "leap_year (era * 400 + y) \<longleftrightarrow> leap_year y"
proof -
  have "k dvd era * 400 + y \<longleftrightarrow> k dvd y" if "k dvd 400" for k :: int
    using that by (simp add: dvd_add_right_iff)
  then show ?thesis by (simp add: leap_year_def)
qed

lemma day_count_eras: "day_count (era * 400 + y) = era * 146097 + day_count y"
  using day_count_era [of "era * 400 + y"] day_count_era [of y]
  by simp

lemma month_end:
  assumes "1 \<le> m" "m \<le> 12" "m \<noteq> 2"
  shows "month_start (shifted_month m + 1) = month_start (shifted_month m) + month_length y m"
  using months_12 [OF assms(1,2)] assms(3)
  by (elim insertE) (simp_all add: shifted_month_def month_start_def month_length_def)

text \<open>The two directions are inverse to each other, on all days that occur.\<close>

lemma civil_of_days:
  assumes "- 200000000000 \<le> n" "n \<le> 200000000000"
  obtains y m d where "civil_from_days n = (y, word_of_int m, word_of_int d)" "valid_date y m d" "days_from_civil y m d = n"
proof -
  define z where "z = n + 719468"
  define era where "era = z div 146097"
  have z: "z = 146097 * era + z mod 146097" "0 \<le> z mod 146097" "z mod 146097 \<le> 146096"
    using pos_mod_bound [of 146097 z] by (simp_all add: era_def)
  obtain c q r doy where e: "era_day c q r doy" "z mod 146097 = 36524 * c + 1461 * q + 365 * r + doy"
    using era_day_exists [OF z(2,3)] .
  define Y where "Y = 100 * c + 4 * q + r"
  note ey = era_year [OF e(1), folded Y_def]
  have n: "n = era * 146097 + (36524 * c + 1461 * q + 365 * r + doy) - 719468" using z(1) e(2) by (simp add: z_def)
  have eb: "- 2000000 \<le> era" "era \<le> 2000000" using z assms by (auto simp: z_def)
  define mp m where "mp = (5 * doy + 2) div 153" and "m = (if mp < 10 then mp + 3 else mp - 9)"
  define y' where "y' = era * 400 + 100 * c + 4 * q + r"
  define d where "d = doy - month_start mp + 1"
  define y where "y = y' + (if m \<le> 2 then 1 else 0)"
  have y': "y' = era * 400 + Y" by (simp add: y'_def Y_def)
  have yb: "- (2 ^ 31) \<le> y'" "y' + 1 < 2 ^ 31" using eb ey(3,4) by (simp_all add: y')
  note cv = civil_from_days_eq [OF e(1) n, folded y'_def, folded mp_def, folded m_def, folded d_def y_def, OF yb]
  have doy: "0 \<le> doy" "doy \<le> 364 \<or> doy = 365 \<and> leap_year (Y + 1)" using e(1) ey(9) by (auto simp: era_day_def)
  have len: "d \<le> month_length y m"
  proof (cases "m = 2")
    case True
    then have "mp = 11" using cv(4) by (simp add: shifted_month_def)
    moreover have "leap_year y \<longleftrightarrow> leap_year (Y + 1)"
      using True leap_year_era [of era "Y + 1"] by (simp add: y_def y' add.assoc)
    ultimately show ?thesis using True doy(2) by (auto simp: d_def month_length_def month_start_def)
  next
    case False
    then show ?thesis using month_end [OF cv(2,3), of y] cv(4,8) by (simp add: d_def)
  qed
  have v: "valid_date y m d" using cv len by (simp add: valid_date_def d_def)
  have "days_from_civil y m d = day_count y' + month_start mp + d - 1 - 719468"
    using cv len month_length_le [of y m] by (subst days_from_civil_eq) (simp_all add: y_def d_def)
  also have "\<dots> = n" using ey(7) by (simp add: y' day_count_eras d_def n)
  finally show thesis using that [OF cv(1) v] by blast
qed

lemma days_of_civil:
  assumes v: "valid_date y m d" and y: "- 2000000000 \<le> y" "y \<le> 2000000000"
  shows "civil_from_days (days_from_civil y m d) = (y, word_of_int m, word_of_int d)"
proof -
  have m: "1 \<le> m" "m \<le> 12" and d: "1 \<le> d" "d \<le> month_length y m" "d \<le> 31"
    using v month_length_le [of y m] by (simp_all add: valid_date_def)
  define y' where "y' = y - (if m \<le> 2 then 1 else 0)"
  define era Y where "era = y' div 400" and "Y = y' mod 400"
  define c q r where "c = Y div 100" and "q = Y mod 100 div 4" and "r = Y mod 100 mod 4"
  have Y: "0 \<le> Y" "Y \<le> 399" "y' = era * 400 + Y" using era_split(2,3) by (simp_all add: Y_def era_def)
  have cqr: "Y = 100 * c + 4 * q + r" "0 \<le> c" "c \<le> 3" "0 \<le> q" "q \<le> 24" "0 \<le> r" "r \<le> 3"
  proof -
    have "0 \<le> Y mod 100" "Y mod 100 \<le> 99" using pos_mod_bound [of 100 Y] by simp_all
    then show "0 \<le> q" "q \<le> 24" using zdiv_mono1 [of "Y mod 100" 99 4] by (simp_all add: q_def pos_imp_zdiv_nonneg_iff)
    show "0 \<le> c" "c \<le> 3" using Y zdiv_mono1 [of Y 399 100] by (simp_all add: c_def pos_imp_zdiv_nonneg_iff)
    show "0 \<le> r" "r \<le> 3" using pos_mod_bound [of 4 "Y mod 100"] by (simp_all add: r_def)
    have "4 * q + r = Y mod 100" by (simp add: q_def r_def)
    then show "Y = 100 * c + 4 * q + r" by (simp add: c_def add.assoc)
  qed
  have e0: "era_day c q r 0" using cqr by (simp add: era_day_def)
  note ey0 = era_year [OF e0, folded cqr(1)]
  define mp where "mp = shifted_month m"
  have mp: "0 \<le> mp" "mp \<le> 11" using shifted_month_range [OF m] by (simp_all add: mp_def)
  define doy where "doy = month_start mp + d - 1"
  have ms: "0 \<le> month_start mp" using month_start_range [OF mp] by simp
  have doy: "month_start mp \<le> doy" "doy < month_start (mp + 1)" "doy \<le> 364 \<or> doy = 365 \<and> leap_year (Y + 1)"
  proof -
    show "month_start mp \<le> doy" using d by (simp add: doy_def)
    have "doy < month_start (mp + 1) \<and> (doy \<le> 364 \<or> doy = 365 \<and> leap_year (Y + 1))"
    proof (cases "m = 2")
      case True
      moreover have "leap_year y \<longleftrightarrow> leap_year (Y + 1)"
        using True Y(3) leap_year_era [of era "Y + 1"] by (simp add: y'_def algebra_simps)
      ultimately show ?thesis
        using d by (auto simp: doy_def mp_def shifted_month_def month_start_def month_length_def)
    next
      case False
      moreover have "mp \<le> 10" using False m by (auto simp: mp_def shifted_month_def)
      then have "month_start (mp + 1) \<le> 337" using month_start_range [of "mp + 1"] mp by simp
      ultimately show ?thesis using month_end [OF m, of y] d by (simp add: doy_def mp_def)
    qed
    then show "doy < month_start (mp + 1)" "doy \<le> 364 \<or> doy = 365 \<and> leap_year (Y + 1)" by blast+
  qed
  have e: "era_day c q r doy" using e0 doy ms ey0(9) by (auto simp: era_day_def)
  have mpq: "(5 * doy + 2) div 153 = mp" using month_start_iff [of mp doy] doy by simp
  have n: "days_from_civil y m d = era * 146097 + (36524 * c + 1461 * q + 365 * r + doy) - 719468"
    using days_from_civil_eq [OF m d(1,3), of y] ey0(7) day_count_eras [of era Y] Y(3)
    by (simp add: y'_def [symmetric] mp_def [symmetric] doy_def)
  have y4: "era * 400 + 100 * c + 4 * q + r = y'" using Y(3) cqr(1) by simp
  have "(if mp < 10 then mp + 3 else mp - 9) = m" using m by (auto simp: mp_def shifted_month_def)
  then show ?thesis
    using civil_from_days_eq(1) [OF e n, unfolded y4 mpq] y by (simp add: y'_def doy_def split: if_splits)
qed

section \<open>Datetimes\<close>

definition valid_datetime :: "py_datetime \<Rightarrow> bool" where
  "valid_datetime d \<longleftrightarrow> 1 \<le> dt_year d \<and> dt_year d \<le> 9999 \<and> valid_date (dt_year d) (dt_month d) (dt_day d) \<and>
     0 \<le> dt_hour d \<and> dt_hour d \<le> 23 \<and> 0 \<le> dt_minute d \<and> dt_minute d \<le> 59 \<and>
     0 \<le> dt_second d \<and> dt_second d \<le> 59 \<and> 0 \<le> dt_microsecond d \<and> dt_microsecond d \<le> 999999"

text \<open>The days of the years 1 to 9999.\<close>

lemma day_count_mono:
  assumes "y \<le> y'"
  shows "day_count y + 365 * (y' - y) \<le> day_count y'"
  using assms
proof (induction y' rule: int_ge_induct)
  case (step i)
  then show ?case using day_count_step [of i] by (auto split: if_splits)
qed simp

lemma year_range:
  assumes v: "valid_date y m d"
  shows "1 \<le> y \<longleftrightarrow> - 719162 \<le> days_from_civil y m d" "y \<le> 9999 \<longleftrightarrow> days_from_civil y m d \<le> 2932896"
proof -
  have m: "1 \<le> m" "m \<le> 12" and d: "1 \<le> d" "d \<le> 31"
    using v month_length_le [of y m] by (simp_all add: valid_date_def)
  define y' where "y' = y - (if m \<le> 2 then 1 else 0)"
  define mp where "mp = shifted_month m"
  have mp: "0 \<le> mp" "mp \<le> 11" "10 \<le> mp \<longleftrightarrow> m \<le> 2" using m by (auto simp: mp_def shifted_month_def)
  define doy where "doy = month_start mp + d - 1"
  have c: "day_count 0 = 0" "day_count 1 = 365" "day_count (-1) = -366" "day_count 9999 = 3652059"
    "day_count 9998 = 3651694" "day_count 10000 = 3652425" by (simp_all add: day_count_def)
  have doy: "0 \<le> doy" "doy \<le> 365" "306 \<le> doy \<longleftrightarrow> m \<le> 2"
  proof -
    have ml: "month_start mp + d \<le> month_start (mp + 1)" if "m \<noteq> 2"
      using that v month_end [OF m, of y] by (simp add: mp_def valid_date_def)
    show "0 \<le> doy" using month_start_range [OF mp(1,2)] d by (simp add: doy_def)
    show "doy \<le> 365"
    proof (cases "m = 2")
      case True
      then show ?thesis using v by (auto simp: doy_def mp_def shifted_month_def month_start_def valid_date_def month_length_def split: if_splits)
    next
      case False
      then have "mp + 1 \<le> 11" using m by (auto simp: mp_def shifted_month_def)
      then show ?thesis using ml [OF False] month_start_range [of "mp + 1"] mp by (simp add: doy_def)
    qed
    have "month_start 10 \<le> month_start mp" if "10 \<le> mp" using that unfolding month_start_def by (intro zdiv_mono1) simp_all
    moreover have "month_start (mp + 1) \<le> month_start 10" if "mp < 10" using that unfolding month_start_def by (intro zdiv_mono1) simp_all
    moreover have "month_start 10 = 306" by (simp add: month_start_def)
    ultimately show "306 \<le> doy \<longleftrightarrow> m \<le> 2" using mp(3) ml d by (cases "m \<le> 2") (force simp: doy_def)+
  qed
  have n: "days_from_civil y m d = day_count y' + doy - 719468"
    by (simp add: days_from_civil_eq [OF m d] y'_def mp_def doy_def)
  show "1 \<le> y \<longleftrightarrow> - 719162 \<le> days_from_civil y m d"
  proof -
    consider "y' \<le> -1" | "y' = 0" | "1 \<le> y'" by linarith
    then show ?thesis
    proof cases
      case 1
      then show ?thesis using day_count_mono [of y' "-1"] c doy n by (simp add: y'_def split: if_splits)
    next
      case 2
      then show ?thesis using c doy n by (auto simp: y'_def split: if_splits)
    next
      case 3
      then show ?thesis using day_count_mono [of 1 y'] c doy n by (simp add: y'_def split: if_splits)
    qed
  qed
  show "y \<le> 9999 \<longleftrightarrow> days_from_civil y m d \<le> 2932896"
  proof -
    consider "y' \<le> 9998" | "y' = 9999" | "10000 \<le> y'" by linarith
    then show ?thesis
    proof cases
      case 1
      then show ?thesis using day_count_mono [of y' 9998] c doy n by (simp add: y'_def split: if_splits)
    next
      case 2
      then show ?thesis using c doy n by (auto simp: y'_def split: if_splits)
    next
      case 3
      then show ?thesis using day_count_mono [of 10000 y'] c doy n by (simp add: y'_def split: if_splits)
    qed
  qed
qed

lemma floordiv_div: "0 < b \<Longrightarrow> floordiv_i64 a b = a div b"
proof -
  assume b: "0 < b"
  have "a smod b \<noteq> 0 \<longleftrightarrow> \<not> b dvd a" by (auto simp: signed_modulo_int_def sgn_0_0 mod_eq_0_iff_dvd)
  moreover have "a smod b < 0 \<longleftrightarrow> a < 0 \<and> \<not> b dvd a"
  proof -
    have "0 \<le> \<bar>a\<bar> mod b" "\<bar>a\<bar> mod b = 0 \<longleftrightarrow> b dvd a" using b by (simp_all add: mod_eq_0_iff_dvd)
    moreover have "\<not> a mod b < 0" "0 < - a mod b \<longleftrightarrow> - a mod b \<noteq> 0"
      using pos_mod_sign [OF b, of a] pos_mod_sign [OF b, of "- a"] by linarith+
    ultimately show ?thesis using b by (auto simp: signed_modulo_int_def sgn_if)
  qed
  ultimately show ?thesis
    using b by (auto simp: floordiv_i64_def Let_def divide_int_eq_signed_divide_int sgn_if)
qed

lemma pos_sdiv: "0 \<le> a \<Longrightarrow> 0 < b \<Longrightarrow> a sdiv b = a div (b :: int)" "0 \<le> a \<Longrightarrow> 0 < b \<Longrightarrow> a smod b = a mod (b :: int)"
  by (simp_all add: signed_divide_int_def signed_modulo_int_def sgn_if)


text \<open>From milliseconds to a datetime: fields in range, or an error outside of the years 1 to 9999.\<close>

definition in_datetime_range :: "int \<Rightarrow> bool" where
  "in_datetime_range ms \<longleftrightarrow> - 62135596800000 \<le> ms \<and> ms \<le> 253402300799999"

lemma datetime_of_ms:
  assumes "- (2 ^ 63) \<le> ms" "ms < 2 ^ 63"
  shows "(\<exists>d. datetime_from_epoch_ms ms = Ok d \<and> in_datetime_range ms \<and> valid_datetime d \<and> dt_offset d = Naive \<and>
      datetime_to_epoch_ms d = (Ok ms, None)) \<or>
    datetime_from_epoch_ms ms = Err BSON_ERR_VALUE_OUT_OF_RANGE \<and> \<not> in_datetime_range ms \<or>
    datetime_from_epoch_ms ms = Fault \<and> ms div 86400000 * 86400000 < - (2 ^ 63)"
proof -
  define days rem where "days = ms div 86400000" and "rem = ms mod 86400000"
  have ms: "ms = days * 86400000 + rem" by (simp add: days_def rem_def)
  have rem: "0 \<le> rem" "rem < 86400000" by (simp_all add: rem_def)
  have fd: "floordiv_i64 ms 86400000 = days" by (simp add: floordiv_div days_def)
  show ?thesis
  proof (cases "days * 86400000 < - (2 ^ 63)")
    case True
    then show ?thesis
      by (simp add: datetime_from_epoch_ms_def fd s64_def Let_def flip: days_def)
  next
    case False
    then have s1: "s64 (days * 86400000) = Ok (days * 86400000)" "s64 (ms - days * 86400000) = Ok rem"
      using assms ms rem by (simp_all add: s64_def)
    obtain y m d where c: "civil_from_days days = (y, word_of_int m, word_of_int d)" "valid_date y m d"
      "days_from_civil y m d = days"
      using assms ms rem by (auto intro: civil_of_days [of days])
    have md: "uint (word_of_int m :: u32) = m" "uint (word_of_int d :: u32) = d"
      using c(2) month_length_le [of y m] by (simp_all add: valid_date_def u32_of_int)
    define h m1 mi m2 se m3 where "h = rem div 3600000" and "m1 = rem mod 3600000" and "mi = m1 div 60000"
      and "m2 = m1 mod 60000" and "se = m2 div 1000" and "m3 = m2 mod 1000"
    have parts: "rem = h * 3600000 + mi * 60000 + se * 1000 + m3"
      by (simp add: h_def mi_def se_def m3_def m2_def m1_def)
    have b: "0 \<le> m1" "m1 < 3600000" "0 \<le> m2" "m2 < 60000" "0 \<le> m3" "m3 < 1000"
      by (simp_all add: m1_def m2_def m3_def)
    have h: "0 \<le> h" "h \<le> 23" "0 \<le> mi" "mi \<le> 59" "0 \<le> se" "se \<le> 59"
      using rem b zdiv_mono1 [of rem 86399999 3600000] zdiv_mono1 [of m1 3599999 60000] zdiv_mono1 [of m2 59999 1000]
      by (simp_all add: h_def mi_def se_def pos_imp_zdiv_nonneg_iff)
    define D where "D = \<lparr>dt_year = y, dt_month = m, dt_day = d, dt_hour = h, dt_minute = mi,
      dt_second = se, dt_microsecond = m3 * 1000, dt_offset = Naive\<rparr>"
    have f: "datetime_from_epoch_ms ms = (if y < 1 \<or> y > 9999 then Err BSON_ERR_VALUE_OUT_OF_RANGE else Ok D)"
      by (simp add: datetime_from_epoch_ms_def Let_def fd s1 c(1) md D_def pos_sdiv rem b
          h_def mi_def se_def m3_def m2_def m1_def)
    have "in_datetime_range ms \<longleftrightarrow> - 719162 \<le> days \<and> days \<le> 2932896"
      using ms rem by (auto simp: in_datetime_range_def)
    then have r: "in_datetime_range ms \<longleftrightarrow> \<not> (y < 1 \<or> y > 9999)" using year_range [OF c(2)] c(3) by auto
    have v: "valid_datetime D" if "\<not> (y < 1 \<or> y > 9999)"
      using that c(2) h b by (auto simp: valid_datetime_def D_def)
    have us: "m3 * 1000 sdiv 1000 = m3" using b by (simp add: pos_sdiv)
    have "s64 (days * 86400000 + h * 3600000 + mi * 60000 + se * 1000 + m3) = Ok ms"
      using assms parts by (simp add: s64_def ms)
    then have "datetime_to_epoch_ms D = (Ok ms, None)"
      using c(3) s1(1) us by (simp add: datetime_to_epoch_ms_def D_def Let_def capi_bind_def capi_ok_def)
    then show ?thesis using f r v by (auto simp: D_def)
  qed
qed

text \<open>From a datetime to milliseconds and back: the microseconds are cut.\<close>

definition naive_ms :: "py_datetime \<Rightarrow> int" where
  "naive_ms d = days_from_civil (dt_year d) (dt_month d) (dt_day d) * 86400000 + dt_hour d * 3600000 +
     dt_minute d * 60000 + dt_second d * 1000 + dt_microsecond d div 1000"

lemma naive_ms_range: "valid_datetime d \<Longrightarrow> in_datetime_range (naive_ms d)"
proof -
  assume v: "valid_datetime d"
  define days where "days = days_from_civil (dt_year d) (dt_month d) (dt_day d)"
  have days: "- 719162 \<le> days" "days \<le> 2932896"
    using year_range v by (auto simp: valid_datetime_def days_def)
  have us: "0 \<le> dt_microsecond d div 1000" "dt_microsecond d div 1000 \<le> 999"
    using v zdiv_mono1 [of "dt_microsecond d" 999999 1000] by (simp_all add: valid_datetime_def pos_imp_zdiv_nonneg_iff)
  show ?thesis
    using v days us by (simp add: in_datetime_range_def naive_ms_def days_def [symmetric] valid_datetime_def)
qed

lemma ms_of_datetime:
  assumes "valid_datetime d"
  shows "datetime_to_epoch_ms d = (case dt_offset d of
      OffsetRaises exc \<Rightarrow> (Err BSON_ERR_UNSUPPORTED_PYTHON_TYPE, Some exc)
    | OffsetMs off \<Rightarrow> (s64 (naive_ms d - off), None)
    | _ \<Rightarrow> (Ok (naive_ms d), None))"
    "datetime_from_epoch_ms (naive_ms d) =
      Ok (d\<lparr>dt_microsecond := dt_microsecond d div 1000 * 1000, dt_offset := Naive\<rparr>)"
proof -
  define days where "days = days_from_civil (dt_year d) (dt_month d) (dt_day d)"
  define us where "us = dt_microsecond d div 1000"
  have v: "1 \<le> dt_year d" "dt_year d \<le> 9999" "valid_date (dt_year d) (dt_month d) (dt_day d)"
    "0 \<le> dt_hour d" "dt_hour d \<le> 23" "0 \<le> dt_minute d" "dt_minute d \<le> 59" "0 \<le> dt_second d" "dt_second d \<le> 59"
    "0 \<le> dt_microsecond d" "dt_microsecond d \<le> 999999"
    using assms by (simp_all add: valid_datetime_def)
  have days: "- 719162 \<le> days" "days \<le> 2932896"
    using year_range [OF v(3)] v(1,2) by (simp_all add: days_def)
  have us: "0 \<le> us" "us \<le> 999"
    using v zdiv_mono1 [of "dt_microsecond d" 999999 1000] by (simp_all add: us_def pos_imp_zdiv_nonneg_iff)
  have n: "naive_ms d = days * 86400000 + (dt_hour d * 3600000 + dt_minute d * 60000 + dt_second d * 1000 + us)"
    by (simp add: naive_ms_def days_def us_def)
  define rem where "rem = dt_hour d * 3600000 + dt_minute d * 60000 + dt_second d * 1000 + us"
  have rem: "0 \<le> rem" "rem < 86400000" using v us by (simp_all add: rem_def)
  have s: "s64 (days * 86400000) = Ok (days * 86400000)" "s64 (naive_ms d) = Ok (naive_ms d)"
    using days rem n by (simp_all add: s64_def rem_def [symmetric])
  show "datetime_to_epoch_ms d = (case dt_offset d of
      OffsetRaises exc \<Rightarrow> (Err BSON_ERR_UNSUPPORTED_PYTHON_TYPE, Some exc)
    | OffsetMs off \<Rightarrow> (s64 (naive_ms d - off), None)
    | _ \<Rightarrow> (Ok (naive_ms d), None))"
    using s n v(10) by (simp add: datetime_to_epoch_ms_def Let_def days_def [symmetric] pos_sdiv us_def [symmetric]
        add.assoc capi_bind_def capi_ok_def capi_raised_def split: utc_offset.splits)
  have dv: "naive_ms d div 86400000 = days"
    by (rule div_unique [where r = rem]) (use rem n in \<open>simp_all add: rem_def mult.commute\<close>)
  have s2: "s64 (naive_ms d - days * 86400000) = Ok rem" using rem n by (simp add: s64_def rem_def)
  have c: "civil_from_days days = (dt_year d, word_of_int (dt_month d), word_of_int (dt_day d))"
    unfolding days_def using v by (intro days_of_civil) simp_all
  have md: "uint (word_of_int (dt_month d) :: u32) = dt_month d" "uint (word_of_int (dt_day d) :: u32) = dt_day d"
    using v(3) month_length_le [of "dt_year d" "dt_month d"] by (simp_all add: valid_date_def u32_of_int)
  define m1 m2 where "m1 = dt_minute d * 60000 + dt_second d * 1000 + us" and "m2 = dt_second d * 1000 + us"
  have m: "0 \<le> m1" "m1 < 3600000" "0 \<le> m2" "m2 < 60000" using v us by (simp_all add: m1_def m2_def)
  have r1: "rem div 3600000 = dt_hour d" by (rule div_unique [where r = m1]) (use m in \<open>simp_all add: rem_def m1_def\<close>)
  have r2: "rem mod 3600000 = m1" using r1 minus_div_mult_eq_mod [of rem 3600000] by (simp add: rem_def m1_def)
  have r3: "m1 div 60000 = dt_minute d" by (rule div_unique [where r = m2]) (use m in \<open>simp_all add: m1_def m2_def\<close>)
  have r4: "m1 mod 60000 = m2" using r3 minus_div_mult_eq_mod [of m1 60000] by (simp add: m1_def m2_def)
  have r5: "m2 div 1000 = dt_second d" by (rule div_unique [where r = us]) (use us in \<open>simp_all add: m2_def\<close>)
  have r6: "m2 mod 1000 = us" using r5 minus_div_mult_eq_mod [of m2 1000] by (simp add: m2_def)
  show "datetime_from_epoch_ms (naive_ms d) =
      Ok (d\<lparr>dt_microsecond := dt_microsecond d div 1000 * 1000, dt_offset := Naive\<rparr>)"
    unfolding datetime_from_epoch_ms_def Let_def floordiv_div [OF zero_less_numeral] dv s(1) rbind.simps s2 c
    using v(1,2) m rem by (simp add: md pos_sdiv r1 r2 r3 r4 r5 r6 us_def)
qed

section \<open>Properties\<close>

text \<open>
  C31. The day numbers are those of the Gregorian calendar: day 0 is 1 January 1970, the day after
  a date has the next number, and the conversion of a number back to a date inverts the first one.
\<close>

theorem civil_days_exact:
  assumes "valid_date y m d" "- 2000000000 \<le> y" "y \<le> 2000000000"
  shows "days_from_civil 1970 1 1 = 0 \<and>
    (case next_date (y, m, d) of (y', m', d') \<Rightarrow> days_from_civil y' m' d' = days_from_civil y m d + 1) \<and>
    civil_from_days (days_from_civil y m d) = (y, word_of_int m, word_of_int d)"
proof -
  have "days_from_civil 1970 1 1 = 0"
    by (simp add: days_from_civil_eq day_count_def month_start_def shifted_month_def)
  then show ?thesis using days_of_next_date [OF assms(1)] days_of_civil [OF assms] by (auto split: prod.splits)
qed

theorem civil_days_exact_witness:
  "days_from_civil 1970 1 1 = 0 \<and>
    (case next_date (2024, 2, 29) of (y', m', d') \<Rightarrow> days_from_civil y' m' d' = days_from_civil 2024 2 29 + 1) \<and>
    civil_from_days (days_from_civil 2024 2 29) = (2024, word_of_int 2, word_of_int 29)"
  by (rule civil_days_exact) (simp_all add: valid_date_def month_length_def leap_year_def)

text \<open>
  C32. Decoding a count of milliseconds: within the years 1 to 9999 it gives a naive datetime with
  all fields in range, which encodes to the same count; outside it is an out-of-range error,
  except within a day of the least 64-bit integer, where the code's product overflows.
\<close>

theorem datetime_from_ms_exact:
  assumes "- (2 ^ 63) \<le> ms" "ms < 2 ^ 63"
  shows "case datetime_from_epoch_ms ms of
      Ok d \<Rightarrow> in_datetime_range ms \<and> valid_datetime d \<and> dt_offset d = Naive \<and> datetime_to_epoch_ms d = (Ok ms, None)
    | Err e \<Rightarrow> e = BSON_ERR_VALUE_OUT_OF_RANGE \<and> \<not> in_datetime_range ms
    | Fault \<Rightarrow> ms div 86400000 * 86400000 < - (2 ^ 63)
    | Diverge \<Rightarrow> False"
  using datetime_of_ms [OF assms] by auto

theorem datetime_from_ms_exact_witness:
  "case datetime_from_epoch_ms (- 1) of
      Ok d \<Rightarrow> in_datetime_range (- 1) \<and> valid_datetime d \<and> dt_offset d = Naive \<and> datetime_to_epoch_ms d = (Ok (- 1), None)
    | Err e \<Rightarrow> e = BSON_ERR_VALUE_OUT_OF_RANGE \<and> \<not> in_datetime_range (- 1)
    | Fault \<Rightarrow> (- 1 :: int) div 86400000 * 86400000 < - (2 ^ 63)
    | Diverge \<Rightarrow> False"
  by (rule datetime_from_ms_exact) simp_all

text \<open>
  Encoding a datetime and decoding the count gives the same datetime with the microseconds cut
  to milliseconds, as a naive one; a UTC offset is subtracted from the count.
\<close>

theorem datetime_round_trip:
  assumes "valid_datetime d" "dt_offset d \<in> {Naive, NoOffset}" "\<bar>off\<bar> < 86400000"
  shows "\<exists>ms. datetime_to_epoch_ms d = (Ok ms, None) \<and>
    datetime_from_epoch_ms ms = Ok (d\<lparr>dt_microsecond := dt_microsecond d div 1000 * 1000, dt_offset := Naive\<rparr>) \<and>
    datetime_to_epoch_ms (d\<lparr>dt_offset := OffsetMs off\<rparr>) = (Ok (ms - off), None)"
proof (rule exI [of _ "naive_ms d"], intro conjI)
  show "datetime_to_epoch_ms d = (Ok (naive_ms d), None)"
    using ms_of_datetime(1) [OF assms(1)] assms(2) by auto
  show "datetime_from_epoch_ms (naive_ms d) =
      Ok (d\<lparr>dt_microsecond := dt_microsecond d div 1000 * 1000, dt_offset := Naive\<rparr>)"
    by (rule ms_of_datetime(2) [OF assms(1)])
  have "valid_datetime (d\<lparr>dt_offset := OffsetMs off\<rparr>)" "naive_ms (d\<lparr>dt_offset := OffsetMs off\<rparr>) = naive_ms d"
    using assms(1) by (simp_all add: valid_datetime_def naive_ms_def)
  moreover have "s64 (naive_ms d - off) = Ok (naive_ms d - off)"
    using naive_ms_range [OF assms(1)] assms(3) by (simp add: s64_def in_datetime_range_def abs_less_iff)
  ultimately show "datetime_to_epoch_ms (d\<lparr>dt_offset := OffsetMs off\<rparr>) = (Ok (naive_ms d - off), None)"
    using ms_of_datetime(1) [of "d\<lparr>dt_offset := OffsetMs off\<rparr>"] by simp
qed

definition new_year :: py_datetime where
  "new_year = \<lparr>dt_year = 2000, dt_month = 1, dt_day = 1, dt_hour = 12, dt_minute = 30, dt_second = 15,
     dt_microsecond = 123456, dt_offset = Naive\<rparr>"

lemma new_year_valid: "valid_datetime new_year"
  by (simp add: new_year_def valid_datetime_def valid_date_def month_length_def)

theorem datetime_round_trip_witness:
  "\<exists>ms. datetime_to_epoch_ms new_year = (Ok ms, None) \<and>
    datetime_from_epoch_ms ms = Ok (new_year\<lparr>dt_microsecond := dt_microsecond new_year div 1000 * 1000, dt_offset := Naive\<rparr>) \<and>
    datetime_to_epoch_ms (new_year\<lparr>dt_offset := OffsetMs 3600000\<rparr>) = (Ok (ms - 3600000), None)"
  by (rule datetime_round_trip) (simp_all add: new_year_valid, simp add: new_year_def)

end
