(* ===== verification/Bson_Codec.thy ===== *)
theory Bson_Codec
  imports Bson_Writer Bson_Datetime
begin

text \<open>
  The codec of src/python_bindings/_bson_core.c: Python objects to BSON documents and back.

  A Python object is a value of \<open>pyval\<close>. A \<^verbatim>\<open>str\<close> is its list of code points, surrogates included; a
  \<^verbatim>\<open>float\<close> its bit pattern; a \<^verbatim>\<open>dict\<close> the list of its items in insertion order; an \<^verbatim>\<open>ObjectId\<close> what its
  attribute \<^verbatim>\<open>binary\<close> gives (\<open>None\<close> when there is none). \<open>PyOther\<close> is an object of another type. An
  object is finite: a container that holds itself runs into the depth limit, which has nothing to
  do with its contents.
\<close>

section \<open>Python objects\<close>

datatype pyval =
    PyNone
  | PyBool bool
  | PyInt int
  | PyFloat u64
  | PyStr "nat list"
  | PyBytes "byte list"
  | PyByteArray "byte list"
  | PyObjectId "pyval option"
  | PyDatetime py_datetime
  | PyDict "(pyval \<times> pyval) list"
  | PyList "pyval list"
  | PyTuple "pyval list"
  | PyOther

text \<open>The UTF-8 of a string, refused for a lone surrogate; and the string of a UTF-8 buffer.\<close>

definition PyUnicode_AsUTF8AndSize :: "nat list \<Rightarrow> byte list option" where
  "PyUnicode_AsUTF8AndSize cs =
     (if \<forall>c \<in> set cs. scalar c then Some (concat (map utf8_encode cs)) else None)"

function PyUnicode_FromStringAndSize :: "byte list \<Rightarrow> nat list option" where
  "PyUnicode_FromStringAndSize bs =
     (if bs = [] then Some []
      else case utf8_take bs of
        None \<Rightarrow> None
      | Some (c, rest) \<Rightarrow> map_option (Cons c) (PyUnicode_FromStringAndSize rest))"
  by pat_completeness auto
termination
  by (relation "measure length") (auto dest!: utf8_take_Some simp: utf8_encode_not_Nil)

declare PyUnicode_FromStringAndSize.simps [simp del]

text \<open>\<^verbatim>\<open>PyDict_SetItem\<close>: a new value for a key that is there keeps its place.\<close>

fun PyDict_SetItem :: "(pyval \<times> pyval) list \<Rightarrow> pyval \<Rightarrow> pyval \<Rightarrow> (pyval \<times> pyval) list" where
  "PyDict_SetItem [] k v = [(k, v)]"
| "PyDict_SetItem ((k', v') # items) k v =
     (if k' = k then (k', v) # items else (k', v') # PyDict_SetItem items k v)"

section \<open>Errors\<close>

fun bson_error_to_python :: "bson_status \<Rightarrow> py_error" where
  "bson_error_to_python BSON_ERR_OUT_OF_MEMORY = MemoryError"
| "bson_error_to_python BSON_ERR_VALUE_OUT_OF_RANGE = OverflowError"
| "bson_error_to_python BSON_ERR_UNSUPPORTED_TYPE = BSONNotImplementedError"
| "bson_error_to_python BSON_ERR_UNSUPPORTED_PYTHON_TYPE = InvalidDocument"
| "bson_error_to_python BSON_ERR_INVALID_KEY = InvalidDocument"
| "bson_error_to_python BSON_ERR_DOCUMENT_TOO_LARGE = DocumentTooLarge"
| "bson_error_to_python _ = InvalidBSON"

fun bson_to_py :: "'a result \<Rightarrow> 'a py" where
  "bson_to_py (Ok x) = PyOk x"
| "bson_to_py (Err e) = PyRaise (bson_error_to_python e)"
| "bson_to_py Fault = PyFault"
| "bson_to_py Diverge = PyDiverge"

lemma bson_to_py_Ok [simp]: "bson_to_py r = PyOk x \<longleftrightarrow> r = Ok x"
  by (cases r) simp_all

section \<open>Encoding\<close>

text \<open>The decimal digits that \<^verbatim>\<open>snprintf\<close> writes for an array index; 24 bytes hold all of them.\<close>

fun decimal_key :: "nat \<Rightarrow> byte list" where
  "decimal_key i = (if i < 10 then [word_of_nat (48 + i)] else decimal_key (i div 10) @ [word_of_nat (48 + i mod 10)])"

declare decimal_key.simps [simp del]

text \<open>The key of an item: a string, encodable and free of NUL.\<close>

definition encode_key :: "pyval \<Rightarrow> byte list capi" where
  "encode_key key = (case key of
     PyStr cs \<Rightarrow> (case PyUnicode_AsUTF8AndSize cs of
         None \<Rightarrow> capi_raised BSON_ERR_INVALID_KEY UnicodeError
       | Some kstr \<Rightarrow> if 0 \<in> set kstr then capi_fail BSON_ERR_INVALID_KEY else capi_ok (Ok kstr))
   | _ \<Rightarrow> capi_fail BSON_ERR_INVALID_KEY)"

text \<open>The elements that hold no document: the type and the call that writes the value.\<close>

definition encode_scalar :: "(nat \<Rightarrow> bool) \<Rightarrow> bson_writer \<Rightarrow> byte list \<Rightarrow> pyval \<Rightarrow> bson_writer capi" where
  "encode_scalar alloc writer key value =
     (let element = (\<lambda>t put. capi_ok (rbind (bson_writer_append_element_header alloc writer t key) put)) in
      case value of
        PyNone \<Rightarrow> element BSON_TYPE_NULL bson_writer_append_null
      | PyBool b \<Rightarrow> element BSON_TYPE_BOOL (\<lambda>w. bson_writer_append_bool alloc w b)
      | PyInt i \<Rightarrow>
          if i < - (2 ^ 63) \<or> 2 ^ 63 \<le> i then capi_fail BSON_ERR_VALUE_OUT_OF_RANGE
          else if - (2 ^ 31) \<le> i \<and> i < 2 ^ 31 then element BSON_TYPE_INT32 (\<lambda>w. bson_writer_append_int32 alloc w i)
          else element BSON_TYPE_INT64 (\<lambda>w. bson_writer_append_int64 alloc w i)
      | PyFloat d \<Rightarrow> element BSON_TYPE_DOUBLE (\<lambda>w. bson_writer_append_double alloc w d)
      | PyStr cs \<Rightarrow> (case PyUnicode_AsUTF8AndSize cs of
            None \<Rightarrow> capi_raised BSON_ERR_UNSUPPORTED_PYTHON_TYPE UnicodeError
          | Some utf8_str \<Rightarrow> element BSON_TYPE_STRING (\<lambda>w. bson_writer_append_utf8 alloc w utf8_str))
      | PyBytes bs \<Rightarrow> element BSON_TYPE_BINARY (\<lambda>w. bson_writer_append_binary alloc w BSON_SUBTYPE_GENERIC bs)
      | PyByteArray bs \<Rightarrow> element BSON_TYPE_BINARY (\<lambda>w. bson_writer_append_binary alloc w BSON_SUBTYPE_GENERIC bs)
      | PyObjectId binary \<Rightarrow> (case binary of
            None \<Rightarrow> capi_raised BSON_ERR_UNSUPPORTED_PYTHON_TYPE AttributeError
          | Some (PyBytes bs) \<Rightarrow>
              if length bs \<noteq> BSON_OBJECTID_LEN then capi_fail BSON_ERR_UNSUPPORTED_PYTHON_TYPE
              else element BSON_TYPE_OBJECTID (\<lambda>w. bson_writer_append_objectid alloc w bs)
          | Some _ \<Rightarrow> capi_fail BSON_ERR_UNSUPPORTED_PYTHON_TYPE)
      | PyDatetime d \<Rightarrow> capi_bind (datetime_to_epoch_ms d) (\<lambda>ms.
            element BSON_TYPE_DATETIME (\<lambda>w. bson_writer_append_datetime_ms alloc w ms))
      | _ \<Rightarrow> capi_fail BSON_ERR_UNSUPPORTED_PYTHON_TYPE)"

text \<open>
  \<open>encode_items\<close> and \<open>encode_elements\<close> are the loops of the two bodies; \<open>i\<close> is the array index.
\<close>

function encode_element :: "(nat \<Rightarrow> bool) \<Rightarrow> bson_writer \<Rightarrow> byte list \<Rightarrow> pyval \<Rightarrow> nat \<Rightarrow> bson_writer capi"
  and encode_document_body :: "(nat \<Rightarrow> bool) \<Rightarrow> bson_writer \<Rightarrow> (pyval \<times> pyval) list \<Rightarrow> nat \<Rightarrow> bson_writer capi"
  and encode_items :: "(nat \<Rightarrow> bool) \<Rightarrow> bson_writer \<Rightarrow> (pyval \<times> pyval) list \<Rightarrow> nat \<Rightarrow> bson_writer capi"
  and encode_array_body :: "(nat \<Rightarrow> bool) \<Rightarrow> bson_writer \<Rightarrow> pyval list \<Rightarrow> nat \<Rightarrow> bson_writer capi"
  and encode_elements :: "(nat \<Rightarrow> bool) \<Rightarrow> bson_writer \<Rightarrow> nat \<Rightarrow> pyval list \<Rightarrow> nat \<Rightarrow> bson_writer capi" where
  "encode_element alloc writer key value depth =
     (case value of
        PyDict items \<Rightarrow>
          capi_bind (capi_ok (bson_writer_append_element_header alloc writer BSON_TYPE_DOCUMENT key)) (\<lambda>writer.
          encode_document_body alloc writer items depth)
      | PyList xs \<Rightarrow>
          capi_bind (capi_ok (bson_writer_append_element_header alloc writer BSON_TYPE_ARRAY key)) (\<lambda>writer.
          encode_array_body alloc writer xs depth)
      | PyTuple xs \<Rightarrow>
          capi_bind (capi_ok (bson_writer_append_element_header alloc writer BSON_TYPE_ARRAY key)) (\<lambda>writer.
          encode_array_body alloc writer xs depth)
      | _ \<Rightarrow> encode_scalar alloc writer key value)"
| "encode_document_body alloc writer items depth =
     (if depth > BSON_MAX_DEPTH then capi_fail BSON_ERR_MAX_DEPTH_EXCEEDED
      else capi_bind (capi_ok (bson_writer_begin_document alloc writer)) (\<lambda>(patch, writer).
           capi_bind (encode_items alloc writer items depth) (\<lambda>writer.
           capi_ok (bson_writer_end_document alloc writer patch))))"
| "encode_items alloc writer [] depth = capi_ok (Ok writer)"
| "encode_items alloc writer ((key, value) # items) depth =
     capi_bind (encode_key key) (\<lambda>kstr.
     capi_bind (encode_element alloc writer kstr value (depth + 1)) (\<lambda>writer.
     encode_items alloc writer items depth))"
| "encode_array_body alloc writer xs depth =
     (if depth > BSON_MAX_DEPTH then capi_fail BSON_ERR_MAX_DEPTH_EXCEEDED
      else capi_bind (capi_ok (bson_writer_begin_document alloc writer)) (\<lambda>(patch, writer).
           capi_bind (encode_elements alloc writer 0 xs depth) (\<lambda>writer.
           capi_ok (bson_writer_end_document alloc writer patch))))"
| "encode_elements alloc writer i [] depth = capi_ok (Ok writer)"
| "encode_elements alloc writer i (item # xs) depth =
     capi_bind (encode_element alloc writer (decimal_key i) item (depth + 1)) (\<lambda>writer.
     encode_elements alloc writer (i + 1) xs depth)"
  by pat_completeness auto
termination
  by (relation "measure (\<lambda>x. case x of
        Inl (Inl (_, _, _, v, _)) \<Rightarrow> 3 * size v
      | Inl (Inr (_, _, items, _)) \<Rightarrow> 3 * size_list (size_prod size size) items + 1
      | Inr (Inl (_, _, items, _)) \<Rightarrow> 3 * size_list (size_prod size size) items
      | Inr (Inr (Inl (_, _, xs, _))) \<Rightarrow> 3 * size_list size xs + 1
      | Inr (Inr (Inr (_, _, _, xs, _))) \<Rightarrow> 3 * size_list size xs)") auto

declare encode_element.simps [simp del] encode_document_body.simps [simp del] encode_array_body.simps [simp del]

definition py_encode :: "(nat \<Rightarrow> bool) \<Rightarrow> pyval \<Rightarrow> byte list py" where
  "py_encode alloc doc = (case doc of
     PyDict items \<Rightarrow>
       (case bson_writer_init alloc (size_add 256 (size_mul (length items) 32)) of
          Ok writer \<Rightarrow> (case encode_document_body alloc writer items 0 of
              (_, Some exc) \<Rightarrow> PyRaise exc
            | (r, None) \<Rightarrow> bson_to_py (rbind r (\<lambda>writer.
                case bson_writer_release writer of (buf, out_len, _) \<Rightarrow> peek buf 0 out_len)))
        | Err _ \<Rightarrow> PyRaise MemoryError
        | Fault \<Rightarrow> PyFault
        | Diverge \<Rightarrow> PyDiverge)
   | _ \<Rightarrow> PyRaise TypeError)"

section \<open>Decoding\<close>

text \<open>
  The elements that hold no document. The iterator reads from the buffer \<open>buf\<close>; a string is copied
  from the offset that the accessor returns.
\<close>

definition decode_str :: "byte list \<Rightarrow> nat \<Rightarrow> nat \<Rightarrow> pyval py" where
  "decode_str buf off len = py_bind (bson_to_py (peek buf off len)) (\<lambda>bs.
     case PyUnicode_FromStringAndSize bs of Some cs \<Rightarrow> PyOk (PyStr cs) | None \<Rightarrow> PyRaise UnicodeError)"

definition build_scalar :: "byte list \<Rightarrow> bson_iter \<Rightarrow> pyval py" where
  "build_scalar buf iter =
     (let t = it_type iter in
      if t = BSON_TYPE_DOUBLE then bson_to_py (rbind (bson_iter_value_double iter) (\<lambda>v. Ok (PyFloat v)))
      else if t = BSON_TYPE_STRING then
        py_bind (bson_to_py (bson_iter_value_utf8 iter)) (\<lambda>(utf8_str, slen). decode_str buf utf8_str slen)
      else if t = BSON_TYPE_BINARY then
        bson_to_py (rbind (bson_iter_value_binary iter) (\<lambda>(subtype, data, len).
          rbind (peek buf data len) (\<lambda>bs. Ok (PyBytes bs))))
      else if t = BSON_TYPE_OBJECTID then
        bson_to_py (rbind (bson_iter_value_objectid iter) (\<lambda>oid.
          rbind (peek buf oid BSON_OBJECTID_LEN) (\<lambda>raw. Ok (PyObjectId (Some (PyBytes raw))))))
      else if t = BSON_TYPE_BOOL then bson_to_py (rbind (bson_iter_value_bool iter) (\<lambda>v. Ok (PyBool v)))
      else if t = BSON_TYPE_DATETIME then
        bson_to_py (rbind (bson_iter_value_datetime_ms iter) (\<lambda>ms.
          rbind (datetime_from_epoch_ms ms) (\<lambda>d. Ok (PyDatetime d))))
      else if t = BSON_TYPE_NULL then PyOk PyNone
      else if t = BSON_TYPE_INT32 then bson_to_py (rbind (bson_iter_value_int32 iter) (\<lambda>v. Ok (PyInt v)))
      else if t = BSON_TYPE_INT64 then bson_to_py (rbind (bson_iter_value_int64 iter) (\<lambda>v. Ok (PyInt v)))
      else PyRaise (bson_error_to_python BSON_ERR_UNSUPPORTED_TYPE))"

text \<open>\<open>build_items\<close> and \<open>build_elements\<close> are the loops over the elements.\<close>

function build_value :: "byte list \<Rightarrow> bson_iter \<Rightarrow> nat \<Rightarrow> pyval py"
  and build_document :: "byte list \<Rightarrow> nat \<Rightarrow> nat \<Rightarrow> nat \<Rightarrow> pyval py"
  and build_items :: "byte list \<Rightarrow> bson_iter \<Rightarrow> nat \<Rightarrow> (pyval \<times> pyval) list \<Rightarrow> (pyval \<times> pyval) list py"
  and build_array :: "byte list \<Rightarrow> nat \<Rightarrow> nat \<Rightarrow> nat \<Rightarrow> pyval py"
  and build_elements :: "byte list \<Rightarrow> bson_iter \<Rightarrow> nat \<Rightarrow> pyval list \<Rightarrow> pyval list py" where
  "build_value buf iter depth =
     (if it_type iter = BSON_TYPE_DOCUMENT then
        py_bind (bson_to_py (bson_iter_value_document iter)) (\<lambda>(doc_off, doc_len).
        build_document buf doc_off (doc_off + doc_len) (depth + 1))
      else if it_type iter = BSON_TYPE_ARRAY then
        py_bind (bson_to_py (bson_iter_value_document iter)) (\<lambda>(doc_off, doc_len).
        build_array buf doc_off (doc_off + doc_len) (depth + 1))
      else build_scalar buf iter)"
| "build_document buf offset parent_end depth =
     (if depth > BSON_MAX_DEPTH then PyRaise (bson_error_to_python BSON_ERR_MAX_DEPTH_EXCEEDED)
      else py_bind (bson_to_py (bson_iter_init_nested buf offset parent_end)) (\<lambda>iter.
           py_bind (build_items buf iter depth []) (\<lambda>dict. PyOk (PyDict dict))))"
| "build_items buf iter depth dict =
     py_bind (bson_to_py (bson_iter_next iter)) (\<lambda>(found, iter').
       if found then
         py_bind (case bson_iter_key iter' of (key_ptr, klen) \<Rightarrow> decode_str buf key_ptr klen) (\<lambda>pykey.
         py_bind (build_value buf iter' depth) (\<lambda>value.
         build_items buf iter' depth (PyDict_SetItem dict pykey value)))
       else PyOk dict)"
| "build_array buf offset parent_end depth =
     (if depth > BSON_MAX_DEPTH then PyRaise (bson_error_to_python BSON_ERR_MAX_DEPTH_EXCEEDED)
      else py_bind (bson_to_py (bson_iter_init_nested buf offset parent_end)) (\<lambda>iter.
           py_bind (build_elements buf iter depth []) (\<lambda>list. PyOk (PyList list))))"
| "build_elements buf iter depth list =
     py_bind (bson_to_py (bson_iter_next iter)) (\<lambda>(found, iter').
       if found then
         py_bind (build_value buf iter' depth) (\<lambda>value.
         build_elements buf iter' depth (list @ [value]))
       else PyOk list)"
  by pat_completeness auto

termination
  by (relation "measures
        [\<lambda>x. case x of
            Inl (Inl (_, _, depth)) \<Rightarrow> if depth > BSON_MAX_DEPTH then 1 else 4 * (BSON_MAX_DEPTH + 1 - depth) + 1
          | Inl (Inr (_, _, _, depth)) \<Rightarrow> if depth > BSON_MAX_DEPTH then 0 else 4 * (BSON_MAX_DEPTH + 1 - depth) + 3
          | Inr (Inl (_, _, depth, _)) \<Rightarrow> if depth > BSON_MAX_DEPTH then 2 else 4 * (BSON_MAX_DEPTH + 1 - depth) + 2
          | Inr (Inr (Inl (_, _, _, depth))) \<Rightarrow> if depth > BSON_MAX_DEPTH then 0 else 4 * (BSON_MAX_DEPTH + 1 - depth) + 3
          | Inr (Inr (Inr (_, _, depth, _))) \<Rightarrow> if depth > BSON_MAX_DEPTH then 2 else 4 * (BSON_MAX_DEPTH + 1 - depth) + 2,
         \<lambda>x. case x of
            Inr (Inl (_, it, _, _)) \<Rightarrow> it_doc_end it - rd_pos (it_reader it)
          | Inr (Inr (Inr (_, it, _, _))) \<Rightarrow> it_doc_end it - rd_pos (it_reader it)
          | _ \<Rightarrow> 0]")
    (auto dest: iter_next_measure)

declare build_value.simps [simp del] build_document.simps [simp del] build_items.simps [simp del]
  build_array.simps [simp del] build_elements.simps [simp del]

text \<open>Validation runs with the interpreter lock released for a large buffer; the calls are the same.\<close>

definition py_decode :: "byte list \<Rightarrow> pyval py" where
  "py_decode buf =
     py_bind (bson_to_py (bson_validate_document buf (length buf))) (\<lambda>_.
     build_document buf 0 (length buf) 0)"

end
