(* ===== verification/Codec_Encode.thy ===== *)
theory Codec_Encode
  imports Bson_Codec
begin

text \<open>
  What encoding computes: \<open>wire_val\<close> is the document of the wire format that stands for an object,
  if there is one, and the encoder writes the bytes of that document or fails.
\<close>

section \<open>The document of an object\<close>

definition wire_scalar :: "pyval \<Rightarrow> wval option" where
  "wire_scalar v = (case v of
     PyNone \<Rightarrow> Some WNull
   | PyBool b \<Rightarrow> Some (WBool (if b then 1 else 0))
   | PyInt i \<Rightarrow>
       if - (2 ^ 31) \<le> i \<and> i < 2 ^ 31 then Some (WInt32 (word_of_int i))
       else if - (2 ^ 63) \<le> i \<and> i < 2 ^ 63 then Some (WInt64 (word_of_int i)) else None
   | PyFloat d \<Rightarrow> Some (WDouble d)
   | PyStr cs \<Rightarrow> (case PyUnicode_AsUTF8AndSize cs of
         Some bs \<Rightarrow> if length bs \<le> INT32_MAX - 1 then Some (WString (bs @ [0])) else None
       | None \<Rightarrow> None)
   | PyBytes bs \<Rightarrow> if length bs \<le> INT32_MAX then Some (WBinary BSON_SUBTYPE_GENERIC bs) else None
   | PyByteArray bs \<Rightarrow> if length bs \<le> INT32_MAX then Some (WBinary BSON_SUBTYPE_GENERIC bs) else None
   | PyObjectId (Some (PyBytes bs)) \<Rightarrow> if length bs = 12 then Some (WObjectId bs) else None
   | PyDatetime d \<Rightarrow> (case fst (datetime_to_epoch_ms d) of Ok ms \<Rightarrow> Some (WDatetime (word_of_int ms)) | _ \<Rightarrow> None)
   | _ \<Rightarrow> None)"

definition key_bytes :: "pyval \<Rightarrow> byte list option" where
  "key_bytes k = (case fst (encode_key k) of Ok bs \<Rightarrow> Some bs | _ \<Rightarrow> None)"

function wire_val :: "pyval \<Rightarrow> wval option"
  and wire_items :: "(pyval \<times> pyval) list \<Rightarrow> welems option"
  and wire_elems :: "nat \<Rightarrow> pyval list \<Rightarrow> welems option" where
  "wire_val v = (case v of
     PyDict items \<Rightarrow> map_option WDocument (wire_items items)
   | PyList xs \<Rightarrow> map_option WArray (wire_elems 0 xs)
   | PyTuple xs \<Rightarrow> map_option WArray (wire_elems 0 xs)
   | _ \<Rightarrow> wire_scalar v)"
| "wire_items [] = Some []"
| "wire_items ((k, v) # items) =
     Option.bind (key_bytes k) (\<lambda>kb. Option.bind (wire_val v) (\<lambda>x. map_option (Cons (kb, x)) (wire_items items)))"
| "wire_elems i [] = Some []"
| "wire_elems i (v # xs) = Option.bind (wire_val v) (\<lambda>x. map_option (Cons (decimal_key i, x)) (wire_elems (i + 1) xs))"
  by pat_completeness auto
termination
  by (relation "measure (\<lambda>x. case x of
        Inl v \<Rightarrow> 2 * size v
      | Inr (Inl items) \<Rightarrow> 2 * size_list (size_prod size size) items
      | Inr (Inr (_, xs)) \<Rightarrow> 2 * size_list size xs)") auto

declare wire_val.simps [simp del]

text \<open>
  What Python guarantees of its objects: keys and lists fit into memory, the fields of a datetime
  are in range and its UTC offset is less than a day.
\<close>

definition datetime_wf :: "py_datetime \<Rightarrow> bool" where
  "datetime_wf d \<longleftrightarrow> valid_datetime d \<and> (case dt_offset d of OffsetMs off \<Rightarrow> \<bar>off\<bar> < 86400000 | _ \<Rightarrow> True)"

function py_wf :: "pyval \<Rightarrow> bool"
  and wf_items :: "(pyval \<times> pyval) list \<Rightarrow> bool"
  and wf_list :: "pyval list \<Rightarrow> bool" where
  "py_wf v \<longleftrightarrow> (case v of
     PyDict items \<Rightarrow> wf_items items
   | PyList xs \<Rightarrow> length xs < 2 ^ 60 \<and> wf_list xs
   | PyTuple xs \<Rightarrow> length xs < 2 ^ 60 \<and> wf_list xs
   | PyDatetime d \<Rightarrow> datetime_wf d
   | _ \<Rightarrow> True)"
| "wf_items [] \<longleftrightarrow> True"
| "wf_items ((k, v) # items) \<longleftrightarrow> (\<forall>kb. key_bytes k = Some kb \<longrightarrow> length kb < 2 ^ 60) \<and> py_wf v \<and> wf_items items"
| "wf_list [] \<longleftrightarrow> True"
| "wf_list (v # xs) \<longleftrightarrow> py_wf v \<and> wf_list xs"
  by pat_completeness auto
termination
  by (relation "measure (\<lambda>x. case x of
        Inl v \<Rightarrow> 2 * size v
      | Inr (Inl items) \<Rightarrow> 2 * size_list (size_prod size size) items
      | Inr (Inr xs) \<Rightarrow> 2 * size_list size xs)") auto

declare py_wf.simps [simp del]

text \<open>Structural induction over objects, with the three kinds of scalars, dicts and lists apart.\<close>

lemma pyval_cases:
  obtains (dict) items where "v = PyDict items" | (list) xs where "v = PyList xs" | (tuple) xs where "v = PyTuple xs"
  | (scalar) "wire_val v = wire_scalar v" "\<And>alloc w key depth. encode_element alloc w key v depth = encode_scalar alloc w key v"
  by (cases v) (simp_all add: wire_val.simps encode_element.simps)

lemma wire_val_simps [simp]:
  "wire_val (PyDict items) = map_option WDocument (wire_items items)"
  "wire_val (PyList xs) = map_option WArray (wire_elems 0 xs)"
  "wire_val (PyTuple xs) = map_option WArray (wire_elems 0 xs)"
  by (simp_all add: wire_val.simps)

lemma py_wf_simps [simp]:
  "py_wf (PyDict items) \<longleftrightarrow> wf_items items"
  "py_wf (PyList xs) \<longleftrightarrow> length xs < 2 ^ 60 \<and> wf_list xs"
  "py_wf (PyTuple xs) \<longleftrightarrow> length xs < 2 ^ 60 \<and> wf_list xs"
  "py_wf (PyDatetime d) \<longleftrightarrow> datetime_wf d"
  by (simp_all add: py_wf.simps)

section \<open>What is written\<close>

definition element_bytes :: "byte list \<Rightarrow> wval \<Rightarrow> byte list" where
  "element_bytes key x = wtype x # key @ 0 # enc_val x"

lemma enc_elems_Cons: "enc_elems ((k, x) # es) = element_bytes k x @ enc_elems es"
  by (simp add: element_bytes_def)

lemma writes_element:
  assumes "length key < 2 ^ 63" "\<And>w. writes alloc w (enc_val x) (put w)"
  shows "writes alloc w (element_bytes key x) (rbind (bson_writer_append_element_header alloc w (wtype x) key) put)"
  using writes_seq [OF writes_header [OF assms(1), of alloc w "wtype x"] assms(2)] by (simp add: element_bytes_def)

lemmas put_defs =
  bson_writer_append_null_def bson_writer_append_bool_def bson_writer_append_int32_def bson_writer_append_int64_def
  bson_writer_append_double_def bson_writer_append_datetime_ms_def

lemma writes_scalar:
  assumes key: "length key < 2 ^ 63" and x: "wire_scalar v = Some x"
  shows "writes alloc w (element_bytes key x) (fst (encode_scalar alloc w key v))"
proof -
  note e = writes_element [OF key, of alloc _ _ w]
  show ?thesis
  proof (cases v)
    case PyNone
    then have "x = WNull" using x by (simp add: wire_scalar_def)
    then show ?thesis using e [of WNull bson_writer_append_null] PyNone
      by (simp add: encode_scalar_def put_defs writes_Ok)
  next
    case (PyBool b)
    then have "x = WBool (if b then 1 else 0)" using x by (simp add: wire_scalar_def)
    then show ?thesis using e [of "WBool (if b then 1 else 0)" "\<lambda>w. bson_writer_append_bool alloc w b"] PyBool
      by (simp add: encode_scalar_def put_defs writes_u8)
  next
    case (PyInt i)
    show ?thesis
    proof (cases "- (2 ^ 31) \<le> i \<and> i < 2 ^ 31")
      case True
      then have "x = WInt32 (word_of_int i)" using x PyInt by (simp add: wire_scalar_def)
      then show ?thesis using e [of "WInt32 (word_of_int i)" "\<lambda>w. bson_writer_append_int32 alloc w i"] PyInt True
        by (simp add: encode_scalar_def put_defs writes_i32 [unfolded le_i32_def])
    next
      case False
      then have "x = WInt64 (word_of_int i)" "- (2 ^ 63) \<le> i \<and> i < 2 ^ 63"
        using x PyInt unfolding wire_scalar_def by (simp_all split: if_splits)
      then show ?thesis using e [of "WInt64 (word_of_int i)" "\<lambda>w. bson_writer_append_int64 alloc w i"] PyInt False
        by (auto simp: encode_scalar_def put_defs writes_i64 [unfolded le_i64_def])
    qed
  next
    case (PyFloat d)
    then have "x = WDouble d" using x by (simp add: wire_scalar_def)
    then show ?thesis using e [of "WDouble d" "\<lambda>w. bson_writer_append_double alloc w d"] PyFloat
      by (simp add: encode_scalar_def put_defs writes_double)
  next
    case (PyStr cs)
    then obtain bs where bs: "PyUnicode_AsUTF8AndSize cs = Some bs" "length bs \<le> INT32_MAX - 1" "x = WString (bs @ [0])"
      using x by (auto simp: wire_scalar_def split: option.splits if_splits)
    then show ?thesis using e [of "WString (bs @ [0])" "\<lambda>w. bson_writer_append_utf8 alloc w bs"] PyStr
        writes_utf8 [OF bs(2), of alloc] by (simp add: encode_scalar_def)
  next
    case (PyBytes bs)
    then have "x = WBinary BSON_SUBTYPE_GENERIC bs" "length bs \<le> INT32_MAX"
      using x by (simp_all add: wire_scalar_def split: if_splits)
    then show ?thesis
      using e [of "WBinary BSON_SUBTYPE_GENERIC bs" "\<lambda>w. bson_writer_append_binary alloc w BSON_SUBTYPE_GENERIC bs"]
        PyBytes writes_binary by (simp add: encode_scalar_def)
  next
    case (PyByteArray bs)
    then have "x = WBinary BSON_SUBTYPE_GENERIC bs" "length bs \<le> INT32_MAX"
      using x by (simp_all add: wire_scalar_def split: if_splits)
    then show ?thesis
      using e [of "WBinary BSON_SUBTYPE_GENERIC bs" "\<lambda>w. bson_writer_append_binary alloc w BSON_SUBTYPE_GENERIC bs"]
        PyByteArray writes_binary by (simp add: encode_scalar_def)
  next
    case (PyObjectId b)
    then obtain bs where bs: "b = Some (PyBytes bs)" "length bs = 12" "x = WObjectId bs"
      using x by (auto simp: wire_scalar_def split: option.splits pyval.splits if_splits)
    then show ?thesis using e [of "WObjectId bs" "\<lambda>w. bson_writer_append_objectid alloc w bs"] PyObjectId
        writes_objectid [OF bs(2)] by (simp add: encode_scalar_def BSON_OBJECTID_LEN_def)
  next
    case (PyDatetime d)
    then obtain ms where ms: "fst (datetime_to_epoch_ms d) = Ok ms" "x = WDatetime (word_of_int ms)"
      using x by (auto simp: wire_scalar_def split: result.splits)
    then show ?thesis
      using e [of "WDatetime (word_of_int ms)" "\<lambda>w. bson_writer_append_datetime_ms alloc w ms"] PyDatetime
      by (simp add: encode_scalar_def put_defs writes_i64 [unfolded le_i64_def])
  qed (use x in \<open>simp_all add: wire_scalar_def\<close>)
qed

lemma encode_scalar_wire:
  assumes "fst (encode_scalar alloc w key v) = Ok w'"
  shows "\<exists>x. wire_scalar v = Some x"
  using assms
  by (cases v) (auto simp: encode_scalar_def wire_scalar_def bson_writer_append_utf8_def bson_writer_append_binary_def
      BSON_OBJECTID_LEN_def not_less not_le INT32_MAX_def split: option.splits pyval.splits if_splits result.splits)

lemma wire_scalar_depth: "wire_scalar v = Some x \<Longrightarrow> depth_val x = 0"
  by (cases v) (auto simp: wire_scalar_def split: option.splits pyval.splits if_splits result.splits)


lemma decimal_key_length: "length (decimal_key i) \<le> i + 1"
proof (induction i rule: decimal_key.induct)
  case (1 i)
  then show ?case by (subst decimal_key.simps) auto
qed

text \<open>A body in its frame, when the loop writes \<open>body\<close>.\<close>

lemma writes_body:
  assumes "\<And>w. writes alloc w body (fst (loop w))"
  shows "writes alloc w (frame body)
    (fst (capi_bind (capi_ok (bson_writer_begin_document alloc w)) (\<lambda>(patch, w).
       capi_bind (loop w) (\<lambda>w. capi_ok (bson_writer_end_document alloc w patch)))))"
  using writes_document [of alloc body "\<lambda>w. fst (loop w)" w, OF assms] by (simp add: case_prod_beta')

lemma key_bytes_eq: "key_bytes k = Some kb \<longleftrightarrow> fst (encode_key k) = Ok kb"
  by (auto simp: key_bytes_def split: result.splits)

lemma encode_writes:
  "wire_val v = Some x \<Longrightarrow> py_wf v \<Longrightarrow> length key < 2 ^ 63 \<Longrightarrow> depth + depth_val x \<le> BSON_MAX_DEPTH + 1 \<Longrightarrow>
     writes alloc w (element_bytes key x) (fst (encode_element alloc w key v depth))"
  "wire_items items = Some es \<Longrightarrow> wf_items items \<Longrightarrow> depth + depth_elems es \<le> BSON_MAX_DEPTH \<Longrightarrow>
     writes alloc w (enc_elems es) (fst (encode_items alloc w items depth))"
  "wire_elems i xs = Some es \<Longrightarrow> wf_list xs \<Longrightarrow> i + length xs < 2 ^ 61 \<Longrightarrow> depth + depth_elems es \<le> BSON_MAX_DEPTH \<Longrightarrow>
     writes alloc w (enc_elems es) (fst (encode_elements alloc w i xs depth))"
proof (induction v and items and i xs arbitrary: x key depth w and es depth w and es depth w
    rule: wire_val_wire_items_wire_elems.induct)
  case (1 v)
  show ?case
  proof (cases v rule: pyval_cases)
    case (dict items)
    then obtain es where es: "wire_items items = Some es" "x = WDocument es" using "1.prems"(1) by auto
    have "writes alloc w (enc_elems es) (fst (encode_items alloc w items depth))" for w
      using "1.IH"(1) [OF dict es(1)] "1.prems" dict es(2) by simp
    then have "writes alloc w (frame (enc_elems es)) (fst (encode_document_body alloc w items depth))" for w
      using writes_body [of alloc "enc_elems es" "\<lambda>w. encode_items alloc w items depth" w] "1.prems"(4) es(2)
      by (simp add: encode_document_body.simps)
    then show ?thesis
      using writes_element [OF "1.prems"(3), of alloc "WDocument es" "\<lambda>w. fst (encode_document_body alloc w items depth)" w] es(2)
      by (simp add: dict encode_element.simps)
  next
    case (list xs)
    then obtain es where es: "wire_elems 0 xs = Some es" "x = WArray es" using "1.prems"(1) by auto
    have "writes alloc w (enc_elems es) (fst (encode_elements alloc w 0 xs depth))" for w
      using "1.IH"(2) [OF list es(1)] "1.prems" list es(2) by simp
    then have "writes alloc w (frame (enc_elems es)) (fst (encode_array_body alloc w xs depth))" for w
      using writes_body [of alloc "enc_elems es" "\<lambda>w. encode_elements alloc w 0 xs depth" w] "1.prems"(4) es(2)
      by (simp add: encode_array_body.simps)
    then show ?thesis
      using writes_element [OF "1.prems"(3), of alloc "WArray es" "\<lambda>w. fst (encode_array_body alloc w xs depth)" w] es(2)
      by (simp add: list encode_element.simps)
  next
    case (tuple xs)
    then obtain es where es: "wire_elems 0 xs = Some es" "x = WArray es" using "1.prems"(1) by auto
    have "writes alloc w (enc_elems es) (fst (encode_elements alloc w 0 xs depth))" for w
      using "1.IH"(3) [OF tuple es(1)] "1.prems" tuple es(2) by simp
    then have "writes alloc w (frame (enc_elems es)) (fst (encode_array_body alloc w xs depth))" for w
      using writes_body [of alloc "enc_elems es" "\<lambda>w. encode_elements alloc w 0 xs depth" w] "1.prems"(4) es(2)
      by (simp add: encode_array_body.simps)
    then show ?thesis
      using writes_element [OF "1.prems"(3), of alloc "WArray es" "\<lambda>w. fst (encode_array_body alloc w xs depth)" w] es(2)
      by (simp add: tuple encode_element.simps)
  next
    case scalar
    then show ?thesis using writes_scalar [OF "1.prems"(3)] "1.prems"(1) by simp
  qed
next
  case 2
  then show ?case by (simp add: writes_Ok)
next
  case (3 k v items)
  obtain kb x es' where e: "key_bytes k = Some kb" "wire_val v = Some x" "wire_items items = Some es'" "es = (kb, x) # es'"
    using "3.prems"(1) by (auto simp: bind_eq_Some_conv)
  have "writes alloc w (element_bytes kb x) (fst (encode_element alloc w kb v (depth + 1)))" for w
    using "3.IH"(1) [OF e(1) e(2), of kb "depth + 1" w] "3.prems" e by simp
  moreover have "writes alloc w (enc_elems es') (fst (encode_items alloc w items depth))" for w
    using "3.IH"(2) [OF e(1) e(2) e(3), of depth w] "3.prems" e by simp
  ultimately show ?case
    using writes_seq [of alloc w "element_bytes kb x" "fst (encode_element alloc w kb v (depth + 1))" "enc_elems es'"
        "\<lambda>w. fst (encode_items alloc w items depth)"] e(1,4)
    by (simp only: enc_elems_Cons encode_items.simps fst_capi key_bytes_eq rbind.simps)
next
  case (4 i)
  then show ?case by (simp add: writes_Ok)
next
  case (5 i v xs)
  obtain x es' where e: "wire_val v = Some x" "wire_elems (i + 1) xs = Some es'" "es = (decimal_key i, x) # es'"
    using "5.prems"(1) by (auto simp: bind_eq_Some_conv)
  have k: "length (decimal_key i) < 2 ^ 63" using decimal_key_length [of i] "5.prems"(3) by simp
  have "writes alloc w (element_bytes (decimal_key i) x) (fst (encode_element alloc w (decimal_key i) v (depth + 1)))" for w
    using "5.IH"(1) [OF e(1) _ k, of "depth + 1" w] "5.prems" e by simp
  moreover have "writes alloc w (enc_elems es') (fst (encode_elements alloc w (i + 1) xs depth))" for w
    using "5.IH"(2) [OF e(1) e(2), of depth w] "5.prems" e by simp
  ultimately show ?case
    using writes_seq [of alloc w "element_bytes (decimal_key i) x" "fst (encode_element alloc w (decimal_key i) v (depth + 1))"
        "enc_elems es'" "\<lambda>w. fst (encode_elements alloc w (i + 1) xs depth)"] e(3)
    by (simp only: enc_elems_Cons encode_elements.simps fst_capi rbind.simps)
qed

text \<open>Conversely, the encoder only succeeds on an object with a document, within the depth limit.\<close>

lemma encode_wire:
  "fst (encode_element alloc w key v depth) = Ok w' \<Longrightarrow> depth \<le> BSON_MAX_DEPTH + 1 \<Longrightarrow>
     \<exists>x. wire_val v = Some x \<and> depth + depth_val x \<le> BSON_MAX_DEPTH + 1"
  "fst (encode_items alloc w items depth) = Ok w' \<Longrightarrow> depth \<le> BSON_MAX_DEPTH \<Longrightarrow>
     \<exists>es. wire_items items = Some es \<and> depth + depth_elems es \<le> BSON_MAX_DEPTH"
  "fst (encode_elements alloc w i xs depth) = Ok w' \<Longrightarrow> depth \<le> BSON_MAX_DEPTH \<Longrightarrow>
     \<exists>es. wire_elems i xs = Some es \<and> depth + depth_elems es \<le> BSON_MAX_DEPTH"
proof (induction v and items and i xs arbitrary: key depth w w' and depth w w' and depth w w'
    rule: wire_val_wire_items_wire_elems.induct)
  case (1 v)
  show ?case
  proof (cases v rule: pyval_cases)
    case (dict items)
    then obtain w1 w2 where "fst (encode_items alloc w1 items depth) = Ok w2" "depth \<le> BSON_MAX_DEPTH"
      using "1.prems"(1) by (auto simp: encode_element.simps encode_document_body.simps split: if_splits prod.splits)
    then show ?thesis using "1.IH"(1) [OF dict] dict by fastforce
  next
    case (list xs)
    then obtain w1 w2 where "fst (encode_elements alloc w1 0 xs depth) = Ok w2" "depth \<le> BSON_MAX_DEPTH"
      using "1.prems"(1) by (auto simp: encode_element.simps encode_array_body.simps split: if_splits prod.splits)
    then show ?thesis using "1.IH"(2) [OF list] list by fastforce
  next
    case (tuple xs)
    then obtain w1 w2 where "fst (encode_elements alloc w1 0 xs depth) = Ok w2" "depth \<le> BSON_MAX_DEPTH"
      using "1.prems"(1) by (auto simp: encode_element.simps encode_array_body.simps split: if_splits prod.splits)
    then show ?thesis using "1.IH"(3) [OF tuple] tuple by fastforce
  next
    case scalar
    then show ?thesis using encode_scalar_wire [of alloc w key v w'] wire_scalar_depth [of v] "1.prems" by auto
  qed
next
  case 2
  then show ?case by simp
next
  case (3 k v items)
  then obtain kb w1 where e: "key_bytes k = Some kb" "fst (encode_element alloc w kb v (depth + 1)) = Ok w1"
    "fst (encode_items alloc w1 items depth) = Ok w'" by (auto simp: key_bytes_eq)
  obtain x where x: "wire_val v = Some x" "depth + 1 + depth_val x \<le> BSON_MAX_DEPTH + 1"
    using "3.IH"(1) [OF e(1) e(2)] "3.prems"(2) by auto
  obtain es where "wire_items items = Some es" "depth + depth_elems es \<le> BSON_MAX_DEPTH"
    using "3.IH"(2) [OF e(1) x(1) e(3)] "3.prems"(2) by auto
  then show ?case using e(1) x by simp
next
  case (4 i)
  then show ?case by simp
next
  case (5 i v xs)
  then obtain w1 where e: "fst (encode_element alloc w (decimal_key i) v (depth + 1)) = Ok w1"
    "fst (encode_elements alloc w1 (i + 1) xs depth) = Ok w'" by auto
  obtain x where x: "wire_val v = Some x" "depth + 1 + depth_val x \<le> BSON_MAX_DEPTH + 1"
    using "5.IH"(1) [OF e(1)] "5.prems"(2) by auto
  obtain es where "wire_elems (i + 1) xs = Some es" "depth + depth_elems es \<le> BSON_MAX_DEPTH"
    using "5.IH"(2) [OF x(1) e(2)] "5.prems"(2) by auto
  then show ?case using x by simp
qed


section \<open>Well-formedness of what is written\<close>

lemma utf8_valid_AsUTF8: "PyUnicode_AsUTF8AndSize cs = Some bs \<Longrightarrow> utf8_valid bs"
  by (auto simp: PyUnicode_AsUTF8AndSize_def utf8_valid_def split: if_splits)

lemma key_bytes_wf: "key_bytes k = Some kb \<Longrightarrow> nul_free kb \<and> utf8_valid kb"
  by (auto simp: key_bytes_eq encode_key_def nul_free_def utf8_valid_AsUTF8 split: pyval.splits option.splits if_splits)

lemma decimal_key_wf: "\<exists>cs. (\<forall>c \<in> set cs. 48 \<le> c \<and> c < 58) \<and> decimal_key i = concat (map utf8_encode cs)"
proof (induction i rule: decimal_key.induct)
  case (1 i)
  have d: "utf8_encode (48 + n) = [word_of_nat (48 + n)]" if "n < 10" for n using that by (simp add: utf8_encode_def)
  show ?case
  proof (cases "i < 10")
    case True
    then show ?thesis using d [of i] by (intro exI [of _ "[48 + i]"]) (simp add: decimal_key.simps)
  next
    case False
    then obtain cs where "\<forall>c \<in> set cs. 48 \<le> c \<and> c < 58" "decimal_key (i div 10) = concat (map utf8_encode cs)"
      using "1.IH" by auto
    then show ?thesis using d [of "i mod 10"] False
      by (intro exI [of _ "cs @ [48 + i mod 10]"]) (auto simp: decimal_key.simps [of i])
  qed
qed

lemma decimal_key_ok: "nul_free (decimal_key i)" "utf8_valid (decimal_key i)"
proof -
  obtain cs where cs: "\<forall>c \<in> set cs. 48 \<le> c \<and> c < 58" "decimal_key i = concat (map utf8_encode cs)"
    using decimal_key_wf by blast
  have "scalar c \<and> 0 \<notin> set (utf8_encode c)" if "c \<in> set cs" for c
  proof -
    have "48 \<le> c" "c < 58" using that cs(1) by auto
    then show ?thesis by (auto simp: scalar_def utf8_encode_def word_of_nat_eq_0_iff dest: dvd_imp_le)
  qed
  then show "nul_free (decimal_key i)" "utf8_valid (decimal_key i)"
    unfolding nul_free_def utf8_valid_def cs(2) by (auto intro!: exI [of _ cs])
qed

lemma wire_scalar_wf: "wire_scalar v = Some x \<Longrightarrow> wf_val x"
  by (cases v) (auto simp: wire_scalar_def INT32_MAX_def split: option.splits pyval.splits if_splits result.splits)

lemma enc_val_part:
  "length (enc_val x) \<le> length (enc_elems ((k, x) # es)) \<and> length (enc_elems es) \<le> length (enc_elems ((k, x) # es))"
  by simp

lemma wire_wf:
  "wire_val v = Some x \<Longrightarrow> length (enc_val x) \<le> BSON_MAX_DOCUMENT_SIZE \<Longrightarrow> wf_val x"
  "wire_items items = Some es \<Longrightarrow> length (enc_elems es) \<le> BSON_MAX_DOCUMENT_SIZE \<Longrightarrow> wf_elems es"
  "wire_elems i xs = Some es \<Longrightarrow> length (enc_elems es) \<le> BSON_MAX_DOCUMENT_SIZE \<Longrightarrow> wf_elems es"
proof (induction v and items and i xs arbitrary: x and es and es rule: wire_val_wire_items_wire_elems.induct)
  case (1 v)
  show ?case
  proof (cases v rule: pyval_cases)
    case (dict items)
    then show ?thesis using "1.IH"(1) [OF dict] "1.prems" by auto
  next
    case (list xs)
    then show ?thesis using "1.IH"(2) [OF list] "1.prems" by auto
  next
    case (tuple xs)
    then show ?thesis using "1.IH"(3) [OF tuple] "1.prems" by auto
  next
    case scalar
    then show ?thesis using wire_scalar_wf "1.prems" by simp
  qed
next
  case (3 k v items)
  obtain kb x es' where e: "key_bytes k = Some kb" "wire_val v = Some x" "wire_items items = Some es'" "es = (kb, x) # es'"
    using "3.prems"(1) by (auto simp: bind_eq_Some_conv)
  show ?case
    using "3.IH"(1) [OF e(1,2)] "3.IH"(2) [OF e(1-3)] "3.prems"(2) enc_val_part [of x kb es'] key_bytes_wf [OF e(1)] e(4) by simp
next
  case (5 i v xs)
  obtain x es' where e: "wire_val v = Some x" "wire_elems (i + 1) xs = Some es'" "es = (decimal_key i, x) # es'"
    using "5.prems"(1) by (auto simp: bind_eq_Some_conv)
  show ?case
    using "5.IH"(1) [OF e(1)] "5.IH"(2) [OF e(1,2)] "5.prems"(2) enc_val_part [of x "decimal_key i" es'] decimal_key_ok e(3) by simp
qed simp_all

section \<open>The encoder comes back\<close>

text \<open>
  \<open>keeps w m\<close>: the call \<open>m\<close> on a writer that satisfies its invariant keeps it and what was written,
  or fails with an error.
\<close>

definition keeps :: "bson_writer \<Rightarrow> bson_writer result \<Rightarrow> bool" where
  "keeps w m \<longleftrightarrow> (writer_inv w \<longrightarrow> (case m of
     Ok w' \<Rightarrow> writer_inv w' \<and> length (wr_data w) \<le> length (wr_data w')
   | Err e \<Rightarrow> True | Fault \<Rightarrow> False | Diverge \<Rightarrow> False))"

lemma keeps_simps [simp]: "keeps w (Ok w)" "keeps w (Err e)"
  by (simp_all add: keeps_def)

lemma keeps_writes: "writes alloc w bs m \<Longrightarrow> keeps w m"
  by (auto simp: writes_def keeps_def split: result.splits)

lemma keeps_bind: "keeps w m \<Longrightarrow> (\<And>w'. keeps w' (f w')) \<Longrightarrow> keeps w (rbind m f)"
  by (cases m) (force simp: keeps_def split: result.splits)+

lemma keeps_put:
  "keeps w (bson_writer_append_null w)" "keeps w (bson_writer_append_bool alloc w b)"
  "keeps w (bson_writer_append_int32 alloc w i)" "keeps w (bson_writer_append_int64 alloc w i)"
  "keeps w (bson_writer_append_double alloc w d)" "keeps w (bson_writer_append_datetime_ms alloc w i)"
  "keeps w (bson_writer_append_utf8 alloc w str)" "keeps w (bson_writer_append_binary alloc w sub data)"
  "length oid = 12 \<Longrightarrow> keeps w (bson_writer_append_objectid alloc w oid)"
  "length key < 2 ^ 63 \<Longrightarrow> keeps w (bson_writer_append_element_header alloc w t key)"
proof -
  show "keeps w (bson_writer_append_utf8 alloc w str)"
    using keeps_writes [OF writes_utf8] by (cases "length str \<le> INT32_MAX - 1") (auto simp: bson_writer_append_utf8_def)
  show "keeps w (bson_writer_append_binary alloc w sub data)"
    using keeps_writes [OF writes_binary] by (cases "length data \<le> INT32_MAX") (auto simp: bson_writer_append_binary_def)
  show "length key < 2 ^ 63 \<Longrightarrow> keeps w (bson_writer_append_element_header alloc w t key)"
    by (rule keeps_writes [OF writes_header])
qed (auto simp: put_defs intro: keeps_writes writes_u8 writes_i32 writes_i64 writes_double writes_objectid)

lemma datetime_wf_ms: "datetime_wf d \<Longrightarrow> fst (datetime_to_epoch_ms d) \<noteq> Fault \<and> fst (datetime_to_epoch_ms d) \<noteq> Diverge"
  using ms_of_datetime(1) [of d] naive_ms_range [of d]
  by (auto simp: datetime_wf_def s64_def in_datetime_range_def abs_less_iff split: utc_offset.splits)

lemma keeps_scalar:
  assumes "py_wf v" "length key < 2 ^ 63"
  shows "keeps w (fst (encode_scalar alloc w key v))"
proof -
  have e: "keeps w (rbind (bson_writer_append_element_header alloc w t key) put)" if "\<And>w. keeps w (put w)" for t put
    using keeps_put(10) [OF assms(2)] that by (rule keeps_bind)
  show ?thesis
  proof (cases v)
    case (PyObjectId b)
    then show ?thesis
      by (auto simp: encode_scalar_def BSON_OBJECTID_LEN_def intro!: e keeps_put split: option.splits pyval.splits)
  next
    case (PyDatetime d)
    then have "fst (datetime_to_epoch_ms d) \<noteq> Fault \<and> fst (datetime_to_epoch_ms d) \<noteq> Diverge"
      using assms(1) datetime_wf_ms by simp
    with PyDatetime show ?thesis
      by (cases "fst (datetime_to_epoch_ms d)") (auto simp: encode_scalar_def intro!: e keeps_put)
  qed (auto simp: encode_scalar_def intro!: e keeps_put split: option.splits)
qed

lemma keeps_body:
  assumes "\<And>w. keeps w (fst (loop w))"
  shows "keeps w (fst (capi_bind (capi_ok (bson_writer_begin_document alloc w)) (\<lambda>(patch, w).
       capi_bind (loop w) (\<lambda>w. capi_ok (bson_writer_end_document alloc w patch)))))"
proof -
  have "keeps w (rbind (bson_writer_begin_document alloc w) (\<lambda>(patch, w'). rbind (fst (loop w')) (\<lambda>w'. bson_writer_end_document alloc w' patch)))"
    unfolding keeps_def
  proof
    assume inv: "writer_inv w"
    show "case rbind (bson_writer_begin_document alloc w) (\<lambda>(patch, w'). rbind (fst (loop w')) (\<lambda>w'. bson_writer_end_document alloc w' patch)) of
       Ok w' \<Rightarrow> writer_inv w' \<and> length (wr_data w) \<le> length (wr_data w') | Err e \<Rightarrow> True | Fault \<Rightarrow> False | Diverge \<Rightarrow> False"
    proof (cases "writer_put_i32 alloc w 0")
      case (Ok w1)
      then have w1: "writer_inv w1" "length (wr_data w1) = length (wr_data w) + 4"
        using writes_OkD [OF writes_i32 [of alloc w 0, unfolded Ok] inv] by simp_all
      show ?thesis
      proof (cases "fst (loop w1)")
        case (Ok w2)
        then have w2: "writer_inv w2" "length (wr_data w) + 4 \<le> length (wr_data w2)"
          using assms [of w1] w1 by (simp_all add: keeps_def)
        show ?thesis
        proof (cases "writer_put_u8 alloc w2 BSON_EOO_BYTE")
          case (Ok w3)
          then have "writer_inv w3" "length (wr_data w3) = length (wr_data w2) + 1"
            using writes_OkD [OF writes_u8 [of alloc w2 BSON_EOO_BYTE, unfolded Ok] w2(1)] by simp_all
          then show ?thesis
            using \<open>writer_put_i32 alloc w 0 = Ok w1\<close> \<open>fst (loop w1) = Ok w2\<close> Ok w2
            by (simp add: bson_writer_begin_document_def bson_writer_end_document_def Let_def poke_def writer_inv_def)
        qed (use writes_safe [OF writes_u8 [of alloc w2 BSON_EOO_BYTE] w2(1)] \<open>writer_put_i32 alloc w 0 = Ok w1\<close> Ok in
            \<open>simp_all add: bson_writer_begin_document_def bson_writer_end_document_def\<close>)
      qed (use assms [of w1] w1 Ok in \<open>simp_all add: keeps_def bson_writer_begin_document_def\<close>)
    qed (use writes_safe [OF writes_i32 [of alloc w 0] inv] in \<open>simp_all add: bson_writer_begin_document_def\<close>)
  qed
  then show ?thesis by (simp add: case_prod_beta')
qed

lemma key_bytes_cases:
  obtains (err) e where "fst (encode_key k) = Err e" | (ok) kb where "fst (encode_key k) = Ok kb" "key_bytes k = Some kb"
  by (cases "fst (encode_key k)")
    (auto simp: key_bytes_eq encode_key_def split: pyval.splits option.splits if_splits)

lemma encode_keeps:
  "py_wf v \<Longrightarrow> length key < 2 ^ 63 \<Longrightarrow> keeps w (fst (encode_element alloc w key v depth))"
  "wf_items items \<Longrightarrow> keeps w (fst (encode_items alloc w items depth))"
  "wf_list xs \<Longrightarrow> i + length xs < 2 ^ 61 \<Longrightarrow> keeps w (fst (encode_elements alloc w i xs depth))"
proof (induction v and items and xs arbitrary: key depth w and depth w and i depth w
    rule: py_wf_wf_items_wf_list.induct)
  case (1 v)
  note hd = keeps_put(10) [OF "1.prems"(2)]
  show ?case
  proof (cases v rule: pyval_cases)
    case (dict items)
    then show ?thesis
      using keeps_body [of "\<lambda>w. encode_items alloc w items depth", OF "1.IH"(1) [OF dict]] "1.prems"(1)
      by (auto simp: encode_element.simps encode_document_body.simps intro!: keeps_bind hd)
  next
    case (list xs)
    then show ?thesis
      using keeps_body [of "\<lambda>w. encode_elements alloc w 0 xs depth", OF "1.IH"(2) [OF list]] "1.prems"(1)
      by (auto simp: encode_element.simps encode_array_body.simps intro!: keeps_bind hd)
  next
    case (tuple xs)
    then show ?thesis
      using keeps_body [of "\<lambda>w. encode_elements alloc w 0 xs depth", OF "1.IH"(3) [OF tuple]] "1.prems"(1)
      by (auto simp: encode_element.simps encode_array_body.simps intro!: keeps_bind hd)
  next
    case scalar
    then show ?thesis using keeps_scalar "1.prems" by simp
  qed
next
  case (3 k v items)
  show ?case
  proof (cases k rule: key_bytes_cases)
    case (ok kb)
    then have "length kb < 2 ^ 63" using "3.prems" by simp
    then have "keeps w (fst (encode_element alloc w kb v (depth + 1)))" using "3.IH"(1) ok(2) "3.prems" by simp
    moreover have "keeps w' (fst (encode_items alloc w' items depth))" for w' using "3.IH"(2) ok "3.prems" by auto
    ultimately show ?thesis using ok by (simp add: keeps_bind)
  qed simp
next
  case (5 v xs)
  have "length (decimal_key i) < 2 ^ 63" using decimal_key_length [of i] "5.prems"(2) by simp
  then show ?case using "5.IH" "5.prems" by (auto intro!: keeps_bind)
qed simp_all

section \<open>The encoder\<close>

text \<open>The error indicator is only set together with an error status.\<close>

definition clean :: "'a capi \<Rightarrow> bool" where
  "clean m \<longleftrightarrow> (case fst m of Err e \<Rightarrow> True | _ \<Rightarrow> snd m = None)"

lemma clean_simps [simp]: "clean (capi_ok r)" "clean (capi_fail e)" "clean (capi_raised e exc)"
  by (simp_all add: clean_def capi_ok_def capi_fail_def capi_raised_def split: result.splits)

lemma clean_bind: "clean m \<Longrightarrow> (\<And>x. fst m = Ok x \<Longrightarrow> clean (f x)) \<Longrightarrow> clean (capi_bind m f)"
  by (cases m; cases "fst m") (auto simp: clean_def capi_bind_def)

lemma clean_datetime: "clean (datetime_to_epoch_ms d)"
  by (auto simp: datetime_to_epoch_ms_def Let_def intro!: clean_bind split: utc_offset.splits)

lemma clean_key: "clean (encode_key k)"
  by (simp add: encode_key_def split: pyval.splits option.splits)

lemma clean_scalar: "clean (encode_scalar alloc w key v)"
  by (auto simp: encode_scalar_def Let_def intro!: clean_bind clean_datetime split: pyval.splits option.splits)

lemma encode_clean:
  "clean (encode_element alloc w key v depth)" "clean (encode_document_body alloc w items depth)"
  "clean (encode_items alloc w items depth)" "clean (encode_array_body alloc w xs depth)"
  "clean (encode_elements alloc w i xs depth)"
proof (induction alloc w key v depth and alloc w items depth and alloc w items depth and alloc w xs depth and alloc w i xs depth
    rule: encode_element_encode_document_body_encode_items_encode_array_body_encode_elements.induct)
  case (1 alloc w key v depth)
  show ?case
  proof (cases v rule: pyval_cases)
    case (dict items)
    then show ?thesis unfolding encode_element.simps by (simp only: pyval.simps) (intro clean_bind clean_simps "1.IH"(1))
  next
    case (list xs)
    then show ?thesis unfolding encode_element.simps by (simp only: pyval.simps) (intro clean_bind clean_simps "1.IH"(2))
  next
    case (tuple xs)
    then show ?thesis unfolding encode_element.simps by (simp only: pyval.simps) (intro clean_bind clean_simps "1.IH"(3))
  next
    case scalar
    then show ?thesis using clean_scalar by simp
  qed
next
  case (2 alloc w items depth)
  show ?case
    unfolding encode_document_body.simps
    by (cases "depth > BSON_MAX_DEPTH") (auto intro!: clean_bind "2.IH" split: prod.splits)
next
  case (4 alloc w k v items depth)
  show ?case unfolding encode_items.simps by (intro clean_bind clean_key "4.IH")
next
  case (5 alloc w xs depth)
  show ?case
    unfolding encode_array_body.simps
    by (cases "depth > BSON_MAX_DEPTH") (auto intro!: clean_bind "5.IH" split: prod.splits)
next
  case (7 alloc w i v xs depth)
  show ?case unfolding encode_elements.simps by (intro clean_bind "7.IH")
qed simp_all

lemma py_encode_cases:
  assumes "wf_items items"
  obtains (ok) es where "py_encode alloc (PyDict items) = PyOk (enc_doc es)" "wire_items items = Some es"
      "depth_elems es \<le> BSON_MAX_DEPTH" "length (enc_doc es) \<le> BSON_MAX_DOCUMENT_SIZE"
  | (err) e where "py_encode alloc (PyDict items) = PyRaise e"
      "(\<exists>c. \<not> alloc c) \<or> (\<nexists>es. wire_items items = Some es \<and> depth_elems es \<le> BSON_MAX_DEPTH \<and>
         length (enc_doc es) \<le> BSON_MAX_DOCUMENT_SIZE)"
proof (cases "bson_writer_init alloc (size_add 256 (size_mul (length items) 32))")
  case (Ok w0)
  then have w0: "writer_inv w0" "wr_data w0 = []" using writer_init_inv by auto
  define m where "m = encode_document_body alloc w0 items 0"
  have m: "m = capi_bind (capi_ok (bson_writer_begin_document alloc w0)) (\<lambda>(patch, w).
       capi_bind (encode_items alloc w items 0) (\<lambda>w. capi_ok (bson_writer_end_document alloc w patch)))"
    by (simp add: m_def encode_document_body.simps)
  have cl: "clean m" unfolding m_def by (rule encode_clean(2))
  have keep: "keeps w0 (fst m)" unfolding m using encode_keeps(2) [OF assms] by (rule keeps_body)
  have dec: "writes alloc w0 (enc_doc es) (fst m)" if "wire_items items = Some es" "depth_elems es \<le> BSON_MAX_DEPTH" for es
    unfolding m enc_doc_def using encode_writes(2) [OF that(1) assms, of 0] that(2) by (intro writes_body) simp
  have wire: "\<exists>es. wire_items items = Some es \<and> depth_elems es \<le> BSON_MAX_DEPTH" if "fst m = Ok w" for w
    using that encode_wire(2) [of alloc _ items 0] unfolding m by (auto split: prod.splits)
  have py: "py_encode alloc (PyDict items) = (case m of (_, Some exc) \<Rightarrow> PyRaise exc
      | (r, None) \<Rightarrow> bson_to_py (rbind r (\<lambda>w. case bson_writer_release w of (buf, n, _) \<Rightarrow> peek buf 0 n)))"
    by (simp add: py_encode_def Ok m_def)
  show thesis
  proof (cases "fst m")
    case (Ok w)
    then have "m = (Ok w, None)" using cl by (cases m) (simp add: clean_def)
    then have pk: "py_encode alloc (PyDict items) = PyOk (wr_data w)" by (simp add: py bson_writer_release_def)
    obtain es where es: "wire_items items = Some es" "depth_elems es \<le> BSON_MAX_DEPTH" using wire [OF Ok] by blast
    have "wr_data w = enc_doc es" "writer_inv w" using writes_OkD [OF dec [OF es, unfolded Ok] w0(1)] w0(2) by simp_all
    then show thesis using ok [of es] pk es by (simp add: writer_inv_def)
  next
    case (Err e)
    then have "\<exists>x. py_encode alloc (PyDict items) = PyRaise x" by (cases m) (auto simp: py split: option.splits)
    moreover have "BSON_MAX_DOCUMENT_SIZE < length (enc_doc es) \<or> (\<exists>c. \<not> alloc c)"
      if "wire_items items = Some es" "depth_elems es \<le> BSON_MAX_DEPTH" for es
      using dec [OF that] w0 Err by (auto simp: writes_def)
    ultimately show thesis using err by (metis not_le)
  qed (use keep w0(1) in \<open>simp_all add: keeps_def\<close>)
next
  case (Err e)
  then have "\<exists>c. \<not> alloc c" by (auto simp: bson_writer_init_def Let_def split: if_splits)
  with Err show thesis using err [of MemoryError] by (simp add: py_encode_def)
qed (auto simp: bson_writer_init_def Let_def split: if_splits)

end
