(* ===== verification/Codec_Decode.thy ===== *)
theory Codec_Decode
  imports Bson_Codec
begin

text \<open>
  What decoding computes: \<open>obj_val\<close> is the object of a wire value, or the exception; the functions
  that build objects from a validated buffer compute it.
\<close>

section \<open>The object of a document\<close>

definition str_of :: "byte list \<Rightarrow> pyval py" where
  "str_of bs = (case PyUnicode_FromStringAndSize bs of Some cs \<Rightarrow> PyOk (PyStr cs) | None \<Rightarrow> PyRaise UnicodeError)"

text \<open>A string is only checked now: its terminator and its UTF-8.\<close>

definition obj_string :: "byte list \<Rightarrow> pyval py" where
  "obj_string s =
     (if last s \<noteq> 0 then PyRaise InvalidBSON
      else if \<not> utf8_valid (butlast s) then PyRaise InvalidBSON else str_of (butlast s))"

fun obj_val :: "wval \<Rightarrow> pyval py"
  and obj_items :: "(pyval \<times> pyval) list \<Rightarrow> welems \<Rightarrow> (pyval \<times> pyval) list py"
  and obj_elems :: "pyval list \<Rightarrow> welems \<Rightarrow> pyval list py" where
  "obj_val (WDouble w) = PyOk (PyFloat w)"
| "obj_val (WString s) = obj_string s"
| "obj_val (WDocument es) = py_bind (obj_items [] es) (\<lambda>d. PyOk (PyDict d))"
| "obj_val (WArray es) = py_bind (obj_elems [] es) (\<lambda>xs. PyOk (PyList xs))"
| "obj_val (WBinary sub bs) = PyOk (PyBytes bs)"
| "obj_val (WObjectId bs) = PyOk (PyObjectId (Some (PyBytes bs)))"
| "obj_val (WBool b) = PyOk (PyBool (b \<noteq> 0))"
| "obj_val (WDatetime w) = bson_to_py (rbind (datetime_from_epoch_ms (sint w)) (\<lambda>d. Ok (PyDatetime d)))"
| "obj_val WNull = PyOk PyNone"
| "obj_val (WInt32 w) = PyOk (PyInt (sint w))"
| "obj_val (WInt64 w) = PyOk (PyInt (sint w))"
| "obj_items d [] = PyOk d"
| "obj_items d ((k, v) # es) = py_bind (str_of k) (\<lambda>key. py_bind (obj_val v) (\<lambda>x. obj_items (PyDict_SetItem d key x) es))"
| "obj_elems xs [] = PyOk xs"
| "obj_elems xs ((k, v) # es) = py_bind (obj_val v) (\<lambda>x. obj_elems (xs @ [x]) es)"

section \<open>Reading one value\<close>

lemma le_i32_sint: "nat_le 4 (unat (w :: u32)) = le_i32 (sint w)"
  by (simp add: le_i32_def)

lemma le_i64_sint: "nat_le 8 (unat (w :: u64)) = le_i64 (sint w)"
  by (simp add: le_i64_def)

lemma sint_range: "- (2 ^ 31) \<le> sint (w :: u32)" "sint (w :: u32) < 2 ^ 31"
  using sint_greater_eq [of w] sint_less [of w] by simp_all

lemma sint_range64: "- (2 ^ 63) \<le> sint (w :: u64)" "sint (w :: u64) < 2 ^ 63"
  using sint_greater_eq [of w] sint_less [of w] by simp_all

text \<open>An iterator that stands behind an element whose value is \<open>v\<close>, in the buffer \<open>buf\<close>.\<close>

definition value_at :: "byte list \<Rightarrow> bson_iter \<Rightarrow> wval \<Rightarrow> bool" where
  "value_at buf it v \<longleftrightarrow> iter_inv it \<and> rd_buf (it_reader it) = buf \<and> it_type it = wtype v \<and> wf_val v \<and>
     it_value_off it + length (enc_val v) = rd_pos (it_reader it) \<and>
     seg buf (it_value_off it) (rd_pos (it_reader it)) = enc_val v"

lemma value_prefix:
  assumes "value_at buf it v" "enc_val v = a @ b"
  shows "take (length a) (drop (it_value_off it) buf) = a"
    "take (length b) (drop (it_value_off it + length a) buf) = b"
    "it_value_off it + length a + length b = rd_pos (it_reader it)" "rd_pos (it_reader it) \<le> rd_len (it_reader it)"
    "rd_len (it_reader it) \<le> length buf" "reader_inv (iter_value_reader it)"
proof -
  let ?p = "it_value_off it" and ?q = "rd_pos (it_reader it)"
  have v: "?p + length (enc_val v) = ?q" "seg buf ?p ?q = enc_val v" "iter_inv it" "rd_buf (it_reader it) = buf"
    using assms(1) by (simp_all only: value_at_def)
  have q: "?p + length a + length b = ?q" using v(1) by (simp add: assms(2))
  have q2: "?q \<le> rd_len (it_reader it)" "rd_len (it_reader it) \<le> length buf"
    using v(3,4) by (simp_all add: iter_inv_def reader_inv_def)
  note q = q q2
  then show "?p + length a + length b = ?q" "?q \<le> rd_len (it_reader it)" "rd_len (it_reader it) \<le> length buf" by simp_all
  have s: "take (length a + length b) (drop ?p buf) = a @ b" using v(2) unfolding assms(2) q(1) [symmetric] by (simp add: seg_def)
  show "take (length a) (drop ?p buf) = a"
    using arg_cong [OF s, of "take (length a)"] by (simp add: min_def)
  show "take (length b) (drop (?p + length a) buf) = b"
    using arg_cong [OF s, of "drop (length a)"] by (simp add: drop_take add.commute)
  show "reader_inv (iter_value_reader it)" using q v(4) by (simp add: reader_inv_def iter_value_reader_def)
qed


lemma value_reader_simps [simp]:
  "rd_pos (iter_value_reader it) = it_value_off it" "rd_len (iter_value_reader it) = rd_len (it_reader it)"
  "rd_buf (iter_value_reader it) = rd_buf (it_reader it)"
  by (simp_all add: iter_value_reader_def)

lemma string_value:
  assumes at: "value_at buf it (WString s)"
  shows "py_bind (bson_to_py (bson_iter_value_utf8 it)) (\<lambda>(p, n). decode_str buf p n) = obj_string s"
proof -
  let ?o = "it_value_off it"
  note p = value_prefix [OF at, of "nat_le 4 (length s)" s]
  have s: "s \<noteq> []" "length s < 2 ^ 31" and t: "it_type it = BSON_TYPE_STRING" and b: "rd_buf (it_reader it) = buf"
    using at by (simp_all add: value_at_def)
  have n: "i32_of (nat_le 4 (length s)) = int (length s)" using s(2) by (rule i32_of_nat_le)
  obtain m where m: "length s = Suc m" using s(1) by (cases s) simp_all
  have le: "?o + 4 + Suc m \<le> rd_len (it_reader it)" "?o + 4 + Suc m \<le> length buf" using p(3-5) m by simp_all
  have i: "bson_reader_read_i32 (iter_value_reader it) = Ok (int (length s), (iter_value_reader it)\<lparr>rd_pos := ?o + 4\<rparr>)"
    using p(1,6) le b n by (simp add: read_i32_eq)
  define r where "r = (iter_value_reader it)\<lparr>rd_pos := ?o + 4\<rparr>"
  have r: "reader_inv r" "rd_pos r = ?o + 4" "rd_len r = rd_len (it_reader it)" "rd_buf r = buf"
    using p(6) le b by (simp_all add: r_def reader_inv_def)
  have bytes: "bson_reader_read_bytes r (Suc m) = Ok (?o + 4, r\<lparr>rd_pos := ?o + 4 + Suc m\<rparr>)"
    using r le by (simp add: read_bytes_eq)
  have drp: "take (Suc m) (drop (?o + 4) buf) = s" using p(2) m by simp
  have pk: "peek1 buf (?o + 4 + m) = Ok (last s)"
    using arg_cong [OF drp, of "\<lambda>xs. xs ! m"] le s(1) m by (simp add: last_conv_nth)
  have tk: "take m (drop (?o + 4) buf) = butlast s"
    using arg_cong [OF drp, of butlast] le by (simp add: butlast_take)
  have u: "bson_utf8_validate (drop (?o + 4) buf) m = Ok (utf8_valid (butlast s))"
    using utf8_validate_eq [of m "drop (?o + 4) buf"] le unfolding tk by simp
  have nat: "nat (int (length s)) = Suc m" "nat (int (length s) - 1) = m" "\<not> int (length s) < 1"
    by (simp_all add: m)
  have "bson_iter_value_utf8 it = (if last s \<noteq> 0 then Err BSON_ERR_UNTERMINATED_STRING
      else if \<not> utf8_valid (butlast s) then Err BSON_ERR_INVALID_UTF8 else Ok (?o + 4, m))"
    by (simp only: bson_iter_value_utf8_def t i rbind.simps prod.case r_def [symmetric] nat bytes r(4) pk u if_False
        diff_Suc_1 not_True_eq_False simp_thms split: if_split)
  moreover have "decode_str buf (?o + 4) m = str_of (butlast s)"
    unfolding tk [symmetric] using le by (simp add: decode_str_def str_of_def peek_def)
  ultimately show ?thesis by (simp add: obj_string_def)
qed

lemma binary_value:
  assumes at: "value_at buf it (WBinary sub bs)"
  shows "rbind (bson_iter_value_binary it) (\<lambda>(sub, p, n). rbind (peek buf p n) (\<lambda>bs. Ok (PyBytes bs))) = Ok (PyBytes bs)"
proof -
  let ?o = "it_value_off it"
  note p = value_prefix [OF at, of "nat_le 4 (length bs)" "sub # bs"]
  note p5 = value_prefix [OF at, of "nat_le 4 (length bs) @ [sub]" "bs"]
  have s: "length bs < 2 ^ 31" and t: "it_type it = BSON_TYPE_BINARY" and b: "rd_buf (it_reader it) = buf"
    using at by (simp_all add: value_at_def)
  have n: "i32_of (nat_le 4 (length bs)) = int (length bs)" using s by (rule i32_of_nat_le)
  have le: "?o + 5 + length bs \<le> rd_len (it_reader it)" "?o + 5 + length bs \<le> length buf" using p(3-5) by simp_all
  have i: "bson_reader_read_i32 (iter_value_reader it) = Ok (int (length bs), (iter_value_reader it)\<lparr>rd_pos := ?o + 4\<rparr>)"
    using p(1,6) le b n by (simp add: read_i32_eq)
  define r where "r = (iter_value_reader it)\<lparr>rd_pos := ?o + 4\<rparr>"
  have r: "reader_inv r" "rd_pos r = ?o + 4" "rd_len r = rd_len (it_reader it)" "rd_buf r = buf"
    using p(6) le b by (simp_all add: r_def reader_inv_def)
  have u8: "bson_reader_read_u8 r = Ok (buf ! (?o + 4), r\<lparr>rd_pos := ?o + 5\<rparr>)" using r le by (simp add: read_u8_eq)
  have "reader_inv (r\<lparr>rd_pos := ?o + 5\<rparr>)" using r le by (simp add: reader_inv_def)
  then have bytes: "bson_reader_read_bytes (r\<lparr>rd_pos := ?o + 5\<rparr>) (length bs) = Ok (?o + 5, r\<lparr>rd_pos := ?o + 5 + length bs\<rparr>)"
    using r le by (simp add: read_bytes_eq)
  have "bson_iter_value_binary it = Ok (buf ! (?o + 4), ?o + 5, length bs)"
    unfolding bson_iter_value_binary_def i rbind.simps prod.case r_def [symmetric] using t by (simp add: u8 bytes)
  then show ?thesis using p5(2) le by simp
qed

lemma fixed_value:
  assumes at: "value_at buf it v"
  shows "v = WDouble w \<Longrightarrow> bson_iter_value_double it = Ok w"
    "v = WObjectId bs \<Longrightarrow> rbind (bson_iter_value_objectid it) (\<lambda>p. peek buf p BSON_OBJECTID_LEN) = Ok bs"
    "v = WBool c \<Longrightarrow> bson_iter_value_bool it = Ok (c \<noteq> 0)"
    "v = WDatetime w \<Longrightarrow> bson_iter_value_datetime_ms it = Ok (sint w)"
    "v = WInt32 x \<Longrightarrow> bson_iter_value_int32 it = Ok (sint x)"
    "v = WInt64 w \<Longrightarrow> bson_iter_value_int64 it = Ok (sint w)"
proof -
  let ?o = "it_value_off it"
  note p = value_prefix [OF at, of "enc_val v" "[]", simplified]
  have t: "it_type it = wtype v" and b: "rd_buf (it_reader it) = buf" using at by (simp_all add: value_at_def)
  show "bson_iter_value_double it = Ok w" if "v = WDouble w"
    using p that t b by (simp add: bson_iter_value_double_def read_double_eq word_le_nat_nat_le_8)
  show "bson_iter_value_bool it = Ok (c \<noteq> 0)" if "v = WBool c"
  proof -
    have "take 1 (drop ?o buf) = [c]" using p(1) that by simp
    then have "buf ! ?o = c" using p that by (cases "drop ?o buf") (simp_all add: nth_via_drop)
    then show ?thesis using p that t b by (simp add: bson_iter_value_bool_def read_u8_eq)
  qed
  show "bson_iter_value_datetime_ms it = Ok (sint w)" if "v = WDatetime w"
    using p that t b by (simp add: bson_iter_value_datetime_ms_def read_i64_eq le_i64_sint i64_of_le_i64 sint_range64 [simplified])
  show "bson_iter_value_int64 it = Ok (sint w)" if "v = WInt64 w"
    using p that t b by (simp add: bson_iter_value_int64_def read_i64_eq le_i64_sint i64_of_le_i64 sint_range64 [simplified])
  show "bson_iter_value_int32 it = Ok (sint x)" if "v = WInt32 x"
    using p that t b by (simp add: bson_iter_value_int32_def read_i32_eq le_i32_sint i32_of_le_i32 sint_range [simplified])
  show "rbind (bson_iter_value_objectid it) (\<lambda>p. peek buf p BSON_OBJECTID_LEN) = Ok bs" if "v = WObjectId bs"
  proof -
    have "length bs = 12" using at that by (simp add: value_at_def)
    then show ?thesis
      using p that t b by (simp add: bson_iter_value_objectid_def BSON_OBJECTID_LEN_def read_bytes_eq)
  qed
qed

lemma build_scalar_value:
  assumes "value_at buf it v" "\<nexists>es. v = WDocument es \<or> v = WArray es"
  shows "build_scalar buf it = obj_val v"
proof -
  have t: "it_type it = wtype v" using assms(1) by (simp add: value_at_def)
  show ?thesis
  proof (cases v)
    case (WString s)
    then show ?thesis using string_value assms(1) t by (simp add: build_scalar_def bson_type_defs)
  next
    case (WBinary sub bs)
    then show ?thesis using binary_value assms(1) t by (simp add: build_scalar_def bson_type_defs)
  next
    case (WObjectId bs)
    have "rbind (bson_iter_value_objectid it) (\<lambda>oid. rbind (peek buf oid BSON_OBJECTID_LEN) (\<lambda>raw. Ok (PyObjectId (Some (PyBytes raw))))) =
        Ok (PyObjectId (Some (PyBytes bs)))"
      using fixed_value(2) [OF assms(1) WObjectId] by auto
    then show ?thesis using WObjectId t by (simp add: build_scalar_def bson_type_defs)
  qed (use assms t fixed_value [OF assms(1)] in \<open>simp_all add: build_scalar_def bson_type_defs\<close>)
qed

section \<open>Reading elements\<close>

text \<open>An iterator in the buffer \<open>buf\<close> with the elements \<open>es\<close> before it, up to the end of its document.\<close>

definition elems_at :: "byte list \<Rightarrow> bson_iter \<Rightarrow> welems \<Rightarrow> bool" where
  "elems_at buf it es \<longleftrightarrow> iter_inv it \<and> rd_buf (it_reader it) = buf \<and> buf ! it_doc_end it = 0 \<and> wf_elems es \<and>
     seg buf (rd_pos (it_reader it)) (it_doc_end it) = enc_elems es"

lemma elems_atD:
  assumes "elems_at buf it es"
  shows "iter_inv it" "rd_buf (it_reader it) = buf" "buf ! it_doc_end it = 0" "wf_elems es"
    "seg buf (rd_pos (it_reader it)) (it_doc_end it) = enc_elems es"
    "rd_pos (it_reader it) \<le> it_doc_end it" "it_doc_end it < length buf"
  using assms by (auto simp: elems_at_def iter_inv_def reader_inv_def)

lemma next_at_end:
  assumes "elems_at buf it []"
  obtains it' where "bson_iter_next it = Ok (False, it')"
proof -
  note e = elems_atD [OF assms]
  have "rd_pos (it_reader it) = it_doc_end it" using e(5-7) length_seg [of "it_doc_end it" buf "rd_pos (it_reader it)"] by simp
  then show ?thesis using that iter_next_end_iff [OF e(1)] e(2,3) by simp
qed

lemma next_at_elem:
  assumes "elems_at buf it ((k, v) # es)"
  obtains it' where "bson_iter_next it = Ok (True, it')" "value_at buf it' v" "elems_at buf it' es"
    "decode_str buf (it_key_off it') (it_key_len it') = str_of k"
proof -
  note e = elems_atD [OF assms]
  let ?p = "rd_pos (it_reader it)" and ?kl = "length k" and ?n = "length (enc_val v)"
  have wf: "nul_free k" "utf8_valid k" "wf_val v" "wf_elems es" using e(4) by simp_all
  have eq: "seg buf ?p (it_doc_end it) = wtype v # k @ 0 # enc_val v @ enc_elems es" using e(5) by simp
  note at = element_atI [OF eq e(6) less_imp_le [OF e(7)] wf(1,2) value_ok_enc [OF wf(3)]]
  define it' where "it' = iter_at it ?kl ?n"
  have nx: "bson_iter_next it = Ok (True, it')"
    unfolding iter_next_elem_iff [OF e(1)] e(2) it'_def using at(1) by blast
  have inv: "iter_inv it'" by (rule iter_next_inv [OF e(1) nx])
  have f: "it_type it' = buf ! ?p" "it_doc_end it' = it_doc_end it" "it_value_off it' = ?p + 1 + ?kl + 1"
    "rd_pos (it_reader it') = ?p + 1 + ?kl + 1 + ?n" "rd_buf (it_reader it') = buf" "it_key_off it' = ?p + 1" "it_key_len it' = ?kl"
    using e(2) by (simp_all add: it'_def iter_at_def Let_def)
  have "value_at buf it' v" unfolding value_at_def f using inv wf(3) at(2,3) by simp
  moreover have "elems_at buf it' es" unfolding elems_at_def f using inv e(3) wf(4) at(4) by simp
  moreover have "decode_str buf (it_key_off it') (it_key_len it') = str_of k"
  proof -
    have "seg buf ?p (it_doc_end it) = [wtype v] @ (k @ 0 # enc_val v @ enc_elems es)" using eq by simp
    from seg_eq_appendD [OF this e(6) less_imp_le [OF e(7)]]
    have s: "?p + 1 \<le> it_doc_end it" "seg buf (?p + 1) (it_doc_end it) = k @ (0 # enc_val v @ enc_elems es)" by simp_all
    from seg_eq_appendD [OF s(2,1) less_imp_le [OF e(7)]] e(7)
    have "?p + 1 + ?kl \<le> length buf" "take ?kl (drop (?p + 1) buf) = k" by (simp_all add: seg_def)
    then show ?thesis unfolding f by (simp add: decode_str_def str_of_def peek_def)
  qed
  ultimately show ?thesis using that nx by blast
qed

text \<open>A document in a buffer: the nested iterator stands before its elements.\<close>

lemma nested_at:
  assumes seg: "seg buf off (off + length (enc_doc es)) = enc_doc es" and wf: "wf_doc es"
    and le: "off + length (enc_doc es) \<le> bound" "bound \<le> length buf"
  obtains it where "bson_iter_init_nested buf off bound = Ok it" "elems_at buf it es"
proof -
  let ?n = "length (enc_doc es)"
  have pre: "i32_of (take 4 (drop off buf)) = int ?n" using enc_doc_prefix [OF seg _ wf] le by simp
  have n: "?n = length (enc_elems es) + 5" "?n \<le> BSON_MAX_DOCUMENT_SIZE" using wf by (simp_all add: wf_doc_def)
  have le': "off + ?n \<le> length buf" using le by simp
  define it where "it = \<lparr>it_reader = \<lparr>rd_buf = buf, rd_len = bound, rd_pos = off + 4\<rparr>, it_doc_end = off + ?n - 1,
      it_type = 0, it_key_off = 0, it_key_len = 0, it_value_off = 0\<rparr>"
  have init: "bson_iter_init_nested buf off bound = Ok it"
  proof -
    have "5 \<le> N \<Longrightarrow> N \<le> BSON_MAX_DOCUMENT_SIZE \<Longrightarrow> off + N \<le> bound \<Longrightarrow> i32_of (take 4 (drop off buf)) = int N \<Longrightarrow>
        bson_iter_init_nested buf off bound = Ok \<lparr>it_reader = \<lparr>rd_buf = buf, rd_len = bound, rd_pos = off + 4\<rparr>,
          it_doc_end = off + N - 1, it_type = 0, it_key_off = 0, it_key_len = 0, it_value_off = 0\<rparr>" for N
      by (simp add: iter_init_nested_eq [OF le(2)] Let_def)
    from this [OF _ n(2) le(1) pre] show ?thesis using n(1) unfolding it_def by simp
  qed
  have split: "seg buf off (off + ?n) = nat_le 4 ?n @ (enc_elems es @ [BSON_EOO_BYTE])"
    unfolding seg by (simp add: enc_doc_def frame_def add.commute)
  from seg_eq_appendD [OF this _ le'] have 1: "seg buf (off + 4) (off + ?n) = enc_elems es @ [BSON_EOO_BYTE]" by simp
  from seg_eq_appendD [OF 1 _ le'] n(1)
  have 2: "enc_elems es = seg buf (off + 4) (off + ?n - 1)" "[BSON_EOO_BYTE] = seg buf (off + ?n - 1) (off + ?n)"
    by (simp_all add: add.commute add.left_commute)
  have "buf ! (off + ?n - 1) = 0"
    using 2(2) n(1) le' seg_Cons [of "off + ?n - 1" "off + ?n" buf] by (simp add: BSON_EOO_BYTE_def)
  moreover have "wf_elems es" using wf by (simp add: wf_doc_def)
  moreover have "off + 4 \<le> off + ?n - 1" "off + ?n - 1 < bound" using n(1) le(1) by simp_all
  ultimately have "elems_at buf it es"
    using 2(1) le(2) unfolding elems_at_def iter_inv_def reader_inv_def it_def bson_iter.simps bson_reader.simps by presburger
  with init show ?thesis by (rule that)
qed

lemma document_value:
  assumes at: "value_at buf it v" and v: "v = WDocument es \<or> v = WArray es"
  shows "bson_iter_value_document it = Ok (it_value_off it, length (enc_doc es))" "wf_doc es"
    "seg buf (it_value_off it) (it_value_off it + length (enc_doc es)) = enc_doc es"
    "it_value_off it + length (enc_doc es) \<le> length buf"
proof -
  let ?o = "it_value_off it"
  have ev: "enc_val v = enc_doc es" using v by (auto simp: enc_doc_def)
  show wf: "wf_doc es" using at v by (auto simp: value_at_def wf_doc_def)
  note p = value_prefix [OF at, of "nat_le 4 (length (enc_doc es))" "enc_elems es @ [BSON_EOO_BYTE]"]
  have sp: "enc_val v = nat_le 4 (length (enc_doc es)) @ enc_elems es @ [BSON_EOO_BYTE]"
    unfolding ev by (simp add: enc_doc_def frame_def add.commute)
  have q: "?o + length (enc_doc es) = rd_pos (it_reader it)" using at ev by (simp add: value_at_def)
  show "seg buf ?o (?o + length (enc_doc es)) = enc_doc es" using at ev unfolding q value_at_def by simp
  show "?o + length (enc_doc es) \<le> length buf" unfolding q using p(4,5) [OF sp] by simp
  have n: "i32_of (nat_le 4 (length (enc_doc es))) = int (length (enc_doc es))"
    using wf i32_of_nat_le_doc [of "enc_elems es"] by (simp add: wf_doc_def)
  have "bson_reader_read_i32 (iter_value_reader it) = Ok (int (length (enc_doc es)), (iter_value_reader it)\<lparr>rd_pos := ?o + 4\<rparr>)"
    using p(1,3-6) [OF sp] at n by (simp add: read_i32_eq value_at_def)
  moreover have "it_type it = BSON_TYPE_DOCUMENT \<or> it_type it = BSON_TYPE_ARRAY" using at v by (auto simp: value_at_def)
  moreover have "BSON_DOC_MIN_LEN \<le> length (enc_doc es)" by (simp add: BSON_DOC_MIN_LEN_def)
  ultimately show "bson_iter_value_document it = Ok (?o, length (enc_doc es))"
    unfolding bson_iter_value_document_def by (simp add: not_less del: length_enc_doc)
qed

section \<open>Building the object\<close>

lemma build_document_at:
  assumes "seg buf off (off + length (enc_doc es)) = enc_doc es" "wf_doc es"
    "off + length (enc_doc es) \<le> bound" "bound \<le> length buf" "depth + depth_elems es \<le> BSON_MAX_DEPTH"
    and items: "\<And>it d. elems_at buf it es \<Longrightarrow> build_items buf it depth d = obj_items d es"
    and elems: "\<And>it xs. elems_at buf it es \<Longrightarrow> build_elements buf it depth xs = obj_elems xs es"
  shows "build_document buf off bound depth = obj_val (WDocument es)" "build_array buf off bound depth = obj_val (WArray es)"
proof -
  obtain it where "bson_iter_init_nested buf off bound = Ok it" "elems_at buf it es"
    using nested_at [OF assms(1-4)] .
  then show "build_document buf off bound depth = obj_val (WDocument es)" "build_array buf off bound depth = obj_val (WArray es)"
    using assms(5) items elems by (simp_all add: build_document.simps build_array.simps)
qed

lemma build_value_scalar:
  assumes "value_at buf it v" "\<nexists>es. v = WDocument es \<or> v = WArray es"
  shows "build_value buf it depth = obj_val v"
proof -
  have "it_type it \<noteq> BSON_TYPE_DOCUMENT" "it_type it \<noteq> BSON_TYPE_ARRAY"
    using assms by (cases v; simp add: value_at_def bson_type_defs)+
  then show ?thesis using build_scalar_value [OF assms] by (simp add: build_value.simps)
qed

lemma build_at:
  "value_at buf it v \<Longrightarrow> depth + depth_val v \<le> BSON_MAX_DEPTH \<Longrightarrow> build_value buf it depth = obj_val v"
  "elems_at buf it es \<Longrightarrow> depth + depth_elems es \<le> BSON_MAX_DEPTH \<Longrightarrow>
     build_items buf it depth d = obj_items d es \<and> build_elements buf it depth xs = obj_elems xs es"
proof (induction v and es arbitrary: it depth and it depth d xs rule: enc_val_enc_elems.induct)
  case (3 es)
  note v = document_value [OF "3.prems"(1), of es]
  show ?case
    using build_document_at(1) [OF v(3,2) order_refl v(4), of "depth + 1"] 3 v(1)
    by (simp add: build_value.simps value_at_def bson_type_defs)
next
  case (4 es)
  note v = document_value [OF "4.prems"(1), of es]
  show ?case
    using build_document_at(2) [OF v(3,2) order_refl v(4), of "depth + 1"] 4 v(1)
    by (simp add: build_value.simps value_at_def bson_type_defs)
next
  case 12
  then obtain it' where "bson_iter_next it = Ok (False, it')" using next_at_end by blast
  then show ?case by (simp add: build_items.simps build_elements.simps)
next
  case (13 k v es)
  obtain it' where it': "bson_iter_next it = Ok (True, it')" "value_at buf it' v" "elems_at buf it' es"
    "decode_str buf (it_key_off it') (it_key_len it') = str_of k"
    using next_at_elem [OF "13.prems"(1)] .
  have "build_value buf it' depth = obj_val v" using "13.IH"(1) [OF it'(2)] "13.prems"(2) by simp
  moreover have "build_items buf it' depth d = obj_items d es" "build_elements buf it' depth xs = obj_elems xs es" for d xs
    using "13.IH"(2) [OF it'(3)] "13.prems"(2) by simp_all
  ultimately show ?case
    using it'(1,4) by (simp add: build_items.simps [of buf it] build_elements.simps [of buf it] bson_iter_key_def)
qed (use build_value_scalar in \<open>force simp only: wval.simps simp_thms\<close>)+

lemma decode_doc:
  assumes "wf_doc es" "depth_elems es \<le> BSON_MAX_DEPTH"
  shows "py_decode (enc_doc es) = obj_val (WDocument es)"
proof -
  let ?buf = "enc_doc es"
  have "bson_validate_document ?buf (length ?buf) = Ok ()"
    unfolding validate_document_iff [OF order_refl] using assms by (intro exI [of _ es]) simp
  moreover have "seg ?buf 0 (0 + length ?buf) = ?buf" by (simp add: seg_def del: length_enc_doc)
  ultimately show ?thesis
    using build_document_at(1) [of ?buf 0 es "length ?buf" 0] assms build_at(2) [of ?buf _ es 0]
    by (simp add: py_decode_def del: length_enc_doc)
qed

lemma decode_cases:
  obtains (doc) es where "wf_doc es" "depth_elems es \<le> BSON_MAX_DEPTH" "buf = enc_doc es" "py_decode buf = obj_val (WDocument es)"
  | (invalid) e where "\<nexists>es. wf_doc es \<and> depth_elems es \<le> BSON_MAX_DEPTH \<and> buf = enc_doc es"
      "bson_validate_document buf (length buf) = Err e" "py_decode buf = PyRaise (bson_error_to_python e)"
  using validate_exact [of "length buf" buf] decode_doc
  by (cases "bson_validate_document buf (length buf)") (auto simp: py_decode_def)

end
