(* ===== verification/Codec_Properties.thy ===== *)
theory Codec_Properties
  imports Codec_Encode Codec_Decode
begin

text \<open>
  The codec as a whole: encoding gives the document of an object, decoding the object of a
  document, and decoding inverts encoding up to the types that BSON does not tell apart.
\<close>

section \<open>Strings\<close>

lemma FromString_encode:
  "\<forall>c \<in> set cs. scalar c \<Longrightarrow> PyUnicode_FromStringAndSize (concat (map utf8_encode cs)) = Some cs"
proof (induction cs)
  case Nil
  then show ?case by (simp add: PyUnicode_FromStringAndSize.simps)
next
  case (Cons c cs)
  then show ?case by (subst PyUnicode_FromStringAndSize.simps) (simp add: utf8_take_encode)
qed

lemma FromString_valid: "utf8_valid bs \<Longrightarrow> \<exists>cs. PyUnicode_FromStringAndSize bs = Some cs"
  using FromString_encode by (auto simp: utf8_valid_def)

lemma str_of_AsUTF8: "PyUnicode_AsUTF8AndSize cs = Some bs \<Longrightarrow> str_of bs = PyOk (PyStr cs)"
  by (auto simp: PyUnicode_AsUTF8AndSize_def str_of_def FromString_encode split: if_splits)

lemma str_of_key: "key_bytes k = Some kb \<Longrightarrow> str_of kb = PyOk k"
  by (auto simp: key_bytes_eq encode_key_def str_of_AsUTF8 split: pyval.splits option.splits if_splits)

lemma obj_string_AsUTF8: "PyUnicode_AsUTF8AndSize cs = Some bs \<Longrightarrow> obj_string (bs @ [0]) = PyOk (PyStr cs)"
  by (simp add: obj_string_def str_of_AsUTF8 utf8_valid_AsUTF8)

section \<open>What a round trip keeps\<close>

text \<open>
  A tuple comes back as a list and a \<^verbatim>\<open>bytearray\<close> as \<^verbatim>\<open>bytes\<close>; a datetime loses its microseconds
  below the millisecond.
\<close>

function norm_val :: "pyval \<Rightarrow> pyval"
  and norm_items :: "(pyval \<times> pyval) list \<Rightarrow> (pyval \<times> pyval) list"
  and norm_list :: "pyval list \<Rightarrow> pyval list" where
  "norm_val v = (case v of
     PyByteArray bs \<Rightarrow> PyBytes bs
   | PyDatetime d \<Rightarrow> PyDatetime (d\<lparr>dt_microsecond := dt_microsecond d div 1000 * 1000, dt_offset := Naive\<rparr>)
   | PyDict items \<Rightarrow> PyDict (norm_items items)
   | PyList xs \<Rightarrow> PyList (norm_list xs)
   | PyTuple xs \<Rightarrow> PyList (norm_list xs)
   | _ \<Rightarrow> v)"
| "norm_items [] = []"
| "norm_items ((k, v) # items) = (k, norm_val v) # norm_items items"
| "norm_list [] = []"
| "norm_list (v # xs) = norm_val v # norm_list xs"
  by pat_completeness auto
termination
  by (relation "measure (\<lambda>x. case x of
        Inl v \<Rightarrow> 2 * size v
      | Inr (Inl items) \<Rightarrow> 2 * size_list (size_prod size size) items
      | Inr (Inr xs) \<Rightarrow> 2 * size_list size xs)") auto

declare norm_val.simps [simp del]

text \<open>The keys of a \<^verbatim>\<open>dict\<close> are distinct; the datetimes are naive, or give no UTC offset.\<close>

function plain_val :: "pyval \<Rightarrow> bool"
  and plain_items :: "(pyval \<times> pyval) list \<Rightarrow> bool"
  and plain_list :: "pyval list \<Rightarrow> bool" where
  "plain_val v \<longleftrightarrow> (case v of
     PyDict items \<Rightarrow> distinct (map fst items) \<and> plain_items items
   | PyList xs \<Rightarrow> plain_list xs
   | PyTuple xs \<Rightarrow> plain_list xs
   | PyDatetime d \<Rightarrow> dt_offset d \<in> {Naive, NoOffset}
   | _ \<Rightarrow> True)"
| "plain_items [] \<longleftrightarrow> True"
| "plain_items ((k, v) # items) \<longleftrightarrow> plain_val v \<and> plain_items items"
| "plain_list [] \<longleftrightarrow> True"
| "plain_list (v # xs) \<longleftrightarrow> plain_val v \<and> plain_list xs"
  by pat_completeness auto
termination
  by (relation "measure (\<lambda>x. case x of
        Inl v \<Rightarrow> 2 * size v
      | Inr (Inl items) \<Rightarrow> 2 * size_list (size_prod size size) items
      | Inr (Inr xs) \<Rightarrow> 2 * size_list size xs)") auto

declare plain_val.simps [simp del]

lemma norm_val_simps [simp]:
  "norm_val (PyDict items) = PyDict (norm_items items)" "norm_val (PyList xs) = PyList (norm_list xs)"
  "norm_val (PyTuple xs) = PyList (norm_list xs)"
  by (simp_all add: norm_val.simps)

lemma plain_val_simps [simp]:
  "plain_val (PyDict items) \<longleftrightarrow> distinct (map fst items) \<and> plain_items items"
  "plain_val (PyList xs) \<longleftrightarrow> plain_list xs" "plain_val (PyTuple xs) \<longleftrightarrow> plain_list xs"
  "plain_val (PyDatetime d) \<longleftrightarrow> dt_offset d \<in> {Naive, NoOffset}"
  by (simp_all add: plain_val.simps)

lemma sint_of_i32: "- (2 ^ 31) \<le> i \<Longrightarrow> i < 2 ^ 31 \<Longrightarrow> sint (word_of_int i :: u32) = i"
  by (simp add: signed_of_int signed_take_bit_int_eq_self)

lemma sint_of_i64: "- (2 ^ 63) \<le> i \<Longrightarrow> i < 2 ^ 63 \<Longrightarrow> sint (word_of_int i :: u64) = i"
  by (simp add: signed_of_int signed_take_bit_int_eq_self)

lemma datetime_back:
  assumes "datetime_wf d" "dt_offset d \<in> {Naive, NoOffset}" "fst (datetime_to_epoch_ms d) = Ok ms"
  shows "datetime_from_epoch_ms (sint (word_of_int ms :: u64)) =
    Ok (d\<lparr>dt_microsecond := dt_microsecond d div 1000 * 1000, dt_offset := Naive\<rparr>)"
proof -
  have v: "valid_datetime d" using assms(1) by (simp add: datetime_wf_def)
  have ms: "ms = naive_ms d" using ms_of_datetime(1) [OF v] assms(2,3) by auto
  have "sint (word_of_int ms :: u64) = ms"
    using naive_ms_range [OF v] unfolding ms by (intro sint_of_i64) (simp_all add: in_datetime_range_def)
  then show ?thesis using ms_of_datetime(2) [OF v] ms by simp
qed

lemma obj_scalar:
  assumes "wire_scalar v = Some x" "py_wf v" "plain_val v"
  shows "obj_val x = PyOk (norm_val v)"
proof (cases v)
  case (PyStr cs)
  then show ?thesis
    using assms obj_string_AsUTF8 by (auto simp: wire_scalar_def norm_val.simps split: option.splits if_splits)
next
  case (PyInt i)
  then show ?thesis
    using assms sint_of_i32 [of i] sint_of_i64 [of i] by (auto simp: wire_scalar_def norm_val.simps split: if_splits)
next
  case (PyDatetime d)
  then obtain ms where "fst (datetime_to_epoch_ms d) = Ok ms" "x = WDatetime (word_of_int ms)"
    using assms(1) by (auto simp: wire_scalar_def split: result.splits)
  then show ?thesis using datetime_back [of d ms] assms(2,3) PyDatetime by (simp add: norm_val.simps)
next
  case (PyObjectId b)
  then show ?thesis
    using assms(1) by (auto simp: wire_scalar_def norm_val.simps split: option.splits pyval.splits if_splits)
qed (use assms(1) in \<open>auto simp: wire_scalar_def norm_val.simps split: if_splits\<close>)

lemma SetItem_new: "k \<notin> set (map fst d) \<Longrightarrow> PyDict_SetItem d k v = d @ [(k, v)]"
  by (induction d k v rule: PyDict_SetItem.induct) auto

lemma obj_wire:
  "wire_val v = Some x \<Longrightarrow> py_wf v \<Longrightarrow> plain_val v \<Longrightarrow> obj_val x = PyOk (norm_val v)"
  "wire_items items = Some es \<Longrightarrow> wf_items items \<Longrightarrow> plain_items items \<Longrightarrow> distinct (map fst items) \<Longrightarrow>
     set (map fst d) \<inter> set (map fst items) = {} \<Longrightarrow> obj_items d es = PyOk (d @ norm_items items)"
  "wire_elems i xs = Some es \<Longrightarrow> wf_list xs \<Longrightarrow> plain_list xs \<Longrightarrow> obj_elems ys es = PyOk (ys @ norm_list xs)"
proof (induction v and items and i xs arbitrary: x and es d and es ys rule: wire_val_wire_items_wire_elems.induct)
  case (1 v)
  show ?case
  proof (cases v rule: pyval_cases)
    case (dict items)
    then obtain es where es: "wire_items items = Some es" "x = WDocument es" using "1.prems"(1) by auto
    then show ?thesis using "1.IH"(1) [OF dict es(1), of "[]"] "1.prems" dict by simp
  next
    case (list xs)
    then obtain es where es: "wire_elems 0 xs = Some es" "x = WArray es" using "1.prems"(1) by auto
    then show ?thesis using "1.IH"(2) [OF list es(1), of "[]"] "1.prems" list by simp
  next
    case (tuple xs)
    then obtain es where es: "wire_elems 0 xs = Some es" "x = WArray es" using "1.prems"(1) by auto
    then show ?thesis using "1.IH"(3) [OF tuple es(1), of "[]"] "1.prems" tuple by simp
  next
    case scalar
    then show ?thesis using obj_scalar "1.prems" by simp
  qed
next
  case (3 k v items)
  obtain kb x es' where e: "key_bytes k = Some kb" "wire_val v = Some x" "wire_items items = Some es'" "es = (kb, x) # es'"
    using "3.prems"(1) by (auto simp: bind_eq_Some_conv)
  have "obj_val x = PyOk (norm_val v)" using "3.IH"(1) [OF e(1,2)] "3.prems" by simp
  moreover have "obj_items (d @ [(k, norm_val v)]) es' = PyOk ((d @ [(k, norm_val v)]) @ norm_items items)"
    using "3.prems" by (intro "3.IH"(2) [OF e(1-3)]) auto
  moreover have "PyDict_SetItem d k (norm_val v) = d @ [(k, norm_val v)]" using "3.prems"(5) by (intro SetItem_new) auto
  ultimately show ?case using e(4) str_of_key [OF e(1)] by simp
next
  case (5 i v xs)
  obtain x es' where e: "wire_val v = Some x" "wire_elems (i + 1) xs = Some es'" "es = (decimal_key i, x) # es'"
    using "5.prems"(1) by (auto simp: bind_eq_Some_conv)
  have "obj_val x = PyOk (norm_val v)" using "5.IH"(1) [OF e(1)] "5.prems" by simp
  moreover have "obj_elems (ys @ [norm_val v]) es' = PyOk ((ys @ [norm_val v]) @ norm_list xs)"
    using "5.prems" by (intro "5.IH"(2) [OF e(1,2)]) simp_all
  ultimately show ?case using e(3) by simp
qed simp_all

lemma encoded_wf:
  assumes "wire_items items = Some es" "length (enc_doc es) \<le> BSON_MAX_DOCUMENT_SIZE"
  shows "wf_doc es"
  using wire_wf(2) [OF assms(1)] assms(2) by (simp add: wf_doc_def)

lemma encoded_dict:
  assumes "wf_items items" "py_encode alloc (PyDict items) = PyOk bs"
  obtains es where "bs = enc_doc es" "wire_items items = Some es" "wf_doc es" "depth_elems es \<le> BSON_MAX_DEPTH"
proof (rule py_encode_cases [OF assms(1), of alloc])
  fix es
  assume "py_encode alloc (PyDict items) = PyOk (enc_doc es)" "wire_items items = Some es"
    "depth_elems es \<le> BSON_MAX_DEPTH" "length (enc_doc es) \<le> BSON_MAX_DOCUMENT_SIZE"
  then show ?thesis using that [of es] encoded_wf assms(2) by simp
qed (use assms(2) in simp)

section \<open>Decoding comes back\<close>

text \<open>
  The 64-bit counts of milliseconds before the first whole day that they can express.
\<close>

definition first_day :: "u64 \<Rightarrow> bool" where
  "first_day w \<longleftrightarrow> sint w div 86400000 * 86400000 < - (2 ^ 63)"

fun late_val :: "wval \<Rightarrow> bool" and late_elems :: "welems \<Rightarrow> bool" where
  "late_val (WDocument es) \<longleftrightarrow> late_elems es"
| "late_val (WArray es) \<longleftrightarrow> late_elems es"
| "late_val (WDatetime w) \<longleftrightarrow> \<not> first_day w"
| "late_val _ \<longleftrightarrow> True"
| "late_elems [] \<longleftrightarrow> True"
| "late_elems ((k, v) # es) \<longleftrightarrow> late_val v \<and> late_elems es"

text \<open>The call returns: an object or an exception of the codec; or faults, where \<open>early\<close> allows it.\<close>

definition returns :: "bool \<Rightarrow> 'a py \<Rightarrow> bool" where
  "returns early m \<longleftrightarrow> (case m of
     PyOk _ \<Rightarrow> True | PyRaise e \<Rightarrow> e \<in> {InvalidBSON, OverflowError} | PyFault \<Rightarrow> early | PyDiverge \<Rightarrow> False)"

lemma returns_simps [simp]: "returns early (PyOk x)" "returns early (PyRaise e) \<longleftrightarrow> e \<in> {InvalidBSON, OverflowError}"
  "returns early PyFault \<longleftrightarrow> early" "\<not> returns early PyDiverge"
  by (simp_all add: returns_def)

lemma returns_bind: "returns early m \<Longrightarrow> (\<And>x. returns early (f x)) \<Longrightarrow> returns early (py_bind m f)"
  by (cases m) simp_all

lemma returns_str: "utf8_valid bs \<Longrightarrow> returns early (str_of bs)"
  using FromString_valid [of bs] by (auto simp: str_of_def)

lemma returns_datetime: "early \<or> \<not> first_day w \<Longrightarrow> returns early (obj_val (WDatetime w))"
  using datetime_of_ms [of "sint w"] sint_range64 [of w]
  by (cases "datetime_from_epoch_ms (sint w)") (auto simp: first_day_def)

lemma returns_obj:
  "wf_val v \<Longrightarrow> early \<or> late_val v \<Longrightarrow> returns early (obj_val v)"
  "wf_elems es \<Longrightarrow> early \<or> late_elems es \<Longrightarrow> returns early (obj_items d es) \<and> returns early (obj_elems xs es)"
proof (induction v and es arbitrary: and d xs rule: enc_val_enc_elems.induct)
  case (2 s)
  show ?case by (simp add: obj_string_def returns_str)
next
  case (8 w)
  then show ?case using returns_datetime by (simp del: obj_val.simps)
next
  case (13 k v es)
  then show ?case by (auto intro!: returns_bind returns_str)
qed (auto intro!: returns_bind)

section \<open>Properties\<close>

text \<open>The object \<^verbatim>\<open>{"a": (True, None), "b": bytearray(b"\x07")}\<close> and its document.\<close>

definition sample_items :: "(pyval \<times> pyval) list" where
  "sample_items = [(PyStr [0x61], PyTuple [PyBool True, PyNone]), (PyStr [0x62], PyByteArray [7])]"

definition sample_wire :: welems where
  "sample_wire = [([0x61], WArray [([0x30], WBool 1), ([0x31], WNull)]), ([0x62], WBinary BSON_SUBTYPE_GENERIC [7])]"

lemma sample_keys: "key_bytes (PyStr [0x61]) = Some [0x61]" "key_bytes (PyStr [0x62]) = Some [0x62]"
  by (simp_all add: key_bytes_def encode_key_def PyUnicode_AsUTF8AndSize_def scalar_def utf8_encode_def)

lemma sample_ok: "wf_items sample_items" "plain_items sample_items" "distinct (map fst sample_items)"
  "wire_items sample_items = Some sample_wire"
  by (simp_all add: sample_items_def sample_wire_def sample_keys py_wf.simps plain_val.simps wire_val.simps wire_scalar_def
      INT32_MAX_def decimal_key.simps)

lemma sample_encode: "py_encode (\<lambda>_. True) (PyDict sample_items) = PyOk (enc_doc sample_wire)"
proof (rule py_encode_cases [OF sample_ok(1), of "\<lambda>_. True"])
  fix e
  assume "(\<exists>c. \<not> True) \<or> (\<nexists>es. wire_items sample_items = Some es \<and> depth_elems es \<le> BSON_MAX_DEPTH \<and>
      length (enc_doc es) \<le> BSON_MAX_DOCUMENT_SIZE)"
  moreover have "depth_elems sample_wire \<le> BSON_MAX_DEPTH" "length (enc_doc sample_wire) \<le> BSON_MAX_DOCUMENT_SIZE"
    by (simp_all add: sample_wire_def BSON_MAX_DEPTH_def BSON_MAX_DOCUMENT_SIZE_def)
  ultimately show ?thesis using sample_ok(4) by simp
qed (simp add: sample_ok(4))

text \<open>
  C10. Encoding, in full: on an object with a document of the wire format within the limits of depth
  and size it returns the bytes of that document, or runs out of memory; on any other it raises.
  It never reads or writes outside of its buffers and never overflows.
\<close>

theorem encode_exact:
  assumes "wf_items items"
  shows "case py_encode alloc (PyDict items) of
      PyOk bs \<Rightarrow> \<exists>es. wire_items items = Some es \<and> depth_elems es \<le> BSON_MAX_DEPTH \<and> wf_doc es \<and> bs = enc_doc es
    | PyRaise e \<Rightarrow> (\<exists>c. \<not> alloc c) \<or>
        (\<nexists>es. wire_items items = Some es \<and> depth_elems es \<le> BSON_MAX_DEPTH \<and> wf_doc es)
    | PyFault \<Rightarrow> False
    | PyDiverge \<Rightarrow> False"
proof (rule py_encode_cases [OF assms, of alloc])
  fix es
  assume "py_encode alloc (PyDict items) = PyOk (enc_doc es)" "wire_items items = Some es"
    "depth_elems es \<le> BSON_MAX_DEPTH" "length (enc_doc es) \<le> BSON_MAX_DOCUMENT_SIZE"
  then show ?thesis using encoded_wf by simp
qed (auto simp: wf_doc_def)

theorem encode_exact_witness:
  "case py_encode (\<lambda>_. True) (PyDict sample_items) of
      PyOk bs \<Rightarrow> \<exists>es. wire_items sample_items = Some es \<and> depth_elems es \<le> BSON_MAX_DEPTH \<and> wf_doc es \<and> bs = enc_doc es
    | PyRaise e \<Rightarrow> (\<exists>c :: nat. \<not> True) \<or>
        (\<nexists>es. wire_items sample_items = Some es \<and> depth_elems es \<le> BSON_MAX_DEPTH \<and> wf_doc es)
    | PyFault \<Rightarrow> False
    | PyDiverge \<Rightarrow> False"
  by (rule encode_exact) (rule sample_ok(1))

text \<open>
  C11. Decoding, in full: a buffer that the validator accepts is the encoding of a document, and the
  result is the object of that document; on any other buffer the error of the validator is raised.
\<close>

theorem decode_exact:
  "case bson_validate_document buf (length buf) of
      Ok _ \<Rightarrow> \<exists>es. wf_doc es \<and> depth_elems es \<le> BSON_MAX_DEPTH \<and> buf = enc_doc es \<and> py_decode buf = obj_val (WDocument es)
    | Err e \<Rightarrow> (\<nexists>es. wf_doc es \<and> depth_elems es \<le> BSON_MAX_DEPTH \<and> buf = enc_doc es) \<and>
        py_decode buf = PyRaise (bson_error_to_python e)
    | Fault \<Rightarrow> False
    | Diverge \<Rightarrow> False"
proof (cases buf rule: decode_cases)
  case (doc es)
  then have "bson_validate_document buf (length buf) = Ok ()"
    unfolding validate_document_iff [OF order_refl] by (intro exI [of _ es]) simp
  then show ?thesis using doc by (simp del: obj_val.simps) blast
next
  case (invalid e)
  then show ?thesis by simp
qed

text \<open>
  C4. Decoding inverts encoding: when an object with distinct keys and naive datetimes encodes, its
  bytes decode to the same object, with tuples as lists, bytearrays as bytes and the microseconds of
  datetimes cut to milliseconds.
\<close>

theorem codec_round_trip:
  assumes "wf_items items" "plain_items items" "distinct (map fst items)" "py_encode alloc (PyDict items) = PyOk bs"
  shows "bson_validate_document bs (length bs) = Ok () \<and> py_decode bs = PyOk (PyDict (norm_items items))"
proof -
  obtain es where es: "bs = enc_doc es" "wire_items items = Some es" "wf_doc es" "depth_elems es \<le> BSON_MAX_DEPTH"
    by (rule encoded_dict [OF assms(1,4)])
  have "bson_validate_document bs (length bs) = Ok ()"
    unfolding validate_document_iff [OF order_refl] using es by (intro exI [of _ es]) simp
  moreover have "obj_items [] es = PyOk (norm_items items)" using obj_wire(2) [OF es(2) assms(1-3), of "[]"] by simp
  ultimately show ?thesis using decode_doc [OF es(3,4)] es(1) by simp
qed

theorem codec_round_trip_witness:
  "bson_validate_document (enc_doc sample_wire) (length (enc_doc sample_wire)) = Ok () \<and>
   py_decode (enc_doc sample_wire) = PyOk (PyDict (norm_items sample_items))"
  by (rule codec_round_trip [OF sample_ok(1-3) sample_encode])

text \<open>
  C30. Decoding comes back on every buffer: with an object, or with an exception that is never one of
  Python's own decoder, since all strings are checked first. Only the overflow of a datetime within
  the first day of the 64-bit range is left, and a document without one never meets it.
\<close>

theorem decode_returns:
  "case py_decode buf of
      PyOk x \<Rightarrow> \<exists>d. x = PyDict d
    | PyRaise e \<Rightarrow> e \<notin> {UnicodeError, TypeError, ValueError}
    | PyFault \<Rightarrow> \<exists>es. wf_doc es \<and> buf = enc_doc es \<and> \<not> late_elems es
    | PyDiverge \<Rightarrow> False"
proof (cases buf rule: decode_cases)
  case (doc es)
  have "returns (\<not> late_elems es) (obj_items [] es)"
    using returns_obj(2) [of es "\<not> late_elems es"] doc(1) by (simp add: wf_doc_def)
  then show ?thesis using doc by (cases "obj_items [] es") auto
next
  case (invalid e)
  have "bson_error_to_python e \<notin> {UnicodeError, TypeError, ValueError}" by (cases e) simp_all
  then show ?thesis using invalid(3) by simp
qed

text \<open>The document \<^verbatim>\<open>{"t": <the least datetime>}\<close>.\<close>

definition least_datetime_doc :: "byte list" where
  "least_datetime_doc = [16, 0, 0, 0, 0x09, 0x74, 0, 0, 0, 0, 0, 0, 0, 0, 0x80, 0]"

text \<open>
  A datetime of the least 64-bit count is a valid document, and decoding it multiplies out of the
  64-bit range, which C leaves undefined, before the year is checked.
\<close>

theorem decode_least_datetime:
  "bson_validate_document least_datetime_doc 16 = Ok () \<and> py_decode least_datetime_doc = PyFault"
proof -
  define es :: welems where "es = [([0x74], WDatetime 0x8000000000000000)]"
  have u: "utf8_valid [0x74]"
    unfolding utf8_valid_def by (rule exI [of _ "[0x74]"]) (simp add: scalar_def utf8_encode_def)
  have eight: "nat_le 8 (0x8000000000000000) = [0, 0, 0, 0, 0, 0, 0, 0x80]"
  proof -
    have "nat_le (Suc (Suc (Suc (Suc (Suc (Suc (Suc (Suc 0)))))))) 0x8000000000000000 = [0, 0, 0, 0, 0, 0, 0, 0x80]"
      by simp
    moreover have "Suc (Suc (Suc (Suc (Suc (Suc (Suc (Suc 0))))))) = 8" by simp
    ultimately show ?thesis by (rule subst [rotated])
  qed
  have eq: "least_datetime_doc = enc_doc es"
    unfolding es_def enc_doc_def frame_def least_datetime_doc_def
    by (simp add: BSON_TYPE_DATETIME_def BSON_EOO_BYTE_def nat_le_4 eight)
  have wf: "wf_doc es" "depth_elems es \<le> BSON_MAX_DEPTH"
    using u by (simp_all add: es_def wf_doc_def BSON_MAX_DOCUMENT_SIZE_def nul_free_def)
  have "datetime_from_epoch_ms (- (2 ^ 63)) = Fault"
    by (simp add: datetime_from_epoch_ms_def floordiv_div s64_def)
  then have "obj_val (WDocument es) = PyFault"
    using str_of_AsUTF8 [of "[0x74]" "[0x74]"]
    by (simp add: es_def PyUnicode_AsUTF8AndSize_def scalar_def utf8_encode_def)
  then have "py_decode least_datetime_doc = PyFault" using decode_doc [OF wf] by (simp add: eq)
  moreover have "length least_datetime_doc = 16" by (simp add: least_datetime_doc_def)
  then have "bson_validate_document least_datetime_doc 16 = Ok ()"
    using validate_document_iff [of 16 least_datetime_doc] wf eq by auto
  ultimately show ?thesis by simp
qed

text \<open>
  An item whose key has no bytes makes the encoder raise, whatever its value: \<^verbatim>\<open>InvalidDocument\<close> for
  a key that is no string or contains NUL, but the codec error of Python for a lone surrogate.
\<close>

theorem encode_bad_key:
  assumes "\<forall>c. alloc c" "key_bytes k = None"
  shows "py_encode alloc (PyDict ((k, v) # items)) = PyRaise (case k of
      PyStr cs \<Rightarrow> if PyUnicode_AsUTF8AndSize cs = None then UnicodeError else InvalidDocument
    | _ \<Rightarrow> InvalidDocument)"
proof -
  obtain w0 where w0: "bson_writer_init alloc (size_add 256 (size_mul (length ((k, v) # items)) 32)) = Ok w0"
    using assms(1) by (simp add: bson_writer_init_def Let_def)
  then have "writer_inv w0" "wr_data w0 = []" using writer_init_inv by auto
  then obtain w1 where w1: "writer_put_i32 alloc w0 0 = Ok w1"
    using writes_succeeds [OF writes_i32 _ assms(1), of w0 0] by (auto simp: BSON_MAX_DOCUMENT_SIZE_def)
  have key: "encode_key k = (case k of
      PyStr cs \<Rightarrow> if PyUnicode_AsUTF8AndSize cs = None then capi_raised BSON_ERR_INVALID_KEY UnicodeError
        else capi_fail BSON_ERR_INVALID_KEY
    | _ \<Rightarrow> capi_fail BSON_ERR_INVALID_KEY)"
    using assms(2) by (auto simp: key_bytes_def encode_key_def split: pyval.splits option.splits if_splits)
  show ?thesis
    using w0 w1
    by (simp add: py_encode_def encode_document_body.simps bson_writer_begin_document_def key capi_bind_def capi_ok_def
        capi_raised_def capi_fail_def split: pyval.splits)
qed

theorem encode_bad_key_witness:
  "py_encode (\<lambda>_. True) (PyDict ((PyStr [0xD800], PyNone) # [])) = PyRaise (case PyStr [0xD800] of
      PyStr cs \<Rightarrow> if PyUnicode_AsUTF8AndSize cs = None then UnicodeError else InvalidDocument
    | _ \<Rightarrow> InvalidDocument)"
  by (rule encode_bad_key) (simp_all add: key_bytes_def encode_key_def PyUnicode_AsUTF8AndSize_def scalar_def capi_raised_def)

end
