(* ===== verification/Codec_Canonical.thy ===== *)
theory Codec_Canonical
  imports Codec_Properties
begin

text \<open>
  The objects that decoding builds: their types and ranges, and that encoding them and decoding the
  bytes changes nothing more.
\<close>

section \<open>Canonical objects\<close>

text \<open>
  Strings and keys that have UTF-8, integers of 64 bits, naive datetimes in whole milliseconds, no
  tuples and no bytearrays; the keys of a dict are distinct.
\<close>

definition canon_scalar :: "pyval \<Rightarrow> bool" where
  "canon_scalar v \<longleftrightarrow> (case v of
     PyNone \<Rightarrow> True
   | PyBool _ \<Rightarrow> True
   | PyInt i \<Rightarrow> - (2 ^ 63) \<le> i \<and> i < 2 ^ 63
   | PyFloat _ \<Rightarrow> True
   | PyStr cs \<Rightarrow> (\<forall>c \<in> set cs. scalar c) \<and> length (concat (map utf8_encode cs)) \<le> INT32_MAX - 1
   | PyBytes bs \<Rightarrow> length bs \<le> INT32_MAX
   | PyObjectId (Some (PyBytes bs)) \<Rightarrow> length bs = 12
   | PyDatetime d \<Rightarrow> valid_datetime d \<and> dt_offset d = Naive \<and> dt_microsecond d mod 1000 = 0
   | _ \<Rightarrow> False)"

definition canon_key :: "pyval \<Rightarrow> bool" where
  "canon_key k \<longleftrightarrow> (case key_bytes k of Some kb \<Rightarrow> length kb < 2 ^ 60 | None \<Rightarrow> False)"

text \<open>\<open>n\<close> bounds the nesting.\<close>

function canon_val :: "nat \<Rightarrow> pyval \<Rightarrow> bool"
  and canon_items :: "nat \<Rightarrow> (pyval \<times> pyval) list \<Rightarrow> bool"
  and canon_list :: "nat \<Rightarrow> pyval list \<Rightarrow> bool" where
  "canon_val n v \<longleftrightarrow> (case v of
     PyDict items \<Rightarrow> 0 < n \<and> distinct (map fst items) \<and> canon_items (n - 1) items
   | PyList xs \<Rightarrow> 0 < n \<and> length xs < 2 ^ 60 \<and> canon_list (n - 1) xs
   | _ \<Rightarrow> canon_scalar v)"
| "canon_items n [] \<longleftrightarrow> True"
| "canon_items n ((k, v) # items) \<longleftrightarrow> canon_key k \<and> canon_val n v \<and> canon_items n items"
| "canon_list n [] \<longleftrightarrow> True"
| "canon_list n (v # xs) \<longleftrightarrow> canon_val n v \<and> canon_list n xs"
  by pat_completeness auto
termination
  by (relation "measure (\<lambda>x. case x of
        Inl (_, v) \<Rightarrow> 2 * size v
      | Inr (Inl (_, items)) \<Rightarrow> 2 * size_list (size_prod size size) items
      | Inr (Inr (_, xs)) \<Rightarrow> 2 * size_list size xs)") auto

declare canon_val.simps [simp del]

lemma canon_val_simps [simp]:
  "canon_val n (PyDict items) \<longleftrightarrow> 0 < n \<and> distinct (map fst items) \<and> canon_items (n - 1) items"
  "canon_val n (PyList xs) \<longleftrightarrow> 0 < n \<and> length xs < 2 ^ 60 \<and> canon_list (n - 1) xs"
  "\<not> canon_val n (PyTuple xs)"
  by (simp_all add: canon_val.simps canon_scalar_def)

lemma canon_val_scalar: "(\<nexists>items. v = PyDict items) \<Longrightarrow> (\<nexists>xs. v = PyList xs) \<Longrightarrow> canon_val n v = canon_scalar v"
  by (cases v) (simp_all add: canon_val.simps)

lemma canon_items_iff: "canon_items n items \<longleftrightarrow> (\<forall>(k, v) \<in> set items. canon_key k \<and> canon_val n v)"
  by (induction items) auto

lemma canon_list_iff: "canon_list n xs \<longleftrightarrow> (\<forall>v \<in> set xs. canon_val n v)"
  by (induction xs) auto

section \<open>Decoding builds canonical objects\<close>

lemma FromString_Some:
  "PyUnicode_FromStringAndSize bs = Some cs \<Longrightarrow> (\<forall>c \<in> set cs. scalar c) \<and> concat (map utf8_encode cs) = bs"
proof (induction bs arbitrary: cs rule: PyUnicode_FromStringAndSize.induct)
  case (1 bs)
  show ?case
  proof (cases "bs = []")
    case True
    then show ?thesis using "1.prems" by (simp add: PyUnicode_FromStringAndSize.simps)
  next
    case False
    then obtain c rest cs' where c: "utf8_take bs = Some (c, rest)" "PyUnicode_FromStringAndSize rest = Some cs'" "cs = c # cs'"
      using "1.prems" by (subst (asm) PyUnicode_FromStringAndSize.simps) (auto split: option.splits)
    then show ?thesis using "1.IH" [OF False c(1) refl c(2)] utf8_take_Some [OF c(1)] by simp
  qed
qed

lemma canon_str:
  assumes "str_of bs = PyOk x" "length bs \<le> INT32_MAX - 1"
  shows "canon_val n x"
  using assms FromString_Some [of bs] by (auto simp: str_of_def canon_val_scalar canon_scalar_def split: option.splits)

lemma canon_of_key:
  assumes "str_of k = PyOk x" "nul_free k" "length k < 2 ^ 60"
  shows "canon_key x"
proof -
  obtain cs where cs: "x = PyStr cs" "PyUnicode_FromStringAndSize k = Some cs"
    using assms(1) by (auto simp: str_of_def split: option.splits)
  have "encode_key x = capi_ok (Ok k)"
    using FromString_Some [OF cs(2)] assms(2) by (simp add: cs(1) encode_key_def PyUnicode_AsUTF8AndSize_def nul_free_def)
  then show ?thesis using assms(3) by (simp add: canon_key_def key_bytes_def)
qed

lemma canon_datetime:
  assumes "datetime_from_epoch_ms (sint (w :: u64)) = Ok d"
  shows "canon_scalar (PyDatetime d)"
proof -
  have d: "valid_datetime d" "dt_offset d = Naive" "datetime_to_epoch_ms d = (Ok (sint w), None)"
    using datetime_of_ms [of "sint w"] sint_range64 [of w] assms by auto
  have "sint w = naive_ms d" using ms_of_datetime(1) [OF d(1)] d(2,3) by simp
  then have "d = d\<lparr>dt_microsecond := dt_microsecond d div 1000 * 1000, dt_offset := Naive\<rparr>"
    using ms_of_datetime(2) [OF d(1)] assms by simp
  then have "dt_microsecond d = dt_microsecond d div 1000 * 1000" by (metis py_datetime.select_convs(7) py_datetime.surjective
        py_datetime.update_convs(7) py_datetime.update_convs(8))
  then have "dt_microsecond d mod 1000 = 0" by (metis mod_mult_self2_is_0)
  then show ?thesis using d by (simp add: canon_scalar_def)
qed

lemma keys_SetItem: "set (map fst (PyDict_SetItem d k v)) = insert k (set (map fst d))"
  by (induction d k v rule: PyDict_SetItem.induct) auto

lemma distinct_SetItem: "distinct (map fst d) \<Longrightarrow> distinct (map fst (PyDict_SetItem d k v))"
  by (induction d k v rule: PyDict_SetItem.induct) (use keys_SetItem in auto)

lemma canon_SetItem: "canon_items n d \<Longrightarrow> canon_key k \<Longrightarrow> canon_val n v \<Longrightarrow> canon_items n (PyDict_SetItem d k v)"
  by (induction d k v rule: PyDict_SetItem.induct) auto

lemma length_elems: "length es \<le> length (enc_elems es)"
  by (induction es) auto

lemma canon_obj:
  "obj_val v = PyOk x \<Longrightarrow> wf_val v \<Longrightarrow> length (enc_val v) \<le> BSON_MAX_DOCUMENT_SIZE \<Longrightarrow> depth_val v \<le> n \<Longrightarrow> canon_val n x"
  "wf_elems es \<Longrightarrow> length (enc_elems es) \<le> BSON_MAX_DOCUMENT_SIZE \<Longrightarrow> depth_elems es \<le> n \<Longrightarrow>
     (obj_items d es = PyOk d' \<longrightarrow> canon_items n d \<longrightarrow> distinct (map fst d) \<longrightarrow> canon_items n d' \<and> distinct (map fst d')) \<and>
     (obj_elems xs es = PyOk xs' \<longrightarrow> canon_list n xs \<longrightarrow> canon_list n xs' \<and> length xs' = length xs + length es)"
proof (induction v and es arbitrary: x n and d d' xs xs' n rule: enc_val_enc_elems.induct)
  case (2 s)
  then have "length s \<le> INT32_MAX" by (simp add: INT32_MAX_def)
  then have "length (butlast s) \<le> INT32_MAX - 1" by (simp add: diff_le_mono)
  then show ?case using "2.prems"(1) canon_str [of "butlast s"] by (auto simp: obj_string_def split: if_splits)
next
  case (3 es)
  then obtain d' where "obj_items [] es = PyOk d'" "x = PyDict d'" by (auto simp: py_bind_PyOk)
  then show ?case using "3.IH" [of "n - 1" "[]" d'] "3.prems" by (cases n) auto
next
  case (4 es)
  then obtain xs' where "obj_elems [] es = PyOk xs'" "x = PyList xs'" by (auto simp: py_bind_PyOk)
  moreover have "length es < 2 ^ 60" using length_elems [of es] "4.prems"(3) by (simp add: BSON_MAX_DOCUMENT_SIZE_def)
  ultimately show ?case using "4.IH" [of "n - 1" _ _ "[]" xs'] "4.prems" by (cases n) auto
next
  case (8 w)
  then show ?case using canon_datetime [of w]
    by (auto simp: canon_val_scalar split: result.splits elim!: bson_to_py.elims)
next
  case (10 w)
  then show ?case using sint_range [of w] by (auto simp: canon_val_scalar canon_scalar_def)
next
  case (13 k v es)
  have l: "length (enc_val v) \<le> BSON_MAX_DOCUMENT_SIZE" "length (enc_elems es) \<le> BSON_MAX_DOCUMENT_SIZE"
    "length k < 2 ^ 60" using "13.prems"(2) by (simp_all add: BSON_MAX_DOCUMENT_SIZE_def)
  have wf: "nul_free k" "wf_val v" "wf_elems es" "depth_val v \<le> n" "depth_elems es \<le> n" using "13.prems" by simp_all
  note v = "13.IH"(1) [OF _ wf(2) l(1) wf(4)]
  note es = "13.IH"(2) [OF wf(3) l(2) wf(5)]
  show ?case
  proof (intro conjI impI)
    assume "obj_items d ((k, v) # es) = PyOk d'" and d: "canon_items n d" "distinct (map fst d)"
    then obtain key y where y: "str_of k = PyOk key" "obj_val v = PyOk y" "obj_items (PyDict_SetItem d key y) es = PyOk d'"
      by (auto simp: py_bind_PyOk)
    have "canon_items n (PyDict_SetItem d key y)" "distinct (map fst (PyDict_SetItem d key y))"
      using d v [OF y(2)] canon_of_key [OF y(1) wf(1) l(3)] by (simp_all add: canon_SetItem distinct_SetItem)
    then show "canon_items n d'" "distinct (map fst d')" using es y(3) by blast+
  next
    assume "obj_elems xs ((k, v) # es) = PyOk xs'" and xs: "canon_list n xs"
    then obtain y where y: "obj_val v = PyOk y" "obj_elems (xs @ [y]) es = PyOk xs'" by (auto simp: py_bind_PyOk)
    have "canon_list n (xs @ [y])" using xs v [OF y(1)] by (auto simp: canon_list_iff)
    then show "canon_list n xs'" "length xs' = length xs + length ((k, v) # es)" using es y(2) by auto
  qed
qed (auto simp: canon_val_scalar canon_scalar_def INT32_MAX_def sint_range64 [simplified])

section \<open>Canonical objects have a document, and are what it decodes to\<close>

lemma canon_wire_scalar:
  assumes "canon_scalar v"
  obtains x where "wire_val v = Some x" "depth_val x = 0" "py_wf v" "plain_val v" "norm_val v = v"
proof -
  have nest: "wire_val v = wire_scalar v" using assms by (cases v) (simp_all add: wire_val.simps canon_scalar_def)
  have ms: "\<exists>ms. fst (datetime_to_epoch_ms d) = Ok ms" if "v = PyDatetime d" for d
    using assms ms_of_datetime(1) [of d] that by (simp add: canon_scalar_def)
  have "\<exists>x. wire_scalar v = Some x"
    using assms ms by (cases v) (auto simp: wire_scalar_def canon_scalar_def PyUnicode_AsUTF8AndSize_def split: option.splits pyval.splits)
  then obtain x where x: "wire_scalar v = Some x" by blast
  have "py_wf v" "plain_val v"
    using assms by (cases v; simp add: canon_scalar_def py_wf.simps plain_val.simps datetime_wf_def)+
  moreover have "d\<lparr>dt_microsecond := dt_microsecond d div 1000 * 1000, dt_offset := Naive\<rparr> = d"
    if "dt_offset d = Naive" "dt_microsecond d mod 1000 = 0" for d :: py_datetime
  proof -
    have "dt_microsecond d div 1000 * 1000 = dt_microsecond d" using that(2) div_mult_mod_eq [of "dt_microsecond d" 1000] by simp
    then show ?thesis using that(1) by simp
  qed
  then have "norm_val v = v" using assms by (cases v) (simp_all add: canon_scalar_def norm_val.simps)
  ultimately show thesis using that [of x] x nest wire_scalar_depth [OF x] by simp
qed

lemma canon_wire:
  "canon_val n v \<Longrightarrow> \<exists>x. wire_val v = Some x \<and> depth_val x \<le> n \<and> py_wf v \<and> plain_val v \<and> norm_val v = v"
  "canon_items n items \<Longrightarrow>
     \<exists>es. wire_items items = Some es \<and> depth_elems es \<le> n \<and> wf_items items \<and> plain_items items \<and> norm_items items = items"
  "canon_list n xs \<Longrightarrow>
     \<exists>es. wire_elems i xs = Some es \<and> depth_elems es \<le> n \<and> wf_list xs \<and> plain_list xs \<and> norm_list xs = xs"
proof (induction n v and n items and n xs arbitrary: and and i rule: canon_val_canon_items_canon_list.induct)
  case (1 n v)
  consider (dict) items where "v = PyDict items" | (list) xs where "v = PyList xs" | (scalar) "canon_scalar v"
    using "1.prems" canon_val_scalar by blast
  then show ?case
  proof cases
    case dict
    then show ?thesis using "1.IH"(1) "1.prems" by (auto simp: Suc_le_eq) 
  next
    case list
    then show ?thesis using "1.IH"(2) [OF list, of 0] "1.prems" by auto
  next
    case scalar
    then show ?thesis by (rule canon_wire_scalar) (metis le0)
  qed
next
  case (3 n k v items)
  obtain kb where "key_bytes k = Some kb" "length kb < 2 ^ 60"
    using "3.prems" by (auto simp: canon_key_def split: option.splits)
  then show ?case using "3.IH" "3.prems" by auto
next
  case (5 n v xs)
  obtain x where "wire_val v = Some x" "depth_val x \<le> n" "py_wf v" "plain_val v" "norm_val v = v"
    using "5.IH"(1) "5.prems" by auto
  moreover obtain es where "wire_elems (i + 1) xs = Some es" "depth_elems es \<le> n" "wf_list xs" "plain_list xs" "norm_list xs = xs"
    using "5.IH"(2) [of "i + 1"] "5.prems" by auto
  ultimately show ?case by simp
qed auto

lemma decoded_canon:
  assumes "py_decode buf = PyOk x"
  obtains items where "x = PyDict items" "canon_items BSON_MAX_DEPTH items" "distinct (map fst items)"
proof (cases buf rule: decode_cases)
  case (doc es)
  then obtain items where i: "obj_items [] es = PyOk items" "x = PyDict items" using assms by (auto simp: py_bind_PyOk)
  have "wf_elems es" "length (enc_elems es) \<le> BSON_MAX_DOCUMENT_SIZE" using doc(1) by (simp_all add: wf_doc_def)
  then show thesis using that canon_obj(2) [of es BSON_MAX_DEPTH "[]" items] doc(2) i by auto
qed (use assms in simp)

section \<open>Properties\<close>

text \<open>
  C22. The type of what decoding returns: a dict with distinct string keys free of NUL; inside only
  booleans, 64-bit integers, floats, strings that have UTF-8, bytes, ObjectIds of 12 bytes, naive datetimes
  in whole milliseconds, lists and dicts, at most 100 of them deep.
\<close>

theorem decode_canonical:
  assumes "py_decode buf = PyOk x"
  shows "canon_val (BSON_MAX_DEPTH + 1) x"
  by (rule decoded_canon [OF assms]) simp

theorem decode_canonical_witness:
  "canon_val (BSON_MAX_DEPTH + 1) (PyDict (norm_items sample_items))"
proof (rule decode_canonical)
  show "py_decode (enc_doc sample_wire) = PyOk (PyDict (norm_items sample_items))"
    using decode_doc [of sample_wire] encoded_wf [OF sample_ok(4)] obj_wire(2) [OF sample_ok(4,1-3), of "[]"]
    by (simp add: sample_wire_def BSON_MAX_DEPTH_def BSON_MAX_DOCUMENT_SIZE_def)
qed

text \<open>
  C14. What was decoded once is stable: encoding it never faults, and raises only when memory runs
  out or the document it stands for exceeds the size limit; its bytes decode to the same object again.
\<close>

theorem decode_encode_stable:
  assumes "py_decode buf = PyOk x"
  shows "case py_encode alloc x of
      PyOk bs \<Rightarrow> py_decode bs = PyOk x
    | PyRaise e \<Rightarrow> (\<exists>c. \<not> alloc c) \<or> (\<exists>es. wire_val x = Some (WDocument es) \<and> BSON_MAX_DOCUMENT_SIZE < length (enc_doc es))
    | PyFault \<Rightarrow> False
    | PyDiverge \<Rightarrow> False"
proof -
  obtain items where x: "x = PyDict items" "canon_items BSON_MAX_DEPTH items" "distinct (map fst items)"
    by (rule decoded_canon [OF assms])
  obtain es where es: "wire_items items = Some es" "depth_elems es \<le> BSON_MAX_DEPTH" "wf_items items" "plain_items items"
    "norm_items items = items" using canon_wire(2) [OF x(2)] by auto
  show ?thesis
  proof (rule py_encode_cases [OF es(3), of alloc])
    fix es'
    assume "py_encode alloc (PyDict items) = PyOk (enc_doc es')" "wire_items items = Some es'"
      "length (enc_doc es') \<le> BSON_MAX_DOCUMENT_SIZE"
    moreover have "py_decode (enc_doc es) = PyOk (PyDict items)" if "length (enc_doc es) \<le> BSON_MAX_DOCUMENT_SIZE"
      using decode_doc [OF encoded_wf [OF es(1) that] es(2)] obj_wire(2) [OF es(1,3,4) x(3), of "[]"] es(5) by simp
    ultimately show ?thesis using es(1) x(1) by simp
  next
    fix e
    assume "py_encode alloc (PyDict items) = PyRaise e"
      "(\<exists>c. \<not> alloc c) \<or> (\<nexists>es. wire_items items = Some es \<and> depth_elems es \<le> BSON_MAX_DEPTH \<and>
         length (enc_doc es) \<le> BSON_MAX_DOCUMENT_SIZE)"
    then show ?thesis using es(1,2) x(1) by (auto simp: not_le)
  qed
qed

theorem decode_encode_stable_witness:
  "case py_encode (\<lambda>_. True) (PyDict (norm_items sample_items)) of
      PyOk bs \<Rightarrow> py_decode bs = PyOk (PyDict (norm_items sample_items))
    | PyRaise e \<Rightarrow> (\<exists>c :: nat. \<not> True) \<or> (\<exists>es. wire_val (PyDict (norm_items sample_items)) = Some (WDocument es) \<and>
        BSON_MAX_DOCUMENT_SIZE < length (enc_doc es))
    | PyFault \<Rightarrow> False
    | PyDiverge \<Rightarrow> False"
proof (rule decode_encode_stable)
  show "py_decode (enc_doc sample_wire) = PyOk (PyDict (norm_items sample_items))"
    using decode_doc [of sample_wire] encoded_wf [OF sample_ok(4)] obj_wire(2) [OF sample_ok(4,1-3), of "[]"]
    by (simp add: sample_wire_def BSON_MAX_DEPTH_def BSON_MAX_DOCUMENT_SIZE_def)
qed

end
