(* ===== verification/Python_Values.thy ===== *)
theory Python_Values
  imports Codec_Canonical Btree_Key
begin

text \<open>
  Equality and order of Python objects, as the operators \<^verbatim>\<open>==\<close> and \<^verbatim>\<open><\<close> have them on the types that a
  document can hold. query.py relies on them to evaluate filters.

  The keys of a \<^verbatim>\<open>dict\<close> are strings here, an object of another type equals nothing, and a \<^verbatim>\<open>tzinfo\<close> whose
  \<^verbatim>\<open>utcoffset\<close> raises counts as one without an offset. The shortcut of containers for identical items
  (which matters for NaN only) is not modelled.
\<close>

section \<open>Numbers\<close>

text \<open>
  Python compares numbers of all three types by their exact value. Every finite double is a multiple of
  \<open>2 ^ -1074\<close>; a value is a class (\<open>-1\<close> and \<open>1\<close> for the infinities) and that multiple.
\<close>

definition double_scale :: int where
  "double_scale = 2 ^ 1074"

definition double_exponent :: "u64 \<Rightarrow> nat" where
  "double_exponent w = unat (drop_bit 52 w AND 0x7FF)"

definition double_fraction :: "u64 \<Rightarrow> nat" where
  "double_fraction w = unat (w AND 0xFFFFFFFFFFFFF)"

definition double_val :: "u64 \<Rightarrow> int \<times> int" where
  "double_val w =
     (let s = (if bit w 63 then -1 else 1); e = double_exponent w; m = double_fraction w in
      if e = 0x7FF then (s, 0)
      else (0, s * int (if e = 0 then m else (m + 2 ^ 52) * 2 ^ (e - 1))))"

fun num_val :: "pyval \<Rightarrow> (int \<times> int) option" where
  "num_val (PyBool b) = Some (0, if b then double_scale else 0)"
| "num_val (PyInt i) = Some (0, i * double_scale)"
| "num_val (PyFloat w) = (if double_nan w then None else Some (double_val w))"
| "num_val _ = None"

fun is_number :: "pyval \<Rightarrow> bool" where
  "is_number (PyBool _) = True"
| "is_number (PyInt _) = True"
| "is_number (PyFloat _) = True"
| "is_number _ = False"

fun is_bool :: "pyval \<Rightarrow> bool" where
  "is_bool (PyBool _) = True"
| "is_bool _ = False"

definition num_less :: "int \<times> int \<Rightarrow> int \<times> int \<Rightarrow> bool" where
  "num_less x y \<longleftrightarrow> fst x < fst y \<or> fst x = fst y \<and> snd x < snd y"

section \<open>Datetimes and bytes\<close>

definition datetime_us :: "py_datetime \<Rightarrow> int" where
  "datetime_us d = days_from_civil (dt_year d) (dt_month d) (dt_day d) * 86400000000 + dt_hour d * 3600000000 +
     dt_minute d * 60000000 + dt_second d * 1000000 + dt_microsecond d"

text \<open>Whether a datetime is aware of its offset, and its microseconds, in UTC if it is.\<close>

definition datetime_point :: "py_datetime \<Rightarrow> bool \<times> int" where
  "datetime_point d = (case dt_offset d of
     OffsetMs off \<Rightarrow> (True, datetime_us d - off * 1000)
   | _ \<Rightarrow> (False, datetime_us d))"

fun bytes_like :: "pyval \<Rightarrow> byte list option" where
  "bytes_like (PyBytes bs) = Some bs"
| "bytes_like (PyByteArray bs) = Some bs"
| "bytes_like _ = None"

section \<open>Equality\<close>

function py_eq :: "pyval \<Rightarrow> pyval \<Rightarrow> bool"
  and py_eq_items :: "(pyval \<times> pyval) list \<Rightarrow> (pyval \<times> pyval) list \<Rightarrow> bool"
  and py_eq_list :: "pyval list \<Rightarrow> pyval list \<Rightarrow> bool" where
  "py_eq a b \<longleftrightarrow> (case a of
     PyNone \<Rightarrow> b = PyNone
   | PyStr s \<Rightarrow> b = PyStr s
   | PyBytes bs \<Rightarrow> bytes_like b = Some bs
   | PyByteArray bs \<Rightarrow> bytes_like b = Some bs
   | PyObjectId x \<Rightarrow> b = PyObjectId x
   | PyDatetime d \<Rightarrow> (case b of PyDatetime d' \<Rightarrow> datetime_point d = datetime_point d' | _ \<Rightarrow> False)
   | PyDict xs \<Rightarrow> (case b of PyDict ys \<Rightarrow> length xs = length ys \<and> py_eq_items xs ys | _ \<Rightarrow> False)
   | PyList xs \<Rightarrow> (case b of PyList ys \<Rightarrow> py_eq_list xs ys | _ \<Rightarrow> False)
   | PyTuple xs \<Rightarrow> (case b of PyTuple ys \<Rightarrow> py_eq_list xs ys | _ \<Rightarrow> False)
   | PyOther \<Rightarrow> False
   | _ \<Rightarrow> num_val a \<noteq> None \<and> num_val a = num_val b)"
| "py_eq_items [] ys \<longleftrightarrow> True"
| "py_eq_items ((k, v) # xs) ys \<longleftrightarrow> (case map_of ys k of Some w \<Rightarrow> py_eq v w \<and> py_eq_items xs ys | None \<Rightarrow> False)"
| "py_eq_list [] ys \<longleftrightarrow> ys = []"
| "py_eq_list (x # xs) ys \<longleftrightarrow> (case ys of [] \<Rightarrow> False | y # ys' \<Rightarrow> py_eq x y \<and> py_eq_list xs ys')"
  by pat_completeness auto
termination
  by (relation "measure (\<lambda>x. case x of
        Inl (v, _) \<Rightarrow> 2 * size v
      | Inr (Inl (items, _)) \<Rightarrow> 2 * size_list (size_prod size size) items
      | Inr (Inr (xs, _)) \<Rightarrow> 2 * size_list size xs)") auto

declare py_eq.simps [simp del]

text \<open>\<^verbatim>\<open>_values_equal\<close> of query.py: a boolean equals no number.\<close>

definition values_equal :: "pyval \<Rightarrow> pyval \<Rightarrow> bool" where
  "values_equal a b \<longleftrightarrow> is_bool a = is_bool b \<and> py_eq a b"

section \<open>Order\<close>

text \<open>\<^verbatim>\<open>a < b\<close>; \<open>None\<close> is \<^verbatim>\<open>TypeError\<close>.\<close>

function py_less :: "pyval \<Rightarrow> pyval \<Rightarrow> bool option"
  and py_less_list :: "pyval list \<Rightarrow> pyval list \<Rightarrow> bool option" where
  "py_less a b = (case a of
     PyStr s \<Rightarrow> (case b of PyStr t \<Rightarrow> Some (s < t) | _ \<Rightarrow> None)
   | PyBytes x \<Rightarrow> map_option (\<lambda>y. map unat x < map unat y) (bytes_like b)
   | PyByteArray x \<Rightarrow> map_option (\<lambda>y. map unat x < map unat y) (bytes_like b)
   | PyObjectId (Some (PyBytes x)) \<Rightarrow> (case b of PyObjectId (Some (PyBytes y)) \<Rightarrow> Some (map unat x < map unat y) | _ \<Rightarrow> None)
   | PyDatetime d \<Rightarrow> (case b of PyDatetime d' \<Rightarrow>
         if fst (datetime_point d) = fst (datetime_point d') then Some (snd (datetime_point d) < snd (datetime_point d')) else None
       | _ \<Rightarrow> None)
   | PyList xs \<Rightarrow> (case b of PyList ys \<Rightarrow> py_less_list xs ys | _ \<Rightarrow> None)
   | PyTuple xs \<Rightarrow> (case b of PyTuple ys \<Rightarrow> py_less_list xs ys | _ \<Rightarrow> None)
   | _ \<Rightarrow> if is_number a \<and> is_number b
        then Some (case (num_val a, num_val b) of (Some x, Some y) \<Rightarrow> num_less x y | _ \<Rightarrow> False)
        else None)"
| "py_less_list [] ys = Some (ys \<noteq> [])"
| "py_less_list (x # xs) ys = (case ys of
     [] \<Rightarrow> Some False
   | y # ys' \<Rightarrow> if py_eq x y then py_less_list xs ys' else py_less x y)"
  by pat_completeness auto
termination
  by (relation "measure (\<lambda>x. case x of Inl (v, _) \<Rightarrow> 2 * size v | Inr (xs, _) \<Rightarrow> 2 * size_list size xs)") auto

declare py_less.simps [simp del]

datatype cmp_op = Cmp_gt | Cmp_ge | Cmp_lt | Cmp_le

fun py_compare :: "cmp_op \<Rightarrow> pyval \<Rightarrow> pyval \<Rightarrow> bool option" where
  "py_compare Cmp_lt a b = py_less a b"
| "py_compare Cmp_gt a b = py_less b a"
| "py_compare Cmp_le a b = map_option (\<lambda>less. less \<or> py_eq a b) (py_less a b)"
| "py_compare Cmp_ge a b = map_option (\<lambda>less. less \<or> py_eq a b) (py_less b a)"

section \<open>The order of doubles\<close>

text \<open>
  The rank by which an index compares doubles (the bits without the sign, negated for negative ones) is
  the exact order of their values.
\<close>

definition double_mag :: "u64 \<Rightarrow> nat" where
  "double_mag w = unat (w AND 0x7FFFFFFFFFFFFFFF)"

definition mag_val :: "nat \<Rightarrow> nat" where
  "mag_val n = (if n div 2 ^ 52 = 0 then n mod 2 ^ 52 else (n mod 2 ^ 52 + 2 ^ 52) * 2 ^ (n div 2 ^ 52 - 1))"

lemma mag_val_Suc: "mag_val n < mag_val (Suc n)"
proof -
  define e where "e = n div 2 ^ 52"
  define m where "m = n mod 2 ^ 52"
  have m: "m < 2 ^ 52" by (simp add: m_def)
  have "n = e * 2 ^ 52 + m" unfolding e_def m_def by (rule div_mult_mod_eq [symmetric])
  then have S: "Suc n = e * 2 ^ 52 + Suc m" by simp
  show ?thesis
  proof (cases "Suc m = 2 ^ 52")
    case True
    then have "Suc n = (e + 1) * 2 ^ 52" using S by simp
    then have s: "Suc n div 2 ^ 52 = e + 1" "Suc n mod 2 ^ 52 = 0" by (simp_all only: nonzero_mult_div_cancel_right mod_mult_self2_is_0) simp_all
    show ?thesis
    proof (cases e)
      case 0
      then show ?thesis unfolding mag_val_def s e_def [symmetric] m_def [symmetric] using m by simp
    next
      case (Suc k)
      have "(m + 2 ^ 52) * 2 ^ k < (2 ^ 52 + 2 ^ 52) * 2 ^ k" using m by simp
      then show ?thesis unfolding mag_val_def s e_def [symmetric] m_def [symmetric] Suc by simp
    qed
  next
    case False
    then have l: "Suc m < 2 ^ 52" using m by linarith
    have s: "Suc n div 2 ^ 52 = e" "Suc n mod 2 ^ 52 = Suc m" unfolding S using l by simp_all
    show ?thesis unfolding mag_val_def s e_def [symmetric] m_def [symmetric] by simp
  qed
qed

lemma mag_val_less: "mag_val a < mag_val b \<longleftrightarrow> a < b"
  using strict_mono_less [of mag_val a b] mag_val_Suc by (simp add: strict_mono_Suc_iff)

lemma double_fields: "double_exponent w = double_mag w div 2 ^ 52" "double_fraction w = double_mag w mod 2 ^ 52"
proof -
  have 1: "w AND 0x7FFFFFFFFFFFFFFF = take_bit 63 w" and 2: "w AND 0xFFFFFFFFFFFFF = take_bit 52 w"
    and 3: "drop_bit 52 w AND 0x7FF = take_bit 11 (drop_bit 52 w)" for w :: u64
    by (simp_all add: take_bit_eq_mask mask_eq_exp_minus_1)
  show "double_exponent w = double_mag w div 2 ^ 52"
    unfolding double_exponent_def double_mag_def 1 3
    by (simp only: unsigned_take_bit_eq unsigned_drop_bit_eq drop_bit_eq_div [symmetric]) (simp add: drop_bit_take_bit)
  show "double_fraction w = double_mag w mod 2 ^ 52"
    unfolding double_fraction_def double_mag_def 1 2
    by (simp only: unsigned_take_bit_eq take_bit_eq_mod [symmetric]) simp
qed

lemma double_nan_mag: "double_nan w \<longleftrightarrow> 0x7FF * 2 ^ 52 < double_mag w"
  by (simp add: double_nan_def double_mag_def word_less_nat_alt)

lemma double_rank_mag: "double_rank w = (if bit w 63 then - int (double_mag w) else int (double_mag w))"
  by (simp add: double_rank_def double_mag_def)

lemma double_val_mag:
  assumes "\<not> double_nan w"
  shows "double_val w = (let s = (if bit w 63 then -1 else 1) in
    if double_mag w = 0x7FF * 2 ^ 52 then (s, 0) else (0, s * int (mag_val (double_mag w))))"
proof -
  have "double_mag w \<le> 0x7FF * 2 ^ 52" using assms by (simp add: double_nan_mag)
  then have "double_mag w div 2 ^ 52 = 0x7FF \<longleftrightarrow> double_mag w = 0x7FF * 2 ^ 52" by auto
  then show ?thesis by (simp add: double_val_def double_fields mag_val_def Let_def)
qed

lemma mag_val_pos: "0 < mag_val n \<longleftrightarrow> 0 < n" "mag_val 0 = 0"
  using mag_val_less [of 0 n] by (simp_all add: mag_val_def)

lemma double_order:
  assumes "\<not> double_nan a" "\<not> double_nan b"
  shows "num_less (double_val a) (double_val b) \<longleftrightarrow> double_rank a < double_rank b"
    "double_val a = double_val b \<longleftrightarrow> double_rank a = double_rank b"
proof -
  define m where "m = double_mag a"
  define n where "n = double_mag b"
  have le: "m \<le> 0x7FF * 2 ^ 52" "n \<le> 0x7FF * 2 ^ 52" using assms by (simp_all add: double_nan_mag m_def n_def)
  have cmp: "mag_val m < mag_val n \<longleftrightarrow> m < n" "mag_val m = mag_val n \<longleftrightarrow> m = n" "mag_val n < mag_val m \<longleftrightarrow> n < m"
    using mag_val_less [of m n] mag_val_less [of n m] by auto
  note pos = mag_val_pos(1) [of m] mag_val_pos(1) [of n]
  have "(num_less (double_val a) (double_val b) \<longleftrightarrow> double_rank a < double_rank b) \<and>
      (double_val a = double_val b \<longleftrightarrow> double_rank a = double_rank b)"
    unfolding double_val_mag [OF assms(1)] double_val_mag [OF assms(2)] double_rank_mag m_def [symmetric] n_def [symmetric]
    using le cmp pos by (auto simp: num_less_def Let_def)
  then show "num_less (double_val a) (double_val b) \<longleftrightarrow> double_rank a < double_rank b"
    "double_val a = double_val b \<longleftrightarrow> double_rank a = double_rank b" by simp_all
qed

end
