(* ===== verification/Query_Match.thy ===== *)
theory Query_Match
  imports Python_Values
begin

text \<open>
  Filters on documents: the evaluation of python/bsondb/query.py, up to \<^verbatim>\<open>matches\<close>. A filter and a
  document are Python objects, a field path is split at its dots, and a call returns a boolean or
  raises.

  A segment of a path is taken for a list index where all its characters behind leading dashes are digits
  for \<^verbatim>\<open>str.isdigit\<close>; \<^verbatim>\<open>int\<close> then raises for two dashes, for digits that are not decimal (a superscript, say),
  and for more than 4300 digits. The tables of digits are those of Unicode 14.
\<close>

section \<open>Strings\<close>

definition str :: "string \<Rightarrow> nat list" where
  "str s = map of_char s"

lemma str_eq_iff [simp]: "str s = str t \<longleftrightarrow> s = t"
  unfolding str_def by (simp add: inj_map_eq_map inj_on_def)

text \<open>\<^verbatim>\<open>str.split(".")\<close>.\<close>

fun split_dots :: "nat list \<Rightarrow> nat list list" where
  "split_dots [] = [[]]"
| "split_dots (c # cs) =
     (if c = 46 then [] # split_dots cs else (case split_dots cs of s # ss \<Rightarrow> (c # s) # ss | [] \<Rightarrow> [[c]]))"

text \<open>
  The value at a path, by the keys of dictionaries alone (\<^verbatim>\<open>_get_path\<close> of query.py, \<^verbatim>\<open>_direct_value\<close> of
  index.py).
\<close>

fun direct_value :: "pyval \<Rightarrow> nat list list \<Rightarrow> pyval option" where
  "direct_value v [] = Some v"
| "direct_value v (s # ss) = (case v of
     PyDict items \<Rightarrow> (case map_of items (PyStr s) of Some x \<Rightarrow> direct_value x ss | None \<Rightarrow> None)
   | _ \<Rightarrow> None)"

definition starts_with_dollar :: "nat list \<Rightarrow> bool" where
  "starts_with_dollar s \<longleftrightarrow> s \<noteq> [] \<and> hd s = 36"

text \<open>\<^verbatim>\<open>key.startswith("$")\<close>, which only strings have.\<close>

fun dollar_key :: "pyval \<Rightarrow> bool py" where
  "dollar_key (PyStr s) = PyOk (starts_with_dollar s)"
| "dollar_key _ = PyRaise AttributeError"

section \<open>Resolving a path\<close>

text \<open>The code points of the zeros of all decimal scripts, each followed by the digits 1 to 9.\<close>

definition decimal_zeros :: "nat list" where
  "decimal_zeros = [48, 1632, 1776, 1984, 2406, 2534, 2662, 2790, 2918, 3046, 3174, 3302, 3430, 3558, 3664, 3792, 3872, 4160,
     4240, 6112, 6160, 6470, 6608, 6784, 6800, 6992, 7088, 7232, 7248, 42528, 43216, 43264, 43472, 43504, 43600, 44016, 65296,
     66720, 68912, 69734, 69872, 69942, 70096, 70384, 70736, 70864, 71248, 71360, 71472, 71904, 72016, 72784, 73040, 73120,
     92768, 92864, 93008, 120782, 120792, 120802, 120812, 120822, 123200, 123632, 125264, 130032]"

text \<open>The ranges of the other characters that \<^verbatim>\<open>str.isdigit\<close> admits.\<close>

definition other_digits :: "(nat \<times> nat) list" where
  "other_digits = [(178, 179), (185, 185), (4969, 4977), (6618, 6618), (8304, 8304), (8308, 8313), (8320, 8329), (9312, 9320),
     (9332, 9340), (9352, 9360), (9450, 9450), (9461, 9469), (9471, 9471), (10102, 10110), (10112, 10120), (10122, 10130),
     (68160, 68163), (69216, 69224), (69714, 69722), (127232, 127242)]"

definition digit_value :: "nat \<Rightarrow> nat option" where
  "digit_value c = map_option (\<lambda>z. c - z) (find (\<lambda>z. z \<le> c \<and> c < z + 10) decimal_zeros)"

definition is_digit :: "nat \<Rightarrow> bool" where
  "is_digit c \<longleftrightarrow> digit_value c \<noteq> None \<or> (\<exists>(a, b) \<in> set other_digits. a \<le> c \<and> c \<le> b)"

lemma ascii_digit:
  "c < 178 \<Longrightarrow> digit_value c = (if 48 \<le> c \<and> c \<le> 57 then Some (c - 48) else None)"
  "c < 178 \<Longrightarrow> is_digit c \<longleftrightarrow> 48 \<le> c \<and> c \<le> 57"
proof -
  assume c: "c < 178"
  show v: "digit_value c = (if 48 \<le> c \<and> c \<le> 57 then Some (c - 48) else None)"
    using c by (auto simp: digit_value_def decimal_zeros_def)
  show "is_digit c \<longleftrightarrow> 48 \<le> c \<and> c \<le> 57" using c unfolding is_digit_def v by (simp add: other_digits_def)
qed

definition decimal :: "nat list \<Rightarrow> int" where
  "decimal ds = foldl (\<lambda>n c. n * 10 + int (the (digit_value c))) 0 ds"

definition segment_index :: "nat list \<Rightarrow> int option py" where
  "segment_index segment =
     (let digits = dropWhile (\<lambda>c. c = 45) segment; dashes = length segment - length digits in
      if digits = [] \<or> (\<exists>c \<in> set digits. \<not> is_digit c) then PyOk None
      else if 1 < dashes \<or> (\<exists>c \<in> set digits. digit_value c = None) \<or> 4300 < length digits then PyRaise ValueError
      else PyOk (Some (if dashes = 0 then decimal digits else - decimal digits)))"

fun py_concat :: "'a list py list \<Rightarrow> 'a list py" where
  "py_concat [] = PyOk []"
| "py_concat (m # ms) = py_bind m (\<lambda>xs. py_bind (py_concat ms) (\<lambda>ys. PyOk (xs @ ys)))"

fun resolve_path :: "pyval \<Rightarrow> nat list list \<Rightarrow> pyval list py" where
  "resolve_path v [] = PyOk (case v of PyList xs \<Rightarrow> v # xs | _ \<Rightarrow> [v])"
| "resolve_path v (segment # rest) = (case v of
     PyDict items \<Rightarrow> (case map_of items (PyStr segment) of Some x \<Rightarrow> resolve_path x rest | None \<Rightarrow> PyOk [])
   | PyList xs \<Rightarrow>
       py_bind (segment_index segment) (\<lambda>index.
       py_bind (case index of
           Some i \<Rightarrow> if - int (length xs) \<le> i \<and> i < int (length xs)
             then resolve_path (xs ! nat (if i < 0 then i + int (length xs) else i)) rest else PyOk []
         | None \<Rightarrow> PyOk []) (\<lambda>candidates.
       py_bind (py_concat (map (\<lambda>x. resolve_path x rest) xs)) (\<lambda>broadcast.
       PyOk (candidates @ broadcast))))
   | _ \<Rightarrow> PyOk [])"

section \<open>Conditions\<close>

definition matches_eq :: "pyval list \<Rightarrow> pyval \<Rightarrow> bool" where
  "matches_eq candidates operand \<longleftrightarrow>
     operand = PyNone \<and> candidates = [] \<or> (\<exists>c \<in> set candidates. values_equal c operand)"

definition matches_compare :: "pyval list \<Rightarrow> pyval \<Rightarrow> cmp_op \<Rightarrow> bool" where
  "matches_compare candidates operand op \<longleftrightarrow>
     (\<exists>c \<in> set candidates. \<not> is_bool c \<and> \<not> is_bool operand \<and> py_compare op c operand = Some True)"

definition matches_in :: "pyval list \<Rightarrow> pyval \<Rightarrow> bool py" where
  "matches_in candidates operand = (case operand of
     PyList vs \<Rightarrow> PyOk (\<exists>v \<in> set vs. matches_eq candidates v)
   | PyTuple vs \<Rightarrow> PyOk (\<exists>v \<in> set vs. matches_eq candidates v)
   | _ \<Rightarrow> PyRaise InvalidDocument)"

fun all_dollar :: "(pyval \<times> pyval) list \<Rightarrow> bool py" where
  "all_dollar [] = PyOk True"
| "all_dollar ((k, v) # items) = py_bind (dollar_key k) (\<lambda>d. if d then all_dollar items else PyOk False)"

definition comparison_op :: "pyval \<Rightarrow> cmp_op option" where
  "comparison_op op =
     (if op = PyStr (str ''$gt'') then Some Cmp_gt else if op = PyStr (str ''$gte'') then Some Cmp_ge
      else if op = PyStr (str ''$lt'') then Some Cmp_lt else if op = PyStr (str ''$lte'') then Some Cmp_le else None)"

function field_matches :: "pyval list \<Rightarrow> pyval \<Rightarrow> bool py"
  and match_operators :: "pyval list \<Rightarrow> (pyval \<times> pyval) list \<Rightarrow> bool py" where
  "field_matches candidates condition = (case condition of
     PyDict ops \<Rightarrow>
       if ops = [] then PyOk (matches_eq candidates condition)
       else py_bind (all_dollar ops) (\<lambda>operators.
            if operators then match_operators candidates ops else PyOk (matches_eq candidates condition))
   | _ \<Rightarrow> PyOk (matches_eq candidates condition))"
| "match_operators candidates [] = PyOk True"
| "match_operators candidates ((op, operand) # ops) =
     py_bind
       (if op = PyStr (str ''$eq'') then PyOk (matches_eq candidates operand)
        else if op = PyStr (str ''$ne'') then PyOk (\<not> matches_eq candidates operand)
        else if op = PyStr (str ''$in'') then matches_in candidates operand
        else if op = PyStr (str ''$nin'') then py_bind (matches_in candidates operand) (\<lambda>b. PyOk (\<not> b))
        else if op = PyStr (str ''$not'') then py_bind (field_matches candidates operand) (\<lambda>b. PyOk (\<not> b))
        else case comparison_op op of
          Some cmp \<Rightarrow> PyOk (matches_compare candidates operand cmp)
        | None \<Rightarrow> PyRaise InvalidDocument)
       (\<lambda>ok. if ok then match_operators candidates ops else PyOk False)"
  by pat_completeness auto
termination
  by (relation "measure (\<lambda>x. case x of
        Inl (_, v) \<Rightarrow> 2 * size v
      | Inr (_, ops) \<Rightarrow> 2 * size_list (size_prod size size) ops)") auto

declare field_matches.simps [simp del]

section \<open>Filters\<close>

function matches :: "pyval \<Rightarrow> pyval \<Rightarrow> bool py"
  and match_clauses :: "pyval \<Rightarrow> (pyval \<times> pyval) list \<Rightarrow> bool py"
  and match_all :: "pyval \<Rightarrow> pyval list \<Rightarrow> bool py"
  and match_any :: "pyval \<Rightarrow> pyval list \<Rightarrow> bool py" where
  "matches doc filt = (case filt of PyDict clauses \<Rightarrow> match_clauses doc clauses | _ \<Rightarrow> PyRaise AttributeError)"
| "match_clauses doc [] = PyOk True"
| "match_clauses doc ((key, condition) # clauses) =
     py_bind
       (if key = PyStr (str ''$and'') then (case condition of
          PyList subs \<Rightarrow> match_all doc subs | PyTuple subs \<Rightarrow> match_all doc subs | _ \<Rightarrow> PyRaise InvalidDocument)
        else if key = PyStr (str ''$or'') then (case condition of
          PyList subs \<Rightarrow> match_any doc subs | PyTuple subs \<Rightarrow> match_any doc subs | _ \<Rightarrow> PyRaise InvalidDocument)
        else py_bind (dollar_key key) (\<lambda>d.
          if d then PyRaise InvalidDocument
          else case key of
            PyStr path \<Rightarrow> py_bind (resolve_path doc (split_dots path)) (\<lambda>candidates. field_matches candidates condition)
          | _ \<Rightarrow> PyFault))
       (\<lambda>ok. if ok then match_clauses doc clauses else PyOk False)"
| "match_all doc [] = PyOk True"
| "match_all doc (sub # subs) = py_bind (matches doc sub) (\<lambda>b. if b then match_all doc subs else PyOk False)"
| "match_any doc [] = PyOk False"
| "match_any doc (sub # subs) = py_bind (matches doc sub) (\<lambda>b. if b then PyOk True else match_any doc subs)"
  by pat_completeness auto
termination
  by (relation "measure (\<lambda>x. case x of
        Inl (Inl (_, v)) \<Rightarrow> 2 * size v
      | Inl (Inr (_, items)) \<Rightarrow> 2 * size_list (size_prod size size) items
      | Inr (Inl (_, xs)) \<Rightarrow> 2 * size_list size xs
      | Inr (Inr (_, xs)) \<Rightarrow> 2 * size_list size xs)") auto

declare matches.simps [simp del]

section \<open>Paths without lists\<close>

lemma split_dots_Cons: "\<exists>s ss. split_dots path = s # ss"
  by (induction path) (auto split: list.splits)

text \<open>No list on the way, and none at its end: the path means the one value it leads to.\<close>

fun list_free :: "pyval \<Rightarrow> nat list list \<Rightarrow> bool" where
  "list_free v [] \<longleftrightarrow> (case v of PyList _ \<Rightarrow> False | _ \<Rightarrow> True)"
| "list_free v (s # ss) \<longleftrightarrow> (case v of
     PyDict items \<Rightarrow> (case map_of items (PyStr s) of Some x \<Rightarrow> list_free x ss | None \<Rightarrow> True)
   | PyList _ \<Rightarrow> False
   | _ \<Rightarrow> True)"

lemma resolve_direct:
  "list_free v ss \<Longrightarrow> resolve_path v ss = PyOk (case direct_value v ss of None \<Rightarrow> [] | Some x \<Rightarrow> [x])"
  by (induction v ss rule: direct_value.induct) (auto split: pyval.splits option.splits)

lemma direct_list_free:
  "direct_value v ss = Some u \<Longrightarrow> \<forall>xs. u \<noteq> PyList xs \<Longrightarrow> list_free v ss"
proof (induction v ss rule: direct_value.induct)
  case (1 v)
  then have "\<forall>xs. v \<noteq> PyList xs" by simp
  then show ?case by (cases v) simp_all
next
  case (2 v s ss)
  then show ?case by (cases v) (auto split: option.splits)
qed

text \<open>What the one equality of a filter says of a document with no list on the path.\<close>

definition eq_holds :: "pyval \<Rightarrow> nat list \<Rightarrow> pyval \<Rightarrow> bool" where
  "eq_holds x fld v \<longleftrightarrow>
     (case direct_value x (split_dots fld) of None \<Rightarrow> v = PyNone | Some y \<Rightarrow> values_equal y v)"

lemma matches_literal:
  assumes "\<not> starts_with_dollar path" "list_free doc (split_dots path)" "\<forall>ops. v \<noteq> PyDict ops"
  shows "matches doc (PyDict [(PyStr path, v)]) =
    PyOk (eq_holds doc path v)"
proof -
  have op: "PyStr path \<noteq> PyStr (str ''$and'')" "PyStr path \<noteq> PyStr (str ''$or'')"
    using assms(1) by (auto simp: starts_with_dollar_def str_def)
  have f: "field_matches cs v = PyOk (matches_eq cs v)" for cs
    using assms(3) by (cases v) (simp_all add: field_matches.simps)
  have "matches_eq (case direct_value doc (split_dots path) of None \<Rightarrow> [] | Some x \<Rightarrow> [x]) v = eq_holds doc path v"
    by (simp add: matches_eq_def eq_holds_def split: option.splits)
  then show ?thesis using op assms(1) by (simp add: matches.simps resolve_direct [OF assms(2)] f)
qed

lemma matches_dollar_eq:
  assumes "\<not> starts_with_dollar path" "list_free doc (split_dots path)"
  shows "matches doc (PyDict [(PyStr path, PyDict [(PyStr (str ''$eq''), v)])]) = PyOk (eq_holds doc path v)"
proof -
  have op: "PyStr path \<noteq> PyStr (str ''$and'')" "PyStr path \<noteq> PyStr (str ''$or'')"
    using assms(1) by (auto simp: starts_with_dollar_def str_def)
  have "starts_with_dollar (str ''$eq'')" by (simp add: starts_with_dollar_def str_def)
  then have f: "field_matches cs (PyDict [(PyStr (str ''$eq''), v)]) = PyOk (matches_eq cs v)" for cs
    by (simp add: field_matches.simps)
  have "matches_eq (case direct_value doc (split_dots path) of None \<Rightarrow> [] | Some x \<Rightarrow> [x]) v = eq_holds doc path v"
    by (simp add: matches_eq_def eq_holds_def split: option.splits)
  then show ?thesis using op assms(1) by (simp add: matches.simps resolve_direct [OF assms(2)] f)
qed

section \<open>Lists on a path\<close>

text \<open>A segment that is no index does not matter for a list: the rest of the path is taken at each item.\<close>

lemma resolve_broadcast:
  assumes "segment_index s = PyOk None"
  shows "resolve_path (PyList xs) (s # rest) = py_concat (map (\<lambda>x. resolve_path x rest) xs)"
  using assms by (cases "py_concat (map (\<lambda>x. resolve_path x rest) xs)") simp_all

end
