(* ===== verification/Query_Update.thy ===== *)
theory Query_Update
  imports Query_Match "HOL-Library.Sublist"
begin

text \<open>
  Update operators and upserts of python/bsondb/query.py. Python copies the document before it changes
  it, so the new document is a function of the old one. What \<^verbatim>\<open>$set\<close> stores is not copied: a later path
  of the same update that leads into it changes the update document, too. The functions below give the
  new document, which does not depend on that; \<open>unshared_update\<close> says that it does not happen, so that
  the update document is the same for the next target of \<^verbatim>\<open>update_many\<close>.

  The addition of floating-point numbers, which \<^verbatim>\<open>$inc\<close> needs, is a parameter: \<open>fadd current delta\<close> is
  asked when one of the two is a float.
\<close>

type_synonym doc = "(pyval \<times> pyval) list"

section \<open>Changing one path\<close>

fun set_segments :: "doc \<Rightarrow> nat list list \<Rightarrow> pyval \<Rightarrow> doc" where
  "set_segments doc [] v = doc"
| "set_segments doc [s] v = PyDict_SetItem doc (PyStr s) v"
| "set_segments doc (s # s' # ss) v =
     (let inner = (case map_of doc (PyStr s) of Some (PyDict items) \<Rightarrow> items | _ \<Rightarrow> []) in
      PyDict_SetItem doc (PyStr s) (PyDict (set_segments inner (s' # ss) v)))"

fun unset_segments :: "doc \<Rightarrow> nat list list \<Rightarrow> doc" where
  "unset_segments doc [] = doc"
| "unset_segments doc [s] = filter (\<lambda>p. fst p \<noteq> PyStr s) doc"
| "unset_segments doc (s # s' # ss) = (case map_of doc (PyStr s) of
     Some (PyDict items) \<Rightarrow> PyDict_SetItem doc (PyStr s) (PyDict (unset_segments items (s' # ss)))
   | _ \<Rightarrow> doc)"

definition set_path :: "doc \<Rightarrow> nat list \<Rightarrow> pyval \<Rightarrow> doc" where
  "set_path doc path v = set_segments doc (split_dots path) v"

definition unset_path :: "doc \<Rightarrow> nat list \<Rightarrow> doc" where
  "unset_path doc path = unset_segments doc (split_dots path)"

section \<open>The operators\<close>

definition id_path :: "nat list" where
  "id_path = str ''_id''"

fun py_mapping :: "pyval \<Rightarrow> doc option" where
  "py_mapping (PyDict items) = Some items"
| "py_mapping _ = None"

definition validate_update_document :: "pyval \<Rightarrow> unit py" where
  "validate_update_document update = (case py_mapping update of
     None \<Rightarrow> PyRaise InvalidUpdateDocument
   | Some ops \<Rightarrow>
       if ops \<noteq> [] \<and> (\<forall>(op, arg) \<in> set ops.
           op \<in> {PyStr (str ''$set''), PyStr (str ''$unset''), PyStr (str ''$inc'')} \<and>
           (case py_mapping arg of Some items \<Rightarrow> items \<noteq> [] | None \<Rightarrow> False))
       then PyOk () else PyRaise InvalidUpdateDocument)"

text \<open>
  \<^verbatim>\<open>original_id\<close> is the object at \<^verbatim>\<open>_id\<close> itself: if it is a dict, a path below \<^verbatim>\<open>_id\<close> changes it as long as it is
  still there.
\<close>

definition original_after :: "nat list \<Rightarrow> pyval option \<Rightarrow> doc \<Rightarrow> doc \<Rightarrow> pyval option" where
  "original_after p original_id doc doc' =
     (case original_id of
        Some (PyDict _) \<Rightarrow> if p \<noteq> id_path \<and> map_of doc (PyStr id_path) = original_id then map_of doc' (PyStr id_path) else original_id
      | _ \<Rightarrow> original_id)"

fun apply_set :: "pyval option \<Rightarrow> doc \<Rightarrow> doc \<Rightarrow> doc py" where
  "apply_set original_id [] doc = PyOk doc"
| "apply_set original_id ((path, v) # sets) doc = (case path of
     PyStr p \<Rightarrow>
       if p = id_path \<and> (case original_id of None \<Rightarrow> False | Some i \<Rightarrow> \<not> values_equal v i) then PyRaise InvalidDocument
       else (let doc' = set_path doc p v in apply_set (original_after p original_id doc doc') sets doc')
   | _ \<Rightarrow> PyRaise AttributeError)"

fun apply_unset :: "doc \<Rightarrow> doc \<Rightarrow> doc py" where
  "apply_unset [] doc = PyOk doc"
| "apply_unset ((path, v) # unsets) doc = (case path of
     PyStr p \<Rightarrow> if p = id_path then PyRaise InvalidDocument else apply_unset unsets (unset_path doc p)
   | _ \<Rightarrow> PyRaise AttributeError)"

fun py_number :: "pyval \<Rightarrow> bool" where
  "py_number (PyInt _) = True"
| "py_number (PyFloat _) = True"
| "py_number _ = False"

fun py_add :: "(pyval \<Rightarrow> pyval \<Rightarrow> pyval py) \<Rightarrow> pyval \<Rightarrow> pyval \<Rightarrow> pyval py" where
  "py_add fadd (PyInt i) (PyInt j) = PyOk (PyInt (i + j))"
| "py_add fadd x y = fadd x y"

fun apply_inc :: "(pyval \<Rightarrow> pyval \<Rightarrow> pyval py) \<Rightarrow> doc \<Rightarrow> doc \<Rightarrow> doc py" where
  "apply_inc fadd [] doc = PyOk doc"
| "apply_inc fadd ((path, delta) # incs) doc = (case path of
     PyStr p \<Rightarrow>
       if p = id_path \<or> \<not> py_number delta then PyRaise InvalidDocument
       else (let current = (case direct_value (PyDict doc) (split_dots p) of None \<Rightarrow> PyInt 0 | Some x \<Rightarrow> x) in
         if \<not> py_number current then PyRaise InvalidDocument
         else py_bind (py_add fadd current delta) (\<lambda>sum. apply_inc fadd incs (set_path doc p sum)))
   | _ \<Rightarrow> if \<not> py_number delta then PyRaise InvalidDocument else PyRaise AttributeError)"

definition operator_arg :: "string \<Rightarrow> doc \<Rightarrow> doc" where
  "operator_arg op ops = (case map_of ops (PyStr (str op)) of
     None \<Rightarrow> [] | Some arg \<Rightarrow> (case py_mapping arg of None \<Rightarrow> [] | Some items \<Rightarrow> items))"

definition apply_update_operators :: "(pyval \<Rightarrow> pyval \<Rightarrow> pyval py) \<Rightarrow> doc \<Rightarrow> pyval \<Rightarrow> doc py" where
  "apply_update_operators fadd doc update =
     py_bind (validate_update_document update) (\<lambda>_.
     case py_mapping update of
       None \<Rightarrow> PyFault
     | Some ops \<Rightarrow>
         py_bind (apply_set (map_of doc (PyStr id_path)) (operator_arg ''$set'' ops) doc) (\<lambda>doc.
         py_bind (apply_unset (operator_arg ''$unset'' ops) doc) (\<lambda>doc.
         apply_inc fadd (operator_arg ''$inc'' ops) doc)))"

section \<open>Upserts\<close>

text \<open>A filter that matched before has string keys.\<close>

fun seed_clauses :: "doc \<Rightarrow> doc \<Rightarrow> doc py" where
  "seed_clauses [] seed = PyOk seed"
| "seed_clauses ((key, condition) # clauses) seed = py_bind (dollar_key key) (\<lambda>d.
     if d then seed_clauses clauses seed
     else case key of
       PyStr path \<Rightarrow> (case condition of
           PyDict ops \<Rightarrow> (case ops of
               [(op, v)] \<Rightarrow> if op = PyStr (str ''$eq'') then seed_clauses clauses (set_path seed path v) else seed_clauses clauses seed
             | _ \<Rightarrow> seed_clauses clauses seed)
         | v \<Rightarrow> seed_clauses clauses (set_path seed path v))
     | _ \<Rightarrow> PyFault)"

definition seed_from_filter :: "pyval \<Rightarrow> doc py" where
  "seed_from_filter filt = (case py_mapping filt of Some clauses \<Rightarrow> seed_clauses clauses [] | None \<Rightarrow> PyRaise AttributeError)"

definition build_upsert_document :: "(pyval \<Rightarrow> pyval \<Rightarrow> pyval py) \<Rightarrow> pyval \<Rightarrow> pyval \<Rightarrow> doc py" where
  "build_upsert_document fadd filt update = py_bind (seed_from_filter filt) (\<lambda>seed. apply_update_operators fadd seed update)"

text \<open>No path of the update leads into what \<^verbatim>\<open>$set\<close> stores.\<close>

definition update_paths :: "doc \<Rightarrow> nat list list list" where
  "update_paths ops = concat (map (\<lambda>op. concat (map (\<lambda>(k, v). case k of PyStr p \<Rightarrow> [split_dots p] | _ \<Rightarrow> []) (operator_arg op ops)))
     [''$set'', ''$unset'', ''$inc''])"

definition unshared :: "doc \<Rightarrow> bool" where
  "unshared ops \<longleftrightarrow> (\<forall>(k, v) \<in> set (operator_arg ''$set'' ops). \<forall>q \<in> set (update_paths ops).
     case k of PyStr p \<Rightarrow> py_mapping v = None \<or> q = split_dots p \<or> \<not> prefix (split_dots p) q
     | _ \<Rightarrow> True)"

definition unshared_update :: "pyval \<Rightarrow> bool" where
  "unshared_update update \<longleftrightarrow> (case py_mapping update of None \<Rightarrow> True | Some ops \<Rightarrow> unshared ops)"

section \<open>Looking up what was changed\<close>

lemma map_of_SetItem [simp]: "map_of (PyDict_SetItem d k v) = (map_of d)(k \<mapsto> v)"
  by (induction d k v rule: PyDict_SetItem.induct) auto

lemma direct_value_dict:
  "direct_value (PyDict d) (s # ss) = (case map_of d (PyStr s) of Some x \<Rightarrow> direct_value x ss | None \<Rightarrow> None)"
  by simp

lemma set_segments_same: "ss \<noteq> [] \<Longrightarrow> direct_value (PyDict (set_segments d ss v)) ss = Some v"
  by (induction d ss v rule: set_segments.induct) simp_all

lemma direct_value_nondict: "ts \<noteq> [] \<Longrightarrow> \<forall>items. x \<noteq> PyDict items \<Longrightarrow> direct_value x ts = None"
  by (cases ts; cases x) simp_all

lemma inner_value:
  "ts \<noteq> [] \<Longrightarrow> direct_value (PyDict (case m of Some (PyDict items) \<Rightarrow> items | _ \<Rightarrow> [])) ts =
     (case m of Some x \<Rightarrow> direct_value x ts | None \<Rightarrow> None)"
  by (cases ts) (auto split: option.splits pyval.splits)

lemma set_segments_other:
  "\<not> prefix ss ts \<Longrightarrow> \<not> prefix ts ss \<Longrightarrow> direct_value (PyDict (set_segments d ss v)) ts = direct_value (PyDict d) ts"
proof (induction d ss v arbitrary: ts rule: set_segments.induct)
  case (2 d s v)
  then show ?case by (cases ts) auto
next
  case (3 d s s' ss v)
  obtain t ts' where ts: "ts = t # ts'" using "3.prems"(2) by (cases ts) auto
  show ?case
  proof (cases "t = s")
    case True
    then have "ts' \<noteq> []" "\<not> prefix (s' # ss) ts'" "\<not> prefix ts' (s' # ss)" using "3.prems" ts by auto
    then show ?thesis using "3.IH" [OF refl, of ts'] inner_value [of ts' "map_of d (PyStr s)"] ts True by (simp add: Let_def)
  next
    case False
    then show ?thesis using ts by (simp add: Let_def)
  qed
qed simp

lemma map_of_drop: "map_of (filter (\<lambda>p. fst p \<noteq> k) d) k' = (if k' = k then None else map_of d k')"
  by (induction d) auto

lemma unset_segments_same: "ss \<noteq> [] \<Longrightarrow> direct_value (PyDict (unset_segments d ss)) ss = None"
proof (induction d ss rule: unset_segments.induct)
  case (3 d s s' ss)
  show ?case
  proof (cases "\<exists>items. map_of d (PyStr s) = Some (PyDict items)")
    case True
    then show ?thesis using "3.IH" by auto
  next
    case False
    then show ?thesis using direct_value_nondict [of "s' # ss"] by (auto split: option.splits pyval.splits)
  qed
qed (simp_all add: map_of_drop)

lemma unset_segments_other:
  "\<not> prefix ss ts \<Longrightarrow> \<not> prefix ts ss \<Longrightarrow> direct_value (PyDict (unset_segments d ss)) ts = direct_value (PyDict d) ts"
proof (induction d ss arbitrary: ts rule: unset_segments.induct)
  case (2 d s)
  then show ?case by (cases ts) (auto simp: map_of_drop)
next
  case (3 d s s' ss)
  obtain t ts' where ts: "ts = t # ts'" using "3.prems"(2) by (cases ts) auto
  show ?case
  proof (cases "\<exists>items. map_of d (PyStr s) = Some (PyDict items)")
    case True
    then obtain items where i: "map_of d (PyStr s) = Some (PyDict items)" by blast
    have "direct_value (PyDict (unset_segments items (s' # ss))) ts' = direct_value (PyDict items) ts'" if "t = s"
      using "3.IH" [OF i refl, of ts'] "3.prems" ts that by simp
    then show ?thesis using i ts by (cases "t = s") simp_all
  next
    case False
    then show ?thesis using ts by (auto split: option.splits pyval.splits)
  qed
qed simp

section \<open>Identifiers are kept\<close>

lemma split_dots_one: "split_dots p = [s] \<Longrightarrow> p = s"
proof (induction p arbitrary: s)
  case (Cons c p)
  then show ?case using split_dots_Cons [of p] by (auto split: if_splits list.splits)
qed simp

lemma map_of_set_path: "hd (split_dots p) \<noteq> s \<Longrightarrow> map_of (set_path d p v) (PyStr s) = map_of d (PyStr s)"
  using split_dots_Cons [of p] unfolding set_path_def by (cases "(d, split_dots p, v)" rule: set_segments.cases) (auto simp: Let_def)

lemma map_of_unset_path: "hd (split_dots p) \<noteq> s \<Longrightarrow> map_of (unset_path d p) (PyStr s) = map_of d (PyStr s)"
  using split_dots_Cons [of p] unfolding unset_path_def
  by (cases "(d, split_dots p)" rule: unset_segments.cases) (auto simp: map_of_drop split: option.splits pyval.splits)

lemma split_id: "split_dots id_path = [id_path]"
  by (simp add: id_path_def str_def)

lemma set_path_id: "map_of (set_path d id_path v) (PyStr id_path) = Some v"
  by (simp add: set_path_def split_id)

text \<open>The paths that may change \<^verbatim>\<open>_id\<close> are \<^verbatim>\<open>_id\<close> itself, which the operators check, and the paths below it.\<close>

definition id_safe :: "doc \<Rightarrow> bool" where
  "id_safe items \<longleftrightarrow> (\<forall>(k, v) \<in> set items. \<forall>p. k = PyStr p \<longrightarrow> hd (split_dots p) = id_path \<longrightarrow> p = id_path)"

definition same_id :: "pyval option \<Rightarrow> pyval option \<Rightarrow> bool" where
  "same_id old new \<longleftrightarrow> (case old of None \<Rightarrow> True | Some i \<Rightarrow> (\<exists>j. new = Some j \<and> (j = i \<or> values_equal j i)))"

lemma apply_set_id:
  "apply_set original sets d = PyOk d' \<Longrightarrow> id_safe sets \<Longrightarrow> same_id original (map_of d (PyStr id_path)) \<Longrightarrow>
     same_id original (map_of d' (PyStr id_path))"
proof (induction original sets d rule: apply_set.induct)
  case (2 original path v sets d)
  then obtain p where p: "path = PyStr p" by (cases path) simp_all
  show ?case
  proof (cases "p = id_path")
    case True
    then have "same_id original (map_of (set_path d p v) (PyStr id_path))"
      using "2.prems"(1) p by (auto simp: same_id_def set_path_id split: option.splits if_splits)
    moreover have "original_after p original d (set_path d p v) = original"
      using True by (simp add: original_after_def split: option.split pyval.split)
    ultimately show ?thesis using "2.IH" [OF p] "2.prems" p by (auto simp: id_safe_def Let_def split: if_splits)
  next
    case False
    then have "hd (split_dots p) \<noteq> id_path" using "2.prems"(2) p by (auto simp: id_safe_def)
    then have m: "map_of (set_path d p v) (PyStr id_path) = map_of d (PyStr id_path)" by (rule map_of_set_path)
    then have "original_after p original d (set_path d p v) = original"
      by (simp add: original_after_def split: option.split pyval.split)
    then show ?thesis using "2.IH" [OF p] "2.prems" p False m by (auto simp: id_safe_def Let_def)
  qed
qed simp

lemma apply_unset_id:
  "apply_unset unsets d = PyOk d' \<Longrightarrow> id_safe unsets \<Longrightarrow> map_of d' (PyStr id_path) = map_of d (PyStr id_path)"
proof (induction unsets d rule: apply_unset.induct)
  case (2 path v unsets d)
  then obtain p where p: "path = PyStr p" "p \<noteq> id_path" by (cases path) (auto split: if_splits)
  then have "hd (split_dots p) \<noteq> id_path" using "2.prems"(2) by (auto simp: id_safe_def)
  then show ?case using "2.IH" [OF p] "2.prems" p map_of_unset_path by (auto simp: id_safe_def)
qed simp

lemma apply_inc_id:
  "apply_inc fadd incs d = PyOk d' \<Longrightarrow> id_safe incs \<Longrightarrow> map_of d' (PyStr id_path) = map_of d (PyStr id_path)"
proof (induction fadd incs d rule: apply_inc.induct)
  case (2 fadd path delta incs d)
  then obtain p where p: "path = PyStr p" "p \<noteq> id_path" by (cases path) (auto split: if_splits)
  then have h: "hd (split_dots p) \<noteq> id_path" using "2.prems"(2) by (auto simp: id_safe_def)
  define current where "current = (case direct_value (PyDict d) (split_dots p) of None \<Rightarrow> PyInt 0 | Some x \<Rightarrow> x)"
  have n: "py_number delta" "py_number current"
    using "2.prems"(1) p by (auto simp: current_def Let_def split: if_splits)
  then obtain sum where s: "py_add fadd current delta = PyOk sum" "apply_inc fadd incs (set_path d p sum) = PyOk d'"
    using "2.prems"(1) p by (auto simp: current_def Let_def py_bind_PyOk)
  have "map_of d' (PyStr id_path) = map_of (set_path d p sum) (PyStr id_path)"
    using "2.IH" [of p current sum] p n s "2.prems"(2) by (simp add: current_def id_safe_def)
  then show ?case using map_of_set_path [OF h] by simp
qed simp

end
