(* ===== verification/Document_Collection.thy ===== *)
theory Document_Collection
  imports Query_Update Index_Properties
begin

text \<open>
  Documents in a collection with its indexes: the part of python/bsondb/collection.py and index.py
  that drives the codec, the record store and the index files together.

  A collection is the handle of its data file and the handles of its indexes with their field paths,
  in the order in which Python goes through them. \<open>fuel\<close> bounds the rounds of a scan, \<open>alloc\<close> says which
  allocations succeed, and \<open>tz\<close> is the local time zone. Iteration is not lazy: the matching documents
  come as a list, so that an exception at a later one is not put off.
\<close>

section \<open>Index keys of documents\<close>

definition resolve_index_value :: "pyval \<Rightarrow> nat list \<Rightarrow> pyval" where
  "resolve_index_value doc field_path =
     (case direct_value doc (split_dots field_path) of None \<Rightarrow> PyNone | Some v \<Rightarrow> v)"

text \<open>
  The milliseconds of a datetime, from the calendar of Python's library; \<^verbatim>\<open>astimezone\<close> refuses a
  result outside of the years 1 to 9999. A UTC offset is a whole number of milliseconds here. A
  \<^verbatim>\<open>tzinfo\<close> that gives no offset makes Python take the time as local time: \<open>tz\<close> is the offset of the
  local time zone.
\<close>

definition utc_key_ms :: "int \<Rightarrow> int py" where
  "utc_key_ms ms = (if in_datetime_range ms then PyOk ms else PyRaise OverflowError)"

definition datetime_key_ms :: "(py_datetime \<Rightarrow> int) \<Rightarrow> py_datetime \<Rightarrow> int py" where
  "datetime_key_ms tz d = (case dt_offset d of
     Naive \<Rightarrow> PyOk (naive_ms d)
   | NoOffset \<Rightarrow> utc_key_ms (naive_ms d - tz d)
   | OffsetRaises e \<Rightarrow> PyRaise e
   | OffsetMs off \<Rightarrow> utc_key_ms (naive_ms d - off))"

definition encode_btree_key :: "(py_datetime \<Rightarrow> int) \<Rightarrow> pyval \<Rightarrow> key py" where
  "encode_btree_key tz value = (case value of
     PyNone \<Rightarrow> PyOk (BSON_BTREE_TAG_NULL # replicate 12 0)
   | PyBool b \<Rightarrow> PyOk ([BSON_BTREE_TAG_BOOL, if b then 1 else 0] @ replicate 11 0)
   | PyInt i \<Rightarrow>
       if \<not> (- (2 ^ 63) \<le> i \<and> i < 2 ^ 63) then PyRaise OverflowError
       else PyOk (BSON_BTREE_TAG_INT # le_i64 i @ replicate 4 0)
   | PyFloat w \<Rightarrow>
       if double_nan w then PyRaise ValueError
       else PyOk (BSON_BTREE_TAG_DOUBLE # nat_le 8 (unat w) @ replicate 4 0)
   | PyDatetime d \<Rightarrow> py_bind (datetime_key_ms tz d) (\<lambda>ms. PyOk (BSON_BTREE_TAG_DATETIME # le_i64 ms @ replicate 4 0))
   | PyObjectId binary \<Rightarrow> (case binary of
         Some (PyBytes bs) \<Rightarrow> PyOk (BSON_BTREE_TAG_OBJECTID # bs)
       | Some (PyByteArray bs) \<Rightarrow> PyOk (BSON_BTREE_TAG_OBJECTID # bs)
       | Some _ \<Rightarrow> PyRaise TypeError
       | None \<Rightarrow> PyRaise AttributeError)
   | _ \<Rightarrow> PyRaise BSONNotImplementedError)"

definition index_key :: "(py_datetime \<Rightarrow> int) \<Rightarrow> pyval \<Rightarrow> nat list \<Rightarrow> key py" where
  "index_key tz doc field_path = encode_btree_key tz (resolve_index_value doc field_path)"

section \<open>Operations of a collection\<close>

type_synonym indexes = "(nat list \<times> index_handle) list"

record coll =
  co_data :: collection_handle
  co_indexes :: indexes

text \<open>A failure passes through; a result does not get here.\<close>

fun py_raise :: "'a py \<Rightarrow> 'b py" where
  "py_raise (PyOk _) = PyFault"
| "py_raise (PyRaise e) = PyRaise e"
| "py_raise PyFault = PyFault"
| "py_raise PyDiverge = PyDiverge"

text \<open>
  \<^verbatim>\<open>_index_update_for_insert\<close>: the entries inserted so far, with their keys, are taken back when an
  index refuses the key as a duplicate, and only then.
\<close>

fun index_rollback :: "nat \<Rightarrow> ((nat list \<times> index_handle) \<times> key) list \<Rightarrow> unit py \<times> indexes" where
  "index_rollback offset [] = (PyOk (), [])"
| "index_rollback offset (((fp, h), key) # made) =
     (case IndexHandle_delete_entry key (int offset) h of
        (PyOk _, h') \<Rightarrow> (case index_rollback offset made of (r, ixs) \<Rightarrow> (r, (fp, h') # ixs))
      | (r, h') \<Rightarrow> (r, (fp, h') # map fst made))"

fun index_update_for_insert ::
    "os_calls \<Rightarrow> (py_datetime \<Rightarrow> int) \<Rightarrow> pyval \<Rightarrow> nat \<Rightarrow> ((nat list \<times> index_handle) \<times> key) list \<Rightarrow> indexes \<Rightarrow> unit py \<times> indexes" where
  "index_update_for_insert os tz doc offset made [] = (PyOk (), map fst made)"
| "index_update_for_insert os tz doc offset made ((fp, h) # ixs) =
     (case index_key tz doc fp of
        PyOk key \<Rightarrow> (case IndexHandle_insert os key (int offset) h of
            (PyOk _, h') \<Rightarrow> index_update_for_insert os tz doc offset (made @ [((fp, h'), key)]) ixs
          | (PyRaise e, h') \<Rightarrow>
              if e = DuplicateKeyError then
                (case index_rollback offset made of
                   (PyOk _, back) \<Rightarrow> (PyRaise DuplicateKeyError, back @ (fp, h') # ixs)
                 | (r, back) \<Rightarrow> (r, back @ (fp, h') # ixs))
              else (PyRaise e, map fst made @ (fp, h') # ixs)
          | (r, h') \<Rightarrow> (r, map fst made @ (fp, h') # ixs))
      | r \<Rightarrow> (py_raise r, map fst made @ (fp, h) # ixs))"

fun index_update_for_delete :: "(py_datetime \<Rightarrow> int) \<Rightarrow> pyval \<Rightarrow> nat \<Rightarrow> indexes \<Rightarrow> unit py \<times> indexes" where
  "index_update_for_delete tz doc offset [] = (PyOk (), [])"
| "index_update_for_delete tz doc offset ((fp, h) # ixs) =
     (case index_key tz doc fp of
        PyOk key \<Rightarrow> (case IndexHandle_delete_entry key (int offset) h of
            (PyOk _, h') \<Rightarrow> (case index_update_for_delete tz doc offset ixs of (r, ixs') \<Rightarrow> (r, (fp, h') # ixs'))
          | (r, h') \<Rightarrow> (r, (fp, h') # ixs))
      | r \<Rightarrow> (py_raise r, (fp, h) # ixs))"

text \<open>Adding a document: append its record, then index it; take the record back for a duplicate.\<close>

definition add_document :: "os_calls \<Rightarrow> (py_datetime \<Rightarrow> int) \<Rightarrow> pyval \<Rightarrow> byte list \<Rightarrow> coll \<Rightarrow> unit py \<times> coll" where
  "add_document os tz doc raw c =
     (case CollectionHandle_append_record os raw (co_data c) of
        (PyOk offset, data) \<Rightarrow>
          (case index_update_for_insert os tz doc offset [] (co_indexes c) of
             (PyRaise e, ixs) \<Rightarrow>
               if e = DuplicateKeyError then
                 (case CollectionHandle_tombstone_record (int offset) data of
                    (PyOk _, data') \<Rightarrow> (PyRaise DuplicateKeyError, \<lparr>co_data = data', co_indexes = ixs\<rparr>)
                  | (r, data') \<Rightarrow> (r, \<lparr>co_data = data', co_indexes = ixs\<rparr>))
               else (PyRaise e, \<lparr>co_data = data, co_indexes = ixs\<rparr>)
           | (r, ixs) \<Rightarrow> (r, \<lparr>co_data = data, co_indexes = ixs\<rparr>))
      | (r, data) \<Rightarrow> (py_raise r, c\<lparr>co_data := data\<rparr>))"

definition id_key :: pyval where
  "id_key = PyStr [95, 105, 100]"

definition with_id :: "pyval \<Rightarrow> doc \<Rightarrow> doc" where
  "with_id new_id document = (if id_key \<in> set (map fst document) then document else PyDict_SetItem document id_key new_id)"

definition insert_one ::
    "os_calls \<Rightarrow> (py_datetime \<Rightarrow> int) \<Rightarrow> (nat \<Rightarrow> bool) \<Rightarrow> pyval \<Rightarrow> doc \<Rightarrow> coll \<Rightarrow> unit py \<times> coll" where
  "insert_one os tz alloc new_id document c =
     (let doc = PyDict (with_id new_id document) in
      case py_encode alloc doc of
        PyOk raw \<Rightarrow> add_document os tz doc raw c
      | r \<Rightarrow> (py_raise r, c))"

text \<open>A full scan: the offsets and documents that match the filter.\<close>

fun scan_docs :: "(pyval \<Rightarrow> bool py) \<Rightarrow> nat \<Rightarrow> int \<Rightarrow> collection_handle \<Rightarrow> (nat \<times> pyval) list py" where
  "scan_docs p 0 prev h = PyDiverge"
| "scan_docs p (Suc fuel) prev h =
     (case CollectionHandle_next_live_offset prev h of
        (PyOk None, h') \<Rightarrow> PyOk []
      | (PyOk (Some offset), h') \<Rightarrow> (case CollectionHandle_read_record (int offset) h' of
            (PyOk None, h'') \<Rightarrow> scan_docs p fuel (int offset) h''
          | (PyOk (Some raw), h'') \<Rightarrow>
              py_bind (py_decode raw) (\<lambda>doc.
              py_bind (p doc) (\<lambda>matching.
              py_bind (scan_docs p fuel (int offset) h'') (\<lambda>rest.
              PyOk (if matching then (offset, doc) # rest else rest))))
          | (r, h'') \<Rightarrow> py_raise r)
      | (r, h') \<Rightarrow> py_raise r)"

text \<open>The documents at the offsets that an index has found; the filter is checked again.\<close>

fun read_docs :: "(pyval \<Rightarrow> bool py) \<Rightarrow> nat list \<Rightarrow> collection_handle \<Rightarrow> (nat \<times> pyval) list py" where
  "read_docs p [] h = PyOk []"
| "read_docs p (offset # offsets) h =
     (case CollectionHandle_read_record (int offset) h of
        (PyOk None, h') \<Rightarrow> read_docs p offsets h'
      | (PyOk (Some raw), h') \<Rightarrow>
          py_bind (py_decode raw) (\<lambda>doc.
          py_bind (p doc) (\<lambda>matching.
          py_bind (read_docs p offsets h') (\<lambda>rest.
          PyOk (if matching then (offset, doc) # rest else rest))))
      | (r, h') \<Rightarrow> py_raise r)"

text \<open>
  \<^verbatim>\<open>_index_lookup_for_filter\<close>: the candidates of the first index on the field of the filter's one
  equality, or \<open>None\<close> where a full scan is needed.
\<close>

definition eq_clause :: "pyval \<Rightarrow> (nat list \<times> pyval) option" where
  "eq_clause filt = (case filt of
     PyDict [(PyStr fld, condition)] \<Rightarrow>
       if starts_with_dollar fld then None
       else (case condition of
           PyDict ops \<Rightarrow> (case ops of [(op, v)] \<Rightarrow> if op = PyStr (str ''$eq'') then Some (fld, v) else None | _ \<Rightarrow> None)
         | v \<Rightarrow> Some (fld, v))
   | _ \<Rightarrow> None)"

fun lookup_eq :: "(py_datetime \<Rightarrow> int) \<Rightarrow> (nat \<Rightarrow> bool) \<Rightarrow> nat list \<Rightarrow> pyval \<Rightarrow> indexes \<Rightarrow> nat list option py" where
  "lookup_eq tz alloc fld value [] = PyOk None"
| "lookup_eq tz alloc fld value ((fp, h) # ixs) =
     (if fp \<noteq> fld then lookup_eq tz alloc fld value ixs
      else case encode_btree_key tz value of
        PyOk key \<Rightarrow> py_bind (fst (IndexHandle_lookup alloc key h)) (\<lambda>offsets. PyOk (Some offsets))
      | PyRaise e \<Rightarrow> if e \<in> {BSONNotImplementedError, OverflowError, ValueError, UnicodeError} then PyOk None else PyRaise e
      | r \<Rightarrow> py_raise r)"

definition index_lookup_for_filter ::
    "(py_datetime \<Rightarrow> int) \<Rightarrow> (nat \<Rightarrow> bool) \<Rightarrow> pyval \<Rightarrow> indexes \<Rightarrow> nat list option py" where
  "index_lookup_for_filter tz alloc filt ixs =
     (case eq_clause filt of None \<Rightarrow> PyOk None | Some (fld, value) \<Rightarrow> lookup_eq tz alloc fld value ixs)"

text \<open>\<^verbatim>\<open>filter or {}\<close>.\<close>

fun py_truth :: "pyval \<Rightarrow> bool" where
  "py_truth PyNone = False"
| "py_truth (PyBool b) = b"
| "py_truth (PyInt i) = (i \<noteq> 0)"
| "py_truth (PyFloat w) = (double_rank w \<noteq> 0)"
| "py_truth (PyStr s) = (s \<noteq> [])"
| "py_truth (PyBytes bs) = (bs \<noteq> [])"
| "py_truth (PyByteArray bs) = (bs \<noteq> [])"
| "py_truth (PyDict items) = (items \<noteq> [])"
| "py_truth (PyList xs) = (xs \<noteq> [])"
| "py_truth (PyTuple xs) = (xs \<noteq> [])"
| "py_truth _ = True"

text \<open>\<^verbatim>\<open>_iter_matches\<close>: the filter is tried on the empty document first.\<close>

definition resolved_filter :: "pyval \<Rightarrow> pyval" where
  "resolved_filter filt = (if py_truth filt then filt else PyDict [])"

definition iter_matches ::
    "(py_datetime \<Rightarrow> int) \<Rightarrow> (nat \<Rightarrow> bool) \<Rightarrow> nat \<Rightarrow> pyval \<Rightarrow> coll \<Rightarrow> (nat \<times> pyval) list py" where
  "iter_matches tz alloc fuel filt c =
     (let f = resolved_filter filt in
      py_bind (matches (PyDict []) f) (\<lambda>_.
      py_bind (index_lookup_for_filter tz alloc f (co_indexes c)) (\<lambda>indexed.
      case indexed of
        Some offsets \<Rightarrow> read_docs (\<lambda>doc. matches doc f) offsets (co_data c)
      | None \<Rightarrow> scan_docs (\<lambda>doc. matches doc f) fuel (-1) (co_data c))))"

text \<open>Deleting all documents that match, once they are gathered.\<close>

fun delete_targets :: "(py_datetime \<Rightarrow> int) \<Rightarrow> (nat \<times> pyval) list \<Rightarrow> coll \<Rightarrow> unit py \<times> coll" where
  "delete_targets tz [] c = (PyOk (), c)"
| "delete_targets tz ((offset, doc) # targets) c =
     (case CollectionHandle_tombstone_record (int offset) (co_data c) of
        (PyOk _, data) \<Rightarrow> (case index_update_for_delete tz doc offset (co_indexes c) of
            (PyOk _, ixs) \<Rightarrow> delete_targets tz targets \<lparr>co_data = data, co_indexes = ixs\<rparr>
          | (r, ixs) \<Rightarrow> (r, \<lparr>co_data = data, co_indexes = ixs\<rparr>))
      | (r, data) \<Rightarrow> (r, c\<lparr>co_data := data\<rparr>))"

definition delete_many ::
    "(py_datetime \<Rightarrow> int) \<Rightarrow> (nat \<Rightarrow> bool) \<Rightarrow> nat \<Rightarrow> pyval \<Rightarrow> coll \<Rightarrow> nat py \<times> coll" where
  "delete_many tz alloc fuel filt c =
     (case iter_matches tz alloc fuel filt c of
        PyOk targets \<Rightarrow> (case delete_targets tz targets c of
            (PyOk _, c') \<Rightarrow> (PyOk (length targets), c')
          | (r, c') \<Rightarrow> (py_raise r, c'))
      | r \<Rightarrow> (py_raise r, c))"

text \<open>
  \<^verbatim>\<open>_apply_single_update\<close>: a document is never rewritten in place. The old record is dead before
  the indexes are asked; the result is the number of modified documents.
\<close>

definition apply_single_update ::
    "os_calls \<Rightarrow> (py_datetime \<Rightarrow> int) \<Rightarrow> (nat \<Rightarrow> bool) \<Rightarrow> nat \<Rightarrow> pyval \<Rightarrow> pyval \<Rightarrow> coll \<Rightarrow> nat py \<times> coll" where
  "apply_single_update os tz alloc offset old_doc new_doc c =
     (case py_bind (py_encode alloc old_doc) (\<lambda>old_bytes.
            py_bind (py_encode alloc new_doc) (\<lambda>new_bytes. PyOk (old_bytes, new_bytes))) of
        PyOk (old_bytes, new_bytes) \<Rightarrow>
          if new_bytes = old_bytes then (PyOk 0, c)
          else (case CollectionHandle_tombstone_record (int offset) (co_data c) of
              (PyOk _, data) \<Rightarrow> (case CollectionHandle_append_record os new_bytes data of
                  (PyOk new_offset, data) \<Rightarrow> (case index_update_for_delete tz old_doc offset (co_indexes c) of
                      (PyOk _, ixs) \<Rightarrow> (case index_update_for_insert os tz new_doc new_offset [] ixs of
                          (PyOk _, ixs) \<Rightarrow> (PyOk 1, \<lparr>co_data = data, co_indexes = ixs\<rparr>)
                        | (PyRaise e, ixs) \<Rightarrow>
                            if e = DuplicateKeyError then
                              (case CollectionHandle_tombstone_record (int new_offset) data of
                                 (PyOk _, data) \<Rightarrow> (PyRaise DuplicateKeyError, \<lparr>co_data = data, co_indexes = ixs\<rparr>)
                               | (r, data) \<Rightarrow> (py_raise r, \<lparr>co_data = data, co_indexes = ixs\<rparr>))
                            else (PyRaise e, \<lparr>co_data = data, co_indexes = ixs\<rparr>)
                        | (r, ixs) \<Rightarrow> (py_raise r, \<lparr>co_data = data, co_indexes = ixs\<rparr>))
                    | (r, ixs) \<Rightarrow> (py_raise r, \<lparr>co_data = data, co_indexes = ixs\<rparr>))
                | (r, data) \<Rightarrow> (py_raise r, c\<lparr>co_data := data\<rparr>))
            | (r, data) \<Rightarrow> (py_raise r, c\<lparr>co_data := data\<rparr>))
      | r \<Rightarrow> (py_raise r, c))"

section \<open>Building an index\<close>

text \<open>
  \<^verbatim>\<open>create_index\<close> of a file that is not there yet: the tag of the first value that is not \<^verbatim>\<open>None\<close>, and an
  entry for every document. The result is the filled file before it is closed; after an exception
  the file is removed.
\<close>

fun first_tag :: "(py_datetime \<Rightarrow> int) \<Rightarrow> nat list \<Rightarrow> (nat \<times> pyval) list \<Rightarrow> byte py" where
  "first_tag tz fp [] = PyOk BSON_BTREE_TAG_NULL"
| "first_tag tz fp ((offset, doc) # docs) = (case resolve_index_value doc fp of
     PyNone \<Rightarrow> first_tag tz fp docs
   | v \<Rightarrow> py_bind (encode_btree_key tz v) (\<lambda>key. PyOk (key ! 0)))"

fun fill_index ::
    "os_calls \<Rightarrow> (py_datetime \<Rightarrow> int) \<Rightarrow> nat list \<Rightarrow> (nat \<times> pyval) list \<Rightarrow> index_handle \<Rightarrow> index_handle py" where
  "fill_index os tz fp [] h = PyOk h"
| "fill_index os tz fp ((offset, doc) # docs) h =
     py_bind (index_key tz doc fp) (\<lambda>key.
     case IndexHandle_insert os key (int offset) h of
       (PyOk _, h') \<Rightarrow> fill_index os tz fp docs h'
     | (r, h') \<Rightarrow> py_raise r)"

definition create_index ::
    "os_calls \<Rightarrow> (py_datetime \<Rightarrow> int) \<Rightarrow> nat \<Rightarrow> nat list \<Rightarrow> bool \<Rightarrow> bool \<Rightarrow> coll \<Rightarrow> index_handle py" where
  "create_index os tz fuel fp unique descending c =
     py_bind (scan_docs (\<lambda>doc. matches doc (PyDict [])) fuel (-1) (co_data c)) (\<lambda>docs.
     py_bind (first_tag tz fp docs) (\<lambda>key_type_tag.
     case PyUnicode_AsUTF8AndSize fp of
       None \<Rightarrow> PyRaise UnicodeError
     | Some field_path \<Rightarrow>
         if 0 \<in> set field_path then PyRaise ValueError
         else py_bind (py_create_index_file os field_path (unat key_type_tag) unique descending []) (\<lambda>handle.
         py_bind (fill_index os tz fp docs handle) (\<lambda>handle.
         py_bind (fst (IndexHandle_flush os handle)) (\<lambda>_.
         PyOk handle)))))"

section \<open>Compaction\<close>

text \<open>
  The data file of \<^verbatim>\<open>compact\<close>: the live records are appended to a new file, which then takes the place
  of the old one. The indexes are dropped and built again (\<open>create_index\<close>).
\<close>

fun compact_copy :: "os_calls \<Rightarrow> nat \<Rightarrow> int \<Rightarrow> collection_handle \<Rightarrow> collection_handle \<Rightarrow> unit py \<times> collection_handle" where
  "compact_copy os 0 prev h tmp = (PyDiverge, tmp)"
| "compact_copy os (Suc fuel) prev h tmp =
     (case CollectionHandle_next_live_offset prev h of
        (PyOk None, h') \<Rightarrow> (PyOk (), tmp)
      | (PyOk (Some offset), h') \<Rightarrow> (case CollectionHandle_read_record (int offset) h' of
            (PyOk None, h'') \<Rightarrow> compact_copy os fuel (int offset) h'' tmp
          | (PyOk (Some raw), h'') \<Rightarrow> (case CollectionHandle_append_record os raw tmp of
                (PyOk _, tmp') \<Rightarrow> compact_copy os fuel (int offset) h'' tmp'
              | (r, tmp') \<Rightarrow> (py_raise r, tmp'))
          | (r, h'') \<Rightarrow> (py_raise r, tmp))
      | (r, h') \<Rightarrow> (py_raise r, tmp))"

definition compact_data :: "os_calls \<Rightarrow> nat \<Rightarrow> collection_handle \<Rightarrow> byte list py" where
  "compact_data os fuel h =
     py_bind (py_open_collection os []) (\<lambda>tmp_handle.
     case compact_copy os fuel (-1) h tmp_handle of
       (PyOk _, tmp_handle') \<Rightarrow> (case CollectionHandle_close os tmp_handle' of
           (PyOk _, ClosedCollection disk) \<Rightarrow> PyOk disk
         | (r, _) \<Rightarrow> py_raise r)
     | (r, tmp_handle') \<Rightarrow> py_raise r)"

end
