(* ===== verification/Collection_Content.thy ===== *)
theory Collection_Content
  imports Document_Collection
begin

text \<open>
  What a collection holds, as a list of documents with their offsets, and how every step of
  Document_Collection changes that list: the records of the data file, the entries of each unique
  index, and the two together.
\<close>

section \<open>The documents of a data file\<close>

definition decoded :: "byte list \<Rightarrow> pyval" where
  "decoded raw = (case py_decode raw of PyOk x \<Rightarrow> x | _ \<Rightarrow> PyNone)"

definition live_from :: "log_record list \<Rightarrow> nat \<Rightarrow> (nat \<times> pyval) list" where
  "live_from rs k = map (\<lambda>i. (rec_off rs i, decoded (snd (rs ! i)))) (filter (\<lambda>i. fst (rs ! i)) [k..<length rs])"

text \<open>The data file holds the documents \<open>L\<close> at their offsets, and ends at \<open>E\<close>.\<close>

definition holds_docs :: "collection_handle \<Rightarrow> (nat \<times> pyval) list \<Rightarrow> nat \<Rightarrow> bool" where
  "holds_docs h L E \<longleftrightarrow> (\<exists>rs. holds_log h rs \<and> E = rec_off rs (length rs) \<and> L = live_from rs 0 \<and>
     (\<forall>r \<in> set rs. fst r \<longrightarrow> py_decode (snd r) = PyOk (decoded (snd r))))"

lemma rec_off_less: "i < j \<Longrightarrow> j \<le> length rs \<Longrightarrow> rec_off rs i < rec_off rs j"
proof (induction j)
  case (Suc j)
  then show ?case using rec_off_Suc [of j rs] by (cases "i = j") simp_all
qed simp

lemma rec_off_inj: "i < length rs \<Longrightarrow> j < length rs \<Longrightarrow> rec_off rs i = rec_off rs j \<longleftrightarrow> i = j"
  using rec_off_less [of i j rs] rec_off_less [of j i rs] by (cases i j rule: linorder_cases) auto

lemma rec_off_ge: "k \<le> length rs \<Longrightarrow> 64 + k \<le> rec_off rs k"
proof (induction k)
  case (Suc k)
  then show ?case using rec_off_Suc [of k rs] by simp
qed (simp add: rec_off_def)

lemma live_from_mem:
  "(off, x) \<in> set (live_from rs k) \<longleftrightarrow>
     (\<exists>i. k \<le> i \<and> i < length rs \<and> fst (rs ! i) \<and> off = rec_off rs i \<and> x = decoded (snd (rs ! i)))"
  by (auto simp: live_from_def)

lemma live_from_first:
  "live_from rs k = (case first_live rs k of None \<Rightarrow> []
     | Some j \<Rightarrow> (rec_off rs j, decoded (snd (rs ! j))) # live_from rs (Suc j))"
proof (induction "length rs - k" arbitrary: k)
  case 0
  then show ?case by (simp add: live_from_def)
next
  case (Suc n)
  then have k: "k < length rs" by simp
  then have "live_from rs k =
      (if fst (rs ! k) then (rec_off rs k, decoded (snd (rs ! k))) # live_from rs (Suc k) else live_from rs (Suc k))"
    by (simp add: live_from_def upt_conv_Cons)
  then show ?case using Suc.hyps(1) [of "Suc k"] Suc.hyps(2) k by (simp add: first_live_step)
qed

lemma live_from_append: "live_from (rs @ [(True, d)]) 0 = live_from rs 0 @ [(rec_off rs (length rs), decoded d)]"
  by (auto simp: live_from_def nth_append rec_off_append intro!: map_cong filter_cong)

lemma live_from_kill:
  assumes "i < length rs"
  shows "live_from (rs[i := (False, snd (rs ! i))]) 0 = filter (\<lambda>p. fst p \<noteq> rec_off rs i) (live_from rs 0)"
proof -
  have addr: "rec_off (rs[i := (False, snd (rs ! i))]) j = rec_off rs j" for j
    using collection.addr_update [OF assms] .
  have "filter (\<lambda>j. fst (rs[i := (False, snd (rs ! i))] ! j)) [0..<length rs] =
      filter (\<lambda>j. rec_off rs j \<noteq> rec_off rs i) (filter (\<lambda>j. fst (rs ! j)) [0..<length rs])"
    using assms by (auto simp: rec_off_inj nth_list_update intro!: filter_cong)
  moreover have "snd (rs[i := (False, snd (rs ! i))] ! j) = snd (rs ! j)" for j
    using assms by (cases "i = j") simp_all
  ultimately show ?thesis by (simp add: live_from_def addr filter_map comp_def)
qed

lemma holds_docs_offsets:
  assumes "holds_docs h L E"
  shows "sorted (map fst L)" "distinct (map fst L)" "(off, x) \<in> set L \<Longrightarrow> off < E"
proof -
  obtain rs where rs: "E = rec_off rs (length rs)" "L = live_from rs 0" using assms by (auto simp: holds_docs_def)
  have m: "map fst L = map (rec_off rs) (filter (\<lambda>i. fst (rs ! i)) [0..<length rs])" by (simp add: rs(2) live_from_def)
  show "distinct (map fst L)" unfolding m by (auto simp: distinct_map inj_on_def rec_off_inj)
  have "rec_off rs i \<le> rec_off rs j" if "i \<le> j" "j < length rs" for i j
    using that rec_off_less [of i j rs] by (cases "i = j") simp_all
  then have "sorted (map (rec_off rs) [0..<length rs])" by (auto simp: sorted_iff_nth_mono)
  then show "sorted (map fst L)" unfolding m by (rule sorted_filter)
  show "(off, x) \<in> set L \<Longrightarrow> off < E" using rs rec_off_less [of _ "length rs" rs] by (auto simp: live_from_mem)
qed

lemma append_docs:
  assumes "holds_docs h L E" "doc_framed raw" "py_decode raw = PyOk x" "E < 2 ^ 37"
  obtains (ok) h' E' where "CollectionHandle_append_record os raw h = (PyOk E, h')" "holds_docs h' (L @ [(E, x)]) E'"
      "E' = E + 1 + length raw"
  | (io) h' where "CollectionHandle_append_record os raw h = (PyRaise OSError, h')" "\<not> os_all_succeed os"
proof -
  obtain rs where rs: "holds_log h rs" "E = rec_off rs (length rs)" "L = live_from rs 0"
    "\<forall>r \<in> set rs. fst r \<longrightarrow> py_decode (snd r) = PyOk (decoded (snd r))" using assms(1) by (auto simp: holds_docs_def)
  have "length raw \<le> BSON_MAX_DOCUMENT_SIZE" using assms(2) by (simp add: doc_framed_def)
  then have fits: "fits_log rs raw"
    using assms(2,4) rs(2) by (simp add: fits_log_def rec_off_end BSON_MAX_DOCUMENT_SIZE_def)
  show thesis
    using rs(1) fits
  proof (cases rule: append_record_holds [where os = os])
    case (ok h')
    have "rec_off (rs @ [(True, raw)]) (length (rs @ [(True, raw)])) = E + 1 + length raw"
      using rec_off_Suc [of "length rs" "rs @ [(True, raw)]"] rec_off_append [of "length rs" rs] rs(2) by simp
    moreover have "decoded raw = x" using assms(3) by (simp add: decoded_def)
    ultimately have "holds_docs h' (L @ [(E, x)]) (E + 1 + length raw)"
      unfolding holds_docs_def using ok(2) rs(2-4) assms(3)
      by (intro exI [of _ "rs @ [(True, raw)]"]) (simp add: live_from_append)
    then show thesis using that(1) ok(1) rs(2) by simp
  next
    case (io h')
    then show thesis using that(2) by blast
  qed
qed

lemma tombstone_docs:
  assumes "holds_docs h L E" "(off, x) \<in> set L"
  shows "\<exists>h'. CollectionHandle_tombstone_record (int off) h = (PyOk (), h') \<and>
    holds_docs h' (filter (\<lambda>p. fst p \<noteq> off) L) E"
proof -
  obtain rs where rs: "holds_log h rs" "E = rec_off rs (length rs)" "L = live_from rs 0"
    "\<forall>r \<in> set rs. fst r \<longrightarrow> py_decode (snd r) = PyOk (decoded (snd r))" using assms(1) by (auto simp: holds_docs_def)
  obtain i where i: "i < length rs" "off = rec_off rs i" using assms(2) rs(3) by (auto simp: live_from_mem)
  obtain h' where h': "CollectionHandle_tombstone_record (int off) h = (PyOk (), h')"
    "holds_log h' (rs[i := (False, snd (rs ! i))])"
    using tombstone_record_holds [OF rs(1) i(1)] i(2) by blast
  have "holds_docs h' (filter (\<lambda>p. fst p \<noteq> off) L) E"
    unfolding holds_docs_def using h'(2) rs(2-4) i live_from_kill [OF i(1)] collection.addr_update [OF i(1)]
    by (intro exI [of _ "rs[i := (False, snd (rs ! i))]"]) (auto dest: set_update_subset_insert [THEN subsetD])
  then show ?thesis using h'(1) by blast
qed

lemma read_doc:
  assumes "holds_docs h L E" "(off, x) \<in> set L"
  obtains raw where "CollectionHandle_read_record (int off) h = (PyOk (Some raw), h)" "py_decode raw = PyOk x"
proof -
  obtain rs where rs: "holds_log h rs" "L = live_from rs 0"
    "\<forall>r \<in> set rs. fst r \<longrightarrow> py_decode (snd r) = PyOk (decoded (snd r))" using assms(1) by (auto simp: holds_docs_def)
  obtain i where i: "i < length rs" "fst (rs ! i)" "off = rec_off rs i" "x = decoded (snd (rs ! i))"
    using assms(2) rs(2) by (auto simp: live_from_mem)
  then show thesis using that [of "snd (rs ! i)"] read_record_holds [OF rs(1) i(1)] rs(3) by simp
qed

lemma scan_log_docs:
  assumes "holds_log h rs" "\<forall>r \<in> set rs. fst r \<longrightarrow> py_decode (snd r) = PyOk (decoded (snd r))"
    "CollectionHandle_next_live_offset prev h = (PyOk (map_option (rec_off rs) (first_live rs k)), h)" "k \<le> length rs"
    "length rs - k < fuel" "\<forall>(off, x) \<in> set (live_from rs k). p x = PyOk (q x)"
  shows "scan_docs p fuel prev h = PyOk (filter (\<lambda>d. q (snd d)) (live_from rs k))"
  using assms(3-6)
proof (induction fuel arbitrary: prev k)
  case (Suc fuel)
  show ?case
  proof (cases "first_live rs k")
    case None
    then show ?thesis using Suc.prems(1) live_from_first [of rs k] by simp
  next
    case (Some j)
    then have j: "k \<le> j" "j < length rs" "fst (rs ! j)" using first_live_Some [OF Some] by simp_all
    have l: "live_from rs k = (rec_off rs j, decoded (snd (rs ! j))) # live_from rs (Suc j)"
      using live_from_first [of rs k] Some by simp
    have "scan_docs p fuel (int (rec_off rs j)) h = PyOk (filter (\<lambda>d. q (snd d)) (live_from rs (Suc j)))"
      by (rule Suc.IH [OF next_live_offset_holds(2) [OF assms(1) j(2)]]) (use j Suc.prems l in simp_all)
    then show ?thesis
      using Some Suc.prems(1,4) read_record_holds [OF assms(1) j(2)] j assms(2) l by simp
  qed
qed simp

lemma scan_holds_docs:
  assumes "holds_docs h L E" "E \<le> fuel" "\<forall>(off, x) \<in> set L. p x = PyOk (q x)"
  shows "scan_docs p fuel (-1) h = PyOk (filter (\<lambda>d. q (snd d)) L)"
proof -
  obtain rs where rs: "holds_log h rs" "E = rec_off rs (length rs)" "L = live_from rs 0"
    "\<forall>r \<in> set rs. fst r \<longrightarrow> py_decode (snd r) = PyOk (decoded (snd r))" using assms(1) by (auto simp: holds_docs_def)
  have "length rs < fuel" using rec_off_ge [of "length rs" rs] rs(2) assms(2) by simp
  then show ?thesis using scan_log_docs [OF rs(1,4) next_live_offset_holds(1) [OF rs(1)], of fuel p q] rs(3) assms(3) by simp
qed

lemma read_holds_docs:
  assumes "holds_docs h L E" "set offs \<subseteq> fst ` set L" "\<forall>(off, x) \<in> set L. p x = PyOk (q x)"
  shows "read_docs p offs h = PyOk (filter (\<lambda>d. q (snd d)) (map (\<lambda>off. (off, the (map_of L off))) offs))"
  using assms(2)
proof (induction offs)
  case (Cons off offs)
  then obtain x where x: "(off, x) \<in> set L" by auto
  obtain raw where "CollectionHandle_read_record (int off) h = (PyOk (Some raw), h)" "py_decode raw = PyOk x"
    using read_doc [OF assms(1) x] .
  moreover have "map_of L off = Some x" using holds_docs_offsets(2) [OF assms(1)] x by simp
  moreover have "p x = PyOk (q x)" using assms(3) x by auto
  ultimately show ?case using Cons by simp
qed simp

section \<open>The entries of an index\<close>

definition keyed :: "(py_datetime \<Rightarrow> int) \<Rightarrow> nat list \<Rightarrow> pyval \<Rightarrow> key \<Rightarrow> bool" where
  "keyed tz fp x k \<longleftrightarrow> index_key tz x fp = PyOk k \<and> key_ok k"

definition doc_rank :: "(py_datetime \<Rightarrow> int) \<Rightarrow> nat list \<Rightarrow> pyval \<Rightarrow> int list option" where
  "doc_rank tz fp x = (case index_key tz x fp of PyOk k \<Rightarrow> Some (key_rank k) | _ \<Rightarrow> None)"

text \<open>Another document of the list has the key of this one.\<close>

definition conflict :: "(py_datetime \<Rightarrow> int) \<Rightarrow> nat list \<Rightarrow> pyval \<Rightarrow> (nat \<times> pyval) list \<Rightarrow> bool" where
  "conflict tz fp x L \<longleftrightarrow> (\<exists>(off, y) \<in> set L. doc_rank tz fp y = doc_rank tz fp x)"

text \<open>A finite map of ranks to offsets has exactly the keys of the documents.\<close>

definition maps_docs :: "(py_datetime \<Rightarrow> int) \<Rightarrow> nat list \<Rightarrow> (nat \<times> pyval) list \<Rightarrow> index_map \<Rightarrow> bool" where
  "maps_docs tz fp L M \<longleftrightarrow>
     (\<forall>(off, x) \<in> set L. \<exists>k. keyed tz fp x k \<and> M (key_rank k) = Some off) \<and>
     (\<forall>r off. M r = Some off \<longrightarrow> (\<exists>x. (off, x) \<in> set L \<and> doc_rank tz fp x = Some r))"

text \<open>The unique index on a field holds the documents \<open>L\<close> of a data file that ends at \<open>E\<close>.\<close>

definition index_of :: "(py_datetime \<Rightarrow> int) \<Rightarrow> nat \<Rightarrow> (nat \<times> pyval) list \<Rightarrow> nat list \<times> index_handle \<Rightarrow> bool" where
  "index_of tz E L ix \<longleftrightarrow> (\<exists>M used. holds_map (snd ix) M used \<and> used \<subseteq> {..<E} \<and> maps_docs tz (fst ix) L M)"

lemma doc_rank_keyed: "keyed tz fp x k \<Longrightarrow> doc_rank tz fp x = Some (key_rank k)"
  by (simp add: keyed_def doc_rank_def)

lemma maps_docsD:
  assumes "maps_docs tz fp L M"
  shows "(off, x) \<in> set L \<Longrightarrow> \<exists>k. keyed tz fp x k \<and> M (key_rank k) = Some off"
    and "M r = Some off \<Longrightarrow> \<exists>x. (off, x) \<in> set L \<and> doc_rank tz fp x = Some r"
  using assms by (auto simp: maps_docs_def)

lemma maps_docsI:
  assumes "\<And>off x. (off, x) \<in> set L \<Longrightarrow> \<exists>k. keyed tz fp x k \<and> M (key_rank k) = Some off"
    and "\<And>r off. M r = Some off \<Longrightarrow> \<exists>x. (off, x) \<in> set L \<and> doc_rank tz fp x = Some r"
  shows "maps_docs tz fp L M"
  using assms by (auto simp: maps_docs_def)

lemma maps_docs_offset:
  assumes "maps_docs tz fp L M" "(off, x) \<in> set L" "doc_rank tz fp x = Some r"
  shows "M r = Some off"
proof -
  obtain k where "keyed tz fp x k" "M (key_rank k) = Some off" using maps_docsD(1) [OF assms(1,2)] by blast
  then show ?thesis using doc_rank_keyed assms(3) by fastforce
qed

lemma maps_docs_none:
  assumes "maps_docs tz fp L M" "keyed tz fp x k"
  shows "M (key_rank k) = None \<longleftrightarrow> \<not> conflict tz fp x L"
proof
  assume none: "M (key_rank k) = None"
  show "\<not> conflict tz fp x L"
  proof
    assume "conflict tz fp x L"
    then obtain off y where "(off, y) \<in> set L" "doc_rank tz fp y = Some (key_rank k)"
      using doc_rank_keyed [OF assms(2)] by (auto simp: conflict_def)
    then show False using maps_docs_offset [OF assms(1)] none by simp
  qed
next
  assume free: "\<not> conflict tz fp x L"
  show "M (key_rank k) = None"
  proof (cases "M (key_rank k)")
    case (Some off)
    then obtain y where "(off, y) \<in> set L" "doc_rank tz fp y = Some (key_rank k)"
      using maps_docsD(2) [OF assms(1)] by blast
    then show ?thesis using free doc_rank_keyed [OF assms(2)] by (auto simp: conflict_def)
  qed
qed

lemma maps_docs_add:
  assumes M: "maps_docs tz fp L M" and k: "keyed tz fp x k" and none: "M (key_rank k) = None"
  shows "maps_docs tz fp (L @ [(off, x)]) (M(key_rank k \<mapsto> off))"
proof (rule maps_docsI)
  fix o' y assume "(o', y) \<in> set (L @ [(off, x)])"
  then consider "(o', y) \<in> set L" | "o' = off" "y = x" by auto
  then show "\<exists>k'. keyed tz fp y k' \<and> (M(key_rank k \<mapsto> off)) (key_rank k') = Some o'"
  proof cases
    case 1
    then obtain k' where "keyed tz fp y k'" "M (key_rank k') = Some o'" using maps_docsD(1) [OF M] by blast
    then show ?thesis using none by (intro exI [of _ k']) auto
  next
    case 2
    then show ?thesis using k by auto
  qed
next
  fix r o' assume r: "(M(key_rank k \<mapsto> off)) r = Some o'"
  show "\<exists>y. (o', y) \<in> set (L @ [(off, x)]) \<and> doc_rank tz fp y = Some r"
  proof (cases "r = key_rank k")
    case True
    then show ?thesis using r doc_rank_keyed [OF k] by (intro exI [of _ x]) simp
  next
    case False
    then obtain y where "(o', y) \<in> set L" "doc_rank tz fp y = Some r" using r maps_docsD(2) [OF M, of r o'] by auto
    then show ?thesis by (intro exI [of _ y]) simp
  qed
qed

lemma maps_docs_remove:
  assumes M: "maps_docs tz fp L M" and k: "keyed tz fp x k" and x: "(off, x) \<in> set L" and d: "distinct (map fst L)"
  shows "maps_docs tz fp (filter (\<lambda>p. fst p \<noteq> off) L) (M(key_rank k := None))" "M (key_rank k) = Some off"
proof -
  show off: "M (key_rank k) = Some off" by (rule maps_docs_offset [OF M x doc_rank_keyed [OF k]])
  show "maps_docs tz fp (filter (\<lambda>p. fst p \<noteq> off) L) (M(key_rank k := None))"
  proof (rule maps_docsI)
    fix o' y assume "(o', y) \<in> set (filter (\<lambda>p. fst p \<noteq> off) L)"
    then have y: "(o', y) \<in> set L" "o' \<noteq> off" by auto
    then obtain k' where "keyed tz fp y k'" "M (key_rank k') = Some o'" using maps_docsD(1) [OF M] by blast
    then show "\<exists>k'. keyed tz fp y k' \<and> (M(key_rank k := None)) (key_rank k') = Some o'"
      using off y(2) by (intro exI [of _ k']) auto
  next
    fix r o' assume "(M(key_rank k := None)) r = Some o'"
    then have r: "r \<noteq> key_rank k" "M r = Some o'" by (simp_all split: if_splits)
    then obtain y where y: "(o', y) \<in> set L" "doc_rank tz fp y = Some r" using maps_docsD(2) [OF M] by blast
    have "o' \<noteq> off"
    proof
      assume "o' = off"
      then have "y = x" using y(1) x d eq_key_imp_eq_value by metis
      then show False using y(2) r(1) doc_rank_keyed [OF k] by simp
    qed
    then show "\<exists>y. (o', y) \<in> set (filter (\<lambda>p. fst p \<noteq> off) L) \<and> doc_rank tz fp y = Some r"
      using y by (intro exI [of _ y]) simp
  qed
qed

lemma index_of_mono: "index_of tz E L ix \<Longrightarrow> E \<le> E' \<Longrightarrow> index_of tz E' L ix"
  unfolding index_of_def by (meson lessThan_subset_iff subset_trans)

lemma used_card: "used \<subseteq> {..<E} \<Longrightarrow> card used \<le> (E :: nat)"
  using card_mono [of "{..<E}" used] by simp

lemma index_add:
  assumes ix: "index_of tz E L (fp, h)" and k: "keyed tz fp x k" and E: "E < 2 ^ 37" "E < E'"
  obtains (ok) h' where "IndexHandle_insert os k (int E) h = (PyOk (), h')" "index_of tz E' (L @ [(E, x)]) (fp, h')"
      "\<not> conflict tz fp x L"
  | (dup) "IndexHandle_insert os k (int E) h = (PyRaise DuplicateKeyError, h)" "conflict tz fp x L"
  | (io) h' where "IndexHandle_insert os k (int E) h = (PyRaise OSError, h')" "\<not> os_all_succeed os"
proof -
  obtain M used where M: "holds_map h M used" "used \<subseteq> {..<E}" "maps_docs tz fp L M" using ix by (auto simp: index_of_def)
  have key: "key_ok k" using k by (simp add: keyed_def)
  show thesis
  proof (cases "M (key_rank k) = None")
    case True
    have used: "E \<notin> used" "insert E used \<subseteq> {..<E'}" "card used < 2 ^ 37"
      using M(2) E used_card [OF M(2)] by auto
    from index.insert_law [OF M(1) key used(1) _ used(3) True, of os "\<lambda>_. True"] E(1)
    have "(\<exists>h'. IndexHandle_insert os k (int E) h = (PyOk (), h') \<and> holds_map h' (M(key_rank k \<mapsto> E)) (insert E used)) \<or>
        \<not> os_all_succeed os \<and> fst (IndexHandle_insert os k (int E) h) = PyRaise OSError"
      by simp
    then show thesis
    proof (elim disjE exE conjE)
      fix h' assume "IndexHandle_insert os k (int E) h = (PyOk (), h')" "holds_map h' (M(key_rank k \<mapsto> E)) (insert E used)"
      moreover from this(2) have "index_of tz E' (L @ [(E, x)]) (fp, h')"
        unfolding index_of_def using used(2) maps_docs_add [OF M(3) k True] by fastforce
      ultimately show thesis using ok maps_docs_none [OF M(3) k] True by blast
    next
      assume "\<not> os_all_succeed os" "fst (IndexHandle_insert os k (int E) h) = PyRaise OSError"
      then show thesis using io by (cases "IndexHandle_insert os k (int E) h") simp
    qed
  next
    case False
    have "IndexHandle_insert os k (int E) h = (PyRaise DuplicateKeyError, h)"
      by (rule index.duplicate_law [OF M(1) key False])
    then show thesis using dup maps_docs_none [OF M(3) k] False by blast
  qed
qed

lemma index_remove:
  assumes ix: "index_of tz E L (fp, h)" and k: "keyed tz fp x k" and x: "(off, x) \<in> set L" and d: "distinct (map fst L)"
    and off: "off < 2 ^ 64"
  shows "\<exists>h'. IndexHandle_delete_entry k (int off) h = (PyOk (), h') \<and> index_of tz E (filter (\<lambda>p. fst p \<noteq> off) L) (fp, h')"
proof -
  obtain M used where M: "holds_map h M used" "used \<subseteq> {..<E}" "maps_docs tz fp L M" using ix by (auto simp: index_of_def)
  note rm = maps_docs_remove [OF M(3) k x d]
  have "key_ok k" using k by (simp add: keyed_def)
  then obtain h' where "IndexHandle_delete_entry k (int off) h = (PyOk (), h')" "holds_map h' (M(key_rank k := None)) used"
    using index.delete_law [OF M(1) _ off, of k] rm(2) by auto
  then show ?thesis unfolding index_of_def using rm(1) M(2) by fastforce
qed

lemma index_find:
  assumes ix: "index_of tz E L (fp, h)" and k: "key_ok k"
  shows "(\<exists>offs. IndexHandle_lookup alloc k h = (PyOk offs, h) \<and> length offs \<le> 1 \<and>
      (\<forall>off \<in> set offs. \<exists>x. (off, x) \<in> set L \<and> doc_rank tz fp x = Some (key_rank k)) \<and>
      (\<forall>(off, x) \<in> set L. doc_rank tz fp x = Some (key_rank k) \<longrightarrow> off \<in> set offs)) \<or>
    \<not> (\<forall>n. alloc n) \<and> IndexHandle_lookup alloc k h = (PyRaise MemoryError, h)"
proof -
  obtain M used where M: "holds_map h M used" "maps_docs tz fp L M" using ix by (auto simp: index_of_def)
  have "IndexHandle_lookup alloc k h = (PyOk (offsets_of M k), h) \<or>
      \<not> (\<forall>n. alloc n) \<and> IndexHandle_lookup alloc k h = (PyRaise MemoryError, h)"
    using index.lookup_law [OF M(1) k, where os = perfect_os and alloc = alloc] by simp
  moreover have "\<forall>off \<in> set (offsets_of M k). \<exists>x. (off, x) \<in> set L \<and> doc_rank tz fp x = Some (key_rank k)"
    using M(2) by (auto simp: offsets_of_def maps_docs_def split: option.splits)
  moreover have "off \<in> set (offsets_of M k)" if "(off, x) \<in> set L" "doc_rank tz fp x = Some (key_rank k)" for off x
    using maps_docs_offset [OF M(2) that] by (simp add: offsets_of_def)
  moreover have "length (offsets_of M k) \<le> 1" by (simp add: offsets_of_def split: option.splits)
  ultimately show ?thesis by blast
qed

end
