(* ===== verification/Collection_Steps.thy ===== *)
theory Collection_Steps
  imports Collection_Content
begin

text \<open>
  The steps of a collection on its documents: the keys of a document are those of what its bytes
  decode to, all indexes take an entry or none does, and the operations keep data file and indexes
  together.
\<close>

section \<open>Keys of a document and of its bytes\<close>

text \<open>The indexed value has a key, which does not depend on the local time zone.\<close>

definition indexable :: "(py_datetime \<Rightarrow> int) \<Rightarrow> pyval \<Rightarrow> nat list \<Rightarrow> bool" where
  "indexable tz doc fp \<longleftrightarrow> (case resolve_index_value doc fp of
     PyDatetime d \<Rightarrow> dt_offset d = Naive
   | v \<Rightarrow> (case encode_btree_key tz v of PyOk k \<Rightarrow> True | _ \<Rightarrow> False))"

lemma map_of_norm: "map_of (norm_items items) k = map_option norm_val (map_of items k)"
  by (induction items) auto

lemma direct_value_norm: "direct_value (norm_val v) ss = map_option norm_val (direct_value v ss)"
proof (induction ss arbitrary: v)
  case (Cons s ss)
  show ?case
  proof (cases "\<exists>items. v = PyDict items")
    case True
    then obtain items where v: "v = PyDict items" ..
    then show ?thesis using Cons by (cases "map_of items (PyStr s)") (simp_all add: map_of_norm)
  next
    case False
    then show ?thesis by (cases v) (simp_all add: norm_val.simps)
  qed
qed simp

lemma resolve_norm: "resolve_index_value (norm_val doc) fp = norm_val (resolve_index_value doc fp)"
proof -
  have "norm_val PyNone = PyNone" by (simp add: norm_val.simps)
  then show ?thesis by (simp add: resolve_index_value_def direct_value_norm split: option.split)
qed

lemma naive_ms_cut: "naive_ms (d\<lparr>dt_microsecond := dt_microsecond d div 1000 * 1000, dt_offset := Naive\<rparr>) = naive_ms d"
  by (simp add: naive_ms_def)

lemma key_norm:
  assumes "indexable tz doc fp"
  shows "index_key tz (norm_val doc) fp = index_key tz doc fp" "\<exists>k. index_key tz doc fp = PyOk k"
proof -
  define v where "v = resolve_index_value doc fp"
  have "encode_btree_key tz (norm_val v) = encode_btree_key tz v"
  proof (cases v)
    case (PyDatetime d)
    then have "dt_offset d = Naive" using assms by (simp add: indexable_def v_def)
    then show ?thesis using PyDatetime by (simp add: norm_val.simps encode_btree_key_def datetime_key_ms_def naive_ms_cut)
  qed (simp_all add: norm_val.simps encode_btree_key_def)
  then show "index_key tz (norm_val doc) fp = index_key tz doc fp" by (simp add: index_key_def resolve_norm v_def)
  show "\<exists>k. index_key tz doc fp = PyOk k"
    using assms unfolding indexable_def index_key_def v_def [symmetric]
    by (cases v) (auto simp: encode_btree_key_def datetime_key_ms_def split: py.splits if_splits)
qed

lemma direct_value_canon: "direct_value v ss = Some u \<Longrightarrow> canon_val n v \<Longrightarrow> \<exists>m. canon_val m u"
proof (induction ss arbitrary: v n)
  case (Cons s ss)
  obtain items x where v: "v = PyDict items" "map_of items (PyStr s) = Some x" "direct_value x ss = Some u"
    using Cons.prems(1) by (cases v) (auto split: option.splits)
  have "canon_val (n - 1) x"
    using Cons.prems(2) v(1) map_of_SomeD [OF v(2)] by (auto simp: canon_items_iff)
  then show ?case using Cons.IH v(3) by blast
qed auto

lemma key_of_canon:
  assumes "canon_val n v" "encode_btree_key tz v = PyOk k"
  shows "key_ok k"
proof (cases v)
  case (PyFloat w)
  then have k: "k = BSON_BTREE_TAG_DOUBLE # nat_le 8 (unat w) @ replicate 4 0" and w: "\<not> double_nan w"
    using assms(2) by (simp_all add: encode_btree_key_def split: if_splits)
  have "field k 1 8 = unat w" using unsigned_less [of w, where 'a = nat] by (simp add: k field_def slice_def)
  then show ?thesis using w by (simp add: key_ok_def k BSON_BTREE_KEY_SIZE_def)
next
  case (PyObjectId b)
  then have "canon_scalar v" using assms(1) by (simp add: canon_val.simps)
  then show ?thesis using assms(2) PyObjectId
    by (auto simp: canon_scalar_def encode_btree_key_def key_ok_def BSON_BTREE_KEY_SIZE_def btree_tag_defs
        split: option.splits pyval.splits)
next
  case (PyDatetime d)
  then show ?thesis using assms(2)
    by (auto simp: encode_btree_key_def key_ok_def BSON_BTREE_KEY_SIZE_def btree_tag_defs py_bind_PyOk)
qed (use assms(2) in \<open>auto simp: encode_btree_key_def key_ok_def BSON_BTREE_KEY_SIZE_def btree_tag_defs split: if_splits\<close>)

lemma keyed_canon:
  assumes "canon_val n x" "index_key tz x fp = PyOk k"
  shows "keyed tz fp x k"
proof -
  have "\<exists>m. canon_val m (resolve_index_value x fp)"
    using direct_value_canon [OF _ assms(1)]
    by (auto simp: resolve_index_value_def canon_val_scalar canon_scalar_def split: option.splits)
  then show ?thesis using assms(2) key_of_canon by (auto simp: keyed_def index_key_def)
qed

text \<open>What a collection appends for a document.\<close>

definition storable :: "(pyval \<times> pyval) list \<Rightarrow> bool" where
  "storable items \<longleftrightarrow> wf_items items \<and> plain_items items \<and> distinct (map fst items)"

lemma storable_encoded:
  assumes "storable items" "py_encode alloc (PyDict items) = PyOk raw"
  shows "doc_framed raw" "py_decode raw = PyOk (PyDict (norm_items items))"
    "indexable tz (PyDict items) fp \<Longrightarrow>
       \<exists>k. index_key tz (PyDict items) fp = PyOk k \<and> keyed tz fp (PyDict (norm_items items)) k"
proof -
  have wf: "wf_items items" "plain_items items" "distinct (map fst items)" using assms(1) by (simp_all add: storable_def)
  obtain es where es: "raw = enc_doc es" "wire_items items = Some es" "wf_doc es" "depth_elems es \<le> BSON_MAX_DEPTH"
    by (rule encoded_dict [OF wf(1) assms(2)])
  have "obj_items [] es = PyOk (norm_items items)" using obj_wire(2) [OF es(2) wf, of "[]"] by simp
  then show dec: "py_decode raw = PyOk (PyDict (norm_items items))" using decode_doc [OF es(3,4)] es(1) by simp
  have "valid_doc raw"
    unfolding valid_doc_def validate_document_iff [OF order_refl] using es by (intro exI [of _ es]) simp
  then show "doc_framed raw" by (rule valid_doc_framed)
  show "indexable tz (PyDict items) fp \<Longrightarrow>
       \<exists>k. index_key tz (PyDict items) fp = PyOk k \<and> keyed tz fp (PyDict (norm_items items)) k"
  proof -
    assume ix: "indexable tz (PyDict items) fp"
    obtain items' where "PyDict (norm_items items) = PyDict items'" "canon_items BSON_MAX_DEPTH items'" "distinct (map fst items')"
      by (rule decoded_canon [OF dec])
    then have "canon_val (BSON_MAX_DEPTH + 1) (PyDict (norm_items items))" by simp
    then show ?thesis using key_norm [OF ix] keyed_canon by fastforce
  qed
qed

section \<open>All indexes, or none\<close>

definition paths :: "indexes \<Rightarrow> nat list list" where
  "paths ixs = map fst ixs"

lemma paths_simps [simp]: "paths [] = []" "paths ((fp, h) # ixs) = fp # paths ixs" "paths (ixs @ jxs) = paths ixs @ paths jxs"
  by (simp_all add: paths_def)

lemma rollback_all:
  assumes "\<forall>(ix, k) \<in> set made. index_of tz E' (L @ [(E, x)]) ix \<and> keyed tz (fst ix) x k"
    and L: "distinct (map fst L)" "\<forall>p \<in> set L. fst p < E" and E: "E < 2 ^ 37"
  shows "\<exists>ixs. index_rollback E made = (PyOk (), ixs) \<and> paths ixs = paths (map fst made) \<and>
    (\<forall>ix \<in> set ixs. index_of tz E' L ix)"
  using assms(1)
proof (induction made)
  case (Cons m made)
  obtain fp h k where m: "m = ((fp, h), k)" by (metis prod.collapse)
  have d: "distinct (map fst (L @ [(E, x)]))" using L by auto
  have "filter (\<lambda>p. fst p \<noteq> E) (L @ [(E, x)]) = L" using L(2) by (auto simp: filter_id_conv)
  then obtain h' where "IndexHandle_delete_entry k (int E) h = (PyOk (), h')" "index_of tz E' L (fp, h')"
    using index_remove [where L = "L @ [(E, x)]" and fp = fp and h = h and k = k and x = x and off = E and tz = tz and E = E']
      Cons.prems m d E by auto
  moreover obtain ixs where "index_rollback E made = (PyOk (), ixs)" "paths ixs = paths (map fst made)"
    "\<forall>ix \<in> set ixs. index_of tz E' L ix" using Cons by auto
  ultimately show ?case using m by simp
qed simp

lemma insert_all:
  assumes "\<forall>(ix, k) \<in> set made. index_of tz E' (L @ [(E, x)]) ix \<and> keyed tz (fst ix) x k"
    and "\<forall>ix \<in> set ixs. index_of tz E L ix"
    and "\<forall>fp \<in> set (paths ixs). \<exists>k. index_key tz doc fp = PyOk k \<and> keyed tz fp x k"
    and L: "distinct (map fst L)" "\<forall>p \<in> set L. fst p < E" and E: "E < 2 ^ 37" "E < E'"
  shows "(\<exists>ixs'. index_update_for_insert os tz doc E made ixs = (PyOk (), ixs') \<and>
      paths ixs' = paths (map fst made) @ paths ixs \<and> (\<forall>ix \<in> set ixs'. index_of tz E' (L @ [(E, x)]) ix) \<and>
      (\<forall>fp \<in> set (paths ixs). \<not> conflict tz fp x L)) \<or>
    (\<exists>ixs'. index_update_for_insert os tz doc E made ixs = (PyRaise DuplicateKeyError, ixs') \<and>
      paths ixs' = paths (map fst made) @ paths ixs \<and> (\<forall>ix \<in> set ixs'. index_of tz E' L ix) \<and>
      (\<exists>fp \<in> set (paths ixs). conflict tz fp x L)) \<or>
    fst (index_update_for_insert os tz doc E made ixs) = PyRaise OSError \<and> \<not> os_all_succeed os"
  using assms(1-3)
proof (induction ixs arbitrary: made)
  case Nil
  then show ?case by (auto simp: case_prod_beta)
next
  case (Cons ix ixs)
  obtain fp h where ix: "ix = (fp, h)" by fastforce
  obtain k where k: "index_key tz doc fp = PyOk k" "keyed tz fp x k" using Cons.prems(3) ix by auto
  have h: "index_of tz E L (fp, h)" using Cons.prems(2) ix by simp
  show ?case
    using h k(2) E
  proof (cases rule: index_add [where os = os])
    case (ok h')
    have made': "\<forall>(ix, k) \<in> set (made @ [((fp, h'), k)]). index_of tz E' (L @ [(E, x)]) ix \<and> keyed tz (fst ix) x k"
      using Cons.prems(1) ok(2) k(2) by auto
    show ?thesis using Cons.IH [OF made'] Cons.prems(2,3) ix k(1) ok(1,3) by simp
  next
    case dup
    obtain jxs where jxs: "index_rollback E made = (PyOk (), jxs)" "paths jxs = paths (map fst made)"
      "\<forall>ix \<in> set jxs. index_of tz E' L ix" using rollback_all [OF Cons.prems(1) L E(1)] by blast
    have "\<forall>ix \<in> set (jxs @ (fp, h) # ixs). index_of tz E' L ix"
      using jxs(3) Cons.prems(2) ix h E(2) index_of_mono by (auto simp: less_imp_le)
    then show ?thesis using ix k(1) dup jxs(1,2) by auto
  next
    case (io h')
    then show ?thesis using ix k(1) by simp
  qed
qed

lemma delete_all:
  assumes "\<forall>ix \<in> set ixs. index_of tz E L ix" "(off, x) \<in> set L" "distinct (map fst L)" "off < 2 ^ 64"
    "\<forall>fp \<in> set (paths ixs). \<exists>k. keyed tz fp x k"
  shows "\<exists>ixs'. index_update_for_delete tz x off ixs = (PyOk (), ixs') \<and> paths ixs' = paths ixs \<and>
    (\<forall>ix \<in> set ixs'. index_of tz E (filter (\<lambda>p. fst p \<noteq> off) L) ix)"
  using assms(1,5)
proof (induction ixs)
  case (Cons ix ixs)
  obtain fp h where ix: "ix = (fp, h)" by fastforce
  obtain k where k: "keyed tz fp x k" using Cons.prems(2) ix by auto
  obtain h' where "IndexHandle_delete_entry k (int off) h = (PyOk (), h')"
    "index_of tz E (filter (\<lambda>p. fst p \<noteq> off) L) (fp, h')"
    using index_remove [OF _ k assms(2-4), of E h] Cons.prems(1) ix by auto
  moreover have "index_key tz x fp = PyOk k" using k by (simp add: keyed_def)
  ultimately show ?case using Cons ix by auto
qed simp

lemma index_of_keyed: "index_of tz E L ix \<Longrightarrow> (off, x) \<in> set L \<Longrightarrow> \<exists>k. keyed tz (fst ix) x k"
  unfolding index_of_def by (metis maps_docsD(1))

section \<open>Operations on a collection whose indexes are unique\<close>

text \<open>The data file holds \<open>L\<close>, and so does every index.\<close>

definition coll_holds :: "(py_datetime \<Rightarrow> int) \<Rightarrow> coll \<Rightarrow> (nat \<times> pyval) list \<Rightarrow> nat \<Rightarrow> bool" where
  "coll_holds tz c L E \<longleftrightarrow> holds_docs (co_data c) L E \<and> (\<forall>ix \<in> set (co_indexes c). index_of tz E L ix)"

definition conflicts :: "(py_datetime \<Rightarrow> int) \<Rightarrow> coll \<Rightarrow> pyval \<Rightarrow> (nat \<times> pyval) list \<Rightarrow> bool" where
  "conflicts tz c x L \<longleftrightarrow> (\<exists>fp \<in> set (paths (co_indexes c)). conflict tz fp x L)"

lemma coll_offsets:
  assumes "coll_holds tz c L E"
  shows "distinct (map fst L)" "\<forall>p \<in> set L. fst p < E"
  using assms holds_docs_offsets [of "co_data c" L E] by (auto simp: coll_holds_def)

lemma coll_keyed:
  assumes "coll_holds tz c L E" "(off, x) \<in> set L" "fp \<in> set (paths (co_indexes c))"
  shows "\<exists>k. keyed tz fp x k"
  using assms index_of_keyed [OF _ assms(2)] by (fastforce simp: coll_holds_def paths_def)

text \<open>The last offset of a list is dropped again.\<close>

lemma filter_new: "\<forall>p \<in> set L. fst p < E \<Longrightarrow> filter (\<lambda>p. fst p \<noteq> E) (L @ [(E :: nat, x)]) = L"
  by (auto simp: filter_id_conv)

lemma index_new_document:
  assumes data: "holds_docs h (L @ [(E, PyDict (norm_items items))]) E'"
    and ixs: "\<forall>ix \<in> set ixs. index_of tz E L ix"
    and L: "distinct (map fst L)" "\<forall>p \<in> set L. fst p < E" and E: "E < 2 ^ 37" "E < E'"
    and doc: "storable items" "py_encode alloc (PyDict items) = PyOk raw" "\<forall>fp \<in> set (paths ixs). indexable tz (PyDict items) fp"
  obtains (ok) ixs' where "index_update_for_insert os tz (PyDict items) E [] ixs = (PyOk (), ixs')" "paths ixs' = paths ixs"
      "coll_holds tz \<lparr>co_data = h, co_indexes = ixs'\<rparr> (L @ [(E, PyDict (norm_items items))]) E'"
      "\<forall>fp \<in> set (paths ixs). \<not> conflict tz fp (PyDict (norm_items items)) L"
  | (dup) ixs' h' where "index_update_for_insert os tz (PyDict items) E [] ixs = (PyRaise DuplicateKeyError, ixs')"
      "CollectionHandle_tombstone_record (int E) h = (PyOk (), h')" "paths ixs' = paths ixs"
      "coll_holds tz \<lparr>co_data = h', co_indexes = ixs'\<rparr> L E'"
      "\<exists>fp \<in> set (paths ixs). conflict tz fp (PyDict (norm_items items)) L"
  | (io) ixs' where "index_update_for_insert os tz (PyDict items) E [] ixs = (PyRaise OSError, ixs')" "\<not> os_all_succeed os"
proof -
  have keys: "\<forall>fp \<in> set (paths ixs). \<exists>k. index_key tz (PyDict items) fp = PyOk k \<and> keyed tz fp (PyDict (norm_items items)) k"
    using storable_encoded(3) [OF doc(1,2)] doc(3) by blast
  have "\<exists>h'. CollectionHandle_tombstone_record (int E) h = (PyOk (), h') \<and> holds_docs h' L E'"
    using tombstone_docs [OF data, of E "PyDict (norm_items items)"] filter_new [OF L(2)] by simp
  then obtain h' where h': "CollectionHandle_tombstone_record (int E) h = (PyOk (), h')" "holds_docs h' L E'" by blast
  have "\<forall>(ix, k) \<in> set []. index_of tz E' (L @ [(E, PyDict (norm_items items))]) ix \<and>
      keyed tz (fst ix) (PyDict (norm_items items)) k" by simp
  from insert_all [OF this ixs keys L E, of os]
  show thesis
  proof (elim disjE exE conjE, goal_cases)
    case (1 ixs') then show thesis using ok data by (simp add: coll_holds_def)
  next
    case (2 ixs') then show thesis using dup h' by (simp add: coll_holds_def)
  next
    case 3 then show thesis using io by (cases "index_update_for_insert os tz (PyDict items) E [] ixs") simp
  qed
qed

lemma add_document_cases:
  assumes c: "coll_holds tz c L E" and E: "E < 2 ^ 37"
    and doc: "storable items" "py_encode alloc (PyDict items) = PyOk raw"
      "\<forall>fp \<in> set (paths (co_indexes c)). indexable tz (PyDict items) fp"
  obtains (ok) c' E' where "add_document os tz (PyDict items) raw c = (PyOk (), c')" "E' = E + 1 + length raw"
      "coll_holds tz c' (L @ [(E, PyDict (norm_items items))]) E'" "paths (co_indexes c') = paths (co_indexes c)"
      "\<not> conflicts tz c (PyDict (norm_items items)) L"
  | (dup) c' E' where "add_document os tz (PyDict items) raw c = (PyRaise DuplicateKeyError, c')" "E' = E + 1 + length raw"
      "coll_holds tz c' L E'" "paths (co_indexes c') = paths (co_indexes c)" "conflicts tz c (PyDict (norm_items items)) L"
  | (io) c' where "add_document os tz (PyDict items) raw c = (PyRaise OSError, c')" "\<not> os_all_succeed os"
proof -
  have h: "holds_docs (co_data c) L E" and ixs: "\<forall>ix \<in> set (co_indexes c). index_of tz E L ix"
    using c by (simp_all add: coll_holds_def)
  note raw = storable_encoded [OF doc(1,2)]
  show thesis
    using h raw(1,2) E
  proof (cases rule: append_docs [where os = os])
    case app: (ok h' E')
    have E': "E < E'" using app(3) by simp
    show thesis
      using app(2) ixs coll_offsets [OF c] E E' doc
    proof (cases rule: index_new_document [where os = os])
      case (ok ixs')
      then show thesis using that(1) [OF _ app(3), of "\<lparr>co_data = h', co_indexes = ixs'\<rparr>"] app(1)
        by (simp add: add_document_def conflicts_def)
    next
      case (dup ixs' h'')
      then show thesis using that(2) [OF _ app(3), of "\<lparr>co_data = h'', co_indexes = ixs'\<rparr>"] app(1)
        by (simp add: add_document_def conflicts_def)
    next
      case (io ixs')
      then show thesis using that(3) app by (simp add: add_document_def)
    qed
  next
    case (io h')
    then show thesis using that(3) by (simp add: add_document_def)
  qed
qed

lemma remove_document:
  assumes c: "coll_holds tz c L E" and E: "E < 2 ^ 37" and x: "(off, x) \<in> set L"
  obtains h ixs where "CollectionHandle_tombstone_record (int off) (co_data c) = (PyOk (), h)"
    "index_update_for_delete tz x off (co_indexes c) = (PyOk (), ixs)" "paths ixs = paths (co_indexes c)"
    "holds_docs h (filter (\<lambda>p. fst p \<noteq> off) L) E" "\<forall>ix \<in> set ixs. index_of tz E (filter (\<lambda>p. fst p \<noteq> off) L) ix"
proof -
  have h: "holds_docs (co_data c) L E" and ixs: "\<forall>ix \<in> set (co_indexes c). index_of tz E L ix"
    using c by (simp_all add: coll_holds_def)
  have "off < 2 ^ 64" using coll_offsets(2) [OF c] x E by auto
  from delete_all [OF ixs x coll_offsets(1) [OF c] this] coll_keyed [OF c x] tombstone_docs [OF h x]
  show thesis using that by blast
qed

lemma delete_targets_holds:
  assumes "coll_holds tz c L E" "E < 2 ^ 37" "set ts \<subseteq> set L" "distinct (map fst ts)"
  shows "\<exists>c'. delete_targets tz ts c = (PyOk (), c') \<and> coll_holds tz c' (filter (\<lambda>p. fst p \<notin> fst ` set ts) L) E \<and>
    paths (co_indexes c') = paths (co_indexes c)"
  using assms(1,3,4)
proof (induction ts arbitrary: c L)
  case (Cons t ts)
  obtain off x where t: "t = (off, x)" by fastforce
  then have x: "(off, x) \<in> set L" using Cons.prems(2) by simp
  obtain h ixs where r: "CollectionHandle_tombstone_record (int off) (co_data c) = (PyOk (), h)"
    "index_update_for_delete tz x off (co_indexes c) = (PyOk (), ixs)" "paths ixs = paths (co_indexes c)"
    "holds_docs h (filter (\<lambda>p. fst p \<noteq> off) L) E" "\<forall>ix \<in> set ixs. index_of tz E (filter (\<lambda>p. fst p \<noteq> off) L) ix"
    by (rule remove_document [OF Cons.prems(1) assms(2) x])
  let ?c = "\<lparr>co_data = h, co_indexes = ixs\<rparr>" and ?L = "filter (\<lambda>p. fst p \<noteq> off) L"
  have "coll_holds tz ?c ?L E" using r by (simp add: coll_holds_def)
  moreover have "set ts \<subseteq> set ?L" using Cons.prems(2,3) t by force
  ultimately obtain c' where c': "delete_targets tz ts ?c = (PyOk (), c')"
    "coll_holds tz c' (filter (\<lambda>p. fst p \<notin> fst ` set ts) ?L) E" "paths (co_indexes c') = paths ixs"
    using Cons.IH [of ?c ?L] Cons.prems(3) by auto
  moreover have "filter (\<lambda>p. fst p \<notin> fst ` set ts) ?L = filter (\<lambda>p. fst p \<notin> fst ` set (t # ts)) L"
    using t by (auto intro!: filter_cong)
  ultimately show ?case using r(1-3) t by simp
qed simp

lemma filter_fst:
  assumes "distinct (map fst L)"
  shows "filter (\<lambda>d. fst d \<notin> fst ` set (filter q L)) L = filter (\<lambda>d. \<not> q d) L"
  using assms by (auto intro!: filter_cong) (metis eq_key_imp_eq_value prod.collapse)

lemma filter_one:
  assumes "distinct (map fst L)" "set offs \<subseteq> fst ` set L" "length offs \<le> 1" "\<forall>d \<in> set L. q d \<longrightarrow> fst d \<in> set offs"
  shows "filter q (map (\<lambda>off. (off, the (map_of L off))) offs) = filter q L"
proof (cases offs)
  case Nil
  then show ?thesis using assms(4) by (auto simp: filter_empty_conv)
next
  case (Cons off rest)
  then have offs: "offs = [off]" using assms(3) by simp
  then obtain x where x: "(off, x) \<in> set L" using assms(2) by auto
  then obtain A B where L: "L = A @ (off, x) # B" by (meson split_list)
  have "map_of L off = Some x" using assms(1) x by simp
  moreover have "filter q A = []" "filter q B = []"
    using assms(1,4) L offs by (force simp: filter_empty_conv)+
  ultimately show ?thesis using L offs by simp
qed

text \<open>
  The equality of a filter is decided by the keys: a value without a key raises what makes the code
  scan, and no document of the list matches that has another key.
\<close>

definition key_decides :: "(py_datetime \<Rightarrow> int) \<Rightarrow> (nat \<times> pyval) list \<Rightarrow> nat list \<Rightarrow> pyval \<Rightarrow> (pyval \<Rightarrow> bool) \<Rightarrow> bool" where
  "key_decides tz L fld v q \<longleftrightarrow> (case encode_btree_key tz v of
     PyOk k \<Rightarrow> key_ok k \<and> (\<forall>(off, x) \<in> set L. q x \<longrightarrow> doc_rank tz fld x = Some (key_rank k))
   | PyRaise e \<Rightarrow> e \<in> {BSONNotImplementedError, OverflowError, ValueError, UnicodeError}
   | _ \<Rightarrow> False)"

text \<open>The filter answers \<open>q\<close> on the documents, and through an index on its field, if there is one, too.\<close>

definition answers ::
    "(py_datetime \<Rightarrow> int) \<Rightarrow> nat list list \<Rightarrow> (nat \<times> pyval) list \<Rightarrow> pyval \<Rightarrow> (pyval \<Rightarrow> bool) \<Rightarrow> bool" where
  "answers tz F L filt q \<longleftrightarrow> (let f = resolved_filter filt in
     (\<exists>b. matches (PyDict []) f = PyOk b) \<and> (\<forall>(off, x) \<in> set L. matches x f = PyOk (q x)) \<and>
     (case eq_clause f of None \<Rightarrow> True | Some (fld, v) \<Rightarrow> fld \<in> set F \<longrightarrow> key_decides tz L fld v q))"

lemma lookup_eq_cases:
  assumes "\<forall>ix \<in> set ixs. index_of tz E L ix" "fld \<in> set (paths ixs) \<longrightarrow> key_decides tz L fld v q"
  shows "lookup_eq tz alloc fld v ixs = PyOk None \<or>
    (\<exists>offs. lookup_eq tz alloc fld v ixs = PyOk (Some offs) \<and> set offs \<subseteq> fst ` set L \<and> length offs \<le> 1 \<and>
       (\<forall>d \<in> set L. q (snd d) \<longrightarrow> fst d \<in> set offs)) \<or>
    lookup_eq tz alloc fld v ixs = PyRaise MemoryError \<and> \<not> (\<forall>n. alloc n)"
  using assms
proof (induction ixs)
  case (Cons ix ixs)
  obtain fp h where ix: "ix = (fp, h)" by fastforce
  show ?case
  proof (cases "fp = fld")
    case False
    then show ?thesis using Cons ix by simp
  next
    case True
    then have dec: "key_decides tz L fld v q" using Cons.prems(2) ix by simp
    show ?thesis
    proof (cases "encode_btree_key tz v")
      case (PyOk k)
      then have k: "key_ok k" "\<forall>(off, x) \<in> set L. q x \<longrightarrow> doc_rank tz fld x = Some (key_rank k)"
        using dec by (simp_all add: key_decides_def)
      have "index_of tz E L (fld, h)" using Cons.prems(1) ix True by simp
      from index_find [OF this k(1), of alloc] show ?thesis
      proof (elim disjE exE conjE)
        fix offs assume o: "IndexHandle_lookup alloc k h = (PyOk offs, h)" "length offs \<le> 1"
          "\<forall>off \<in> set offs. \<exists>x. (off, x) \<in> set L \<and> doc_rank tz fld x = Some (key_rank k)"
          "\<forall>(off, x) \<in> set L. doc_rank tz fld x = Some (key_rank k) \<longrightarrow> off \<in> set offs"
        have "set offs \<subseteq> fst ` set L" using o(3) by force
        moreover have "\<forall>d \<in> set L. q (snd d) \<longrightarrow> fst d \<in> set offs" using o(4) k(2) by fastforce
        ultimately show ?thesis using ix True PyOk o(1,2) by simp
      qed (use ix True PyOk in simp_all)
    qed (use dec ix True in \<open>simp_all add: key_decides_def\<close>)
  qed
qed simp

lemma iter_matches_cases:
  assumes c: "coll_holds tz c L E" and "E \<le> fuel" and f: "answers tz (paths (co_indexes c)) L filt q"
  shows "iter_matches tz alloc fuel filt c = PyOk (filter (\<lambda>d. q (snd d)) L) \<or>
    iter_matches tz alloc fuel filt c = PyRaise MemoryError \<and> \<not> (\<forall>n. alloc n)"
proof -
  define f where "f = resolved_filter filt"
  obtain b where m: "matches (PyDict []) f = PyOk b" "\<forall>(off, x) \<in> set L. matches x f = PyOk (q x)"
    using f by (auto simp: answers_def f_def Let_def)
  have h: "holds_docs (co_data c) L E" and ixs: "\<forall>ix \<in> set (co_indexes c). index_of tz E L ix"
    using c by (simp_all add: coll_holds_def)
  note scan = scan_holds_docs [OF h assms(2) m(2)]
  show ?thesis
  proof (cases "eq_clause f")
    case None
    then show ?thesis using scan m(1) by (simp add: iter_matches_def index_lookup_for_filter_def f_def Let_def)
  next
    case (Some cl)
    obtain fld v where cl: "cl = (fld, v)" by fastforce
    have "fld \<in> set (paths (co_indexes c)) \<longrightarrow> key_decides tz L fld v q"
      using f Some cl by (simp add: answers_def f_def Let_def)
    from lookup_eq_cases [OF ixs this, of alloc] show ?thesis
    proof (elim disjE exE conjE)
      fix offs assume o: "lookup_eq tz alloc fld v (co_indexes c) = PyOk (Some offs)" "set offs \<subseteq> fst ` set L"
        "length offs \<le> 1" "\<forall>d \<in> set L. q (snd d) \<longrightarrow> fst d \<in> set offs"
      then show ?thesis
        using Some cl m(1) read_holds_docs [OF h o(2) m(2)] filter_one [OF coll_offsets(1) [OF c] o(2-4)]
        by (simp add: iter_matches_def index_lookup_for_filter_def f_def Let_def)
    qed (use Some cl m(1) scan in \<open>simp_all add: iter_matches_def index_lookup_for_filter_def f_def Let_def\<close>)
  qed
qed

section \<open>Equality filters\<close>

lemma naive_ms_us: "naive_ms d = datetime_us d div 1000"
proof -
  have "datetime_us d = (days_from_civil (dt_year d) (dt_month d) (dt_day d) * 86400000 + dt_hour d * 3600000 +
      dt_minute d * 60000 + dt_second d * 1000) * 1000 + dt_microsecond d"
    by (simp add: datetime_us_def)
  then show ?thesis by (simp add: naive_ms_def)
qed

text \<open>
  The values of a filter for which an index may be asked: an object id is its bytes, and a datetime has
  an offset or none, but not a \<^verbatim>\<open>tzinfo\<close> without one.
\<close>

fun query_value :: "pyval \<Rightarrow> bool" where
  "query_value (PyObjectId b) \<longleftrightarrow> (case b of Some (PyBytes bs) \<Rightarrow> length bs = 12 | _ \<Rightarrow> False)"
| "query_value (PyDatetime d) \<longleftrightarrow> (case dt_offset d of Naive \<Rightarrow> True | OffsetMs _ \<Rightarrow> True | _ \<Rightarrow> False)"
| "query_value _ \<longleftrightarrow> True"

text \<open>An integer is not compared to a float.\<close>

fun same_number :: "pyval \<Rightarrow> pyval \<Rightarrow> bool" where
  "same_number (PyInt _) (PyFloat _) \<longleftrightarrow> False"
| "same_number (PyFloat _) (PyInt _) \<longleftrightarrow> False"
| "same_number _ _ \<longleftrightarrow> True"

lemma rank_double: "key_rank (BSON_BTREE_TAG_DOUBLE # nat_le 8 (unat w) @ replicate 4 0) = [3, double_rank w]"
proof -
  have "field (BSON_BTREE_TAG_DOUBLE # nat_le 8 (unat w) @ replicate 4 0) 1 8 = unat w"
    using unsigned_less [of w, where 'a = nat] by (simp add: field_def slice_def)
  then show ?thesis by (simp add: key_rank_def btree_tag_defs)
qed

text \<open>A stored document is its own round trip.\<close>

lemma stored_canon:
  assumes "holds_docs h L E" "(off, x) \<in> set L"
  obtains items where "x = PyDict items" "canon_items BSON_MAX_DEPTH items" "distinct (map fst items)"
proof -
  obtain raw where "py_decode raw = PyOk x" using read_doc [OF assms] .
  then show thesis using that by (rule decoded_canon)
qed

lemma stored_document:
  assumes "holds_docs h L E" "(off, x) \<in> set L"
  obtains items where "x = PyDict items" "storable items" "norm_items items = items"
proof -
  obtain items where i: "x = PyDict items" "canon_items BSON_MAX_DEPTH items" "distinct (map fst items)"
    by (rule stored_canon [OF assms])
  then show thesis using that canon_wire(2) [OF i(2)] by (auto simp: storable_def)
qed

lemma eq_clause_cases:
  assumes "eq_clause f = Some (fld, v)"
  obtains (literal) "f = PyDict [(PyStr fld, v)]" "\<not> starts_with_dollar fld" "\<forall>ops. v \<noteq> PyDict ops"
  | (operator) "f = PyDict [(PyStr fld, PyDict [(PyStr (str ''$eq''), v)])]" "\<not> starts_with_dollar fld"
proof -
  obtain condition where f: "f = PyDict [(PyStr fld, condition)]" "\<not> starts_with_dollar fld"
    using assms by (auto simp: eq_clause_def split: pyval.splits list.splits if_splits)
  show thesis
  proof (cases "\<exists>ops. condition = PyDict ops")
    case True
    then show thesis using operator f assms
      by (auto simp: eq_clause_def split: list.splits prod.splits if_splits)
  next
    case False
    then show thesis using literal f assms by (cases condition) (auto simp: eq_clause_def)
  qed
qed

lemma eq_clause_matches:
  assumes "eq_clause f = Some (fld, v)" "list_free x (split_dots fld)"
  shows "matches x f = PyOk (eq_holds x fld v)"
  using assms(1)
proof (cases rule: eq_clause_cases)
  case literal
  then show ?thesis using matches_literal [OF literal(2) assms(2) literal(3)] by simp
next
  case operator
  then show ?thesis using matches_dollar_eq [OF operator(2) assms(2)] by simp
qed

lemma query_key_ok:
  assumes "query_value v" "encode_btree_key tz v = PyOk k"
  shows "key_ok k"
proof (cases v)
  case (PyFloat w)
  then show ?thesis using assms(2) key_of_canon [of 0 v tz k] by (simp add: canon_val.simps canon_scalar_def)
next
  case (PyObjectId b)
  then show ?thesis using assms
    by (auto simp: encode_btree_key_def key_ok_def BSON_BTREE_KEY_SIZE_def btree_tag_defs
        split: option.splits pyval.splits)
next
  case (PyDatetime d)
  then show ?thesis using assms(2)
    by (auto simp: encode_btree_key_def key_ok_def BSON_BTREE_KEY_SIZE_def btree_tag_defs py_bind_PyOk)
qed (use assms(2) in \<open>auto simp: encode_btree_key_def key_ok_def BSON_BTREE_KEY_SIZE_def btree_tag_defs split: if_splits\<close>)

text \<open>Equal values have keys that compare as equal.\<close>

lemma equal_keys:
  assumes y: "canon_val n y" "encode_btree_key tz y = PyOk j"
    and v: "query_value v" "encode_btree_key tz v = PyOk k" "values_equal y v" "same_number y v"
  shows "key_rank j = key_rank k"
proof (cases v)
  case PyNone
  then show ?thesis using v y(2) by (cases y) (auto simp: values_equal_def py_eq.simps encode_btree_key_def)
next
  case (PyBool b)
  then obtain b' where "y = PyBool b'" using v(3) by (cases y) (auto simp: values_equal_def)
  then have "y = v" using v(3) PyBool by (auto simp: values_equal_def py_eq.simps double_scale_def split: if_splits)
  then show ?thesis using y(2) v(2) by simp
next
  case (PyInt i)
  then obtain i' where "y = PyInt i'" using v(3,4) by (cases y) (auto simp: values_equal_def py_eq.simps split: if_splits)
  then have "y = v" using v(3) PyInt by (simp add: values_equal_def py_eq.simps double_scale_def)
  then show ?thesis using y(2) v(2) by simp
next
  case (PyFloat w)
  then obtain w' where y': "y = PyFloat w'" using v(3,4) by (cases y) (auto simp: values_equal_def py_eq.simps split: if_splits)
  then have n: "\<not> double_nan w'" "\<not> double_nan w" "double_val w' = double_val w"
    using v(3) PyFloat by (auto simp: values_equal_def py_eq.simps split: if_splits)
  then have "double_rank w' = double_rank w" using double_order(2) by simp
  then show ?thesis using y(2) v(2) y' PyFloat n by (auto simp: encode_btree_key_def rank_double)
next
  case (PyDatetime d)
  then obtain d' where y': "y = PyDatetime d'" using v(3) by (cases y) (auto simp: values_equal_def py_eq.simps split: if_splits)
  then have n': "dt_offset d' = Naive" using y(1) by (simp add: canon_val.simps canon_scalar_def)
  have "datetime_point d' = datetime_point d" using v(3) y' PyDatetime by (simp add: values_equal_def py_eq.simps)
  then have "dt_offset d = Naive" "datetime_us d' = datetime_us d"
    using v(1) PyDatetime n' by (auto simp: datetime_point_def split: utc_offset.splits)
  then show ?thesis using y(2) v(2) y' PyDatetime n' by (simp add: encode_btree_key_def datetime_key_ms_def naive_ms_us)
next
  case (PyObjectId b)
  then have "y = v" using v(3) by (cases y) (auto simp: values_equal_def py_eq.simps split: if_splits)
  then show ?thesis using y(2) v(2) by simp
qed (use v(2) in \<open>simp_all add: encode_btree_key_def\<close>)
text \<open>What a filter selects, where it does not raise.\<close>

definition matching :: "pyval \<Rightarrow> pyval \<Rightarrow> bool" where
  "matching filt x \<longleftrightarrow> matches x (resolved_filter filt) = PyOk True"

definition answerable :: "pyval \<Rightarrow> (nat \<times> pyval) list \<Rightarrow> bool" where
  "answerable filt L \<longleftrightarrow> (\<forall>x \<in> insert (PyDict []) (snd ` set L). \<exists>b. matches x (resolved_filter filt) = PyOk b)"

text \<open>
  An index on the field of the filter's equality does not change the answer: no list is on the path in a
  document, and numbers are of the same type.
\<close>

definition index_sound :: "nat list list \<Rightarrow> (nat \<times> pyval) list \<Rightarrow> pyval \<Rightarrow> bool" where
  "index_sound F L filt \<longleftrightarrow> (case eq_clause (resolved_filter filt) of
     None \<Rightarrow> True
   | Some (fld, v) \<Rightarrow> fld \<in> set F \<longrightarrow> query_value v \<and>
       (\<forall>x \<in> snd ` set L. list_free x (split_dots fld) \<and> same_number (resolve_index_value x fld) v))"

lemma eq_holds_rank:
  assumes x: "canon_val n x" "index_key tz x fld = PyOk j"
    and v: "query_value v" "encode_btree_key tz v = PyOk k" "same_number (resolve_index_value x fld) v" "eq_holds x fld v"
  shows "doc_rank tz fld x = Some (key_rank k)"
proof -
  have j: "encode_btree_key tz (resolve_index_value x fld) = PyOk j" using x(2) by (simp add: index_key_def)
  have "key_rank j = key_rank k"
  proof (cases "direct_value x (split_dots fld)")
    case None
    then have "v = resolve_index_value x fld" using v(4) by (simp add: eq_holds_def resolve_index_value_def)
    then show ?thesis using j v(2) by simp
  next
    case (Some y)
    then obtain m where "canon_val m y" using direct_value_canon x(1) by blast
    moreover have "resolve_index_value x fld = y" using Some by (simp add: resolve_index_value_def)
    ultimately show ?thesis using equal_keys [of m y tz j v k] j v Some by (simp add: eq_holds_def)
  qed
  then show ?thesis using x(2) by (simp add: doc_rank_def)
qed

lemma query_key:
  assumes "query_value v"
  shows "(\<exists>k. encode_btree_key tz v = PyOk k) \<or>
    (\<exists>e \<in> {BSONNotImplementedError, OverflowError, ValueError, UnicodeError}. encode_btree_key tz v = PyRaise e)"
  using assms
  by (cases v) (auto simp: encode_btree_key_def datetime_key_ms_def utc_key_ms_def split: utc_offset.splits option.splits pyval.splits)

lemma answers_matching:
  assumes c: "coll_holds tz c L E" and f: "answerable filt L" "index_sound (paths (co_indexes c)) L filt"
  shows "answers tz (paths (co_indexes c)) L filt (matching filt)"
proof -
  define f where "f = resolved_filter filt"
  have h: "holds_docs (co_data c) L E" using c by (simp add: coll_holds_def)
  have total: "\<exists>b. matches x f = PyOk b" if "x \<in> insert (PyDict []) (snd ` set L)" for x
    using f(1) that by (auto simp: answerable_def f_def)
  have "matches x f = PyOk (matching filt x)" if "(off, x) \<in> set L" for off x
  proof -
    have "x \<in> insert (PyDict []) (snd ` set L)" using that by force
    then obtain b where "matches x f = PyOk b" using total by blast
    then show ?thesis by (simp add: matching_def f_def)
  qed
  moreover have "key_decides tz L fld v (matching filt)"
    if eq: "eq_clause f = Some (fld, v)" and fld: "fld \<in> set (paths (co_indexes c))" for fld v
  proof -
    have q: "query_value v" and L: "\<And>off x. (off, x) \<in> set L \<Longrightarrow> list_free x (split_dots fld)"
      "\<And>off x. (off, x) \<in> set L \<Longrightarrow> same_number (resolve_index_value x fld) v"
      using f(2) eq fld by (auto simp: index_sound_def f_def)
    have rank: "doc_rank tz fld x = Some (key_rank k)"
      if k: "encode_btree_key tz v = PyOk k" and x: "(off, x) \<in> set L" and m: "matching filt x" for k off x
    proof -
      obtain items where "x = PyDict items" "canon_items BSON_MAX_DEPTH items" "distinct (map fst items)"
        by (rule stored_canon [OF h x])
      then have canon: "canon_val (BSON_MAX_DEPTH + 1) x" by simp
      obtain j where j: "index_key tz x fld = PyOk j" using coll_keyed [OF c x fld] by (auto simp: keyed_def)
      have "eq_holds x fld v" using m eq_clause_matches [OF eq L(1) [OF x]] by (simp add: matching_def f_def)
      then show ?thesis by (rule eq_holds_rank [OF canon j q k L(2) [OF x]])
    qed
    from query_key [OF q, of tz] show ?thesis
    proof (elim disjE exE bexE)
      fix k assume k: "encode_btree_key tz v = PyOk k"
      then show ?thesis using rank [OF k] query_key_ok [OF q k] by (auto simp: key_decides_def)
    qed (simp add: key_decides_def)
  qed
  ultimately show ?thesis using total [of "PyDict []"]
    unfolding answers_def Let_def f_def [symmetric] by (auto split: option.splits)
qed
text \<open>The update of one document, by its outcomes.\<close>

lemma apply_update_cases:
  fixes L :: "(nat \<times> pyval) list"
  assumes c: "coll_holds tz c L E" "E < 2 ^ 37" and old: "(off, old) \<in> set L"
    and doc: "storable items" "\<forall>fp \<in> set (paths (co_indexes c)). indexable tz (PyDict items) fp"
  defines "rest \<equiv> filter (\<lambda>d. fst d \<noteq> off) L" and "new \<equiv> PyDict (norm_items items)"
  obtains (same) raw where "py_encode alloc old = PyOk raw" "py_encode alloc (PyDict items) = PyOk raw" "old = new"
      "apply_single_update os tz alloc off old (PyDict items) c = (PyOk 0, c)"
  | (moved) raw_old raw c' where "py_encode alloc old = PyOk raw_old" "py_encode alloc (PyDict items) = PyOk raw" "raw \<noteq> raw_old"
      "apply_single_update os tz alloc off old (PyDict items) c = (PyOk 1, c')"
      "coll_holds tz c' (rest @ [(E, new)]) (E + 1 + length raw)" "paths (co_indexes c') = paths (co_indexes c)" "\<not> conflicts tz c new rest"
  | (dup) raw_old raw c' where "py_encode alloc old = PyOk raw_old" "py_encode alloc (PyDict items) = PyOk raw" "raw \<noteq> raw_old"
      "apply_single_update os tz alloc off old (PyDict items) c = (PyRaise DuplicateKeyError, c')"
      "coll_holds tz c' rest (E + 1 + length raw)" "paths (co_indexes c') = paths (co_indexes c)" "conflicts tz c new rest"
  | (bad) e where "py_bind (py_encode alloc old) (\<lambda>_. py_encode alloc (PyDict items)) = PyRaise e"
      "py_encode alloc old = PyRaise e \<or> py_encode alloc (PyDict items) = PyRaise e"
      "apply_single_update os tz alloc off old (PyDict items) c = (PyRaise e, c)"
  | (io) c' where "apply_single_update os tz alloc off old (PyDict items) c = (PyRaise OSError, c')" "\<not> os_all_succeed os"
proof -
  have h: "holds_docs (co_data c) L E" using c(1) by (simp add: coll_holds_def)
  obtain o_items where o: "old = PyDict o_items" "storable o_items" "norm_items o_items = o_items"
    by (rule stored_document [OF h old])
  have wf: "wf_items o_items" "wf_items items" using o(2) doc(1) by (simp_all add: storable_def)
  obtain h1 ixs where r: "CollectionHandle_tombstone_record (int off) (co_data c) = (PyOk (), h1)"
    "index_update_for_delete tz old off (co_indexes c) = (PyOk (), ixs)" "paths ixs = paths (co_indexes c)"
    "holds_docs h1 rest E" "\<forall>ix \<in> set ixs. index_of tz E rest ix"
    unfolding rest_def by (rule remove_document [OF c old])
  have L: "distinct (map fst rest)" "\<forall>p \<in> set rest. fst p < E"
    using coll_offsets [OF c(1)] by (auto simp: rest_def distinct_map_filter)
  show thesis
  proof (rule py_encode_cases [OF wf(1), of alloc]; rule py_encode_cases [OF wf(2), of alloc])
    fix es es' assume e: "py_encode alloc (PyDict o_items) = PyOk (enc_doc es)" "py_encode alloc (PyDict items) = PyOk (enc_doc es')"
    show thesis
    proof (cases "enc_doc es' = enc_doc es")
      case True
      then have "old = new"
        using storable_encoded(2) [OF o(2) e(1)] storable_encoded(2) [OF doc(1) e(2)] o by (simp add: new_def)
      then show thesis using same e True o(1) by (simp add: apply_single_update_def)
    next
      case False
      note raw = storable_encoded [OF doc(1) e(2)]
      show thesis
        using r(4) raw(1,2) c(2)
      proof (cases rule: append_docs [where os = os])
        case app: (ok h2 E')
        have E': "E < E'" using app(3) by simp
        have ix: "\<forall>fp \<in> set (paths ixs). indexable tz (PyDict items) fp" using doc(2) r(3) by simp
        show thesis
          using app(2) r(5) L c(2) E' doc(1) e(2) ix
        proof (cases rule: index_new_document [where os = os])
          case (ok jxs)
          then show thesis using moved [of "enc_doc es" "enc_doc es'"] e False o(1) r(1-3) app(1,3)
            by (simp add: apply_single_update_def new_def conflicts_def)
        next
          case (dup jxs h3)
          then show thesis using that(3) [of "enc_doc es" "enc_doc es'"] e False o(1) r(1-3) app(1,3)
            by (simp add: apply_single_update_def new_def conflicts_def)
        next
          case (io jxs)
          then show thesis using that(5) e False o(1) r(1-3) app(1) by (simp add: apply_single_update_def)
        qed
      next
        case (io h2)
        then show thesis using that(5) e False o(1) r(1) by (simp add: apply_single_update_def)
      qed
    qed
  qed (use bad in \<open>simp_all add: apply_single_update_def o(1)\<close>)
qed

section \<open>Building an index over the documents\<close>

lemma first_tag_keyed: "\<forall>(off, x) \<in> set docs. \<exists>k. index_key tz x fp = PyOk k \<Longrightarrow> \<exists>t. first_tag tz fp docs = PyOk t"
proof (induction docs)
  case (Cons d docs)
  obtain off x where d: "d = (off, x)" by fastforce
  obtain k where "index_key tz x fp = PyOk k" using Cons.prems d by auto
  then have "encode_btree_key tz (resolve_index_value x fp) = PyOk k" by (simp add: index_key_def)
  then show ?case using Cons d by (cases "resolve_index_value x fp") simp_all
qed simp

lemma fill_index_cases:
  assumes "index_of tz b L (fp, h)" "sorted (map fst docs)" "distinct (map fst docs)"
    "\<forall>(off, x) \<in> set docs. b \<le> off \<and> off < E \<and> (\<exists>k. keyed tz fp x k)" "b \<le> E" "E \<le> 2 ^ 37" "os_all_succeed os"
  shows "if distinct (map (\<lambda>(off, x). doc_rank tz fp x) docs) \<and>
      set (map (\<lambda>(off, x). doc_rank tz fp x) docs) \<inter> set (map (\<lambda>(off, x). doc_rank tz fp x) L) = {}
    then \<exists>h'. fill_index os tz fp docs h = PyOk h' \<and> index_of tz E (L @ docs) (fp, h')
    else fill_index os tz fp docs h = PyRaise DuplicateKeyError"
  using assms(1-5)
proof (induction docs arbitrary: b L h)
  case Nil
  then show ?case using index_of_mono by auto
next
  case (Cons d docs)
  obtain off x where d: "d = (off, x)" by fastforce
  obtain k where k: "keyed tz fp x k" using Cons.prems(4) d by auto
  then have key: "index_key tz x fp = PyOk k" by (simp add: keyed_def)
  have off: "b \<le> off" "off < E" "off < 2 ^ 37" using Cons.prems(4) d assms(6) by auto
  have ranks: "conflict tz fp x M \<longleftrightarrow> doc_rank tz fp x \<in> set (map (\<lambda>(off, x). doc_rank tz fp x) M)" for M
    by (force simp: conflict_def)
  show ?case
    using index_of_mono [OF Cons.prems(1) off(1)] k off(3) lessI
  proof (cases rule: index_add [where os = os])
    case (ok h')
    have "Suc off \<le> o'" if "(o', y) \<in> set docs" for o' y
    proof -
      have "off \<le> o'" using Cons.prems(2) d that by auto
      moreover have "off \<noteq> o'" using Cons.prems(3) d that by force
      ultimately show ?thesis by simp
    qed
    then have p: "\<forall>(o', y) \<in> set docs. Suc off \<le> o' \<and> o' < E \<and> (\<exists>k. keyed tz fp y k)" using Cons.prems(4) by auto
    have i: "(distinct (map (\<lambda>(off, x). doc_rank tz fp x) docs) \<and>
        set (map (\<lambda>(off, x). doc_rank tz fp x) docs) \<inter> set (map (\<lambda>(off, x). doc_rank tz fp x) (L @ [(off, x)])) = {}) \<longleftrightarrow>
      (distinct (map (\<lambda>(off, x). doc_rank tz fp x) (d # docs)) \<and>
        set (map (\<lambda>(off, x). doc_rank tz fp x) (d # docs)) \<inter> set (map (\<lambda>(off, x). doc_rank tz fp x) L) = {})"
      using ok(3) d unfolding ranks by auto
    have f: "fill_index os tz fp (d # docs) h = fill_index os tz fp docs h'" using d key ok(1) by simp
    have "sorted (map fst docs)" "distinct (map fst docs)" "Suc off \<le> E" using Cons.prems(2,3) off(2) by auto
    from Cons.IH [OF ok(2) this(1,2) p this(3)] show ?thesis unfolding i f using d by (simp only: append.assoc append.simps)
  next
    case dup
    then show ?thesis using d key unfolding ranks by auto
  next
    case (io h')
    then show ?thesis using assms(7) by simp
  qed
qed

section \<open>Compaction\<close>

lemma first_live_drop: "first_live rs k = None \<Longrightarrow> filter fst (drop k rs) = []"
  "first_live rs k = Some j \<Longrightarrow> filter fst (drop k rs) = (True, snd (rs ! j)) # filter fst (drop (Suc j) rs)"
proof -
  have "(first_live rs k = None \<longrightarrow> filter fst (drop k rs) = []) \<and>
      (first_live rs k = Some j \<longrightarrow> filter fst (drop k rs) = (True, snd (rs ! j)) # filter fst (drop (Suc j) rs))"
  proof (induction "length rs - k" arbitrary: k)
    case 0
    then show ?case by simp
  next
    case (Suc n)
    then have k: "k < length rs" by simp
    have "drop k rs = rs ! k # drop (Suc k) rs" using k by (simp add: Cons_nth_drop_Suc)
    then show ?case using Suc.hyps(1) [of "Suc k"] Suc.hyps(2) k by (cases "rs ! k") (auto simp: first_live_step)
  qed
  then show "first_live rs k = None \<Longrightarrow> filter fst (drop k rs) = []"
    "first_live rs k = Some j \<Longrightarrow> filter fst (drop k rs) = (True, snd (rs ! j)) # filter fst (drop (Suc j) rs)"
    by simp_all
qed

lemma log_bytes_filter: "length (log_bytes (filter P rs)) \<le> length (log_bytes rs)"
  by (induction rs) auto

lemma holds_log_framed: "holds_log h rs \<Longrightarrow> r \<in> set rs \<Longrightarrow> doc_framed (snd r)"
  by (auto simp: holds_log_def log_repr_def log_image_def)

lemma compact_copy_live:
  assumes h: "holds_log h rs"
    and "CollectionHandle_next_live_offset prev h = (PyOk (map_option (rec_off rs) (first_live rs k)), h)" "k \<le> length rs"
    "length rs - k < fuel" "holds_log tmp ts" "os_all_succeed os"
    "64 + length (log_bytes (ts @ filter fst (drop k rs))) \<le> 2 ^ 61"
  shows "\<exists>tmp'. compact_copy os fuel prev h tmp = (PyOk (), tmp') \<and> holds_log tmp' (ts @ filter fst (drop k rs))"
  using assms(2-)
proof (induction fuel arbitrary: prev k tmp ts)
  case (Suc fuel)
  show ?case
  proof (cases "first_live rs k")
    case None
    then show ?thesis using Suc.prems(1,4) first_live_drop(1) [OF None] by simp
  next
    case (Some j)
    then have j: "k \<le> j" "j < length rs" "fst (rs ! j)" using first_live_Some [OF Some] by simp_all
    have rest: "filter fst (drop k rs) = (True, snd (rs ! j)) # filter fst (drop (Suc j) rs)" by (rule first_live_drop(2) [OF Some])
    have "fits_log ts (snd (rs ! j))"
      using holds_log_framed [OF h, of "rs ! j"] j(2) Suc.prems(6) rest by (simp add: fits_log_def)
    then obtain tmp' off where t: "CollectionHandle_append_record os (snd (rs ! j)) tmp = (PyOk off, tmp')"
      "holds_log tmp' (ts @ [(True, snd (rs ! j))])"
      using append_record_holds [OF Suc.prems(4), of "snd (rs ! j)" os] Suc.prems(5) by metis
    have "\<exists>tmp''. compact_copy os fuel (int (rec_off rs j)) h tmp' = (PyOk (), tmp'') \<and>
        holds_log tmp'' ((ts @ [(True, snd (rs ! j))]) @ filter fst (drop (Suc j) rs))"
      by (rule Suc.IH [OF next_live_offset_holds(2) [OF h j(2)] _ _ t(2) Suc.prems(5)])
        (use j Suc.prems(3,6) rest in simp_all)
    then show ?thesis using Some Suc.prems(1) read_record_holds [OF h j(2)] j t(1) rest by simp
  qed
qed simp

end
