(* ===== verification/Collection_Properties.thy ===== *)
theory Collection_Properties
  imports Collection_Steps
begin

text \<open>
  The properties of a collection with unique indexes: codec, data file and index files composed as
  python/bsondb/collection.py composes them, each with an application to a concrete collection.
\<close>

section \<open>A collection for the examples\<close>

text \<open>The documents \<^verbatim>\<open>{"a": v, "_id": ObjectId(12 * b"\x00")}\<close>, and a unique index on \<^verbatim>\<open>a\<close>.\<close>

definition sample_id :: pyval where
  "sample_id = PyObjectId (Some (PyBytes (replicate 12 0)))"

definition sample_doc_of :: "int \<Rightarrow> (pyval \<times> pyval) list" where
  "sample_doc_of v = [(PyStr [97], PyInt v), (id_key, sample_id)]"

definition sample_elems :: "int \<Rightarrow> welems" where
  "sample_elems v = [([97], WInt32 (word_of_int v)), ([95, 105, 100], WObjectId (replicate 12 0))]"

definition utc :: "py_datetime \<Rightarrow> int" where
  "utc d = 0"

lemma sample_doc_keys: "key_bytes (PyStr [97]) = Some [97]" "key_bytes id_key = Some [95, 105, 100]"
  by (simp_all add: key_bytes_def encode_key_def PyUnicode_AsUTF8AndSize_def scalar_def utf8_encode_def id_key_def)

lemma sample_doc_storable: "storable (sample_doc_of v)" "wire_items (sample_doc_of 5) = Some (sample_elems 5)"
  "norm_items (sample_doc_of v) = sample_doc_of v" "with_id sample_id (sample_doc_of v) = sample_doc_of v"
  "with_id sample_id [(PyStr [97], PyInt v)] = sample_doc_of v"
  by (simp_all add: storable_def sample_doc_of_def sample_elems_def sample_id_def sample_doc_keys py_wf.simps plain_val.simps
      wire_val.simps wire_scalar_def INT32_MAX_def norm_val.simps with_id_def)
    (simp_all add: id_key_def)

lemma split_a: "split_dots [97] = [[97]]"
  by simp

lemma sample_resolve: "resolve_index_value (PyDict (sample_doc_of v)) [97] = PyInt v"
  by (simp add: resolve_index_value_def sample_doc_of_def)

lemma sample_indexable: "- (2 ^ 63) \<le> v \<Longrightarrow> v < 2 ^ 63 \<Longrightarrow> indexable tz (PyDict (sample_doc_of v)) [97]"
  by (simp add: indexable_def sample_resolve encode_btree_key_def)

lemma sample_doc_encode:
  obtains raw where "py_encode (\<lambda>_. True) (PyDict (sample_doc_of 5)) = PyOk raw" "length raw \<le> BSON_MAX_DOCUMENT_SIZE"
proof -
  have wf: "wf_items (sample_doc_of 5)" using sample_doc_storable(1) by (simp add: storable_def)
  have es: "depth_elems (sample_elems 5) \<le> BSON_MAX_DEPTH" "length (enc_doc (sample_elems 5)) \<le> BSON_MAX_DOCUMENT_SIZE"
    by (simp_all add: sample_elems_def BSON_MAX_DEPTH_def BSON_MAX_DOCUMENT_SIZE_def)
  show thesis
  proof (rule py_encode_cases [OF wf, of "\<lambda>_. True"])
    fix e assume "(\<exists>c :: nat. \<not> True) \<or> (\<nexists>es. wire_items (sample_doc_of 5) = Some es \<and> depth_elems es \<le> BSON_MAX_DEPTH \<and>
        length (enc_doc es) \<le> BSON_MAX_DOCUMENT_SIZE)"
    then show thesis using es sample_doc_storable(2) by simp
  qed (use that in blast)
qed

text \<open>An empty collection with an index, and one that holds a document.\<close>

lemma empty_collection:
  assumes "length fp < 200"
  shows "\<exists>c. coll_holds tz c [] 64 \<and> paths (co_indexes c) = [fp]"
proof -
  obtain h where h: "holds_log h []" using open_created [OF perfect_os_succeeds] by blast
  obtain i where i: "holds_tree i (Lf 1 [])" "handle_unique i = True" "handle_pages i = 1"
    by (rule create_index_holds [OF perfect_os_succeeds, of "[97]" "[]" 2 True False]) simp_all
  have "index_of tz 64 [] (fp, i)"
    unfolding index_of_def using fresh_map [of i] i by (intro exI [of _ Map.empty] exI [of _ "{}"]) (simp add: maps_docs_def)
  moreover have "holds_docs h [] 64"
    unfolding holds_docs_def using h by (intro exI [of _ "[]"]) (simp add: live_from_def rec_off_def)
  ultimately have "coll_holds tz \<lparr>co_data = h, co_indexes = [(fp, i)]\<rparr> [] 64" by (simp add: coll_holds_def)
  then show ?thesis by (intro exI [of _ "\<lparr>co_data = h, co_indexes = [(fp, i)]\<rparr>"]) simp
qed

lemma one_document:
  assumes doc: "storable items" "norm_items items = items" "indexable tz (PyDict items) fp"
    and raw: "py_encode (\<lambda>_. True) (PyDict items) = PyOk raw" and fp: "length fp < 200"
  shows "\<exists>c. coll_holds tz c [(64, PyDict items)] (65 + length raw) \<and> paths (co_indexes c) = [fp]"
proof -
  obtain c where c: "coll_holds tz c [] 64" "paths (co_indexes c) = [fp]" using empty_collection [OF fp] by blast
  have ix: "\<forall>fp \<in> set (paths (co_indexes c)). indexable tz (PyDict items) fp" using c(2) doc(3) by simp
  have "(64 :: nat) < 2 ^ 37" by simp
  from c(1) this doc(1) raw ix show ?thesis
  proof (cases rule: add_document_cases [where os = perfect_os])
    case (ok c' E')
    then show ?thesis using c(2) by (intro exI [of _ c']) (simp add: doc(2))
  next
    case (dup c' E')
    then show ?thesis by (simp add: conflicts_def conflict_def)
  next
    case (io c')
    then show ?thesis by simp
  qed
qed

lemma sample_collection:
  "\<exists>c E. coll_holds utc c [(64, PyDict (sample_doc_of 5))] E \<and> E < 2 ^ 37 \<and> paths (co_indexes c) = [[97]]"
proof -
  obtain raw where raw: "py_encode (\<lambda>_. True) (PyDict (sample_doc_of 5)) = PyOk raw" "length raw \<le> BSON_MAX_DOCUMENT_SIZE"
    by (rule sample_doc_encode)
  obtain c where "coll_holds utc c [(64, PyDict (sample_doc_of 5))] (65 + length raw)" "paths (co_indexes c) = [[97]]"
    using one_document [OF sample_doc_storable(1,3) sample_indexable raw(1)] by auto
  then show ?thesis
    using raw(2) by (intro exI [of _ c] exI [of _ "65 + length raw"]) (simp add: BSON_MAX_DOCUMENT_SIZE_def)
qed

section \<open>Properties\<close>

text \<open>
  C5. \<^verbatim>\<open>insert_one\<close> of a document that can be stored and for whose field values every index has a key, on a
  collection with unique indexes in a data file below \<open>2 ^ 37\<close> bytes: it adds the document at the end of
  the file and to every index; or some index has its key already, \<^verbatim>\<open>DuplicateKeyError\<close> is raised and the
  collection and all its indexes hold what they held; or the encoding fails, and nothing has changed; or a system call has failed. What happens when an index has no key for the document is
  the theorem \<open>insert_unindexable\<close> below: file and indexes no longer agree then.
\<close>

theorem insert_one_exact:
  assumes c: "coll_holds tz c L E" "E < 2 ^ 37" and doc: "storable (with_id new_id document)"
    and ix: "\<forall>fp \<in> set (paths (co_indexes c)). indexable tz (PyDict (with_id new_id document)) fp"
  shows "case insert_one os tz alloc new_id document c of
      (PyOk _, c') \<Rightarrow> (\<exists>E'. coll_holds tz c' (L @ [(E, PyDict (norm_items (with_id new_id document)))]) E') \<and>
        \<not> conflicts tz c (PyDict (norm_items (with_id new_id document))) L
    | (PyRaise e, c') \<Rightarrow>
        e = DuplicateKeyError \<and> (\<exists>E'. coll_holds tz c' L E') \<and>
          conflicts tz c (PyDict (norm_items (with_id new_id document))) L \<or>
        py_encode alloc (PyDict (with_id new_id document)) = PyRaise e \<and> c' = c \<or>
        e = OSError \<and> \<not> os_all_succeed os
    | _ \<Rightarrow> False"
proof -
  define items where "items = with_id new_id document"
  have items: "storable items" "\<forall>fp \<in> set (paths (co_indexes c)). indexable tz (PyDict items) fp"
    using doc ix by (simp_all add: items_def)
  then have wf: "wf_items items" by (simp add: storable_def)
  show ?thesis unfolding items_def [symmetric] insert_one_def Let_def
  proof (rule py_encode_cases [OF wf, of alloc])
    fix es assume raw: "py_encode alloc (PyDict items) = PyOk (enc_doc es)"
    show "case case py_encode alloc (PyDict items) of PyOk raw \<Rightarrow> add_document os tz (PyDict items) raw c
        | r \<Rightarrow> (py_raise r, c) of
      (PyOk _, c') \<Rightarrow> (\<exists>E'. coll_holds tz c' (L @ [(E, PyDict (norm_items items))]) E') \<and>
        \<not> conflicts tz c (PyDict (norm_items items)) L
    | (PyRaise e, c') \<Rightarrow>
        e = DuplicateKeyError \<and> (\<exists>E'. coll_holds tz c' L E') \<and> conflicts tz c (PyDict (norm_items items)) L \<or>
        py_encode alloc (PyDict items) = PyRaise e \<and> c' = c \<or> e = OSError \<and> \<not> os_all_succeed os
    | _ \<Rightarrow> False"
      using c items(1) raw items(2)
    proof (cases rule: add_document_cases [where os = os])
      case (ok c' E')
      then show ?thesis using raw by auto
    next
      case (dup c' E')
      then show ?thesis using raw by auto
    next
      case (io c')
      then show ?thesis using raw by simp
    qed
  qed simp
qed

theorem insert_one_exact_witness:
  "\<exists>c E. coll_holds utc c [(64, PyDict (sample_doc_of 5))] E \<and>
    (case insert_one perfect_os utc (\<lambda>_. True) sample_id [(PyStr [97], PyInt 5)] c of
      (PyOk _, c') \<Rightarrow> (\<exists>E'. coll_holds utc c' ([(64, PyDict (sample_doc_of 5))] @ [(E, PyDict (sample_doc_of 5))]) E') \<and>
        \<not> conflicts utc c (PyDict (sample_doc_of 5)) [(64, PyDict (sample_doc_of 5))]
    | (PyRaise e, c') \<Rightarrow>
        e = DuplicateKeyError \<and> (\<exists>E'. coll_holds utc c' [(64, PyDict (sample_doc_of 5))] E') \<and>
          conflicts utc c (PyDict (sample_doc_of 5)) [(64, PyDict (sample_doc_of 5))] \<or>
        py_encode (\<lambda>_. True) (PyDict (sample_doc_of 5)) = PyRaise e \<and> c' = c \<or>
        e = OSError \<and> \<not> os_all_succeed perfect_os
    | _ \<Rightarrow> False)"
proof -
  obtain c E where c: "coll_holds utc c [(64, PyDict (sample_doc_of 5))] E" "E < 2 ^ 37" "paths (co_indexes c) = [[97]]"
    using sample_collection by blast
  have i: "\<forall>fp \<in> set (paths (co_indexes c)). indexable utc (PyDict (sample_doc_of 5)) fp"
    using c(3) sample_indexable [of 5 utc] by simp
  show ?thesis
    using insert_one_exact [OF c(1,2), where os = perfect_os and alloc = "\<lambda>_. True" and
        new_id = sample_id and document = "[(PyStr [97], PyInt 5)]", unfolded sample_doc_storable(3,5), OF sample_doc_storable(1) i] c(1)
    by (intro exI [of _ c] exI [of _ E] conjI)
qed

text \<open>
  C6. Finding through an index gives what a scan gives, under two conditions, on a collection with unique
  indexes: the filter can be evaluated on the documents; and if an index on the field of its one equality is
  asked, the index compares the values there as Python does (no list on the path of the field, numbers
  of one type). Then the documents found are exactly those of the collection that match, in the order of
  their offsets; the only failure is memory for the offsets. Outside of the second condition an index
  hides matching documents: \<open>float_query_misses_integers\<close> below, and \<open>list_query_misses\<close> of Index_Order.
\<close>

theorem find_exact:
  assumes "coll_holds tz c L E" "E \<le> fuel" "answerable filt L" "index_sound (paths (co_indexes c)) L filt"
  shows "iter_matches tz alloc fuel filt c = PyOk (filter (\<lambda>d. matches (snd d) (resolved_filter filt) = PyOk True) L) \<or>
    iter_matches tz alloc fuel filt c = PyRaise MemoryError \<and> \<not> (\<forall>n. alloc n)"
  using iter_matches_cases [OF assms(1,2) answers_matching [OF assms(1,3,4)], of alloc] unfolding matching_def .

definition eq_filter :: "nat list \<Rightarrow> pyval \<Rightarrow> pyval" where
  "eq_filter fld v = PyDict [(PyStr fld, v)]"

lemma resolved_eq_filter [simp]: "resolved_filter (eq_filter fld v) = eq_filter fld v"
  by (simp add: resolved_filter_def eq_filter_def)

lemma eq_clause_literal:
  "\<not> starts_with_dollar fld \<Longrightarrow> \<forall>ops. v \<noteq> PyDict ops \<Longrightarrow> eq_clause (eq_filter fld v) = Some (fld, v)"
  by (cases v) (simp_all add: eq_clause_def eq_filter_def)

lemma sample_filter: "eq_clause (eq_filter [97] (PyInt v)) = Some ([97], PyInt v)"
  "matches (PyDict (sample_doc_of u)) (eq_filter [97] (PyInt v)) = PyOk (u = v)"
  "matches (PyDict []) (eq_filter [97] (PyInt v)) = PyOk False"
proof -
  show eq: "eq_clause (eq_filter [97] (PyInt v)) = Some ([97], PyInt v)"
    by (rule eq_clause_literal) (simp_all add: starts_with_dollar_def)
  show "matches (PyDict (sample_doc_of u)) (eq_filter [97] (PyInt v)) = PyOk (u = v)"
    "matches (PyDict []) (eq_filter [97] (PyInt v)) = PyOk False"
    by (subst eq_clause_matches [OF eq]; simp add: eq_holds_def sample_doc_of_def values_equal_def py_eq.simps double_scale_def)+
qed

lemma sample_query:
  "answerable (eq_filter [97] (PyInt v)) [(off, PyDict (sample_doc_of u))]"
  "index_sound F [(off, PyDict (sample_doc_of u))] (eq_filter [97] (PyInt v))"
proof -
  show "answerable (eq_filter [97] (PyInt v)) [(off, PyDict (sample_doc_of u))]"
    by (auto simp: answerable_def sample_filter)
  have "list_free (PyDict (sample_doc_of u)) [[97]]" by (simp add: sample_doc_of_def)
  then show "index_sound F [(off, PyDict (sample_doc_of u))] (eq_filter [97] (PyInt v))"
    using sample_resolve [of u] by (simp add: index_sound_def sample_filter del: list_free.simps)
qed

theorem find_exact_witness:
  "\<exists>c E. paths (co_indexes c) = [[97]] \<and>
    iter_matches utc (\<lambda>_. True) E (eq_filter [97] (PyInt 5)) c = PyOk [(64, PyDict (sample_doc_of 5))]"
proof -
  obtain c E where c: "coll_holds utc c [(64, PyDict (sample_doc_of 5))] E" "paths (co_indexes c) = [[97]]"
    using sample_collection by blast
  show ?thesis
    using find_exact [OF c(1) order_refl sample_query, where alloc = "\<lambda>_. True"] c(2) sample_filter(2) [of 5 5]
    by (intro exI [of _ c] exI [of _ E]) simp
qed

text \<open>
  \<^verbatim>\<open>delete_many\<close> deletes exactly the documents that match, from the file and from every index, and
  returns their number; or memory runs out and nothing is deleted.
\<close>

theorem delete_many_exact:
  assumes c: "coll_holds tz c L E" "E < 2 ^ 37" and fuel: "E \<le> fuel"
    and f: "answerable filt L" "index_sound (paths (co_indexes c)) L filt"
  shows "case delete_many tz alloc fuel filt c of
      (PyOk n, c') \<Rightarrow> n = length (filter (\<lambda>d. matching filt (snd d)) L) \<and> coll_holds tz c' (filter (\<lambda>d. \<not> matching filt (snd d)) L) E
    | (PyRaise e, c') \<Rightarrow> e = MemoryError \<and> \<not> (\<forall>n. alloc n) \<and> c' = c
    | _ \<Rightarrow> False"
proof -
  let ?ts = "filter (\<lambda>d. matching filt (snd d)) L"
  have d: "distinct (map fst L)" by (rule coll_offsets [OF c(1)])
  obtain c' where "delete_targets tz ?ts c = (PyOk (), c')" "coll_holds tz c' (filter (\<lambda>q. fst q \<notin> fst ` set ?ts) L) E"
    using delete_targets_holds [OF c, of ?ts] d by (auto simp: distinct_map_filter)
  then have t: "delete_targets tz ?ts c = (PyOk (), c')" "coll_holds tz c' (filter (\<lambda>d. \<not> matching filt (snd d)) L) E"
    unfolding filter_fst [OF d] by simp_all
  from iter_matches_cases [OF c(1) fuel answers_matching [OF c(1) f], of alloc] show ?thesis
    by (elim disjE conjE) (simp_all add: delete_many_def t)
qed

theorem delete_many_exact_witness:
  "\<exists>c E c'. paths (co_indexes c) = [[97]] \<and>
    delete_many utc (\<lambda>_. True) E (eq_filter [97] (PyInt 5)) c = (PyOk 1, c') \<and> coll_holds utc c' [] E"
proof -
  obtain c E where c: "coll_holds utc c [(64, PyDict (sample_doc_of 5))] E" "E < 2 ^ 37" "paths (co_indexes c) = [[97]]"
    using sample_collection by blast
  obtain r c' where r: "delete_many utc (\<lambda>_. True) E (eq_filter [97] (PyInt 5)) c = (r, c')" by fastforce
  from delete_many_exact [OF c(1,2) order_refl sample_query [where v = 5], where alloc = "\<lambda>_. True"] show ?thesis
    using r c(3) sample_filter(2) [of 5 5]
    by (intro exI [of _ c] exI [of _ E] exI [of _ c']) (simp add: matching_def split: py.splits)
qed

text \<open>
  C16. Updating a document to one that can be stored and for whose field values every (unique) index has a key
  moves it: either its bytes are the same and nothing changes; or the old
  document is gone from the file and all indexes, and the new one is at the end of the file and in
  all of them. When a unique index refuses the new document, \<^verbatim>\<open>DuplicateKeyError\<close> is raised with the
  collection consistent but without either of the two: the old document is lost.
\<close>

theorem update_moves:
  assumes c: "coll_holds tz c L E" "E < 2 ^ 37" and old: "(off, old) \<in> set L"
    and doc: "storable items" "\<forall>fp \<in> set (paths (co_indexes c)). indexable tz (PyDict items) fp"
    and rest: "rest = filter (\<lambda>d. fst d \<noteq> off) L" and new: "new = PyDict (norm_items items)"
  shows "case apply_single_update os tz alloc off old (PyDict items) c of
      (PyOk n, c') \<Rightarrow> n = 0 \<and> old = new \<and> c' = c \<or>
        n = 1 \<and> (\<exists>E'. coll_holds tz c' (rest @ [(E, new)]) E') \<and> \<not> conflicts tz c new rest
    | (PyRaise e, c') \<Rightarrow>
        e = DuplicateKeyError \<and> (\<exists>E'. coll_holds tz c' rest E') \<and> conflicts tz c new rest \<or>
        (py_encode alloc old = PyRaise e \<or> py_encode alloc (PyDict items) = PyRaise e) \<and> c' = c \<or>
        e = OSError \<and> \<not> os_all_succeed os
    | _ \<Rightarrow> False"
  using c old doc
proof (cases rule: apply_update_cases [where os = os and alloc = alloc])
  case same
  then show ?thesis by (simp add: new)
next
  case (moved raw_old raw c')
  then show ?thesis by (auto simp: rest new)
next
  case (dup raw_old raw c')
  then show ?thesis by (auto simp: rest new)
next
  case (bad e)
  then show ?thesis by auto
next
  case (io c')
  then show ?thesis by simp
qed

theorem update_moves_witness:
  "\<exists>c E. coll_holds utc c [(64, PyDict (sample_doc_of 5))] E \<and>
    (case apply_single_update perfect_os utc (\<lambda>_. True) 64 (PyDict (sample_doc_of 5)) (PyDict (sample_doc_of 7)) c of
      (PyOk n, c') \<Rightarrow> n = 0 \<and> PyDict (sample_doc_of 5) = PyDict (sample_doc_of 7) \<and> c' = c \<or>
        n = 1 \<and> (\<exists>E'. coll_holds utc c' ([] @ [(E, PyDict (sample_doc_of 7))]) E') \<and> \<not> conflicts utc c (PyDict (sample_doc_of 7)) []
    | (PyRaise e, c') \<Rightarrow>
        e = DuplicateKeyError \<and> (\<exists>E'. coll_holds utc c' [] E') \<and> conflicts utc c (PyDict (sample_doc_of 7)) [] \<or>
        (py_encode (\<lambda>_. True) (PyDict (sample_doc_of 5)) = PyRaise e \<or> py_encode (\<lambda>_. True) (PyDict (sample_doc_of 7)) = PyRaise e) \<and>
          c' = c \<or>
        e = OSError \<and> \<not> os_all_succeed perfect_os
    | _ \<Rightarrow> False)"
proof -
  obtain c E where c: "coll_holds utc c [(64, PyDict (sample_doc_of 5))] E" "E < 2 ^ 37" "paths (co_indexes c) = [[97]]"
    using sample_collection by blast
  have i: "\<forall>fp \<in> set (paths (co_indexes c)). indexable utc (PyDict (sample_doc_of 7)) fp"
    using c(3) sample_indexable [of 7 utc] by simp
  show ?thesis
    by (rule exI [of _ c], rule exI [of _ E], rule conjI [OF c(1)],
      rule update_moves [OF c(1,2) _ sample_doc_storable(1) i]) (simp_all add: sample_doc_storable(3))
qed

text \<open>
  C33. \<^verbatim>\<open>insert_one\<close> of a document whose indexed value has no key (a string, say) raises, but the
  document stays in the collection, where a scan finds it, and is in no index: only
  \<^verbatim>\<open>DuplicateKeyError\<close> takes the record back.
\<close>

theorem insert_unindexable:
  assumes h: "holds_docs (co_data c) L E" "E < 2 ^ 37" and os: "os_all_succeed os"
    and doc: "storable (with_id new_id document)" "py_encode alloc (PyDict (with_id new_id document)) = PyOk raw"
    and ix: "co_indexes c = (fp, i) # ixs" "index_key tz (PyDict (with_id new_id document)) fp = PyRaise e" "e \<noteq> DuplicateKeyError"
  shows "\<exists>c' E'. insert_one os tz alloc new_id document c = (PyRaise e, c') \<and> co_indexes c' = co_indexes c \<and>
    holds_docs (co_data c') (L @ [(E, PyDict (norm_items (with_id new_id document)))]) E'"
proof -
  note raw = storable_encoded [OF doc]
  show ?thesis
    using h(1) raw(1,2) h(2)
  proof (cases rule: append_docs [where os = os])
    case (ok h' E')
    then show ?thesis using doc(2) ix
      by (intro exI [of _ "\<lparr>co_data = h', co_indexes = co_indexes c\<rparr>"] exI [of _ E'])
        (simp add: insert_one_def add_document_def)
  next
    case (io h')
    then show ?thesis using os by simp
  qed
qed

text \<open>The document \<^verbatim>\<open>{"a": "", "_id": ObjectId(12 * b"\x00")}\<close>.\<close>

definition text_doc :: "(pyval \<times> pyval) list" where
  "text_doc = [(PyStr [97], PyStr []), (id_key, sample_id)]"

lemma text_doc: "storable (with_id sample_id text_doc)" "with_id sample_id text_doc = text_doc" "norm_items text_doc = text_doc"
  "\<exists>raw. py_encode (\<lambda>_. True) (PyDict (with_id sample_id text_doc)) = PyOk raw"
  "index_key utc (PyDict (with_id sample_id text_doc)) [97] = PyRaise BSONNotImplementedError"
proof -
  show d: "with_id sample_id text_doc = text_doc" by (simp add: with_id_def text_doc_def)
  have w: "wire_items text_doc = Some [([97], WString [0]), ([95, 105, 100], WObjectId (replicate 12 0))]"
    by (simp add: text_doc_def sample_id_def sample_doc_keys wire_val.simps wire_scalar_def INT32_MAX_def PyUnicode_AsUTF8AndSize_def)
  show s: "storable (with_id sample_id text_doc)" unfolding d
    by (simp add: storable_def text_doc_def sample_id_def sample_doc_keys py_wf.simps plain_val.simps)
      (simp add: id_key_def)
  show "norm_items text_doc = text_doc" by (simp add: text_doc_def sample_id_def norm_val.simps)
  show "index_key utc (PyDict (with_id sample_id text_doc)) [97] = PyRaise BSONNotImplementedError"
    unfolding d by (simp add: index_key_def resolve_index_value_def text_doc_def encode_btree_key_def)
  have "wf_items text_doc" using s by (simp add: d storable_def)
  then show "\<exists>raw. py_encode (\<lambda>_. True) (PyDict (with_id sample_id text_doc)) = PyOk raw"
    unfolding d by (rule py_encode_cases [where alloc = "\<lambda>_. True"])
      (auto simp: w BSON_MAX_DEPTH_def BSON_MAX_DOCUMENT_SIZE_def)
qed

theorem insert_unindexable_witness:
  "\<exists>c E c' E'. coll_holds utc c [(64, PyDict (sample_doc_of 5))] E \<and> paths (co_indexes c) = [[97]] \<and>
    insert_one perfect_os utc (\<lambda>_. True) sample_id text_doc c = (PyRaise BSONNotImplementedError, c') \<and>
    co_indexes c' = co_indexes c \<and> holds_docs (co_data c') [(64, PyDict (sample_doc_of 5)), (E, PyDict text_doc)] E'"
proof -
  obtain c E where c: "coll_holds utc c [(64, PyDict (sample_doc_of 5))] E" "E < 2 ^ 37" "paths (co_indexes c) = [[97]]"
    using sample_collection by blast
  obtain i where i: "co_indexes c = ([97], i) # []" using c(3) by (cases "co_indexes c") (auto simp: paths_def)
  have h: "holds_docs (co_data c) [(64, PyDict (sample_doc_of 5))] E" using c(1) by (simp add: coll_holds_def)
  obtain raw where raw: "py_encode (\<lambda>_. True) (PyDict (with_id sample_id text_doc)) = PyOk raw" using text_doc(4) by blast
  have "BSONNotImplementedError \<noteq> DuplicateKeyError" by simp
  from insert_unindexable [OF h c(2) perfect_os_succeeds text_doc(1) raw i text_doc(5) this] c(1,3) show ?thesis
    by (simp add: text_doc(2,3)) blast
qed

text \<open>
  An index hides what matches, where the key of the filter's value is that of no document: the documents
  found by a scan are not found once the field is indexed.
\<close>

lemma index_hides:
  assumes c: "coll_holds tz c L E" "E \<le> fuel" and fld: "fld \<in> set (paths (co_indexes c))"
    and eq: "eq_clause f = Some (fld, v)" "resolved_filter f = f" and k: "encode_btree_key tz v = PyOk k" "key_ok k"
    and none: "\<And>off x. (off, x) \<in> set L \<Longrightarrow> doc_rank tz fld x \<noteq> Some (key_rank k)"
    and m: "\<forall>(off, x) \<in> set L. matches x f = PyOk (q x)"
  shows "iter_matches tz (\<lambda>_. True) fuel f c = PyOk [] \<and>
    iter_matches tz (\<lambda>_. True) fuel f (c\<lparr>co_indexes := []\<rparr>) = PyOk (filter (\<lambda>d. q (snd d)) L)"
proof -
  have h: "holds_docs (co_data c) L E" and ixs: "\<forall>ix \<in> set (co_indexes c). index_of tz E L ix"
    using c by (simp_all add: coll_holds_def)
  have e: "\<exists>b. matches (PyDict []) f = PyOk b"
  proof -
    have "list_free (PyDict []) (split_dots fld)" by (cases "split_dots fld") simp_all
    then show ?thesis using eq_clause_matches [OF eq(1)] by blast
  qed
  have "lookup_eq tz (\<lambda>_. True) fld v jxs = PyOk (Some [])"
    if "fld \<in> set (paths jxs)" "set jxs \<subseteq> set (co_indexes c)" for jxs
    using that
  proof (induction jxs)
    case (Cons ix jxs)
    obtain fp i where ix: "ix = (fp, i)" by fastforce
    show ?case
    proof (cases "fp = fld")
      case True
      then have "index_of tz E L (fld, i)" using Cons.prems(2) ixs ix by auto
      from index_find [OF this k(2), of "\<lambda>_. True"] obtain offs where o: "IndexHandle_lookup (\<lambda>_. True) k i = (PyOk offs, i)"
        "\<forall>off \<in> set offs. \<exists>x. (off, x) \<in> set L \<and> doc_rank tz fld x = Some (key_rank k)" by auto
      then have "offs = []" using none by (cases offs) auto
      then show ?thesis using o(1) True ix k(1) by simp
    next
      case False
      then show ?thesis using Cons ix by simp
    qed
  qed simp
  from this [OF fld order_refl] scan_holds_docs [OF h c(2) m] e show ?thesis
    by (auto simp: iter_matches_def index_lookup_for_filter_def eq Let_def)
qed

text \<open>
  With an index on a field that holds integers, an equality filter with a float finds nothing, since
  keys of different types differ (\<^verbatim>\<open>5\<close> and \<^verbatim>\<open>5.0\<close>); without the index the scan finds all documents
  whose value is equal to the float.
\<close>

theorem float_query_misses_integers:
  assumes c: "coll_holds tz c L E" "E \<le> fuel" and fld: "fld \<in> set (paths (co_indexes c))" and w: "\<not> double_nan w"
    and ints: "\<forall>(off, x) \<in> set L. \<exists>i. direct_value x (split_dots fld) = Some (PyInt i)" and path: "\<not> starts_with_dollar fld"
  shows "iter_matches tz (\<lambda>_. True) fuel (eq_filter fld (PyFloat w)) c = PyOk [] \<and>
    iter_matches tz (\<lambda>_. True) fuel (eq_filter fld (PyFloat w)) (c\<lparr>co_indexes := []\<rparr>) =
      PyOk (filter (\<lambda>d. values_equal (resolve_index_value (snd d) fld) (PyFloat w)) L)"
proof (rule index_hides [OF c fld eq_clause_literal [OF path] resolved_eq_filter])
  define k where "k = BSON_BTREE_TAG_DOUBLE # nat_le 8 (unat w) @ replicate 4 0"
  show k: "encode_btree_key tz (PyFloat w) = PyOk k" using w by (simp add: encode_btree_key_def k_def)
  show "key_ok k" by (rule query_key_ok [OF _ k]) simp
  have v: "\<exists>i. direct_value x (split_dots fld) = Some (PyInt i)" if "(off, x) \<in> set L" for off x
    using ints that by blast
  show "doc_rank tz fld x \<noteq> Some (key_rank k)" if "(off, x) \<in> set L" for off x
    using v [OF that] by (auto simp: doc_rank_def index_key_def resolve_index_value_def encode_btree_key_def k_def key_rank_def
        btree_tag_defs split: if_splits)
  have "matches x (eq_filter fld (PyFloat w)) = PyOk (values_equal (resolve_index_value x fld) (PyFloat w))"
    if x: "(off, x) \<in> set L" for off x
  proof -
    obtain i where i: "direct_value x (split_dots fld) = Some (PyInt i)" using v [OF x] by blast
    have "matches x (eq_filter fld (PyFloat w)) = PyOk (eq_holds x fld (PyFloat w))"
      by (rule eq_clause_matches [OF eq_clause_literal [OF path]]) (simp_all add: direct_list_free [OF i])
    then show ?thesis using i by (simp add: eq_holds_def resolve_index_value_def)
  qed
  then show "\<forall>(off, x) \<in> set L. matches x (eq_filter fld (PyFloat w)) = PyOk (values_equal (resolve_index_value x fld) (PyFloat w))"
    by auto
qed simp

theorem float_query_misses_integers_witness:
  "\<exists>c E. iter_matches utc (\<lambda>_. True) E (eq_filter [97] (PyFloat 0x4014000000000000)) c = PyOk [] \<and>
    iter_matches utc (\<lambda>_. True) E (eq_filter [97] (PyFloat 0x4014000000000000)) (c\<lparr>co_indexes := []\<rparr>) =
      PyOk [(64, PyDict (sample_doc_of 5))]"
proof -
  obtain c E where c: "coll_holds utc c [(64, PyDict (sample_doc_of 5))] E" "paths (co_indexes c) = [[97]]"
    using sample_collection by blast
  have w: "\<not> double_nan 0x4014000000000000" by code_simp
  have "double_exponent 0x4014000000000000 = 1025" by (simp add: double_exponent_def)
  moreover have "double_fraction 0x4014000000000000 = 2 ^ 50" by (simp add: double_fraction_def)
  ultimately have "double_val 0x4014000000000000 = (0, 5 * 2 ^ 1074)" by (simp add: double_val_def)
  then have eq: "values_equal (PyInt 5) (PyFloat 0x4014000000000000)"
    using w by (simp add: values_equal_def py_eq.simps double_scale_def)
  show ?thesis
    using float_query_misses_integers [OF c(1) order_refl _ w, of "[97]"] c(2) sample_resolve eq
    by (intro exI [of _ c] exI [of _ E]) (simp add: sample_doc_of_def starts_with_dollar_def)
qed

text \<open>
  C34. Building a unique index over the documents of a collection, each of which has a key for the field: it holds exactly them, so that the
  collection keeps its invariant with the new index, when their keys differ; otherwise
  \<^verbatim>\<open>DuplicateKeyError\<close> is raised.
\<close>

theorem create_index_exact:
  assumes c: "coll_holds tz c L E" "E < 2 ^ 37" "E \<le> fuel" and os: "os_all_succeed os"
    and fp: "PyUnicode_AsUTF8AndSize fp = Some bs" "0 \<notin> set bs" "length bs < 200"
    and keys: "\<forall>(off, x) \<in> set L. \<exists>k. index_key tz x fp = PyOk k"
  shows "if distinct (map (\<lambda>(off, x). doc_rank tz fp x) L)
    then \<exists>i. create_index os tz fuel fp True descending c = PyOk i \<and>
      coll_holds tz (c\<lparr>co_indexes := co_indexes c @ [(fp, i)]\<rparr>) L E
    else create_index os tz fuel fp True descending c = PyRaise DuplicateKeyError"
proof -
  have h: "holds_docs (co_data c) L E" and ixs: "\<forall>ix \<in> set (co_indexes c). index_of tz E L ix"
    using c(1) by (simp_all add: coll_holds_def)
  obtain t where t: "first_tag tz fp L = PyOk t" using first_tag_keyed [OF keys] by blast
  obtain i where i: "py_create_index_file os bs (unat t) True descending [] = PyOk i"
    "holds_tree i (Lf 1 [])" "handle_unique i = True" "handle_pages i = 1"
    by (rule create_index_holds [OF os fp(3), of "[]" "unat t" True descending]) simp_all
  have i0: "index_of tz 0 [] (fp, i)"
    unfolding index_of_def using fresh_map [of i] i by (intro exI [of _ Map.empty] exI [of _ "{}"]) (simp add: maps_docs_def)
  have "\<forall>(off, x) \<in> set L. 0 \<le> off \<and> off < E \<and> (\<exists>k. keyed tz fp x k)"
  proof (clarify, intro conjI)
    fix off x assume x: "(off, x) \<in> set L"
    show "off < E" by (rule holds_docs_offsets(3) [OF h x])
    obtain raw where "py_decode raw = PyOk x" using read_doc [OF h x] .
    then obtain items where "x = PyDict items" "canon_items BSON_MAX_DEPTH items" "distinct (map fst items)"
      by (rule decoded_canon)
    then have "canon_val (BSON_MAX_DEPTH + 1) x" by simp
    then show "\<exists>k. keyed tz fp x k" using keys x keyed_canon by blast
  qed simp
  from fill_index_cases [OF i0 holds_docs_offsets(1,2) [OF h] this _ _ os]
  have fill: "if distinct (map (\<lambda>(off, x). doc_rank tz fp x) L)
    then \<exists>i'. fill_index os tz fp L i = PyOk i' \<and> index_of tz E L (fp, i')
    else fill_index os tz fp L i = PyRaise DuplicateKeyError" using c(2) by (auto split: if_splits)
  have create: "create_index os tz fuel fp True descending c =
      py_bind (fill_index os tz fp L i) (\<lambda>handle. py_bind (fst (IndexHandle_flush os handle)) (\<lambda>_. PyOk handle))"
    using scan_holds_docs [OF h c(3), of "\<lambda>doc. matches doc (PyDict [])" "\<lambda>_. True"] t i(1) fp(1,2)
    by (simp add: create_index_def matches.simps)
  have flush: "fst (IndexHandle_flush os i') = PyOk ()" if held: "index_of tz E L (fp, i')" for i'
  proof -
    obtain M used where "holds_map i' M used" using held by (auto simp: index_of_def)
    then obtain t' b where "i' = OpenIndex b" "index_repr (bt_file b) t'" by (auto simp: holds_map_def holds_tree_def)
    then show ?thesis using os index_reprD(1) by (auto simp: IndexHandle_flush_def bson_btree_flush_def bson_mmap_flush_def
          index_file_def os_all_succeed_def)
  qed
  show ?thesis unfolding create using fill flush ixs h by (auto simp: coll_holds_def split: if_splits)
qed

theorem create_index_exact_witness:
  "\<exists>c E i. create_index perfect_os utc E [97] True False c = PyOk i \<and>
    coll_holds utc (c\<lparr>co_indexes := co_indexes c @ [([97], i)]\<rparr>) [(64, PyDict (sample_doc_of 5))] E"
proof -
  obtain c E where c: "coll_holds utc c [(64, PyDict (sample_doc_of 5))] E" "E < 2 ^ 37" using sample_collection by blast
  have fp: "PyUnicode_AsUTF8AndSize [97] = Some [97]" by (simp add: PyUnicode_AsUTF8AndSize_def scalar_def utf8_encode_def)
  have "\<exists>i. create_index perfect_os utc E [97] True False c = PyOk i \<and>
      coll_holds utc (c\<lparr>co_indexes := co_indexes c @ [([97], i)]\<rparr>) [(64, PyDict (sample_doc_of 5))] E"
    using create_index_exact [OF c order_refl perfect_os_succeeds fp, of False] sample_resolve
    by (simp add: index_key_def encode_btree_key_def)
  then show ?thesis by blast
qed

text \<open>
  C35. Compaction keeps exactly the live records, in their order: the file that takes the place of the
  old one opens as the log of those.
\<close>

theorem compact_keeps_live:
  assumes h: "holds_log h rs" and os: "os_all_succeed os" and fuel: "length rs < fuel"
    and small: "64 + length (log_bytes rs) \<le> 2 ^ 61"
  shows "\<exists>disk h'. compact_data os fuel h = PyOk disk \<and> py_open_collection os disk = PyOk h' \<and> holds_log h' (filter fst rs)"
proof -
  obtain tmp where tmp: "py_open_collection os [] = PyOk tmp" "holds_log tmp []" using open_created [OF os] by blast
  have "64 + length (log_bytes ([] @ filter fst (drop 0 rs))) \<le> 2 ^ 61" using small log_bytes_filter [of fst rs] by simp
  from compact_copy_live [OF h next_live_offset_holds(1) [OF h] le0 _ tmp(2) os this, of fuel] fuel
  obtain tmp' where tmp': "compact_copy os fuel (-1) h tmp = (PyOk (), tmp')" "holds_log tmp' (filter fst rs)" by auto
  obtain disk where d: "CollectionHandle_close os tmp' = (PyOk (), ClosedCollection disk)"
    "log_image disk (filter fst rs)" "64 \<le> length disk" "length disk < 2 ^ 63" "field disk 6 2 AND 1 = 0"
    by (rule close_holds [OF tmp'(2) os])
  have "compact_data os fuel h = PyOk disk" by (simp add: compact_data_def tmp(1) tmp'(1) d(1))
  then show ?thesis using open_clean [OF os d(2-5)] by blast
qed

theorem compact_keeps_live_witness:
  "\<exists>disk h'. compact_data perfect_os 3 sample_handle = PyOk disk \<and> py_open_collection perfect_os disk = PyOk h' \<and>
    holds_log h' [(True, [5, 0, 0, 0, 0])]"
proof -
  have f: "filter fst sample_log = [(True, [5, 0, 0, 0, 0])]" by (simp add: sample_log_def)
  show ?thesis
    unfolding f [symmetric] by (rule compact_keeps_live [OF sample_holds perfect_os_succeeds]) (simp_all add: sample_log_def)
qed

end
