(* ===== verification/Index_Order.thy ===== *)
theory Index_Order
  imports Collection_Properties
begin

text \<open>
  The order of index keys, and the documents that an index hides. An index compares values as Python does
  when they are of one type; where a filter compares more (numbers of several types, items of lists),
  the index finds less than a scan.
\<close>

section \<open>Order of keys and of values\<close>

lemma key_ranks:
  "key_rank (BSON_BTREE_TAG_NULL # replicate 12 0) = [0]"
  "key_rank ([BSON_BTREE_TAG_BOOL, if b then 1 else 0] @ replicate 11 0) = [1, if b then 1 else 0]"
  "- (2 ^ 63) \<le> i \<Longrightarrow> i < 2 ^ 63 \<Longrightarrow> key_rank (BSON_BTREE_TAG_INT # le_i64 i @ replicate 4 0) = [2, i]"
  "- (2 ^ 63) \<le> i \<Longrightarrow> i < 2 ^ 63 \<Longrightarrow> key_rank (BSON_BTREE_TAG_DATETIME # le_i64 i @ replicate 4 0) = [4, i]"
  "length bs = 12 \<Longrightarrow> key_rank (BSON_BTREE_TAG_OBJECTID # bs) = 5 # map uint bs"
  by (simp_all add: key_rank_def btree_tag_defs slice_def i64_of_le_i64)

lemma map_unat_less: "map unat (xs :: byte list) < map unat ys \<longleftrightarrow> map uint xs < map uint (ys :: byte list)"
proof (induction xs ys rule: list_induct2')
  case (4 x xs y ys)
  have "unat x < unat y \<longleftrightarrow> uint x < uint y" using word_less_nat_alt [of x y] word_less_def [of x y] by simp
  then show ?case using 4 by (simp add: word_unat_eq_iff [symmetric] word_uint_eq_iff [symmetric])
qed simp_all

text \<open>The rank of the key of a stored value.\<close>

fun value_rank :: "pyval \<Rightarrow> int list" where
  "value_rank (PyBool b) = [1, if b then 1 else 0]"
| "value_rank (PyInt i) = [2, i]"
| "value_rank (PyFloat w) = [3, double_rank w]"
| "value_rank (PyDatetime d) = [4, naive_ms d]"
| "value_rank (PyObjectId (Some (PyBytes bs))) = 5 # map uint bs"
| "value_rank _ = [0]"

lemma rank_of_key:
  assumes "canon_scalar v" "encode_btree_key tz v = PyOk k"
  shows "key_rank k = value_rank v" "key_ok k" "k ! 0 = word_of_int (hd (value_rank v))"
proof -
  show "key_ok k" using assms key_of_canon [of 0 v tz k] by (cases v) (auto simp: canon_val.simps canon_scalar_def)
  have "key_rank k = value_rank v \<and> k ! 0 = word_of_int (hd (value_rank v))"
  proof (cases v)
    case (PyBool b)
    then show ?thesis using assms(2) key_ranks(2) [of b] by (simp add: encode_btree_key_def) (auto simp: btree_tag_defs)
  next
    case (PyFloat w)
    then show ?thesis using assms(2) rank_double by (auto simp: encode_btree_key_def BSON_BTREE_TAG_DOUBLE_def split: if_splits)
  next
    case (PyDatetime d)
    then have "in_datetime_range (naive_ms d)" using assms(1) naive_ms_range by (simp add: canon_scalar_def)
    then show ?thesis using assms PyDatetime key_ranks(4) [of "naive_ms d"]
      by (auto simp: canon_scalar_def encode_btree_key_def datetime_key_ms_def in_datetime_range_def btree_tag_defs)
  next
    case (PyObjectId b)
    then show ?thesis using assms key_ranks(5)
      by (auto simp: canon_scalar_def encode_btree_key_def btree_tag_defs split: option.splits pyval.splits)
  qed (use assms key_ranks in \<open>auto simp: canon_scalar_def encode_btree_key_def rank_double btree_tag_defs split: if_splits\<close>)
  then show "key_rank k = value_rank v" "k ! 0 = word_of_int (hd (value_rank v))" by simp_all
qed

lemma value_rank_tag:
  assumes "word_of_int (hd (value_rank y)) = (word_of_int (hd (value_rank v)) :: byte)"
  shows "hd (value_rank y) = hd (value_rank v)"
proof -
  have "0 \<le> hd (value_rank x) \<and> hd (value_rank x) < 256" for x by (induction x rule: value_rank.induct) simp_all
  then have "uint (word_of_int (hd (value_rank x)) :: byte) = hd (value_rank x)" for x by (simp add: uint_word_of_int)
  then show ?thesis using assms by metis
qed

lemma datetime_ms_order:
  assumes "dt_microsecond d mod 1000 = 0" "dt_microsecond d' mod 1000 = 0"
  shows "datetime_us d < datetime_us d' \<longleftrightarrow> naive_ms d < naive_ms d'" "datetime_us d = datetime_us d' \<longleftrightarrow> naive_ms d = naive_ms d'"
proof -
  have "datetime_us d = naive_ms d * 1000" if "dt_microsecond d mod 1000 = 0" for d
  proof -
    have "datetime_us d = (days_from_civil (dt_year d) (dt_month d) (dt_day d) * 86400000 + dt_hour d * 3600000 +
        dt_minute d * 60000 + dt_second d * 1000) * 1000 + dt_microsecond d" by (simp add: datetime_us_def)
    moreover have "dt_microsecond d = dt_microsecond d div 1000 * 1000" using that div_mult_mod_eq [of "dt_microsecond d" 1000] by simp
    ultimately show ?thesis unfolding naive_ms_def by (simp add: algebra_simps)
  qed
  then show "datetime_us d < datetime_us d' \<longleftrightarrow> naive_ms d < naive_ms d'" "datetime_us d = datetime_us d' \<longleftrightarrow> naive_ms d = naive_ms d'"
    using assms by simp_all
qed

text \<open>
  C18. The order of an index is the order of Python: for two stored values of the same type that have
  keys, the comparison of the keys says which value is less and which are equal. For floats this is the
  exact order of the doubles, zeros and infinities included.
\<close>

theorem key_order_exact:
  assumes y: "canon_scalar y" "encode_btree_key tz y = PyOk j" and v: "canon_scalar v" "encode_btree_key tz v = PyOk k"
    and same: "j ! 0 = k ! 0"
  shows "(bson_btree_key_cmp j k < 0 \<longleftrightarrow> py_less y v = Some True) \<and> (bson_btree_key_cmp j k = 0 \<longleftrightarrow> py_eq y v)"
proof -
  note ry = rank_of_key [OF y] and rv = rank_of_key [OF v]
  have tag: "hd (value_rank y) = hd (value_rank v)" using same ry(3) rv(3) value_rank_tag by metis
  have "(value_rank y < value_rank v \<longleftrightarrow> py_less y v = Some True) \<and> (value_rank y = value_rank v \<longleftrightarrow> py_eq y v)"
  proof (cases y)
    case PyNone
    then have "v = PyNone" using tag v by (cases v) (auto simp: canon_scalar_def encode_btree_key_def split: option.splits pyval.splits)
    then show ?thesis using PyNone by (simp add: py_eq.simps py_less.simps)
  next
    case (PyBool b)
    then obtain b' where "v = PyBool b'"
      using tag y(1) v by (cases v) (auto simp: canon_scalar_def encode_btree_key_def split: option.splits pyval.splits)
    then show ?thesis using PyBool by (simp add: py_eq.simps py_less.simps num_less_def double_scale_def)
  next
    case (PyInt i)
    then obtain i' where "v = PyInt i'"
      using tag y(1) v by (cases v) (auto simp: canon_scalar_def encode_btree_key_def split: option.splits pyval.splits)
    then show ?thesis using PyInt by (simp add: py_eq.simps py_less.simps num_less_def double_scale_def)
  next
    case (PyFloat w)
    then obtain w' where v': "v = PyFloat w'"
      using tag y(1) v by (cases v) (auto simp: canon_scalar_def encode_btree_key_def split: option.splits pyval.splits)
    have "\<not> double_nan w" "\<not> double_nan w'" using y(2) v(2) PyFloat v' by (simp_all add: encode_btree_key_def split: if_splits)
    then show ?thesis using PyFloat v' double_order [of w w'] by (simp add: py_eq.simps py_less.simps)
  next
    case (PyDatetime d)
    then obtain d' where v': "v = PyDatetime d'"
      using tag y(1) v by (cases v) (auto simp: canon_scalar_def encode_btree_key_def split: option.splits pyval.splits)
    then show ?thesis using PyDatetime y(1) v(1) datetime_ms_order [of d d']
      by (simp add: py_eq.simps py_less.simps canon_scalar_def datetime_point_def)
  next
    case (PyObjectId b)
    then obtain b' where v': "v = PyObjectId b'"
      using tag y(1) v by (cases v) (auto simp: canon_scalar_def encode_btree_key_def split: option.splits pyval.splits)
    then show ?thesis using PyObjectId y(1) v(1)
      by (auto simp: py_eq.simps py_less.simps canon_scalar_def map_unat_less inj_map_eq_map split: option.splits pyval.splits)
  qed (use y(2) in \<open>simp_all add: encode_btree_key_def\<close>)
  then show ?thesis using ry rv index_key.cmp_less [of j k] index_key.cmp_eq [of j k] by simp
qed
text \<open>\<^verbatim>\<open>-0.0\<close> and \<^verbatim>\<open>0.0\<close> have different keys, which compare as equal.\<close>

theorem key_order_exact_witness:
  "\<exists>j k. encode_btree_key utc (PyFloat 0x8000000000000000) = PyOk j \<and> encode_btree_key utc (PyFloat 0) = PyOk k \<and> j \<noteq> k \<and>
    bson_btree_key_cmp j k = 0"
proof -
  let ?j = "BSON_BTREE_TAG_DOUBLE # nat_le 8 (unat (0x8000000000000000 :: u64)) @ replicate 4 0"
  let ?k = "BSON_BTREE_TAG_DOUBLE # nat_le 8 (unat (0 :: u64)) @ replicate 4 0"
  have n: "\<not> double_nan 0x8000000000000000" "\<not> double_nan 0" by (simp_all add: double_nan_def)
  then have e: "encode_btree_key utc (PyFloat 0x8000000000000000) = PyOk ?j" "encode_btree_key utc (PyFloat 0) = PyOk ?k"
    by (simp_all add: encode_btree_key_def)
  have "py_eq (PyFloat 0x8000000000000000) (PyFloat 0)"
    using n by (simp add: py_eq.simps double_val_def double_exponent_def double_fraction_def)
  moreover have "canon_scalar (PyFloat 0x8000000000000000)" "canon_scalar (PyFloat 0)" by (simp_all add: canon_scalar_def)
  ultimately have "bson_btree_key_cmp ?j ?k = 0" using key_order_exact [OF _ e(1) _ e(2)] by simp
  moreover have "?j \<noteq> ?k"
  proof
    assume "?j = ?k"
    then have "le_nat (nat_le 8 (unat (0x8000000000000000 :: u64))) = le_nat (nat_le 8 (unat (0 :: u64)))" by simp
    then show False unfolding le_nat_nat_le by simp
  qed
  ultimately show ?thesis using e by (intro exI [of _ ?j] exI [of _ ?k]) simp
qed

section \<open>Lists\<close>

text \<open>
  C37. A document whose indexed path leads into a list is indexed as if it had no value there, although a
  filter may find a value in the list: with an index on the path, an equality filter finds none of
  these documents; without the index the scan finds all that match.
\<close>

theorem list_query_misses:
  assumes c: "coll_holds tz c L E" "E \<le> fuel" and fld: "fld \<in> set (paths (co_indexes c))" "\<not> starts_with_dollar fld"
    and v: "query_value v" "\<forall>ops. v \<noteq> PyDict ops" "encode_btree_key tz v = PyOk k" "v \<noteq> PyNone"
    and lists: "\<forall>(off, x) \<in> set L. direct_value x (split_dots fld) = None"
    and total: "\<forall>(off, x) \<in> set L. \<exists>b. matches x (eq_filter fld v) = PyOk b"
  shows "iter_matches tz (\<lambda>_. True) fuel (eq_filter fld v) c = PyOk [] \<and>
    iter_matches tz (\<lambda>_. True) fuel (eq_filter fld v) (c\<lparr>co_indexes := []\<rparr>) =
      PyOk (filter (\<lambda>d. matches (snd d) (eq_filter fld v) = PyOk True) L)"
proof (rule index_hides [OF c fld(1) eq_clause_literal [OF fld(2) v(2)] resolved_eq_filter v(3) query_key_ok [OF v(1,3)]])
  fix off x assume x: "(off, x) \<in> set L"
  have "doc_rank tz fld x = Some [0]"
    using lists x key_ranks(1) by (auto simp: doc_rank_def index_key_def resolve_index_value_def encode_btree_key_def)
  moreover have "k ! 0 \<noteq> 0" using v(3,4)
    by (cases v) (auto simp: encode_btree_key_def btree_tag_defs py_bind_PyOk split: if_splits option.splits pyval.splits)
  then have "key_rank k \<noteq> [0]" using key_rank_Cons [OF query_key_ok [OF v(1,3)]] by (auto simp: word_uint_eq_iff)
  ultimately show "doc_rank tz fld x \<noteq> Some (key_rank k)" by simp
next
  show "\<forall>(off, x) \<in> set L. matches x (eq_filter fld v) = PyOk (matches x (eq_filter fld v) = PyOk True)"
    using total by fastforce
qed

text \<open>The document \<^verbatim>\<open>{"a": [5], "_id": ObjectId(12 * b"\x00")}\<close>, and the path \<^verbatim>\<open>a.0\<close>.\<close>

definition list_doc :: "(pyval \<times> pyval) list" where
  "list_doc = [(PyStr [97], PyList [PyInt 5]), (id_key, sample_id)]"

lemma list_doc_storable: "storable list_doc" "norm_items list_doc = list_doc"
  "wire_items list_doc = Some [([97], WArray [([48], WInt32 5)]), ([95, 105, 100], WObjectId (replicate 12 0))]"
  by (simp_all add: storable_def list_doc_def sample_id_def sample_doc_keys py_wf.simps plain_val.simps
      wire_val.simps wire_scalar_def INT32_MAX_def norm_val.simps decimal_key.simps)
    (simp_all add: id_key_def)

lemma list_doc_encode:
  obtains raw where "py_encode (\<lambda>_. True) (PyDict list_doc) = PyOk raw" "length raw \<le> BSON_MAX_DOCUMENT_SIZE"
proof -
  have wf: "wf_items list_doc" using list_doc_storable(1) by (simp add: storable_def)
  show thesis
  proof (rule py_encode_cases [OF wf, of "\<lambda>_. True"])
    fix e assume "(\<exists>c :: nat. \<not> True) \<or> (\<nexists>es. wire_items list_doc = Some es \<and> depth_elems es \<le> BSON_MAX_DEPTH \<and>
        length (enc_doc es) \<le> BSON_MAX_DOCUMENT_SIZE)"
    then show thesis by (simp add: list_doc_storable(3) BSON_MAX_DEPTH_def BSON_MAX_DOCUMENT_SIZE_def)
  qed (use that in blast)
qed

theorem list_query_misses_witness:
  "\<exists>c E. paths (co_indexes c) = [[97, 46, 48]] \<and>
    iter_matches utc (\<lambda>_. True) E (eq_filter [97, 46, 48] (PyInt 5)) c = PyOk [] \<and>
    iter_matches utc (\<lambda>_. True) E (eq_filter [97, 46, 48] (PyInt 5)) (c\<lparr>co_indexes := []\<rparr>) = PyOk [(64, PyDict list_doc)]"
proof -
  have d: "direct_value (PyDict list_doc) (split_dots [97, 46, 48]) = None" by (simp add: list_doc_def)
  have m: "matches (PyDict list_doc) (eq_filter [97, 46, 48] (PyInt 5)) = PyOk True"
    by (simp add: eq_filter_def matches.simps list_doc_def str_def starts_with_dollar_def segment_index_def decimal_def ascii_digit
        field_matches.simps matches_eq_def values_equal_def py_eq.simps)
  have i: "indexable utc (PyDict list_doc) [97, 46, 48]"
    using d by (simp add: indexable_def resolve_index_value_def encode_btree_key_def)
  obtain raw where raw: "py_encode (\<lambda>_. True) (PyDict list_doc) = PyOk raw" "length raw \<le> BSON_MAX_DOCUMENT_SIZE"
    by (rule list_doc_encode)
  have "length [97, 46, 48 :: nat] < 200" by simp
  then obtain c E where c: "coll_holds utc c [(64, PyDict list_doc)] E" "paths (co_indexes c) = [[97, 46, 48]]"
    using one_document [OF list_doc_storable(1,2) i raw(1)] by blast
  have k: "encode_btree_key utc (PyInt 5) = PyOk (int_key 5)" by (simp add: encode_btree_key_def int_key_def)
  show ?thesis
    using list_query_misses [OF c(1) order_refl _ _ _ _ k, of "[97, 46, 48]"] c(2) d m
    by (intro exI [of _ c] exI [of _ E]) (auto simp: starts_with_dollar_def)
qed

end
