(* ===== verification/Object_Id.thy ===== *)
theory Object_Id
  imports Python_Values
begin

text \<open>
  Object ids (python/bsondb/object_id.py): their making from the time, random bytes and a counter, their
  constructor, and their text. The time, the random bytes and the start of the counter are parameters;
  the lock around the counter makes its steps atomic, so that they are a sequence.
\<close>

section \<open>Making an id\<close>

definition next_counter :: "nat \<Rightarrow> nat" where
  "next_counter counter = (counter + 1) mod 0xFFFFFF"

text \<open>\<^verbatim>\<open>int.to_bytes(n, "big")\<close>.\<close>

definition to_bytes_big :: "nat \<Rightarrow> int \<Rightarrow> byte list py" where
  "to_bytes_big n v = (if 0 \<le> v \<and> v < 256 ^ n then PyOk (rev (nat_le n (nat v))) else PyRaise OverflowError)"

text \<open>The bytes of the id, and the counter after it.\<close>

definition generate :: "int \<Rightarrow> byte list \<Rightarrow> nat \<Rightarrow> byte list py \<times> nat" where
  "generate time random_bytes counter =
     (case to_bytes_big 4 time of
        PyOk timestamp \<Rightarrow>
          (py_bind (to_bytes_big 3 (int (next_counter counter))) (\<lambda>counter_bytes.
             PyOk (timestamp @ random_bytes @ counter_bytes)), next_counter counter)
      | r \<Rightarrow> (r, counter))"

section \<open>Text\<close>

text \<open>A hexadecimal digit is the code point of a character.\<close>

definition hex_digit :: "nat \<Rightarrow> nat" where
  "hex_digit d = (if d < 10 then 48 + d else 87 + d)"

definition hex_value :: "nat \<Rightarrow> nat option" where
  "hex_value c =
     (if 48 \<le> c \<and> c \<le> 57 then Some (c - 48)
      else if 97 \<le> c \<and> c \<le> 102 then Some (c - 87)
      else if 65 \<le> c \<and> c \<le> 70 then Some (c - 55) else None)"

fun hexlify :: "byte list \<Rightarrow> nat list" where
  "hexlify [] = []"
| "hexlify (b # bs) = hex_digit (unat b div 16) # hex_digit (unat b mod 16) # hexlify bs"

fun unhexlify :: "nat list \<Rightarrow> byte list option" where
  "unhexlify [] = Some []"
| "unhexlify [c] = None"
| "unhexlify (c # d # cs) = (case (hex_value c, hex_value d, unhexlify cs) of
     (Some x, Some y, Some bs) \<Rightarrow> Some (word_of_nat (16 * x + y) # bs)
   | _ \<Rightarrow> None)"

definition from_hex :: "nat list \<Rightarrow> byte list py" where
  "from_hex s =
     (if length s \<noteq> 24 then PyRaise ValueError
      else case unhexlify s of Some bs \<Rightarrow> PyOk bs | None \<Rightarrow> PyRaise ValueError)"

text \<open>The constructor with an argument; \<open>None\<close> makes a new id (\<open>generate\<close>).\<close>

definition new_ObjectId :: "pyval \<Rightarrow> pyval py" where
  "new_ObjectId oid = (case oid of
     PyObjectId binary \<Rightarrow> PyOk (PyObjectId binary)
   | PyBytes bs \<Rightarrow> if length bs \<noteq> 12 then PyRaise ValueError else PyOk (PyObjectId (Some (PyBytes bs)))
   | PyByteArray bs \<Rightarrow> if length bs \<noteq> 12 then PyRaise ValueError else PyOk (PyObjectId (Some (PyBytes bs)))
   | PyStr s \<Rightarrow> py_bind (from_hex s) (\<lambda>bs. PyOk (PyObjectId (Some (PyBytes bs))))
   | _ \<Rightarrow> PyRaise TypeError)"

definition str_ObjectId :: "byte list \<Rightarrow> nat list" where
  "str_ObjectId binary = hexlify binary"

section \<open>Reading and writing\<close>

lemma hex_value_digit: "d < 16 \<Longrightarrow> hex_value (hex_digit d) = Some d"
  by (simp add: hex_value_def hex_digit_def)

lemma length_hexlify [simp]: "length (hexlify bs) = 2 * length bs"
  by (induction bs) simp_all

lemma unhexlify_hexlify: "unhexlify (hexlify bs) = Some bs"
proof (induction bs)
  case (Cons b bs)
  have "unat b div 16 < 16" using unsigned_less [of b, where 'a = nat] by (simp add: div_less_iff_less_mult)
  moreover have "16 * (unat b div 16) + unat b mod 16 = unat b" by simp
  ultimately show ?case using Cons hex_value_digit by simp
qed simp

lemma unhexlify_length: "unhexlify s = Some bs \<Longrightarrow> length s = 2 * length bs"
  by (induction s arbitrary: bs rule: unhexlify.induct) (auto split: option.splits)

text \<open>
  The text of an id gives the id back, and a text gives an id exactly when it has 24 hexadecimal
  digits, of either case; the id then has 12 bytes.
\<close>

theorem object_id_text:
  assumes "length binary = 12"
  shows "new_ObjectId (PyStr (str_ObjectId binary)) = PyOk (PyObjectId (Some (PyBytes binary))) \<and>
    (case new_ObjectId (PyStr s) of
       PyOk oid \<Rightarrow> length s = 24 \<and> (\<exists>bs. unhexlify s = Some bs \<and> length bs = 12 \<and> oid = PyObjectId (Some (PyBytes bs)))
     | PyRaise e \<Rightarrow> e = ValueError \<and> (length s = 24 \<longrightarrow> unhexlify s = None)
     | _ \<Rightarrow> False)"
  using assms unhexlify_length [of s]
  by (auto simp: new_ObjectId_def str_ObjectId_def from_hex_def unhexlify_hexlify split: option.split)

theorem object_id_text_witness:
  "new_ObjectId (PyStr (str_ObjectId (replicate 12 0xAB))) = PyOk (PyObjectId (Some (PyBytes (replicate 12 0xAB))))"
  using object_id_text [of "replicate 12 0xAB"] by simp

section \<open>Ids of one process\<close>

lemma counter_after: "(next_counter ^^ n) c = (if n = 0 then c else (c + n) mod 0xFFFFFF)"
proof (induction n)
  case (Suc n)
  then show ?case by (simp add: next_counter_def mod_Suc_eq)
qed simp

lemma counter_distinct:
  assumes "i < j" "j < i + 0xFFFFFF" "0 < i"
  shows "(next_counter ^^ i) c \<noteq> (next_counter ^^ j) c"
proof
  assume "(next_counter ^^ i) c = (next_counter ^^ j) c"
  then have "(c + i) mod 0xFFFFFF = (c + j) mod 0xFFFFFF" using assms by (simp add: counter_after)
  then have "0xFFFFFF dvd (c + j) - (c + i)" using assms(1) by (metis add_left_mono less_imp_le mod_eq_dvd_iff_nat)
  then show False using assms by (auto dest: dvd_imp_le)
qed

lemma lex_append: "length xs = length ys \<Longrightarrow> xs < ys \<Longrightarrow> xs @ as < ys @ (bs :: nat list)"
  by (induction xs ys rule: list_induct2) auto

lemma lex_prefix: "xs @ as < xs @ bs \<longleftrightarrow> as < (bs :: nat list)"
  by (induction xs) simp_all

lemma big_endian_less:
  assumes "a < 256 ^ n" "b < 256 ^ n" "a < b"
  shows "map unat (rev (nat_le n a)) < map unat (rev (nat_le n b))"
  using assms
proof (induction n arbitrary: a b)
  case (Suc n)
  have d: "a div 256 < 256 ^ n" "b div 256 < 256 ^ n" using Suc.prems by (simp_all add: div_less_iff_less_mult)
  show ?case
  proof (cases "a div 256 < b div 256")
    case True
    then show ?thesis using lex_append [OF _ Suc.IH [OF d]] by simp
  next
    case False
    then have e: "a div 256 = b div 256" using Suc.prems(3) by (meson div_le_mono le_antisym less_imp_le not_less)
    then have "a mod 256 < b mod 256" using Suc.prems(3) by (metis div_mult_mod_eq nat_add_left_cancel_less)
    then show ?thesis by (simp add: e lex_prefix unat_of_nat)
  qed
qed simp

lemma big_endian_inj: "a < 256 ^ n \<Longrightarrow> b < 256 ^ n \<Longrightarrow> nat_le n a = nat_le n b \<longleftrightarrow> a = b"
  by (metis le_nat_nat_le_small)

text \<open>The ids of a sequence of calls, each with its time and its random bytes.\<close>

fun generate_all :: "(int \<times> byte list) list \<Rightarrow> nat \<Rightarrow> byte list py list" where
  "generate_all [] counter = []"
| "generate_all ((time, random_bytes) # calls) counter =
     (case generate time random_bytes counter of (r, counter') \<Rightarrow> r # generate_all calls counter')"

definition id_bytes :: "int \<times> byte list \<Rightarrow> nat \<Rightarrow> byte list" where
  "id_bytes call counter = rev (nat_le 4 (nat (fst call))) @ snd call @ rev (nat_le 3 counter)"

definition call_ok :: "int \<times> byte list \<Rightarrow> bool" where
  "call_ok call \<longleftrightarrow> 0 \<le> fst call \<and> fst call < 2 ^ 32 \<and> length (snd call) = 5"

lemma generate_all_nth:
  assumes "\<forall>call \<in> set calls. call_ok call" "i < length calls"
  shows "generate_all calls c ! i = PyOk (id_bytes (calls ! i) ((next_counter ^^ Suc i) c))"
  using assms
proof (induction calls arbitrary: c i)
  case (Cons call calls)
  obtain t r where call: "call = (t, r)" by fastforce
  have g: "generate t r c = (PyOk (id_bytes (t, r) (next_counter c)), next_counter c)"
    using Cons.prems(1) call by (simp add: generate_def to_bytes_big_def call_ok_def id_bytes_def next_counter_def)
  show ?case
  proof (cases i)
    case (Suc k)
    then show ?thesis using Cons g call by (simp add: funpow_swap1)
  qed (simp add: g call)
qed simp

lemma length_generate_all [simp]: "length (generate_all calls c) = length calls"
  by (induction calls c rule: generate_all.induct) (simp_all split: prod.split)

text \<open>
  C38. The ids that one process makes have 12 bytes, are distinct as long as there are at most
  \<open>2 ^ 24 - 1\<close>, whatever the times and the random bytes, and an id of a later second is greater.
\<close>

theorem object_ids_distinct:
  assumes calls: "\<forall>call \<in> set calls. call_ok call" and n: "length calls \<le> 0xFFFFFF"
  shows "distinct (generate_all calls counter) \<and>
    (\<forall>i < length calls. \<forall>j < length calls. \<exists>a b. generate_all calls counter ! i = PyOk a \<and> generate_all calls counter ! j = PyOk b \<and>
       length a = 12 \<and> (fst (calls ! i) < fst (calls ! j) \<longrightarrow> py_less (PyObjectId (Some (PyBytes a))) (PyObjectId (Some (PyBytes b))) = Some True))"
proof (intro conjI allI impI)
  have ok: "call_ok (calls ! i)" if "i < length calls" for i using calls that by simp
  show "distinct (generate_all calls counter)"
  proof (unfold distinct_conv_nth length_generate_all, intro allI impI)
    fix i j assume ij: "i < length calls" "j < length calls" "i \<noteq> j"
    have "(next_counter ^^ Suc i) counter \<noteq> (next_counter ^^ Suc j) counter"
      using counter_distinct [of "Suc i" "Suc j" counter] counter_distinct [of "Suc j" "Suc i" counter] ij n
      by (cases "i < j") (auto simp del: funpow.simps)
    moreover have "(next_counter ^^ Suc k) counter < 256 ^ 3" for k by (simp add: next_counter_def)
    ultimately have "rev (nat_le 3 ((next_counter ^^ Suc i) counter)) \<noteq> rev (nat_le 3 ((next_counter ^^ Suc j) counter))"
      using big_endian_inj [of _ 3] by (simp del: funpow.simps)
    then show "generate_all calls counter ! i \<noteq> generate_all calls counter ! j"
      using generate_all_nth [OF calls ij(1)] generate_all_nth [OF calls ij(2)] ok [OF ij(1)] ok [OF ij(2)]
      by (simp add: id_bytes_def call_ok_def del: funpow.simps)
  qed
  fix i j assume ij: "i < length calls" "j < length calls"
  let ?a = "id_bytes (calls ! i) ((next_counter ^^ Suc i) counter)" and ?b = "id_bytes (calls ! j) ((next_counter ^^ Suc j) counter)"
  have "map unat ?a < map unat ?b" if "fst (calls ! i) < fst (calls ! j)"
  proof -
    have "nat (fst (calls ! i)) < nat (fst (calls ! j))" "nat (fst (calls ! i)) < 256 ^ 4" "nat (fst (calls ! j)) < 256 ^ 4"
      using that ok [OF ij(1)] ok [OF ij(2)] by (simp_all add: call_ok_def nat_less_iff)
    then have "map unat (rev (nat_le 4 (nat (fst (calls ! i))))) < map unat (rev (nat_le 4 (nat (fst (calls ! j)))))"
      using big_endian_less by blast
    from lex_append [OF _ this] show ?thesis by (simp add: id_bytes_def)
  qed
  then show "\<exists>a b. generate_all calls counter ! i = PyOk a \<and> generate_all calls counter ! j = PyOk b \<and> length a = 12 \<and>
      (fst (calls ! i) < fst (calls ! j) \<longrightarrow> py_less (PyObjectId (Some (PyBytes a))) (PyObjectId (Some (PyBytes b))) = Some True)"
    using generate_all_nth [OF calls ij(1)] generate_all_nth [OF calls ij(2)] ok [OF ij(1)]
    by (intro exI [of _ ?a] exI [of _ ?b]) (simp add: py_less.simps call_ok_def id_bytes_def del: funpow.simps)
qed

theorem object_ids_distinct_witness:
  "distinct (generate_all [(1700000000, replicate 5 7), (1700000000, replicate 5 7), (1700000001, replicate 5 0)] 0xFFFFFF)"
  using object_ids_distinct [where calls = "[(1700000000, replicate 5 7), (1700000000, replicate 5 7), (1700000001, replicate 5 0)]" and counter = "0xFFFFFF"]
  by (simp add: call_ok_def del: generate_all.simps)

end
