(* ===== verification/Collection_Operations.thy ===== *)
theory Collection_Operations
  imports Document_Collection
begin

text \<open>
  The operations of a Collection object of python/bsondb/collection.py that Document_Collection does not
  have: several inserts, the operations on the first match, updates, replacements, upserts and the
  metrics.

  An operation on the first match stops its scan there. \<open>new_id\<close> is the object id that a call may
  need, \<open>fadd\<close> the addition that \<^verbatim>\<open>$inc\<close> needs where a float is involved. \<open>update_many\<close> gives every
  target the update as it was passed, which is what the code does for updates that satisfy
  \<open>unshared_update\<close> (see Query_Update); the specification says nothing of others.
\<close>

section \<open>Inserting several documents\<close>

text \<open>Each document comes with the object id that it is given if it has none.\<close>

fun insert_many_ordered ::
    "os_calls \<Rightarrow> (py_datetime \<Rightarrow> int) \<Rightarrow> (nat \<Rightarrow> bool) \<Rightarrow> (pyval \<times> doc) list \<Rightarrow> coll \<Rightarrow> unit py \<times> coll" where
  "insert_many_ordered os tz alloc [] c = (PyOk (), c)"
| "insert_many_ordered os tz alloc ((new_id, document) # documents) c =
     (case insert_one os tz alloc new_id document c of
        (PyOk _, c') \<Rightarrow> insert_many_ordered os tz alloc documents c'
      | (r, c') \<Rightarrow> (r, c'))"

fun insert_many_unordered ::
    "os_calls \<Rightarrow> (py_datetime \<Rightarrow> int) \<Rightarrow> (nat \<Rightarrow> bool) \<Rightarrow> py_error option \<Rightarrow> (pyval \<times> doc) list \<Rightarrow> coll \<Rightarrow> unit py \<times> coll" where
  "insert_many_unordered os tz alloc first_error [] c =
     ((case first_error of None \<Rightarrow> PyOk () | Some e \<Rightarrow> PyRaise e), c)"
| "insert_many_unordered os tz alloc first_error ((new_id, document) # documents) c =
     (case insert_one os tz alloc new_id document c of
        (PyOk _, c') \<Rightarrow> insert_many_unordered os tz alloc first_error documents c'
      | (PyRaise e, c') \<Rightarrow>
          if e \<in> {InvalidDocument, DuplicateKeyError}
          then insert_many_unordered os tz alloc (if first_error = None then Some e else first_error) documents c'
          else (PyRaise e, c')
      | (r, c') \<Rightarrow> (r, c'))"

section \<open>The first match\<close>

fun scan_first :: "(pyval \<Rightarrow> bool py) \<Rightarrow> nat \<Rightarrow> int \<Rightarrow> collection_handle \<Rightarrow> (nat \<times> pyval) option py" where
  "scan_first p 0 prev h = PyDiverge"
| "scan_first p (Suc fuel) prev h =
     (case CollectionHandle_next_live_offset prev h of
        (PyOk None, h') \<Rightarrow> PyOk None
      | (PyOk (Some offset), h') \<Rightarrow> (case CollectionHandle_read_record (int offset) h' of
            (PyOk None, h'') \<Rightarrow> scan_first p fuel (int offset) h''
          | (PyOk (Some raw), h'') \<Rightarrow>
              py_bind (py_decode raw) (\<lambda>doc.
              py_bind (p doc) (\<lambda>matching.
              if matching then PyOk (Some (offset, doc)) else scan_first p fuel (int offset) h''))
          | (r, h'') \<Rightarrow> py_raise r)
      | (r, h') \<Rightarrow> py_raise r)"

fun read_first :: "(pyval \<Rightarrow> bool py) \<Rightarrow> nat list \<Rightarrow> collection_handle \<Rightarrow> (nat \<times> pyval) option py" where
  "read_first p [] h = PyOk None"
| "read_first p (offset # offsets) h =
     (case CollectionHandle_read_record (int offset) h of
        (PyOk None, h') \<Rightarrow> read_first p offsets h'
      | (PyOk (Some raw), h') \<Rightarrow>
          py_bind (py_decode raw) (\<lambda>doc.
          py_bind (p doc) (\<lambda>matching.
          if matching then PyOk (Some (offset, doc)) else read_first p offsets h'))
      | (r, h') \<Rightarrow> py_raise r)"

definition first_match ::
    "(py_datetime \<Rightarrow> int) \<Rightarrow> (nat \<Rightarrow> bool) \<Rightarrow> nat \<Rightarrow> pyval \<Rightarrow> coll \<Rightarrow> (nat \<times> pyval) option py" where
  "first_match tz alloc fuel filt c =
     (let f = resolved_filter filt in
      py_bind (matches (PyDict []) f) (\<lambda>_.
      py_bind (index_lookup_for_filter tz alloc f (co_indexes c)) (\<lambda>indexed.
      case indexed of
        Some offsets \<Rightarrow> read_first (\<lambda>doc. matches doc f) offsets (co_data c)
      | None \<Rightarrow> scan_first (\<lambda>doc. matches doc f) fuel (-1) (co_data c))))"

text \<open>\<^verbatim>\<open>find_one\<close> without a projection.\<close>

definition find_one :: "(py_datetime \<Rightarrow> int) \<Rightarrow> (nat \<Rightarrow> bool) \<Rightarrow> nat \<Rightarrow> pyval \<Rightarrow> coll \<Rightarrow> pyval option py" where
  "find_one tz alloc fuel filt c = py_bind (first_match tz alloc fuel filt c) (\<lambda>m. PyOk (map_option snd m))"

definition find_one_and_delete ::
    "(py_datetime \<Rightarrow> int) \<Rightarrow> (nat \<Rightarrow> bool) \<Rightarrow> nat \<Rightarrow> pyval \<Rightarrow> coll \<Rightarrow> pyval option py \<times> coll" where
  "find_one_and_delete tz alloc fuel filt c =
     (case first_match tz alloc fuel filt c of
        PyOk None \<Rightarrow> (PyOk None, c)
      | PyOk (Some (offset, doc)) \<Rightarrow> (case CollectionHandle_tombstone_record (int offset) (co_data c) of
            (PyOk _, data) \<Rightarrow> (case index_update_for_delete tz doc offset (co_indexes c) of
                (PyOk _, ixs) \<Rightarrow> (PyOk (Some doc), \<lparr>co_data = data, co_indexes = ixs\<rparr>)
              | (r, ixs) \<Rightarrow> (py_raise r, \<lparr>co_data = data, co_indexes = ixs\<rparr>))
          | (r, data) \<Rightarrow> (py_raise r, c\<lparr>co_data := data\<rparr>))
      | r \<Rightarrow> (py_raise r, c))"

text \<open>\<^verbatim>\<open>delete_one\<close> is the same, with a count as its result.\<close>

definition delete_one ::
    "(py_datetime \<Rightarrow> int) \<Rightarrow> (nat \<Rightarrow> bool) \<Rightarrow> nat \<Rightarrow> pyval \<Rightarrow> coll \<Rightarrow> nat py \<times> coll" where
  "delete_one tz alloc fuel filt c =
     (case find_one_and_delete tz alloc fuel filt c of
        (PyOk None, c') \<Rightarrow> (PyOk 0, c')
      | (PyOk (Some _), c') \<Rightarrow> (PyOk 1, c')
      | (r, c') \<Rightarrow> (py_raise r, c'))"

section \<open>Updates\<close>

record update_result =
  matched_count :: nat
  modified_count :: nat
  upserted_id :: "pyval option"

text \<open>\<^verbatim>\<open>_upsert\<close>, and what inserts the seeded document, with the steps of \<open>insert_one\<close>.\<close>

definition insert_seeded ::
    "os_calls \<Rightarrow> (py_datetime \<Rightarrow> int) \<Rightarrow> (nat \<Rightarrow> bool) \<Rightarrow> pyval \<Rightarrow> doc \<Rightarrow> coll \<Rightarrow> update_result py \<times> coll" where
  "insert_seeded os tz alloc new_id seeded c =
     (case insert_one os tz alloc new_id seeded c of
        (PyOk _, c') \<Rightarrow>
          (PyOk \<lparr>matched_count = 0, modified_count = 0, upserted_id = map_of (with_id new_id seeded) id_key\<rparr>, c')
      | (r, c') \<Rightarrow> (py_raise r, c'))"

definition upsert ::
    "os_calls \<Rightarrow> (py_datetime \<Rightarrow> int) \<Rightarrow> (nat \<Rightarrow> bool) \<Rightarrow> (pyval \<Rightarrow> pyval \<Rightarrow> pyval py) \<Rightarrow> pyval \<Rightarrow>
       pyval \<Rightarrow> pyval \<Rightarrow> coll \<Rightarrow> update_result py \<times> coll" where
  "upsert os tz alloc fadd new_id filt update c =
     (case build_upsert_document fadd filt update of
        PyOk seeded \<Rightarrow> insert_seeded os tz alloc new_id seeded c
      | r \<Rightarrow> (py_raise r, c))"

text \<open>
  One match: the new document, and its update. \<open>change\<close> makes it from the old one; the result has the old
  document, the new one and the number of modified documents.
\<close>

definition update_match ::
    "os_calls \<Rightarrow> (py_datetime \<Rightarrow> int) \<Rightarrow> (nat \<Rightarrow> bool) \<Rightarrow> (doc \<Rightarrow> doc py) \<Rightarrow> nat \<Rightarrow> pyval \<Rightarrow> coll \<Rightarrow>
       (pyval \<times> pyval \<times> nat) py \<times> coll" where
  "update_match os tz alloc change offset old_doc c =
     (case py_mapping old_doc of
        None \<Rightarrow> (PyFault, c)
      | Some old \<Rightarrow> (case change old of
            PyOk new \<Rightarrow> (case apply_single_update os tz alloc offset old_doc (PyDict new) c of
                (PyOk n, c') \<Rightarrow> (PyOk (old_doc, PyDict new, n), c')
              | (r, c') \<Rightarrow> (py_raise r, c'))
          | r \<Rightarrow> (py_raise r, c)))"

definition update_first ::
    "os_calls \<Rightarrow> (py_datetime \<Rightarrow> int) \<Rightarrow> (nat \<Rightarrow> bool) \<Rightarrow> nat \<Rightarrow> (doc \<Rightarrow> doc py) \<Rightarrow> pyval \<Rightarrow> coll \<Rightarrow>
       (pyval \<times> pyval \<times> nat) option py \<times> coll" where
  "update_first os tz alloc fuel change filt c =
     (case first_match tz alloc fuel filt c of
        PyOk None \<Rightarrow> (PyOk None, c)
      | PyOk (Some (offset, old_doc)) \<Rightarrow> (case update_match os tz alloc change offset old_doc c of
            (PyOk u, c') \<Rightarrow> (PyOk (Some u), c')
          | (r, c') \<Rightarrow> (py_raise r, c'))
      | r \<Rightarrow> (py_raise r, c))"

definition find_one_and_update ::
    "os_calls \<Rightarrow> (py_datetime \<Rightarrow> int) \<Rightarrow> (nat \<Rightarrow> bool) \<Rightarrow> nat \<Rightarrow> (pyval \<Rightarrow> pyval \<Rightarrow> pyval py) \<Rightarrow>
       pyval \<Rightarrow> pyval \<Rightarrow> bool \<Rightarrow> coll \<Rightarrow> pyval option py \<times> coll" where
  "find_one_and_update os tz alloc fuel fadd filt update return_document c =
     (case validate_update_document update of
        PyOk _ \<Rightarrow> (case update_first os tz alloc fuel (\<lambda>old. apply_update_operators fadd old update) filt c of
            (PyOk m, c') \<Rightarrow> (PyOk (map_option (\<lambda>(old, new, n). if return_document then new else old) m), c')
          | (r, c') \<Rightarrow> (py_raise r, c'))
      | r \<Rightarrow> (py_raise r, c))"

definition update_one ::
    "os_calls \<Rightarrow> (py_datetime \<Rightarrow> int) \<Rightarrow> (nat \<Rightarrow> bool) \<Rightarrow> nat \<Rightarrow> (pyval \<Rightarrow> pyval \<Rightarrow> pyval py) \<Rightarrow> pyval \<Rightarrow>
       pyval \<Rightarrow> pyval \<Rightarrow> bool \<Rightarrow> coll \<Rightarrow> update_result py \<times> coll" where
  "update_one os tz alloc fuel fadd new_id filt update ups c =
     (case validate_update_document update of
        PyOk _ \<Rightarrow> (case update_first os tz alloc fuel (\<lambda>old. apply_update_operators fadd old update) filt c of
            (PyOk (Some (old, new, n)), c') \<Rightarrow> (PyOk \<lparr>matched_count = 1, modified_count = n, upserted_id = None\<rparr>, c')
          | (PyOk None, c') \<Rightarrow>
              if ups then upsert os tz alloc fadd new_id filt update c'
              else (PyOk \<lparr>matched_count = 0, modified_count = 0, upserted_id = None\<rparr>, c')
          | (r, c') \<Rightarrow> (py_raise r, c'))
      | r \<Rightarrow> (py_raise r, c))"

fun update_targets ::
    "os_calls \<Rightarrow> (py_datetime \<Rightarrow> int) \<Rightarrow> (nat \<Rightarrow> bool) \<Rightarrow> (doc \<Rightarrow> doc py) \<Rightarrow> nat \<Rightarrow> (nat \<times> pyval) list \<Rightarrow> coll \<Rightarrow> nat py \<times> coll" where
  "update_targets os tz alloc change modified [] c = (PyOk modified, c)"
| "update_targets os tz alloc change modified ((offset, old_doc) # targets) c =
     (case update_match os tz alloc change offset old_doc c of
        (PyOk (old, new, n), c') \<Rightarrow> update_targets os tz alloc change (modified + n) targets c'
      | (r, c') \<Rightarrow> (py_raise r, c'))"

definition update_many ::
    "os_calls \<Rightarrow> (py_datetime \<Rightarrow> int) \<Rightarrow> (nat \<Rightarrow> bool) \<Rightarrow> nat \<Rightarrow> (pyval \<Rightarrow> pyval \<Rightarrow> pyval py) \<Rightarrow> pyval \<Rightarrow>
       pyval \<Rightarrow> pyval \<Rightarrow> bool \<Rightarrow> coll \<Rightarrow> update_result py \<times> coll" where
  "update_many os tz alloc fuel fadd new_id filt update ups c =
     (case py_bind (validate_update_document update) (\<lambda>_. iter_matches tz alloc fuel filt c) of
        PyOk targets \<Rightarrow>
          if targets = [] then
            (if ups then upsert os tz alloc fadd new_id filt update c
             else (PyOk \<lparr>matched_count = 0, modified_count = 0, upserted_id = None\<rparr>, c))
          else (case update_targets os tz alloc (\<lambda>old. apply_update_operators fadd old update) 0 targets c of
              (PyOk modified, c') \<Rightarrow>
                (PyOk \<lparr>matched_count = length targets, modified_count = modified, upserted_id = None\<rparr>, c')
            | (r, c') \<Rightarrow> (py_raise r, c'))
      | r \<Rightarrow> (py_raise r, c))"

section \<open>Replacements\<close>

fun any_dollar :: "doc \<Rightarrow> bool py" where
  "any_dollar [] = PyOk False"
| "any_dollar ((k, v) # items) = py_bind (dollar_key k) (\<lambda>d. if d then PyOk True else any_dollar items)"

definition reject_update_operators :: "doc \<Rightarrow> unit py" where
  "reject_update_operators replacement =
     py_bind (any_dollar replacement) (\<lambda>d. if d then PyRaise InvalidDocument else PyOk ())"

definition replacement_with_preserved_id :: "doc \<Rightarrow> doc \<Rightarrow> doc py" where
  "replacement_with_preserved_id replacement old_doc =
     (case (map_of replacement id_key, map_of old_doc id_key) of
        (Some new_id, Some old_id) \<Rightarrow> if \<not> py_eq new_id old_id then PyRaise InvalidDocument else PyOk replacement
      | (Some new_id, None) \<Rightarrow> PyOk replacement
      | (None, Some old_id) \<Rightarrow> PyOk (PyDict_SetItem replacement id_key old_id)
      | (None, None) \<Rightarrow> PyOk replacement)"

definition find_one_and_replace ::
    "os_calls \<Rightarrow> (py_datetime \<Rightarrow> int) \<Rightarrow> (nat \<Rightarrow> bool) \<Rightarrow> nat \<Rightarrow> pyval \<Rightarrow> doc \<Rightarrow> bool \<Rightarrow> coll \<Rightarrow> pyval option py \<times> coll" where
  "find_one_and_replace os tz alloc fuel filt replacement return_document c =
     (case reject_update_operators replacement of
        PyOk _ \<Rightarrow> (case update_first os tz alloc fuel (replacement_with_preserved_id replacement) filt c of
            (PyOk m, c') \<Rightarrow> (PyOk (map_option (\<lambda>(old, new, n). if return_document then new else old) m), c')
          | (r, c') \<Rightarrow> (py_raise r, c'))
      | r \<Rightarrow> (py_raise r, c))"

fun dict_update :: "doc \<Rightarrow> doc \<Rightarrow> doc" where
  "dict_update d [] = d"
| "dict_update d ((k, v) # items) = dict_update (PyDict_SetItem d k v) items"

definition replace_one ::
    "os_calls \<Rightarrow> (py_datetime \<Rightarrow> int) \<Rightarrow> (nat \<Rightarrow> bool) \<Rightarrow> nat \<Rightarrow> pyval \<Rightarrow> pyval \<Rightarrow> doc \<Rightarrow> bool \<Rightarrow> coll \<Rightarrow> update_result py \<times> coll" where
  "replace_one os tz alloc fuel new_id filt replacement ups c =
     (case reject_update_operators replacement of
        PyOk _ \<Rightarrow> (case update_first os tz alloc fuel (replacement_with_preserved_id replacement) filt c of
            (PyOk (Some (old, new, n)), c') \<Rightarrow> (PyOk \<lparr>matched_count = 1, modified_count = n, upserted_id = None\<rparr>, c')
          | (PyOk None, c') \<Rightarrow>
              if ups then (case seed_from_filter filt of
                  PyOk seeded \<Rightarrow> insert_seeded os tz alloc new_id (dict_update seeded replacement) c'
                | r \<Rightarrow> (py_raise r, c'))
              else (PyOk \<lparr>matched_count = 0, modified_count = 0, upserted_id = None\<rparr>, c')
          | (r, c') \<Rightarrow> (py_raise r, c'))
      | r \<Rightarrow> (py_raise r, c))"

section \<open>Metrics\<close>

definition count_documents :: "(py_datetime \<Rightarrow> int) \<Rightarrow> (nat \<Rightarrow> bool) \<Rightarrow> nat \<Rightarrow> pyval \<Rightarrow> coll \<Rightarrow> nat py" where
  "count_documents tz alloc fuel filt c = py_bind (iter_matches tz alloc fuel filt c) (\<lambda>ms. PyOk (length ms))"

definition estimated_document_count :: "coll \<Rightarrow> nat py" where
  "estimated_document_count c = fst (CollectionHandle_live_count (co_data c))"

definition distinct_candidates :: "pyval \<Rightarrow> nat list list \<Rightarrow> pyval list" where
  "distinct_candidates doc segments = (case direct_value doc segments of
     None \<Rightarrow> [] | Some v \<Rightarrow> (case v of PyList xs \<Rightarrow> xs | _ \<Rightarrow> [v]))"

definition add_distinct :: "pyval list \<Rightarrow> pyval \<Rightarrow> pyval list" where
  "add_distinct results v = (if \<exists>existing \<in> set results. values_equal v existing then results else results @ [v])"

definition distinct_values ::
    "(py_datetime \<Rightarrow> int) \<Rightarrow> (nat \<Rightarrow> bool) \<Rightarrow> nat \<Rightarrow> nat list \<Rightarrow> pyval \<Rightarrow> coll \<Rightarrow> pyval list py" where
  "distinct_values tz alloc fuel key filt c =
     py_bind (iter_matches tz alloc fuel filt c) (\<lambda>ms.
     PyOk (foldl add_distinct [] (concat (map (\<lambda>(offset, doc). distinct_candidates doc (split_dots key)) ms))))"

end
