(* ===== verification/Collection_Cursor.thy ===== *)
theory Collection_Cursor
  imports Collection_Operations
begin

text \<open>
  Cursors (python/bsondb/cursor.py): the settings of a query, with their checks, and iteration, which pulls
  the matches one by one from the collection as it is then: all of them at once only to sort them, and
  then without those skipped, up to the limit, and projected.

  Sorting is modelled for values that Python orders totally: where two of them cannot be compared, it
  raises \<^verbatim>\<open>TypeError\<close>.
\<close>

section \<open>Settings\<close>

text \<open>A projection and a sort specification, as a caller gives them.\<close>

datatype projection_spec = Proj_mapping "(nat list \<times> bool) list" | Proj_fields "nat list list"

datatype sort_item = Sort_field "nat list" | Sort_pair "nat list" int | Sort_other

datatype sort_spec = Sort_str "nat list" | Sort_mapping "(nat list \<times> int) list" | Sort_items "sort_item list" | Sort_invalid

fun set_field :: "(nat list \<times> bool) list \<Rightarrow> nat list \<Rightarrow> bool \<Rightarrow> (nat list \<times> bool) list" where
  "set_field [] fld b = [(fld, b)]"
| "set_field ((f, c) # spec) fld b = (if f = fld then (f, b) # spec else (f, c) # set_field spec fld b)"

fun projection_items :: "projection_spec \<Rightarrow> (nat list \<times> bool) list" where
  "projection_items (Proj_mapping items) = items"
| "projection_items (Proj_fields names) = foldl (\<lambda>spec fld. set_field spec fld True) [] names"

definition include_keys :: "(nat list \<times> bool) list \<Rightarrow> nat list list" where
  "include_keys spec = map fst (filter (\<lambda>(fld, b). b \<and> fld \<noteq> id_path) spec)"

definition normalize_projection :: "projection_spec option \<Rightarrow> (nat list \<times> bool) list option py" where
  "normalize_projection projection = (case projection of
     None \<Rightarrow> PyOk None
   | Some p \<Rightarrow>
       let spec = projection_items p;
           exclude_keys = map fst (filter (\<lambda>(fld, b). \<not> b \<and> fld \<noteq> id_path) spec) in
       if include_keys spec \<noteq> [] \<and> exclude_keys \<noteq> [] then PyRaise ValueError else PyOk (Some spec))"

fun normalize_items :: "sort_item list \<Rightarrow> (nat list \<times> int) list py" where
  "normalize_items [] = PyOk []"
| "normalize_items (item # items) = (case item of
     Sort_field f \<Rightarrow> py_bind (normalize_items items) (\<lambda>rest. PyOk ((f, 1) # rest))
   | Sort_pair f d \<Rightarrow> py_bind (normalize_items items) (\<lambda>rest. PyOk ((f, d) # rest))
   | Sort_other \<Rightarrow> PyRaise ValueError)"

definition normalize_sort :: "sort_spec option \<Rightarrow> (nat list \<times> int) list option py" where
  "normalize_sort spec = (case spec of
     None \<Rightarrow> PyOk None
   | Some (Sort_str f) \<Rightarrow> PyOk (Some [(f, 1)])
   | Some (Sort_mapping items) \<Rightarrow> PyOk (Some items)
   | Some (Sort_items items) \<Rightarrow> py_bind (normalize_items items) (\<lambda>s. PyOk (Some s))
   | Some Sort_invalid \<Rightarrow> PyRaise TypeError)"

section \<open>Projection\<close>

definition py_get :: "doc \<Rightarrow> nat list \<Rightarrow> pyval option" where
  "py_get doc fld = map_of doc (PyStr fld)"

definition apply_projection :: "doc \<Rightarrow> (nat list \<times> bool) list option \<Rightarrow> doc" where
  "apply_projection doc projection = (case projection of
     None \<Rightarrow> doc
   | Some spec \<Rightarrow>
       if spec = [] then doc
       else if include_keys spec \<noteq> [] then
         (let result = concat (map (\<lambda>fld. case py_get doc fld of Some v \<Rightarrow> [(PyStr fld, v)] | None \<Rightarrow> []) (include_keys spec)) in
          case py_get doc id_path of
            Some i \<Rightarrow> if map_of spec id_path \<noteq> Some False then PyDict_SetItem result (PyStr id_path) i else result
          | None \<Rightarrow> result)
       else filter (\<lambda>(k, v). \<forall>fld. k = PyStr fld \<longrightarrow> (fld, False) \<notin> set spec) doc)"

section \<open>Sorting\<close>

text \<open>The key \<^verbatim>\<open>(value is None, value)\<close>; a tuple is compared at the first place where it differs.\<close>

definition sort_key :: "nat list \<Rightarrow> doc \<Rightarrow> pyval" where
  "sort_key fld d = (case py_get d fld of None \<Rightarrow> PyNone | Some v \<Rightarrow> v)"

definition key_less :: "pyval \<Rightarrow> pyval \<Rightarrow> bool option" where
  "key_less a b =
     (if (a = PyNone) \<noteq> (b = PyNone) then Some (b = PyNone)
      else if py_eq a b then Some False
      else py_less a b)"

text \<open>A stable sort: every document is put behind those that are not greater.\<close>

fun insert_doc :: "(doc \<Rightarrow> doc \<Rightarrow> bool) \<Rightarrow> doc \<Rightarrow> doc list \<Rightarrow> doc list" where
  "insert_doc lt d [] = [d]"
| "insert_doc lt d (e # es) = (if lt e d then e # insert_doc lt d es else d # e # es)"

fun stable_sort :: "(doc \<Rightarrow> doc \<Rightarrow> bool) \<Rightarrow> doc list \<Rightarrow> doc list" where
  "stable_sort lt [] = []"
| "stable_sort lt (d # ds) = insert_doc lt d (stable_sort lt ds)"

definition py_sort :: "nat list \<Rightarrow> bool \<Rightarrow> doc list \<Rightarrow> doc list py" where
  "py_sort fld reverse docs =
     (if \<exists>i < length docs. \<exists>j < length docs. i \<noteq> j \<and> key_less (sort_key fld (docs ! i)) (sort_key fld (docs ! j)) = None
      then PyRaise TypeError
      else let lt = (\<lambda>d e. key_less (sort_key fld d) (sort_key fld e) = Some True) in
        PyOk (stable_sort (if reverse then (\<lambda>d e. lt e d) else lt) docs))"

text \<open>The last fld is sorted first.\<close>

fun sort_docs :: "(nat list \<times> int) list \<Rightarrow> doc list \<Rightarrow> doc list py" where
  "sort_docs [] docs = PyOk docs"
| "sort_docs ((fld, direction) # specs) docs = py_bind (sort_docs specs docs) (py_sort fld (direction < 0))"

section \<open>The stream of a query\<close>

text \<open>
  The generator of \<^verbatim>\<open>_iter_matches\<close> between two documents: a scan after the record at an offset, the
  offsets of an index that are left, or documents that are gathered already.
\<close>

datatype doc_source = Src_scan int | Src_offsets "nat list" | Src_docs "doc list"

fun read_next :: "(pyval \<Rightarrow> bool py) \<Rightarrow> nat list \<Rightarrow> collection_handle \<Rightarrow> (pyval \<times> nat list) option py" where
  "read_next p [] h = PyOk None"
| "read_next p (offset # offsets) h =
     (case CollectionHandle_read_record (int offset) h of
        (PyOk None, h') \<Rightarrow> read_next p offsets h'
      | (PyOk (Some raw), h') \<Rightarrow>
          py_bind (py_decode raw) (\<lambda>doc.
          py_bind (p doc) (\<lambda>matching.
          if matching then PyOk (Some (doc, offsets)) else read_next p offsets h'))
      | (r, h') \<Rightarrow> py_raise r)"

text \<open>A record decodes to a dict.\<close>

definition items_of :: "pyval \<Rightarrow> doc" where
  "items_of d = (case py_mapping d of Some items \<Rightarrow> items | None \<Rightarrow> [])"

definition pull :: "(pyval \<Rightarrow> bool py) \<Rightarrow> nat \<Rightarrow> collection_handle \<Rightarrow> doc_source \<Rightarrow> (doc \<times> doc_source) option py" where
  "pull p fuel h src = (case src of
     Src_scan prev \<Rightarrow> py_bind (scan_first p fuel prev h) (\<lambda>m.
       PyOk (map_option (\<lambda>(offset, d). (items_of d, Src_scan (int offset))) m))
   | Src_offsets offsets \<Rightarrow> py_bind (read_next p offsets h) (\<lambda>m.
       PyOk (map_option (\<lambda>(d, rest). (items_of d, Src_offsets rest)) m))
   | Src_docs docs \<Rightarrow> PyOk (case docs of [] \<Rightarrow> None | d # ds \<Rightarrow> Some (d, Src_docs ds)))"

text \<open>\<^verbatim>\<open>islice(stream, skip, None)\<close>, and a second one for the limit, which stops without a pull.\<close>

fun skip_pull :: "(pyval \<Rightarrow> bool py) \<Rightarrow> nat \<Rightarrow> collection_handle \<Rightarrow> nat \<Rightarrow> doc_source \<Rightarrow> (doc \<times> doc_source) option py" where
  "skip_pull p fuel h 0 src = pull p fuel h src"
| "skip_pull p fuel h (Suc n) src = py_bind (pull p fuel h src) (\<lambda>m.
     case m of None \<Rightarrow> PyOk None | Some (_, src') \<Rightarrow> skip_pull p fuel h n src')"

record doc_stream =
  st_source :: doc_source
  st_skip :: nat
  st_limit :: "nat option"

definition stream_done :: doc_stream where
  "stream_done = \<lparr>st_source = Src_docs [], st_skip = 0, st_limit = None\<rparr>"

definition stream_next :: "(pyval \<Rightarrow> bool py) \<Rightarrow> nat \<Rightarrow> collection_handle \<Rightarrow> doc_stream \<Rightarrow> (doc \<times> doc_stream) option py" where
  "stream_next p fuel h st =
     (if st_limit st = Some 0 then PyOk None
      else py_bind (skip_pull p fuel h (st_skip st) (st_source st)) (\<lambda>m.
        PyOk (map_option (\<lambda>(d, src).
          (d, \<lparr>st_source = src, st_skip = 0, st_limit = map_option (\<lambda>n. n - 1) (st_limit st)\<rparr>)) m)))"

section \<open>Cursors\<close>

record cursor =
  cu_filter :: pyval
  cu_projection :: "(nat list \<times> bool) list option"
  cu_raw_projection :: "projection_spec option"
  cu_skip :: nat
  cu_limit :: nat
  cu_sort :: "(nat list \<times> int) list option"
  cu_raw_sort :: "sort_spec option"
  cu_iterator :: "doc_stream option"
  cu_exhausted :: bool

definition new_Cursor :: "pyval \<Rightarrow> projection_spec option \<Rightarrow> int \<Rightarrow> int \<Rightarrow> sort_spec option \<Rightarrow> cursor py" where
  "new_Cursor filt projection skip limit spec =
     py_bind (normalize_projection projection) (\<lambda>p.
     py_bind (normalize_sort spec) (\<lambda>s.
     PyOk \<lparr>cu_filter = filt, cu_projection = p, cu_raw_projection = projection, cu_skip = nat skip, cu_limit = nat limit,
       cu_sort = s, cu_raw_sort = spec, cu_iterator = None, cu_exhausted = False\<rparr>))"

definition configure :: "cursor \<Rightarrow> cursor py \<Rightarrow> cursor py" where
  "configure cu r = (if cu_iterator cu \<noteq> None then PyRaise RuntimeError else r)"

definition cursor_skip :: "int \<Rightarrow> cursor \<Rightarrow> cursor py" where
  "cursor_skip n cu = configure cu (if n < 0 then PyRaise ValueError else PyOk (cu\<lparr>cu_skip := nat n\<rparr>))"

definition cursor_limit :: "int \<Rightarrow> cursor \<Rightarrow> cursor py" where
  "cursor_limit n cu = configure cu (if n < 0 then PyRaise ValueError else PyOk (cu\<lparr>cu_limit := nat n\<rparr>))"

definition cursor_sort :: "sort_spec \<Rightarrow> int \<Rightarrow> cursor \<Rightarrow> cursor py" where
  "cursor_sort key_or_list direction cu = configure cu (case key_or_list of
     Sort_str f \<Rightarrow> PyOk (cu\<lparr>cu_sort := Some [(f, direction)], cu_raw_sort := Some key_or_list\<rparr>)
   | _ \<Rightarrow> py_bind (normalize_sort (Some key_or_list)) (\<lambda>s. PyOk (cu\<lparr>cu_sort := s, cu_raw_sort := Some key_or_list\<rparr>)))"

definition cursor_projection :: "projection_spec option \<Rightarrow> cursor \<Rightarrow> cursor py" where
  "cursor_projection spec cu = configure cu (py_bind (normalize_projection spec) (\<lambda>p.
     PyOk (cu\<lparr>cu_projection := p, cu_raw_projection := spec\<rparr>)))"

definition cursor_rewind :: "cursor \<Rightarrow> cursor" where
  "cursor_rewind cu = cu\<lparr>cu_iterator := None, cu_exhausted := False\<rparr>"

definition cursor_clone :: "cursor \<Rightarrow> cursor py" where
  "cursor_clone cu = new_Cursor (cu_filter cu) (cu_raw_projection cu) (int (cu_skip cu)) (int (cu_limit cu)) (cu_raw_sort cu)"

text \<open>
  The start of \<^verbatim>\<open>_build_iterator\<close>: the filter is tried on the empty document, the index is asked, and
  where the cursor is sorted, all matches are read.
\<close>

definition docs_of :: "(nat \<times> pyval) list \<Rightarrow> doc list" where
  "docs_of ms = map (\<lambda>(offset, d). items_of d) ms"

definition open_source ::
    "(py_datetime \<Rightarrow> int) \<Rightarrow> (nat \<Rightarrow> bool) \<Rightarrow> nat \<Rightarrow> coll \<Rightarrow> cursor \<Rightarrow> doc_source py" where
  "open_source tz alloc fuel c cu = (case cu_sort cu of
     Some (s # ss) \<Rightarrow>
       py_bind (iter_matches tz alloc fuel (cu_filter cu) c) (\<lambda>ms.
       py_bind (sort_docs (s # ss) (docs_of ms)) (\<lambda>docs. PyOk (Src_docs docs)))
   | _ \<Rightarrow>
       let f = resolved_filter (cu_filter cu) in
       py_bind (matches (PyDict []) f) (\<lambda>_.
       py_bind (index_lookup_for_filter tz alloc f (co_indexes c)) (\<lambda>indexed.
       PyOk (case indexed of Some offsets \<Rightarrow> Src_offsets offsets | None \<Rightarrow> Src_scan (-1)))))"

definition build_iterator ::
    "(py_datetime \<Rightarrow> int) \<Rightarrow> (nat \<Rightarrow> bool) \<Rightarrow> nat \<Rightarrow> coll \<Rightarrow> cursor \<Rightarrow> doc_stream py" where
  "build_iterator tz alloc fuel c cu = py_bind (open_source tz alloc fuel c cu) (\<lambda>src.
     PyOk \<lparr>st_source = src, st_skip = cu_skip cu, st_limit = (if cu_limit cu = 0 then None else Some (cu_limit cu))\<rparr>)"

text \<open>
  \<^verbatim>\<open>__next__\<close>, on the collection as it is at that time; \<open>None\<close> is \<^verbatim>\<open>StopIteration\<close>. A generator
  that has raised gives nothing more.
\<close>

definition cursor_next ::
    "(py_datetime \<Rightarrow> int) \<Rightarrow> (nat \<Rightarrow> bool) \<Rightarrow> nat \<Rightarrow> coll \<Rightarrow> cursor \<Rightarrow> doc option py \<times> cursor" where
  "cursor_next tz alloc fuel c cu =
     (if cu_exhausted cu then (PyOk None, cu)
      else case py_bind (case cu_iterator cu of Some st \<Rightarrow> PyOk st | None \<Rightarrow> build_iterator tz alloc fuel c cu)
          (stream_next (\<lambda>d. matches d (resolved_filter (cu_filter cu))) fuel (co_data c)) of
        PyOk None \<Rightarrow> (PyOk None, cu\<lparr>cu_iterator := Some stream_done, cu_exhausted := True\<rparr>)
      | PyOk (Some (d, st)) \<Rightarrow> (PyOk (Some (apply_projection d (cu_projection cu))), cu\<lparr>cu_iterator := Some st\<rparr>)
      | r \<Rightarrow> (py_raise r, cu\<lparr>cu_iterator := Some stream_done\<rparr>))"

text \<open>\<^verbatim>\<open>list(cursor)\<close>.\<close>

fun cursor_list ::
    "(py_datetime \<Rightarrow> int) \<Rightarrow> (nat \<Rightarrow> bool) \<Rightarrow> nat \<Rightarrow> coll \<Rightarrow> nat \<Rightarrow> cursor \<Rightarrow> doc list py \<times> cursor" where
  "cursor_list tz alloc fuel c 0 cu = (PyDiverge, cu)"
| "cursor_list tz alloc fuel c (Suc n) cu = (case cursor_next tz alloc fuel c cu of
     (PyOk None, cu') \<Rightarrow> (PyOk [], cu')
   | (PyOk (Some d), cu') \<Rightarrow> (case cursor_list tz alloc fuel c n cu' of
         (PyOk ds, cu'') \<Rightarrow> (PyOk (d # ds), cu'')
       | r \<Rightarrow> r)
   | (r, cu') \<Rightarrow> (py_raise r, cu'))"

text \<open>\<^verbatim>\<open>to_list\<close>.\<close>

fun cursor_take ::
    "(py_datetime \<Rightarrow> int) \<Rightarrow> (nat \<Rightarrow> bool) \<Rightarrow> nat \<Rightarrow> coll \<Rightarrow> nat \<Rightarrow> cursor \<Rightarrow> doc list py \<times> cursor" where
  "cursor_take tz alloc fuel c 0 cu = (PyOk [], cu)"
| "cursor_take tz alloc fuel c (Suc n) cu = (case cursor_next tz alloc fuel c cu of
     (PyOk None, cu') \<Rightarrow> (PyOk [], cu')
   | (PyOk (Some d), cu') \<Rightarrow> (case cursor_take tz alloc fuel c n cu' of
         (PyOk ds, cu'') \<Rightarrow> (PyOk (d # ds), cu'')
       | r \<Rightarrow> r)
   | (r, cu') \<Rightarrow> (py_raise r, cu'))"

definition cursor_to_list ::
    "(py_datetime \<Rightarrow> int) \<Rightarrow> (nat \<Rightarrow> bool) \<Rightarrow> nat \<Rightarrow> coll \<Rightarrow> int option \<Rightarrow> cursor \<Rightarrow> doc list py \<times> cursor" where
  "cursor_to_list tz alloc fuel c len cu = (case len of
     None \<Rightarrow> cursor_list tz alloc fuel c fuel cu
   | Some n \<Rightarrow> if n < 0 then (PyRaise ValueError, cu) else cursor_take tz alloc fuel c (nat n) cu)"

definition cursor_index ::
    "(py_datetime \<Rightarrow> int) \<Rightarrow> (nat \<Rightarrow> bool) \<Rightarrow> nat \<Rightarrow> coll \<Rightarrow> int \<Rightarrow> cursor \<Rightarrow> doc py" where
  "cursor_index tz alloc fuel c index cu =
     (if index < 0 then PyRaise IndexError
      else py_bind (cursor_clone cu) (\<lambda>clone.
        py_bind (cursor_skip index clone) (\<lambda>clone.
        py_bind (cursor_limit 1 clone) (\<lambda>clone.
        py_bind (fst (cursor_to_list tz alloc fuel c None clone)) (\<lambda>results.
        case results of [] \<Rightarrow> PyRaise IndexError | d # _ \<Rightarrow> PyOk d)))))"

definition cursor_slice ::
    "(py_datetime \<Rightarrow> int) \<Rightarrow> (nat \<Rightarrow> bool) \<Rightarrow> nat \<Rightarrow> coll \<Rightarrow> int option \<Rightarrow> int option \<Rightarrow> cursor \<Rightarrow> doc list py" where
  "cursor_slice tz alloc fuel c start stop cu =
     (if (\<exists>i. start = Some i \<and> i < 0) \<or> (\<exists>i. stop = Some i \<and> i < 0) then PyRaise IndexError
      else let skip = (case start of None \<Rightarrow> 0 | Some i \<Rightarrow> i);
               limit = (case stop of None \<Rightarrow> 0 | Some i \<Rightarrow> i - skip) in
        py_bind (cursor_clone cu) (\<lambda>clone.
        py_bind (cursor_skip skip clone) (\<lambda>clone.
        py_bind (if limit > 0 then cursor_limit limit clone else PyOk clone) (\<lambda>clone.
        fst (cursor_to_list tz alloc fuel c None clone)))))"

end
