(* ===== verification/Collection_Spec.thy ===== *)
theory Collection_Spec
  imports Collection_Steps Collection_Operations
begin

text \<open>
  What a collection promises: a specification of its operations on a list of documents, each with the
  offset that identifies it, and the end of the file. The indexes do not appear, except for the paths
  \<open>F\<close> whose values must differ from document to document.

  \<open>None\<close> means that the specification says nothing: a document that cannot be stored and indexed (see
  \<open>storable\<close>, \<open>indexable\<close>), a filter that raises or that an index answers differently (\<open>answerable\<close>,
  \<open>index_sound\<close>), an \<^verbatim>\<open>update_many\<close> whose paths lead into what its own \<^verbatim>\<open>$set\<close> stores, which changes the update
  from one target to the next (\<open>unshared_update\<close>), or a file that has grown beyond \<open>2 ^ 37\<close> bytes.
\<close>

type_synonym store = "(nat \<times> pyval) list \<times> nat"

section \<open>Steps\<close>

definition small :: "store \<Rightarrow> bool" where
  "small st \<longleftrightarrow> snd st < 2 ^ 37"

definition fits_in :: "(py_datetime \<Rightarrow> int) \<Rightarrow> nat list list \<Rightarrow> doc \<Rightarrow> store \<Rightarrow> bool" where
  "fits_in tz F items st \<longleftrightarrow> small st \<and> storable items \<and> (\<forall>fp \<in> set F. indexable tz (PyDict items) fp)"

text \<open>A step that needs the result of another one.\<close>

definition s_bind :: "('a py \<times> store) option \<Rightarrow> ('a \<Rightarrow> store \<Rightarrow> ('b py \<times> store) option) \<Rightarrow> ('b py \<times> store) option" where
  "s_bind m k = (case m of None \<Rightarrow> None | Some (r, st) \<Rightarrow> (case r of PyOk x \<Rightarrow> k x st | _ \<Rightarrow> Some (py_raise r, st)))"

text \<open>A computation that leaves the store alone.\<close>

definition s_pure :: "'a py \<Rightarrow> store \<Rightarrow> ('a py \<times> store) option" where
  "s_pure r st = Some (r, st)"

definition spec_insert ::
    "(py_datetime \<Rightarrow> int) \<Rightarrow> (nat \<Rightarrow> bool) \<Rightarrow> nat list list \<Rightarrow> doc \<Rightarrow> store \<Rightarrow> (unit py \<times> store) option" where
  "spec_insert tz alloc F items st =
     (if \<not> fits_in tz F items st then None
      else case st of (L, E) \<Rightarrow> Some (case py_encode alloc (PyDict items) of
          PyOk raw \<Rightarrow>
            let x = PyDict (norm_items items); E' = E + 1 + length raw in
            if \<exists>fp \<in> set F. conflict tz fp x L then (PyRaise DuplicateKeyError, (L, E')) else (PyOk (), (L @ [(E, x)], E'))
        | r \<Rightarrow> (py_raise r, st)))"

definition spec_update ::
    "(py_datetime \<Rightarrow> int) \<Rightarrow> (nat \<Rightarrow> bool) \<Rightarrow> nat list list \<Rightarrow> nat \<Rightarrow> pyval \<Rightarrow> doc \<Rightarrow> store \<Rightarrow> (nat py \<times> store) option" where
  "spec_update tz alloc F offset old items st =
     (if \<not> (fits_in tz F items st \<and> (offset, old) \<in> set (fst st)) then None
      else case st of (L, E) \<Rightarrow> Some (case py_encode alloc old of
          PyOk raw_old \<Rightarrow> (case py_encode alloc (PyDict items) of
              PyOk raw \<Rightarrow>
                if raw = raw_old then (PyOk 0, st)
                else let new = PyDict (norm_items items); rest = filter (\<lambda>d. fst d \<noteq> offset) L; E' = E + 1 + length raw in
                  if \<exists>fp \<in> set F. conflict tz fp new rest then (PyRaise DuplicateKeyError, (rest, E'))
                  else (PyOk 1, (rest @ [(E, new)], E'))
            | r \<Rightarrow> (py_raise r, st))
        | r \<Rightarrow> (py_raise r, st)))"

definition spec_select :: "nat list list \<Rightarrow> pyval \<Rightarrow> store \<Rightarrow> ((nat \<times> pyval) list py \<times> store) option" where
  "spec_select F filt st =
     (if small st \<and> answerable filt (fst st) \<and> index_sound F (fst st) filt
      then Some (PyOk (filter (\<lambda>d. matching filt (snd d)) (fst st)), st) else None)"

definition first_of :: "'a list \<Rightarrow> 'a option" where
  "first_of xs = (case xs of [] \<Rightarrow> None | x # _ \<Rightarrow> Some x)"

definition spec_remove :: "(nat \<times> pyval) list \<Rightarrow> store \<Rightarrow> store" where
  "spec_remove ts st = (filter (\<lambda>d. fst d \<notin> fst ` set ts) (fst st), snd st)"

section \<open>Operations\<close>

fun spec_insert_ordered ::
    "(py_datetime \<Rightarrow> int) \<Rightarrow> (nat \<Rightarrow> bool) \<Rightarrow> nat list list \<Rightarrow> (pyval \<times> doc) list \<Rightarrow> store \<Rightarrow> (unit py \<times> store) option" where
  "spec_insert_ordered tz alloc F [] st = s_pure (PyOk ()) st"
| "spec_insert_ordered tz alloc F ((new_id, document) # documents) st =
     s_bind (spec_insert tz alloc F (with_id new_id document) st) (\<lambda>_. spec_insert_ordered tz alloc F documents)"

fun spec_insert_unordered ::
    "(py_datetime \<Rightarrow> int) \<Rightarrow> (nat \<Rightarrow> bool) \<Rightarrow> nat list list \<Rightarrow> py_error option \<Rightarrow> (pyval \<times> doc) list \<Rightarrow> store \<Rightarrow> (unit py \<times> store) option" where
  "spec_insert_unordered tz alloc F first_error [] st =
     s_pure (case first_error of None \<Rightarrow> PyOk () | Some e \<Rightarrow> PyRaise e) st"
| "spec_insert_unordered tz alloc F first_error ((new_id, document) # documents) st =
     (case spec_insert tz alloc F (with_id new_id document) st of
        Some (PyOk _, st') \<Rightarrow> spec_insert_unordered tz alloc F first_error documents st'
      | Some (PyRaise e, st') \<Rightarrow>
          if e \<in> {InvalidDocument, DuplicateKeyError}
          then spec_insert_unordered tz alloc F (if first_error = None then Some e else first_error) documents st'
          else Some (PyRaise e, st')
      | r \<Rightarrow> r)"

definition spec_find_delete :: "nat list list \<Rightarrow> pyval \<Rightarrow> store \<Rightarrow> (pyval option py \<times> store) option" where
  "spec_find_delete F filt st = s_bind (spec_select F filt st) (\<lambda>ms st. case ms of
     [] \<Rightarrow> s_pure (PyOk None) st
   | m # _ \<Rightarrow> s_pure (PyOk (Some (snd m))) (spec_remove [m] st))"

definition spec_delete_many :: "nat list list \<Rightarrow> pyval \<Rightarrow> store \<Rightarrow> (nat py \<times> store) option" where
  "spec_delete_many F filt st = s_bind (spec_select F filt st) (\<lambda>ms st. s_pure (PyOk (length ms)) (spec_remove ms st))"

definition spec_update_match ::
    "(py_datetime \<Rightarrow> int) \<Rightarrow> (nat \<Rightarrow> bool) \<Rightarrow> nat list list \<Rightarrow> (doc \<Rightarrow> doc py) \<Rightarrow> nat \<times> pyval \<Rightarrow> store \<Rightarrow>
       ((pyval \<times> pyval \<times> nat) py \<times> store) option" where
  "spec_update_match tz alloc F change m st = (case py_mapping (snd m) of
     None \<Rightarrow> None
   | Some old \<Rightarrow> s_bind (s_pure (change old) st) (\<lambda>new st.
       s_bind (spec_update tz alloc F (fst m) (snd m) new st) (\<lambda>n. s_pure (PyOk (snd m, PyDict new, n)))))"

definition spec_update_first ::
    "(py_datetime \<Rightarrow> int) \<Rightarrow> (nat \<Rightarrow> bool) \<Rightarrow> nat list list \<Rightarrow> (doc \<Rightarrow> doc py) \<Rightarrow> pyval \<Rightarrow> store \<Rightarrow>
       ((pyval \<times> pyval \<times> nat) option py \<times> store) option" where
  "spec_update_first tz alloc F change filt st = s_bind (spec_select F filt st) (\<lambda>ms st.
     case ms of
       [] \<Rightarrow> s_pure (PyOk None) st
     | m # _ \<Rightarrow> s_bind (spec_update_match tz alloc F change m st) (\<lambda>u. s_pure (PyOk (Some u))))"

definition spec_seeded ::
    "(py_datetime \<Rightarrow> int) \<Rightarrow> (nat \<Rightarrow> bool) \<Rightarrow> nat list list \<Rightarrow> pyval \<Rightarrow> doc \<Rightarrow> store \<Rightarrow> (update_result py \<times> store) option" where
  "spec_seeded tz alloc F new_id seeded st =
     s_bind (spec_insert tz alloc F (with_id new_id seeded) st) (\<lambda>_.
     s_pure (PyOk \<lparr>matched_count = 0, modified_count = 0, upserted_id = map_of (with_id new_id seeded) id_key\<rparr>))"

definition spec_found :: "bool \<Rightarrow> (pyval \<times> pyval \<times> nat) option \<Rightarrow> pyval option" where
  "spec_found return_document = map_option (\<lambda>(old, new, n). if return_document then new else old)"

definition spec_find_update ::
    "(py_datetime \<Rightarrow> int) \<Rightarrow> (nat \<Rightarrow> bool) \<Rightarrow> nat list list \<Rightarrow> unit py \<Rightarrow> (doc \<Rightarrow> doc py) \<Rightarrow> pyval \<Rightarrow> bool \<Rightarrow> store \<Rightarrow>
       (pyval option py \<times> store) option" where
  "spec_find_update tz alloc F check change filt return_document st =
     s_bind (s_pure check st) (\<lambda>_ st.
     s_bind (spec_update_first tz alloc F change filt st) (\<lambda>m. s_pure (PyOk (spec_found return_document m))))"

text \<open>\<open>seed\<close> is the document of the upsert, \<open>None\<close> where the call does not ask for one.\<close>

definition spec_update_one ::
    "(py_datetime \<Rightarrow> int) \<Rightarrow> (nat \<Rightarrow> bool) \<Rightarrow> nat list list \<Rightarrow> unit py \<Rightarrow> (doc \<Rightarrow> doc py) \<Rightarrow> pyval \<Rightarrow> doc py option \<Rightarrow>
       pyval \<Rightarrow> store \<Rightarrow> (update_result py \<times> store) option" where
  "spec_update_one tz alloc F check change new_id seed filt st =
     s_bind (s_pure check st) (\<lambda>_ st.
     s_bind (spec_update_first tz alloc F change filt st) (\<lambda>m st.
     case (m, seed) of
       (Some (old, new, n), _) \<Rightarrow> s_pure (PyOk \<lparr>matched_count = 1, modified_count = n, upserted_id = None\<rparr>) st
     | (None, Some r) \<Rightarrow> s_bind (s_pure r st) (spec_seeded tz alloc F new_id)
     | (None, None) \<Rightarrow> s_pure (PyOk \<lparr>matched_count = 0, modified_count = 0, upserted_id = None\<rparr>) st))"

fun spec_targets ::
    "(py_datetime \<Rightarrow> int) \<Rightarrow> (nat \<Rightarrow> bool) \<Rightarrow> nat list list \<Rightarrow> (doc \<Rightarrow> doc py) \<Rightarrow> nat \<Rightarrow> (nat \<times> pyval) list \<Rightarrow> store \<Rightarrow>
       (nat py \<times> store) option" where
  "spec_targets tz alloc F change modified [] st = s_pure (PyOk modified) st"
| "spec_targets tz alloc F change modified (m # ms) st =
     s_bind (spec_update_match tz alloc F change m st) (\<lambda>(old, new, n). spec_targets tz alloc F change (modified + n) ms)"

definition spec_update_many ::
    "(py_datetime \<Rightarrow> int) \<Rightarrow> (nat \<Rightarrow> bool) \<Rightarrow> nat list list \<Rightarrow> unit py \<Rightarrow> (doc \<Rightarrow> doc py) \<Rightarrow> pyval \<Rightarrow> doc py option \<Rightarrow>
       pyval \<Rightarrow> store \<Rightarrow> (update_result py \<times> store) option" where
  "spec_update_many tz alloc F check change new_id seed filt st =
     s_bind (s_pure check st) (\<lambda>_ st.
     s_bind (spec_select F filt st) (\<lambda>ms st.
     if ms = [] then (case seed of
         Some r \<Rightarrow> s_bind (s_pure r st) (spec_seeded tz alloc F new_id)
       | None \<Rightarrow> s_pure (PyOk \<lparr>matched_count = 0, modified_count = 0, upserted_id = None\<rparr>) st)
     else s_bind (spec_targets tz alloc F change 0 ms st) (\<lambda>modified.
       s_pure (PyOk \<lparr>matched_count = length ms, modified_count = modified, upserted_id = None\<rparr>))))"

section \<open>Commands\<close>

datatype command =
    Insert_one pyval doc
  | Insert_many bool "(pyval \<times> doc) list"
  | Find pyval
  | Find_one pyval
  | Find_one_and_delete pyval
  | Delete_one pyval
  | Delete_many pyval
  | Find_one_and_update pyval pyval bool
  | Update_one pyval pyval pyval bool
  | Update_many pyval pyval pyval bool
  | Find_one_and_replace pyval doc bool
  | Replace_one pyval pyval doc bool
  | Count_documents pyval
  | Distinct "nat list" pyval

datatype reply = Done | Document "pyval option" | Documents "pyval list" | Number nat | Update update_result

definition reply_of :: "('a \<Rightarrow> reply) \<Rightarrow> 'a py \<times> 'c \<Rightarrow> reply py \<times> 'c" where
  "reply_of f m = (py_bind (fst m) (\<lambda>x. PyOk (f x)), snd m)"

text \<open>A call of the code.\<close>

fun execute ::
    "os_calls \<Rightarrow> (py_datetime \<Rightarrow> int) \<Rightarrow> (nat \<Rightarrow> bool) \<Rightarrow> nat \<Rightarrow> (pyval \<Rightarrow> pyval \<Rightarrow> pyval py) \<Rightarrow> command \<Rightarrow> coll \<Rightarrow> reply py \<times> coll" where
  "execute os tz alloc fuel fadd (Insert_one new_id d) c = reply_of (\<lambda>_. Done) (insert_one os tz alloc new_id d c)"
| "execute os tz alloc fuel fadd (Insert_many ordered ds) c = reply_of (\<lambda>_. Done)
     (if ordered then insert_many_ordered os tz alloc ds c else insert_many_unordered os tz alloc None ds c)"
| "execute os tz alloc fuel fadd (Find filt) c = reply_of (\<lambda>ms. Documents (map snd ms)) (iter_matches tz alloc fuel filt c, c)"
| "execute os tz alloc fuel fadd (Find_one filt) c = reply_of Document (find_one tz alloc fuel filt c, c)"
| "execute os tz alloc fuel fadd (Find_one_and_delete filt) c = reply_of Document (find_one_and_delete tz alloc fuel filt c)"
| "execute os tz alloc fuel fadd (Delete_one filt) c = reply_of Number (delete_one tz alloc fuel filt c)"
| "execute os tz alloc fuel fadd (Delete_many filt) c = reply_of Number (delete_many tz alloc fuel filt c)"
| "execute os tz alloc fuel fadd (Find_one_and_update filt u post) c =
     reply_of Document (find_one_and_update os tz alloc fuel fadd filt u post c)"
| "execute os tz alloc fuel fadd (Update_one new_id filt u ups) c =
     reply_of Update (update_one os tz alloc fuel fadd new_id filt u ups c)"
| "execute os tz alloc fuel fadd (Update_many new_id filt u ups) c =
     reply_of Update (update_many os tz alloc fuel fadd new_id filt u ups c)"
| "execute os tz alloc fuel fadd (Find_one_and_replace filt d post) c =
     reply_of Document (find_one_and_replace os tz alloc fuel filt d post c)"
| "execute os tz alloc fuel fadd (Replace_one new_id filt d ups) c =
     reply_of Update (replace_one os tz alloc fuel new_id filt d ups c)"
| "execute os tz alloc fuel fadd (Count_documents filt) c = reply_of Number (count_documents tz alloc fuel filt c, c)"
| "execute os tz alloc fuel fadd (Distinct key filt) c = reply_of Documents (distinct_values tz alloc fuel key filt c, c)"

text \<open>What the specification says of it.\<close>

fun specify ::
    "(py_datetime \<Rightarrow> int) \<Rightarrow> (nat \<Rightarrow> bool) \<Rightarrow> (pyval \<Rightarrow> pyval \<Rightarrow> pyval py) \<Rightarrow> nat list list \<Rightarrow> command \<Rightarrow> store \<Rightarrow> (reply py \<times> store) option" where
  "specify tz alloc fadd F (Insert_one new_id d) st = map_option (reply_of (\<lambda>_. Done)) (spec_insert tz alloc F (with_id new_id d) st)"
| "specify tz alloc fadd F (Insert_many ordered ds) st = map_option (reply_of (\<lambda>_. Done))
     (if ordered then spec_insert_ordered tz alloc F ds st else spec_insert_unordered tz alloc F None ds st)"
| "specify tz alloc fadd F (Find filt) st = map_option (reply_of (\<lambda>ms. Documents (map snd ms))) (spec_select F filt st)"
| "specify tz alloc fadd F (Find_one filt) st =
     map_option (reply_of (\<lambda>ms. Document (map_option snd (first_of ms)))) (spec_select F filt st)"
| "specify tz alloc fadd F (Find_one_and_delete filt) st = map_option (reply_of Document) (spec_find_delete F filt st)"
| "specify tz alloc fadd F (Delete_one filt) st =
     map_option (reply_of (\<lambda>m. Number (if m = None then 0 else 1))) (spec_find_delete F filt st)"
| "specify tz alloc fadd F (Delete_many filt) st = map_option (reply_of Number) (spec_delete_many F filt st)"
| "specify tz alloc fadd F (Find_one_and_update filt u post) st = map_option (reply_of Document)
     (spec_find_update tz alloc F (validate_update_document u) (\<lambda>old. apply_update_operators fadd old u) filt post st)"
| "specify tz alloc fadd F (Update_one new_id filt u ups) st = map_option (reply_of Update)
     (spec_update_one tz alloc F (validate_update_document u) (\<lambda>old. apply_update_operators fadd old u) new_id
        (if ups then Some (build_upsert_document fadd filt u) else None) filt st)"
| "specify tz alloc fadd F (Update_many new_id filt u ups) st = (if \<not> unshared_update u then None else map_option (reply_of Update)
     (spec_update_many tz alloc F (validate_update_document u) (\<lambda>old. apply_update_operators fadd old u) new_id
        (if ups then Some (build_upsert_document fadd filt u) else None) filt st))"
| "specify tz alloc fadd F (Find_one_and_replace filt d post) st = map_option (reply_of Document)
     (spec_find_update tz alloc F (reject_update_operators d) (replacement_with_preserved_id d) filt post st)"
| "specify tz alloc fadd F (Replace_one new_id filt d ups) st = map_option (reply_of Update)
     (spec_update_one tz alloc F (reject_update_operators d) (replacement_with_preserved_id d) new_id
        (if ups then Some (py_bind (seed_from_filter filt) (\<lambda>seeded. PyOk (dict_update seeded d))) else None) filt st)"
| "specify tz alloc fadd F (Count_documents filt) st = map_option (reply_of (\<lambda>ms. Number (length ms))) (spec_select F filt st)"
| "specify tz alloc fadd F (Distinct key filt) st = map_option (reply_of (\<lambda>ms.
     Documents (foldl add_distinct [] (concat (map (\<lambda>(offset, doc). distinct_candidates doc (split_dots key)) ms))))) (spec_select F filt st)"

text \<open>A sequence of calls.\<close>

fun execute_all ::
    "os_calls \<Rightarrow> (py_datetime \<Rightarrow> int) \<Rightarrow> (nat \<Rightarrow> bool) \<Rightarrow> nat \<Rightarrow> (pyval \<Rightarrow> pyval \<Rightarrow> pyval py) \<Rightarrow> command list \<Rightarrow> coll \<Rightarrow>
       reply py list \<times> coll" where
  "execute_all os tz alloc fuel fadd [] c = ([], c)"
| "execute_all os tz alloc fuel fadd (cmd # cmds) c = (case execute os tz alloc fuel fadd cmd c of
     (r, c') \<Rightarrow> (case execute_all os tz alloc fuel fadd cmds c' of (rs, c'') \<Rightarrow> (r # rs, c'')))"

fun specify_all ::
    "(py_datetime \<Rightarrow> int) \<Rightarrow> (nat \<Rightarrow> bool) \<Rightarrow> (pyval \<Rightarrow> pyval \<Rightarrow> pyval py) \<Rightarrow> nat list list \<Rightarrow> command list \<Rightarrow> store \<Rightarrow>
       (reply py list \<times> store) option" where
  "specify_all tz alloc fadd F [] st = Some ([], st)"
| "specify_all tz alloc fadd F (cmd # cmds) st = (case specify tz alloc fadd F cmd st of
     None \<Rightarrow> None
   | Some (r, st') \<Rightarrow> (case specify_all tz alloc fadd F cmds st' of None \<Rightarrow> None | Some (rs, st'') \<Rightarrow> Some (r # rs, st'')))"

end
