(* ===== verification/Query_Properties.thy ===== *)
theory Query_Properties
  imports Query_Update
begin

text \<open>
  Filters and update operators: the theorems on python/bsondb/query.py, each with an application to a
  concrete document where it has hypotheses.
\<close>

section \<open>What the update operators do\<close>

definition apart :: "nat list list \<Rightarrow> nat list list \<Rightarrow> bool" where
  "apart p q \<longleftrightarrow> \<not> prefix p q \<and> \<not> prefix q p"

text \<open>The value at a path of a document.\<close>

abbreviation value_at :: "doc \<Rightarrow> nat list list \<Rightarrow> pyval option" where
  "value_at d ts \<equiv> direct_value (PyDict d) ts"

definition arg_paths :: "doc \<Rightarrow> nat list list list" where
  "arg_paths items = concat (map (\<lambda>(k, v). case k of PyStr p \<Rightarrow> [split_dots p] | _ \<Rightarrow> []) items)"

lemma arg_paths_simps [simp]: "arg_paths [] = []"
  "arg_paths ((PyStr p, v) # items) = split_dots p # arg_paths items"
  "arg_paths (xs @ ys) = arg_paths xs @ arg_paths ys"
  by (simp_all add: arg_paths_def)

lemma update_paths_args:
  "update_paths ops = arg_paths (operator_arg ''$set'' ops) @ arg_paths (operator_arg ''$unset'' ops) @ arg_paths (operator_arg ''$inc'' ops)"
  by (simp add: update_paths_def arg_paths_def)

lemma split_dots_ne [simp]: "split_dots p \<noteq> []"
  using split_dots_Cons [of p] by auto

lemma set_path_value: "value_at (set_path d p v) (split_dots p) = Some v"
  "apart (split_dots p) ts \<Longrightarrow> value_at (set_path d p v) ts = value_at d ts"
  unfolding set_path_def apart_def by (simp_all add: set_segments_same set_segments_other)

lemma unset_path_value: "value_at (unset_path d p) (split_dots p) = None"
  "apart (split_dots p) ts \<Longrightarrow> value_at (unset_path d p) ts = value_at d ts"
  unfolding unset_path_def apart_def by (simp_all add: unset_segments_same unset_segments_other)

lemma apply_set_append:
  "apply_set i (xs @ ys) d = PyOk d' \<Longrightarrow> \<exists>j d0. apply_set j ys d0 = PyOk d'"
proof (induction i xs d rule: apply_set.induct)
  case (2 i path v sets d)
  then obtain p where p: "path = PyStr p" by (cases path) simp_all
  then show ?case using "2.IH" [OF p] "2.prems" by (auto simp: Let_def split: if_splits)
qed auto

lemma apply_unset_append: "apply_unset (xs @ ys) d = py_bind (apply_unset xs d) (\<lambda>d. apply_unset ys d)"
  by (induction xs d rule: apply_unset.induct) (auto split: pyval.splits)

lemma apply_set_apart:
  "apply_set i sets d = PyOk d' \<Longrightarrow> \<forall>q \<in> set (arg_paths sets). apart q ts \<Longrightarrow> value_at d' ts = value_at d ts"
proof (induction i sets d rule: apply_set.induct)
  case (2 i path v sets d)
  then obtain p where p: "path = PyStr p" by (cases path) simp_all
  then show ?case using "2.IH" [OF p] "2.prems" set_path_value(2) [of p ts d v] by (auto simp: Let_def split: if_splits)
qed simp

lemma apply_unset_apart:
  "apply_unset unsets d = PyOk d' \<Longrightarrow> \<forall>q \<in> set (arg_paths unsets). apart q ts \<Longrightarrow> value_at d' ts = value_at d ts"
proof (induction unsets d rule: apply_unset.induct)
  case (2 path v unsets d)
  then obtain p where p: "path = PyStr p" by (cases path) simp_all
  then show ?case using "2.IH" [OF p] "2.prems" unset_path_value(2) [of p ts d] by (auto split: if_splits)
qed simp

text \<open>One step of \<^verbatim>\<open>$inc\<close>: a missing value counts as 0.\<close>

definition inc_base :: "pyval option \<Rightarrow> pyval" where
  "inc_base m = (case m of None \<Rightarrow> PyInt 0 | Some x \<Rightarrow> x)"

lemma apply_inc_Cons:
  assumes "apply_inc fadd ((path, delta) # incs) d = PyOk d'"
  obtains p sum where "path = PyStr p" "py_add fadd (inc_base (value_at d (split_dots p))) delta = PyOk sum"
    "apply_inc fadd incs (set_path d p sum) = PyOk d'"
proof (cases path)
  case (PyStr p)
  show thesis
    by (rule that [of p "case py_add fadd (inc_base (value_at d (split_dots p))) delta of PyOk s \<Rightarrow> s | _ \<Rightarrow> PyNone"])
      (use assms PyStr in \<open>auto simp: inc_base_def Let_def py_bind_PyOk split: if_splits\<close>)
qed (use assms in \<open>auto split: if_splits\<close>)

lemma apply_inc_apart:
  "apply_inc fadd incs d = PyOk d' \<Longrightarrow> \<forall>q \<in> set (arg_paths incs). apart q ts \<Longrightarrow> value_at d' ts = value_at d ts"
proof (induction incs arbitrary: d)
  case (Cons x incs)
  obtain path delta where x: "x = (path, delta)" by fastforce
  obtain p sum where p: "path = PyStr p" "apply_inc fadd incs (set_path d p sum) = PyOk d'"
    using apply_inc_Cons [OF Cons.prems(1) [unfolded x]] by metis
  then show ?case using Cons.IH [OF p(2)] Cons.prems(2) x set_path_value(2) [of p ts d sum] by simp
qed simp

text \<open>A path that every other path of the update leaves alone.\<close>

definition alone :: "nat list list list \<Rightarrow> nat list list \<Rightarrow> bool" where
  "alone qs ts \<longleftrightarrow> count_list qs ts = 1 \<and> (\<forall>q \<in> set qs. q = ts \<or> apart q ts)"

lemma alone_split:
  assumes "alone (as @ ts # bs) ts"
  shows "\<forall>q \<in> set as. apart q ts" "\<forall>q \<in> set bs. apart q ts"
proof -
  have "count_list as ts = 0" "count_list bs ts = 0" using assms by (simp_all add: alone_def)
  then show "\<forall>q \<in> set as. apart q ts" "\<forall>q \<in> set bs. apart q ts"
    using assms by (auto simp: alone_def count_list_0_iff)
qed

lemma apply_steps:
  assumes "apply_update_operators fadd d (PyDict ops) = PyOk d'"
  obtains d1 d2 where "apply_set (map_of d (PyStr id_path)) (operator_arg ''$set'' ops) d = PyOk d1"
    "apply_unset (operator_arg ''$unset'' ops) d1 = PyOk d2" "apply_inc fadd (operator_arg ''$inc'' ops) d2 = PyOk d'"
  using assms by (auto simp: apply_update_operators_def py_bind_PyOk)

lemma apply_inc_append: "apply_inc fadd (xs @ ys) d = py_bind (apply_inc fadd xs d) (\<lambda>d. apply_inc fadd ys d)"
proof (induction xs arbitrary: d)
  case (Cons x xs)
  obtain path delta where x: "x = (path, delta)" by fastforce
  show ?case
  proof (cases path)
    case (PyStr p)
    then show ?thesis using Cons x by (cases "py_add fadd (inc_base (value_at d (split_dots p))) delta")
        (auto simp: Let_def inc_base_def)
  qed (simp_all add: x)
qed simp

text \<open>
  C15. The update operators: a path of \<^verbatim>\<open>$set\<close> then leads to its value, a path of \<^verbatim>\<open>$unset\<close> to nothing, and a
  path of \<^verbatim>\<open>$inc\<close> to the sum of what it led to (0, if nothing) and the increment, as long as no other path
  of the update is a prefix of it or starts with it; and all paths that are apart from those of the
  update lead to what they led to before.
\<close>

theorem update_operators_exact:
  assumes "apply_update_operators fadd d (PyDict ops) = PyOk d'"
  shows "(\<forall>p v. (PyStr p, v) \<in> set (operator_arg ''$set'' ops) \<longrightarrow> alone (update_paths ops) (split_dots p) \<longrightarrow>
      value_at d' (split_dots p) = Some v) \<and>
    (\<forall>p v. (PyStr p, v) \<in> set (operator_arg ''$unset'' ops) \<longrightarrow> alone (update_paths ops) (split_dots p) \<longrightarrow>
      value_at d' (split_dots p) = None) \<and>
    (\<forall>p v. (PyStr p, v) \<in> set (operator_arg ''$inc'' ops) \<longrightarrow> alone (update_paths ops) (split_dots p) \<longrightarrow>
      (\<exists>sum. py_add fadd (inc_base (value_at d (split_dots p))) v = PyOk sum \<and> value_at d' (split_dots p) = Some sum)) \<and>
    (\<forall>ts. (\<forall>q \<in> set (update_paths ops). apart q ts) \<longrightarrow> value_at d' ts = value_at d ts)"
proof (intro conjI allI impI)
  let ?S = "operator_arg ''$set'' ops" and ?U = "operator_arg ''$unset'' ops" and ?I = "operator_arg ''$inc'' ops"
  obtain d1 d2 where d: "apply_set (map_of d (PyStr id_path)) ?S d = PyOk d1" "apply_unset ?U d1 = PyOk d2"
    "apply_inc fadd ?I d2 = PyOk d'" by (rule apply_steps [OF assms])
  {
    fix p v assume "(PyStr p, v) \<in> set ?S" and al: "alone (update_paths ops) (split_dots p)"
    then obtain A B where S: "?S = A @ (PyStr p, v) # B" by (meson split_list)
    have "alone (arg_paths A @ split_dots p # (arg_paths B @ arg_paths ?U @ arg_paths ?I)) (split_dots p)"
      using al S by (simp add: update_paths_args)
    from alone_split(2) [OF this] have ap: "\<forall>q \<in> set (arg_paths B). apart q (split_dots p)"
      "\<forall>q \<in> set (arg_paths ?U). apart q (split_dots p)" "\<forall>q \<in> set (arg_paths ?I). apart q (split_dots p)" by auto
    obtain i d0 where d0: "apply_set i B (set_path d0 p v) = PyOk d1"
      using apply_set_append [OF d(1) [unfolded S]] by (auto simp: Let_def split: if_splits)
    show "value_at d' (split_dots p) = Some v"
      using apply_set_apart [OF d0 ap(1)] apply_unset_apart [OF d(2) ap(2)] apply_inc_apart [OF d(3) ap(3)]
      by (simp add: set_path_value(1))
  next
    fix p v assume "(PyStr p, v) \<in> set ?U" and al: "alone (update_paths ops) (split_dots p)"
    then obtain A B where U: "?U = A @ (PyStr p, v) # B" by (meson split_list)
    have "alone ((arg_paths ?S @ arg_paths A) @ split_dots p # (arg_paths B @ arg_paths ?I)) (split_dots p)"
      using al U by (simp add: update_paths_args)
    from alone_split(2) [OF this] have ap: "\<forall>q \<in> set (arg_paths B). apart q (split_dots p)"
      "\<forall>q \<in> set (arg_paths ?I). apart q (split_dots p)" by auto
    obtain d0 where d0: "apply_unset B (unset_path d0 p) = PyOk d2"
      using d(2) unfolding U apply_unset_append by (auto simp: py_bind_PyOk split: if_splits)
    show "value_at d' (split_dots p) = None"
      using apply_unset_apart [OF d0 ap(1)] apply_inc_apart [OF d(3) ap(2)] by (simp add: unset_path_value(1))
  next
    fix p v assume "(PyStr p, v) \<in> set ?I" and al: "alone (update_paths ops) (split_dots p)"
    then obtain A B where I: "?I = A @ (PyStr p, v) # B" by (meson split_list)
    have "alone ((arg_paths ?S @ arg_paths ?U @ arg_paths A) @ split_dots p # arg_paths B) (split_dots p)"
      using al I by (simp add: update_paths_args)
    from alone_split [OF this] have ap: "\<forall>q \<in> set (arg_paths ?S). apart q (split_dots p)"
      "\<forall>q \<in> set (arg_paths ?U). apart q (split_dots p)" "\<forall>q \<in> set (arg_paths A). apart q (split_dots p)"
      "\<forall>q \<in> set (arg_paths B). apart q (split_dots p)" by auto
    obtain d0 where d0: "apply_inc fadd A d2 = PyOk d0" "apply_inc fadd ((PyStr p, v) # B) d0 = PyOk d'"
      using d(3) unfolding I apply_inc_append by (auto simp: py_bind_PyOk)
    obtain sum where s: "py_add fadd (inc_base (value_at d0 (split_dots p))) v = PyOk sum"
      "apply_inc fadd B (set_path d0 p sum) = PyOk d'" using apply_inc_Cons [OF d0(2)] by (metis pyval.inject(4))
    have "value_at d0 (split_dots p) = value_at d (split_dots p)"
      using apply_set_apart [OF d(1) ap(1)] apply_unset_apart [OF d(2) ap(2)] apply_inc_apart [OF d0(1) ap(3)] by simp
    then show "\<exists>sum. py_add fadd (inc_base (value_at d (split_dots p))) v = PyOk sum \<and> value_at d' (split_dots p) = Some sum"
      using s(1) apply_inc_apart [OF s(2) ap(4)] set_path_value(1) by (intro exI [of _ sum]) simp
  next
    fix ts assume "\<forall>q \<in> set (update_paths ops). apart q ts"
    then have ap: "\<forall>q \<in> set (arg_paths ?S). apart q ts" "\<forall>q \<in> set (arg_paths ?U). apart q ts" "\<forall>q \<in> set (arg_paths ?I). apart q ts"
      by (simp_all add: update_paths_args)
    show "value_at d' ts = value_at d ts"
      using apply_set_apart [OF d(1) ap(1)] apply_unset_apart [OF d(2) ap(2)] apply_inc_apart [OF d(3) ap(3)] by simp
  }
qed
text \<open>The document \<^verbatim>\<open>{"n": 5, "k": {"b": 1}}\<close>, and an update of it.\<close>

definition sample_doc :: doc where
  "sample_doc = [(PyStr (str ''n''), PyInt 5), (PyStr (str ''k''), PyDict [(PyStr (str ''b''), PyInt 1)])]"

definition sample_update :: doc where
  "sample_update = [(PyStr (str ''$inc''), PyDict [(PyStr (str ''n''), PyInt 2)]),
     (PyStr (str ''$set''), PyDict [(PyStr (str ''k.c''), PyBool True)])]"

definition no_fadd :: "pyval \<Rightarrow> pyval \<Rightarrow> pyval py" where
  "no_fadd x y = PyRaise TypeError"

lemma sample_update: "apply_update_operators no_fadd sample_doc (PyDict sample_update) =
    PyOk [(PyStr (str ''n''), PyInt 7), (PyStr (str ''k''), PyDict [(PyStr (str ''b''), PyInt 1), (PyStr (str ''c''), PyBool True)])]"
  by (simp add: apply_update_operators_def sample_update_def sample_doc_def validate_update_document_def operator_arg_def id_path_def)
    (simp add: set_path_def str_def)

theorem update_operators_exact_witness:
  "\<exists>d'. apply_update_operators no_fadd sample_doc (PyDict sample_update) = PyOk d' \<and>
    value_at d' [str ''n''] = Some (PyInt 7) \<and> value_at d' [str ''k'', str ''c''] = Some (PyBool True) \<and>
    value_at d' [str ''k'', str ''b''] = Some (PyInt 1)"
proof -
  have paths: "split_dots (str ''n'') = [str ''n'']" "split_dots (str ''k.c'') = [str ''k'', str ''c'']"
    by (simp_all add: str_def)
  have args: "operator_arg ''$set'' sample_update = [(PyStr (str ''k.c''), PyBool True)]" "operator_arg ''$unset'' sample_update = []"
    "operator_arg ''$inc'' sample_update = [(PyStr (str ''n''), PyInt 2)]"
    by (simp_all add: operator_arg_def sample_update_def)
  have up: "update_paths sample_update = [[str ''k'', str ''c''], [str ''n'']]" by (simp add: update_paths_args args paths)
  note exact = update_operators_exact [OF sample_update, unfolded args up, simplified, unfolded paths]
  have "alone [[str ''k'', str ''c''], [str ''n'']] [str ''k'', str ''c'']" "alone [[str ''k'', str ''c''], [str ''n'']] [str ''n'']"
    "apart [str ''k'', str ''c''] [str ''k'', str ''b'']" "apart [str ''n''] [str ''k'', str ''b'']"
    by (simp_all add: alone_def apart_def)
  note facts = this
  show ?thesis
    by (rule exI, rule conjI [OF sample_update]) (use exact facts in \<open>simp_all add: sample_doc_def inc_base_def\<close>)
qed

text \<open>
  C36. An update keeps \<^verbatim>\<open>_id\<close>: when no path of it leads below \<^verbatim>\<open>_id\<close>, a document that had an \<^verbatim>\<open>_id\<close> has the same
  one or an equal one afterwards.
\<close>

theorem update_keeps_id:
  assumes "apply_update_operators fadd d (PyDict ops) = PyOk d'"
    and "\<forall>op \<in> {''$set'', ''$unset'', ''$inc''}. id_safe (operator_arg op ops)"
  shows "same_id (map_of d (PyStr id_path)) (map_of d' (PyStr id_path))"
proof -
  obtain d1 d2 where d: "apply_set (map_of d (PyStr id_path)) (operator_arg ''$set'' ops) d = PyOk d1"
    "apply_unset (operator_arg ''$unset'' ops) d1 = PyOk d2" "apply_inc fadd (operator_arg ''$inc'' ops) d2 = PyOk d'"
    by (rule apply_steps [OF assms(1)])
  have "same_id (map_of d (PyStr id_path)) (map_of d (PyStr id_path))" by (auto simp: same_id_def split: option.split)
  then have "same_id (map_of d (PyStr id_path)) (map_of d1 (PyStr id_path))" using apply_set_id [OF d(1)] assms(2) by simp
  then show ?thesis using apply_unset_id [OF d(2)] apply_inc_id [OF d(3)] assms(2) by simp
qed

theorem update_keeps_id_witness:
  "\<exists>d'. apply_update_operators no_fadd [(PyStr id_path, PyInt 1)] (PyDict [(PyStr (str ''$set''), PyDict [(PyStr (str ''a''), PyInt 5)])]) = PyOk d' \<and>
    same_id (Some (PyInt 1)) (map_of d' (PyStr id_path))"
proof -
  have a: "split_dots (str ''a'') = [str ''a'']" by (simp add: str_def)
  have u: "apply_update_operators no_fadd [(PyStr id_path, PyInt 1)] (PyDict [(PyStr (str ''$set''), PyDict [(PyStr (str ''a''), PyInt 5)])]) =
      PyOk [(PyStr id_path, PyInt 1), (PyStr (str ''a''), PyInt 5)]"
    by (simp add: apply_update_operators_def validate_update_document_def operator_arg_def set_path_def a id_path_def)
  show ?thesis using update_keeps_id [OF u] u by (simp add: operator_arg_def id_safe_def a id_path_def)
qed

lemma split_plain: "46 \<notin> set s \<Longrightarrow> split_dots s = [s]"
  by (induction s) auto

definition below_id :: "nat list \<Rightarrow> nat list" where
  "below_id s = id_path @ 46 # s"

lemma split_below_id: "46 \<notin> set s \<Longrightarrow> split_dots (below_id s) = [id_path, s]"
  by (simp add: below_id_def id_path_def str_def split_plain)

text \<open>
  A path below \<^verbatim>\<open>_id\<close> gets around the check: \<^verbatim>\<open>$set\<close> of \<^verbatim>\<open>_id.s\<close> replaces any \<^verbatim>\<open>_id\<close> that is not a dict (an
  object id, say) by a dict, without an exception.
\<close>

theorem id_overwritten:
  assumes "map_of d (PyStr id_path) = Some i" "\<forall>items. i \<noteq> PyDict items" "46 \<notin> set s"
  shows "\<exists>d'. apply_update_operators fadd d (PyDict [(PyStr (str ''$set''), PyDict [(PyStr (below_id s), v)])]) = PyOk d' \<and>
    map_of d' (PyStr id_path) = Some (PyDict [(PyStr s, v)])"
proof -
  have n: "below_id s \<noteq> id_path" by (simp add: below_id_def)
  have "map_of (set_path d (below_id s) v) (PyStr id_path) = Some (PyDict [(PyStr s, v)])"
    unfolding set_path_def split_below_id [OF assms(3)] using assms(1,2) by (cases i) simp_all
  then show ?thesis using n by (simp add: apply_update_operators_def validate_update_document_def operator_arg_def)
qed

theorem id_overwritten_witness:
  "\<exists>d'. apply_update_operators no_fadd [(PyStr id_path, PyObjectId (Some (PyBytes (replicate 12 0))))]
      (PyDict [(PyStr (str ''$set''), PyDict [(PyStr (below_id (str ''x'')), PyInt 1)])]) = PyOk d' \<and>
    map_of d' (PyStr id_path) = Some (PyDict [(PyStr (str ''x''), PyInt 1)])"
  by (rule id_overwritten [where i = "PyObjectId (Some (PyBytes (replicate 12 0)))"]) (simp_all add: str_def)

definition dotted :: "nat list \<Rightarrow> nat list \<Rightarrow> nat list" where
  "dotted f s = f @ 46 # s"

lemma split_dotted: "46 \<notin> set f \<Longrightarrow> split_dots (dotted f s) = f # split_dots s"
  by (induction f) (auto simp: dotted_def)

lemma concat_items:
  "\<forall>x \<in> set xs. \<forall>ys. x \<noteq> PyList ys \<Longrightarrow> py_concat (map (\<lambda>x. resolve_path x []) xs) = PyOk xs"
proof (induction xs)
  case (Cons x xs)
  then have "resolve_path x [] = PyOk [x]" by (cases x) simp_all
  then show ?case using Cons by simp
qed simp

text \<open>
  For a list on the way, a segment of a path is not looked up in its items, but dropped: a filter
  \<^verbatim>\<open>{"f.s": v}\<close> compares the items of the list at \<^verbatim>\<open>f\<close> themselves with \<open>v\<close>, whatever \<^verbatim>\<open>s\<close> is, unless it is a number.
\<close>

theorem broadcast_drops_segment:
  assumes "46 \<notin> set f" "46 \<notin> set s" "\<not> starts_with_dollar f" "f \<noteq> []" "segment_index s = PyOk None"
    and "map_of d (PyStr f) = Some (PyList xs)" "\<forall>x \<in> set xs. \<forall>ys. x \<noteq> PyList ys" and "v \<noteq> PyNone" "\<forall>ops. v \<noteq> PyDict ops"
  shows "matches (PyDict d) (PyDict [(PyStr (dotted f s), v)]) = PyOk (\<exists>x \<in> set xs. values_equal x v)"
proof -
  have nd: "\<not> starts_with_dollar (dotted f s)" using assms(3,4) by (cases f) (simp_all add: starts_with_dollar_def dotted_def)
  then have op: "dotted f s \<noteq> str ''$and''" "dotted f s \<noteq> str ''$or''" by (auto simp: starts_with_dollar_def str_def)
  have "resolve_path (PyDict d) (split_dots (dotted f s)) = PyOk xs"
    unfolding split_dotted [OF assms(1)] split_plain [OF assms(2)]
    using assms(6) resolve_broadcast [OF assms(5), of xs "[]"] concat_items [OF assms(7)] by simp
  moreover have "field_matches xs v = PyOk (matches_eq xs v)" using assms(9) by (cases v) (simp_all add: field_matches.simps)
  ultimately show ?thesis using nd op assms(8) by (simp add: matches.simps matches_eq_def)
qed

text \<open>\<^verbatim>\<open>{"tags.name": "x"}\<close> does not match \<^verbatim>\<open>{"tags": [{"name": "x"}]}\<close>, but it matches \<^verbatim>\<open>{"tags": ["x"]}\<close>.\<close>

theorem broadcast_drops_segment_witness:
  "matches (PyDict [(PyStr (str ''tags''), PyList [PyDict [(PyStr (str ''name''), PyStr (str ''x''))]])])
      (PyDict [(PyStr (dotted (str ''tags'') (str ''name'')), PyStr (str ''x''))]) = PyOk False \<and>
    matches (PyDict [(PyStr (str ''tags''), PyList [PyStr (str ''x'')])])
      (PyDict [(PyStr (dotted (str ''tags'') (str ''name'')), PyStr (str ''x''))]) = PyOk True"
proof -
  have s: "46 \<notin> set (str ''tags'')" "46 \<notin> set (str ''name'')" "\<not> starts_with_dollar (str ''tags'')" "str ''tags'' \<noteq> []"
    "segment_index (str ''name'') = PyOk None"
    by (simp_all add: str_def starts_with_dollar_def segment_index_def ascii_digit)
  show ?thesis
    using broadcast_drops_segment [OF s, where v = "PyStr (str ''x'')"]
    by (simp add: values_equal_def py_eq.simps)
qed

text \<open>
  The trial run of a filter on the empty document does not find all malformed filters: a clause that
  fails there ends the evaluation, and what comes after it raises only for a document that passes it.
\<close>

theorem trial_run_incomplete:
  assumes f: "\<not> starts_with_dollar f" "list_free (PyDict d) (split_dots f)" and v: "v \<noteq> PyNone" "\<forall>ops. v \<noteq> PyDict ops"
    and bad: "starts_with_dollar op" "op \<notin> {str ''$and'', str ''$or''}"
  shows "matches (PyDict []) (PyDict [(PyStr f, v), (PyStr op, w)]) = PyOk False \<and>
    (eq_holds (PyDict d) f v \<longrightarrow> matches (PyDict d) (PyDict [(PyStr f, v), (PyStr op, w)]) = PyRaise InvalidDocument)"
proof -
  have op: "PyStr f \<noteq> PyStr (str ''$and'')" "PyStr f \<noteq> PyStr (str ''$or'')"
    using f(1) by (auto simp: starts_with_dollar_def str_def)
  have e: "list_free (PyDict []) (split_dots f)" by (cases "split_dots f") simp_all
  have c: "matches x (PyDict ((PyStr f, v) # rest)) =
      py_bind (matches x (PyDict [(PyStr f, v)])) (\<lambda>ok. if ok then matches x (PyDict rest) else PyOk False)" for x rest
    using op f(1) by (cases "py_bind (resolve_path x (split_dots f)) (\<lambda>candidates. field_matches candidates v)")
      (simp_all add: matches.simps)
  have r: "matches x (PyDict [(PyStr op, w)]) = PyRaise InvalidDocument" for x using bad by (simp add: matches.simps)
  have "direct_value (PyDict []) (split_dots f) = None" using split_dots_Cons [of f] by auto
  then have "\<not> eq_holds (PyDict []) f v" using v(1) by (simp add: eq_holds_def)
  then show ?thesis by (simp add: c [of _ "[(PyStr op, w)]"] r matches_literal [OF f(1) e v(2)] matches_literal [OF f v(2)])
qed

text \<open>\<^verbatim>\<open>{"a": 1, "$nor": []}\<close> passes the trial run, and raises for \<^verbatim>\<open>{"a": 1}\<close>.\<close>

theorem trial_run_incomplete_witness:
  "matches (PyDict []) (PyDict [(PyStr (str ''a''), PyInt 1), (PyStr (str ''$nor''), PyList [])]) = PyOk False \<and>
    matches (PyDict [(PyStr (str ''a''), PyInt 1)]) (PyDict [(PyStr (str ''a''), PyInt 1), (PyStr (str ''$nor''), PyList [])]) =
      PyRaise InvalidDocument"
proof -
  have a: "split_dots (str ''a'') = [str ''a'']" "\<not> starts_with_dollar (str ''a'')" "starts_with_dollar (str ''$nor'')"
    by (simp_all add: str_def starts_with_dollar_def)
  have "values_equal (PyInt 1) (PyInt 1)" by (simp add: values_equal_def py_eq.simps)
  then show ?thesis
    using trial_run_incomplete [OF a(2) _ _ _ a(3), of "[(PyStr (str ''a''), PyInt 1)]" "PyInt 1" "PyList []"]
    by (simp add: a(1) eq_holds_def)
qed
section \<open>Filters that always evaluate\<close>

text \<open>
  A well-formed filter: all keys are strings, the operators are those of the module, lists are where the
  operators need them, and no segment of a path is one that Python takes for a number but cannot convert
  (\<open>segment_index\<close>): two dashes, digits that are not decimal, or more than 4300 digits.
\<close>

definition path_ok :: "nat list \<Rightarrow> bool" where
  "path_ok p \<longleftrightarrow> (\<forall>s \<in> set (split_dots p). segment_index s \<noteq> PyRaise ValueError)"

fun str_key :: "pyval \<Rightarrow> bool" where
  "str_key (PyStr _) = True"
| "str_key _ = False"

fun sequence :: "pyval \<Rightarrow> bool" where
  "sequence (PyList _) = True"
| "sequence (PyTuple _) = True"
| "sequence _ = False"

function condition_ok :: "pyval \<Rightarrow> bool"
  and operators_ok :: "(pyval \<times> pyval) list \<Rightarrow> bool" where
  "condition_ok v \<longleftrightarrow> (case v of
     PyDict ops \<Rightarrow> (\<forall>(k, w) \<in> set ops. str_key k) \<and>
       ((\<forall>(k, w) \<in> set ops. \<forall>s. k = PyStr s \<longrightarrow> starts_with_dollar s) \<longrightarrow> operators_ok ops)
   | _ \<Rightarrow> True)"
| "operators_ok [] \<longleftrightarrow> True"
| "operators_ok ((op, operand) # ops) \<longleftrightarrow> operators_ok ops \<and>
     (op \<in> {PyStr (str ''$eq''), PyStr (str ''$ne'')} \<or> comparison_op op \<noteq> None \<or>
      op \<in> {PyStr (str ''$in''), PyStr (str ''$nin'')} \<and> sequence operand \<or>
      op = PyStr (str ''$not'') \<and> condition_ok operand)"
  by pat_completeness auto
termination
  by (relation "measure (\<lambda>x. case x of
        Inl v \<Rightarrow> 2 * size v
      | Inr ops \<Rightarrow> 2 * size_list (size_prod size size) ops)") auto

declare condition_ok.simps [simp del]

function filter_ok :: "pyval \<Rightarrow> bool"
  and clauses_ok :: "(pyval \<times> pyval) list \<Rightarrow> bool"
  and filters_ok :: "pyval list \<Rightarrow> bool" where
  "filter_ok filt \<longleftrightarrow> (case filt of PyDict clauses \<Rightarrow> clauses_ok clauses | _ \<Rightarrow> False)"
| "clauses_ok [] \<longleftrightarrow> True"
| "clauses_ok ((key, condition) # clauses) \<longleftrightarrow> clauses_ok clauses \<and> (case key of
     PyStr p \<Rightarrow>
       if p \<in> {str ''$and'', str ''$or''} then (case condition of
         PyList subs \<Rightarrow> filters_ok subs | PyTuple subs \<Rightarrow> filters_ok subs | _ \<Rightarrow> False)
       else \<not> starts_with_dollar p \<and> path_ok p \<and> condition_ok condition
   | _ \<Rightarrow> False)"
| "filters_ok [] \<longleftrightarrow> True"
| "filters_ok (sub # subs) \<longleftrightarrow> filter_ok sub \<and> filters_ok subs"
  by pat_completeness auto
termination
  by (relation "measure (\<lambda>x. case x of
        Inl v \<Rightarrow> 2 * size v
      | Inr (Inl items) \<Rightarrow> 2 * size_list (size_prod size size) items
      | Inr (Inr xs) \<Rightarrow> 2 * size_list size xs)") auto

declare filter_ok.simps [simp del]

definition evaluates :: "'a py \<Rightarrow> bool" where
  "evaluates m \<longleftrightarrow> (\<exists>x. m = PyOk x)"

lemma evaluates_simps [simp]: "evaluates (PyOk x)" "\<not> evaluates (PyRaise e)"
  by (simp_all add: evaluates_def)

lemma evaluates_bind: "evaluates m \<Longrightarrow> (\<And>x. m = PyOk x \<Longrightarrow> evaluates (f x)) \<Longrightarrow> evaluates (py_bind m f)"
  by (auto simp: evaluates_def)

lemma concat_returns: "\<forall>m \<in> set ms. evaluates m \<Longrightarrow> evaluates (py_concat ms)"
  by (induction ms) (auto intro!: evaluates_bind)

lemma segment_returns: "segment_index s \<noteq> PyRaise ValueError \<Longrightarrow> evaluates (segment_index s)"
  by (auto simp: segment_index_def Let_def split: if_splits)

lemma resolve_returns: "\<forall>s \<in> set ss. segment_index s \<noteq> PyRaise ValueError \<Longrightarrow> evaluates (resolve_path v ss)"
proof (induction ss arbitrary: v)
  case (Cons s ss)
  have rest: "evaluates (resolve_path x ss)" for x using Cons by simp
  show ?case
  proof (cases v)
    case (PyDict items)
    then show ?thesis using rest by (simp split: option.split)
  next
    case (PyList xs)
    have "evaluates (py_concat (map (\<lambda>x. resolve_path x ss) xs))" by (rule concat_returns) (use rest in auto)
    then show ?thesis using PyList segment_returns [of s] Cons.prems rest
      by (auto intro!: evaluates_bind split: option.split)
  qed simp_all
qed simp

lemma all_dollar_returns: "\<forall>(k, w) \<in> set ops. str_key k \<Longrightarrow>
    all_dollar ops = PyOk (\<forall>(k, w) \<in> set ops. \<forall>s. k = PyStr s \<longrightarrow> starts_with_dollar s)"
proof (induction ops)
  case (Cons x ops)
  obtain k w where x: "x = (k, w)" by fastforce
  then obtain s where "k = PyStr s" using Cons.prems by (cases k) auto
  then show ?case using Cons x by simp
qed simp

lemma in_returns: "sequence operand \<Longrightarrow> evaluates (matches_in cs operand)"
  by (cases operand) (simp_all add: matches_in_def)

lemma condition_returns:
  "condition_ok v \<Longrightarrow> evaluates (field_matches cs v)"
  "operators_ok ops \<Longrightarrow> evaluates (match_operators cs ops)"
proof (induction v and ops rule: condition_ok_operators_ok.induct)
  case (1 v)
  show ?case
  proof (cases "\<exists>ops. v = PyDict ops")
    case True
    then obtain ops where v: "v = PyDict ops" by blast
    have k: "\<forall>(k, w) \<in> set ops. str_key k" using "1.prems" v by (simp add: condition_ok.simps)
    show ?thesis
    proof (cases "\<forall>(k, w) \<in> set ops. \<forall>s. k = PyStr s \<longrightarrow> starts_with_dollar s")
      case True
      then have "operators_ok ops" using "1.prems" v by (simp add: condition_ok.simps)
      then show ?thesis using "1.IH" [OF v] v True k all_dollar_returns [OF k] by (simp add: field_matches.simps)
    next
      case False
      have "all_dollar ops = PyOk False" unfolding all_dollar_returns [OF k] by (simp only: False)
      then show ?thesis using v by (simp add: field_matches.simps)
    qed
  next
    case False
    then show ?thesis by (cases v) (simp_all add: field_matches.simps)
  qed
next
  case (3 op operand ops)
  have "evaluates (if op = PyStr (str ''$eq'') then PyOk (matches_eq cs operand)
        else if op = PyStr (str ''$ne'') then PyOk (\<not> matches_eq cs operand)
        else if op = PyStr (str ''$in'') then matches_in cs operand
        else if op = PyStr (str ''$nin'') then py_bind (matches_in cs operand) (\<lambda>b. PyOk (\<not> b))
        else if op = PyStr (str ''$not'') then py_bind (field_matches cs operand) (\<lambda>b. PyOk (\<not> b))
        else case comparison_op op of
          Some cmp \<Rightarrow> PyOk (matches_compare cs operand cmp)
        | None \<Rightarrow> PyRaise InvalidDocument)"
    using "3.prems" "3.IH"(2) in_returns by (auto simp: comparison_op_def intro!: evaluates_bind)
  note first = this
  have rest: "evaluates (if ok then match_operators cs ops else PyOk False)" for ok using "3.IH"(1) "3.prems" by simp
  show ?case unfolding match_operators.simps(2) by (rule evaluates_bind [OF first rest])
qed simp_all

lemma filter_returns:
  "filter_ok filt \<Longrightarrow> evaluates (matches doc filt)"
  "clauses_ok clauses \<Longrightarrow> evaluates (match_clauses doc clauses)"
  "filters_ok subs \<Longrightarrow> evaluates (match_all doc subs) \<and> evaluates (match_any doc subs)"
proof (induction filt and clauses and subs rule: filter_ok_clauses_ok_filters_ok.induct)
  case (1 filt)
  then show ?case by (cases filt) (simp_all add: filter_ok.simps matches.simps)
next
  case (3 key condition clauses)
  then obtain p where p: "key = PyStr p" by (cases key) simp_all
  have "evaluates (py_bind (resolve_path doc (split_dots p)) (\<lambda>candidates. field_matches candidates condition))"
    if "path_ok p" "condition_ok condition"
    using that resolve_returns [of "split_dots p" doc] condition_returns(1) by (auto simp: path_ok_def intro!: evaluates_bind)
  moreover have "evaluates (match_clauses doc clauses)" using "3.IH"(1) "3.prems" by simp
  ultimately show ?case using "3.prems" "3.IH"(2,3) p
    by (cases condition) (auto intro!: evaluates_bind split: if_splits)
qed (auto intro!: evaluates_bind)

text \<open>C17. A well-formed filter evaluates to a boolean on every document, whatever its shape.\<close>

theorem well_formed_filter_evaluates:
  assumes "filter_ok filt"
  shows "\<exists>b. matches doc filt = PyOk b"
  using filter_returns(1) [OF assms, of doc] by (simp add: evaluates_def)

text \<open>\<^verbatim>\<open>{"$or": [{"a.0": {"$gt": 5}}, {"b": {"$not": {"$in": []}}}]}\<close>.\<close>

definition sample_query :: pyval where
  "sample_query = PyDict [(PyStr (str ''$or''), PyList [
     PyDict [(PyStr (str ''a.0''), PyDict [(PyStr (str ''$gt''), PyInt 5)])],
     PyDict [(PyStr (str ''b''), PyDict [(PyStr (str ''$not''), PyDict [(PyStr (str ''$in''), PyList [])])])]])]"

theorem well_formed_filter_evaluates_witness: "\<exists>b. matches (PyDict sample_doc) sample_query = PyOk b"
proof -
  have "path_ok (str ''a.0'')" "path_ok (str ''b'')" by (simp_all add: path_ok_def str_def segment_index_def ascii_digit)
  then have "filter_ok sample_query"
    by (simp add: sample_query_def filter_ok.simps condition_ok.simps comparison_op_def)
      (simp add: starts_with_dollar_def str_def)
  then show ?thesis by (rule well_formed_filter_evaluates)
qed

text \<open>
  What \<^verbatim>\<open>isdigit\<close> takes for a number and \<^verbatim>\<open>int\<close> refuses raises where there is a list: a number with two
  dashes, or a superscript 2.
\<close>

lemma two_dashes_raise:
  assumes "ds \<noteq> []" "\<forall>c \<in> set ds. 48 \<le> c \<and> c \<le> 57"
  shows "resolve_path (PyList xs) ((45 # 45 # ds) # rest) = PyRaise ValueError"
proof -
  have "dropWhile (\<lambda>c. c = 45) ds = ds" using assms by (cases ds) auto
  moreover have "\<forall>c \<in> set ds. is_digit c" using assms(2) by (auto simp: ascii_digit)
  ultimately show ?thesis using assms(1) by (simp add: segment_index_def)
qed

lemma superscript_raises: "resolve_path (PyList xs) ([178] # rest) = PyRaise ValueError"
proof -
  have "digit_value 178 = None" "is_digit 178" by (simp_all add: digit_value_def decimal_zeros_def is_digit_def other_digits_def)
  then show ?thesis by (simp add: segment_index_def)
qed

end
