(* ===== verification/Collection_Refine.thy ===== *)
theory Collection_Refine
  imports Collection_Spec Collection_Properties Query_Properties
begin

text \<open>
  The operations of a collection implement their specification in Collection_Spec: every call on a
  collection that holds a store gives the reply of the specification and holds the store that it gives.
  The code is put in the form of the specification first (\<open>c_bind\<close>), and then followed step by step.
\<close>

section \<open>The first match\<close>

lemma scan_first_of: "scan_docs p fuel prev h = PyOk ms \<Longrightarrow> scan_first p fuel prev h = PyOk (first_of ms)"
proof (induction fuel arbitrary: prev h ms)
  case (Suc fuel)
  show ?case
  proof (cases "CollectionHandle_next_live_offset prev h")
    case (Pair r h')
    show ?thesis
    proof (cases r)
      case (PyOk offset)
      show ?thesis
      proof (cases offset)
        case None
        then show ?thesis using Suc.prems Pair PyOk by (simp add: first_of_def)
      next
        case (Some off)
        show ?thesis
        proof (cases "CollectionHandle_read_record (int off) h'")
          case read: (Pair r' h'')
          show ?thesis
          proof (cases r')
            case rok: (PyOk o')
            show ?thesis
            proof (cases o')
              case none: None
              then show ?thesis using Suc.prems Suc.IH Pair PyOk Some read rok by simp
            next
              case raw: (Some raw)
              obtain doc b rest where "py_decode raw = PyOk doc" "p doc = PyOk b" "scan_docs p fuel (int off) h'' = PyOk rest"
                "ms = (if b then (off, doc) # rest else rest)"
                using Suc.prems Pair PyOk Some read rok raw by (auto simp: py_bind_PyOk)
              then show ?thesis using Suc.IH Pair PyOk Some read rok raw by (cases b) (simp_all add: first_of_def)
            qed
          qed (use Suc.prems Pair PyOk Some read in simp_all)
        qed
      qed
    qed (use Suc.prems Pair in simp_all)
  qed
qed simp

lemma read_first_of: "read_docs p offs h = PyOk ms \<Longrightarrow> read_first p offs h = PyOk (first_of ms)"
proof (induction offs arbitrary: h ms)
  case (Cons off offs)
  show ?case
  proof (cases "CollectionHandle_read_record (int off) h")
    case (Pair r h')
    show ?thesis
    proof (cases r)
      case ok: (PyOk o')
      show ?thesis
      proof (cases o')
        case None
        then show ?thesis using Cons Pair ok by simp
      next
        case (Some raw)
        obtain doc b rest where "py_decode raw = PyOk doc" "p doc = PyOk b" "read_docs p offs h' = PyOk rest"
          "ms = (if b then (off, doc) # rest else rest)"
          using Cons.prems Pair ok Some by (auto simp: py_bind_PyOk)
        then show ?thesis using Cons.IH Pair ok Some by (cases b) (simp_all add: first_of_def)
      qed
    qed (use Cons.prems Pair in simp_all)
  qed
qed (simp add: first_of_def)

lemma first_match_of: "iter_matches tz alloc fuel filt c = PyOk ms \<Longrightarrow> first_match tz alloc fuel filt c = PyOk (first_of ms)"
proof -
  assume "iter_matches tz alloc fuel filt c = PyOk ms"
  then obtain b indexed where b: "matches (PyDict []) (resolved_filter filt) = PyOk b"
    "index_lookup_for_filter tz alloc (resolved_filter filt) (co_indexes c) = PyOk indexed"
    "(case indexed of Some offsets \<Rightarrow> read_docs (\<lambda>doc. matches doc (resolved_filter filt)) offsets (co_data c)
      | None \<Rightarrow> scan_docs (\<lambda>doc. matches doc (resolved_filter filt)) fuel (-1) (co_data c)) = PyOk ms"
    by (auto simp: iter_matches_def Let_def py_bind_PyOk)
  then show "first_match tz alloc fuel filt c = PyOk (first_of ms)"
    by (cases indexed) (simp_all add: first_match_def Let_def scan_first_of read_first_of)
qed

text \<open>The collection holds the store.\<close>

definition tracks :: "(py_datetime \<Rightarrow> int) \<Rightarrow> nat list list \<Rightarrow> coll \<Rightarrow> store \<Rightarrow> bool" where
  "tracks tz F c st \<longleftrightarrow> coll_holds tz c (fst st) (snd st) \<and> paths (co_indexes c) = F"

text \<open>A call of the code does what the specification says, if it says something.\<close>

definition simulates :: "(py_datetime \<Rightarrow> int) \<Rightarrow> nat list list \<Rightarrow> 'a py \<times> coll \<Rightarrow> ('a py \<times> store) option \<Rightarrow> bool" where
  "simulates tz F m s \<longleftrightarrow> (case s of None \<Rightarrow> True | Some (r, st) \<Rightarrow> fst m = r \<and> tracks tz F (snd m) st)"

lemma sim_pure: "tracks tz F c st \<Longrightarrow> simulates tz F (r, c) (s_pure r st)"
  by (simp add: simulates_def s_pure_def)

text \<open>The code that goes on with the result of a call, and hands an exception on.\<close>

definition c_bind :: "'a py \<times> coll \<Rightarrow> ('a \<Rightarrow> coll \<Rightarrow> 'b py \<times> coll) \<Rightarrow> 'b py \<times> coll" where
  "c_bind m k = (case fst m of PyOk x \<Rightarrow> k x (snd m) | r \<Rightarrow> (py_raise r, snd m))"

lemma sim_bind:
  assumes "simulates tz F m s" "\<And>x c st. m = (PyOk x, c) \<Longrightarrow> tracks tz F c st \<Longrightarrow> simulates tz F (kc x c) (k x st)"
  shows "simulates tz F (c_bind m kc) (s_bind s k)"
proof (cases s)
  case (Some t)
  obtain r st where t: "t = (r, st)" by (cases t)
  obtain c where m: "m = (r, c)" "tracks tz F c st" using assms(1) Some t by (cases m) (simp add: simulates_def)
  show ?thesis
  proof (cases r)
    case (PyOk x)
    then show ?thesis using assms(2) [of x c st] m Some t by (simp add: c_bind_def s_bind_def)
  qed (use m Some t in \<open>simp_all add: c_bind_def s_bind_def simulates_def\<close>)
qed (simp add: s_bind_def simulates_def)

lemma sim_reply: "simulates tz F m s \<Longrightarrow> simulates tz F (reply_of f m) (map_option (reply_of f) s)"
  by (auto simp: simulates_def reply_of_def split: option.splits)

lemma sim_none [simp]: "simulates tz F m None"
  by (simp add: simulates_def)

section \<open>Steps of the code\<close>

lemma sim_insert:
  assumes "tracks tz F c st" "os_all_succeed os"
  shows "simulates tz F (insert_one os tz alloc new_id d c) (spec_insert tz alloc F (with_id new_id d) st)"
proof (cases "fits_in tz F (with_id new_id d) st")
  case True
  define items where "items = with_id new_id d"
  obtain L E where st: "st = (L, E)" by fastforce
  have c: "coll_holds tz c L E" "paths (co_indexes c) = F" using assms(1) st by (simp_all add: tracks_def)
  have f: "E < 2 ^ 37" "storable items" "\<forall>fp \<in> set (paths (co_indexes c)). indexable tz (PyDict items) fp"
    using True st c(2) by (simp_all add: fits_in_def small_def items_def)
  have wf: "wf_items items" using f(2) by (simp add: storable_def)
  show ?thesis
  proof (rule py_encode_cases [OF wf, of alloc])
    fix es assume raw: "py_encode alloc (PyDict items) = PyOk (enc_doc es)"
    show ?thesis using c(1) f(1,2) raw f(3)
    proof (cases rule: add_document_cases [where os = os])
      case (ok c' E')
      then show ?thesis using True raw st c(2)
        by (simp add: simulates_def spec_insert_def insert_one_def items_def Let_def tracks_def conflicts_def)
    next
      case (dup c' E')
      then show ?thesis using True raw st c(2)
        by (simp add: simulates_def spec_insert_def insert_one_def items_def Let_def tracks_def conflicts_def)
    next
      case (io c')
      then show ?thesis using assms(2) by simp
    qed
  next
    fix e assume "py_encode alloc (PyDict items) = PyRaise e"
    then show ?thesis using True assms(1) by (simp add: simulates_def spec_insert_def insert_one_def items_def Let_def)
  qed
qed (simp add: spec_insert_def)

lemma sim_update:
  assumes "tracks tz F c st" "os_all_succeed os"
  shows "simulates tz F (apply_single_update os tz alloc off old (PyDict items) c) (spec_update tz alloc F off old items st)"
proof (cases "fits_in tz F items st \<and> (off, old) \<in> set (fst st)")
  case True
  obtain L E where st: "st = (L, E)" by fastforce
  have c: "coll_holds tz c L E" "paths (co_indexes c) = F" using assms(1) st by (simp_all add: tracks_def)
  have f: "E < 2 ^ 37" "(off, old) \<in> set L" "storable items" "\<forall>fp \<in> set (paths (co_indexes c)). indexable tz (PyDict items) fp"
    using True st c(2) by (simp_all add: fits_in_def small_def)
  show ?thesis using c(1) f
  proof (cases rule: apply_update_cases [where os = os and alloc = alloc])
    case same
    then show ?thesis using True assms(1) st by (simp add: simulates_def spec_update_def)
  next
    case moved
    then show ?thesis using True st c(2) by (simp add: simulates_def spec_update_def Let_def tracks_def conflicts_def)
  next
    case dup
    then show ?thesis using True st c(2) by (simp add: simulates_def spec_update_def Let_def tracks_def conflicts_def)
  next
    case (bad e)
    then show ?thesis using True assms(1) st
      by (cases "py_encode alloc old") (simp_all add: simulates_def spec_update_def)
  next
    case (io c')
    then show ?thesis using assms(2) by simp
  qed
qed (simp add: spec_update_def)

lemma sim_select:
  assumes c: "tracks tz F c st" "\<forall>n. alloc n" "2 ^ 37 \<le> fuel"
    and k: "\<And>ms. small st \<Longrightarrow> ms = filter (\<lambda>d. matching filt (snd d)) (fst st) \<Longrightarrow> simulates tz F m (k ms st)"
    and m: "\<And>ms. iter_matches tz alloc fuel filt c = PyOk ms \<Longrightarrow> ms = filter (\<lambda>d. matching filt (snd d)) (fst st) \<Longrightarrow> m' = m"
  shows "simulates tz F m' (s_bind (spec_select F filt st) k)"
proof (cases "small st \<and> answerable filt (fst st) \<and> index_sound F (fst st) filt")
  case True
  have t: "coll_holds tz c (fst st) (snd st)" "paths (co_indexes c) = F" using c(1) by (simp_all add: tracks_def)
  have "iter_matches tz alloc fuel filt c = PyOk (filter (\<lambda>d. matching filt (snd d)) (fst st))"
    using iter_matches_cases [OF t(1) _ answers_matching [OF t(1)], of fuel filt alloc] c(2,3) t(2) True
    by (simp add: small_def)
  then show ?thesis using k m True by (simp add: spec_select_def s_bind_def)
next
  case False
  then show ?thesis by (auto simp: spec_select_def s_bind_def)
qed

lemma sim_matches:
  assumes "tracks tz F c st" "\<forall>n. alloc n" "2 ^ 37 \<le> fuel"
    and "\<And>ms. small st \<Longrightarrow> ms = filter (\<lambda>d. matching filt (snd d)) (fst st) \<Longrightarrow> simulates tz F (kc ms c) (k ms st)"
  shows "simulates tz F (c_bind (iter_matches tz alloc fuel filt c, c) kc) (s_bind (spec_select F filt st) k)"
  by (rule sim_select [OF assms(1-3), where m = "kc (filter (\<lambda>d. matching filt (snd d)) (fst st)) c"])
    (use assms(4) in \<open>simp_all add: c_bind_def\<close>)

lemma sim_first:
  assumes "tracks tz F c st" "\<forall>n. alloc n" "2 ^ 37 \<le> fuel"
    and "\<And>ms. small st \<Longrightarrow> ms = filter (\<lambda>d. matching filt (snd d)) (fst st) \<Longrightarrow> simulates tz F (kc (first_of ms) c) (k ms st)"
  shows "simulates tz F (c_bind (first_match tz alloc fuel filt c, c) kc) (s_bind (spec_select F filt st) k)"
  by (rule sim_select [OF assms(1-3), where m = "kc (first_of (filter (\<lambda>d. matching filt (snd d)) (fst st))) c"])
    (use assms(4) first_match_of in \<open>simp_all add: c_bind_def\<close>)

lemma sim_delete:
  assumes "tracks tz F c st" "small st" "set ts \<subseteq> set (fst st)" "distinct (map fst ts)"
  obtains c' where "delete_targets tz ts c = (PyOk (), c')" "tracks tz F c' (spec_remove ts st)"
proof -
  have "coll_holds tz c (fst st) (snd st)" "snd st < 2 ^ 37" using assms(1,2) by (simp_all add: tracks_def small_def)
  from delete_targets_holds [OF this assms(3,4)] assms(1) show thesis using that by (auto simp: tracks_def spec_remove_def)
qed

section \<open>Operations\<close>

lemma c_bind_ok [simp]: "c_bind (PyOk x, c) k = k x c"
  by (simp add: c_bind_def)

lemmas c_splits = prod.split py.split option.split list.split

lemma insert_ordered_form:
  "insert_many_ordered os tz alloc ((new_id, d) # ds) c =
     c_bind (insert_one os tz alloc new_id d c) (\<lambda>_. insert_many_ordered os tz alloc ds)"
  by (simp add: c_bind_def split: c_splits)

lemma find_delete_form:
  "find_one_and_delete tz alloc fuel filt c = c_bind (first_match tz alloc fuel filt c, c) (\<lambda>m c. case m of
     None \<Rightarrow> (PyOk None, c)
   | Some t \<Rightarrow> c_bind (delete_targets tz [t] c) (\<lambda>_ c. (PyOk (Some (snd t)), c)))"
  by (simp add: find_one_and_delete_def c_bind_def split: c_splits)

lemma delete_one_form:
  "delete_one tz alloc fuel filt c =
     c_bind (find_one_and_delete tz alloc fuel filt c) (\<lambda>m c. (PyOk (if m = None then 0 else 1), c))"
  by (simp add: delete_one_def c_bind_def split: c_splits)

lemma delete_many_form:
  "delete_many tz alloc fuel filt c = c_bind (iter_matches tz alloc fuel filt c, c) (\<lambda>ts c.
     c_bind (delete_targets tz ts c) (\<lambda>_ c. (PyOk (length ts), c)))"
  by (simp add: delete_many_def c_bind_def split: c_splits)

lemma update_match_form:
  "py_mapping old_doc = Some old \<Longrightarrow> update_match os tz alloc change off old_doc c =
     c_bind (change old, c) (\<lambda>new c. c_bind (apply_single_update os tz alloc off old_doc (PyDict new) c) (\<lambda>n c.
       (PyOk (old_doc, PyDict new, n), c)))"
  by (simp add: update_match_def c_bind_def split: c_splits)

lemma update_first_form:
  "update_first os tz alloc fuel change filt c = c_bind (first_match tz alloc fuel filt c, c) (\<lambda>m c. case m of
     None \<Rightarrow> (PyOk None, c)
   | Some t \<Rightarrow> c_bind (update_match os tz alloc change (fst t) (snd t) c) (\<lambda>u c. (PyOk (Some u), c)))"
  by (simp add: update_first_def c_bind_def split: c_splits)

lemma seeded_form:
  "insert_seeded os tz alloc new_id seeded c = c_bind (insert_one os tz alloc new_id seeded c) (\<lambda>_ c.
     (PyOk \<lparr>matched_count = 0, modified_count = 0, upserted_id = map_of (with_id new_id seeded) id_key\<rparr>, c))"
  by (simp add: insert_seeded_def c_bind_def split: c_splits)

lemma upsert_form:
  "upsert os tz alloc fadd new_id filt update c =
     c_bind (build_upsert_document fadd filt update, c) (insert_seeded os tz alloc new_id)"
  by (simp add: upsert_def c_bind_def split: c_splits)

lemma find_update_form:
  "find_one_and_update os tz alloc fuel fadd filt update post c = c_bind (validate_update_document update, c) (\<lambda>_ c.
     c_bind (update_first os tz alloc fuel (\<lambda>old. apply_update_operators fadd old update) filt c) (\<lambda>m c.
       (PyOk (spec_found post m), c)))"
  "find_one_and_replace os tz alloc fuel filt replacement post c = c_bind (reject_update_operators replacement, c) (\<lambda>_ c.
     c_bind (update_first os tz alloc fuel (replacement_with_preserved_id replacement) filt c) (\<lambda>m c.
       (PyOk (spec_found post m), c)))"
  by (simp_all add: find_one_and_update_def find_one_and_replace_def spec_found_def c_bind_def split: c_splits)

definition seed_or ::
    "os_calls \<Rightarrow> (py_datetime \<Rightarrow> int) \<Rightarrow> (nat \<Rightarrow> bool) \<Rightarrow> pyval \<Rightarrow> doc py option \<Rightarrow> coll \<Rightarrow> update_result py \<times> coll" where
  "seed_or os tz alloc new_id seed c = (case seed of
     Some r \<Rightarrow> c_bind (r, c) (insert_seeded os tz alloc new_id)
   | None \<Rightarrow> (PyOk \<lparr>matched_count = 0, modified_count = 0, upserted_id = None\<rparr>, c))"

lemma update_one_form:
  "update_one os tz alloc fuel fadd new_id filt update ups c = c_bind (validate_update_document update, c) (\<lambda>_ c.
     c_bind (update_first os tz alloc fuel (\<lambda>old. apply_update_operators fadd old update) filt c) (\<lambda>m c. case m of
       Some u \<Rightarrow> (PyOk \<lparr>matched_count = 1, modified_count = snd (snd u), upserted_id = None\<rparr>, c)
     | None \<Rightarrow> seed_or os tz alloc new_id (if ups then Some (build_upsert_document fadd filt update) else None) c))"
  by (simp add: update_one_def seed_or_def upsert_form [abs_def] c_bind_def split: c_splits)

lemma replace_one_form:
  "replace_one os tz alloc fuel new_id filt replacement ups c = c_bind (reject_update_operators replacement, c) (\<lambda>_ c.
     c_bind (update_first os tz alloc fuel (replacement_with_preserved_id replacement) filt c) (\<lambda>m c. case m of
       Some u \<Rightarrow> (PyOk \<lparr>matched_count = 1, modified_count = snd (snd u), upserted_id = None\<rparr>, c)
     | None \<Rightarrow> seed_or os tz alloc new_id (if ups then Some (py_bind (seed_from_filter filt) (\<lambda>seeded.
         PyOk (dict_update seeded replacement))) else None) c))"
  by (simp add: replace_one_def seed_or_def c_bind_def split: c_splits)

lemma update_targets_form:
  "update_targets os tz alloc change modified (t # ts) c =
     c_bind (update_match os tz alloc change (fst t) (snd t) c) (\<lambda>u. update_targets os tz alloc change (modified + snd (snd u)) ts)"
  by (cases t) (simp add: c_bind_def split: c_splits)

lemma update_many_form:
  "update_many os tz alloc fuel fadd new_id filt update ups c = c_bind (validate_update_document update, c) (\<lambda>_ c.
     c_bind (iter_matches tz alloc fuel filt c, c) (\<lambda>ts c. if ts = []
       then seed_or os tz alloc new_id (if ups then Some (build_upsert_document fadd filt update) else None) c
       else c_bind (update_targets os tz alloc (\<lambda>old. apply_update_operators fadd old update) 0 ts c) (\<lambda>modified c.
         (PyOk \<lparr>matched_count = length ts, modified_count = modified, upserted_id = None\<rparr>, c))))"
  by (cases "validate_update_document update"; cases "iter_matches tz alloc fuel filt c")
    (simp_all add: update_many_def seed_or_def upsert_form c_bind_def split: c_splits)


text \<open>The operating system and the allocator grant everything, and the fuel is enough for any scan.\<close>

definition ready :: "os_calls \<Rightarrow> (nat \<Rightarrow> bool) \<Rightarrow> nat \<Rightarrow> bool" where
  "ready os alloc fuel \<longleftrightarrow> os_all_succeed os \<and> (\<forall>n. alloc n) \<and> 2 ^ 37 \<le> fuel"

lemma sim_insert_ordered:
  assumes "os_all_succeed os"
  shows "tracks tz F c st \<Longrightarrow> simulates tz F (insert_many_ordered os tz alloc ds c) (spec_insert_ordered tz alloc F ds st)"
proof (induction ds arbitrary: c st)
  case (Cons d ds)
  obtain new_id items where d: "d = (new_id, items)" by fastforce
  show ?case unfolding d insert_ordered_form spec_insert_ordered.simps
    by (rule sim_bind [OF sim_insert [OF Cons.prems assms]]) (rule Cons.IH)
qed (simp add: sim_pure)

lemma sim_insert_unordered:
  assumes "os_all_succeed os"
  shows "tracks tz F c st \<Longrightarrow>
    simulates tz F (insert_many_unordered os tz alloc first ds c) (spec_insert_unordered tz alloc F first ds st)"
proof (induction ds arbitrary: c st first)
  case (Cons d ds)
  obtain new_id items where d: "d = (new_id, items)" by fastforce
  note s = sim_insert [OF Cons.prems assms, of alloc new_id items]
  show ?case
  proof (cases "spec_insert tz alloc F (with_id new_id items) st")
    case (Some t)
    obtain r st' where t: "t = (r, st')" by (cases t)
    obtain c' where i: "insert_one os tz alloc new_id items c = (r, c')" "tracks tz F c' st'"
      using s Some t by (cases "insert_one os tz alloc new_id items c") (simp add: simulates_def)
    show ?thesis
    proof (cases r)
      case (PyRaise e)
      show ?thesis
      proof (cases "e \<in> {InvalidDocument, DuplicateKeyError}")
        case True
        then show ?thesis using Cons.IH [OF i(2), of "if first = None then Some e else first"] i(1) Some t d PyRaise by simp
      next
        case False
        then show ?thesis using i Some t d PyRaise by (simp add: simulates_def)
      qed
    qed (use Cons.IH [OF i(2)] i Some t d in \<open>simp_all add: simulates_def\<close>)
  qed (simp add: d)
qed (simp add: sim_pure)

lemma sim_removed:
  assumes "tracks tz F c st" "small st" "set ts \<subseteq> set (fst st)" "distinct (map fst ts)"
    and "\<And>c'. tracks tz F c' (spec_remove ts st) \<Longrightarrow> simulates tz F (k () c') s"
  shows "simulates tz F (c_bind (delete_targets tz ts c) k) s"
  by (rule sim_delete [OF assms(1-4)]) (use assms(5) in simp)

lemma sim_find_delete:
  assumes c: "tracks tz F c st" and r: "ready os alloc fuel"
  shows "simulates tz F (find_one_and_delete tz alloc fuel filt c) (spec_find_delete F filt st)"
  unfolding find_delete_form spec_find_delete_def
proof (rule sim_first [OF c])
  fix ms assume s: "small st" and ms: "ms = filter (\<lambda>d. matching filt (snd d)) (fst st)"
  show "simulates tz F (case first_of ms of
       None \<Rightarrow> (PyOk None, c)
     | Some t \<Rightarrow> c_bind (delete_targets tz [t] c) (\<lambda>_ c. (PyOk (Some (snd t)), c)))
    (case ms of [] \<Rightarrow> s_pure (PyOk None) st | m # _ \<Rightarrow> s_pure (PyOk (Some (snd m))) (spec_remove [m] st))"
  proof (cases ms)
    case (Cons m ms')
    then have "set [m] \<subseteq> set (fst st)" using ms by (metis empty_set filter_is_subset insert_subset list.simps(15) subsetD
          empty_subsetI list.set_intros(1))
    then show ?thesis using Cons by (auto simp: first_of_def intro!: sim_removed [OF c s] sim_pure)
  qed (simp add: first_of_def sim_pure c)
qed (use r in \<open>simp_all add: ready_def\<close>)

lemma sim_delete_many:
  assumes c: "tracks tz F c st" and r: "ready os alloc fuel"
  shows "simulates tz F (delete_many tz alloc fuel filt c) (spec_delete_many F filt st)"
  unfolding delete_many_form spec_delete_many_def
proof (rule sim_matches [OF c])
  fix ms assume s: "small st" and ms: "ms = filter (\<lambda>d. matching filt (snd d)) (fst st)"
  have "distinct (map fst (fst st))" using c coll_offsets(1) by (auto simp: tracks_def)
  then have "distinct (map fst ms)" by (simp add: ms distinct_map_filter)
  then show "simulates tz F (c_bind (delete_targets tz ms c) (\<lambda>_ c. (PyOk (length ms), c))) (s_pure (PyOk (length ms)) (spec_remove ms st))"
    by (intro sim_removed [OF c s]) (auto simp: ms intro: sim_pure)
qed (use r in \<open>simp_all add: ready_def\<close>)

lemma sim_update_match:
  assumes c: "tracks tz F c st" and r: "ready os alloc fuel"
  shows "simulates tz F (update_match os tz alloc change (fst m) (snd m) c) (spec_update_match tz alloc F change m st)"
proof (cases "py_mapping (snd m)")
  case (Some old)
  have os: "os_all_succeed os" using r by (simp add: ready_def)
  show ?thesis unfolding update_match_form [OF Some] spec_update_match_def Some option.case
    by (intro sim_bind sim_pure c sim_update os)
qed (simp add: spec_update_match_def)

lemma sim_update_first:
  assumes c: "tracks tz F c st" and r: "ready os alloc fuel"
  shows "simulates tz F (update_first os tz alloc fuel change filt c) (spec_update_first tz alloc F change filt st)"
  unfolding update_first_form spec_update_first_def
proof (rule sim_first [OF c])
  fix ms assume ms: "ms = filter (\<lambda>d. matching filt (snd d)) (fst st)"
  show "simulates tz F (case first_of ms of
       None \<Rightarrow> (PyOk None, c)
     | Some t \<Rightarrow> c_bind (update_match os tz alloc change (fst t) (snd t) c) (\<lambda>u c. (PyOk (Some u), c)))
    (case ms of [] \<Rightarrow> s_pure (PyOk None) st
     | m # _ \<Rightarrow> s_bind (spec_update_match tz alloc F change m st) (\<lambda>u. s_pure (PyOk (Some u))))"
    by (cases ms) (simp_all add: first_of_def sim_pure c sim_bind [OF sim_update_match [OF c r]])
qed (use r in \<open>simp_all add: ready_def\<close>)

lemma sim_seed_or:
  assumes c: "tracks tz F c st" and r: "ready os alloc fuel"
  shows "simulates tz F (seed_or os tz alloc new_id seed c) (case seed of
      Some r \<Rightarrow> s_bind (s_pure r st) (spec_seeded tz alloc F new_id)
    | None \<Rightarrow> s_pure (PyOk \<lparr>matched_count = 0, modified_count = 0, upserted_id = None\<rparr>) st)"
proof -
  have os: "os_all_succeed os" using r by (simp add: ready_def)
  have "simulates tz F (insert_seeded os tz alloc new_id d c') (spec_seeded tz alloc F new_id d st')" if "tracks tz F c' st'" for d c' st'
    unfolding seeded_form spec_seeded_def by (intro sim_bind sim_insert sim_pure that os)
  then show ?thesis using c by (cases seed) (auto simp: seed_or_def intro: sim_bind sim_pure)
qed

lemma sim_find_update:
  assumes c: "tracks tz F c st" and r: "ready os alloc fuel"
  shows "simulates tz F (find_one_and_update os tz alloc fuel fadd filt update post c)
      (spec_find_update tz alloc F (validate_update_document update) (\<lambda>old. apply_update_operators fadd old update) filt post st)"
    "simulates tz F (find_one_and_replace os tz alloc fuel filt replacement post c)
      (spec_find_update tz alloc F (reject_update_operators replacement) (replacement_with_preserved_id replacement) filt post st)"
  unfolding find_update_form spec_find_update_def by (intro sim_bind sim_pure sim_update_first c r; assumption)+

lemma sim_one:
  assumes c: "tracks tz F c st" and r: "ready os alloc fuel"
  shows "simulates tz F
    (c_bind (check, c) (\<lambda>_ c. c_bind (update_first os tz alloc fuel change filt c) (\<lambda>m c. case m of
       Some u \<Rightarrow> (PyOk \<lparr>matched_count = 1, modified_count = snd (snd u), upserted_id = None\<rparr>, c)
     | None \<Rightarrow> seed_or os tz alloc new_id seed c)))
    (spec_update_one tz alloc F check change new_id seed filt st)"
  unfolding spec_update_one_def
proof (intro sim_bind sim_pure sim_update_first c r)
  fix m c' st' assume c': "tracks tz F c' st'"
  show "simulates tz F (case m of
       Some u \<Rightarrow> (PyOk \<lparr>matched_count = 1, modified_count = snd (snd u), upserted_id = None\<rparr>, c')
     | None \<Rightarrow> seed_or os tz alloc new_id seed c')
    (case (m, seed) of
       (Some (old, new, n), _) \<Rightarrow> s_pure (PyOk \<lparr>matched_count = 1, modified_count = n, upserted_id = None\<rparr>) st'
     | (None, Some r) \<Rightarrow> s_bind (s_pure r st') (spec_seeded tz alloc F new_id)
     | (None, None) \<Rightarrow> s_pure (PyOk \<lparr>matched_count = 0, modified_count = 0, upserted_id = None\<rparr>) st')"
    using sim_seed_or [OF c' r, of new_id seed] by (cases m; cases seed) (auto simp: sim_pure c')
qed assumption

lemma sim_targets:
  assumes r: "ready os alloc fuel"
  shows "tracks tz F c st \<Longrightarrow> simulates tz F (update_targets os tz alloc change modified ts c) (spec_targets tz alloc F change modified ts st)"
proof (induction ts arbitrary: c st modified)
  case (Cons t ts)
  show ?case unfolding update_targets_form spec_targets.simps
    by (rule sim_bind [OF sim_update_match [OF Cons.prems r]]) (simp add: Cons.IH case_prod_beta)
qed (simp add: sim_pure)

lemma sim_update_many:
  assumes c: "tracks tz F c st" and r: "ready os alloc fuel"
  shows "simulates tz F (update_many os tz alloc fuel fadd new_id filt update ups c)
    (spec_update_many tz alloc F (validate_update_document update) (\<lambda>old. apply_update_operators fadd old update) new_id
      (if ups then Some (build_upsert_document fadd filt update) else None) filt st)"
  unfolding update_many_form spec_update_many_def
proof (rule sim_bind [OF sim_pure [OF c]])
  fix c' st' assume c': "tracks tz F c' st'"
  let ?change = "\<lambda>old. apply_update_operators fadd old update"
    and ?seed = "if ups then Some (build_upsert_document fadd filt update) else None"
  have "simulates tz F (c_bind (iter_matches tz alloc fuel filt c', c') (\<lambda>ts c. if ts = [] then seed_or os tz alloc new_id ?seed c
       else c_bind (update_targets os tz alloc ?change 0 ts c) (\<lambda>modified c.
         (PyOk \<lparr>matched_count = length ts, modified_count = modified, upserted_id = None\<rparr>, c))))
    (s_bind (spec_select F filt st') (\<lambda>ms st. if ms = [] then (case ?seed of
         Some r \<Rightarrow> s_bind (s_pure r st) (spec_seeded tz alloc F new_id)
       | None \<Rightarrow> s_pure (PyOk \<lparr>matched_count = 0, modified_count = 0, upserted_id = None\<rparr>) st)
     else s_bind (spec_targets tz alloc F ?change 0 ms st) (\<lambda>modified.
       s_pure (PyOk \<lparr>matched_count = length ms, modified_count = modified, upserted_id = None\<rparr>))))"
  proof (rule sim_matches [OF c'])
    fix ms :: "(nat \<times> pyval) list"
    show "simulates tz F (if ms = [] then seed_or os tz alloc new_id ?seed c'
       else c_bind (update_targets os tz alloc ?change 0 ms c') (\<lambda>modified c.
         (PyOk \<lparr>matched_count = length ms, modified_count = modified, upserted_id = None\<rparr>, c)))
      (if ms = [] then (case ?seed of
         Some r \<Rightarrow> s_bind (s_pure r st') (spec_seeded tz alloc F new_id)
       | None \<Rightarrow> s_pure (PyOk \<lparr>matched_count = 0, modified_count = 0, upserted_id = None\<rparr>) st')
     else s_bind (spec_targets tz alloc F ?change 0 ms st') (\<lambda>modified.
       s_pure (PyOk \<lparr>matched_count = length ms, modified_count = modified, upserted_id = None\<rparr>)))"
    proof (cases "ms = []")
      case True
      then show ?thesis using sim_seed_or [OF c' r, of new_id ?seed] by simp
    next
      case False
      then show ?thesis by (simp add: sim_bind [OF sim_targets [OF r c']] sim_pure)
    qed
  qed (use r in \<open>simp_all add: ready_def\<close>)
  then show "simulates tz F (c_bind (iter_matches tz alloc fuel filt c', c') (\<lambda>ts c. if ts = [] then seed_or os tz alloc new_id ?seed c
       else c_bind (update_targets os tz alloc ?change 0 ts c) (\<lambda>modified c.
         (PyOk \<lparr>matched_count = length ts, modified_count = modified, upserted_id = None\<rparr>, c))))
    (s_bind (spec_select F filt st') (\<lambda>ms st. if ms = [] then (case ?seed of
         Some r \<Rightarrow> s_bind (s_pure r st) (spec_seeded tz alloc F new_id)
       | None \<Rightarrow> s_pure (PyOk \<lparr>matched_count = 0, modified_count = 0, upserted_id = None\<rparr>) st)
     else s_bind (spec_targets tz alloc F ?change 0 ms st) (\<lambda>modified.
       s_pure (PyOk \<lparr>matched_count = length ms, modified_count = modified, upserted_id = None\<rparr>))))" .
qed

section \<open>Calls\<close>

lemma reply_bind: "reply_of f (c_bind m (\<lambda>x c. (PyOk (g x), c))) = reply_of (\<lambda>x. f (g x)) m"
  by (cases m; cases "fst m") (simp_all add: reply_of_def c_bind_def)

text \<open>A call that only reads.\<close>

lemma sim_read:
  assumes c: "tracks tz F c st" and r: "ready os alloc fuel"
    and m: "\<And>ms. iter_matches tz alloc fuel filt c = PyOk ms \<Longrightarrow> m = PyOk (g ms)"
  shows "simulates tz F (reply_of f (m, c)) (map_option (reply_of (\<lambda>ms. f (g ms))) (spec_select F filt st))"
proof -
  have e: "map_option (reply_of (\<lambda>ms. f (g ms))) (spec_select F filt st) = s_bind (spec_select F filt st) (\<lambda>ms. s_pure (PyOk (f (g ms))))"
    by (auto simp: s_bind_def s_pure_def reply_of_def split: option.split py.split)
  have a: "\<forall>n. alloc n" "2 ^ 37 \<le> fuel" using r by (simp_all add: ready_def)
  show ?thesis unfolding e
  proof (rule sim_select [OF c a, where m = "(PyOk (f (g (filter (\<lambda>d. matching filt (snd d)) (fst st)))), c)"])
    fix ms assume "iter_matches tz alloc fuel filt c = PyOk ms" "ms = filter (\<lambda>d. matching filt (snd d)) (fst st)"
    then show "reply_of f (m, c) = (PyOk (f (g (filter (\<lambda>d. matching filt (snd d)) (fst st)))), c)"
      using m by (simp add: reply_of_def)
  qed (simp add: sim_pure c)
qed

lemma execute_simulates:
  assumes c: "tracks tz F c st" and r: "ready os alloc fuel"
  shows "simulates tz F (execute os tz alloc fuel fadd cmd c) (specify tz alloc fadd F cmd st)"
proof -
  have os: "os_all_succeed os" using r by (simp add: ready_def)
  show ?thesis
  proof (cases cmd)
    case (Update_many new_id filt u ups)
    then show ?thesis using sim_reply [OF sim_update_many [OF c r]] by simp
  next
    case (Insert_many ordered ds)
    then show ?thesis using sim_reply [OF sim_insert_ordered [OF os c]] sim_reply [OF sim_insert_unordered [OF os c]] by simp
  next
    case (Find filt)
    then show ?thesis using sim_read [OF c r, of filt _ id "\<lambda>ms. Documents (map snd ms)"] by simp
  next
    case (Find_one filt)
    have "simulates tz F (reply_of Document (find_one tz alloc fuel filt c, c))
        (map_option (reply_of (\<lambda>ms. Document (map_option snd (first_of ms)))) (spec_select F filt st))"
      by (rule sim_read [OF c r]) (simp add: find_one_def first_match_of)
    then show ?thesis using Find_one by simp
  next
    case (Delete_one filt)
    have "simulates tz F (reply_of (\<lambda>m. Number (if m = None then 0 else 1)) (find_one_and_delete tz alloc fuel filt c))
        (map_option (reply_of (\<lambda>m. Number (if m = None then 0 else 1))) (spec_find_delete F filt st))"
      by (rule sim_reply [OF sim_find_delete [OF c r]])
    then show ?thesis using Delete_one by (simp add: delete_one_form reply_bind)
  next
    case (Count_documents filt)
    have "simulates tz F (reply_of Number (count_documents tz alloc fuel filt c, c))
        (map_option (reply_of (\<lambda>ms. Number (length ms))) (spec_select F filt st))"
      by (rule sim_read [OF c r]) (simp add: count_documents_def)
    then show ?thesis using Count_documents by simp
  next
    case (Distinct key filt)
    have "simulates tz F (reply_of Documents (distinct_values tz alloc fuel key filt c, c)) (map_option (reply_of (\<lambda>ms.
        Documents (foldl add_distinct [] (concat (map (\<lambda>(offset, doc). distinct_candidates doc (split_dots key)) ms))))) (spec_select F filt st))"
      by (rule sim_read [OF c r]) (simp add: distinct_values_def)
    then show ?thesis using Distinct by simp
  qed (simp_all add: sim_reply sim_insert [OF c os] sim_find_delete [OF c r] sim_delete_many [OF c r] sim_find_update [OF c r]
      sim_update_many [OF c r] update_one_form replace_one_form sim_one [OF c r])
qed

lemma distinct_keys:
  assumes "tracks tz F c st" "fp \<in> set F"
  shows "distinct (map (\<lambda>(off, x). doc_rank tz fp x) (fst st))"
proof -
  have c: "coll_holds tz c (fst st) (snd st)" using assms(1) by (simp add: tracks_def)
  obtain i where "(fp, i) \<in> set (co_indexes c)" using assms by (auto simp: tracks_def paths_def)
  then have "index_of tz (snd st) (fst st) (fp, i)" using c by (auto simp: coll_holds_def)
  then obtain M where M: "maps_docs tz fp (fst st) M" by (auto simp: index_of_def)
  have "inj_on (\<lambda>(off, x). doc_rank tz fp x) (set (fst st))"
  proof (rule inj_onI, clarify)
    fix a x b y assume m: "(a, x) \<in> set (fst st)" "(b, y) \<in> set (fst st)" and e: "doc_rank tz fp x = doc_rank tz fp y"
    obtain k where k: "keyed tz fp x k" "M (key_rank k) = Some a" using maps_docsD(1) [OF M m(1)] by blast
    then have "M (key_rank k) = Some b" using maps_docs_offset [OF M m(2)] e doc_rank_keyed [OF k(1)] by simp
    then have "a = b" using k(2) by simp
    then show "a = b \<and> x = y" using m coll_offsets(1) [OF c] eq_key_imp_eq_value by metis
  qed
  moreover have "distinct (fst st)" using coll_offsets(1) [OF c] distinct_map by blast
  ultimately show ?thesis by (simp add: distinct_map)
qed

text \<open>
  C2. A collection with unique indexes implements the specification: on a sequence of calls of its
  operations (inserts, finds, updates, replacements, upserts, deletions, counts) for which the
  specification says something, the replies are those of the specification, exceptions included, the
  data file and all indexes hold the documents that it gives, and no two of them have the same key in an
  index. It says nothing of a sequence with a document that cannot be stored or that an index has no key
  for, a filter that raises or that an index answers differently, an \<^verbatim>\<open>update_many\<close> that leads into what its
  own \<^verbatim>\<open>$set\<close> stores, or a file of \<open>2 ^ 37\<close> bytes.
\<close>

theorem operations_refine_spec:
  assumes "tracks tz F c st" and r: "ready os alloc fuel" and "specify_all tz alloc fadd F cmds st = Some (rs, st')"
  shows "\<exists>c'. execute_all os tz alloc fuel fadd cmds c = (rs, c') \<and> tracks tz F c' st' \<and>
    (\<forall>fp \<in> set F. distinct (map (\<lambda>(off, x). doc_rank tz fp x) (fst st')))"
  using assms(1,3)
proof (induction cmds arbitrary: c st rs)
  case Nil
  then show ?case using distinct_keys by auto
next
  case (Cons cmd cmds)
  obtain reply st1 rs1 where s: "specify tz alloc fadd F cmd st = Some (reply, st1)"
    "specify_all tz alloc fadd F cmds st1 = Some (rs1, st')" "rs = reply # rs1"
    using Cons.prems(2) by (auto split: option.splits)
  obtain c1 where c1: "execute os tz alloc fuel fadd cmd c = (reply, c1)" "tracks tz F c1 st1"
    using execute_simulates [OF Cons.prems(1) r, of fadd cmd] s(1)
    by (cases "execute os tz alloc fuel fadd cmd c") (simp add: simulates_def)
  show ?case using Cons.IH [OF c1(2) s(2)] c1(1) s(3) by auto
qed

text \<open>On \<^verbatim>\<open>{"a": 5}\<close> with a unique index: a refused insert, a deletion, an insert and a search.\<close>

definition sample_calls :: "command list" where
  "sample_calls = [Insert_one sample_id [(PyStr [97], PyInt 5)], Delete_many (eq_filter [97] (PyInt 5)),
     Insert_one sample_id [(PyStr [97], PyInt 5)], Find_one (eq_filter [97] (PyInt 5))]"

lemma sample_specify:
  assumes raw: "py_encode (\<lambda>_. True) (PyDict (sample_doc_of 5)) = PyOk raw" "length raw \<le> BSON_MAX_DOCUMENT_SIZE" and E: "E < 2 ^ 30"
  shows "specify_all utc (\<lambda>_. True) no_fadd [[97]] sample_calls ([(64, PyDict (sample_doc_of 5))], E) =
    Some ([PyRaise DuplicateKeyError, PyOk (Number 1), PyOk Done, PyOk (Document (Some (PyDict (sample_doc_of 5))))],
      ([(E + 1 + length raw, PyDict (sample_doc_of 5))], E + 1 + length raw + 1 + length raw))"
proof -
  have i: "indexable utc (PyDict (sample_doc_of 5)) [97]" by (rule sample_indexable) simp_all
  have f: "fits_in utc [[97]] (sample_doc_of 5) st \<longleftrightarrow> small st" for st
    using i sample_doc_storable(1) [of 5] by (simp add: fits_in_def)
  have c: "conflict utc [97] (PyDict (sample_doc_of 5)) [(64, PyDict (sample_doc_of 5))]" "\<not> conflict utc [97] x []" for x
    by (simp_all add: conflict_def)
  have m: "matching (eq_filter [97] (PyInt 5)) (PyDict (sample_doc_of 5))"
    using sample_filter(2) [of 5 5] by (simp add: matching_def)
  have q: "answerable (eq_filter [97] (PyInt 5)) [(off, PyDict (sample_doc_of 5))]"
    "index_sound [[97]] [(off, PyDict (sample_doc_of 5))] (eq_filter [97] (PyInt 5))" for off by (rule sample_query)+
  have b: "small (L, E)" "small (L, E + 1 + length raw)" "small (L, E + 1 + length raw + 1 + length raw)" for L
    using E raw(2) by (simp_all add: small_def BSON_MAX_DOCUMENT_SIZE_def)
  note d = sample_doc_storable(3) [of 5] sample_doc_storable(5) [of 5]
  have 1: "specify utc (\<lambda>_. True) no_fadd [[97]] (Insert_one sample_id [(PyStr [97], PyInt 5)]) ([(64, PyDict (sample_doc_of 5))], E) =
      Some (PyRaise DuplicateKeyError, ([(64, PyDict (sample_doc_of 5))], E + 1 + length raw))"
    using b(1) by (simp add: spec_insert_def f d raw(1) c Let_def reply_of_def)
  have 2: "specify utc (\<lambda>_. True) no_fadd [[97]] (Delete_many (eq_filter [97] (PyInt 5))) ([(64, PyDict (sample_doc_of 5))], E + 1 + length raw) =
      Some (PyOk (Number 1), ([], E + 1 + length raw))"
    using b(2) q m by (simp add: spec_delete_many_def spec_select_def s_bind_def s_pure_def reply_of_def spec_remove_def)
  have 3: "specify utc (\<lambda>_. True) no_fadd [[97]] (Insert_one sample_id [(PyStr [97], PyInt 5)]) ([], E + 1 + length raw) =
      Some (PyOk Done, ([(E + 1 + length raw, PyDict (sample_doc_of 5))], E + 1 + length raw + 1 + length raw))"
    using b(2) by (simp add: spec_insert_def f d raw(1) c Let_def reply_of_def)
  have 4: "specify utc (\<lambda>_. True) no_fadd [[97]] (Find_one (eq_filter [97] (PyInt 5)))
      ([(E + 1 + length raw, PyDict (sample_doc_of 5))], E + 1 + length raw + 1 + length raw) =
      Some (PyOk (Document (Some (PyDict (sample_doc_of 5)))),
        ([(E + 1 + length raw, PyDict (sample_doc_of 5))], E + 1 + length raw + 1 + length raw))"
    using b(3) q m by (simp add: spec_select_def reply_of_def first_of_def)
  show ?thesis unfolding sample_calls_def specify_all.simps 1 2 3 4 option.case prod.case by simp
qed

theorem operations_refine_spec_witness:
  "\<exists>c c' n. coll_holds utc c [(64, PyDict (sample_doc_of 5))] (65 + n) \<and>
    execute_all perfect_os utc (\<lambda>_. True) (2 ^ 37) no_fadd sample_calls c =
      ([PyRaise DuplicateKeyError, PyOk (Number 1), PyOk Done, PyOk (Document (Some (PyDict (sample_doc_of 5))))], c') \<and>
    coll_holds utc c' [(66 + 2 * n, PyDict (sample_doc_of 5))] (67 + 3 * n)"
proof -
  obtain raw where raw: "py_encode (\<lambda>_. True) (PyDict (sample_doc_of 5)) = PyOk raw" "length raw \<le> BSON_MAX_DOCUMENT_SIZE"
    by (rule sample_doc_encode)
  obtain c where c: "coll_holds utc c [(64, PyDict (sample_doc_of 5))] (65 + length raw)" "paths (co_indexes c) = [[97]]"
    using one_document [OF sample_doc_storable(1,3) sample_indexable raw(1)] by auto
  have t: "tracks utc [[97]] c ([(64, PyDict (sample_doc_of 5))], 65 + length raw)" using c by (simp add: tracks_def)
  have r: "ready perfect_os (\<lambda>_. True) (2 ^ 37)" using perfect_os_succeeds by (simp add: ready_def)
  have "65 + length raw < 2 ^ 30" using raw(2) by (simp add: BSON_MAX_DOCUMENT_SIZE_def)
  from operations_refine_spec [OF t r sample_specify [OF raw this]] obtain c' where
    c': "execute_all perfect_os utc (\<lambda>_. True) (2 ^ 37) no_fadd sample_calls c =
      ([PyRaise DuplicateKeyError, PyOk (Number 1), PyOk Done, PyOk (Document (Some (PyDict (sample_doc_of 5))))], c')"
    "tracks utc [[97]] c' ([(65 + length raw + 1 + length raw, PyDict (sample_doc_of 5))], 65 + length raw + 1 + length raw + 1 + length raw)"
    by blast
  moreover have "65 + length raw + 1 + length raw = 66 + 2 * length raw" "66 + 2 * length raw + 1 + length raw = 67 + 3 * length raw" by simp_all
  ultimately have held: "coll_holds utc c' [(66 + 2 * length raw, PyDict (sample_doc_of 5))] (67 + 3 * length raw)"
    by (simp only: tracks_def fst_conv snd_conv)
  show ?thesis by (rule exI [of _ c], rule exI [of _ c'], rule exI [of _ "length raw"], intro conjI c(1) c'(1) held)
qed

end
