(* ===== verification/Cursor_Properties.thy ===== *)
theory Cursor_Properties
  imports Collection_Cursor Collection_Refine
begin

text \<open>
  Cursors: what iteration gives, that sorting is a stable sort, and where indexing a cursor does not agree
  with iterating it.
\<close>

section \<open>What a stream gives\<close>

text \<open>The documents that pulling from a source gives, until it ends.\<close>

inductive gives :: "(pyval \<Rightarrow> bool py) \<Rightarrow> nat \<Rightarrow> collection_handle \<Rightarrow> doc_source \<Rightarrow> doc list \<Rightarrow> bool"
  for p fuel h where
  gives_end: "pull p fuel h src = PyOk None \<Longrightarrow> gives p fuel h src []"
| gives_more: "pull p fuel h src = PyOk (Some (d, src')) \<Longrightarrow> gives p fuel h src' ds \<Longrightarrow> gives p fuel h src (d # ds)"

inductive_cases gives_NilE: "gives p fuel h src []"
inductive_cases gives_ConsE: "gives p fuel h src (d # ds)"

lemma gives_docs: "gives p fuel h (Src_docs ds) ds"
  by (induction ds) (auto intro: gives.intros simp: pull_def)

lemma gives_same_pull: "pull p fuel h src = pull p fuel h src' \<Longrightarrow> gives p fuel h src' ds \<Longrightarrow> gives p fuel h src ds"
  by (erule gives.cases) (auto intro: gives.intros)

lemma gives_offsets:
  assumes "holds_docs h L E" "\<forall>(off, x) \<in> set L. p x = PyOk (q x)"
  shows "set offs \<subseteq> fst ` set L \<Longrightarrow>
    gives p fuel h (Src_offsets offs) (docs_of (filter (\<lambda>d. q (snd d)) (map (\<lambda>off. (off, the (map_of L off))) offs)))"
proof (induction offs)
  case Nil
  then show ?case by (auto intro: gives_end simp: pull_def docs_of_def)
next
  case (Cons off offs)
  then obtain x where x: "(off, x) \<in> set L" by auto
  obtain raw where r: "CollectionHandle_read_record (int off) h = (PyOk (Some raw), h)" "py_decode raw = PyOk x"
    using read_doc [OF assms(1) x] .
  have m: "map_of L off = Some x" using holds_docs_offsets(2) [OF assms(1)] x by simp
  have px: "p x = PyOk (q x)" using assms(2) x by auto
  show ?case
  proof (cases "q x")
    case True
    then have "pull p fuel h (Src_offsets (off # offs)) = PyOk (Some (items_of x, Src_offsets offs))" by (simp add: pull_def r px)
    from gives_more [OF this Cons.IH] show ?thesis using Cons.prems m True by (simp add: docs_of_def)
  next
    case False
    then have "pull p fuel h (Src_offsets (off # offs)) = pull p fuel h (Src_offsets offs)" by (simp add: pull_def r px)
    from gives_same_pull [OF this Cons.IH] show ?thesis using Cons.prems m False by simp
  qed
qed

lemma live_from_split:
  "filter q (live_from rs k) = d # ds \<Longrightarrow> k \<le> length rs \<Longrightarrow>
     \<exists>j < length rs. k \<le> j \<and> fst d = rec_off rs j \<and> ds = filter q (live_from rs (Suc j))"
proof (induction "length rs - k" arbitrary: k rule: less_induct)
  case less
  obtain j where j: "first_live rs k = Some j" "k \<le> j" "j < length rs"
    using less.prems(1) first_live_Some live_from_first [of rs k] by (cases "first_live rs k") fastforce+
  have l: "live_from rs k = (rec_off rs j, decoded (snd (rs ! j))) # live_from rs (Suc j)" using live_from_first [of rs k] j(1) by simp
  show ?case
  proof (cases "q (rec_off rs j, decoded (snd (rs ! j)))")
    case True
    then show ?thesis using less.prems l j by auto
  next
    case False
    then have e: "filter q (live_from rs (Suc j)) = d # ds" using less.prems(1) l by simp
    have k: "length rs - Suc j < length rs - k" "Suc j \<le> length rs" using j by linarith+
    obtain i where "i < length rs" "Suc j \<le> i" "fst d = rec_off rs i" "ds = filter q (live_from rs (Suc i))"
      using less.hyps [OF k(1) e k(2)] by blast
    then show ?thesis using j(2) by (intro exI [of _ i]) simp
  qed
qed

lemma gives_scan:
  assumes rs: "holds_log h rs" "\<forall>r \<in> set rs. fst r \<longrightarrow> py_decode (snd r) = PyOk (decoded (snd r))" "length rs < fuel"
    and p: "\<forall>(off, x) \<in> set (live_from rs k). p x = PyOk (q x)"
  shows "CollectionHandle_next_live_offset prev h = (PyOk (map_option (rec_off rs) (first_live rs k)), h) \<Longrightarrow> k \<le> length rs \<Longrightarrow>
    gives p fuel h (Src_scan prev) (docs_of (filter (\<lambda>d. q (snd d)) (live_from rs k)))"
  using p
proof (induction "filter (\<lambda>d. q (snd d)) (live_from rs k)" arbitrary: prev k)
  case Nil
  have "scan_docs p fuel prev h = PyOk []"
    using scan_log_docs [OF rs(1,2) Nil.prems(1,2) _ Nil.prems(3)] rs(3) Nil.hyps by simp
  then have "pull p fuel h (Src_scan prev) = PyOk None" by (simp add: pull_def scan_first_of first_of_def)
  then show ?case unfolding Nil.hyps [symmetric] by (auto intro: gives_end simp: docs_of_def)
next
  case (Cons d ds)
  obtain j where j: "j < length rs" "k \<le> j" "fst d = rec_off rs j" "ds = filter (\<lambda>d. q (snd d)) (live_from rs (Suc j))"
    using live_from_split [OF Cons.hyps(2) [symmetric] Cons.prems(2)] by blast
  have "scan_docs p fuel prev h = PyOk (d # ds)"
    using scan_log_docs [OF rs(1,2) Cons.prems(1,2) _ Cons.prems(3)] rs(3) Cons.hyps(2) by simp
  then have pull: "pull p fuel h (Src_scan prev) = PyOk (Some (items_of (snd d), Src_scan (int (fst d))))"
    by (cases d) (simp add: pull_def scan_first_of first_of_def)
  have sub: "set (live_from rs (Suc j)) \<subseteq> set (live_from rs k)" using j(2) by (auto simp: live_from_def)
  have "gives p fuel h (Src_scan (int (fst d))) (docs_of (filter (\<lambda>d. q (snd d)) (live_from rs (Suc j))))"
    by (rule Cons.hyps(1) [OF j(4)]) (use next_live_offset_holds(2) [OF rs(1) j(1)] j(1,3) Cons.prems(3) sub in auto)
  from gives_more [OF pull this] show ?case
    unfolding Cons.hyps(2) [symmetric] j(4) [symmetric] by (cases d) (simp add: docs_of_def)
qed

lemma live_from_beyond: "i < length rs \<Longrightarrow> live_from rs (Suc i) = filter (\<lambda>d. rec_off rs i < fst d) (live_from rs 0)"
proof -
  assume i: "i < length rs"
  have lt: "rec_off rs i < rec_off rs j \<longleftrightarrow> i < j" if "j < length rs" for j
    using rec_off_less [of i j rs] rec_off_less [of j i rs] i that by (cases i j rule: linorder_cases) simp_all
  have "filter (\<lambda>j. fst (rs ! j)) [Suc i..<length rs] = filter (\<lambda>j. fst (rs ! j) \<and> i < j) [0..<length rs]"
  proof -
    have "[0..<length rs] = [0..<Suc i] @ [Suc i..<length rs]" using i by (metis Suc_leI le_add_diff_inverse upt_add_eq_append zero_le)
    moreover have "filter (\<lambda>j. fst (rs ! j) \<and> i < j) [0..<Suc i] = []" by (auto simp: filter_empty_conv)
    moreover have "filter (\<lambda>j. fst (rs ! j) \<and> i < j) [Suc i..<length rs] = filter (\<lambda>j. fst (rs ! j)) [Suc i..<length rs]"
      by (rule filter_cong) auto
    ultimately show ?thesis by simp
  qed
  also have "\<dots> = filter (\<lambda>j. fst (rs ! j) \<and> rec_off rs i < rec_off rs j) [0..<length rs]"
    by (rule filter_cong) (auto simp: lt)
  finally show ?thesis by (simp add: live_from_def filter_map comp_def)
qed

text \<open>What an opened stream gives, without those that it skips and up to its limit.\<close>

definition left_over :: "(pyval \<Rightarrow> bool py) \<Rightarrow> nat \<Rightarrow> collection_handle \<Rightarrow> doc_stream \<Rightarrow> doc list \<Rightarrow> bool" where
  "left_over p fuel h st ds \<longleftrightarrow> (\<exists>ms. gives p fuel h (st_source st) ms \<and>
     ds = (case st_limit st of None \<Rightarrow> drop (st_skip st) ms | Some n \<Rightarrow> take n (drop (st_skip st) ms)))"

lemma skip_pull_gives:
  "gives p fuel h src ms \<Longrightarrow> (case drop n ms of
     [] \<Rightarrow> skip_pull p fuel h n src = PyOk None
   | d # ds \<Rightarrow> \<exists>src'. skip_pull p fuel h n src = PyOk (Some (d, src')) \<and> gives p fuel h src' ds)"
proof (induction n arbitrary: src ms)
  case 0
  then show ?case by (cases ms) (auto elim: gives_NilE gives_ConsE)
next
  case (Suc n)
  from Suc.prems show ?case
  proof cases
    case (gives_more d src' ds)
    then show ?thesis using Suc.IH [OF gives_more(3)] by (cases "drop n ds") auto
  qed simp
qed

lemma stream_next_left:
  assumes "left_over p fuel h st ds"
  shows "case ds of
     [] \<Rightarrow> stream_next p fuel h st = PyOk None
   | d # rest \<Rightarrow> \<exists>st'. stream_next p fuel h st = PyOk (Some (d, st')) \<and> left_over p fuel h st' rest"
proof -
  obtain ms where ms: "gives p fuel h (st_source st) ms"
    "ds = (case st_limit st of None \<Rightarrow> drop (st_skip st) ms | Some n \<Rightarrow> take n (drop (st_skip st) ms))"
    using assms by (auto simp: left_over_def)
  show ?thesis
  proof (cases "drop (st_skip st) ms")
    case Nil
    then show ?thesis using skip_pull_gives [OF ms(1), of "st_skip st"] ms(2) by (simp add: stream_next_def split: option.splits)
  next
    case (Cons d rest)
    then obtain src' where src': "skip_pull p fuel h (st_skip st) (st_source st) = PyOk (Some (d, src'))" "gives p fuel h src' rest"
      using skip_pull_gives [OF ms(1), of "st_skip st"] by auto
    show ?thesis
    proof (cases "st_limit st")
      case None
      then show ?thesis using Cons ms(2) src' by (auto simp: stream_next_def left_over_def)
    next
      case (Some n)
      then show ?thesis using Cons ms(2) src' by (cases n) (auto simp: stream_next_def left_over_def)
    qed
  qed
qed

section \<open>What iteration gives\<close>

abbreviation matcher :: "cursor \<Rightarrow> pyval \<Rightarrow> bool py" where
  "matcher cu \<equiv> \<lambda>d. matches d (resolved_filter (cu_filter cu))"

abbreviation projected :: "cursor \<Rightarrow> doc list \<Rightarrow> doc list" where
  "projected cu \<equiv> map (\<lambda>d. apply_projection d (cu_projection cu))"

lemma next_opened:
  assumes "\<not> cu_exhausted cu" "py_bind (case cu_iterator cu of Some st \<Rightarrow> PyOk st | None \<Rightarrow> build_iterator tz alloc fuel c cu) PyOk = PyOk st"
    "left_over (matcher cu) fuel (co_data c) st ds"
  shows "case ds of
     [] \<Rightarrow> fst (cursor_next tz alloc fuel c cu) = PyOk None
   | d # rest \<Rightarrow> \<exists>st'. cursor_next tz alloc fuel c cu = (PyOk (Some (apply_projection d (cu_projection cu))), cu\<lparr>cu_iterator := Some st'\<rparr>) \<and>
       left_over (matcher cu) fuel (co_data c) st' rest"
proof -
  have "(case cu_iterator cu of Some st \<Rightarrow> PyOk st | None \<Rightarrow> build_iterator tz alloc fuel c cu) = PyOk st"
    using assms(2) by (cases "case cu_iterator cu of Some st \<Rightarrow> PyOk st | None \<Rightarrow> build_iterator tz alloc fuel c cu") simp_all
  then show ?thesis using stream_next_left [OF assms(3)] assms(1) by (cases ds) (auto simp: cursor_next_def)
qed

lemma list_opened:
  assumes "\<not> cu_exhausted cu" "py_bind (case cu_iterator cu of Some st \<Rightarrow> PyOk st | None \<Rightarrow> build_iterator tz alloc fuel c cu) PyOk = PyOk st"
    "left_over (matcher cu) fuel (co_data c) st ds" "length ds < n"
  shows "fst (cursor_list tz alloc fuel c n cu) = PyOk (projected cu ds)"
  using assms
proof (induction ds arbitrary: cu st n)
  case Nil
  then show ?case using next_opened [OF Nil.prems(1-3)] by (cases n; cases "cursor_next tz alloc fuel c cu") auto
next
  case (Cons d ds)
  obtain m where n: "n = Suc m" using Cons.prems(4) by (cases n) simp_all
  obtain st' where st': "cursor_next tz alloc fuel c cu = (PyOk (Some (apply_projection d (cu_projection cu))), cu\<lparr>cu_iterator := Some st'\<rparr>)"
    "left_over (matcher cu) fuel (co_data c) st' ds" using next_opened [OF Cons.prems(1-3)] by auto
  have "fst (cursor_list tz alloc fuel c m (cu\<lparr>cu_iterator := Some st'\<rparr>)) = PyOk (projected cu ds)"
    using Cons.IH [of "cu\<lparr>cu_iterator := Some st'\<rparr>" st' m] st'(2) Cons.prems(1,4) n by simp
  then show ?case using st'(1) n by (cases "cursor_list tz alloc fuel c m (cu\<lparr>cu_iterator := Some st'\<rparr>)") simp
qed

text \<open>The window of the documents that skip and limit leave.\<close>

definition window :: "cursor \<Rightarrow> doc list \<Rightarrow> doc list" where
  "window cu ds = (if cu_limit cu = 0 then drop (cu_skip cu) ds else take (cu_limit cu) (drop (cu_skip cu) ds))"

lemma length_window: "length (window cu ds) \<le> length ds"
  by (auto simp: window_def intro: min.coboundedI1)

lemma list_fresh:
  assumes "cu_iterator cu = None" "\<not> cu_exhausted cu" "open_source tz alloc fuel c cu = PyOk src"
    "gives (matcher cu) fuel (co_data c) src ms" "length ms < n"
  shows "fst (cursor_list tz alloc fuel c n cu) = PyOk (projected cu (window cu ms))"
proof (rule list_opened)
  show "\<not> cu_exhausted cu" by fact
  show "py_bind (case cu_iterator cu of Some st \<Rightarrow> PyOk st | None \<Rightarrow> build_iterator tz alloc fuel c cu) PyOk =
    PyOk \<lparr>st_source = src, st_skip = cu_skip cu, st_limit = (if cu_limit cu = 0 then None else Some (cu_limit cu))\<rparr>"
    using assms(1,3) by (simp add: build_iterator_def)
  show "left_over (matcher cu) fuel (co_data c)
      \<lparr>st_source = src, st_skip = cu_skip cu, st_limit = (if cu_limit cu = 0 then None else Some (cu_limit cu))\<rparr> (window cu ms)"
    using assms(4) by (auto simp: left_over_def window_def)
  show "length (window cu ms) < n" using assms(5) length_window [of cu ms] by linarith
qed

text \<open>On a collection with documents \<open>L\<close>, an unsorted stream gives the matches.\<close>

lemma length_docs_of: "length (docs_of ms) = length ms"
  by (simp add: docs_of_def)

lemma holds_length: "coll_holds tz c L E \<Longrightarrow> length L \<le> E"
proof -
  assume c: "coll_holds tz c L E"
  then have "set (map fst L) \<subseteq> {..<E}" using coll_offsets(2) [OF c] by auto
  then have "card (set (map fst L)) \<le> card {..<E}" by (intro card_mono) simp_all
  then show ?thesis using distinct_card [OF coll_offsets(1) [OF c]] by simp
qed

lemma open_gives:
  assumes c: "coll_holds tz c L E" "E < fuel" and f: "answers tz (paths (co_indexes c)) L (cu_filter cu) q"
    and s: "cu_sort cu = None \<or> cu_sort cu = Some []"
  shows "\<exists>src. open_source tz (\<lambda>_. True) fuel c cu = PyOk src \<and>
    gives (matcher cu) fuel (co_data c) src (docs_of (filter (\<lambda>d. q (snd d)) L))"
proof -
  define f where "f = resolved_filter (cu_filter cu)"
  obtain b where m: "matches (PyDict []) f = PyOk b" "\<forall>(off, x) \<in> set L. matches x f = PyOk (q x)"
    using f by (auto simp: answers_def f_def Let_def)
  have h: "holds_docs (co_data c) L E" and ixs: "\<forall>ix \<in> set (co_indexes c). index_of tz E L ix"
    using c(1) by (simp_all add: coll_holds_def)
  obtain rs where rs: "holds_log (co_data c) rs" "E = rec_off rs (length rs)" "L = live_from rs 0"
    "\<forall>r \<in> set rs. fst r \<longrightarrow> py_decode (snd r) = PyOk (decoded (snd r))" using h by (auto simp: holds_docs_def)
  have "length rs < fuel" using rec_off_ge [of "length rs" rs] rs(2) c(2) by simp
  then have scan: "gives (matcher cu) fuel (co_data c) (Src_scan (-1)) (docs_of (filter (\<lambda>d. q (snd d)) L))"
    using gives_scan [OF rs(1,4) _ _ next_live_offset_holds(1) [OF rs(1)], of fuel "matcher cu" q] rs(3) m(2) by (simp add: f_def)
  show ?thesis
  proof (cases "eq_clause f")
    case None
    then show ?thesis using scan m(1) s by (auto simp add: open_source_def index_lookup_for_filter_def f_def [symmetric] Let_def)
  next
    case (Some cl)
    obtain fld v where cl: "cl = (fld, v)" by fastforce
    have "fld \<in> set (paths (co_indexes c)) \<longrightarrow> key_decides tz L fld v q"
      using f Some cl by (simp add: answers_def f_def Let_def)
    from lookup_eq_cases [OF ixs this, of "\<lambda>_. True"] show ?thesis
    proof (elim disjE exE conjE)
      fix offs assume o: "lookup_eq tz (\<lambda>_. True) fld v (co_indexes c) = PyOk (Some offs)" "set offs \<subseteq> fst ` set L"
        "length offs \<le> 1" "\<forall>d \<in> set L. q (snd d) \<longrightarrow> fst d \<in> set offs"
      then have "gives (matcher cu) fuel (co_data c) (Src_offsets offs) (docs_of (filter (\<lambda>d. q (snd d)) L))"
        using gives_offsets [OF h _ o(2), of "matcher cu" q fuel] m(2) filter_one [OF coll_offsets(1) [OF c(1)] o(2-4)]
        by (simp add: f_def)
      then show ?thesis
        using Some cl m(1) o(1) s by (auto simp add: open_source_def index_lookup_for_filter_def f_def [symmetric] Let_def)
    qed (use Some cl m(1) s scan in \<open>auto simp add: open_source_def index_lookup_for_filter_def f_def [symmetric] Let_def\<close>)
  qed
qed

lemma list_sorted:
  assumes "cu_iterator cu = None" "\<not> cu_exhausted cu" "cu_sort cu = Some (s # ss)"
    "iter_matches tz alloc fuel (cu_filter cu) c = PyOk ms" "sort_docs (s # ss) (docs_of ms) = PyOk ds" "length ds < n"
  shows "fst (cursor_list tz alloc fuel c n cu) = PyOk (projected cu (window cu ds))"
  by (rule list_fresh [OF assms(1,2) _ gives_docs assms(6)]) (use assms(3-5) in \<open>simp add: open_source_def\<close>)

section \<open>Sorting\<close>

lemma mset_insert_doc: "mset (insert_doc lt d es) = add_mset d (mset es)"
  by (induction es) auto

lemma mset_stable_sort: "mset (stable_sort lt ds) = mset ds"
  by (induction ds) (simp_all add: mset_insert_doc)

lemma set_stable_sort: "set (stable_sort lt ds) = set ds"
  using mset_stable_sort by (metis set_mset_mset)

lemma length_stable_sort: "length (stable_sort lt ds) = length ds"
  using mset_stable_sort by (metis size_mset)

text \<open>A total preorder.\<close>

definition strict_order :: "(doc \<Rightarrow> doc \<Rightarrow> bool) \<Rightarrow> doc set \<Rightarrow> bool" where
  "strict_order lt A \<longleftrightarrow> (\<forall>x \<in> A. \<forall>y \<in> A. lt x y \<longrightarrow> \<not> lt y x) \<and>
     (\<forall>x \<in> A. \<forall>y \<in> A. \<forall>z \<in> A. \<not> lt y x \<longrightarrow> \<not> lt z y \<longrightarrow> \<not> lt z x)"

lemma set_insert_doc: "set (insert_doc lt d es) = insert d (set es)"
  using mset_insert_doc by (metis set_mset_add_mset_insert set_mset_mset)

lemma sorted_insert_doc:
  "strict_order lt A \<Longrightarrow> insert d (set es) \<subseteq> A \<Longrightarrow> sorted_wrt (\<lambda>x y. \<not> lt y x) es \<Longrightarrow>
     sorted_wrt (\<lambda>x y. \<not> lt y x) (insert_doc lt d es)"
proof (induction es)
  case (Cons e es)
  show ?case
  proof (cases "lt e d")
    case True
    then have "\<not> lt d e" using Cons.prems(1,2) by (auto simp: strict_order_def)
    then show ?thesis using Cons True by (simp add: set_insert_doc)
  next
    case False
    have "\<not> lt y d" if "y \<in> set es" for y
    proof -
      have "\<not> lt y e" "d \<in> A" "e \<in> A" "y \<in> A" using Cons.prems(2,3) that by auto
      then show ?thesis using Cons.prems(1) False unfolding strict_order_def by blast
    qed
    then show ?thesis using Cons.prems(3) False by simp
  qed
qed simp

lemma sorted_stable_sort:
  assumes "strict_order lt A"
  shows "set ds \<subseteq> A \<Longrightarrow> sorted_wrt (\<lambda>x y. \<not> lt y x) (stable_sort lt ds)"
proof (induction ds)
  case (Cons d ds)
  then show ?case using sorted_insert_doc [OF assms, of d "stable_sort lt ds"] by (simp add: set_stable_sort)
qed simp

lemma filter_insert_doc:
  assumes "strict_order lt A"
  shows "insert d (set es) \<subseteq> A \<Longrightarrow> k \<in> A \<Longrightarrow> filter (\<lambda>x. \<not> lt x k \<and> \<not> lt k x) (insert_doc lt d es) =
    (if \<not> lt d k \<and> \<not> lt k d then d # filter (\<lambda>x. \<not> lt x k \<and> \<not> lt k x) es else filter (\<lambda>x. \<not> lt x k \<and> \<not> lt k x) es)"
proof (induction es)
  case (Cons e es)
  have "lt e k \<or> lt k e" if "lt e d" "\<not> lt d k" "\<not> lt k d"
  proof -
    have "d \<in> A" "e \<in> A" "k \<in> A" using Cons.prems by auto
    then show ?thesis using assms that unfolding strict_order_def by blast
  qed
  then show ?case using Cons by auto
qed simp

lemma filter_stable_sort:
  assumes "strict_order lt A"
  shows "set ds \<subseteq> A \<Longrightarrow> k \<in> A \<Longrightarrow> filter (\<lambda>x. \<not> lt x k \<and> \<not> lt k x) (stable_sort lt ds) = filter (\<lambda>x. \<not> lt x k \<and> \<not> lt k x) ds"
proof (induction ds)
  case (Cons d ds)
  then show ?case using filter_insert_doc [OF assms, of d "stable_sort lt ds" k] by (simp add: set_stable_sort)
qed simp

definition sort_less :: "nat list \<Rightarrow> bool \<Rightarrow> doc \<Rightarrow> doc \<Rightarrow> bool" where
  "sort_less fld reverse d e \<longleftrightarrow> (if reverse then key_less (sort_key fld e) (sort_key fld d) = Some True
     else key_less (sort_key fld d) (sort_key fld e) = Some True)"

lemma py_sort_total:
  assumes "\<And>d e. d \<in> set docs \<Longrightarrow> e \<in> set docs \<Longrightarrow> key_less (sort_key fld d) (sort_key fld e) \<noteq> None"
  shows "py_sort fld reverse docs = PyOk (stable_sort (sort_less fld reverse) docs)"
  using assms by (cases reverse) (auto simp: py_sort_def Let_def sort_less_def [abs_def])

lemma py_sort_length: "py_sort fld reverse docs = PyOk ds \<Longrightarrow> length ds = length docs"
  by (auto simp: py_sort_def Let_def length_stable_sort split: if_splits)

text \<open>
  What sorting promises, without the key of the code: values that Python can compare, in a total preorder
  (so no NaN among other numbers), and the order of documents that they give, where a document without a
  value comes after all others.
\<close>

definition value_less :: "pyval \<Rightarrow> pyval \<Rightarrow> bool" where
  "value_less v w \<longleftrightarrow> \<not> py_eq v w \<and> py_less v w = Some True"

definition ordered_values :: "pyval set \<Rightarrow> bool" where
  "ordered_values V \<longleftrightarrow> (\<forall>v \<in> V. \<forall>w \<in> V. py_eq v w \<or> py_less v w \<noteq> None) \<and>
     (\<forall>v \<in> V. \<forall>w \<in> V. value_less v w \<longrightarrow> \<not> value_less w v) \<and>
     (\<forall>u \<in> V. \<forall>v \<in> V. \<forall>w \<in> V. \<not> value_less v u \<longrightarrow> \<not> value_less w v \<longrightarrow> \<not> value_less w u)"

definition values_of :: "nat list \<Rightarrow> doc list \<Rightarrow> pyval set" where
  "values_of fld docs = {v. \<exists>d \<in> set docs. py_get d fld = Some v \<and> v \<noteq> PyNone}"

definition comes_before :: "nat list \<Rightarrow> doc \<Rightarrow> doc \<Rightarrow> bool" where
  "comes_before fld d e \<longleftrightarrow> (case (py_get d fld, py_get e fld) of
     (Some v, Some w) \<Rightarrow> if v = PyNone then False else if w = PyNone then True else value_less v w
   | (Some v, None) \<Rightarrow> v \<noteq> PyNone
   | _ \<Rightarrow> False)"

lemma none_eq: "py_eq PyNone PyNone"
  by (simp add: py_eq.simps)

lemma key_less_values:
  assumes "ordered_values (values_of fld docs)" "d \<in> set docs" "e \<in> set docs"
  shows "key_less (sort_key fld d) (sort_key fld e) = Some (comes_before fld d e)"
proof (cases "sort_key fld d = PyNone \<or> sort_key fld e = PyNone")
  case True
  then show ?thesis
    by (auto simp: key_less_def sort_key_def comes_before_def none_eq split: option.splits if_splits)
next
  case False
  then obtain v w where v: "py_get d fld = Some v" "v \<noteq> PyNone" "py_get e fld = Some w" "w \<noteq> PyNone"
    by (auto simp: sort_key_def split: option.splits)
  then have "v \<in> values_of fld docs" "w \<in> values_of fld docs" using assms(2,3) by (auto simp: values_of_def)
  then have "py_eq v w \<or> py_less v w \<noteq> None" using assms(1) unfolding ordered_values_def by blast
  then show ?thesis using v by (auto simp: key_less_def sort_key_def comes_before_def value_less_def)
qed

lemma sort_less_values:
  assumes "ordered_values (values_of fld docs)" "d \<in> set docs" "e \<in> set docs"
  shows "sort_less fld reverse d e \<longleftrightarrow> (if reverse then comes_before fld e d else comes_before fld d e)"
  using key_less_values [OF assms(1) assms(2,3)] key_less_values [OF assms(1) assms(3,2)] by (simp add: sort_less_def)

lemma strict_order_before:
  assumes o: "ordered_values (values_of fld docs)"
  shows "strict_order (comes_before fld) (set docs)"
proof -
  have v: "v \<in> values_of fld docs" if "d \<in> set docs" "py_get d fld = Some v" "v \<noteq> PyNone" for d v
    using that by (auto simp: values_of_def)
  have as: "value_less v w \<Longrightarrow> \<not> value_less w v" if "v \<in> values_of fld docs" "w \<in> values_of fld docs" for v w
    using o that unfolding ordered_values_def by blast
  have tr: "\<not> value_less v u \<Longrightarrow> \<not> value_less w v \<Longrightarrow> \<not> value_less w u"
    if "u \<in> values_of fld docs" "v \<in> values_of fld docs" "w \<in> values_of fld docs" for u v w
    using o that unfolding ordered_values_def by blast
  show ?thesis unfolding strict_order_def
  proof (intro conjI ballI impI)
    fix x y assume "x \<in> set docs" "y \<in> set docs" "comes_before fld x y"
    then show "\<not> comes_before fld y x" using v as by (auto simp: comes_before_def split: option.splits if_splits)
  next
    fix x y z assume m: "x \<in> set docs" "y \<in> set docs" "z \<in> set docs" and n: "\<not> comes_before fld y x" "\<not> comes_before fld z y"
    show "\<not> comes_before fld z x"
      using n tr [OF v [OF m(1)] v [OF m(2)] v [OF m(3)]] by (auto simp: comes_before_def split: option.splits if_splits)
  qed
qed

lemma strict_order_flip: "strict_order lt A \<Longrightarrow> strict_order (\<lambda>d e. lt e d) A"
  unfolding strict_order_def by blast

lemma strict_order_cong:
  assumes "strict_order lt A" "\<And>d e. d \<in> A \<Longrightarrow> e \<in> A \<Longrightarrow> lt' d e = lt d e"
  shows "strict_order lt' A"
  unfolding strict_order_def
proof (intro conjI ballI impI)
  show "\<not> lt' y x" if "x \<in> A" "y \<in> A" "lt' x y" for x y
    using assms that unfolding strict_order_def by blast
  show "\<not> lt' z x" if m: "x \<in> A" "y \<in> A" "z \<in> A" and n: "\<not> lt' y x" "\<not> lt' z y" for x y z
  proof -
    have "\<not> lt y x" "\<not> lt z y" using assms(2) m n by auto
    then have "\<not> lt z x" using assms(1) m unfolding strict_order_def by blast
    then show ?thesis using assms(2) m by simp
  qed
qed

lemma strict_order_sort:
  assumes o: "ordered_values (values_of fld docs)"
  shows "strict_order (sort_less fld reverse) (set docs)"
proof (cases reverse)
  case True
  then show ?thesis
    using sort_less_values [OF o] by (intro strict_order_cong [OF strict_order_flip [OF strict_order_before [OF o]]]) simp
next
  case False
  then show ?thesis using sort_less_values [OF o] by (intro strict_order_cong [OF strict_order_before [OF o]]) simp
qed

text \<open>
  C20. Sorting by a field whose values Python can compare, in a total preorder, does not raise, whatever
  documents have no value there or \<^verbatim>\<open>None\<close>: the result has the same documents, none comes before one that it
  stands behind (\<open>comes_before\<close>: by value, and those without one last; the other way round in a descending
  sort), and documents of which none comes before the other keep their order.
\<close>

theorem sort_exact:
  assumes o: "ordered_values (values_of fld docs)"
  shows "\<exists>sorted_docs. py_sort fld reverse docs = PyOk sorted_docs \<and> mset sorted_docs = mset docs \<and>
    sorted_wrt (\<lambda>d e. if reverse then \<not> comes_before fld d e else \<not> comes_before fld e d) sorted_docs \<and>
    (\<forall>k \<in> set docs. filter (\<lambda>d. \<not> comes_before fld d k \<and> \<not> comes_before fld k d) sorted_docs =
       filter (\<lambda>d. \<not> comes_before fld d k \<and> \<not> comes_before fld k d) docs)"
proof -
  let ?lt = "sort_less fld reverse"
  let ?s = "stable_sort ?lt docs"
  note lt = sort_less_values [OF o, where reverse = reverse]
  note so = strict_order_sort [OF o, of reverse]
  have set_s: "set ?s = set docs" by (rule set_stable_sort)
  have "py_sort fld reverse docs = PyOk ?s" by (rule py_sort_total) (simp add: key_less_values [OF o])
  moreover have "sorted_wrt (\<lambda>d e. if reverse then \<not> comes_before fld d e else \<not> comes_before fld e d) ?s"
    by (rule sorted_wrt_mono_rel [OF _ sorted_stable_sort [OF so order_refl]]) (use set_s lt in auto)
  moreover have "filter (\<lambda>d. \<not> comes_before fld d k \<and> \<not> comes_before fld k d) ?s =
      filter (\<lambda>d. \<not> comes_before fld d k \<and> \<not> comes_before fld k d) docs" if k: "k \<in> set docs" for k
  proof -
    have e: "\<not> comes_before fld d k \<and> \<not> comes_before fld k d \<longleftrightarrow> \<not> ?lt d k \<and> \<not> ?lt k d" if "d \<in> set docs" for d
      using lt [OF that k] lt [OF k that] by (cases reverse) auto
    have "filter (\<lambda>d. \<not> comes_before fld d k \<and> \<not> comes_before fld k d) ?s = filter (\<lambda>d. \<not> ?lt d k \<and> \<not> ?lt k d) ?s"
      using e set_s by (intro filter_cong refl) auto
    moreover have "filter (\<lambda>d. \<not> comes_before fld d k \<and> \<not> comes_before fld k d) docs = filter (\<lambda>d. \<not> ?lt d k \<and> \<not> ?lt k d) docs"
      using e by (intro filter_cong refl) auto
    ultimately show ?thesis using filter_stable_sort [OF so order_refl k] by simp
  qed
  ultimately show ?thesis using mset_stable_sort by blast
qed

text \<open>\<^verbatim>\<open>[{"a": 2}, {}, {"a": 1}]\<close> sorted by \<^verbatim>\<open>a\<close>.\<close>

definition a_doc :: "int \<Rightarrow> doc" where
  "a_doc v = [(PyStr [97], PyInt v)]"

lemma int_values: "py_less (PyInt u) (PyInt v) = Some (u < v)" "value_less (PyInt u) (PyInt v) \<longleftrightarrow> u < v"
  by (auto simp: value_less_def py_eq.simps py_less.simps num_less_def double_scale_def)

lemma ordered_ints: "V \<subseteq> range PyInt \<Longrightarrow> ordered_values V"
proof -
  assume V: "V \<subseteq> range PyInt"
  have i: "\<exists>i. v = PyInt i" if "v \<in> V" for v using V that by auto
  show ?thesis unfolding ordered_values_def by (intro conjI ballI) (auto dest!: i simp: int_values)
qed

lemma a_doc_order:
  "key_less (PyInt u) (PyInt v) = Some (u < v)" "key_less PyNone (PyInt v) = Some False" "key_less (PyInt v) PyNone = Some True"
  "key_less PyNone PyNone = Some False" "sort_key [97] (a_doc v) = PyInt v" "sort_key [97] [] = PyNone"
  by (auto simp: key_less_def py_eq.simps py_less.simps num_less_def double_scale_def sort_key_def py_get_def a_doc_def)

theorem sort_exact_witness:
  "\<exists>sorted_docs. py_sort [97] True [a_doc 2, [], a_doc 1] = PyOk sorted_docs \<and> mset sorted_docs = {#a_doc 2, [], a_doc 1#} \<and>
    sorted_wrt (\<lambda>d e. \<not> comes_before [97] d e) sorted_docs"
proof -
  have "values_of [97] [a_doc 2, [], a_doc 1] \<subseteq> range PyInt" by (auto simp: values_of_def py_get_def a_doc_def)
  from sort_exact [OF ordered_ints [OF this], of True] show ?thesis by auto
qed

lemma sort_docs_length: "sort_docs specs docs = PyOk ds \<Longrightarrow> length ds = length docs"
  by (induction specs arbitrary: ds) (auto simp: py_bind_PyOk py_sort_length)

text \<open>Sorting by several fields.\<close>

definition sortable :: "(nat list \<times> int) list option \<Rightarrow> doc list \<Rightarrow> bool" where
  "sortable spec docs \<longleftrightarrow> (\<forall>s \<in> set (case spec of None \<Rightarrow> [] | Some s \<Rightarrow> s). ordered_values (values_of (fst s) docs))"

lemma values_of_cong: "set ds = set docs \<Longrightarrow> values_of fld ds = values_of fld docs"
  by (simp add: values_of_def)

lemma sort_docs_total:
  "\<forall>s \<in> set specs. ordered_values (values_of (fst s) docs) \<Longrightarrow> \<exists>ds. sort_docs specs docs = PyOk ds \<and> mset ds = mset docs"
proof (induction specs)
  case (Cons s specs)
  obtain ds where ds: "sort_docs specs docs = PyOk ds" "mset ds = mset docs" using Cons by auto
  then have "set ds = set docs" using mset_eq_setD by blast
  then have "ordered_values (values_of (fst s) ds)" using Cons.prems values_of_cong [of ds docs "fst s"] by simp
  then have "py_sort (fst s) (snd s < 0) ds = PyOk (stable_sort (sort_less (fst s) (snd s < 0)) ds)"
    by (intro py_sort_total) (simp add: key_less_values)
  then show ?case using ds by (cases s) (simp add: mset_stable_sort)
qed simp

section \<open>Pages of a query\<close>

lemma pages_of:
  assumes c: "coll_holds tz c L E" "E < fuel" and f: "answerable (cu_filter cu) L" "index_sound (paths (co_indexes c)) L (cu_filter cu)"
    and cu: "cu_iterator cu = None" "\<not> cu_exhausted cu"
    and ds: "sort_docs (case cu_sort cu of None \<Rightarrow> [] | Some s \<Rightarrow> s) (docs_of (filter (\<lambda>d. matching (cu_filter cu) (snd d)) L)) = PyOk ds"
  shows "fst (cursor_list tz (\<lambda>_. True) fuel c fuel cu) = PyOk (projected cu (window cu ds))"
proof -
  let ?ms = "filter (\<lambda>d. matching (cu_filter cu) (snd d)) L"
  note a = answers_matching [OF c(1) f]
  have l: "length ds < fuel"
    using holds_length [OF c(1)] length_filter_le [of "\<lambda>d. matching (cu_filter cu) (snd d)" L] c(2) sort_docs_length [OF ds]
    unfolding length_docs_of by linarith
  show ?thesis
  proof (cases "cu_sort cu = None \<or> cu_sort cu = Some []")
    case True
    obtain src where "open_source tz (\<lambda>_. True) fuel c cu = PyOk src" "gives (matcher cu) fuel (co_data c) src (docs_of ?ms)"
      using open_gives [OF c a True] by auto
    moreover have "ds = docs_of ?ms" using ds True by auto
    ultimately show ?thesis using list_fresh [OF cu, of tz "\<lambda>_. True" fuel c] l by simp
  next
    case False
    then obtain s ss where s: "cu_sort cu = Some (s # ss)" by (cases "cu_sort cu") (auto simp: neq_Nil_conv)
    have "iter_matches tz (\<lambda>_. True) fuel (cu_filter cu) c = PyOk ?ms"
      using iter_matches_cases [OF c(1) _ a, of fuel "\<lambda>_. True"] c(2) by simp
    then show ?thesis using list_sorted [OF cu s _ _ l] ds s by simp
  qed
qed

text \<open>
  C8. Iterating a query on a collection with unique indexes that does not change meanwhile, for a filter
  that evaluates on its documents and that an index answers as a scan does (\<open>index_sound\<close>: no list is on
  the path of its equality, and numbers are of one type), and for sort fields whose values Python can
  compare in a total preorder: it gives the documents that match, in the order of their offsets or sorted
  as the cursor says, without the first \<open>skip\<close>, at most \<open>limit\<close> of them (all, for a limit of 0), each
  projected; and it ends.
\<close>

theorem cursor_pages:
  assumes "coll_holds tz c L E" "E < fuel" "answerable filt L" "index_sound (paths (co_indexes c)) L filt"
    and "new_Cursor filt projection skip limit spec = PyOk cu"
    and "sortable (cu_sort cu) (docs_of (filter (\<lambda>d. matching filt (snd d)) L))"
  shows "\<exists>ds. sort_docs (case cu_sort cu of None \<Rightarrow> [] | Some s \<Rightarrow> s) (docs_of (filter (\<lambda>d. matching filt (snd d)) L)) = PyOk ds \<and>
    mset ds = mset (docs_of (filter (\<lambda>d. matching filt (snd d)) L)) \<and>
    fst (cursor_list tz (\<lambda>_. True) fuel c fuel cu) =
      PyOk (map (\<lambda>d. apply_projection d (cu_projection cu))
        (if limit \<le> 0 then drop (nat skip) ds else take (nat limit) (drop (nat skip) ds)))"
proof -
  let ?ms = "docs_of (filter (\<lambda>d. matching filt (snd d)) L)"
  have cu': "cu_filter cu = filt" "cu_skip cu = nat skip" "cu_limit cu = nat limit" "cu_iterator cu = None"
    "\<not> cu_exhausted cu" using assms(5) by (auto simp: new_Cursor_def py_bind_PyOk)
  obtain ds where ds: "sort_docs (case cu_sort cu of None \<Rightarrow> [] | Some s \<Rightarrow> s) ?ms = PyOk ds" "mset ds = mset ?ms"
    using sort_docs_total [of "case cu_sort cu of None \<Rightarrow> [] | Some s \<Rightarrow> s" ?ms] assms(6) by (auto simp: sortable_def)
  have "fst (cursor_list tz (\<lambda>_. True) fuel c fuel cu) = PyOk (projected cu (window cu ds))"
    using pages_of [of tz c L E fuel cu ds] assms(1-4) cu' ds(1) by simp
  then show ?thesis using ds by (simp add: window_def cu')
qed

theorem cursor_pages_witness:
  "\<exists>c E cu. new_Cursor (eq_filter [97] (PyInt 5)) (Some (Proj_fields [[97]])) 0 3 (Some (Sort_str [97])) = PyOk cu \<and>
    fst (cursor_list utc (\<lambda>_. True) (Suc E) c (Suc E) cu) = PyOk [sample_doc_of 5]"
proof -
  obtain c E where c: "coll_holds utc c [(64, PyDict (sample_doc_of 5))] E" using sample_collection by blast
  obtain cu where cu: "new_Cursor (eq_filter [97] (PyInt 5)) (Some (Proj_fields [[97]])) 0 3 (Some (Sort_str [97])) = PyOk cu"
    "cu_projection cu = Some [([97], True)]" "cu_sort cu = Some [([97], 1)]"
    by (simp add: new_Cursor_def normalize_sort_def normalize_projection_def include_keys_def)
  have "[97 :: nat] \<noteq> id_path" by (simp add: id_path_def str_def)
  then have p: "apply_projection (sample_doc_of 5) (Some [([97], True)]) = sample_doc_of 5"
    by (simp add: apply_projection_def include_keys_def py_get_def sample_doc_of_def id_path_def id_key_def str_def)
  have "matching (eq_filter [97] (PyInt 5)) (PyDict (sample_doc_of 5))"
    using sample_filter(2) [of 5 5] by (simp add: matching_def)
  then have ms: "docs_of (filter (\<lambda>d. matching (eq_filter [97] (PyInt 5)) (snd d)) [(64, PyDict (sample_doc_of 5))]) = [sample_doc_of 5]"
    by (simp add: docs_of_def items_of_def)
  have "values_of [97] [sample_doc_of 5] \<subseteq> range PyInt" by (auto simp: values_of_def py_get_def sample_doc_of_def)
  then have "sortable (cu_sort cu) [sample_doc_of 5]" using cu(3) ordered_ints by (simp add: sortable_def)
  then obtain ds where ds: "mset ds = mset [sample_doc_of 5]" "fst (cursor_list utc (\<lambda>_. True) (Suc E) c (Suc E) cu) =
      PyOk (map (\<lambda>d. apply_projection d (cu_projection cu)) (take 3 (drop 0 ds)))"
    using cursor_pages [OF c lessI sample_query cu(1), unfolded ms] by auto
  from ds(1) have "ds = [sample_doc_of 5]" by simp
  then show ?thesis using ds(2) cu(1,2) p by (intro exI [of _ c] exI [of _ E] exI [of _ cu]) simp
qed

section \<open>A collection of two documents\<close>

lemma sample_raw:
  assumes v: "v \<in> {3, 5}"
  obtains raw where "py_encode (\<lambda>_. True) (PyDict (sample_doc_of v)) = PyOk raw" "length raw \<le> BSON_MAX_DOCUMENT_SIZE"
proof -
  have wf: "wf_items (sample_doc_of v)" using sample_doc_storable(1) by (simp add: storable_def)
  have es: "wire_items (sample_doc_of v) = Some (sample_elems v)"
    using v by (auto simp: sample_doc_of_def sample_elems_def sample_id_def sample_doc_keys wire_val.simps wire_scalar_def INT32_MAX_def)
  have l: "depth_elems (sample_elems v) \<le> BSON_MAX_DEPTH" "length (enc_doc (sample_elems v)) \<le> BSON_MAX_DOCUMENT_SIZE"
    by (simp_all add: sample_elems_def BSON_MAX_DEPTH_def BSON_MAX_DOCUMENT_SIZE_def)
  show thesis
  proof (rule py_encode_cases [OF wf, of "\<lambda>_. True"])
    fix e assume "(\<exists>c :: nat. \<not> True) \<or> (\<nexists>es. wire_items (sample_doc_of v) = Some es \<and> depth_elems es \<le> BSON_MAX_DEPTH \<and>
        length (enc_doc es) \<le> BSON_MAX_DOCUMENT_SIZE)"
    then show thesis using es l by simp
  qed (use that in blast)
qed

lemma append_sample:
  assumes "coll_holds utc c L E" "E < 2 ^ 37" "co_indexes c = []" "v \<in> {3, 5}"
  obtains c' E' where "coll_holds utc c' (L @ [(E, PyDict (sample_doc_of v))]) E'" "E < E'" "E' \<le> E + 1 + BSON_MAX_DOCUMENT_SIZE"
    "co_indexes c' = []"
proof -
  obtain raw where raw: "py_encode (\<lambda>_. True) (PyDict (sample_doc_of v)) = PyOk raw" "length raw \<le> BSON_MAX_DOCUMENT_SIZE"
    using sample_raw [OF assms(4)] .
  have "\<forall>fp \<in> set (paths (co_indexes c)). indexable utc (PyDict (sample_doc_of v)) fp" using assms(3) by simp
  from assms(1,2) sample_doc_storable(1) raw(1) this show thesis
  proof (cases rule: add_document_cases [where os = perfect_os])
    case (ok c' E')
    moreover have "co_indexes c' = []" using ok(4) assms(3) by (simp add: paths_def)
    ultimately show thesis using that [of c' E'] raw(2) by (simp add: sample_doc_storable(3))
  qed (use assms(3) in \<open>simp_all add: conflicts_def\<close>)
qed

lemma two_documents:
  obtains c E c' E' where "coll_holds utc c [(64, PyDict (sample_doc_of 5))] E" "64 < E" "E < E'"
    "coll_holds utc c' [(64, PyDict (sample_doc_of 5)), (E, PyDict (sample_doc_of 3))] E'" "co_indexes c' = []"
proof -
  obtain h where h: "holds_log h []" using open_created [OF perfect_os_succeeds] by blast
  have "holds_docs h [] 64" unfolding holds_docs_def using h by (intro exI [of _ "[]"]) (simp add: live_from_def rec_off_def)
  then have e: "coll_holds utc \<lparr>co_data = h, co_indexes = []\<rparr> [] 64" by (simp add: coll_holds_def)
  obtain c E where c: "coll_holds utc c [(64, PyDict (sample_doc_of 5))] E" "64 < E" "E \<le> 65 + BSON_MAX_DOCUMENT_SIZE" "co_indexes c = []"
    using append_sample [OF e, of 5] by auto
  have "E < 2 ^ 37" using c(3) by (simp add: BSON_MAX_DOCUMENT_SIZE_def)
  then obtain c' E' where "coll_holds utc c' [(64, PyDict (sample_doc_of 5)), (E, PyDict (sample_doc_of 3))] E'" "E < E'" "co_indexes c' = []"
    using append_sample [OF c(1) _ c(4), of 3] by (metis append_Cons append_Nil insertI1)
  then show thesis using that c by blast
qed

text \<open>The filter \<^verbatim>\<open>{}\<close> takes every document.\<close>

lemma no_filter: "matching (PyDict []) x" "answerable (PyDict []) L" "index_sound F L (PyDict [])" "eq_clause (resolved_filter (PyDict [])) = None"
proof -
  have m: "matches x (resolved_filter (PyDict [])) = PyOk True" for x by (simp add: resolved_filter_def matches.simps)
  show "matching (PyDict []) x" "answerable (PyDict []) L" by (auto simp: matching_def answerable_def m)
  show "index_sound F L (PyDict [])" "eq_clause (resolved_filter (PyDict [])) = None"
    by (simp_all add: index_sound_def resolved_filter_def eq_clause_def)
qed

section \<open>Writes between two documents\<close>

lemma gives_beyond:
  assumes c: "coll_holds tz c L E" "E < fuel" and m: "\<forall>(off, x) \<in> set L. p x = PyOk (q x)" and off: "off \<in> fst ` set L"
  shows "gives p fuel (co_data c) (Src_scan (int off)) (docs_of (filter (\<lambda>d. off < fst d \<and> q (snd d)) L))"
proof -
  obtain rs where rs: "holds_log (co_data c) rs" "E = rec_off rs (length rs)" "L = live_from rs 0"
    "\<forall>r \<in> set rs. fst r \<longrightarrow> py_decode (snd r) = PyOk (decoded (snd r))" using c(1) by (auto simp: coll_holds_def holds_docs_def)
  obtain i where i: "i < length rs" "off = rec_off rs i" using off rs(3) by (auto simp: live_from_mem)
  have l: "length rs < fuel" using rec_off_ge [of "length rs" rs] rs(2) c(2) by simp
  have b: "live_from rs (Suc i) = filter (\<lambda>d. off < fst d) L" using live_from_beyond [OF i(1)] i(2) rs(3) by simp
  have "gives p fuel (co_data c) (Src_scan (int off)) (docs_of (filter (\<lambda>d. q (snd d)) (live_from rs (Suc i))))"
    by (rule gives_scan [OF rs(1,4) l]) (use next_live_offset_holds(2) [OF rs(1) i(1)] i m b in auto)
  moreover have "filter (\<lambda>d. q (snd d)) (filter (\<lambda>d. off < fst d) L) = filter (\<lambda>d. off < fst d \<and> q (snd d)) L"
    by (simp add: conj_commute)
  ultimately show ?thesis using b by simp
qed

text \<open>Skipping on a scan leaves the source behind the last document that was read.\<close>

lemma skip_scan:
  assumes rs: "holds_log h rs" "\<forall>r \<in> set rs. fst r \<longrightarrow> py_decode (snd r) = PyOk (decoded (snd r))" "length rs < fuel"
  shows "CollectionHandle_next_live_offset prev h = (PyOk (map_option (rec_off rs) (first_live rs k)), h) \<Longrightarrow> k \<le> length rs \<Longrightarrow>
    \<forall>(off, x) \<in> set (live_from rs k). p x = PyOk (q x) \<Longrightarrow> n < length (filter (\<lambda>d. q (snd d)) (live_from rs k)) \<Longrightarrow>
    skip_pull p fuel h n (Src_scan prev) =
      PyOk (Some (items_of (snd (filter (\<lambda>d. q (snd d)) (live_from rs k) ! n)), Src_scan (int (fst (filter (\<lambda>d. q (snd d)) (live_from rs k) ! n)))))"
proof (induction n arbitrary: prev k)
  case (0 prev k)
  then obtain d ds where d: "filter (\<lambda>d. q (snd d)) (live_from rs k) = d # ds" by (cases "filter (\<lambda>d. q (snd d)) (live_from rs k)") auto
  have "scan_docs p fuel prev h = PyOk (d # ds)" using scan_log_docs [OF rs(1,2) 0(1,2) _ 0(3)] rs(3) d by simp
  then show ?case using d by (cases d) (simp add: pull_def scan_first_of first_of_def)
next
  case (Suc n prev k)
  then obtain d ds where d: "filter (\<lambda>d. q (snd d)) (live_from rs k) = d # ds" by (cases "filter (\<lambda>d. q (snd d)) (live_from rs k)") auto
  obtain j where j: "j < length rs" "k \<le> j" "fst d = rec_off rs j" "ds = filter (\<lambda>d. q (snd d)) (live_from rs (Suc j))"
    using live_from_split [OF d Suc.prems(2)] by blast
  have "scan_docs p fuel prev h = PyOk (d # ds)" using scan_log_docs [OF rs(1,2) Suc.prems(1,2) _ Suc.prems(3)] rs(3) d by simp
  then have pull: "pull p fuel h (Src_scan prev) = PyOk (Some (items_of (snd d), Src_scan (int (fst d))))"
    by (cases d) (simp add: pull_def scan_first_of first_of_def)
  have sub: "\<forall>(off, x) \<in> set (live_from rs (Suc j)). p x = PyOk (q x)" using Suc.prems(3) j(2) by (auto simp: live_from_def)
  have "n < length (filter (\<lambda>d. q (snd d)) (live_from rs (Suc j)))" using Suc.prems(4) d j(4) by simp
  from Suc.IH [OF _ _ sub this, of "int (fst d)"] show ?case
    using next_live_offset_holds(2) [OF rs(1) j(1)] j pull d by simp
qed

lemma lookup_no_index: "fld \<notin> set (paths ixs) \<Longrightarrow> lookup_eq tz alloc fld v ixs = PyOk None"
  by (induction ixs) auto

text \<open>No index answers the filter, so that it scans.\<close>

definition scans :: "pyval \<Rightarrow> nat list list \<Rightarrow> bool" where
  "scans filt F \<longleftrightarrow> (case eq_clause (resolved_filter filt) of None \<Rightarrow> True | Some (fld, v) \<Rightarrow> fld \<notin> set F)"

text \<open>
  C19. A cursor that scans (it is not sorted, and no index answers its filter) is no snapshot. It has given
  its first document, at \<open>off\<close>, after those that it skips, and then the collection changes; if that record
  is still alive, the cursor goes on with the documents that match in the collection as it is now, beyond
  \<open>off\<close>, up to what is left of its limit: it gives the documents that were added, and not those that were
  deleted. (A sorted cursor has read all its documents by then, one on an index has its offsets.)
\<close>

theorem cursor_sees_writes:
  assumes c: "coll_holds tz c L E" "E < fuel" "answerable filt L" and scans: "scans filt (paths (co_indexes c))"
    and first: "nat skip < length (filter (\<lambda>d. matching filt (snd d)) L)" "filter (\<lambda>d. matching filt (snd d)) L ! nat skip = (off, x)"
    and cu: "new_Cursor filt projection skip limit None = PyOk cu"
    and c': "coll_holds tz c' L' E'" "E' < fuel" "answerable filt L'" "off \<in> fst ` set L'"
  shows "\<exists>cu'. cursor_next tz (\<lambda>_. True) fuel c cu = (PyOk (Some (apply_projection (items_of x) (cu_projection cu))), cu') \<and>
    fst (cursor_list tz (\<lambda>_. True) fuel c' fuel cu') = PyOk (map (\<lambda>d. apply_projection d (cu_projection cu))
      (let later = docs_of (filter (\<lambda>d. off < fst d \<and> matching filt (snd d)) L') in
       if limit \<le> 0 then later else take (nat limit - 1) later))"
proof -
  have cu': "cu_filter cu = filt" "cu_skip cu = nat skip" "cu_limit cu = nat limit" "cu_iterator cu = None" "cu_sort cu = None"
    "\<not> cu_exhausted cu" using cu by (auto simp: new_Cursor_def normalize_sort_def py_bind_PyOk)
  have total: "\<forall>(off, x) \<in> set M. matches x (resolved_filter filt) = PyOk (matching filt x)" if M: "answerable filt M" for M
  proof clarify
    fix off x assume "(off, x) \<in> set M"
    then have "x \<in> insert (PyDict []) (snd ` set M)" by force
    then obtain b where "matches x (resolved_filter filt) = PyOk b" using M unfolding answerable_def by blast
    then show "matches x (resolved_filter filt) = PyOk (matching filt x)" by (simp add: matching_def)
  qed
  obtain b where b: "matches (PyDict []) (resolved_filter filt) = PyOk b" using c(3) by (auto simp: answerable_def)
  have "index_lookup_for_filter tz (\<lambda>_. True) (resolved_filter filt) (co_indexes c) = PyOk None"
    using scans lookup_no_index by (auto simp: scans_def index_lookup_for_filter_def split: option.splits)
  then have open_scan: "open_source tz (\<lambda>_. True) fuel c cu = PyOk (Src_scan (-1))"
    using b cu' by (simp add: open_source_def Let_def)
  obtain rs where rs: "holds_log (co_data c) rs" "E = rec_off rs (length rs)" "L = live_from rs 0"
    "\<forall>r \<in> set rs. fst r \<longrightarrow> py_decode (snd r) = PyOk (decoded (snd r))" using c(1) by (auto simp: coll_holds_def holds_docs_def)
  have "length rs < fuel" using rec_off_ge [of "length rs" rs] rs(2) c(2) by simp
  then have pull: "skip_pull (matcher cu) fuel (co_data c) (nat skip) (Src_scan (-1)) = PyOk (Some (items_of x, Src_scan (int off)))"
    using skip_scan [OF rs(1,4) _ next_live_offset_holds(1) [OF rs(1)], of fuel "matcher cu" "matching filt" "nat skip"]
      total [OF c(3)] first cu' rs(3) by simp
  define st where "st = \<lparr>st_source = Src_scan (int off), st_skip = 0,
    st_limit = (if nat limit = 0 then None else Some (nat limit - 1))\<rparr>"
  have n: "cursor_next tz (\<lambda>_. True) fuel c cu =
      (PyOk (Some (apply_projection (items_of x) (cu_projection cu))), cu\<lparr>cu_iterator := Some st\<rparr>)"
    using pull open_scan cu' by (simp add: cursor_next_def build_iterator_def stream_next_def st_def)
  let ?ms = "filter (\<lambda>d. off < fst d \<and> matching filt (snd d)) L'"
  let ?later = "if limit \<le> 0 then docs_of ?ms else take (nat limit - 1) (docs_of ?ms)"
  have g: "gives (matcher cu) fuel (co_data c') (Src_scan (int off)) (docs_of ?ms)"
    using gives_beyond [OF c'(1,2) _ c'(4), of "matcher cu" "matching filt"] total [OF c'(3)] cu' by simp
  have "length (docs_of ?ms) < fuel"
    using holds_length [OF c'(1)] length_filter_le [of "\<lambda>d. off < fst d \<and> matching filt (snd d)" L'] c'(2) unfolding length_docs_of by linarith
  then have l: "length ?later < fuel" by auto
  have "fst (cursor_list tz (\<lambda>_. True) fuel c' fuel (cu\<lparr>cu_iterator := Some st\<rparr>)) =
      PyOk (projected (cu\<lparr>cu_iterator := Some st\<rparr>) ?later)"
    by (rule list_opened [OF _ _ _ l, where st = st]) (use g cu' in \<open>auto simp: st_def left_over_def\<close>)
  then show ?thesis using n by (simp add: Let_def)
qed

theorem cursor_sees_writes_witness:
  "\<exists>c c' E0 E cu cu'. new_Cursor (PyDict []) None 0 0 None = PyOk cu \<and> coll_holds utc c [(64, PyDict (sample_doc_of 5))] E0 \<and>
    fst (cursor_next utc (\<lambda>_. True) (Suc E) c cu) = PyOk (Some (sample_doc_of 5)) \<and>
    fst (cursor_list utc (\<lambda>_. True) (Suc E) c' (Suc E) cu') = PyOk [sample_doc_of 3]"
proof -
  obtain c E0 c' E where c: "coll_holds utc c [(64, PyDict (sample_doc_of 5))] E0" "64 < E0" "E0 < E"
    "coll_holds utc c' [(64, PyDict (sample_doc_of 5)), (E0, PyDict (sample_doc_of 3))] E" by (rule two_documents)
  have "\<exists>cu. new_Cursor (PyDict []) None 0 0 None = PyOk cu \<and> cu_projection cu = None"
    by (simp add: new_Cursor_def normalize_projection_def normalize_sort_def)
  then obtain cu where cu: "new_Cursor (PyDict []) None 0 0 None = PyOk cu" "cu_projection cu = None" by blast
  have p: "apply_projection d None = d" for d by (simp add: apply_projection_def)
  have f: "filter (\<lambda>d. matching (PyDict []) (snd d)) [(64, PyDict (sample_doc_of 5))] = [(64, PyDict (sample_doc_of 5))]"
    by (simp add: no_filter(1))
  have E: "E0 < Suc E" using c(3) by simp
  have skip: "nat 0 < length (filter (\<lambda>d. matching (PyDict []) (snd d)) [(64, PyDict (sample_doc_of 5))])" unfolding f by simp
  have first: "filter (\<lambda>d. matching (PyDict []) (snd d)) [(64, PyDict (sample_doc_of 5))] ! nat 0 = (64, PyDict (sample_doc_of 5))"
    unfolding f by simp
  have sc: "scans (PyDict []) (paths (co_indexes c))" by (simp add: scans_def no_filter(4))
  have off: "64 \<in> fst ` set [(64, PyDict (sample_doc_of 5)), (E0, PyDict (sample_doc_of 3))]" by simp
  obtain cu' where cu': "cursor_next utc (\<lambda>_. True) (Suc E) c cu =
      (PyOk (Some (apply_projection (items_of (PyDict (sample_doc_of 5))) (cu_projection cu))), cu')"
    "fst (cursor_list utc (\<lambda>_. True) (Suc E) c' (Suc E) cu') =
      PyOk (map (\<lambda>d. apply_projection d (cu_projection cu)) (docs_of (filter (\<lambda>d. 64 < fst d \<and> matching (PyDict []) (snd d))
        [(64, PyDict (sample_doc_of 5)), (E0, PyDict (sample_doc_of 3))])))"
    using cursor_sees_writes [OF c(1) E no_filter(2) sc skip first cu(1) c(4) lessI no_filter(2) off]
    unfolding Let_def if_P [OF order_refl] by blast
  have "coll_holds utc c [(64, PyDict (sample_doc_of 5))] E0" by (rule c)
  moreover have "fst (cursor_next utc (\<lambda>_. True) (Suc E) c cu) = PyOk (Some (sample_doc_of 5))"
    using cu'(1) cu(2) p by (simp add: items_of_def)
  moreover have "fst (cursor_list utc (\<lambda>_. True) (Suc E) c' (Suc E) cu') = PyOk [sample_doc_of 3]"
    using cu'(2) cu(2) p c(2) by (simp add: items_of_def docs_of_def no_filter(1))
  ultimately show ?thesis using cu(1) by blast
qed

section \<open>Indexing a cursor\<close>

text \<open>
  Indexing a cursor that was sorted in descending order gives the first document of the ascending
  order: the clone that it reads from has the field, but not the direction.
\<close>

theorem index_forgets_direction:
  assumes cu: "new_Cursor filt None 0 0 None = PyOk cu" "cursor_sort (Sort_str fld) (- 1) cu = PyOk cu'"
    and ms: "iter_matches tz alloc fuel filt c = PyOk ms" "length ms < fuel"
    and up: "py_sort fld False (docs_of ms) = PyOk (first # rest)" and down: "py_sort fld True (docs_of ms) = PyOk descending"
  shows "fst (cursor_list tz alloc fuel c fuel cu') = PyOk descending \<and> cursor_index tz alloc fuel c 0 cu' = PyOk first"
proof -
  have l: "length descending < fuel" "length (first # rest) < fuel"
    using py_sort_length [OF up] py_sort_length [OF down] ms(2) by (simp_all add: length_docs_of)
  have cu': "cu' = \<lparr>cu_filter = filt, cu_projection = None, cu_raw_projection = None, cu_skip = 0, cu_limit = 0,
      cu_sort = Some [(fld, - 1)], cu_raw_sort = Some (Sort_str fld), cu_iterator = None, cu_exhausted = False\<rparr>"
    using cu by (auto simp: new_Cursor_def normalize_projection_def normalize_sort_def cursor_sort_def configure_def)
  define cl where "cl = \<lparr>cu_filter = filt, cu_projection = None, cu_raw_projection = None, cu_skip = 0, cu_limit = 1,
      cu_sort = Some [(fld, 1)], cu_raw_sort = Some (Sort_str fld), cu_iterator = None, cu_exhausted = False\<rparr>"
  have "fst (cursor_list tz alloc fuel c fuel cu') = PyOk (projected cu' (window cu' descending))"
    by (rule list_sorted [OF _ _ _ _ _ l(1), where s = "(fld, - 1)" and ss = "[]"]) (use ms(1) down in \<open>simp_all add: cu'\<close>)
  moreover have "fst (cursor_list tz alloc fuel c fuel cl) = PyOk (projected cl (window cl (first # rest)))"
    by (rule list_sorted [OF _ _ _ _ _ l(2), where s = "(fld, 1)" and ss = "[]"]) (use ms(1) up in \<open>simp_all add: cl_def\<close>)
  then have "cursor_index tz alloc fuel c 0 cu' = PyOk first"
    by (simp add: cursor_index_def cursor_clone_def cu' new_Cursor_def normalize_projection_def normalize_sort_def cursor_skip_def
        cursor_limit_def configure_def cursor_to_list_def cl_def window_def apply_projection_def)
  ultimately show ?thesis by (simp add: cu' window_def apply_projection_def)
qed

theorem index_forgets_direction_witness:
  "\<exists>c E cu. fst (cursor_list utc (\<lambda>_. True) (Suc E) c (Suc E) cu) = PyOk [sample_doc_of 5, sample_doc_of 3] \<and>
    cursor_index utc (\<lambda>_. True) (Suc E) c 0 cu = PyOk (sample_doc_of 3)"
proof -
  obtain c0 E0 c E where c: "coll_holds utc c0 [(64, PyDict (sample_doc_of 5))] E0" "64 < E0" "E0 < E"
    "coll_holds utc c [(64, PyDict (sample_doc_of 5)), (E0, PyDict (sample_doc_of 3))] E" by (rule two_documents)
  let ?L = "[(64, PyDict (sample_doc_of 5)), (E0, PyDict (sample_doc_of 3))]"
  define cu where "cu = \<lparr>cu_filter = PyDict [], cu_projection = None, cu_raw_projection = None, cu_skip = 0, cu_limit = 0,
      cu_sort = Some [([97], - 1)], cu_raw_sort = Some (Sort_str [97]), cu_iterator = None, cu_exhausted = False\<rparr>"
  have cu: "new_Cursor (PyDict []) None 0 0 None = PyOk (cu\<lparr>cu_sort := None, cu_raw_sort := None\<rparr>)"
    "cursor_sort (Sort_str [97]) (- 1) (cu\<lparr>cu_sort := None, cu_raw_sort := None\<rparr>) = PyOk cu"
    by (simp_all add: new_Cursor_def normalize_projection_def normalize_sort_def cursor_sort_def configure_def cu_def)
  have ms: "iter_matches utc (\<lambda>_. True) (Suc E) (PyDict []) c = PyOk ?L"
    using iter_matches_cases [OF c(4) _ answers_matching [OF c(4) no_filter(2,3)], of "Suc E" "\<lambda>_. True"] by (simp add: no_filter(1))
  have l: "length ?L < Suc E" using c(2,3) by simp
  have k: "sort_key [97] (sample_doc_of v) = PyInt v" for v by (simp add: sort_key_def py_get_def sample_doc_of_def)
  have "py_sort [97] r (docs_of ?L) = PyOk (stable_sort (sort_less [97] r) (docs_of ?L))" for r
    by (rule py_sort_total) (auto simp: docs_of_def items_of_def k a_doc_order)
  then have s: "py_sort [97] False (docs_of ?L) = PyOk [sample_doc_of 3, sample_doc_of 5]"
    "py_sort [97] True (docs_of ?L) = PyOk [sample_doc_of 5, sample_doc_of 3]"
    by (simp_all add: docs_of_def items_of_def sort_less_def k a_doc_order)
  from index_forgets_direction [OF cu ms l s] show ?thesis
    by (intro exI [of _ c] exI [of _ E] exI [of _ cu]) simp
qed

text \<open>
  A slice whose ends are equal gives every document from there on, not none: its limit is 0, which is
  taken for no limit.
\<close>

theorem empty_slice_unlimited:
  assumes "coll_holds tz c L E" "E < fuel" "answerable filt L" "index_sound (paths (co_indexes c)) L filt"
    and cu: "new_Cursor filt None 0 0 None = PyOk cu" and n: "0 \<le> n"
  shows "cursor_slice tz (\<lambda>_. True) fuel c (Some n) (Some n) cu =
    PyOk (drop (nat n) (docs_of (filter (\<lambda>d. matching filt (snd d)) L)))"
proof -
  have cu': "cu = \<lparr>cu_filter = filt, cu_projection = None, cu_raw_projection = None, cu_skip = 0, cu_limit = 0,
      cu_sort = None, cu_raw_sort = None, cu_iterator = None, cu_exhausted = False\<rparr>"
    using cu by (auto simp: new_Cursor_def normalize_projection_def normalize_sort_def)
  have "fst (cursor_list tz (\<lambda>_. True) fuel c fuel (cu\<lparr>cu_skip := nat n\<rparr>)) =
      PyOk (drop (nat n) (docs_of (filter (\<lambda>d. matching filt (snd d)) L)))"
    using pages_of [of tz c L E fuel "cu\<lparr>cu_skip := nat n\<rparr>"] assms(1-4) by (simp add: cu' window_def apply_projection_def)
  then show ?thesis
    using n by (simp add: cursor_slice_def cursor_clone_def cu' new_Cursor_def normalize_projection_def normalize_sort_def cursor_skip_def
        configure_def cursor_to_list_def Let_def)
qed

theorem empty_slice_unlimited_witness:
  "\<exists>c E cu. new_Cursor (PyDict []) None 0 0 None = PyOk cu \<and>
    cursor_slice utc (\<lambda>_. True) (Suc E) c (Some 1) (Some 1) cu = PyOk [sample_doc_of 3]"
proof -
  obtain c0 E0 c E where c: "coll_holds utc c0 [(64, PyDict (sample_doc_of 5))] E0" "64 < E0" "E0 < E"
    "coll_holds utc c [(64, PyDict (sample_doc_of 5)), (E0, PyDict (sample_doc_of 3))] E" by (rule two_documents)
  obtain cu where cu: "new_Cursor (PyDict []) None 0 0 None = PyOk cu"
    by (simp add: new_Cursor_def normalize_projection_def normalize_sort_def)
  from empty_slice_unlimited [OF c(4) lessI no_filter(2,3) cu, of 1] show ?thesis
    using cu by (intro exI [of _ c] exI [of _ E] exI [of _ cu]) (simp add: no_filter(1) docs_of_def items_of_def)
qed

end
