(* ===== verification/Python_Client.thy ===== *)
theory Python_Client
  imports Document_Collection "HOL-Library.List_Lexorder"
begin

text \<open>
  The client (python/bsondb/client.py) and what index.py and collection.py do with the files of a
  database: a directory with a data file for each collection and index files beside it. The client
  caches the handles that it has opened, and the names of the index files of a collection.

  A file is known by its inode: two handles on the same inode share their content, and a file that is
  removed keeps its inode as long as a handle is open. What a file holds is the subject of the theories on
  collections and indexes. \<open>opens\<close> says how the operating system and the engine answer to an open;
  removing and closing a file succeed. Names have no slashes.
\<close>

section \<open>Names of files\<close>

type_synonym name = "nat list"

definition data_file :: "name \<Rightarrow> name" where
  "data_file coll = coll @ str ''.cbd''"

definition index_file_path :: "name \<Rightarrow> name \<Rightarrow> name" where
  "index_file_path coll idx = coll @ str ''.'' @ idx @ str ''.bidx''"

definition starts_with :: "name \<Rightarrow> name \<Rightarrow> bool" where
  "starts_with p s \<longleftrightarrow> take (length p) s = p"

definition ends_with :: "name \<Rightarrow> name \<Rightarrow> bool" where
  "ends_with p s \<longleftrightarrow> length p \<le> length s \<and> drop (length s - length p) s = p"

definition is_index_file :: "name \<Rightarrow> name \<Rightarrow> bool" where
  "is_index_file coll fname \<longleftrightarrow> starts_with (coll @ str ''.'') fname \<and> ends_with (str ''.bidx'') fname"

text \<open>\<^verbatim>\<open>fname[len(prefix) : -len(".bidx")]\<close>.\<close>

definition index_name_of :: "name \<Rightarrow> name \<Rightarrow> name" where
  "index_name_of coll fname = drop (Suc (length coll)) (take (length fname - 5) fname)"

definition default_index_name :: "name \<Rightarrow> bool \<Rightarrow> name" where
  "default_index_name fp descending = fp @ str (if descending then ''_-1'' else ''_1'')"

section \<open>The client\<close>

type_synonym fpath = "name \<times> name"

record client =
  cl_dirs :: "name list"
  cl_files :: "(fpath \<times> nat) list"
  cl_next :: nat
  cl_handles :: "((name \<times> name) \<times> nat) list"
  cl_index_handles :: "((name \<times> name \<times> name) \<times> nat) list"
  cl_listing :: "((name \<times> name) \<times> name list) list"
  cl_open :: "nat list"

text \<open>How an open ends: where it fails, a missing file may have been made nevertheless.\<close>

datatype open_result = Opens | Fails py_error bool

definition file_exists :: "fpath \<Rightarrow> client \<Rightarrow> bool" where
  "file_exists f cl \<longleftrightarrow> f \<in> fst ` set (cl_files cl)"

definition touch :: "fpath \<Rightarrow> client \<Rightarrow> client" where
  "touch f cl = (if file_exists f cl then cl else cl\<lparr>cl_files := cl_files cl @ [(f, cl_next cl)], cl_next := Suc (cl_next cl)\<rparr>)"

definition remove_file :: "fpath \<Rightarrow> client \<Rightarrow> client" where
  "remove_file f cl = cl\<lparr>cl_files := filter (\<lambda>e. fst e \<noteq> f) (cl_files cl)\<rparr>"

definition make_dir :: "name \<Rightarrow> client \<Rightarrow> client" where
  "make_dir db cl = (if db \<in> set (cl_dirs cl) then cl else cl\<lparr>cl_dirs := cl_dirs cl @ [db]\<rparr>)"

definition list_files :: "name \<Rightarrow> client \<Rightarrow> name list" where
  "list_files db cl = map (\<lambda>e. snd (fst e)) (filter (\<lambda>e. fst (fst e) = db) (cl_files cl))"

definition index_fnames :: "name \<Rightarrow> name \<Rightarrow> client \<Rightarrow> name list" where
  "index_fnames db coll cl = filter (is_index_file coll) (list_files db cl)"

definition open_file :: "(fpath \<Rightarrow> open_result) \<Rightarrow> fpath \<Rightarrow> client \<Rightarrow> nat py \<times> client" where
  "open_file opens f cl = (case opens f of
     Opens \<Rightarrow> let cl' = touch f cl; h = the (map_of (cl_files cl') f) in (PyOk h, cl'\<lparr>cl_open := h # cl_open cl'\<rparr>)
   | Fails e made \<Rightarrow> (PyRaise e, if made then touch f cl else cl))"

definition close_handle :: "nat \<Rightarrow> client \<Rightarrow> client" where
  "close_handle h cl = cl\<lparr>cl_open := remove1 h (cl_open cl)\<rparr>"

section \<open>Handles of collections\<close>

definition get_handle :: "(fpath \<Rightarrow> open_result) \<Rightarrow> name \<Rightarrow> name \<Rightarrow> client \<Rightarrow> nat py \<times> client" where
  "get_handle opens db coll cl = (case map_of (cl_handles cl) (db, coll) of
     Some h \<Rightarrow> (PyOk h, cl)
   | None \<Rightarrow> (case open_file opens (db, data_file coll) (make_dir db cl) of
         (PyOk h, cl') \<Rightarrow> (PyOk h, cl'\<lparr>cl_handles := cl_handles cl' @ [((db, coll), h)]\<rparr>)
       | r \<Rightarrow> r))"

definition invalidate_handle :: "name \<Rightarrow> name \<Rightarrow> client \<Rightarrow> client" where
  "invalidate_handle db coll cl = (case map_of (cl_handles cl) (db, coll) of
     None \<Rightarrow> cl
   | Some h \<Rightarrow> close_handle h (cl\<lparr>cl_handles := filter (\<lambda>e. fst e \<noteq> (db, coll)) (cl_handles cl)\<rparr>))"

section \<open>Handles of indexes\<close>

definition invalidate_index_listing :: "name \<Rightarrow> name \<Rightarrow> client \<Rightarrow> client" where
  "invalidate_index_listing db coll cl = cl\<lparr>cl_listing := filter (\<lambda>e. fst e \<noteq> (db, coll)) (cl_listing cl)\<rparr>"

definition pop_index_handle :: "name \<times> name \<times> name \<Rightarrow> client \<Rightarrow> client" where
  "pop_index_handle k cl = (case map_of (cl_index_handles cl) k of
     None \<Rightarrow> cl
   | Some h \<Rightarrow> close_handle h (cl\<lparr>cl_index_handles := filter (\<lambda>e. fst e \<noteq> k) (cl_index_handles cl)\<rparr>))"

definition invalidate_index_handle :: "name \<Rightarrow> name \<Rightarrow> name \<Rightarrow> client \<Rightarrow> client" where
  "invalidate_index_handle db coll idx cl = invalidate_index_listing db coll (pop_index_handle (db, coll, idx) cl)"

definition open_index :: "(fpath \<Rightarrow> open_result) \<Rightarrow> name \<Rightarrow> name \<Rightarrow> name \<Rightarrow> client \<Rightarrow> nat py \<times> client" where
  "open_index opens db coll fname cl =
     (let k = (db, coll, index_name_of coll fname) in
      case map_of (cl_index_handles cl) k of
        Some h \<Rightarrow> (PyOk h, cl)
      | None \<Rightarrow> (case open_file opens (db, fname) cl of
            (PyOk h, cl') \<Rightarrow> (PyOk h, cl'\<lparr>cl_index_handles := cl_index_handles cl' @ [(k, h)]\<rparr>)
          | r \<Rightarrow> r))"

fun open_indexes :: "(fpath \<Rightarrow> open_result) \<Rightarrow> name \<Rightarrow> name \<Rightarrow> name list \<Rightarrow> client \<Rightarrow> (name \<times> nat) list py \<times> client" where
  "open_indexes opens db coll [] cl = (PyOk [], cl)"
| "open_indexes opens db coll (fname # fnames) cl = (case open_index opens db coll fname cl of
     (PyOk h, cl') \<Rightarrow> (case open_indexes opens db coll fnames cl' of
         (PyOk hs, cl'') \<Rightarrow> (PyOk ((index_name_of coll fname, h) # hs), cl'')
       | r \<Rightarrow> r)
   | (r, cl') \<Rightarrow> (py_raise r, cl'))"

definition get_index_handles ::
    "(fpath \<Rightarrow> open_result) \<Rightarrow> name \<Rightarrow> name \<Rightarrow> client \<Rightarrow> (name \<times> nat) list py \<times> client" where
  "get_index_handles opens db coll cl = (case map_of (cl_listing cl) (db, coll) of
     Some fnames \<Rightarrow> open_indexes opens db coll fnames cl
   | None \<Rightarrow> let fnames = index_fnames db coll cl in
       open_indexes opens db coll fnames (cl\<lparr>cl_listing := cl_listing cl @ [((db, coll), fnames)]\<rparr>))"

section \<open>Dropping and listing\<close>

definition drop_collection :: "name \<Rightarrow> name \<Rightarrow> client \<Rightarrow> client" where
  "drop_collection db coll cl =
     (let cl = remove_file (db, data_file coll) (invalidate_handle db coll cl);
          cl = fold pop_index_handle (filter (\<lambda>(d, c, i). d = db \<and> c = coll) (map fst (cl_index_handles cl))) cl;
          cl = fold (\<lambda>fname. remove_file (db, fname)) (index_fnames db coll cl) cl in
      invalidate_index_listing db coll cl)"

definition drop_database :: "name \<Rightarrow> client \<Rightarrow> client" where
  "drop_database db cl = (if db \<notin> set (cl_dirs cl) then cl
     else cl\<lparr>cl_dirs := filter (\<lambda>d. d \<noteq> db) (cl_dirs cl), cl_files := filter (\<lambda>e. fst (fst e) \<noteq> db) (cl_files cl)\<rparr>)"

definition list_collection_names :: "name \<Rightarrow> client \<Rightarrow> name list py" where
  "list_collection_names db cl = (if db \<notin> set (cl_dirs cl) then PyRaise OSError
     else PyOk (map (\<lambda>fname. take (length fname - 4) fname) (filter (ends_with (str ''.cbd'')) (list_files db cl))))"

definition list_database_names :: "client \<Rightarrow> name list" where
  "list_database_names cl = cl_dirs cl"

definition close_client :: "client \<Rightarrow> client" where
  "close_client cl = (fold close_handle (map snd (cl_handles cl) @ map snd (cl_index_handles cl)) cl)
     \<lparr>cl_handles := [], cl_index_handles := []\<rparr>"

section \<open>Index files\<close>

text \<open>
  What becomes of a new index file: it is built, or the build raises and removes it, or the file could not
  be set up, and may be left behind.
\<close>

datatype build_result = Built | Not_built py_error bool

definition create_index_on ::
    "(fpath \<Rightarrow> open_result) \<Rightarrow> name \<Rightarrow> name \<Rightarrow> name \<Rightarrow> bool \<Rightarrow> build_result \<Rightarrow> client \<Rightarrow> unit py \<times> client" where
  "create_index_on opens db coll idx same_spec built cl =
     (let f = (db, index_file_path coll idx) in
      if file_exists f cl then (case open_file opens f cl of
          (PyOk h, cl') \<Rightarrow> ((if same_spec then PyOk () else PyRaise OperationFailure), close_handle h cl')
        | (r, cl') \<Rightarrow> (py_raise r, cl'))
      else (case get_handle opens db coll cl of
          (PyOk _, cl') \<Rightarrow> (case built of
              Built \<Rightarrow> (PyOk (), invalidate_index_listing db coll (touch f cl'))
            | Not_built e left_behind \<Rightarrow> (PyRaise e, if left_behind then touch f cl' else cl'))
        | (r, cl') \<Rightarrow> (py_raise r, cl')))"

text \<open>\<^verbatim>\<open>_resolve_index_name_for_drop\<close>, for a string.\<close>

definition resolve_index_name :: "name \<Rightarrow> name \<Rightarrow> name \<Rightarrow> client \<Rightarrow> name" where
  "resolve_index_name db coll s cl =
     (if file_exists (db, index_file_path coll s) cl then s
      else if file_exists (db, index_file_path coll (default_index_name s False)) cl then default_index_name s False
      else if file_exists (db, index_file_path coll (default_index_name s True)) cl then default_index_name s True
      else s)"

definition drop_index :: "name \<Rightarrow> name \<Rightarrow> name \<Rightarrow> client \<Rightarrow> unit py \<times> client" where
  "drop_index db coll s cl =
     (let idx = resolve_index_name db coll s cl;
          f = (db, index_file_path coll idx);
          cl' = invalidate_index_handle db coll idx cl in
      if \<not> file_exists f cl' then (PyRaise OperationFailure, cl')
      else (PyOk (), invalidate_index_listing db coll (remove_file f cl')))"

fun drop_each :: "name \<Rightarrow> name \<Rightarrow> name list \<Rightarrow> client \<Rightarrow> unit py \<times> client" where
  "drop_each db coll [] cl = (PyOk (), cl)"
| "drop_each db coll (idx # idxs) cl = (case drop_index db coll idx cl of
     (PyOk _, cl') \<Rightarrow> drop_each db coll idxs cl'
   | r \<Rightarrow> r)"

text \<open>\<^verbatim>\<open>list_indexes\<close>: every index file is opened to read its header, and closed again.\<close>

fun read_indexes :: "(fpath \<Rightarrow> open_result) \<Rightarrow> name \<Rightarrow> name \<Rightarrow> name list \<Rightarrow> client \<Rightarrow> name list py \<times> client" where
  "read_indexes opens db coll [] cl = (PyOk [], cl)"
| "read_indexes opens db coll (fname # fnames) cl = (case open_file opens (db, fname) cl of
     (PyOk h, cl') \<Rightarrow> (case read_indexes opens db coll fnames (close_handle h cl') of
         (PyOk idxs, cl'') \<Rightarrow> (PyOk (index_name_of coll fname # idxs), cl'')
       | r \<Rightarrow> r)
   | (r, cl') \<Rightarrow> (py_raise r, cl'))"

definition list_indexes :: "(fpath \<Rightarrow> open_result) \<Rightarrow> name \<Rightarrow> name \<Rightarrow> client \<Rightarrow> name list py \<times> client" where
  "list_indexes opens db coll cl = read_indexes opens db coll (sort (index_fnames db coll cl)) cl"

definition drop_indexes :: "(fpath \<Rightarrow> open_result) \<Rightarrow> name \<Rightarrow> name \<Rightarrow> client \<Rightarrow> unit py \<times> client" where
  "drop_indexes opens db coll cl = (case list_indexes opens db coll cl of
     (PyOk idxs, cl') \<Rightarrow> drop_each db coll idxs cl'
   | (r, cl') \<Rightarrow> (py_raise r, cl'))"

section \<open>Compaction\<close>

fun create_each ::
    "(fpath \<Rightarrow> open_result) \<Rightarrow> name \<Rightarrow> name \<Rightarrow> (name \<Rightarrow> build_result) \<Rightarrow> name list \<Rightarrow> client \<Rightarrow> unit py \<times> client" where
  "create_each opens db coll builds [] cl = (PyOk (), cl)"
| "create_each opens db coll builds (idx # idxs) cl = (case create_index_on opens db coll idx True (builds idx) cl of
     (PyOk _, cl') \<Rightarrow> create_each opens db coll builds idxs cl'
   | r \<Rightarrow> r)"

definition tmp_file :: "name \<Rightarrow> name" where
  "tmp_file coll = data_file coll @ str ''.compact_tmp''"

text \<open>\<^verbatim>\<open>os.replace\<close>.\<close>

definition replace_file :: "fpath \<Rightarrow> fpath \<Rightarrow> client \<Rightarrow> client" where
  "replace_file src dst cl = (case map_of (cl_files cl) src of
     None \<Rightarrow> cl
   | Some i \<Rightarrow> cl\<lparr>cl_files := filter (\<lambda>e. fst e \<noteq> src \<and> fst e \<noteq> dst) (cl_files cl) @ [(dst, i)]\<rparr>)"

text \<open>
  \<^verbatim>\<open>compact\<close>: \<open>copied\<close> is the outcome of copying the live records, \<open>rename\<close> the name of the index
  that replaces one, which is the default name of its field and direction. The handle of the temporary file
  is local to the call: where the copy raises, the code leaves closing it to its reference count, and here it
  is not among the open handles.
\<close>

definition compact ::
    "(fpath \<Rightarrow> open_result) \<Rightarrow> name \<Rightarrow> name \<Rightarrow> unit py \<Rightarrow> (name \<Rightarrow> name) \<Rightarrow> (name \<Rightarrow> build_result) \<Rightarrow> client \<Rightarrow> unit py \<times> client" where
  "compact opens db coll copied rename builds cl = (case get_handle opens db coll cl of
     (PyOk _, cl) \<Rightarrow> (case open_file opens (db, tmp_file coll) (remove_file (db, tmp_file coll) cl) of
         (PyOk tmp, cl) \<Rightarrow>
           let cl = close_handle tmp cl in
           (case copied of
              PyOk _ \<Rightarrow> (case list_indexes opens db coll cl of
                  (PyOk idxs, cl) \<Rightarrow>
                    let cl = replace_file (db, tmp_file coll) (db, data_file coll) (invalidate_handle db coll cl) in
                    (case drop_each db coll idxs cl of
                       (PyOk _, cl) \<Rightarrow> create_each opens db coll builds (map rename idxs) cl
                     | r \<Rightarrow> r)
                | (r, cl) \<Rightarrow> (py_raise r, cl))
            | r \<Rightarrow> (r, cl))
       | (r, cl) \<Rightarrow> (py_raise r, cl))
   | (r, cl) \<Rightarrow> (py_raise r, cl))"

end
