(* ===== verification/Client_Properties.thy ===== *)
theory Client_Properties
  imports Python_Client
begin

text \<open>
  The caches of a client agree with its directory, as long as no collection has a dot in its name and no
  database is dropped; and what goes wrong otherwise.
\<close>

section \<open>Dictionaries\<close>

lemma map_of_drop_key: "map_of (filter (\<lambda>e. fst e \<noteq> k) d) = (map_of d)(k := None)"
  by (induction d) auto

lemma map_of_add_key: "map_of d k = None \<Longrightarrow> map_of (d @ [(k, v)]) = (map_of d)(k \<mapsto> v)"
  by (auto simp: map_add_def split: option.splits)

lemma mset_drop_key:
  "distinct (map fst d) \<Longrightarrow> map_of d k = Some h \<Longrightarrow> mset (map snd d) = add_mset h (mset (map snd (filter (\<lambda>e. fst e \<noteq> k) d)))"
proof (induction d)
  case (Cons e d)
  show ?case
  proof (cases "fst e = k")
    case True
    then have "\<forall>e' \<in> set d. fst e' \<noteq> k" using Cons.prems(1) by (auto simp: image_iff)
    then have "filter (\<lambda>e. fst e \<noteq> k) d = d" by (simp add: filter_id_conv)
    then show ?thesis using True Cons.prems(2) by (cases e) simp
  next
    case False
    then show ?thesis using Cons by (cases e) auto
  qed
qed simp

lemma distinct_drop_key: "distinct (map fst d) \<Longrightarrow> distinct (map fst (filter P d))"
  by (rule distinct_map_filter)

lemma distinct_add_key: "distinct (map fst d) \<Longrightarrow> map_of d k = None \<Longrightarrow> distinct (map fst (d @ [(k, v)]))"
  by (auto simp: map_of_eq_None_iff)

section \<open>Names\<close>

definition no_dot :: "name \<Rightarrow> bool" where
  "no_dot coll \<longleftrightarrow> 46 \<notin> set coll"

lemma str_codes: "str ''.'' = [46]" "str ''.cbd'' = [46, 99, 98, 100]" "str ''.bidx'' = [46, 98, 105, 100, 120]"
  "str ''.compact_tmp'' = [46, 99, 111, 109, 112, 97, 99, 116, 95, 116, 109, 112]"
  by (simp_all add: str_def)

lemma before_dot: "no_dot a \<Longrightarrow> no_dot b \<Longrightarrow> a @ 46 # r = b @ 46 # s \<longleftrightarrow> a = b \<and> r = s"
proof (induction a arbitrary: b)
  case Nil
  then show ?case by (cases b) (auto simp: no_dot_def)
next
  case (Cons x a)
  then show ?case by (cases b) (auto simp: no_dot_def)
qed

lemma starts_with_dot: "no_dot a \<Longrightarrow> no_dot b \<Longrightarrow> starts_with (b @ [46]) (a @ 46 # r) \<longleftrightarrow> b = a"
proof
  assume n: "no_dot a" "no_dot b" and s: "starts_with (b @ [46]) (a @ 46 # r)"
  then have "a @ 46 # r = b @ 46 # drop (Suc (length b)) (a @ 46 # r)"
    using append_take_drop_id [of "Suc (length b)" "a @ 46 # r"] by (simp add: starts_with_def)
  then show "b = a" using before_dot [OF n] by simp
qed (simp add: starts_with_def)

lemma file_names:
  assumes "no_dot a" "no_dot b"
  shows "data_file a \<noteq> index_file_path b i" "data_file a \<noteq> tmp_file b" "tmp_file a \<noteq> index_file_path b i"
    "data_file a = data_file b \<longleftrightarrow> a = b" "index_file_path a i = index_file_path b j \<longleftrightarrow> a = b \<and> i = j"
    "\<not> is_index_file b (data_file a)" "\<not> is_index_file b (tmp_file a)" "is_index_file b (index_file_path a i) \<longleftrightarrow> a = b"
proof -
  note n = before_dot [OF assms] before_dot [OF assms(2,1)]
  have e: "ends_with [46, 98, 105, 100, 120] (xs @ [46, 98, 105, 100, 120])"
    "\<not> ends_with [46, 98, 105, 100, 120] (xs @ [46, 99, 98, 100])" "\<not> ends_with [46, 98, 105, 100, 120] (xs @ [46, 99, 98, 100] @ t)"
    if "t = [46, 99, 111, 109, 112, 97, 99, 116, 95, 116, 109, 112]" for xs t :: "nat list"
    using that by (auto simp: ends_with_def drop_Cons')
  show "data_file a = data_file b \<longleftrightarrow> a = b" "index_file_path a i = index_file_path b j \<longleftrightarrow> a = b \<and> i = j"
    using n by (auto simp: data_file_def index_file_path_def str_codes)
  show none: "\<not> is_index_file b (data_file a)" "\<not> is_index_file b (tmp_file a)"
    using e(2,3) [OF refl, of a] by (auto simp: is_index_file_def data_file_def tmp_file_def str_codes)
  show "is_index_file b (index_file_path a i) \<longleftrightarrow> a = b"
    using starts_with_dot [OF assms] e(1) [OF refl, of "a @ 46 # i"] by (auto simp: is_index_file_def index_file_path_def str_codes)
  have "is_index_file b (index_file_path b i)"
    using starts_with_dot [OF assms(2,2)] e(1) [OF refl, of "b @ 46 # i"] by (auto simp: is_index_file_def index_file_path_def str_codes)
  then show "tmp_file a \<noteq> index_file_path b i" "data_file a \<noteq> index_file_path b i"
    using none by metis+
  have "last (data_file a) \<noteq> last (tmp_file b)" by (simp add: data_file_def tmp_file_def str_codes)
  then show "data_file a \<noteq> tmp_file b" by metis
qed

lemma index_not_data: "no_dot a \<Longrightarrow> no_dot b \<Longrightarrow> index_file_path b i \<noteq> data_file a"
  using file_names(1) [of a b i] by metis

lemma index_name_of_path [simp]: "index_name_of coll (index_file_path coll idx) = idx"
  by (simp add: index_name_of_def index_file_path_def str_codes)

section \<open>Caches that agree with the directory\<close>

text \<open>
  \<open>coherent S M cl\<close>: every file has a name that the program gives, every cached handle is on the file
  that has the name now, every cached listing is the one on disk (but for the collections of \<open>S\<close>), and
  the open handles are the cached ones (and those of \<open>M\<close>): none has leaked.
\<close>

definition file_form :: "name \<Rightarrow> bool" where
  "file_form fname \<longleftrightarrow> (\<exists>coll. no_dot coll \<and> (fname = data_file coll \<or> fname = tmp_file coll \<or> (\<exists>idx. fname = index_file_path coll idx)))"

abbreviation inode_of :: "client \<Rightarrow> fpath \<Rightarrow> nat option" where
  "inode_of cl \<equiv> map_of (cl_files cl)"

definition listed :: "client \<Rightarrow> name \<Rightarrow> name \<Rightarrow> name set" where
  "listed cl db coll = {fname. inode_of cl (db, fname) \<noteq> None \<and> is_index_file coll fname}"

definition coherent :: "(name \<times> name) set \<Rightarrow> nat multiset \<Rightarrow> client \<Rightarrow> bool" where
  "coherent S M cl \<longleftrightarrow>
     (\<forall>db fname. inode_of cl (db, fname) \<noteq> None \<longrightarrow> file_form fname) \<and>
     (\<forall>db coll h. map_of (cl_handles cl) (db, coll) = Some h \<longrightarrow> no_dot coll \<and> inode_of cl (db, data_file coll) = Some h) \<and>
     (\<forall>db coll idx h. map_of (cl_index_handles cl) (db, coll, idx) = Some h \<longrightarrow>
        no_dot coll \<and> inode_of cl (db, index_file_path coll idx) = Some h) \<and>
     (\<forall>db coll fnames. map_of (cl_listing cl) (db, coll) = Some fnames \<longrightarrow>
        no_dot coll \<and> ((db, coll) \<notin> S \<longrightarrow> set fnames = listed cl db coll)) \<and>
     distinct (map fst (cl_handles cl)) \<and> distinct (map fst (cl_index_handles cl)) \<and>
     mset (cl_open cl) = mset (map snd (cl_handles cl)) + mset (map snd (cl_index_handles cl)) + M"

lemma coherentI:
  assumes "\<And>db fname. inode_of cl (db, fname) \<noteq> None \<Longrightarrow> file_form fname"
    and "\<And>db coll h. map_of (cl_handles cl) (db, coll) = Some h \<Longrightarrow> no_dot coll \<and> inode_of cl (db, data_file coll) = Some h"
    and "\<And>db coll idx h. map_of (cl_index_handles cl) (db, coll, idx) = Some h \<Longrightarrow>
      no_dot coll \<and> inode_of cl (db, index_file_path coll idx) = Some h"
    and "\<And>db coll fnames. map_of (cl_listing cl) (db, coll) = Some fnames \<Longrightarrow>
      no_dot coll \<and> ((db, coll) \<notin> S \<longrightarrow> set fnames = listed cl db coll)"
    and "distinct (map fst (cl_handles cl))" "distinct (map fst (cl_index_handles cl))"
    and "mset (cl_open cl) = mset (map snd (cl_handles cl)) + mset (map snd (cl_index_handles cl)) + M"
  shows "coherent S M cl"
  unfolding coherent_def using assms by blast

lemma coherentD:
  assumes "coherent S M cl"
  shows "inode_of cl (db, fname) \<noteq> None \<Longrightarrow> file_form fname"
    and "map_of (cl_handles cl) (db, coll) = Some h \<Longrightarrow> no_dot coll \<and> inode_of cl (db, data_file coll) = Some h"
    and "map_of (cl_index_handles cl) (db, coll, idx) = Some h \<Longrightarrow> no_dot coll \<and> inode_of cl (db, index_file_path coll idx) = Some h"
    and "map_of (cl_listing cl) (db, coll) = Some fnames \<Longrightarrow> no_dot coll \<and> ((db, coll) \<notin> S \<longrightarrow> set fnames = listed cl db coll)"
    and "distinct (map fst (cl_handles cl))" "distinct (map fst (cl_index_handles cl))"
    and "mset (cl_open cl) = mset (map snd (cl_handles cl)) + mset (map snd (cl_index_handles cl)) + M"
  using assms unfolding coherent_def by blast+

lemma index_fnames_listed: "set (index_fnames db coll cl) = listed cl db coll"
proof -
  have "fname \<in> set (list_files db cl) \<longleftrightarrow> inode_of cl (db, fname) \<noteq> None" for fname
    unfolding map_of_eq_None_iff by (force simp: list_files_def image_iff)
  then show ?thesis by (auto simp: index_fnames_def listed_def)
qed

lemma file_exists_iff: "file_exists f cl \<longleftrightarrow> inode_of cl f \<noteq> None"
  by (simp add: file_exists_def map_of_eq_None_iff)

lemma coherent_files:
  "coherent S M cl \<Longrightarrow> inode_of cl (db, fname) \<noteq> None \<Longrightarrow> file_form fname"
  by (rule coherentD)

lemma listed_paths:
  "coherent S M cl \<Longrightarrow> no_dot coll \<Longrightarrow> fname \<in> listed cl db coll \<Longrightarrow> fname = index_file_path coll (index_name_of coll fname)"
  using coherent_files [of S M cl db fname] by (auto simp: listed_def file_form_def file_names)

lemma make_dir_files [simp]: "cl_files (make_dir db cl) = cl_files cl"
  by (simp add: make_dir_def)

lemma coherent_make_dir: "coherent S M cl \<Longrightarrow> coherent S M (make_dir db cl)"
  by (simp add: coherent_def make_dir_def listed_def)

lemma touch_inode: "inode_of (touch f cl) g = (if g = f \<and> inode_of cl f = None then Some (cl_next cl) else inode_of cl g)"
  by (auto simp: touch_def file_exists_iff map_add_def split: option.splits)

lemma touch_fields [simp]:
  "cl_handles (touch f cl) = cl_handles cl" "cl_index_handles (touch f cl) = cl_index_handles cl"
  "cl_listing (touch f cl) = cl_listing cl" "cl_open (touch f cl) = cl_open cl"
  by (simp_all add: touch_def)

text \<open>A new file: only an index file is in a listing.\<close>

lemma coherent_touch:
  assumes c: "coherent S M cl" and f: "no_dot coll" "fname = data_file coll \<or> fname = tmp_file coll \<or> (db, coll) \<in> S \<and> fname = index_file_path coll idx"
  shows "coherent S M (touch (db, fname) cl)"
proof -
  have "file_form fname" using f by (auto simp: file_form_def)
  moreover have "listed (touch (db, fname) cl) d c = listed cl d c" if "no_dot c" "(d, c) \<notin> S" for d c
    using f that by (auto simp: listed_def touch_inode file_names)
  moreover have "inode_of cl g = Some h \<Longrightarrow> inode_of (touch (db, fname) cl) g = Some h" for g h by (auto simp: touch_inode)
  ultimately show ?thesis
    using coherentD [OF c] by (intro coherentI) (auto simp: touch_inode split: if_splits)
qed

lemma coherent_mono: "coherent S M cl \<Longrightarrow> S \<subseteq> T \<Longrightarrow> coherent T M cl"
  unfolding coherent_def by blast

lemma coherent_close: "coherent S (add_mset h M) cl \<Longrightarrow> coherent S M (close_handle h cl)"
  by (simp add: coherent_def close_handle_def listed_def)

lemma close_handle_files [simp]: "cl_files (close_handle h cl) = cl_files cl"
  by (simp add: close_handle_def)

lemma coherent_forget_listing: "coherent S M cl \<Longrightarrow> coherent (S - {(db, coll)}) M (invalidate_index_listing db coll cl)"
  by (auto simp: coherent_def invalidate_index_listing_def map_of_drop_key listed_def)

lemma coherent_remove:
  assumes c: "coherent S M cl"
    and f: "\<And>c. no_dot c \<Longrightarrow> fname = data_file c \<Longrightarrow> map_of (cl_handles cl) (db, c) = None"
      "\<And>c i. no_dot c \<Longrightarrow> fname = index_file_path c i \<Longrightarrow> map_of (cl_index_handles cl) (db, c, i) = None \<and> (db, c) \<in> S"
  shows "coherent S M (remove_file (db, fname) cl)"
proof -
  have i: "inode_of (remove_file (db, fname) cl) = (inode_of cl)((db, fname) := None)"
    by (simp add: remove_file_def map_of_drop_key)
  have r: "cl_handles (remove_file (db, fname) cl) = cl_handles cl" "cl_index_handles (remove_file (db, fname) cl) = cl_index_handles cl"
    "cl_listing (remove_file (db, fname) cl) = cl_listing cl" "cl_open (remove_file (db, fname) cl) = cl_open cl"
    by (simp_all add: remove_file_def)
  have l: "listed (remove_file (db, fname) cl) d c = listed cl d c" if "no_dot c" "(d, c) \<notin> S" for d c
  proof (cases "inode_of cl (db, fname) = None")
    case True
    then show ?thesis by (auto simp: listed_def i)
  next
    case False
    then obtain e where e: "no_dot e" "fname = data_file e \<or> fname = tmp_file e \<or> (\<exists>idx. fname = index_file_path e idx)"
      using coherent_files [OF c False] by (auto simp: file_form_def)
    then show ?thesis using that f(2) by (auto simp: listed_def i file_names)
  qed
  show ?thesis
  proof (rule coherentI, unfold r)
    show "no_dot coll \<and> inode_of (remove_file (db, fname) cl) (d, data_file coll) = Some h"
      if "map_of (cl_handles cl) (d, coll) = Some h" for d coll h
      using coherentD(2) [OF c that] f(1) [of coll] that by (auto simp: i)
    show "no_dot coll \<and> inode_of (remove_file (db, fname) cl) (d, index_file_path coll idx) = Some h"
      if "map_of (cl_index_handles cl) (d, coll, idx) = Some h" for d coll idx h
      using coherentD(3) [OF c that] f(2) [of coll idx] that by (auto simp: i)
    show "no_dot coll \<and> ((d, coll) \<notin> S \<longrightarrow> set fnames = listed (remove_file (db, fname) cl) d coll)"
      if "map_of (cl_listing cl) (d, coll) = Some fnames" for d coll fnames
      using coherentD(4) [OF c that] l by simp
  qed (use coherentD [OF c] in \<open>auto simp: i split: if_splits\<close>)
qed

lemma coherent_pop_index: "coherent S M cl \<Longrightarrow> coherent S M (pop_index_handle k cl)"
proof (cases "map_of (cl_index_handles cl) k")
  case (Some h)
  assume c: "coherent S M cl"
  then have "mset (map snd (cl_index_handles cl)) = add_mset h (mset (map snd (filter (\<lambda>e. fst e \<noteq> k) (cl_index_handles cl))))"
    using mset_drop_key [OF _ Some] by (simp add: coherent_def)
  then have "coherent S (add_mset h M) (cl\<lparr>cl_index_handles := filter (\<lambda>e. fst e \<noteq> k) (cl_index_handles cl)\<rparr>)"
    using c by (simp add: coherent_def map_of_drop_key listed_def distinct_drop_key)
  from coherent_close [OF this] show ?thesis using Some by (simp add: pop_index_handle_def)
qed (simp add: pop_index_handle_def)

lemma pop_index_fields [simp]:
  "cl_files (pop_index_handle k cl) = cl_files cl" "cl_handles (pop_index_handle k cl) = cl_handles cl"
  "cl_listing (pop_index_handle k cl) = cl_listing cl"
  "map_of (cl_index_handles (pop_index_handle k cl)) = (map_of (cl_index_handles cl))(k := None)"
  by (auto simp: pop_index_handle_def close_handle_def map_of_drop_key split: option.splits)

lemma coherent_invalidate: "coherent S M cl \<Longrightarrow> coherent S M (invalidate_handle db coll cl)"
proof (cases "map_of (cl_handles cl) (db, coll)")
  case (Some h)
  assume c: "coherent S M cl"
  then have "mset (map snd (cl_handles cl)) = add_mset h (mset (map snd (filter (\<lambda>e. fst e \<noteq> (db, coll)) (cl_handles cl))))"
    using mset_drop_key [OF _ Some] by (simp add: coherent_def)
  then have "coherent S (add_mset h M) (cl\<lparr>cl_handles := filter (\<lambda>e. fst e \<noteq> (db, coll)) (cl_handles cl)\<rparr>)"
    using c by (simp add: coherent_def map_of_drop_key listed_def distinct_drop_key)
  from coherent_close [OF this] show ?thesis using Some by (simp add: invalidate_handle_def)
qed (simp add: invalidate_handle_def)

lemma invalidate_fields [simp]:
  "cl_files (invalidate_handle db coll cl) = cl_files cl" "cl_index_handles (invalidate_handle db coll cl) = cl_index_handles cl"
  "cl_listing (invalidate_handle db coll cl) = cl_listing cl"
  "map_of (cl_handles (invalidate_handle db coll cl)) = (map_of (cl_handles cl))((db, coll) := None)"
  by (auto simp: invalidate_handle_def close_handle_def map_of_drop_key split: option.splits)

section \<open>Opening\<close>

text \<open>The file is the collection's data file or temporary file, or is there already.\<close>

lemma open_file_coherent:
  assumes c: "coherent S M cl" and f: "(\<exists>coll. no_dot coll \<and> (fname = data_file coll \<or> fname = tmp_file coll)) \<or> inode_of cl (db, fname) \<noteq> None"
  obtains (ok) h cl' where "open_file opens (db, fname) cl = (PyOk h, cl')" "coherent S (add_mset h M) cl'" "inode_of cl' (db, fname) = Some h"
      "cl_handles cl' = cl_handles cl" "cl_index_handles cl' = cl_index_handles cl" "cl_listing cl' = cl_listing cl"
      "\<And>g. inode_of cl g \<noteq> None \<Longrightarrow> inode_of cl' g = inode_of cl g"
  | (bad) e cl' where "open_file opens (db, fname) cl = (PyRaise e, cl')" "coherent S M cl'"
      "\<And>g. inode_of cl g \<noteq> None \<Longrightarrow> inode_of cl' g = inode_of cl g"
      "cl_handles cl' = cl_handles cl" "cl_index_handles cl' = cl_index_handles cl" "cl_listing cl' = cl_listing cl"
proof -
  have t: "coherent S M (touch (db, fname) cl)"
  proof (cases "inode_of cl (db, fname) = None")
    case True
    then obtain coll where "no_dot coll" "fname = data_file coll \<or> fname = tmp_file coll" using f by blast
    then show ?thesis using coherent_touch [OF c, of coll fname db] by blast
  next
    case False
    then show ?thesis using c by (simp add: touch_def file_exists_iff)
  qed
  show thesis
  proof (cases "opens (db, fname)")
    case Opens
    obtain h where h: "inode_of (touch (db, fname) cl) (db, fname) = Some h" by (cases "inode_of cl (db, fname)") (auto simp: touch_inode)
    let ?cl = "(touch (db, fname) cl)\<lparr>cl_open := h # cl_open (touch (db, fname) cl)\<rparr>"
    have "coherent S (add_mset h M) ?cl" using t by (simp add: coherent_def listed_def)
    then show thesis using Opens h by (intro ok [of h ?cl]) (auto simp: open_file_def touch_inode)
  next
    case (Fails e made)
    then show thesis
      using c t by (intro bad [of e "if made then touch (db, fname) cl else cl"]) (auto simp: open_file_def touch_inode split: if_splits)
  qed
qed

lemma get_handle_coherent:
  assumes c: "coherent S M cl" and n: "no_dot coll"
  obtains (ok) h cl' where "get_handle opens db coll cl = (PyOk h, cl')" "coherent S M cl'" "inode_of cl' (db, data_file coll) = Some h"
      "\<And>g. inode_of cl g \<noteq> None \<Longrightarrow> inode_of cl' g = inode_of cl g"
  | (bad) e cl' where "get_handle opens db coll cl = (PyRaise e, cl')" "coherent S M cl'"
proof (cases "map_of (cl_handles cl) (db, coll)")
  case (Some h)
  then show thesis using ok [of h cl] c coherentD(2) [OF c Some] by (simp add: get_handle_def)
next
  case None
  have c': "coherent S M (make_dir db cl)" by (rule coherent_make_dir [OF c])
  have none: "map_of (cl_handles (make_dir db cl)) (db, coll) = None" using None by (simp add: make_dir_def)
  have f: "(\<exists>coll'. no_dot coll' \<and> (data_file coll = data_file coll' \<or> data_file coll = tmp_file coll')) \<or>
      inode_of (make_dir db cl) (db, data_file coll) \<noteq> None" using n by blast
  show thesis
  proof (rule open_file_coherent [OF c' f, of opens])
    fix h cl' assume o: "open_file opens (db, data_file coll) (make_dir db cl) = (PyOk h, cl')" "coherent S (add_mset h M) cl'"
      "inode_of cl' (db, data_file coll) = Some h" "cl_handles cl' = cl_handles (make_dir db cl)"
      "\<And>g. inode_of (make_dir db cl) g \<noteq> None \<Longrightarrow> inode_of cl' g = inode_of (make_dir db cl) g"
    let ?cl = "cl'\<lparr>cl_handles := cl_handles cl' @ [((db, coll), h)]\<rparr>"
    have none': "map_of (cl_handles cl') (db, coll) = None" using none o(4) by simp
    have "coherent S M ?cl"
    proof (rule coherentI)
      show "no_dot c \<and> inode_of ?cl (d, data_file c) = Some i" if "map_of (cl_handles ?cl) (d, c) = Some i" for d c i
        using that coherentD(2) [OF o(2)] o(3) n by (auto simp: map_of_add_key [OF none'] split: if_splits)
      show "distinct (map fst (cl_handles ?cl))" using distinct_add_key [OF coherentD(5) [OF o(2)] none'] by simp
    qed (use coherentD [OF o(2)] in \<open>simp_all add: listed_def\<close>)
    then show thesis using ok [of h ?cl] o None by (simp add: get_handle_def)
  next
    fix e cl' assume "open_file opens (db, data_file coll) (make_dir db cl) = (PyRaise e, cl')" "coherent S M cl'"
    then show thesis using bad [of e cl'] None by (simp add: get_handle_def)
  qed
qed

lemma open_index_coherent:
  assumes c: "coherent S M cl" and n: "no_dot coll" "fname \<in> listed cl db coll"
  obtains (ok) h cl' where "open_index opens db coll fname cl = (PyOk h, cl')" "coherent S M cl'" "inode_of cl' (db, fname) = Some h"
      "listed cl db coll \<subseteq> listed cl' db coll" "\<And>g. inode_of cl g \<noteq> None \<Longrightarrow> inode_of cl' g = inode_of cl g"
  | (bad) e cl' where "open_index opens db coll fname cl = (PyRaise e, cl')" "coherent S M cl'"
      "\<And>g. inode_of cl g \<noteq> None \<Longrightarrow> inode_of cl' g = inode_of cl g"
proof -
  let ?k = "(db, coll, index_name_of coll fname)"
  have p: "fname = index_file_path coll (index_name_of coll fname)" by (rule listed_paths [OF c n])
  have f: "(\<exists>coll. no_dot coll \<and> (fname = data_file coll \<or> fname = tmp_file coll)) \<or> inode_of cl (db, fname) \<noteq> None"
    using n(2) by (simp add: listed_def)
  show thesis
  proof (cases "map_of (cl_index_handles cl) ?k")
    case (Some h)
    then show thesis using ok [of h cl] c coherentD(3) [OF c Some] p by (simp add: open_index_def)
  next
    case None
    show thesis
    proof (rule open_file_coherent [OF c f, of opens])
      fix h cl' assume o: "open_file opens (db, fname) cl = (PyOk h, cl')" "coherent S (add_mset h M) cl'"
        "inode_of cl' (db, fname) = Some h" "cl_index_handles cl' = cl_index_handles cl"
        "\<And>g. inode_of cl g \<noteq> None \<Longrightarrow> inode_of cl' g = inode_of cl g"
      let ?cl = "cl'\<lparr>cl_index_handles := cl_index_handles cl' @ [(?k, h)]\<rparr>"
      have none': "map_of (cl_index_handles cl') ?k = None" using None o(4) by simp
      have "coherent S M ?cl"
      proof (rule coherentI)
        show "no_dot c \<and> inode_of ?cl (d, index_file_path c idx) = Some i" if "map_of (cl_index_handles ?cl) (d, c, idx) = Some i" for d c idx i
          using that coherentD(3) [OF o(2)] o(3) n p by (auto simp: map_of_add_key [OF none'] split: if_splits)
        show "distinct (map fst (cl_index_handles ?cl))" using distinct_add_key [OF coherentD(6) [OF o(2)] none'] by simp
      qed (use coherentD [OF o(2)] in \<open>simp_all add: listed_def\<close>)
      moreover have "listed cl db coll \<subseteq> listed ?cl db coll" using o(5) by (auto simp: listed_def)
      ultimately show thesis using ok [of h ?cl] o None by (simp add: open_index_def Let_def)
    next
      fix e cl' assume "open_file opens (db, fname) cl = (PyRaise e, cl')" "coherent S M cl'"
        "\<And>g. inode_of cl g \<noteq> None \<Longrightarrow> inode_of cl' g = inode_of cl g"
      then show thesis using bad [of e cl'] None by (simp add: open_index_def Let_def)
    qed
  qed
qed

lemma open_indexes_coherent:
  assumes "coherent S M cl" "no_dot coll" "set fnames \<subseteq> listed cl db coll"
  shows "\<exists>r cl'. open_indexes opens db coll fnames cl = (r, cl') \<and> coherent S M cl' \<and>
    ((\<exists>e. r = PyRaise e) \<or> (\<exists>hs. r = PyOk hs \<and> fst ` set hs = index_name_of coll ` set fnames \<and>
        (\<forall>(idx, h) \<in> set hs. inode_of cl' (db, index_file_path coll idx) = Some h))) \<and>
    (\<forall>g. inode_of cl g \<noteq> None \<longrightarrow> inode_of cl' g = inode_of cl g)"
  using assms(1,3)
proof (induction fnames arbitrary: cl)
  case (Cons fname fnames)
  have f: "fname \<in> listed cl db coll" using Cons.prems(2) by simp
  have p: "fname = index_file_path coll (index_name_of coll fname)" by (rule listed_paths [OF Cons.prems(1) assms(2) f])
  show ?case
  proof (rule open_index_coherent [OF Cons.prems(1) assms(2) f, of opens])
    fix h cl' assume o: "open_index opens db coll fname cl = (PyOk h, cl')" "coherent S M cl'" "inode_of cl' (db, fname) = Some h"
      "listed cl db coll \<subseteq> listed cl' db coll" "\<And>g. inode_of cl g \<noteq> None \<Longrightarrow> inode_of cl' g = inode_of cl g"
    have "set fnames \<subseteq> listed cl' db coll" using Cons.prems(2) o(4) by auto
    note IH = Cons.IH [OF o(2) this]
    obtain r cl'' where r: "open_indexes opens db coll fnames cl' = (r, cl'')" "coherent S M cl''"
      "(\<exists>e. r = PyRaise e) \<or> (\<exists>hs. r = PyOk hs \<and> fst ` set hs = index_name_of coll ` set fnames \<and>
        (\<forall>(idx, h) \<in> set hs. inode_of cl'' (db, index_file_path coll idx) = Some h))"
      "\<forall>g. inode_of cl' g \<noteq> None \<longrightarrow> inode_of cl'' g = inode_of cl' g" using IH by (elim exE conjE) (rule that)
    have pres: "\<forall>g. inode_of cl g \<noteq> None \<longrightarrow> inode_of cl'' g = inode_of cl g"
    proof (intro allI impI)
      fix g assume "inode_of cl g \<noteq> None"
      then show "inode_of cl'' g = inode_of cl g" using o(5) [of g] r(4) by (cases g) simp
    qed
    have h: "inode_of cl'' (db, index_file_path coll (index_name_of coll fname)) = Some h"
      unfolding p [symmetric] using r(4) o(3) by simp
    from r(3) show ?thesis
    proof (elim disjE exE conjE)
      fix e assume "r = PyRaise e"
      then have "open_indexes opens db coll (fname # fnames) cl = (PyRaise e, cl'')" using o(1) r(1) by simp
      then show ?thesis using r(2) pres by blast
    next
      fix hs assume hs: "r = PyOk hs" "fst ` set hs = index_name_of coll ` set fnames"
        "\<forall>(idx, h) \<in> set hs. inode_of cl'' (db, index_file_path coll idx) = Some h"
      let ?hs = "(index_name_of coll fname, h) # hs"
      have "open_indexes opens db coll (fname # fnames) cl = (PyOk ?hs, cl'')" using o(1) r(1) hs(1) by simp
      moreover have "fst ` set ?hs = index_name_of coll ` set (fname # fnames)" using hs(2) by simp
      moreover have "\<forall>(idx, h) \<in> set ?hs. inode_of cl'' (db, index_file_path coll idx) = Some h" using hs(3) h by simp
      ultimately show ?thesis using r(2) pres by blast
    qed
  next
    fix e cl' assume "open_index opens db coll fname cl = (PyRaise e, cl')" "coherent S M cl'"
      "\<And>g. inode_of cl g \<noteq> None \<Longrightarrow> inode_of cl' g = inode_of cl g"
    then show ?thesis by simp
  qed
qed simp

text \<open>The handles that a client gets are those of the files that are there.\<close>

lemma get_index_handles_coherent:
  assumes c: "coherent {} M cl" and n: "no_dot coll"
  shows "\<exists>r cl'. get_index_handles opens db coll cl = (r, cl') \<and> coherent {} M cl' \<and>
    ((\<exists>e. r = PyRaise e) \<or> (\<exists>hs. r = PyOk hs \<and> fst ` set hs = {idx. inode_of cl (db, index_file_path coll idx) \<noteq> None} \<and>
        (\<forall>(idx, h) \<in> set hs. inode_of cl' (db, index_file_path coll idx) = Some h))) \<and>
    (\<forall>g. inode_of cl g \<noteq> None \<longrightarrow> inode_of cl' g = inode_of cl g)"
proof -
  have names: "index_name_of coll ` listed cl db coll = {idx. inode_of cl (db, index_file_path coll idx) \<noteq> None}"
  proof
    show "index_name_of coll ` listed cl db coll \<subseteq> {idx. inode_of cl (db, index_file_path coll idx) \<noteq> None}"
    proof clarify
      fix fname assume f: "fname \<in> listed cl db coll"
      then show "\<exists>y. inode_of cl (db, index_file_path coll (index_name_of coll fname)) = Some y"
        using listed_paths [OF c n f] by (auto simp: listed_def)
    qed
    show "{idx. inode_of cl (db, index_file_path coll idx) \<noteq> None} \<subseteq> index_name_of coll ` listed cl db coll"
    proof clarify
      fix idx h assume "inode_of cl (db, index_file_path coll idx) = Some h"
      then have "index_file_path coll idx \<in> listed cl db coll" using n by (simp add: listed_def file_names)
      then show "idx \<in> index_name_of coll ` listed cl db coll" by (metis imageI index_name_of_path)
    qed
  qed
  show ?thesis
  proof (cases "map_of (cl_listing cl) (db, coll)")
    case None
    let ?cl = "cl\<lparr>cl_listing := cl_listing cl @ [((db, coll), index_fnames db coll cl)]\<rparr>"
    have "coherent {} M ?cl"
    proof (rule coherentI)
      show "no_dot k \<and> ((d, k) \<notin> {} \<longrightarrow> set fnames = listed ?cl d k)" if "map_of (cl_listing ?cl) (d, k) = Some fnames" for d k fnames
        using that coherentD(4) [OF c, of d k fnames] n
        by (auto simp: map_of_add_key [OF None] index_fnames_listed listed_def split: if_splits)
    qed (use coherentD [OF c] in simp_all)
    moreover have "set (index_fnames db coll cl) \<subseteq> listed ?cl db coll" by (simp add: index_fnames_listed listed_def)
    ultimately show ?thesis
      using open_indexes_coherent [OF _ n, of "{}" M ?cl "index_fnames db coll cl" db opens] None names
      by (auto simp: get_index_handles_def Let_def index_fnames_listed simp del: map_of_append)
  next
    case (Some fnames)
    then have "set fnames = listed cl db coll" using coherentD(4) [OF c] by blast
    then show ?thesis using open_indexes_coherent [OF c n, of fnames db opens] Some names by (auto simp: get_index_handles_def)
  qed
qed

section \<open>The other calls\<close>

lemma invalidate_listing_fields [simp]:
  "cl_files (invalidate_index_listing db coll cl) = cl_files cl"
  "cl_index_handles (invalidate_index_listing db coll cl) = cl_index_handles cl"
  "cl_handles (invalidate_index_listing db coll cl) = cl_handles cl"
  by (simp_all add: invalidate_index_listing_def)

lemma coherent_drop_index:
  assumes c: "coherent {} M cl" and n: "no_dot coll"
  shows "coherent {} M (snd (drop_index db coll s cl))"
proof -
  define idx where "idx = resolve_index_name db coll s cl"
  let ?cl = "invalidate_index_handle db coll idx cl" and ?f = "(db, index_file_path coll idx)"
  have c1: "coherent {} M ?cl"
    using coherent_forget_listing [OF coherent_pop_index [OF c]] by (simp add: invalidate_index_handle_def)
  have "coherent {(db, coll)} M (remove_file ?f ?cl)"
    by (rule coherent_remove [OF coherent_mono [OF c1]]) (use n in \<open>auto simp: file_names index_not_data invalidate_index_handle_def\<close>)
  then have "coherent {} M (invalidate_index_listing db coll (remove_file ?f ?cl))"
    using coherent_forget_listing [of "{(db, coll)}" M _ db coll] by simp
  then show ?thesis using c1 by (simp add: drop_index_def Let_def idx_def)
qed

lemma coherent_drop_each: "coherent {} M cl \<Longrightarrow> no_dot coll \<Longrightarrow> coherent {} M (snd (drop_each db coll idxs cl))"
proof (induction idxs arbitrary: cl)
  case (Cons idx idxs)
  show ?case
  proof (cases "drop_index db coll idx cl")
    case (Pair r cl')
    then have "coherent {} M cl'" using coherent_drop_index [OF Cons.prems, of db idx] by simp
    then show ?thesis using Pair Cons.IH [OF _ Cons.prems(2)] by (simp split: py.split)
  qed
qed simp

lemma coherent_read_indexes:
  "coherent {} M cl \<Longrightarrow> set fnames \<subseteq> listed cl db coll \<Longrightarrow> coherent {} M (snd (read_indexes opens db coll fnames cl))"
proof (induction fnames arbitrary: cl)
  case (Cons fname fnames)
  have f: "(\<exists>coll. no_dot coll \<and> (fname = data_file coll \<or> fname = tmp_file coll)) \<or> inode_of cl (db, fname) \<noteq> None"
    using Cons.prems(2) by (simp add: listed_def)
  show ?case
  proof (rule open_file_coherent [OF Cons.prems(1) f, of opens])
    fix h cl' assume o: "open_file opens (db, fname) cl = (PyOk h, cl')" "coherent {} (add_mset h M) cl'"
      "\<And>g. inode_of cl g \<noteq> None \<Longrightarrow> inode_of cl' g = inode_of cl g"
    have "set fnames \<subseteq> listed (close_handle h cl') db coll" using Cons.prems(2) o(3) by (auto simp: listed_def)
    then show ?thesis using Cons.IH [OF coherent_close [OF o(2)]] o(1) by (auto split: prod.split py.split)
  next
    fix e cl' assume "open_file opens (db, fname) cl = (PyRaise e, cl')" "coherent {} M cl'"
    then show ?thesis by simp
  qed
qed simp

lemma coherent_list_indexes: "coherent {} M cl \<Longrightarrow> coherent {} M (snd (list_indexes opens db coll cl))"
  unfolding list_indexes_def by (rule coherent_read_indexes) (simp_all add: index_fnames_listed)

lemma coherent_drop_indexes: "coherent {} M cl \<Longrightarrow> no_dot coll \<Longrightarrow> coherent {} M (snd (drop_indexes opens db coll cl))"
  using coherent_list_indexes [of M cl opens db coll] coherent_drop_each [of M _ coll db]
  by (cases "list_indexes opens db coll cl") (simp add: drop_indexes_def split: py.split)

definition cleans :: "build_result \<Rightarrow> bool" where
  "cleans built \<longleftrightarrow> (\<forall>e. built \<noteq> Not_built e True)"

lemma coherent_create:
  assumes c: "coherent {} M cl" and n: "no_dot coll" and b: "cleans built"
  shows "coherent {} M (snd (create_index_on opens db coll idx same_spec built cl))"
proof (cases "inode_of cl (db, index_file_path coll idx) = None")
  case False
  show ?thesis
    by (rule open_file_coherent [OF c disjI2 [OF False], of opens])
      (use False in \<open>auto simp: create_index_on_def Let_def file_exists_iff coherent_close\<close>)
next
  case True
  show ?thesis
  proof (rule get_handle_coherent [OF c n, of opens db])
    fix h cl' assume g: "get_handle opens db coll cl = (PyOk h, cl')" "coherent {} M cl'"
    have "coherent {(db, coll)} M (touch (db, index_file_path coll idx) cl')"
      by (rule coherent_touch [OF coherent_mono [OF g(2)] n]) auto
    then have "coherent {} M (invalidate_index_listing db coll (touch (db, index_file_path coll idx) cl'))"
      using coherent_forget_listing [of "{(db, coll)}" M _ db coll] by simp
    then show ?thesis
      using True g b by (cases built) (auto simp: create_index_on_def Let_def file_exists_iff cleans_def)
  next
    fix e cl' assume "get_handle opens db coll cl = (PyRaise e, cl')" "coherent {} M cl'"
    then show ?thesis using True by (simp add: create_index_on_def Let_def file_exists_iff)
  qed
qed

lemma coherent_create_each:
  "coherent {} M cl \<Longrightarrow> no_dot coll \<Longrightarrow> \<forall>idx. cleans (builds idx) \<Longrightarrow> coherent {} M (snd (create_each opens db coll builds idxs cl))"
proof (induction idxs arbitrary: cl)
  case (Cons idx idxs)
  show ?case
  proof (cases "create_index_on opens db coll idx True (builds idx) cl")
    case (Pair r cl')
    then have "coherent {} M cl'" using coherent_create [OF Cons.prems(1,2), of "builds idx" opens db idx True] Cons.prems(3) by simp
    then show ?thesis using Pair Cons.IH [OF _ Cons.prems(2,3)] by (simp split: py.split)
  qed
qed simp

lemma fold_pop_index:
  "coherent S M cl \<Longrightarrow> coherent S M (fold pop_index_handle ks cl) \<and> cl_files (fold pop_index_handle ks cl) = cl_files cl \<and>
     cl_handles (fold pop_index_handle ks cl) = cl_handles cl \<and>
     (\<forall>k. map_of (cl_index_handles (fold pop_index_handle ks cl)) k = (if k \<in> set ks then None else map_of (cl_index_handles cl) k))"
  by (induction ks arbitrary: cl) (auto simp: coherent_pop_index)

lemma fold_remove_index:
  assumes "no_dot coll" "(db, coll) \<in> S"
  shows "coherent S M cl \<Longrightarrow> (\<forall>fname \<in> set fnames. \<exists>idx. fname = index_file_path coll idx) \<Longrightarrow>
    (\<forall>i. map_of (cl_index_handles cl) (db, coll, i) = None) \<Longrightarrow> coherent S M (fold (\<lambda>fname. remove_file (db, fname)) fnames cl)"
proof (induction fnames arbitrary: cl)
  case (Cons fname fnames)
  obtain idx where idx: "fname = index_file_path coll idx" using Cons.prems(2) by auto
  have "coherent S M (remove_file (db, fname) cl)"
    by (rule coherent_remove [OF Cons.prems(1)]) (use idx assms Cons.prems(3) in \<open>auto simp: file_names index_not_data\<close>)
  then show ?case using Cons.IH [of "remove_file (db, fname) cl"] Cons.prems(2,3) by (simp add: remove_file_def)
qed simp

lemma coherent_drop_collection:
  assumes c: "coherent {} M cl" and n: "no_dot coll"
  shows "coherent {} M (drop_collection db coll cl)"
proof -
  let ?c1 = "invalidate_handle db coll cl"
  let ?c2 = "remove_file (db, data_file coll) ?c1"
  define ks where "ks = filter (\<lambda>(d, c, i). d = db \<and> c = coll) (map fst (cl_index_handles ?c2))"
  let ?c3 = "fold pop_index_handle ks ?c2"
  have "coherent {(db, coll)} M ?c1" using coherent_mono [OF coherent_invalidate [OF c]] by blast
  then have c2: "coherent {(db, coll)} M ?c2" by (rule coherent_remove) (use n in \<open>auto simp: file_names\<close>)
  note c3 = fold_pop_index [OF c2, of ks]
  have "map_of (cl_index_handles ?c3) (db, coll, i) = None" for i
  proof (cases "map_of (cl_index_handles ?c2) (db, coll, i)")
    case (Some h)
    then have "(db, coll, i) \<in> set ks" by (force simp: ks_def dest: map_of_SomeD)
    then show ?thesis using c3 by simp
  qed (use c3 in simp)
  moreover have "\<forall>fname \<in> set (index_fnames db coll ?c3). \<exists>idx. fname = index_file_path coll idx"
    using listed_paths [OF _ n, of "{(db, coll)}" M ?c3 _ db] c3 by (metis index_fnames_listed)
  ultimately have "coherent {(db, coll)} M (fold (\<lambda>fname. remove_file (db, fname)) (index_fnames db coll ?c3) ?c3)"
    using fold_remove_index [OF n, of db "{(db, coll)}"] c3 by blast
  then show ?thesis using coherent_forget_listing [of "{(db, coll)}" M _ db coll] by (simp add: drop_collection_def Let_def ks_def)
qed

lemma coherent_replace:
  assumes c: "coherent {} M cl" and n: "no_dot coll" "map_of (cl_handles cl) (db, coll) = None"
  shows "coherent {} M (replace_file (db, tmp_file coll) (db, data_file coll) cl)"
proof (cases "inode_of cl (db, tmp_file coll)")
  case (Some i)
  have m: "map_of (filter (\<lambda>e. fst e \<noteq> a \<and> fst e \<noteq> b) d @ [(b, j)]) = (map_of d)(a := None, b := Some j)" if "a \<noteq> b"
    for a b :: fpath and d and j :: nat
  proof
    have "map_of (filter (\<lambda>e. fst e \<noteq> a \<and> fst e \<noteq> b) d) k = (if k \<noteq> a \<and> k \<noteq> b then map_of d k else None)" for k
      by (induction d) auto
    then show "map_of (filter (\<lambda>e. fst e \<noteq> a \<and> fst e \<noteq> b) d @ [(b, j)]) k = ((map_of d)(a := None, b := Some j)) k" for k
      using that by (auto simp: map_add_def split: option.splits)
  qed
  have ne: "tmp_file coll \<noteq> data_file coll" using file_names(2) [OF n(1,1)] by simp
  let ?cl = "replace_file (db, tmp_file coll) (db, data_file coll) cl"
  have r: "inode_of ?cl = (inode_of cl)((db, tmp_file coll) := None, (db, data_file coll) := Some i)"
    using Some ne by (simp add: replace_file_def m del: map_of_append)
  have f: "cl_handles ?cl = cl_handles cl" "cl_index_handles ?cl = cl_index_handles cl" "cl_listing ?cl = cl_listing cl" "cl_open ?cl = cl_open cl"
    using Some by (simp_all add: replace_file_def)
  have l: "listed ?cl d k = listed cl d k" if "no_dot k" for d k
    using file_names(6,7) [OF n(1) that] by (auto simp: listed_def r)
  show ?thesis
  proof (rule coherentI, unfold f)
    show "file_form fname" if "inode_of ?cl (d, fname) \<noteq> None" for d fname
      using that coherentD(1) [OF c] n(1) by (auto simp: r file_form_def split: if_splits)
    show "no_dot k \<and> inode_of ?cl (d, data_file k) = Some h" if "map_of (cl_handles cl) (d, k) = Some h" for d k h
      using that coherentD(2) [OF c that] n file_names(2) [of k coll] by (auto simp: r file_names)
    show "no_dot k \<and> inode_of ?cl (d, index_file_path k idx) = Some h" if "map_of (cl_index_handles cl) (d, k, idx) = Some h" for d k idx h
      using coherentD(3) [OF c that] file_names(1,3) [OF n(1), of k idx] by (auto simp: r)
    show "no_dot k \<and> ((d, k) \<notin> {} \<longrightarrow> set fnames = listed ?cl d k)" if "map_of (cl_listing cl) (d, k) = Some fnames" for d k fnames
      using coherentD(4) [OF c that] l by simp
  qed (use coherentD [OF c] in simp_all)
qed (use c in \<open>simp add: replace_file_def\<close>)

lemma coherent_compact:
  assumes c: "coherent {} M cl" and n: "no_dot coll" and b: "\<forall>idx. cleans (builds idx)"
  shows "coherent {} M (snd (compact opens db coll copied rename builds cl))"
proof (rule get_handle_coherent [OF c n, of opens db])
  fix h c1 assume g: "get_handle opens db coll cl = (PyOk h, c1)" "coherent {} M c1"
  have rm: "coherent {} M (remove_file (db, tmp_file coll) c1)"
    by (rule coherent_remove [OF g(2)]) (use file_names(2) [OF _ n] file_names(3) [OF n] in metis)+
  show ?thesis
  proof (rule open_file_coherent [OF rm, of "tmp_file coll" db opens])
    fix tmp c2 assume o: "open_file opens (db, tmp_file coll) (remove_file (db, tmp_file coll) c1) = (PyOk tmp, c2)" "coherent {} (add_mset tmp M) c2"
    let ?c2 = "close_handle tmp c2"
    have c2: "coherent {} M ?c2" by (rule coherent_close [OF o(2)])
    obtain r c3 where l: "list_indexes opens db coll ?c2 = (r, c3)" "coherent {} M c3"
      using coherent_list_indexes [OF c2, of opens db coll] by (cases "list_indexes opens db coll ?c2") simp
    let ?c4 = "replace_file (db, tmp_file coll) (db, data_file coll) (invalidate_handle db coll c3)"
    have c4: "coherent {} M ?c4" by (rule coherent_replace [OF coherent_invalidate [OF l(2)] n]) simp
    have d: "coherent {} M (snd (drop_each db coll idxs ?c4))" for idxs by (rule coherent_drop_each [OF c4 n])
    have e: "coherent {} M (snd (create_each opens db coll builds idxs c5))" if "drop_each db coll jdxs ?c4 = (r, c5)" for idxs jdxs r c5
      using coherent_create_each [OF _ n b, of M c5 opens db idxs] d [of jdxs] that by simp
    have d': "coherent {} M c5" if "drop_each db coll idxs ?c4 = (r, c5)" for idxs r c5 using d [of idxs] that by simp
    show ?thesis using g(1) o(1) l c2 d' e by (auto simp: compact_def Let_def split: py.split prod.split)
  next
    fix e c2 assume "open_file opens (db, tmp_file coll) (remove_file (db, tmp_file coll) c1) = (PyRaise e, c2)" "coherent {} M c2"
    then show ?thesis using g(1) by (simp add: compact_def)
  qed (use n in blast)
next
  fix e cl' assume "get_handle opens db coll cl = (PyRaise e, cl')" "coherent {} M cl'"
  then show ?thesis by (simp add: compact_def)
qed

lemma fold_close: "cl_open (fold close_handle hs cl) = fold remove1 hs (cl_open cl)"
  "cl_files (fold close_handle hs cl) = cl_files cl" "cl_listing (fold close_handle hs cl) = cl_listing cl"
  by (induction hs arbitrary: cl) (simp_all add: close_handle_def)

lemma fold_remove1: "mset (fold remove1 hs xs) = mset xs - mset hs"
  by (induction hs arbitrary: xs) (simp_all add: diff_diff_add_mset)

lemma coherent_close_client:
  assumes c: "coherent {} M cl"
  shows "coherent {} M (close_client cl)"
proof -
  have "mset (cl_open (close_client cl)) = M"
    using coherentD(7) [OF c] by (simp add: close_client_def fold_close fold_remove1)
  then show ?thesis
    using coherentD [OF c] by (intro coherentI) (auto simp: close_client_def fold_close listed_def)
qed

section \<open>Calls\<close>

datatype client_call =
    Call_handle name name | Call_index_handles name name
  | Call_create_index name name name bool build_result | Call_drop_index name name name | Call_drop_indexes name name
  | Call_drop_collection name name | Call_compact name name "unit py" "name \<Rightarrow> name" "name \<Rightarrow> build_result" | Call_close

fun run_call :: "(fpath \<Rightarrow> open_result) \<Rightarrow> client_call \<Rightarrow> client \<Rightarrow> client" where
  "run_call opens (Call_handle db coll) cl = snd (get_handle opens db coll cl)"
| "run_call opens (Call_index_handles db coll) cl = snd (get_index_handles opens db coll cl)"
| "run_call opens (Call_create_index db coll idx same_spec built) cl = snd (create_index_on opens db coll idx same_spec built cl)"
| "run_call opens (Call_drop_index db coll s) cl = snd (drop_index db coll s cl)"
| "run_call opens (Call_drop_indexes db coll) cl = snd (drop_indexes opens db coll cl)"
| "run_call opens (Call_drop_collection db coll) cl = drop_collection db coll cl"
| "run_call opens (Call_compact db coll copied rename builds) cl = snd (compact opens db coll copied rename builds cl)"
| "run_call opens Call_close cl = close_client cl"

text \<open>No dots in names of collections, and a build that fails leaves no file behind.\<close>

fun tame :: "client_call \<Rightarrow> bool" where
  "tame (Call_handle db coll) = no_dot coll"
| "tame (Call_index_handles db coll) = no_dot coll"
| "tame (Call_create_index db coll idx same_spec built) = (no_dot coll \<and> cleans built)"
| "tame (Call_drop_index db coll s) = no_dot coll"
| "tame (Call_drop_indexes db coll) = no_dot coll"
| "tame (Call_drop_collection db coll) = no_dot coll"
| "tame (Call_compact db coll copied rename builds) = (no_dot coll \<and> (\<forall>idx. cleans (builds idx)))"
| "tame Call_close = True"

lemma run_call_coherent: "coherent {} M cl \<Longrightarrow> tame call \<Longrightarrow> coherent {} M (run_call opens call cl)"
proof (cases call)
  case (Call_handle db coll)
  assume "coherent {} M cl" "tame call"
  then show ?thesis using Call_handle by (auto elim: get_handle_coherent [of "{}" M cl coll opens db])
next
  case (Call_index_handles db coll)
  assume "coherent {} M cl" "tame call"
  then show ?thesis using Call_index_handles get_index_handles_coherent [of M cl coll opens db] by auto
qed (simp_all add: coherent_create coherent_drop_index coherent_drop_indexes coherent_drop_collection coherent_compact coherent_close_client)

text \<open>A client on a directory with some files; nothing is open yet (\<^verbatim>\<open>__init__\<close>).\<close>

definition new_client :: "name list \<Rightarrow> (fpath \<times> nat) list \<Rightarrow> client" where
  "new_client dirs fs = \<lparr>cl_dirs = dirs, cl_files = fs, cl_next = Suc (fold max (map snd fs) 0), cl_handles = [], cl_index_handles = [],
     cl_listing = [], cl_open = []\<rparr>"

text \<open>
  C7. A client starts on a directory whose files have names as the client itself gives them (\<open>file_form\<close>), and
  makes tame calls: on collections without dots in their names, dropping no database, and with builds of
  indexes that leave no file behind when they fail. After such calls no handle has
  leaked: the open ones are the cached ones. The handle that a collection gets is that of the file that
  has its name now, and the indexes that it gets are those that are on disk now, by their names, each with
  the handle of its file. The conditions are needed: \<open>dropped_database_still_open\<close> and
  \<open>dotted_collections_collide\<close> below show what happens after \<^verbatim>\<open>drop_database\<close> and with dots.
\<close>

theorem client_caches_coherent:
  assumes fs: "\<forall>((db, fname), i) \<in> set fs. file_form fname" and calls: "\<forall>call \<in> set calls. tame call" and n: "no_dot coll"
    and cl: "cl = fold (run_call opens) calls (new_client dirs fs)"
  shows "mset (cl_open cl) = mset (map snd (cl_handles cl)) + mset (map snd (cl_index_handles cl)) \<and>
    (\<forall>h cl'. get_handle opens db coll cl = (PyOk h, cl') \<longrightarrow> inode_of cl' (db, data_file coll) = Some h) \<and>
    (\<forall>hs cl'. get_index_handles opens db coll cl = (PyOk hs, cl') \<longrightarrow>
       fst ` set hs = {idx. inode_of cl (db, index_file_path coll idx) \<noteq> None} \<and>
       (\<forall>(idx, h) \<in> set hs. inode_of cl' (db, index_file_path coll idx) = Some h))"
proof -
  have "coherent {} {#} (new_client dirs fs)"
    by (rule coherentI) (use fs in \<open>auto simp: new_client_def dest: map_of_SomeD\<close>)
  then have c: "coherent {} {#} cl"
    unfolding cl using calls by (induction calls arbitrary: dirs fs rule: rev_induct) (simp_all add: run_call_coherent)
  have "inode_of cl' (db, data_file coll) = Some h" if "get_handle opens db coll cl = (PyOk h, cl')" for h cl'
    by (rule get_handle_coherent [OF c n, of opens db]) (use that in simp_all)
  moreover have "fst ` set hs = {idx. inode_of cl (db, index_file_path coll idx) \<noteq> None} \<and>
       (\<forall>(idx, h) \<in> set hs. inode_of cl' (db, index_file_path coll idx) = Some h)"
    if "get_index_handles opens db coll cl = (PyOk hs, cl')" for hs cl'
    using that get_index_handles_coherent [OF c n, of opens db] by auto
  ultimately show ?thesis using coherentD(7) [OF c] by simp
qed

definition sample_client_calls :: "client_call list" where
  "sample_client_calls =
     [Call_create_index [100] [99] [120] True Built, Call_index_handles [100] [99], Call_drop_collection [100] [99]]"

theorem client_caches_coherent_witness:
  "\<exists>cl'. get_handle (\<lambda>_. Opens) [100] [99] (fold (run_call (\<lambda>_. Opens)) sample_client_calls (new_client [] [])) = (PyOk 3, cl') \<and>
    inode_of cl' ([100], data_file [99]) = Some 3"
proof -
  let ?cl = "fold (run_call (\<lambda>_. Opens)) sample_client_calls (new_client [] [])"
  obtain cl' where g: "get_handle (\<lambda>_. Opens) [100] [99] ?cl = (PyOk 3, cl')"
  proof -
    have "fst (get_handle (\<lambda>_. Opens) [100] [99] ?cl) = PyOk 3" by code_simp
    then show thesis using that by (cases "get_handle (\<lambda>_. Opens) [100] [99] ?cl") simp
  qed
  have "\<forall>call \<in> set sample_client_calls. tame call" by (simp add: sample_client_calls_def no_dot_def cleans_def)
  then show ?thesis
    using client_caches_coherent [of "[]" sample_client_calls "[99]" ?cl "\<lambda>_. Opens" "[]" "[100]"] g by (simp add: no_dot_def)
qed

section \<open>Where the caches disagree\<close>

text \<open>
  C39. \<^verbatim>\<open>drop_database\<close> closes nothing: a collection whose handle is cached keeps it, although no file of
  that name is left, and goes on reading and writing the file that was removed.
\<close>

theorem dropped_database_still_open:
  assumes "map_of (cl_handles cl) (db, coll) = Some h" and "db \<in> set (cl_dirs cl)"
  shows "get_handle opens db coll (drop_database db cl) = (PyOk h, drop_database db cl) \<and>
    inode_of (drop_database db cl) (db, fname) = None \<and> list_collection_names db (drop_database db cl) = PyRaise OSError"
proof -
  have "map_of (filter (\<lambda>e. fst (fst e) \<noteq> db) (cl_files cl)) (db, fname) = None" by (auto simp: map_of_eq_None_iff)
  then show ?thesis using assms by (simp add: get_handle_def drop_database_def list_collection_names_def)
qed

theorem dropped_database_still_open_witness:
  "get_handle (\<lambda>_. Opens) [100] [99] (drop_database [100] (snd (get_handle (\<lambda>_. Opens) [100] [99] (new_client [] [])))) =
    (PyOk 1, drop_database [100] (snd (get_handle (\<lambda>_. Opens) [100] [99] (new_client [] []))))"
proof -
  let ?cl = "snd (get_handle (\<lambda>_. Opens) [100] [99] (new_client [] []))"
  have "map_of (cl_handles ?cl) ([100], [99]) = Some 1" "[100] \<in> set (cl_dirs ?cl)"
    by (simp_all add: get_handle_def new_client_def open_file_def touch_def file_exists_def make_dir_def Let_def)
  from dropped_database_still_open [OF this, of "\<lambda>_. Opens"] show ?thesis by blast
qed

lemma open_indexes_names:
  "open_indexes opens db coll fnames cl = (PyOk hs, cl') \<Longrightarrow> fst ` set hs = index_name_of coll ` set fnames"
proof (induction fnames arbitrary: cl hs)
  case (Cons fname fnames)
  then obtain h cl1 hs1 where o: "open_indexes opens db coll fnames cl1 = (PyOk hs1, cl')" "hs = (index_name_of coll fname, h) # hs1"
    by (auto split: prod.splits py.splits)
  then show ?case using Cons.IH [OF o(1)] by simp
qed simp

lemma fold_remove_inode:
  "inode_of (fold (\<lambda>fname. remove_file (db, fname)) fnames cl) (db, fname) =
     (if fname \<in> set fnames then None else inode_of cl (db, fname))"
  by (induction fnames arbitrary: cl) (auto simp: remove_file_def map_of_drop_key)

lemma fold_remove_fields: "cl_index_handles (fold (\<lambda>fname. remove_file (db, fname)) fnames cl) = cl_index_handles cl"
  by (induction fnames arbitrary: cl) (simp_all add: remove_file_def)

lemma fold_pop_fields:
  "cl_files (fold pop_index_handle ks cl) = cl_files cl"
  "k \<notin> set ks \<Longrightarrow> map_of (cl_index_handles (fold pop_index_handle ks cl)) k = map_of (cl_index_handles cl) k"
  by (induction ks arbitrary: cl) simp_all

lemma dotted_is_index: "is_index_file coll (index_file_path (coll @ 46 # sub) idx)"
  "index_name_of coll (index_file_path (coll @ 46 # sub) idx) = sub @ 46 # idx"
  by (simp_all add: is_index_file_def starts_with_def ends_with_def index_name_of_def index_file_path_def str_codes)

text \<open>
  C40. A collection \<^verbatim>\<open>a\<close> takes the index files of a collection \<^verbatim>\<open>a.b\<close> for its own: it gets their handles
  among those that its documents are entered in, and dropping it removes them, while the handle that
  \<^verbatim>\<open>a.b\<close> has cached stays.
\<close>

theorem dotted_collections_collide:
  assumes f: "inode_of cl (db, index_file_path (coll @ 46 # sub) idx) = Some h"
    and fresh: "map_of (cl_listing cl) (db, coll) = None"
  shows "(\<forall>hs cl'. get_index_handles opens db coll cl = (PyOk hs, cl') \<longrightarrow> sub @ 46 # idx \<in> fst ` set hs) \<and>
    inode_of (drop_collection db coll cl) (db, index_file_path (coll @ 46 # sub) idx) = None \<and>
    map_of (cl_index_handles (drop_collection db coll cl)) (db, coll @ 46 # sub, idx) =
      map_of (cl_index_handles cl) (db, coll @ 46 # sub, idx)"
proof (intro conjI allI impI)
  let ?fname = "index_file_path (coll @ 46 # sub) idx"
  fix hs cl' assume "get_index_handles opens db coll cl = (PyOk hs, cl')"
  then have "fst ` set hs = index_name_of coll ` set (index_fnames db coll cl)"
    using fresh open_indexes_names by (simp add: get_index_handles_def Let_def)
  moreover have "?fname \<in> set (index_fnames db coll cl)" using f by (simp add: index_fnames_listed listed_def dotted_is_index)
  ultimately show "sub @ 46 # idx \<in> fst ` set hs" using dotted_is_index(2) by (metis imageI)
next
  let ?fname = "index_file_path (coll @ 46 # sub) idx"
  let ?c2 = "remove_file (db, data_file coll) (invalidate_handle db coll cl)"
  define ks where "ks = filter (\<lambda>(d, c, i). d = db \<and> c = coll) (map fst (cl_index_handles ?c2))"
  let ?c3 = "fold pop_index_handle ks ?c2"
  have d: "drop_collection db coll cl =
      invalidate_index_listing db coll (fold (\<lambda>fname. remove_file (db, fname)) (index_fnames db coll ?c3) ?c3)"
    by (simp add: drop_collection_def Let_def ks_def)
  have "inode_of ?c3 (db, ?fname) \<noteq> None \<Longrightarrow> ?fname \<in> set (index_fnames db coll ?c3)"
    by (simp add: index_fnames_listed listed_def dotted_is_index)
  then show "inode_of (drop_collection db coll cl) (db, ?fname) = None"
    unfolding d by (cases "inode_of ?c3 (db, ?fname)") (auto simp: fold_remove_inode)
  have "(db, coll @ 46 # sub, idx) \<notin> set ks" by (auto simp: ks_def)
  then show "map_of (cl_index_handles (drop_collection db coll cl)) (db, coll @ 46 # sub, idx) =
      map_of (cl_index_handles cl) (db, coll @ 46 # sub, idx)"
    unfolding d by (simp add: fold_remove_fields fold_pop_fields remove_file_def)
qed

text \<open>The index \<^verbatim>\<open>x\<close> of the collection \<^verbatim>\<open>a.b\<close>, and the collection \<^verbatim>\<open>a\<close>.\<close>

theorem dotted_collections_collide_witness:
  "inode_of (drop_collection [100] [97] (new_client [[100]] [(([100], index_file_path [97, 46, 98] [120]), 7)]))
    ([100], index_file_path [97, 46, 98] [120]) = None"
  using dotted_collections_collide [of "new_client [[100]] [(([100], index_file_path [97, 46, 98] [120]), 7)]" "[100]" "[97]" "[98]" "[120]" 7]
  by (simp add: new_client_def)

end
