(* ===== verification/Spec2Isabelle.thy ===== *)
theory Spec2Isabelle
  imports Bson_Writer Bson_Mmap_Win Collection_Handle Index_Properties Codec_Canonical Index_Order Object_Id Cursor_Properties Client_Properties
begin

text \<open>
  bsondb is a document database: a C engine under src/c_engine with Python bindings under
  src/python_bindings and a Python layer of collections in python/bsondb. This development models the
  engine, the bindings, and what collections and indexes do with them, in the layers of the code,
  and proves what each layer promises to the one above.

  The parts and how they interact.

  \<^item> The codec engine (bson_engine.c). A bounds-checked reader walks a buffer; a structural
    iterator on it steps from element to element; the validator recurses over nested documents
    with it. A growable writer produces documents.
  \<^item> The collection data file (platform_mmap.c, storage.c, scanner.c). A memory-mapped file holds a
    64-byte header and a log of records: a status byte and a document. Append, tombstone and read
    work on one record; opening a dirty file recovers the log with the validator; the scanner
    walks the live records.
  \<^item> The index file (btree.c). The same kind of mapped file holds a header page and the pages of a
    B+tree from 13-byte keys to record offsets.
  \<^item> The bindings (_storage_core.c): CollectionHandle and IndexHandle, which check that they are
    open and the sizes of their arguments, and turn status codes into exceptions.
  \<^item> The codec bindings (_bson_core.c): encode walks a Python object with the writer, decode runs the
    validator and then builds an object with the iterator.
  \<^item> Filters and updates (query.py): a filter is evaluated on a decoded document, and an update document
    makes a new document from an old one.
  \<^item> Collections (collection.py, index.py): a data file with its index files. A document is encoded and
    appended, and its keys are inserted into every index; it is found through an index or by a scan, and
    the filter is evaluated on what was found.
  \<^item> Cursors (cursor.py) pull the matches of a query from a collection, and the client (client.py) opens
    the files of collections and indexes and caches their handles. Object ids (object_id.py) are made for
    documents without one.

  How the model is built. An engine call returns a \<open>result\<close>: \<open>Ok\<close>, \<open>Err\<close> with the status code,
  \<open>Fault\<close> for undefined behaviour (an access outside of an object, a store into a read-only mapping) or
  \<open>Diverge\<close> for a call that does not come back. Calls on a mapped file are functions from the file to a
  result and the file (\<open>io\<close>). A buffer is its list of bytes and a pointer is an offset; \<^verbatim>\<open>size_t\<close> is a
  natural number whose wrap-around is written out (\<open>size_add\<close>, \<open>size_mul\<close>, \<open>size_sub\<close>). Operating
  system calls and allocations are parameters (\<open>os_calls\<close>, \<open>alloc\<close>) that say which of them succeed;
  a theorem that needs them to succeed says so.

  Theories, and the code they model.

  \<^item> Bson_Prelude: \<open>bson_status\<close>, the result monad, memory access. Bson_Bytes: the byte-order
    helpers and constants of wire_spec.h, for hosts of either byte order.
  \<^item> Bson_Reader, Bson_Utf8, Bson_Iter, Bson_Validate, Bson_Writer: the sections of bson_engine.c,
    function by function under the names of the code. Bson_Grammar: the wire format as a datatype
    of documents with its encoding; the validator accepts exactly the encodings.
  \<^item> Bson_Memory: slices and stores. Bson_Mmap: the POSIX half of platform_mmap.c.
    Bson_Mmap_Win: its Windows half, and how it refines the POSIX one.
    Bson_Storage: storage.c, with the abstraction of the file to a list of records.
    Bson_Scanner: scanner.c.
  \<^item> Collection_Handle: the CollectionHandle methods, and the contract \<open>record_store\<close> of a log of
    records (a locale, interpreted on them) from which the full scan of the Python layer is derived.
  \<^item> Btree_Key, Btree_Page, Btree_Search, Btree_Update, Btree_Insert, Btree_File: btree.c, in the
    order of its sections. Btree_Key holds the locale \<open>key_order\<close> of the comparison, Btree_Search the
    abstraction of pages to trees (\<open>index_image\<close>), Btree_Abstract insertion on abstract trees, and
    Btree_Refine the proof that the page-splitting code implements it.
  \<^item> Index_Handle: the IndexHandle methods, and the contract \<open>unique_map\<close> of a unique index as a
    finite map, interpreted on them. Index_Properties: the theorems on index files.
  \<^item> Python_Api: exceptions, and C API calls that return a status and may set an exception.
    Bson_Datetime: the calendar and the datetime conversions of _bson_core.c. Bson_Codec: its
    encode and decode, on the objects \<open>pyval\<close>. Codec_Encode: the document \<open>wire_val\<close> of an object, and
    that encoding writes it. Codec_Decode: the object \<open>obj_val\<close> of a document, and that decoding
    builds it. Codec_Properties: the theorems on the codec, among them the round trip.
    Codec_Canonical: the objects that decoding builds, which encoding and decoding keep.
  \<^item> Python_Values: equality and order of Python on the values of documents. Query_Match and Query_Update:
    query.py. Query_Properties: the theorems on filters and update operators.
  \<^item> Document_Collection: the steps of collection.py and index.py over the codec and the two kinds of
    handles. Collection_Operations: the other operations of a collection. Collection_Content: the list
    of documents that a data file holds, and the agreement of a unique index with it.
    Collection_Steps: what each step does to the two. Collection_Properties: the theorems on single
    operations. Index_Order: what the order of keys has to do with the order of values, and what an
    index hides. Collection_Spec: the specification of the operations on a list of documents, and
    Collection_Refine: the proof that sequences of calls implement it.
  \<^item> Collection_Cursor: cursor.py, whose stream is the state of the generator between two documents.
    Cursor_Properties: what iteration gives, also on a collection that changes meanwhile. Object_Id:
    object_id.py. Python_Client: client.py, and what index.py and collection.py do with files: the names
    of a directory, the inodes behind them, and the cached handles. Client_Properties: the invariant of
    the caches, and where it fails.

  What the lemmas show. Reader, iterator, validator: no read leaves the buffer, every call comes
  back, and what is accepted is exactly the wire format. Writer: what is appended are the encoded
  bytes, within the capacity and the size limit. Storage: each operation is the expected one on
  the list of records, whatever the states of the operating system, and recovery finds the longest
  run of valid records. Index: searches, deletion and insertion with its page splits are the
  expected ones on the sorted list of entries; sequences of operations on a unique index refine a
  finite map; a non-unique index loses duplicates. Collections: with unique indexes, data file and
  indexes hold the same documents after every operation (\<open>coll_holds\<close>) on documents that can be stored and that every index has a key for, finding through an index is
  finding by a scan as long as the filter compares values as an index does, and every sequence of calls
  for which the specification is defined gives its replies; the exceptions that leave a document behind or lose one, and
  the filters for which an index hides documents, are theorems, too. Filters and updates: a well-formed
  filter always evaluates (\<open>filter_ok\<close> also excludes segments of digits that Python does not convert), and an update changes what its paths lead to and nothing else. Cursors: a query
  gives its page of the matches, from the collection as it is at each step unless it sorts or uses an index, and sorting is stable.
  Client: no handle leaks and every cached one is that of the file that has its name, as long as no
  collection has a dot in its name, no database is dropped, and no failing build of an index leaves its file.

  Bounds and fuel. The doubling of a file's capacity has fuel 64: a \<^verbatim>\<open>size_t\<close> that was doubled 64
  times is 0 for ever. The walks over the pages of an index have as fuel the number of pages that
  fit in the mapping (\<open>page_fuel\<close>): a walk that visits more visits one twice, and never ends. For
  a well-formed index the fuel is proved to be enough. The theorems on insertion assume fewer than
  \<open>2 ^ 39\<close> pages (\<open>2 ^ 37\<close> offsets in a unique index), so that byte offsets stay below \<open>2 ^ 64\<close>.
  The theorems on collections assume a data file below \<open>2 ^ 37\<close> bytes, which gives both bounds; a
  scan has as fuel any number of rounds that is at least the end of the file.

  Not modelled. The texts of error messages, reference counting, argument parsing and module
  initialisation of the bindings, failing allocations of Python objects, the floating-point product
  of a UTC offset; of the Python layer, the specifications of index keys other than a field path, files that cannot be
  removed or closed, and the time, hash and order operators of an object id. Some definitions are those of the
  code on part of their arguments: \<open>py_sort\<close> raises where any two values cannot be compared, while
  \<^verbatim>\<open>list.sort\<close> may not get to compare them, and differs from it on NaN (\<open>ordered_values\<close> excludes both);
  \<open>update_many\<close> applies the update it was given to every document, while \<^verbatim>\<open>$set\<close> stores parts of the update
  itself, so that an update that leads into them changes from one document to the next
  (\<open>unshared_update\<close> excludes it, and the specification says nothing of such a call); the digits of path segments are those of
  Unicode 14, and more than 4300 of them are an error as by default; the page number of a corrupt index
  times the page size is not reduced, so that a product that wraps is a fault where the code may get to
  another page; the temporary
  handle of \<^verbatim>\<open>compact\<close> and the wide path of the Windows half are not among the resources counted. A cursor is modelled with
  a collection and its open indexes, the client with the names and inodes of files: what a handle of the
  client reads and writes is in the theories on handles. The theorems on collections are about unique
  indexes: a non-unique one does not find all of its entries (\<open>duplicates_missed\<close>). Concurrent access by
  several processes is not modelled either: the code does not lock its files.
\<close>

end
